(* ===== verification/RT_Prelude.thy ===== *)
theory RT_Prelude
  imports Main "HOL-Library.Word" "HOL-Library.Monad_Syntax"
begin

text \<open>
  Shared base of the development: the integer types of \<^verbatim>\<open>include/rtdef.h\<close> at their
  widths, the error codes, the alignment macros, the option monad in which a failed
  \<^verbatim>\<open>RT_ASSERT\<close> (the system stops in \<^verbatim>\<open>rt_assert_handler\<close>) or a null dereference is the
  value \<open>None\<close>, and the generic list and word lemmas every component uses.
\<close>

unbundle bit_operations_syntax

section \<open>Machine types, error codes, alignment\<close>

type_synonym u8 = "8 word"
type_synonym u16 = "16 word"
type_synonym u32 = "32 word"

text \<open>Error numbers of \<^verbatim>\<open>rtdef.h\<close>; the functions return them negated as \<^verbatim>\<open>rt_err_t\<close>.\<close>

type_synonym rt_err_t = int

abbreviation (input) RT_EOK :: rt_err_t where "RT_EOK \<equiv> 0"
abbreviation (input) RT_ERROR :: rt_err_t where "RT_ERROR \<equiv> 1"
abbreviation (input) RT_ETIMEOUT :: rt_err_t where "RT_ETIMEOUT \<equiv> 2"
abbreviation (input) RT_EFULL :: rt_err_t where "RT_EFULL \<equiv> 3"
abbreviation (input) RT_EEMPTY :: rt_err_t where "RT_EEMPTY \<equiv> 4"
abbreviation (input) RT_ENOMEM :: rt_err_t where "RT_ENOMEM \<equiv> 5"
abbreviation (input) RT_ENOSYS :: rt_err_t where "RT_ENOSYS \<equiv> 6"
abbreviation (input) RT_EBUSY :: rt_err_t where "RT_EBUSY \<equiv> 7"
abbreviation (input) RT_EIO :: rt_err_t where "RT_EIO \<equiv> 8"
abbreviation (input) RT_EINTR :: rt_err_t where "RT_EINTR \<equiv> 9"
abbreviation (input) RT_EINVAL :: rt_err_t where "RT_EINVAL \<equiv> 10"

abbreviation (input) RT_TICK_MAX :: u32 where "RT_TICK_MAX \<equiv> 0xffffffff"
abbreviation (input) RT_TICK_HALF :: u32 where "RT_TICK_HALF \<equiv> 0x7fffffff"
abbreviation (input) RT_ALIGN_SIZE :: u32 where "RT_ALIGN_SIZE \<equiv> 4"

definition RT_ALIGN :: "u32 \<Rightarrow> u32 \<Rightarrow> u32" where
  "RT_ALIGN sz align = (sz + align - 1) AND NOT (align - 1)"

definition RT_ALIGN_DOWN :: "u32 \<Rightarrow> u32 \<Rightarrow> u32" where
  "RT_ALIGN_DOWN sz align = sz AND NOT (align - 1)"

section \<open>Assertions as an option monad\<close>

text \<open>
  \<^verbatim>\<open>RT_ASSERT(EX)\<close>: with the default handler a false condition never returns to the
  caller, so the rest of the function is not executed.
\<close>

definition rt_assert :: "bool \<Rightarrow> unit option" where
  "rt_assert b = (if b then Some () else None)"

lemma rt_assert_simps [simp]:
  "rt_assert True = Some ()" "rt_assert False = None"
  by (simp_all add: rt_assert_def)

lemma rt_assert_eq_Some [simp]: "rt_assert b = Some u \<longleftrightarrow> b"
  by (simp add: rt_assert_def)

lemma rt_assert_eq_None [simp]: "rt_assert b = None \<longleftrightarrow> \<not> b"
  by (simp add: rt_assert_def)

lemma rt_assert_bind [simp]: "b \<Longrightarrow> Option.bind (rt_assert b) f = f ()"
  by simp

text \<open>
  Total correctness of a step: it returns, and the result satisfies \<open>Q\<close>. The rules of
  \<open>wp\<close> compute it through a sequence of steps.
\<close>

named_theorems wp "rules for returns"

definition returns :: "'a option \<Rightarrow> ('a \<Rightarrow> bool) \<Rightarrow> bool" where
  "returns m Q \<longleftrightarrow> (\<exists>x. m = Some x \<and> Q x)"

lemma returns_simps [simp, wp]:
  "returns (Some x) Q \<longleftrightarrow> Q x"
  "returns None Q \<longleftrightarrow> False"
  "returns (Option.bind m f) Q \<longleftrightarrow> returns m (\<lambda>x. returns (f x) Q)"
  "returns (rt_assert b) P \<longleftrightarrow> b \<and> P ()"
  "returns (if c then m else m') Q \<longleftrightarrow> (if c then returns m Q else returns m' Q)"
  by (auto simp: returns_def rt_assert_def bind_eq_Some_conv)

lemma returns_mono: "returns m P \<Longrightarrow> (\<And>x. P x \<Longrightarrow> Q x) \<Longrightarrow> returns m Q"
  by (auto simp: returns_def)

lemma returns_conj: "returns m P \<Longrightarrow> returns m Q \<Longrightarrow> returns m (\<lambda>x. P x \<and> Q x)"
  by (auto simp: returns_def)

lemma returnsI: "m = Some x \<Longrightarrow> Q x \<Longrightarrow> returns m Q"
  by (simp add: returns_def)

lemma returns_SomeD: "returns m Q \<Longrightarrow> m = Some x \<Longrightarrow> Q x"
  by (simp add: returns_def)

lemma returnsE:
  assumes "returns m Q"
  obtains x where "m = Some x" and "Q x"
  using assms by (auto simp: returns_def)

text \<open>Collections: definitions unfolded by a component's invariant proofs, frame facts.\<close>

named_theorems kdefs "record updates of the kernel state, unfolded by simp"
named_theorems kframe "which fields an operation leaves unchanged"

section \<open>Lists\<close>

lemma distinct_set_remove1:
  "distinct xs \<Longrightarrow> set (remove1 x xs) = set xs - {x}"
  by (rule set_remove1_eq)

lemma remove1_absent [simp]: "x \<notin> set xs \<Longrightarrow> remove1 x xs = xs"
  by (rule remove1_idem)

lemma sorted_wrt_remove1: "sorted_wrt P xs \<Longrightarrow> sorted_wrt P (remove1 x xs)"
  by (induction xs) (auto dest: set_mp [OF set_remove1_subset])

lemma hd_Cons_tl_remove1: "xs \<noteq> [] \<Longrightarrow> remove1 (hd xs) xs = tl xs"
  by (cases xs) auto

section \<open>Single bits of words\<close>

lemma bit_or_single:
  fixes w :: "'a::len word"
  assumes "p < LENGTH('a)"
  shows "bit (w OR 2 ^ p) q \<longleftrightarrow> bit w q \<or> q = p"
  using assms by (auto simp: bit_or_iff bit_exp_iff)

lemma bit_and_not_single:
  fixes w :: "'a::len word"
  shows "bit (w AND NOT (2 ^ p)) q \<longleftrightarrow> bit w q \<and> q \<noteq> p"
  by (auto simp: bit_and_iff bit_not_iff bit_exp_iff dest: bit_imp_le_length)

lemma word_neq_0_bit:
  fixes w :: "'a::len word"
  shows "w \<noteq> 0 \<longleftrightarrow> (\<exists>n < LENGTH('a). bit w n)"
  by (auto simp: bit_eq_iff dest: bit_imp_le_length)

lemma Min_eq_least_nat:
  fixes A :: "nat set"
  assumes "m \<in> A" and "\<And>i. i < m \<Longrightarrow> i \<notin> A"
  shows "(LEAST i. i \<in> A) = m"
  using assms by (metis LeastI_ex Least_le linorder_not_less order_le_less)

text \<open>Counting below a bound does not wrap, nor counting down above zero.\<close>

lemma unat_Suc_less:
  fixes i n :: "'a::len word"
  assumes "i < n"
  shows "unat (i + 1) = Suc (unat i)"
proof -
  have "unat i < unat n" using assms by (simp add: word_less_nat_alt)
  moreover have "unat n < 2 ^ LENGTH('a)" by (rule unsigned_less)
  ultimately have "Suc (unat i) < 2 ^ LENGTH('a)"  by linarith
  then show ?thesis by (simp add: unat_word_ariths)
qed

lemma unat_Suc_minus:
  fixes i :: "'a::len word"
  assumes "unat i = Suc n"
  shows "unat (i - 1) = n"
  using assms by (subst unat_sub) (simp_all add: word_le_nat_alt)

end
