(* ===== verification/Memops.thy ===== *)
theory Memops
  imports RT_Prelude
begin

text \<open>
  The memory routines of \<^verbatim>\<open>src/kservice.c\<close> on a byte-addressed 32-bit memory. Memory words
  are little-endian, as on the Cortex-M3. \<^verbatim>\<open>rt_memset\<close> and \<^verbatim>\<open>rt_memcpy\<close> work word by word
  where the addresses are aligned; each is shown equal to its bytewise reference. Counts
  are natural numbers below \<open>2 ^ 32\<close>, addresses wrap.
\<close>

type_synonym memory = "u32 \<Rightarrow> u8"

section \<open>Words in memory\<close>

definition store_word :: "u32 \<Rightarrow> u32 \<Rightarrow> memory \<Rightarrow> memory" where
  "store_word a w m = m(a := ucast w, a + 1 := ucast (drop_bit 8 w),
     a + 2 := ucast (drop_bit 16 w), a + 3 := ucast (drop_bit 24 w))"

definition load_word :: "u32 \<Rightarrow> memory \<Rightarrow> u32" where
  "load_word a m = ucast (m a) OR push_bit 8 (ucast (m (a + 1))) OR
     push_bit 16 (ucast (m (a + 2))) OR push_bit 24 (ucast (m (a + 3)))"

lemma load_word_bytes:
  "ucast (load_word a m) = m a" "ucast (drop_bit 8 (load_word a m)) = m (a + 1)"
  "ucast (drop_bit 16 (load_word a m)) = m (a + 2)" "ucast (drop_bit 24 (load_word a m)) = m (a + 3)"
  by (rule bit_word_eqI; auto simp: load_word_def bit_or_iff bit_push_bit_iff bit_drop_bit_eq
      bit_ucast_iff bit_unsigned_iff dest: bit_imp_le_length)+

lemma load_store_word: "load_word a (store_word a w m) = w"
proof (rule bit_word_eqI)
  fix n assume "n < LENGTH(32)"
  have ne: "a + 1 \<noteq> a" "a + 2 \<noteq> a" "a + 3 \<noteq> a" "a + 2 \<noteq> a + 1" "a + 3 \<noteq> a + 1" "a + 3 \<noteq> a + 2"
    by simp_all
  consider "n < 8" | "8 \<le> n" "n < 16" | "16 \<le> n" "n < 24" | "24 \<le> n" by linarith
  then show "bit (load_word a (store_word a w m)) n = bit w n"
    using \<open>n < LENGTH(32)\<close> ne
    by cases (auto simp: load_word_def store_word_def bit_or_iff bit_push_bit_iff bit_drop_bit_eq
      bit_unsigned_iff dest: bit_imp_le_length)
qed

text \<open>Bytes put into memory one after the other.\<close>

fun store_bytes :: "u32 \<Rightarrow> u8 list \<Rightarrow> memory \<Rightarrow> memory" where
  "store_bytes a [] m = m"
| "store_bytes a (b # bs) m = store_bytes (a + 1) bs (m(a := b))"

lemma store_bytes_append:
  "store_bytes (a + of_nat (length xs)) ys (store_bytes a xs m) = store_bytes a (xs @ ys) m"
proof (induction xs arbitrary: a m)
  case (Cons x xs)
  show ?case using Cons.IH [of "a + 1" "fun_upd m a x"] by (simp add: add.assoc add.commute [of 1] del: fun_upd_apply)
qed simp

section \<open>memset\<close>

fun memset_bytes :: "u8 \<Rightarrow> u32 \<Rightarrow> nat \<Rightarrow> memory \<Rightarrow> memory" where
  "memset_bytes d a 0 m = m"
| "memset_bytes d a (Suc count) m = memset_bytes d (a + 1) count (m(a := d))"

fun memset_words :: "u32 \<Rightarrow> u32 \<Rightarrow> nat \<Rightarrow> memory \<Rightarrow> u32 \<times> nat \<times> memory" where
  "memset_words buffer a count m =
     (if count \<ge> 4 then memset_words buffer (a + 4) (count - 4) (store_word a buffer m)
      else (a, count, m))"

fun memset_blocks :: "u32 \<Rightarrow> u32 \<Rightarrow> nat \<Rightarrow> memory \<Rightarrow> u32 \<times> nat \<times> memory" where
  "memset_blocks buffer a count m =
     (if count \<ge> 16 then memset_blocks buffer (a + 16) (count - 16)
        (store_word (a + 12) buffer (store_word (a + 8) buffer
          (store_word (a + 4) buffer (store_word a buffer m))))
      else (a, count, m))"

definition rt_memset :: "u32 \<Rightarrow> u32 \<Rightarrow> nat \<Rightarrow> memory \<Rightarrow> memory" where
  "rt_memset s c count m =
     (let d = c AND 0xff in
      if \<not> count < 4 \<and> s AND 3 = 0 then
        let buffer = push_bit 8 d OR d;
            buffer = buffer OR push_bit 16 buffer;
            (a, count, m) = memset_blocks buffer s count m;
            (a, count, m) = memset_words buffer a count m
        in memset_bytes (ucast d) a count m
      else memset_bytes (ucast d) s count m)"

declare memset_words.simps [simp del] memset_blocks.simps [simp del]

lemma memset_bytes_add:
  "memset_bytes d a (i + j) m = memset_bytes d (a + of_nat i) j (memset_bytes d a i m)"
  by (induction i arbitrary: a m) (simp_all add: ac_simps)

lemma store_word_memset:
  assumes "ucast w = d" "ucast (drop_bit 8 w) = d" "ucast (drop_bit 16 w) = d" "ucast (drop_bit 24 w) = d"
  shows "store_word a w m = memset_bytes d a 4 m"
proof -
  have "memset_bytes d a 4 m = m(a := d, a + 1 := d, a + 2 := d, a + 3 := d)"
    by (simp add: numeral_eq_Suc add.assoc)
  then show ?thesis by (simp add: store_word_def assms)
qed

lemma memset_words_eq:
  assumes "\<And>a m. store_word a w m = memset_bytes d a 4 m"
    and "memset_words w a count m = (a', count', m')"
  shows "memset_bytes d a' count' m' = memset_bytes d a count m"
  using assms
proof (induction w a count m rule: memset_words.induct)
  case (1 w a count m)
  show ?case
  proof (cases "count \<ge> 4")
    case True
    with 1(3) have "memset_bytes d a' count' m' =
        memset_bytes d (a + 4) (count - 4) (store_word a w m)"
      by (intro 1(1) 1(2)) (simp_all add: memset_words.simps [of w a])
    with True memset_bytes_add [of d a 4 "count - 4" m] 1(2) show ?thesis by simp
  next
    case False
    then show ?thesis using 1(3) by (simp add: memset_words.simps)
  qed
qed

lemma memset_blocks_eq:
  assumes "\<And>a m. store_word a w m = memset_bytes d a 4 m"
    and "memset_blocks w a count m = (a', count', m')"
  shows "memset_bytes d a' count' m' = memset_bytes d a count m"
  using assms
proof (induction w a count m rule: memset_blocks.induct)
  case (1 w a count m)
  let ?m = "store_word (a + 12) w (store_word (a + 8) w (store_word (a + 4) w (store_word a w m)))"
  have m: "?m = memset_bytes d a (4 + (4 + (4 + 4))) m"
    unfolding memset_bytes_add 1(2) by (simp add: add.assoc)
  show ?case
  proof (cases "count \<ge> 16")
    case True
    with 1(3) have "memset_bytes d a' count' m' = memset_bytes d (a + 16) (count - 16) ?m"
      by (intro 1(1) 1(2)) (simp_all add: memset_blocks.simps [of w a])
    with True memset_bytes_add [of d a 16 "count - 16" m] m show ?thesis by simp
  next
    case False
    then show ?thesis using 1(3) by (simp add: memset_blocks.simps)
  qed
qed

lemma memset_buffer_bytes:
  fixes d :: u32
  assumes "d = take_bit 8 d"
  shows "let b = push_bit 8 d OR d; b = b OR push_bit 16 b in
    ucast b = (ucast d :: u8) \<and> ucast (drop_bit 8 b) = (ucast d :: u8) \<and>
    ucast (drop_bit 16 b) = (ucast d :: u8) \<and> ucast (drop_bit 24 b) = (ucast d :: u8)"
proof -
  have d: "bit d n \<Longrightarrow> n < 8" for n
    using assms by (metis bit_take_bit_iff)
  show ?thesis
    unfolding Let_def
    by (intro conjI bit_word_eqI)
       (auto simp: bit_or_iff bit_push_bit_iff bit_drop_bit_eq bit_unsigned_iff dest: d)
qed

text \<open>Filling \<open>n\<close> bytes from \<open>a\<close> on.\<close>

definition fill :: "u32 \<Rightarrow> nat \<Rightarrow> u8 \<Rightarrow> memory \<Rightarrow> memory" where
  "fill a n d m = (\<lambda>x. if unat (x - a) < n then d else m x)"

lemma unat_pred:
  fixes x a :: u32
  assumes "x \<noteq> a"
  shows "unat (x - a) = Suc (unat (x - (a + 1)))"
proof -
  have "x - a \<noteq> 0" using assms by simp
  then have "unat (x - a - 1) = unat (x - a) - 1" "unat (x - a) \<noteq> 0"
    by (simp_all add: unat_minus_one unat_eq_0)
  then show ?thesis by (simp add: diff_diff_eq)
qed

lemma memset_bytes_fill: "n \<le> 2 ^ 32 \<Longrightarrow> memset_bytes d a n m = fill a n d m"
proof (induction n arbitrary: a m)
  case (Suc n)
  have "fill (a + 1) n d (m(a := d)) x = fill a (Suc n) d m x" for x
  proof (cases "x = a")
    case False
    then show ?thesis by (simp add: fill_def unat_pred)
  next
    case True
    have "a - (a + 1) = 0xffffffff" by simp
    then have "unat (a - (a + 1)) = 2 ^ 32 - 1" by (simp only:) simp
    with Suc.prems True show ?thesis by (simp add: fill_def)
  qed
  with Suc show ?case by (simp add: fun_eq_iff)
qed (simp add: fill_def)

lemma rt_memset_bytes: "rt_memset s c count m = memset_bytes (ucast c) s count m"
proof -
  define d where "d = c AND 0xff"
  define b where "b = (push_bit 8 d OR d) OR push_bit 16 (push_bit 8 d OR d)"
  have m: "(0xff :: u32) = mask 8" by (simp add: mask_eq_exp_minus_1)
  have d: "d = take_bit 8 d" unfolding d_def m by (simp add: take_bit_eq_mask and.assoc)
  have u: "(ucast d :: u8) = ucast c"
    unfolding d_def m by (rule bit_word_eqI) (auto simp: bit_unsigned_iff bit_and_iff bit_mask_iff)
  have st: "store_word a b m = memset_bytes (ucast c) a 4 m" for a m
    using memset_buffer_bytes [OF d] u unfolding Let_def b_def [symmetric]
    by (intro store_word_memset) simp_all
  obtain a1 c1 m1 where 1: "memset_blocks b s count m = (a1, c1, m1)"
    by (cases "memset_blocks b s count m")
  obtain a2 c2 m2 where 2: "memset_words b a1 c1 m1 = (a2, c2, m2)"
    by (cases "memset_words b a1 c1 m1")
  show ?thesis
    using memset_blocks_eq [OF st 1] memset_words_eq [OF st 2]
    unfolding rt_memset_def Let_def d_def [symmetric] b_def [symmetric] 1 2 by (simp add: 1 2 u)
qed

lemma rt_memset_fill: "count < 2 ^ 32 \<Longrightarrow> rt_memset s c count m = fill s count (ucast c) m"
  by (simp add: rt_memset_bytes memset_bytes_fill)

section \<open>memcpy\<close>

fun memcpy_bytes :: "u32 \<Rightarrow> u32 \<Rightarrow> nat \<Rightarrow> memory \<Rightarrow> memory" where
  "memcpy_bytes dst src 0 m = m"
| "memcpy_bytes dst src (Suc len) m = memcpy_bytes (dst + 1) (src + 1) len (m(dst := m src))"

definition copy_word :: "u32 \<Rightarrow> u32 \<Rightarrow> memory \<Rightarrow> memory" where
  "copy_word dst src m = store_word dst (load_word src m) m"

fun memcpy_words :: "u32 \<Rightarrow> u32 \<Rightarrow> nat \<Rightarrow> memory \<Rightarrow> u32 \<times> u32 \<times> nat \<times> memory" where
  "memcpy_words dst src len m =
     (if len \<ge> 4 then memcpy_words (dst + 4) (src + 4) (len - 4) (copy_word dst src m)
      else (dst, src, len, m))"

fun memcpy_blocks :: "u32 \<Rightarrow> u32 \<Rightarrow> nat \<Rightarrow> memory \<Rightarrow> u32 \<times> u32 \<times> nat \<times> memory" where
  "memcpy_blocks dst src len m =
     (if len \<ge> 16 then memcpy_blocks (dst + 16) (src + 16) (len - 16)
        (copy_word (dst + 12) (src + 12) (copy_word (dst + 8) (src + 8)
          (copy_word (dst + 4) (src + 4) (copy_word dst src m))))
      else (dst, src, len, m))"

definition rt_memcpy :: "u32 \<Rightarrow> u32 \<Rightarrow> nat \<Rightarrow> memory \<Rightarrow> memory" where
  "rt_memcpy dst src count m =
     (if \<not> count < 16 \<and> (src AND 3) OR (dst AND 3) = 0 then
        let (dst, src, len, m) = memcpy_blocks dst src count m;
            (dst, src, len, m) = memcpy_words dst src len m
        in memcpy_bytes dst src len m
      else memcpy_bytes dst src count m)"

declare memcpy_words.simps [simp del] memcpy_blocks.simps [simp del]

lemma memcpy_bytes_add:
  "memcpy_bytes dst src (i + j) m =
     memcpy_bytes (dst + of_nat i) (src + of_nat i) j (memcpy_bytes dst src i m)"
  by (induction i arbitrary: dst src m) (simp_all add: ac_simps)

text \<open>
  Aligned words are equal or at least four bytes apart, so that copying a word at once and
  copying its bytes one by one agree, also where the areas overlap.
\<close>

definition aligned :: "u32 \<Rightarrow> bool" where
  "aligned a \<longleftrightarrow> a AND 3 = 0"

lemma aligned_uint: "aligned a \<longleftrightarrow> uint a mod 4 = 0"
proof -
  have "uint (a AND 3) = take_bit 2 (uint a)"
    by (simp add: unsigned_and_eq take_bit_eq_mask mask_eq_exp_minus_1)
  then have "uint (a AND 3) = uint a mod 4" by (simp add: take_bit_eq_mod)
  then show ?thesis by (metis aligned_def uint_0_iff)
qed

lemma uint_add_mod_4: "uint (a + b) mod 4 = (uint a + uint b) mod 4" for a b :: u32
  by (simp add: uint_word_ariths mod_mod_cancel)

lemma aligned_add: "aligned a \<Longrightarrow> aligned x \<Longrightarrow> aligned (a + x)"
  unfolding aligned_uint uint_add_mod_4 by (simp add: mod_add_eq [symmetric])

lemma aligned_const [simp]: "aligned 4" "aligned 8" "aligned 12" "aligned 16"
  by (simp_all add: aligned_def)

lemma aligned_apart:
  assumes "aligned a" and "aligned b" and "uint x mod 4 \<noteq> uint y mod 4"
  shows "a + x \<noteq> b + y"
proof
  assume "a + x = b + y"
  then have "(uint a + uint x) mod 4 = (uint b + uint y) mod 4"
    using uint_add_mod_4 by metis
  then have "(uint a mod 4 + uint x mod 4) mod 4 = (uint b mod 4 + uint y mod 4) mod 4"
    by (simp only: mod_add_eq)
  with assms show False by (simp add: aligned_uint)
qed

lemma copy_word_bytes:
  assumes "aligned dst" and "aligned src"
  shows "copy_word dst src m = memcpy_bytes dst src 4 m"
proof -
  note ap = aligned_apart [OF assms(2,1)]
  have "src + 1 \<noteq> dst" "src + 2 \<noteq> dst" "src + 2 \<noteq> dst + 1" "src + 3 \<noteq> dst" "src + 3 \<noteq> dst + 1"
    "src + 3 \<noteq> dst + 2"
    using ap [of 1 0] ap [of 2 0] ap [of 2 1] ap [of 3 0] ap [of 3 1] ap [of 3 2]
    by simp_all
  moreover have "memcpy_bytes dst src 4 m = memcpy_bytes dst src (Suc (Suc (Suc (Suc 0)))) m"
    by (simp add: numeral_eq_Suc)
  ultimately show ?thesis
    by (simp add: copy_word_def store_word_def load_word_bytes add.assoc)
qed

lemma memcpy_words_eq:
  assumes "aligned dst" and "aligned src" and "memcpy_words dst src len m = (dst', src', len', m')"
  shows "memcpy_bytes dst' src' len' m' = memcpy_bytes dst src len m"
  using assms
proof (induction dst src len m rule: memcpy_words.induct)
  case (1 dst src len m)
  show ?case
  proof (cases "len \<ge> 4")
    case True
    then have "memcpy_bytes dst' src' len' m' =
        memcpy_bytes (dst + 4) (src + 4) (len - 4) (copy_word dst src m)"
      using 1(2-4) by (intro 1(1)) (simp_all add: memcpy_words.simps [of dst] aligned_add)
    with True memcpy_bytes_add [of dst src 4 "len - 4" m] copy_word_bytes [OF 1(2,3)] show ?thesis
      by simp
  next
    case False
    then show ?thesis using 1(4) by (simp add: memcpy_words.simps)
  qed
qed

lemma memcpy_blocks_eq:
  assumes "aligned dst" and "aligned src" and "memcpy_blocks dst src len m = (dst', src', len', m')"
  shows "memcpy_bytes dst' src' len' m' = memcpy_bytes dst src len m \<and> aligned dst' \<and> aligned src'"
  using assms
proof (induction dst src len m rule: memcpy_blocks.induct)
  case (1 dst src len m)
  let ?m = "copy_word (dst + 12) (src + 12) (copy_word (dst + 8) (src + 8)
          (copy_word (dst + 4) (src + 4) (copy_word dst src m)))"
  have m: "?m = memcpy_bytes dst src (4 + (4 + (4 + 4))) m"
    unfolding memcpy_bytes_add using 1(2,3)
    by (simp add: copy_word_bytes aligned_add add.assoc)
  show ?case
  proof (cases "len \<ge> 16")
    case True
    then have "memcpy_bytes dst' src' len' m' = memcpy_bytes (dst + 16) (src + 16) (len - 16) ?m \<and>
        aligned dst' \<and> aligned src'"
      using 1(2-4) by (intro 1(1)) (simp_all add: memcpy_blocks.simps [of dst] aligned_add)
    with True memcpy_bytes_add [of dst src 16 "len - 16" m] m show ?thesis by simp
  next
    case False
    then show ?thesis using 1(2-4) by (simp add: memcpy_blocks.simps)
  qed
qed

lemma or_eq_0: "x OR y = 0 \<longleftrightarrow> x = 0 \<and> y = 0" for x y :: u32
  by (auto simp: bit_eq_iff bit_or_iff)

text \<open>Copying \<open>n\<close> bytes, all read before any is written.\<close>

definition copy :: "u32 \<Rightarrow> u32 \<Rightarrow> nat \<Rightarrow> memory \<Rightarrow> memory" where
  "copy dst src n m = (\<lambda>x. if unat (x - dst) < n then m (src + (x - dst)) else m x)"

text \<open>No byte that is still to be read lies where one was written before.\<close>

definition forward_ok :: "u32 \<Rightarrow> u32 \<Rightarrow> nat \<Rightarrow> bool" where
  "forward_ok dst src n \<longleftrightarrow> (\<forall>i < n. \<forall>j < i. src + of_nat i \<noteq> dst + of_nat j)"

lemma forward_ok_Suc:
  assumes "forward_ok dst src (Suc n)"
  shows "forward_ok (dst + 1) (src + 1) n" and "\<And>i. i < n \<Longrightarrow> src + 1 + of_nat i \<noteq> dst"
proof -
  show "forward_ok (dst + 1) (src + 1) n"
    unfolding forward_ok_def
  proof (intro allI impI)
    fix i j assume "i < n" "j < i"
    with assms [unfolded forward_ok_def, rule_format, of "Suc i" "Suc j"]
    show "src + 1 + of_nat i \<noteq> dst + 1 + of_nat j" by (simp add: add.assoc)
  qed
  show "src + 1 + of_nat i \<noteq> dst" if "i < n" for i
    using assms [unfolded forward_ok_def, rule_format, of "Suc i" 0] that by (simp add: add.assoc)
qed

lemma memcpy_bytes_copy:
  "n \<le> 2 ^ 32 \<Longrightarrow> forward_ok dst src n \<Longrightarrow> memcpy_bytes dst src n m = copy dst src n m"
proof (induction n arbitrary: dst src m)
  case (Suc n)
  have "copy (dst + 1) (src + 1) n (m(dst := m src)) x = copy dst src (Suc n) m x" for x
  proof (cases "x = dst")
    case False
    let ?i = "unat (x - (dst + 1))"
    have e: "src + 1 + (x - (dst + 1)) = src + (x - dst)" by simp
    have "?i < n \<Longrightarrow> src + (x - dst) \<noteq> dst"
      using forward_ok_Suc(2) [OF Suc.prems(2), of ?i] by simp
    then show ?thesis
      unfolding copy_def e unat_pred [OF False] using False by simp
  next
    case True
    have "dst - (dst + 1) = 0xffffffff" by simp
    then have "unat (dst - (dst + 1)) = 2 ^ 32 - 1" by (simp only:) simp
    with Suc.prems True show ?thesis by (simp add: copy_def)
  qed
  with Suc forward_ok_Suc(1) show ?case by (simp add: fun_eq_iff)
qed (simp add: copy_def)

lemma rt_memcpy_bytes: "rt_memcpy dst src n m = memcpy_bytes dst src n m"
proof (cases "\<not> n < 16 \<and> (src AND 3) OR (dst AND 3) = 0")
  case True
  then have a: "aligned dst" "aligned src" by (simp_all add: aligned_def or_eq_0)
  obtain d1 s1 l1 m1 where 1: "memcpy_blocks dst src n m = (d1, s1, l1, m1)"
    by (cases "memcpy_blocks dst src n m")
  obtain d2 s2 l2 m2 where 2: "memcpy_words d1 s1 l1 m1 = (d2, s2, l2, m2)"
    by (cases "memcpy_words d1 s1 l1 m1")
  show ?thesis
    using memcpy_blocks_eq [OF a 1] memcpy_words_eq [OF _ _ 2] True
    by (simp add: rt_memcpy_def 1 2)
qed (auto simp: rt_memcpy_def)

lemma rt_memcpy_spec:
  "rt_memcpy dst src n m = memcpy_bytes dst src n m \<and>
   (n < 2 ^ 32 \<and> forward_ok dst src n \<longrightarrow> rt_memcpy dst src n m = copy dst src n m)"
  by (simp add: rt_memcpy_bytes memcpy_bytes_copy)

lemma unat_add_of_nat:
  fixes a :: u32
  assumes "unat a + i < 2 ^ 32"
  shows "unat (a + of_nat i) = unat a + i"
  using assms by (simp add: unat_word_ariths unat_of_nat)

lemma forward_ok_below:
  assumes "unat dst \<le> unat src" and "unat src + n \<le> 2 ^ 32"
  shows "forward_ok dst src n"
  unfolding forward_ok_def
proof (intro allI impI notI)
  fix i j assume ij: "i < n" "j < i" and e: "src + of_nat i = dst + of_nat j"
  have "unat src + i = unat dst + j"
    using arg_cong [OF e, of unat] ij assms by (simp add: unat_add_of_nat)
  with ij assms(1) show False by simp
qed

lemma forward_ok_disjoint:
  assumes "unat src + n \<le> unat dst" and "unat dst + n \<le> 2 ^ 32"
  shows "forward_ok dst src n"
  unfolding forward_ok_def
proof (intro allI impI notI)
  fix i j assume ij: "i < n" "j < i" and e: "src + of_nat i = dst + of_nat j"
  have "unat src + i = unat dst + j"
    using arg_cong [OF e, of unat] ij assms by (simp add: unat_add_of_nat)
  with ij assms(1) show False by simp
qed

section \<open>memmove and memcmp\<close>

fun memmove_down :: "u32 \<Rightarrow> u32 \<Rightarrow> nat \<Rightarrow> memory \<Rightarrow> memory" where
  "memmove_down tmp s 0 m = m"
| "memmove_down tmp s (Suc n) m = memmove_down (tmp - 1) (s - 1) n (m(tmp - 1 := m (s - 1)))"

definition rt_memmove :: "u32 \<Rightarrow> u32 \<Rightarrow> nat \<Rightarrow> memory \<Rightarrow> memory" where
  "rt_memmove dest src n m =
     (if src < dest \<and> dest < src + of_nat n
      then memmove_down (dest + of_nat n) (src + of_nat n) n m
      else memcpy_bytes dest src n m)"

fun rt_memcmp :: "u32 \<Rightarrow> u32 \<Rightarrow> nat \<Rightarrow> memory \<Rightarrow> int" where
  "rt_memcmp cs ct 0 m = 0"
| "rt_memcmp cs ct (Suc count) m =
     (let res = uint (m cs) - uint (m ct)
      in if res \<noteq> 0 then res else rt_memcmp (cs + 1) (ct + 1) count m)"

lemma memmove_down_copy:
  assumes "unat src \<le> unat dst" and "unat dst + n < 2 ^ 32"
  shows "memmove_down (dst + of_nat n) (src + of_nat n) n m = copy dst src n m"
  using assms(2)
proof (induction n arbitrary: m)
  case (Suc n)
  have pre: "dst + of_nat (Suc n) - 1 = dst + of_nat n" "src + of_nat (Suc n) - 1 = src + of_nat n"
    by simp_all
  let ?m = "m(dst + of_nat n := m (src + of_nat n))"
  have "copy dst src n ?m x = copy dst src (Suc n) m x" for x
  proof (cases "unat (x - dst) < n")
    case True
    let ?i = "unat (x - dst)"
    have "src + of_nat ?i \<noteq> dst + of_nat n"
    proof
      assume "src + of_nat ?i = dst + of_nat n"
      from arg_cong [OF this, of unat] have "unat src + ?i = unat dst + n"
        using Suc.prems assms(1) True by (simp only: unat_add_of_nat)
      with True assms(1) show False by simp
    qed
    then show ?thesis using True by (simp add: copy_def)
  next
    case False
    have "x = dst + of_nat n \<longleftrightarrow> unat (x - dst) = n"
      using Suc.prems by (auto simp: unat_of_nat)
    then show ?thesis using False by (auto simp: copy_def less_Suc_eq)
  qed
  with Suc show ?case unfolding memmove_down.simps pre by (simp add: fun_eq_iff)
qed (simp add: copy_def)

lemma rt_memmove_spec:
  assumes "unat src + n < 2 ^ 32" and "unat dest + n < 2 ^ 32"
  shows "rt_memmove dest src n m = copy dest src n m"
proof (cases "src < dest \<and> dest < src + of_nat n")
  case True
  then have "unat src \<le> unat dest" by (simp add: word_less_nat_alt)
  then show ?thesis
    using True memmove_down_copy [OF _ assms(2)] by (simp add: rt_memmove_def)
next
  case False
  have "forward_ok dest src n"
  proof (cases "src < dest")
    case True
    with False have "src + of_nat n \<le> dest" by simp
    then have "unat src + n \<le> unat dest"
      using assms(1) by (simp add: word_le_nat_alt unat_add_of_nat)
    then show ?thesis using assms(2) by (intro forward_ok_disjoint) auto
  next
    case False
    then show ?thesis
      using assms(1) by (intro forward_ok_below) (auto simp: word_less_nat_alt)
  qed
  then show ?thesis
    using False assms(2) by (auto simp: rt_memmove_def memcpy_bytes_copy)
qed

text \<open>
  C25. \<^verbatim>\<open>rt_memcpy\<close>, which copies aligned areas in blocks of four words, then word by word,
  then byte by byte, has the effect of the plain loop over the bytes for all areas, so that it copies the source
  exactly whenever the destination does not begin inside the part of the source that is read
  later; \<^verbatim>\<open>rt_memmove\<close> copies the source exactly however the two areas overlap. Neither
  area may run over the end of the address space.
\<close>

theorem rt_memcpy_memmove_correct:
  assumes "unat src + n < 2 ^ 32" and "unat dest + n < 2 ^ 32"
  shows "rt_memcpy dest src n m = memcpy_bytes dest src n m \<and>
    (forward_ok dest src n \<longrightarrow> rt_memcpy dest src n m = copy dest src n m) \<and>
    rt_memmove dest src n m = copy dest src n m"
proof -
  have "n < 2 ^ 32" using assms(1) by linarith
  then show ?thesis using rt_memcpy_spec [of dest src n m] rt_memmove_spec [OF assms, of m] by blast
qed

theorem rt_memcpy_memmove_correct_witness:
  "rt_memcpy 0x20000100 0x20000200 37 (\<lambda>a. ucast a) 0x20000105 = 0x05 \<and>
   rt_memmove 0x20000003 0x20000000 8 (\<lambda>a. ucast a) 0x20000007 = 0x04"
proof -
  have "forward_ok 0x20000100 0x20000200 37" by (rule forward_ok_below) simp_all
  moreover have "unat (0x20000200 :: u32) + 37 < 2 ^ 32" "unat (0x20000100 :: u32) + 37 < 2 ^ 32"
    "unat (0x20000000 :: u32) + 8 < 2 ^ 32" "unat (0x20000003 :: u32) + 8 < 2 ^ 32" by simp_all
  ultimately have "rt_memcpy 0x20000100 0x20000200 37 ucast = copy 0x20000100 0x20000200 37 ucast"
    "rt_memmove 0x20000003 0x20000000 8 ucast = copy 0x20000003 0x20000000 8 ucast"
    using rt_memcpy_memmove_correct by blast+
  then show ?thesis by (simp add: copy_def)
qed

lemma rt_memcmp_eq_0:
  "rt_memcmp cs ct n m = 0 \<longleftrightarrow> (\<forall>i < n. m (cs + of_nat i) = m (ct + of_nat i))"
proof (induction n arbitrary: cs ct)
  case (Suc n)
  have "(\<forall>i < Suc n. m (cs + of_nat i) = m (ct + of_nat i)) \<longleftrightarrow>
      m cs = m ct \<and> (\<forall>i < n. m (cs + 1 + of_nat i) = m (ct + 1 + of_nat i))"
    by (auto simp: add.assoc less_Suc_eq_0_disj)
  with Suc show ?case by (auto simp: Let_def word_uint_eq_iff)
qed simp

end
