(* ===== verification/Rt_List.thy ===== *)
theory Rt_List
  imports RT_Prelude
begin

text \<open>
  The intrusive lists of \<^verbatim>\<open>include/rtservice.h\<close>. The doubly linked list is modelled at
  pointer level: a store of \<open>next\<close> and \<open>prev\<close> fields over node addresses, with the
  functions of the header as updates of that store in the order of the code's
  assignments. \<open>ring\<close> says that the nodes \<open>xs\<close> hang, in this order, in the circular
  list with head \<open>l\<close>; \<open>rings\<close> says so of every list of the kernel at once. The kernel
  components keep, for every list head, the sequence of its members; the refinement
  lemmas at the end justify this: each pointer routine changes those sequences the way
  the list operations do.
\<close>

section \<open>Doubly linked lists: the code\<close>

record 'n rt_list_store =
  nxt :: "'n \<Rightarrow> 'n"
  prv :: "'n \<Rightarrow> 'n"

definition set_nxt :: "'n \<Rightarrow> 'n \<Rightarrow> 'n rt_list_store \<Rightarrow> 'n rt_list_store" where
  "set_nxt a v h = h\<lparr>nxt := (nxt h)(a := v)\<rparr>"

definition set_prv :: "'n \<Rightarrow> 'n \<Rightarrow> 'n rt_list_store \<Rightarrow> 'n rt_list_store" where
  "set_prv a v h = h\<lparr>prv := (prv h)(a := v)\<rparr>"

definition rt_list_init :: "'n \<Rightarrow> 'n rt_list_store \<Rightarrow> 'n rt_list_store" where
  "rt_list_init l h = set_nxt l l (set_prv l l h)"

definition rt_list_insert_after :: "'n \<Rightarrow> 'n \<Rightarrow> 'n rt_list_store \<Rightarrow> 'n rt_list_store" where
  "rt_list_insert_after l n h =
     (let h = set_prv (nxt h l) n h;
          h = set_nxt n (nxt h l) h;
          h = set_nxt l n h
      in set_prv n l h)"

definition rt_list_insert_before :: "'n \<Rightarrow> 'n \<Rightarrow> 'n rt_list_store \<Rightarrow> 'n rt_list_store" where
  "rt_list_insert_before l n h =
     (let h = set_nxt (prv h l) n h;
          h = set_prv n (prv h l) h;
          h = set_prv l n h
      in set_nxt n l h)"

definition rt_list_remove :: "'n \<Rightarrow> 'n rt_list_store \<Rightarrow> 'n rt_list_store" where
  "rt_list_remove n h =
     (let h = set_prv (nxt h n) (prv h n) h;
          h = set_nxt (prv h n) (nxt h n) h
      in set_nxt n n (set_prv n n h))"

definition rt_list_isempty :: "'n \<Rightarrow> 'n rt_list_store \<Rightarrow> bool" where
  "rt_list_isempty l h \<longleftrightarrow> nxt h l = l"

text \<open>
  \<^verbatim>\<open>rt_list_len\<close> walks the \<open>next\<close> pointers until it is back at the head; on a store
  that is no ring it need not return, hence the option.
\<close>

partial_function (option) rt_list_len_loop ::
    "'n \<Rightarrow> 'n rt_list_store \<Rightarrow> 'n \<Rightarrow> nat \<Rightarrow> nat option" where
  "rt_list_len_loop l h p len =
     (if nxt h p \<noteq> l then rt_list_len_loop l h (nxt h p) (Suc len) else Some len)"

definition rt_list_len :: "'n \<Rightarrow> 'n rt_list_store \<Rightarrow> nat option" where
  "rt_list_len l h = rt_list_len_loop l h l 0"

section \<open>Rings\<close>

text \<open>\<open>dpath h a xs b\<close>: from \<open>a\<close> over the nodes \<open>xs\<close> to \<open>b\<close>, both pointers agreeing.\<close>

fun dpath :: "'n rt_list_store \<Rightarrow> 'n \<Rightarrow> 'n list \<Rightarrow> 'n \<Rightarrow> bool" where
  "dpath h a [] b \<longleftrightarrow> nxt h a = b \<and> prv h b = a"
| "dpath h a (x # xs) b \<longleftrightarrow> nxt h a = x \<and> prv h x = a \<and> dpath h x xs b"

definition ring :: "'n rt_list_store \<Rightarrow> 'n \<Rightarrow> 'n list \<Rightarrow> bool" where
  "ring h l xs \<longleftrightarrow> distinct (l # xs) \<and> dpath h l xs l"

lemma dpath_append [simp]:
  "dpath h a (xs @ x # ys) b \<longleftrightarrow> dpath h a xs x \<and> dpath h x ys b"
  by (induction xs arbitrary: a) auto

lemma dpath_frame_nxt [simp]:
  "m \<noteq> a \<Longrightarrow> m \<notin> set xs \<Longrightarrow> dpath (set_nxt m v h) a xs b = dpath h a xs b"
  by (induction xs arbitrary: a) (auto simp: set_nxt_def)

lemma dpath_frame_prv [simp]:
  "m \<noteq> b \<Longrightarrow> m \<notin> set xs \<Longrightarrow> dpath (set_prv m v h) a xs b = dpath h a xs b"
  by (induction xs arbitrary: a) (auto simp: set_prv_def)

lemma store_sel [simp]:
  "nxt (set_nxt a v h) b = (if b = a then v else nxt h b)"
  "prv (set_nxt a v h) = prv h"
  "prv (set_prv a v h) b = (if b = a then v else prv h b)"
  "nxt (set_prv a v h) = nxt h"
  by (auto simp: set_nxt_def set_prv_def)

lemma dpath_last: "dpath h a xs b \<Longrightarrow> prv h b = last (a # xs)"
  by (induction xs arbitrary: a) auto

lemma dpath_first: "dpath h a xs b \<Longrightarrow> nxt h a = hd (xs @ [b])"
  by (cases xs) auto

lemma ring_isempty: "ring h l xs \<Longrightarrow> rt_list_isempty l h \<longleftrightarrow> xs = []"
  by (cases xs) (auto simp: ring_def rt_list_isempty_def)

lemma ring_first: "ring h l (x # xs) \<Longrightarrow> nxt h l = x"
  by (simp add: ring_def)

lemma ring_init: "ring (rt_list_init l h) l []"
  by (simp add: ring_def rt_list_init_def)

section \<open>Each routine on the ring it works on\<close>

lemma ring_insert_before_node:
  assumes "ring h l (xs @ m # ys)" and "n \<notin> set (l # xs @ m # ys)"
  shows "ring (rt_list_insert_before m n h) l (xs @ n # m # ys)"
proof -
  have p: "prv h m = last (l # xs)"
    using assms by (auto simp: ring_def dest: dpath_last)
  show ?thesis
  proof (cases xs rule: rev_cases)
    case Nil
    with assms p show ?thesis
      by (auto simp: ring_def rt_list_insert_before_def Let_def)
  next
    case (snoc zs z)
    with assms p show ?thesis
      by (auto simp: ring_def rt_list_insert_before_def Let_def)
  qed
qed

lemma ring_insert_before_head:
  assumes "ring h l xs" and "n \<notin> set (l # xs)"
  shows "ring (rt_list_insert_before l n h) l (xs @ [n])"
proof -
  have p: "prv h l = last (l # xs)"
    using assms by (auto simp: ring_def dest: dpath_last)
  show ?thesis
  proof (cases xs rule: rev_cases)
    case Nil
    with assms p show ?thesis
      by (auto simp: ring_def rt_list_insert_before_def Let_def)
  next
    case (snoc zs z)
    with assms p show ?thesis
      by (auto simp: ring_def rt_list_insert_before_def Let_def)
  qed
qed

lemma ring_insert_after_head:
  assumes "ring h l xs" and "n \<notin> set (l # xs)"
  shows "ring (rt_list_insert_after l n h) l (n # xs)"
  using assms by (cases xs) (auto simp: ring_def rt_list_insert_after_def Let_def)

lemma ring_remove:
  assumes "ring h l (xs @ n # ys)"
  shows "ring (rt_list_remove n h) l (xs @ ys) \<and> ring (rt_list_remove n h) n []"
proof -
  have p: "prv h n = last (l # xs)"
    using assms by (auto simp: ring_def dest: dpath_last)
  have q: "nxt h n = hd (ys @ [l])"
    using assms by (auto simp: ring_def dest: dpath_first)
  show ?thesis
  proof (cases xs rule: rev_cases)
    case Nil
    with assms p q show ?thesis
      by (cases ys) (auto simp: ring_def rt_list_remove_def Let_def)
  next
    case (snoc zs z)
    with assms p q show ?thesis
      by (cases ys) (auto simp: ring_def rt_list_remove_def Let_def)
  qed
qed


section \<open>All lists of the kernel at once\<close>

text \<open>
  A node address is a list head or a list member (the \<^verbatim>\<open>tlist\<close> field of a thread, the
  \<^verbatim>\<open>list\<close> field of an object). \<open>rings\<close> relates the store to the sequence of members of
  every head; a member that hangs in no list points to itself, which is what
  \<^verbatim>\<open>rt_list_init\<close> and \<^verbatim>\<open>rt_list_remove\<close> leave behind.
\<close>

datatype ('h, 'n) node = Head 'h | Node 'n

type_synonym ('h, 'n) lists = "'h \<Rightarrow> 'n list"

definition listed :: "('h, 'n) lists \<Rightarrow> 'n \<Rightarrow> bool" where
  "listed L n \<longleftrightarrow> (\<exists>l. n \<in> set (L l))"

definition lists_wf :: "('h, 'n) lists \<Rightarrow> bool" where
  "lists_wf L \<longleftrightarrow> (\<forall>l. distinct (L l)) \<and>
     (\<forall>l l' n. n \<in> set (L l) \<longrightarrow> n \<in> set (L l') \<longrightarrow> l = l')"

definition rings :: "('h, 'n) node rt_list_store \<Rightarrow> ('h, 'n) lists \<Rightarrow> bool" where
  "rings h L \<longleftrightarrow> lists_wf L \<and>
     (\<forall>l. ring h (Head l) (map Node (L l))) \<and>
     (\<forall>n. \<not> listed L n \<longrightarrow> ring h (Node n) [])"

text \<open>The list operations the kernel components are written with.\<close>

definition list_insert_before :: "'h \<Rightarrow> 'n \<Rightarrow> ('h, 'n) lists \<Rightarrow> ('h, 'n) lists" where
  "list_insert_before l n L = L(l := L l @ [n])"

definition list_insert_after :: "'h \<Rightarrow> 'n \<Rightarrow> ('h, 'n) lists \<Rightarrow> ('h, 'n) lists" where
  "list_insert_after l n L = L(l := n # L l)"

definition list_remove :: "'n \<Rightarrow> ('h, 'n) lists \<Rightarrow> ('h, 'n) lists" where
  "list_remove n L = (\<lambda>l. remove1 n (L l))"

fun insert_before_elem :: "'n \<Rightarrow> 'n \<Rightarrow> 'n list \<Rightarrow> 'n list" where
  "insert_before_elem m n [] = []"
| "insert_before_elem m n (x # xs) = (if x = m then n # x # xs else x # insert_before_elem m n xs)"

definition list_insert_before_node :: "'n \<Rightarrow> 'n \<Rightarrow> ('h, 'n) lists \<Rightarrow> ('h, 'n) lists" where
  "list_insert_before_node m n L = (\<lambda>l. insert_before_elem m n (L l))"

lemma insert_before_elem_absent [simp]: "m \<notin> set xs \<Longrightarrow> insert_before_elem m n xs = xs"
  by (induction xs) auto

lemma insert_before_elem_split:
  "m \<notin> set xs \<Longrightarrow> insert_before_elem m n (xs @ m # ys) = xs @ n # m # ys"
  by (induction xs) auto

lemma remove1_split: "n \<notin> set xs \<Longrightarrow> remove1 n (xs @ n # ys) = xs @ ys"
  by (simp add: remove1_append)

lemma dpath_cong:
  assumes "\<And>x. x \<in> set (a # xs) \<Longrightarrow> nxt h' x = nxt h x"
    and "\<And>x. x \<in> set (b # xs) \<Longrightarrow> prv h' x = prv h x"
  shows "dpath h' a xs b = dpath h a xs b"
  using assms by (induction xs arbitrary: a) auto

lemma ring_cong:
  assumes "ring h l xs"
    and "\<And>x. x \<in> set (l # xs) \<Longrightarrow> nxt h' x = nxt h x \<and> prv h' x = prv h x"
  shows "ring h' l xs"
proof -
  have "dpath h' l xs l = dpath h l xs l"
    by (rule dpath_cong) (use assms(2) in auto)
  with assms(1) show ?thesis by (simp add: ring_def)
qed

text \<open>Which nodes a routine may write: the node and its two neighbours.\<close>

lemma insert_before_untouched:
  "x \<noteq> l \<Longrightarrow> x \<noteq> n \<Longrightarrow> x \<noteq> prv h l \<Longrightarrow>
     nxt (rt_list_insert_before l n h) x = nxt h x \<and>
     prv (rt_list_insert_before l n h) x = prv h x"
  by (auto simp: rt_list_insert_before_def Let_def)

lemma insert_after_untouched:
  "x \<noteq> l \<Longrightarrow> x \<noteq> n \<Longrightarrow> x \<noteq> nxt h l \<Longrightarrow>
     nxt (rt_list_insert_after l n h) x = nxt h x \<and>
     prv (rt_list_insert_after l n h) x = prv h x"
  by (auto simp: rt_list_insert_after_def Let_def)

lemma remove_untouched:
  "x \<noteq> n \<Longrightarrow> x \<noteq> nxt h n \<Longrightarrow> x \<noteq> prv h n \<Longrightarrow>
     nxt (rt_list_remove n h) x = nxt h x \<and> prv (rt_list_remove n h) x = prv h x"
  by (auto simp: rt_list_remove_def Let_def)

lemma ring_neighbours:
  assumes "ring h l xs" and "x \<in> set (l # xs)"
  shows "nxt h x \<in> set (l # xs)" and "prv h x \<in> set (l # xs)"
proof -
  have "nxt h x \<in> set (l # xs) \<and> prv h x \<in> set (l # xs)"
  proof (cases "x = l")
    case True
    have "nxt h l = hd (xs @ [l])" "prv h l = last (l # xs)"
      using assms(1) by (auto simp: ring_def dest: dpath_first dpath_last)
    moreover have "hd (xs @ [l]) \<in> set (l # xs)" by (cases xs) auto
    moreover have "last (l # xs) \<in> set (l # xs)" by (rule last_in_set) simp
    ultimately show ?thesis using True by simp
  next
    case False
    with assms(2) obtain ys zs where xs: "xs = ys @ x # zs"
      by (auto simp: in_set_conv_decomp)
    with assms(1) have "nxt h x = hd (zs @ [l])" "prv h x = last (l # ys)"
      by (auto simp: ring_def dest: dpath_first dpath_last)
    moreover have "hd (zs @ [l]) \<in> set (l # xs)" using xs by (cases zs) auto
    moreover have "last (l # ys) \<in> set (l # ys)" by (rule last_in_set) simp
    ultimately show ?thesis using xs by auto
  qed
  then show "nxt h x \<in> set (l # xs)" and "prv h x \<in> set (l # xs)" by simp_all
qed

text \<open>
  A routine that writes only nodes of \<open>W\<close> keeps every ring that has no node in \<open>W\<close>.
\<close>

lemma ring_other:
  assumes "ring h l xs" and "set (l # xs) \<inter> W = {}"
    and "\<And>x. x \<notin> W \<Longrightarrow> nxt h' x = nxt h x \<and> prv h' x = prv h x"
  shows "ring h' l xs"
  using assms(1) by (rule ring_cong) (use assms(2,3) in auto)

lemma ringsD:
  assumes "rings h L"
  shows "lists_wf L" and "ring h (Head l) (map Node (L l))"
    and "\<not> listed L n \<Longrightarrow> ring h (Node n) []"
  using assms by (auto simp: rings_def)

lemma not_listedD: "\<not> listed L n \<Longrightarrow> n \<notin> set (L l)"
  by (auto simp: listed_def)

lemma listed_upd: "n \<in> set xs \<Longrightarrow> listed (L(l := xs)) n"
  unfolding listed_def by (rule exI [of _ l]) simp

text \<open>
  Replacing one ring: if the routine changes only the ring of head \<open>l\<close> (to \<open>xs\<close>) and the
  node \<open>n\<close>, and the new family of lists is as before elsewhere, all rings are again right.
\<close>

lemma rings_change_one:
  assumes r: "rings h L" and wf: "lists_wf (L(l := xs))"
    and ring: "ring h' (Head l) (map Node xs)"
    and det: "\<not> listed (L(l := xs)) n \<Longrightarrow> ring h' (Node n) []"
    and frame: "\<And>x. x \<notin> insert (Node n) (set (Head l # map Node (L l))) \<Longrightarrow>
      nxt h' x = nxt h x \<and> prv h' x = prv h x"
    and n: "\<And>l'. l' \<noteq> l \<Longrightarrow> n \<notin> set (L l')"
    and grow: "set (L l) \<subseteq> insert n (set xs)"
  shows "rings h' (L(l := xs))"
  unfolding rings_def
proof (intro conjI allI impI)
  show "lists_wf (L(l := xs))" by (rule wf)
  fix l' show "ring h' (Head l') (map Node ((L(l := xs)) l'))"
  proof (cases "l' = l")
    case True with ring show ?thesis by simp
  next
    case False
    have "set (L l') \<inter> set (L l) = {}"
      using ringsD(1) [OF r] False by (auto simp: lists_wf_def)
    then have "set (Head l' # map Node (L l')) \<inter>
        insert (Node n) (set (Head l # map Node (L l))) = {}"
      using False n [OF False] by auto
    then have "ring h' (Head l') (map Node (L l'))"
      by (rule ring_other [OF ringsD(2) [OF r]]) (rule frame)
    with False show ?thesis by simp
  qed
next
  fix m assume m: "\<not> listed (L(l := xs)) m"
  show "ring h' (Node m) []"
  proof (cases "m = n")
    case True with det m show ?thesis by simp
  next
    case False
    from m False grow have "m \<notin> set (L l)" by (auto simp: listed_def split: if_splits)
    with m have "\<not> listed L m" by (auto simp: listed_def split: if_splits)
    have "set [Node m] \<inter> insert (Node n) (set (Head l # map Node (L l))) = {}"
      using False \<open>m \<notin> set (L l)\<close> by auto
    then show ?thesis
      by (rule ring_other [OF ringsD(3) [OF r \<open>\<not> listed L m\<close>]]) (rule frame)
  qed
qed


lemma lists_wf_insert:
  assumes "lists_wf L" and "\<not> listed L n" and "distinct xs" and "set xs = insert n (set (L l))"
  shows "lists_wf (L(l := xs))"
  using assms unfolding lists_wf_def listed_def by (auto split: if_splits)

lemma lists_wf_insert_after:
  "lists_wf L \<Longrightarrow> \<not> listed L n \<Longrightarrow> lists_wf (list_insert_after l n L)"
  unfolding list_insert_after_def
  by (rule lists_wf_insert) (auto simp: lists_wf_def listed_def)

lemma lists_wf_insert_before:
  "lists_wf L \<Longrightarrow> \<not> listed L n \<Longrightarrow> lists_wf (list_insert_before l n L)"
  unfolding list_insert_before_def
  by (rule lists_wf_insert) (auto simp: lists_wf_def listed_def)

lemma set_list_remove: "lists_wf L \<Longrightarrow> set (list_remove n L l) = set (L l) - {n}"
  by (simp add: list_remove_def lists_wf_def)

lemma lists_wf_remove: "lists_wf L \<Longrightarrow> lists_wf (list_remove n L)"
  using set_list_remove [of L n] by (auto simp: lists_wf_def list_remove_def)

lemma not_listed_remove: "lists_wf L \<Longrightarrow> \<not> listed (list_remove n L) n"
  by (simp add: listed_def set_list_remove)

theorem rings_insert_before:
  assumes r: "rings h L" and n: "\<not> listed L n"
  shows "rings (rt_list_insert_before (Head l) (Node n) h) (list_insert_before l n L)"
  unfolding list_insert_before_def
proof (rule rings_change_one [OF r])
  note ring = ringsD(2) [OF r, of l]
  show "lists_wf (L(l := L l @ [n]))"
    using ringsD(1) [OF r] n not_listedD [OF n, of l]
    by (intro lists_wf_insert) (auto simp: lists_wf_def)
  show "ring (rt_list_insert_before (Head l) (Node n) h) (Head l) (map Node (L l @ [n]))"
    using ring_insert_before_head [OF ring, of "Node n"] not_listedD [OF n, of l] by auto
  fix x assume "x \<notin> insert (Node n) (set (Head l # map Node (L l)))"
  with ring_neighbours(2) [OF ring, of "Head l"]
  show "nxt (rt_list_insert_before (Head l) (Node n) h) x = nxt h x \<and>
      prv (rt_list_insert_before (Head l) (Node n) h) x = prv h x"
    by (intro insert_before_untouched) auto
qed (use not_listedD [OF n] listed_upd [of n "L l @ [n]" L l] in auto)

theorem rings_insert_after:
  assumes r: "rings h L" and n: "\<not> listed L n"
  shows "rings (rt_list_insert_after (Head l) (Node n) h) (list_insert_after l n L)"
  unfolding list_insert_after_def
proof (rule rings_change_one [OF r])
  note ring = ringsD(2) [OF r, of l]
  show "lists_wf (L(l := n # L l))"
    using ringsD(1) [OF r] n not_listedD [OF n, of l]
    by (intro lists_wf_insert) (auto simp: lists_wf_def)
  show "ring (rt_list_insert_after (Head l) (Node n) h) (Head l) (map Node (n # L l))"
    using ring_insert_after_head [OF ring, of "Node n"] not_listedD [OF n, of l] by auto
  fix x assume "x \<notin> insert (Node n) (set (Head l # map Node (L l)))"
  with ring_neighbours(1) [OF ring, of "Head l"]
  show "nxt (rt_list_insert_after (Head l) (Node n) h) x = nxt h x \<and>
      prv (rt_list_insert_after (Head l) (Node n) h) x = prv h x"
    by (intro insert_after_untouched) auto
qed (use not_listedD [OF n] listed_upd [of n "n # L l" L l] in auto)

lemma listed_at:
  assumes "lists_wf L" and "n \<in> set (L l)"
  shows "\<And>l'. l' \<noteq> l \<Longrightarrow> n \<notin> set (L l')"
  using assms by (auto simp: lists_wf_def)

theorem rings_insert_before_node:
  assumes r: "rings h L" and n: "\<not> listed L n" and m: "m \<in> set (L l)"
  shows "rings (rt_list_insert_before (Node m) (Node n) h) (list_insert_before_node m n L)"
proof -
  note ring = ringsD(2) [OF r, of l] and wf = ringsD(1) [OF r]
  obtain xs ys where L: "L l = xs @ m # ys" and mx: "m \<notin> set xs"
    using split_list_first [OF m] by blast
  have eq: "list_insert_before_node m n L = L(l := xs @ n # m # ys)"
    using listed_at [OF wf m] mx
    by (auto simp: list_insert_before_node_def fun_eq_iff L insert_before_elem_split)
  have nl: "n \<notin> set (xs @ m # ys)"
    using not_listedD [OF n, of l] L by simp
  show ?thesis unfolding eq
  proof (rule rings_change_one [OF r])
    show "lists_wf (L(l := xs @ n # m # ys))"
      using wf n nl L unfolding lists_wf_def [of L]
      by (intro lists_wf_insert [OF wf n]) (auto dest!: spec [of _ l])
    show "ring (rt_list_insert_before (Node m) (Node n) h) (Head l) (map Node (xs @ n # m # ys))"
      using ring_insert_before_node [of h "Head l" "map Node xs" "Node m" "map Node ys" "Node n"]
        ring nl L by auto
    fix x assume "x \<notin> insert (Node n) (set (Head l # map Node (L l)))"
    with ring_neighbours(2) [OF ring, of "Node m"] m
    show "nxt (rt_list_insert_before (Node m) (Node n) h) x = nxt h x \<and>
        prv (rt_list_insert_before (Node m) (Node n) h) x = prv h x"
      by (intro insert_before_untouched) auto
  qed (use not_listedD [OF n] listed_upd [of n "xs @ n # m # ys" L l] L in auto)
qed

theorem rings_remove:
  assumes r: "rings h L"
  shows "rings (rt_list_remove (Node n) h) (list_remove n L)"
proof (cases "listed L n")
  case False
  have "list_remove n L = L"
    using not_listedD [OF False] by (simp add: list_remove_def)
  moreover have "rt_list_remove (Node n) h = h"
    using ringsD(3) [OF r False]
    by (cases h) (auto simp: rt_list_remove_def ring_def set_nxt_def set_prv_def fun_upd_idem)
  ultimately show ?thesis using r by simp
next
  case True
  then obtain l where nl: "n \<in> set (L l)" by (auto simp: listed_def)
  note ring = ringsD(2) [OF r, of l] and wf = ringsD(1) [OF r]
  obtain xs ys where L: "L l = xs @ n # ys" and nx: "n \<notin> set xs"
    using split_list_first [OF nl] by blast
  have eq: "list_remove n L = L(l := xs @ ys)"
    using listed_at [OF wf nl] nx by (auto simp: list_remove_def fun_eq_iff L remove1_split)
  have d: "distinct (xs @ n # ys)" using wf L by (metis lists_wf_def)
  have rr: "ring (rt_list_remove (Node n) h) (Head l) (map Node (xs @ ys)) \<and>
      ring (rt_list_remove (Node n) h) (Node n) []"
    using ring_remove [of h "Head l" "map Node xs" "Node n" "map Node ys"] ring L by simp
  show ?thesis unfolding eq
  proof (rule rings_change_one [OF r])
    show "lists_wf (L(l := xs @ ys))"
      using wf L d unfolding lists_wf_def by (auto split: if_splits)
    fix x assume "x \<notin> insert (Node n) (set (Head l # map Node (L l)))"
    with ring_neighbours [OF ring, of "Node n"] nl
    show "nxt (rt_list_remove (Node n) h) x = nxt h x \<and>
        prv (rt_list_remove (Node n) h) x = prv h x"
      by (intro remove_untouched) auto
  qed (use rr L listed_at [OF wf nl] in auto)
qed

theorem rings_isempty: "rings h L \<Longrightarrow> rt_list_isempty (Head l) h \<longleftrightarrow> L l = []"
  using ring_isempty [OF ringsD(2)] by fastforce

theorem rings_first:
  assumes "rings h L" and "L l = n # ns"
  shows "nxt h (Head l) = Node n"
  using ring_first [of h "Head l" "Node n" "map Node ns"] ringsD(2) [OF assms(1), of l] assms(2)
  by simp

lemma rt_list_len_loop_dpath:
  "dpath h a xs l \<Longrightarrow> l \<notin> set xs \<Longrightarrow> rt_list_len_loop l h a k = Some (k + length xs)"
proof (induction xs arbitrary: a k)
  case Nil
  then show ?case by (subst rt_list_len_loop.simps) simp
next
  case (Cons x xs)
  then show ?case by (subst rt_list_len_loop.simps) auto
qed

theorem rings_len: "rings h L \<Longrightarrow> rt_list_len (Head l) h = Some (length (L l))"
  using ringsD(2) [of h L l] rt_list_len_loop_dpath [of h "Head l" "map Node (L l)" "Head l" 0]
  by (auto simp: rt_list_len_def ring_def)


section \<open>The interface the kernel is written against\<close>

text \<open>
  The kernel code calls the list routines in arbitrary sequences. A sequence is given as
  data; \<open>list_op_ok\<close> is what the caller must guarantee: a node is inserted only while it
  hangs in no list, and only in front of a node that hangs in one.
\<close>

datatype ('h, 'n) list_op =
    InsertBefore 'h 'n
  | InsertAfter 'h 'n
  | InsertBeforeNode 'n 'n
  | Remove 'n

fun list_step :: "('h, 'n) list_op \<Rightarrow> ('h, 'n) lists \<Rightarrow> ('h, 'n) lists" where
  "list_step (InsertBefore l n) = list_insert_before l n"
| "list_step (InsertAfter l n) = list_insert_after l n"
| "list_step (InsertBeforeNode m n) = list_insert_before_node m n"
| "list_step (Remove n) = list_remove n"

fun list_op_ok :: "('h, 'n) lists \<Rightarrow> ('h, 'n) list_op \<Rightarrow> bool" where
  "list_op_ok L (InsertBefore l n) \<longleftrightarrow> \<not> listed L n"
| "list_op_ok L (InsertAfter l n) \<longleftrightarrow> \<not> listed L n"
| "list_op_ok L (InsertBeforeNode m n) \<longleftrightarrow> \<not> listed L n \<and> listed L m"
| "list_op_ok L (Remove n) \<longleftrightarrow> True"

fun list_ops_ok :: "('h, 'n) lists \<Rightarrow> ('h, 'n) list_op list \<Rightarrow> bool" where
  "list_ops_ok L [] \<longleftrightarrow> True"
| "list_ops_ok L (x # xs) \<longleftrightarrow> list_op_ok L x \<and> list_ops_ok (list_step x L) xs"

fun ptr_step :: "('h, 'n) list_op \<Rightarrow>
    ('h, 'n) node rt_list_store \<Rightarrow> ('h, 'n) node rt_list_store" where
  "ptr_step (InsertBefore l n) = rt_list_insert_before (Head l) (Node n)"
| "ptr_step (InsertAfter l n) = rt_list_insert_after (Head l) (Node n)"
| "ptr_step (InsertBeforeNode m n) = rt_list_insert_before (Node m) (Node n)"
| "ptr_step (Remove n) = rt_list_remove (Node n)"

locale list_store =
  fixes repr :: "'s \<Rightarrow> ('h, 'n) lists \<Rightarrow> bool"
    and step :: "('h, 'n) list_op \<Rightarrow> 's \<Rightarrow> 's"
    and is_empty :: "'h \<Rightarrow> 's \<Rightarrow> bool"
    and len :: "'h \<Rightarrow> 's \<Rightarrow> nat option"
  assumes repr_wf: "repr s L \<Longrightarrow> lists_wf L"
    and repr_step: "repr s L \<Longrightarrow> list_op_ok L x \<Longrightarrow> repr (step x s) (list_step x L)"
    and repr_is_empty: "repr s L \<Longrightarrow> is_empty l s \<longleftrightarrow> L l = []"
    and repr_len: "repr s L \<Longrightarrow> len l s = Some (length (L l))"
begin

lemma repr_run:
  "repr s L \<Longrightarrow> list_ops_ok L xs \<Longrightarrow> repr (fold step xs s) (fold list_step xs L)"
  by (induction xs arbitrary: s L) (auto intro: repr_step)

lemma wf_run: "repr s L \<Longrightarrow> list_ops_ok L xs \<Longrightarrow> lists_wf (fold list_step xs L)"
  by (rule repr_wf) (rule repr_run)

lemma run_observe:
  assumes "repr s L" and "list_ops_ok L xs"
  shows "is_empty l (fold step xs s) \<longleftrightarrow> fold list_step xs L l = []"
    and "len l (fold step xs s) = Some (length (fold list_step xs L l))"
  using repr_run [OF assms] by (simp_all add: repr_is_empty repr_len)

text \<open>Moving a node to the tail of a list, as the scheduler's round robin does.\<close>

lemma repr_requeue:
  assumes "repr s L"
  shows "repr (step (InsertBefore l n) (step (Remove n) s))
    (list_insert_before l n (list_remove n L))"
proof -
  have r: "repr (step (Remove n) s) (list_remove n L)"
    using repr_step [OF assms, of "Remove n"] by simp
  have "distinct (L l')" for l' using repr_wf [OF assms] by (simp add: lists_wf_def)
  then have "\<not> listed (list_remove n L) n"
    by (auto simp: listed_def list_remove_def)
  with repr_step [OF r, of "InsertBefore l n"] show ?thesis by simp
qed

end

interpretation ptr: list_store rings ptr_step
  "\<lambda>l. rt_list_isempty (Head l)" "\<lambda>l. rt_list_len (Head l)"
proof unfold_locales
  fix h :: "('h, 'n) node rt_list_store" and L x
  assume r: "rings h L" and ok: "list_op_ok L x"
  show "rings (ptr_step x h) (list_step x L)"
    using r ok
    by (cases x)
       (auto intro: rings_insert_before rings_insert_after rings_remove
          rings_insert_before_node simp: listed_def [of L "_"])
qed (auto simp: ringsD(1) rings_isempty rings_len)

definition init_store :: "('h, 'n) node rt_list_store" where
  "init_store = \<lparr>nxt = id, prv = id\<rparr>"

lemma rings_init: "rings init_store (\<lambda>_. [])"
  by (simp add: rings_def lists_wf_def ring_def init_store_def)

text \<open>
  C3. From the initialised state, after any sequence of calls of the list routines of
  \<^verbatim>\<open>rtservice.h\<close> that only inserts nodes hanging in no list, the pointers form exactly the
  circular lists given by the sequence operations the kernel model uses: every list is a
  ring over its members in order, \<^verbatim>\<open>rt_list_isempty\<close> tells whether it has members,
  \<^verbatim>\<open>rt_list_len\<close> returns their number, and no node hangs in two lists.
\<close>

theorem rt_list_refines:
  assumes "list_ops_ok (\<lambda>_. []) xs"
  shows "rings (fold ptr_step xs init_store) (fold list_step xs (\<lambda>_. [])) \<and>
    lists_wf (fold list_step xs (\<lambda>_. [])) \<and>
    rt_list_isempty (Head l) (fold ptr_step xs init_store) =
      (fold list_step xs (\<lambda>_. []) l = []) \<and>
    rt_list_len (Head l) (fold ptr_step xs init_store) =
      Some (length (fold list_step xs (\<lambda>_. []) l))"
  using ptr.repr_run [OF rings_init assms] ptr.wf_run [OF rings_init assms]
    ptr.run_observe [OF rings_init assms, of l] by blast

theorem rt_list_refines_witness:
  "rt_list_len (Head (0::nat)) (fold ptr_step
      [InsertBefore 0 (7::nat), InsertBefore 0 8, InsertAfter 1 9, InsertBeforeNode 8 5, Remove 7]
      init_store) = Some 2"
proof -
  let ?xs = "[InsertBefore 0 (7::nat), InsertBefore 0 8, InsertAfter (1::nat) 9,
    InsertBeforeNode 8 5, Remove 7]"
  note ops = listed_def list_insert_before_def list_insert_after_def
    list_insert_before_node_def list_remove_def
  have ok: "list_ops_ok (\<lambda>_. []) ?xs"
    by (auto simp: ops intro: exI [of _ 0])
  show ?thesis
    using rt_list_refines [OF ok, of 0] by (simp add: ops)
qed

end
