(* ===== verification/Kservice.thy ===== *)
theory Kservice
  imports RT_Prelude
begin

text \<open>
  Kernel service routines of \<^verbatim>\<open>src/kservice.c\<close>: the table-driven find-first-set that the
  scheduler uses on its ready bitmap, and the string routines that object names go
  through. A C string is the list of its characters before the terminating NUL.
\<close>

section \<open>Find first set\<close>

text \<open>The 256-entry table of the source, one row of sixteen per call of the row function.\<close>

definition lowest_bit_bitmap_row :: "nat \<Rightarrow> nat list" where
  "lowest_bit_bitmap_row k = k # [0, 1, 0, 2, 0, 1, 0, 3, 0, 1, 0, 2, 0, 1, 0]"

definition lowest_bit_bitmap :: "nat list" where
  "lowest_bit_bitmap =
     concat (map lowest_bit_bitmap_row [0, 4, 5, 4, 6, 4, 5, 4, 7, 4, 5, 4, 6, 4, 5, 4])"

definition rt_ffs :: "u32 \<Rightarrow> nat" where
  "rt_ffs value =
     (if value = 0 then 0
      else if value AND 0xff \<noteq> 0 then lowest_bit_bitmap ! unat (value AND 0xff) + 1
      else if value AND 0xff00 \<noteq> 0
        then lowest_bit_bitmap ! unat (drop_bit 8 (value AND 0xff00)) + 9
      else if value AND 0xff0000 \<noteq> 0
        then lowest_bit_bitmap ! unat (drop_bit 16 (value AND 0xff0000)) + 17
      else lowest_bit_bitmap ! unat (drop_bit 24 (value AND 0xff000000)) + 25)"

definition lowest_bit :: "nat \<Rightarrow> nat \<Rightarrow> bool" where
  "lowest_bit b i \<longleftrightarrow> bit b i \<and> (\<forall>j < i. \<not> bit b j)"

lemma lowest_bit_code: "lowest_bit b i \<longleftrightarrow> bit b i \<and> list_all (\<lambda>j. \<not> bit b j) [0..<i]"
  by (auto simp: lowest_bit_def list_all_iff)

lemma lowest_bit_rows:
  "list_all (\<lambda>r. odd (r div 2 ^ (lowest_bit_bitmap_row 0 ! r)) \<and>
     list_all (\<lambda>j. even (r div 2 ^ j)) [0..<lowest_bit_bitmap_row 0 ! r])
     [1, 2, 3, 4, 5, 6, 7, 8, 9, 10, 11, 12, 13, 14, 15]"
  by (simp add: upt_conv_Cons lowest_bit_bitmap_row_def)

lemma lowest_bit_low:
  assumes "r < 16" and "r \<noteq> 0"
  shows "lowest_bit r (lowest_bit_bitmap_row k ! r)"
proof -
  have "r \<in> set [1, 2, 3, 4, 5, 6, 7, 8, 9, 10, 11, 12, 13, 14, 15]"
    using assms by (simp, arith)
  moreover have "lowest_bit_bitmap_row k ! r = lowest_bit_bitmap_row 0 ! r"
    using assms(2) by (cases r) (simp_all add: lowest_bit_bitmap_row_def)
  ultimately show ?thesis
    using lowest_bit_rows unfolding lowest_bit_code bit_iff_odd list_all_iff by metis
qed

lemma lowest_bit_high:
  assumes "q < 16" and "q \<noteq> 0"
  shows "[0, 4, 5, 4, 6, 4, 5, 4, 7, 4, 5, 4, 6, 4, 5, 4] ! q =
    4 + lowest_bit_bitmap_row 0 ! q"
proof -
  have "q \<in> set [1, 2, 3, 4, 5, 6, 7, 8, 9, 10, 11, 12, 13, 14, 15]"
    using assms by (simp, arith)
  moreover have "list_all (\<lambda>q. [0, 4, 5, 4, 6, 4, 5, 4, 7, 4, 5, 4, 6, 4, 5, 4] ! q =
      4 + lowest_bit_bitmap_row 0 ! q) [1, 2, 3, 4, 5, 6, 7, 8, 9, 10, 11, 12, 13, 14, 15]"
    by (simp add: lowest_bit_bitmap_row_def)
  ultimately show ?thesis unfolding list_all_iff by metis
qed

lemma nth_concat_rows:
  assumes "\<And>x. length (f x) = n" and "q < length xs" and "r < n"
  shows "concat (map f xs) ! (n * q + r) = f (xs ! q) ! r"
  using assms(2)
proof (induction xs arbitrary: q)
  case (Cons x xs)
  show ?case
  proof (cases q)
    case 0 with assms show ?thesis by (simp add: nth_append)
  next
    case (Suc p)
    with Cons assms(1) show ?thesis by (simp add: nth_append)
  qed
qed simp

lemma bit_drop_take: "bit b i \<longleftrightarrow> (if i < 4 then bit (take_bit 4 b) i else bit (drop_bit 4 b) (i - 4))"
  for b :: nat
  by (simp add: bit_take_bit_iff bit_drop_bit_eq)

lemma lowest_bit_bitmap_correct:
  assumes "b \<noteq> 0" and "b < 256"
  shows "lowest_bit b (lowest_bit_bitmap ! b)"
proof -
  let ?q = "drop_bit 4 b" and ?r = "take_bit 4 b"
  let ?row = "[0, 4, 5, 4, 6, 4, 5, 4, 7, 4, 5, 4, 6, 4, 5, 4] :: nat list"
  have q: "?q < 16" using assms by (simp add: drop_bit_eq_div)
  have r: "?r < 16" by (simp add: take_bit_eq_mod)
  have b: "b = 16 * ?q + ?r" by (simp add: take_bit_eq_mod drop_bit_eq_div)
  have tab: "lowest_bit_bitmap ! b = lowest_bit_bitmap_row (?row ! ?q) ! ?r"
    unfolding lowest_bit_bitmap_def
    by (subst b, rule nth_concat_rows) (use q r in \<open>auto simp: lowest_bit_bitmap_row_def\<close>)
  show ?thesis
  proof (cases "?r = 0")
    case False
    from lowest_bit_low [OF r this, of "?row ! ?q"] tab
    have l: "lowest_bit ?r (lowest_bit_bitmap ! b)" by simp
    then have "lowest_bit_bitmap ! b < 4" by (simp add: lowest_bit_def bit_take_bit_iff)
    with l show ?thesis by (simp add: lowest_bit_def bit_take_bit_iff)
  next
    case True
    with b assms(1) have "?q \<noteq> 0" by (metis add_0 mult_0_right)
    with lowest_bit_high [OF q this] lowest_bit_low [OF q this, of 0]
    obtain i where i: "?row ! ?q = 4 + i" "lowest_bit ?q i"
      by simp
    from tab True i(1) have "lowest_bit_bitmap ! b = 4 + i"
      by (simp add: lowest_bit_bitmap_row_def)
    with i(2) True show ?thesis
      by (auto simp: lowest_bit_def bit_drop_take [of b])
  qed
qed

text \<open>The byte of a word that starts at bit \<open>s\<close>, looked up in the table.\<close>

lemma byte_lookup:
  fixes v :: u32
  assumes nz: "take_bit 8 (drop_bit s v) \<noteq> 0" and low: "\<And>i. i < s \<Longrightarrow> \<not> bit v i"
    and r: "r = lowest_bit_bitmap ! unat (take_bit 8 (drop_bit s v))"
  shows "bit v (s + r) \<and> (\<forall>i < s + r. \<not> bit v i)"
proof -
  let ?b = "unat (take_bit 8 (drop_bit s v))"
  have bits: "bit ?b i \<longleftrightarrow> i < 8 \<and> bit v (s + i)" for i
    using bit_imp_le_length [of v "s + i"]
    by (auto simp: bit_unsigned_iff bit_take_bit_iff bit_drop_bit_eq)
  have "?b < 256" "?b \<noteq> 0"
    using nz unsigned_take_bit_eq [of 8 "drop_bit s v", where ?'a = nat]
      take_bit_nat_less_exp [of 8 "unat (drop_bit s v)"] unat_eq_0 [of "take_bit 8 (drop_bit s v)"]
    by (simp, metis)
  note t = lowest_bit_bitmap_correct [OF this(2,1), unfolded lowest_bit_def]
  have "bit v (s + r)" using t bits r by simp
  moreover have "\<not> bit v i" if "i < s + r" for i
  proof (cases "i < s")
    case False
    then obtain j where i: "i = s + j" by (metis le_Suc_ex linorder_not_less)
    with that r have "j < lowest_bit_bitmap ! ?b" by simp
    moreover have "lowest_bit_bitmap ! ?b < 8" using t bits by simp
    ultimately show ?thesis using t bits i by auto
  qed (use low in auto)
  ultimately show ?thesis by blast
qed

text \<open>The masks and shifts of the source select the bytes.\<close>

lemma byte_masks:
  fixes v :: u32
  shows "v AND 0xff = take_bit 8 (drop_bit 0 v)"
    and "drop_bit 8 (v AND 0xff00) = take_bit 8 (drop_bit 8 v)"
    and "drop_bit 16 (v AND 0xff0000) = take_bit 8 (drop_bit 16 v)"
    and "drop_bit 24 (v AND 0xff000000) = take_bit 8 (drop_bit 24 v)"
proof -
  have m: "(0xff :: u32) = mask 8" "(0xff00 :: u32) = push_bit 8 (mask 8)"
    "(0xff0000 :: u32) = push_bit 16 (mask 8)" "(0xff000000 :: u32) = push_bit 24 (mask 8)"
    by (simp_all add: mask_eq_exp_minus_1 push_bit_eq_mult)
  show "v AND 0xff = take_bit 8 (drop_bit 0 v)"
    and "drop_bit 8 (v AND 0xff00) = take_bit 8 (drop_bit 8 v)"
    and "drop_bit 16 (v AND 0xff0000) = take_bit 8 (drop_bit 16 v)"
    and "drop_bit 24 (v AND 0xff000000) = take_bit 8 (drop_bit 24 v)"
    unfolding m
    by (auto intro!: bit_word_eqI simp: bit_and_iff bit_push_bit_iff bit_drop_bit_eq
        bit_take_bit_iff bit_mask_iff)
qed

lemma byte_zero:
  fixes v :: u32
  shows "v AND 0xff00 \<noteq> 0 \<longleftrightarrow> take_bit 8 (drop_bit 8 v) \<noteq> 0"
    and "v AND 0xff0000 \<noteq> 0 \<longleftrightarrow> take_bit 8 (drop_bit 16 v) \<noteq> 0"
proof -
  have m: "(0xff00 :: u32) = push_bit 8 (mask 8)" "(0xff0000 :: u32) = push_bit 16 (mask 8)"
    by (simp_all add: mask_eq_exp_minus_1 push_bit_eq_mult)
  have "v AND push_bit s (mask 8) \<noteq> 0 \<longleftrightarrow> take_bit 8 (drop_bit s v) \<noteq> 0" if "s < 32" for s
  proof -
    have "bit (v AND push_bit s (mask 8)) (s + i) \<longleftrightarrow> bit (take_bit 8 (drop_bit s v)) i" for i
      using that bit_imp_le_length [of v "s + i"]
      by (auto simp: bit_and_iff bit_push_bit_iff bit_drop_bit_eq bit_take_bit_iff bit_mask_iff)
    moreover have "bit (v AND push_bit s (mask 8)) i \<Longrightarrow> s \<le> i" for i
      by (auto simp: bit_and_iff bit_push_bit_iff)
    ultimately show ?thesis
      unfolding word_neq_0_bit by (metis bit_imp_le_length le_Suc_ex)
  qed
  then show "v AND 0xff00 \<noteq> 0 \<longleftrightarrow> take_bit 8 (drop_bit 8 v) \<noteq> 0"
    and "v AND 0xff0000 \<noteq> 0 \<longleftrightarrow> take_bit 8 (drop_bit 16 v) \<noteq> 0"
    unfolding m by simp_all
qed

lemma zero_byte_low:
  fixes v :: u32
  assumes "take_bit 8 (drop_bit s v) = 0" and "\<And>i. i < s \<Longrightarrow> \<not> bit v i" and "i < s + 8"
  shows "\<not> bit v i"
proof (cases "i < s")
  case False
  then obtain j where "i = s + j" by (metis le_Suc_ex linorder_not_less)
  with assms(3) arg_cong [OF assms(1), of "\<lambda>w. bit w j"] show ?thesis
    by (simp add: bit_take_bit_iff bit_drop_bit_eq)
qed (use assms(2) in simp)

lemma rt_ffs_lowest:
  fixes v :: u32
  assumes "v \<noteq> 0"
  shows "\<exists>p. rt_ffs v = Suc p \<and> bit v p \<and> (\<forall>i < p. \<not> bit v i)"
proof -
  let ?t = "\<lambda>s. lowest_bit_bitmap ! unat (take_bit 8 (drop_bit s v))"
  consider (b0) "take_bit 8 (drop_bit 0 v) \<noteq> 0"
    | (b1) "take_bit 8 (drop_bit 0 v) = 0" "take_bit 8 (drop_bit 8 v) \<noteq> 0"
    | (b2) "take_bit 8 (drop_bit 0 v) = 0" "take_bit 8 (drop_bit 8 v) = 0"
        "take_bit 8 (drop_bit 16 v) \<noteq> 0"
    | (b3) "take_bit 8 (drop_bit 0 v) = 0" "take_bit 8 (drop_bit 8 v) = 0"
        "take_bit 8 (drop_bit 16 v) = 0"
    by blast
  then show ?thesis
  proof cases
    case b0
    with assms byte_lookup [OF b0 _ refl] show ?thesis
      by (simp add: rt_ffs_def byte_masks byte_zero)
  next
    case b1
    note l = zero_byte_low [OF b1(1), simplified]
    show ?thesis
      using b1 assms byte_lookup [OF b1(2) l refl]
      by (intro exI [of _ "8 + ?t 8"]) (simp add: rt_ffs_def byte_masks byte_zero)
  next
    case b2
    note l = zero_byte_low [OF b2(2) zero_byte_low [OF b2(1)], simplified]
    show ?thesis
      using b2 assms byte_lookup [OF b2(3) l refl]
      by (intro exI [of _ "16 + ?t 16"]) (simp add: rt_ffs_def byte_masks byte_zero)
  next
    case b3
    note l = zero_byte_low [OF b3(3) zero_byte_low [OF b3(2) zero_byte_low [OF b3(1)]], simplified]
    have n: "take_bit 8 (drop_bit 24 v) \<noteq> 0"
      using assms [unfolded word_neq_0_bit] zero_byte_low [of 24 v, OF _ l] by auto
    show ?thesis
      using b3 assms byte_lookup [OF n l refl]
      by (intro exI [of _ "24 + ?t 24"]) (simp add: rt_ffs_def byte_masks byte_zero)
  qed
qed

text \<open>
  \<^verbatim>\<open>__rt_ffs\<close>, the table lookup over the four bytes, is find-first-set on all 32-bit
  values: 0 for 0, and otherwise one more than the number of the least bit that is set.
\<close>

theorem rt_ffs_correct:
  "rt_ffs v = (if v = 0 then 0 else Suc (LEAST p. bit v p))"
proof (cases "v = 0")
  case False
  from rt_ffs_lowest [OF False] obtain p where
    p: "rt_ffs v = Suc p" "bit v p" "\<forall>i < p. \<not> bit v i" by blast
  then have "(LEAST p. bit v p) = p"
    using Min_eq_least_nat [of p "Collect (bit v)"] by simp
  with p False show ?thesis by simp
qed (simp add: rt_ffs_def)

lemma rt_ffs_le: "rt_ffs v \<le> 32"
  using rt_ffs_lowest [of v] bit_imp_le_length [of v]
  by (cases "v = 0") (force simp: rt_ffs_def Suc_le_eq)+

section \<open>Strings\<close>

text \<open>
  A C string is read from an array of bytes up to its first NUL; behind the bytes of the
  list there is a NUL. \<open>rt_strncpy n s\<close> is what the \<open>n\<close> bytes at the destination hold after
  the call; \<open>rt_strncmp\<close> keeps the difference in a \<^verbatim>\<open>signed char\<close>, as the code does.
\<close>

definition char_at :: "u8 list \<Rightarrow> u8" where
  "char_at s = (case s of [] \<Rightarrow> 0 | c # _ \<Rightarrow> c)"

fun rt_strncpy :: "nat \<Rightarrow> u8 list \<Rightarrow> u8 list" where
  "rt_strncpy 0 s = []"
| "rt_strncpy (Suc n) s =
     (if char_at s = 0 then 0 # replicate n 0 else char_at s # rt_strncpy n (tl s))"

fun rt_strncmp :: "nat \<Rightarrow> u8 list \<Rightarrow> u8 list \<Rightarrow> int" where
  "rt_strncmp 0 cs ct = 0"
| "rt_strncmp (Suc n) cs ct =
     (let res = sint (char_at cs - char_at ct)
      in if res \<noteq> 0 \<or> char_at cs = 0 then res else rt_strncmp n (tl cs) (tl ct))"

fun rt_strlen :: "u8 list \<Rightarrow> nat" where
  "rt_strlen [] = 0"
| "rt_strlen (c # s) = (if c \<noteq> 0 then Suc (rt_strlen s) else 0)"

definition cstr :: "u8 list \<Rightarrow> u8 list" where
  "cstr s = takeWhile (\<lambda>c. c \<noteq> 0) s"

lemma cstr_simps [simp]:
  "cstr [] = []" "cstr (c # s) = (if c = 0 then [] else c # cstr s)"
  by (simp_all add: cstr_def)

lemma cstr_replicate_0 [simp]: "cstr (replicate n 0) = []"
  by (induction n) auto

lemma length_rt_strncpy [simp]: "length (rt_strncpy n s) = n"
  by (induction n s rule: rt_strncpy.induct) auto

lemma cstr_rt_strncpy [simp]: "cstr (rt_strncpy n s) = take n (cstr s)"
proof (induction n s rule: rt_strncpy.induct)
  case (2 n s)
  then show ?case by (cases s) (auto simp: char_at_def)
qed simp

lemma rt_strncmp_eq_0 [simp]:
  "rt_strncmp n cs ct = 0 \<longleftrightarrow> take n (cstr cs) = take n (cstr ct)"
proof (induction n cs ct rule: rt_strncmp.induct)
  case (2 n cs ct)
  then show ?case by (cases cs; cases ct) (auto simp: char_at_def Let_def signed_eq_0_iff)
qed simp

lemma rt_strlen_cstr: "rt_strlen s = length (cstr s)"
  by (induction s) auto

end
