(* ===== verification/Kernel_State.thy ===== *)
theory Kernel_State
  imports Rt_List Kservice
begin

text \<open>
  The data of the kernel: the structs of \<^verbatim>\<open>include/rtdef.h\<close> as records and the global
  variables of \<^verbatim>\<open>src/scheduler.c\<close>, \<^verbatim>\<open>src/object.c\<close>, \<^verbatim>\<open>src/timer.c\<close>, \<^verbatim>\<open>src/clock.c\<close> and
  \<^verbatim>\<open>src/irq.c\<close> as the fields of one record \<open>kernel\<close>. A pointer to an object is the
  object's number in its store; the embedded \<^verbatim>\<open>struct rt_object\<close> of every object is kept
  in the store \<open>objs\<close>. The configuration is the one of \<^verbatim>\<open>bsp/stm32f10x/rtconfig.h\<close>.
\<close>

section \<open>Objects and their names\<close>

text \<open>
  A timer is the timer embedded in a thread or a timer of its own; a kernel object is one
  of the structs that inherit from \<^verbatim>\<open>struct rt_object\<close>.
\<close>

datatype rt_timer_t = ThreadTimer nat | Timer nat

datatype kobj = OThread nat | OTimer rt_timer_t | OSem nat | OMutex nat | OEvent nat
  | OMailbox nat | OMq nat | OMempool nat | ODevice nat

record rt_object =
  name :: "u8 list"
  otype :: u8
  flag :: u8

abbreviation (input) RT_Object_Class_Null :: u8 where "RT_Object_Class_Null \<equiv> 0"
abbreviation (input) RT_Object_Class_Thread :: u8 where "RT_Object_Class_Thread \<equiv> 1"
abbreviation (input) RT_Object_Class_Semaphore :: u8 where "RT_Object_Class_Semaphore \<equiv> 2"
abbreviation (input) RT_Object_Class_Mutex :: u8 where "RT_Object_Class_Mutex \<equiv> 3"
abbreviation (input) RT_Object_Class_Event :: u8 where "RT_Object_Class_Event \<equiv> 4"
abbreviation (input) RT_Object_Class_MailBox :: u8 where "RT_Object_Class_MailBox \<equiv> 5"
abbreviation (input) RT_Object_Class_MessageQueue :: u8 where "RT_Object_Class_MessageQueue \<equiv> 6"
abbreviation (input) RT_Object_Class_MemHeap :: u8 where "RT_Object_Class_MemHeap \<equiv> 7"
abbreviation (input) RT_Object_Class_MemPool :: u8 where "RT_Object_Class_MemPool \<equiv> 8"
abbreviation (input) RT_Object_Class_Device :: u8 where "RT_Object_Class_Device \<equiv> 9"
abbreviation (input) RT_Object_Class_Timer :: u8 where "RT_Object_Class_Timer \<equiv> 10"
abbreviation (input) RT_Object_Class_Module :: u8 where "RT_Object_Class_Module \<equiv> 11"
abbreviation (input) RT_Object_Class_Unknown :: u8 where "RT_Object_Class_Unknown \<equiv> 12"
abbreviation (input) RT_Object_Class_Static :: u8 where "RT_Object_Class_Static \<equiv> 0x80"

section \<open>Timers and threads\<close>

text \<open>
  A timeout function is the kernel's \<^verbatim>\<open>rt_thread_timeout\<close> with the thread as its parameter
  or a function of the application with its parameter word.
\<close>

datatype timeout_func = Rt_thread_timeout nat | User_timeout nat u32

record rt_timer =
  timeout_func :: timeout_func
  timer_init_tick :: u32
  timeout_tick :: u32

abbreviation (input) RT_TIMER_FLAG_ACTIVATED :: u8 where "RT_TIMER_FLAG_ACTIVATED \<equiv> 1"
abbreviation (input) RT_TIMER_FLAG_ONE_SHOT :: u8 where "RT_TIMER_FLAG_ONE_SHOT \<equiv> 0"
abbreviation (input) RT_TIMER_FLAG_PERIODIC :: u8 where "RT_TIMER_FLAG_PERIODIC \<equiv> 2"

abbreviation (input) RT_THREAD_INIT :: u8 where "RT_THREAD_INIT \<equiv> 0"
abbreviation (input) RT_THREAD_READY :: u8 where "RT_THREAD_READY \<equiv> 1"
abbreviation (input) RT_THREAD_SUSPEND :: u8 where "RT_THREAD_SUSPEND \<equiv> 2"
abbreviation (input) RT_THREAD_RUNNING :: u8 where "RT_THREAD_RUNNING \<equiv> 3"
abbreviation (input) RT_THREAD_CLOSE :: u8 where "RT_THREAD_CLOSE \<equiv> 4"
abbreviation (input) RT_THREAD_STAT_MASK :: u8 where "RT_THREAD_STAT_MASK \<equiv> 0x0f"
abbreviation (input) RT_THREAD_PRIORITY_MAX :: nat where "RT_THREAD_PRIORITY_MAX \<equiv> 32"
abbreviation (input) RT_NAME_MAX :: nat where "RT_NAME_MAX \<equiv> 8"

record rt_thread =
  sp :: u32
  entry :: u32
  parameter :: u32
  stack_addr :: u32
  stack_size :: u32
  error :: rt_err_t
  stat :: u8
  current_priority :: u8
  init_priority :: u8
  number_mask :: u32
  event_set :: u32
  event_info :: u8
  init_tick :: u32
  remaining_tick :: u32
  cleanup :: u32
  user_data :: u32

section \<open>IPC objects and memory pools\<close>

record rt_semaphore =
  sem_value :: u16

record rt_mutex =
  mutex_value :: u16
  original_priority :: u8
  hold :: u8
  owner :: "nat option"

record rt_event =
  event_bits :: u32

record rt_mailbox =
  msg_pool :: "u32 list"
  mb_size :: u16
  mb_entry :: u16
  in_offset :: u16
  out_offset :: u16

text \<open>
  The pool of a message queue is an array of messages; a message pointer is its number
  in the array, and \<open>mq_next\<close>, \<open>mq_data\<close> are the link and the payload of each.
\<close>

record rt_messagequeue =
  mq_next :: "nat \<Rightarrow> nat option"
  mq_data :: "nat \<Rightarrow> u8 list"
  msg_size :: u16
  max_msgs :: u16
  mq_entry :: u16
  msg_queue_head :: "nat option"
  msg_queue_tail :: "nat option"
  msg_queue_free :: "nat option"

text \<open>
  The first word of a pool block holds the link to the next free block while the block is
  free, and the pool it belongs to while it is allocated. Blocks are numbered.
\<close>

datatype mp_word = Link "nat option" | Pool nat

record rt_mempool =
  start_address :: u32
  mp_size :: u32
  block_size :: u32
  block_list :: "nat option"
  block_hdr :: "nat \<Rightarrow> mp_word"
  block_total_count :: u32
  block_free_count :: u32
  suspend_thread_count :: u32

section \<open>The kernel\<close>

text \<open>
  The heads of the lists that threads hang in by their \<^verbatim>\<open>tlist\<close> node: the ready lists, the
  defunct list, the wait lists of the IPC objects, and those of the data queues and completions
  of the device drivers.
\<close>

datatype thead = ReadyList nat | Defunct | SuspendThread kobj | SuspendSender nat
  | SuspendPush nat | SuspendPop nat | SuspendCompletion nat

record kernel =
  threads :: "nat \<Rightarrow> rt_thread"
  timers :: "rt_timer_t \<Rightarrow> rt_timer"
  sems :: "nat \<Rightarrow> rt_semaphore"
  mutexes :: "nat \<Rightarrow> rt_mutex"
  events :: "nat \<Rightarrow> rt_event"
  mailboxes :: "nat \<Rightarrow> rt_mailbox"
  mqs :: "nat \<Rightarrow> rt_messagequeue"
  mempools :: "nat \<Rightarrow> rt_mempool"
  objs :: "kobj \<Rightarrow> rt_object"
  object_list :: "(u8, kobj) lists"
  tlists :: "(thead, nat) lists"
  rt_timer_list :: "rt_timer_t list"
  rt_thread_ready_priority_group :: u32
  rt_scheduler_lock_nest :: "16 word"
  rt_current_thread :: "nat option"
  rt_current_priority :: u8
  rt_interrupt_nest :: u8
  rt_tick :: u32
  random_nr :: u32
  mem :: "u32 \<Rightarrow> u8"
  rt_errno_interrupt :: rt_err_t

text \<open>
  A call that may block either returns, with an error number and the value it delivers, or
  waits: the thread has been suspended, the scheduler has run, and the rest of the function
  body is executed when the thread is scheduled again. \<open>cont\<close> names that rest and keeps the
  local variables it uses (the object, the remaining time, the tick the wait began at).
\<close>

datatype rvalue = VNone | VWord u32 | VBytes "u8 list" | VBlock "nat option"

datatype cont =
    K_sleep
  | K_sem_take
  | K_mutex_take nat int
  | K_event_recv
  | K_mb_send nat u32 int u32
  | K_mb_recv nat int u32
  | K_mq_recv nat nat int u32
  | K_mp_alloc nat int u32

datatype outcome = Ret rt_err_t rvalue | Wait cont

definition upd_thread :: "nat \<Rightarrow> (rt_thread \<Rightarrow> rt_thread) \<Rightarrow> kernel \<Rightarrow> kernel" where
  "upd_thread t f k = k\<lparr>threads := (threads k)(t := f (threads k t))\<rparr>"

definition upd_timer :: "rt_timer_t \<Rightarrow> (rt_timer \<Rightarrow> rt_timer) \<Rightarrow> kernel \<Rightarrow> kernel" where
  "upd_timer t f k = k\<lparr>timers := (timers k)(t := f (timers k t))\<rparr>"

definition upd_obj :: "kobj \<Rightarrow> (rt_object \<Rightarrow> rt_object) \<Rightarrow> kernel \<Rightarrow> kernel" where
  "upd_obj ob f k = k\<lparr>objs := (objs k)(ob := f (objs k ob))\<rparr>"

definition upd_tlists :: "((thead, nat) lists \<Rightarrow> (thead, nat) lists) \<Rightarrow> kernel \<Rightarrow> kernel" where
  "upd_tlists f k = k\<lparr>tlists := f (tlists k)\<rparr>"

lemmas upd_defs [kdefs] = upd_thread_def upd_timer_def upd_obj_def upd_tlists_def

text \<open>The status bits of a thread, and reading the thread the processor runs.\<close>

abbreviation tstat :: "kernel \<Rightarrow> nat \<Rightarrow> u8" where
  "tstat k t \<equiv> stat (threads k t) AND RT_THREAD_STAT_MASK"

abbreviation tprio :: "kernel \<Rightarrow> nat \<Rightarrow> nat" where
  "tprio k t \<equiv> unat (current_priority (threads k t))"

definition rt_thread_self :: "kernel \<Rightarrow> nat option" where
  "rt_thread_self k = rt_current_thread k"

definition rt_interrupt_get_nest :: "kernel \<Rightarrow> u8" where
  "rt_interrupt_get_nest k = rt_interrupt_nest k"

text \<open>
  The error number of the running thread; in an interrupt, and before the scheduler starts,
  the variable \<^verbatim>\<open>__rt_errno\<close> (here \<open>rt_errno_interrupt\<close>) takes its place.
\<close>

definition rt_get_errno :: "kernel \<Rightarrow> rt_err_t" where
  "rt_get_errno k =
     (if rt_interrupt_get_nest k \<noteq> 0 then rt_errno_interrupt k
      else (case rt_thread_self k of None \<Rightarrow> rt_errno_interrupt k | Some t \<Rightarrow> error (threads k t)))"

definition rt_set_errno :: "rt_err_t \<Rightarrow> kernel \<Rightarrow> kernel" where
  "rt_set_errno e k =
     (if rt_interrupt_get_nest k \<noteq> 0 then k\<lparr>rt_errno_interrupt := e\<rparr>
      else (case rt_thread_self k of
          None \<Rightarrow> k\<lparr>rt_errno_interrupt := e\<rparr>
        | Some t \<Rightarrow> upd_thread t (\<lambda>x. x\<lparr>error := e\<rparr>) k))"

lemma rt_get_set_errno [simp]: "rt_get_errno (rt_set_errno e k) = e"
  by (simp add: rt_get_errno_def rt_set_errno_def rt_interrupt_get_nest_def rt_thread_self_def
      upd_thread_def split: option.split)

text \<open>The context checks of \<^verbatim>\<open>rtdebug.h\<close>.\<close>

definition RT_DEBUG_NOT_IN_INTERRUPT :: "kernel \<Rightarrow> unit option" where
  "RT_DEBUG_NOT_IN_INTERRUPT k = rt_assert (rt_interrupt_get_nest k = 0)"

definition RT_DEBUG_IN_THREAD_CONTEXT :: "kernel \<Rightarrow> unit option" where
  "RT_DEBUG_IN_THREAD_CONTEXT k = do {
     rt_assert (rt_thread_self k \<noteq> None);
     RT_DEBUG_NOT_IN_INTERRUPT k
   }"

text \<open>Replacing the status bits keeps the signal bits: \<^verbatim>\<open>S | (stat & ~RT_THREAD_STAT_MASK)\<close>.\<close>

definition set_stat :: "u8 \<Rightarrow> rt_thread \<Rightarrow> rt_thread" where
  "set_stat st t = t\<lparr>stat := st OR (stat t AND NOT RT_THREAD_STAT_MASK)\<rparr>"

lemma stat_bits:
  fixes x st :: u8
  assumes "st AND NOT 0x0f = 0"
  shows "(st OR (x AND NOT 0x0f)) AND 0x0f = st"
proof -
  have "st AND 0x0f = st"
    using assms by (metis bit.conj_disj_distrib bit.conj_one_right bit.disj_cancel_right
        bit.disj_zero_right or.commute word_bw_comms(1))
  then show ?thesis by (simp add: bit.conj_disj_distrib2 and.assoc)
qed

lemma set_stat_sel [simp]:
  "stat (set_stat 1 x) AND RT_THREAD_STAT_MASK = RT_THREAD_READY"
  "stat (set_stat 2 x) AND RT_THREAD_STAT_MASK = RT_THREAD_SUSPEND"
  "stat (set_stat 3 x) AND RT_THREAD_STAT_MASK = RT_THREAD_RUNNING"
  using stat_bits [of 1 "stat x"] stat_bits [of 2 "stat x"] stat_bits [of 3 "stat x"]
  by (simp_all add: set_stat_def)

lemma set_stat_frame [simp]:
  "current_priority (set_stat st x) = current_priority x"
  "init_priority (set_stat st x) = init_priority x"
  "number_mask (set_stat st x) = number_mask x"
  "error (set_stat st x) = error x"
  "sp (set_stat st x) = sp x"
  "stack_addr (set_stat st x) = stack_addr x"
  "stack_size (set_stat st x) = stack_size x"
  "event_set (set_stat st x) = event_set x"
  "event_info (set_stat st x) = event_info x"
  "init_tick (set_stat st x) = init_tick x"
  "remaining_tick (set_stat st x) = remaining_tick x"
  "cleanup (set_stat st x) = cleanup x"
  by (simp_all add: set_stat_def)

end
