(* ===== verification/Kobject.thy ===== *)
theory Kobject
  imports Kernel_State
begin

text \<open>
  The object container of \<^verbatim>\<open>src/object.c\<close>: every kernel object is registered by class in
  a list, under a name of at most \<^verbatim>\<open>RT_NAME_MAX\<close> characters. What \<^verbatim>\<open>RT_KERNEL_MALLOC\<close>
  returns is an argument of \<open>rt_object_allocate\<close>; \<^verbatim>\<open>RT_KERNEL_FREE\<close> gives the memory back
  to the heap and changes nothing the container keeps. The lookup by name, which locks
  the scheduler, follows in the theory of the threads.
\<close>

section \<open>Operations\<close>

definition rt_object_container :: "u8 list" where
  "rt_object_container = [RT_Object_Class_Thread, RT_Object_Class_Semaphore,
     RT_Object_Class_Mutex, RT_Object_Class_Event, RT_Object_Class_MailBox,
     RT_Object_Class_MessageQueue, RT_Object_Class_MemPool, RT_Object_Class_Device,
     RT_Object_Class_Timer]"

definition rt_object_get_information :: "u8 \<Rightarrow> u8 option" where
  "rt_object_get_information type = List.find (\<lambda>c. c = type) rt_object_container"

definition rt_object_init :: "kobj \<Rightarrow> u8 \<Rightarrow> u8 list \<Rightarrow> kernel \<Rightarrow> kernel option" where
  "rt_object_init ob type nm k = do {
     rt_assert (rt_object_get_information type \<noteq> None);
     let k = upd_obj ob (\<lambda>x. x\<lparr>otype := type OR RT_Object_Class_Static,
                              name := rt_strncpy RT_NAME_MAX nm\<rparr>) k;
     Some (k\<lparr>object_list := list_insert_after type ob (object_list k)\<rparr>)
   }"

definition rt_object_detach :: "kobj \<Rightarrow> kernel \<Rightarrow> kernel" where
  "rt_object_detach ob k =
     (let k = upd_obj ob (\<lambda>x. x\<lparr>otype := 0\<rparr>) k
      in k\<lparr>object_list := list_remove ob (object_list k)\<rparr>)"

text \<open>
  The all-zero structs that \<^verbatim>\<open>rt_memset\<close> leaves in a fresh object. Devices are never allocated
  this way; their structs are kept outside the kernel state.
\<close>

definition zero_thread :: rt_thread where
  "zero_thread = \<lparr>sp = 0, entry = 0, parameter = 0, stack_addr = 0, stack_size = 0, error = 0,
     stat = 0, current_priority = 0, init_priority = 0, number_mask = 0, event_set = 0,
     event_info = 0, init_tick = 0, remaining_tick = 0, cleanup = 0, user_data = 0\<rparr>"

definition zero_timer :: rt_timer where
  "zero_timer = \<lparr>timeout_func = User_timeout 0 0, timer_init_tick = 0, timeout_tick = 0\<rparr>"

definition zero_mq :: rt_messagequeue where
  "zero_mq = \<lparr>mq_next = (\<lambda>_. None), mq_data = (\<lambda>_. []), msg_size = 0, max_msgs = 0,
     mq_entry = 0, msg_queue_head = None, msg_queue_tail = None, msg_queue_free = None\<rparr>"

definition zero_mempool :: rt_mempool where
  "zero_mempool = \<lparr>start_address = 0, mp_size = 0, block_size = 0, block_list = None,
     block_hdr = (\<lambda>_. Link None), block_total_count = 0, block_free_count = 0,
     suspend_thread_count = 0\<rparr>"

fun zero_struct :: "kobj \<Rightarrow> kernel \<Rightarrow> kernel" where
  "zero_struct (OThread t) k = k\<lparr>threads := (threads k)(t := zero_thread)\<rparr>"
| "zero_struct (OTimer t) k = k\<lparr>timers := (timers k)(t := zero_timer)\<rparr>"
| "zero_struct (OSem s) k = k\<lparr>sems := (sems k)(s := \<lparr>sem_value = 0\<rparr>)\<rparr>"
| "zero_struct (OMutex m) k = k\<lparr>mutexes := (mutexes k)(m :=
     \<lparr>mutex_value = 0, original_priority = 0, hold = 0, owner = None\<rparr>)\<rparr>"
| "zero_struct (OEvent e) k = k\<lparr>events := (events k)(e := \<lparr>event_bits = 0\<rparr>)\<rparr>"
| "zero_struct (OMailbox m) k = k\<lparr>mailboxes := (mailboxes k)(m :=
     \<lparr>msg_pool = [], mb_size = 0, mb_entry = 0, in_offset = 0, out_offset = 0\<rparr>)\<rparr>"
| "zero_struct (OMq q) k = k\<lparr>mqs := (mqs k)(q := zero_mq)\<rparr>"
| "zero_struct (OMempool p) k = k\<lparr>mempools := (mempools k)(p := zero_mempool)\<rparr>"
| "zero_struct (ODevice d) k = k"

definition rt_object_allocate ::
    "kobj option \<Rightarrow> u8 \<Rightarrow> u8 list \<Rightarrow> kernel \<Rightarrow> (kobj option \<times> kernel) option" where
  "rt_object_allocate mallocd type nm k = do {
     RT_DEBUG_NOT_IN_INTERRUPT k;
     rt_assert (rt_object_get_information type \<noteq> None);
     case mallocd of
       None \<Rightarrow> Some (None, k)
     | Some ob \<Rightarrow>
         let k = zero_struct ob k;
             k = upd_obj ob (\<lambda>x. x\<lparr>otype := type, flag := 0,
                                  name := rt_strncpy RT_NAME_MAX nm\<rparr>) k
         in Some (Some ob, k\<lparr>object_list := list_insert_after type ob (object_list k)\<rparr>)
   }"

definition rt_object_delete :: "kobj \<Rightarrow> kernel \<Rightarrow> kernel option" where
  "rt_object_delete ob k = do {
     rt_assert (otype (objs k ob) AND RT_Object_Class_Static = 0);
     let k = upd_obj ob (\<lambda>x. x\<lparr>otype := 0\<rparr>) k;
     Some (k\<lparr>object_list := list_remove ob (object_list k)\<rparr>)
   }"

definition rt_object_is_systemobject :: "kobj \<Rightarrow> kernel \<Rightarrow> bool" where
  "rt_object_is_systemobject ob k \<longleftrightarrow> otype (objs k ob) AND RT_Object_Class_Static \<noteq> 0"

definition rt_object_get_type :: "kobj \<Rightarrow> kernel \<Rightarrow> u8" where
  "rt_object_get_type ob k = otype (objs k ob) AND NOT RT_Object_Class_Static"

section \<open>The container\<close>

lemma rt_object_get_information_iff [simp]:
  "rt_object_get_information type = None \<longleftrightarrow> type \<notin> set rt_object_container"
  by (auto simp: rt_object_get_information_def find_None_iff)

lemma static_class_bits:
  assumes "c \<in> set rt_object_container"
  shows "(c OR RT_Object_Class_Static) AND NOT RT_Object_Class_Static = c"
    and "(c OR RT_Object_Class_Static) AND RT_Object_Class_Static \<noteq> 0"
    and "c AND RT_Object_Class_Static = 0" and "c AND NOT RT_Object_Class_Static = c"
    and "c \<noteq> 0"
  using assms by (auto simp: rt_object_container_def)

text \<open>
  The container invariant: an object is registered at most once, and in the list of the
  class its type field says.
\<close>

definition container_ok :: "kernel \<Rightarrow> bool" where
  "container_ok k \<longleftrightarrow> lists_wf (object_list k) \<and>
     (\<forall>c ob. ob \<in> set (object_list k c) \<longrightarrow>
        c \<in> set rt_object_container \<and> rt_object_get_type ob k = c)"

definition registered :: "kernel \<Rightarrow> kobj \<Rightarrow> bool" where
  "registered k ob \<longleftrightarrow> ob \<in> set (object_list k (rt_object_get_type ob k))"

lemma container_ok_init:
  assumes "container_ok k" and "\<not> listed (object_list k) ob" and "rt_object_init ob c nm k = Some k'"
  shows "container_ok k' \<and> registered k' ob \<and> rt_object_get_type ob k' = c \<and>
    rt_object_is_systemobject ob k' \<and> name (objs k' ob) = rt_strncpy RT_NAME_MAX nm"
  using assms static_class_bits [of c] lists_wf_insert_after [of "object_list k" ob c]
  by (auto simp: container_ok_def rt_object_init_def bind_eq_Some_conv registered_def
      rt_object_get_type_def rt_object_is_systemobject_def upd_obj_def list_insert_after_def
      listed_def Let_def split: if_splits)

lemma container_ok_allocate:
  assumes "container_ok k" and "\<not> listed (object_list k) ob"
    and "rt_object_allocate (Some ob) c nm k = Some (r, k')"
  shows "r = Some ob \<and> container_ok k' \<and> registered k' ob \<and> rt_object_get_type ob k' = c \<and>
    \<not> rt_object_is_systemobject ob k' \<and> name (objs k' ob) = rt_strncpy RT_NAME_MAX nm"
proof -
  have "objs (zero_struct ob k) = objs k" "object_list (zero_struct ob k) = object_list k"
    by (cases ob; simp)+
  then show ?thesis
    using assms static_class_bits [of c] lists_wf_insert_after [of "object_list k" ob c]
    by (auto simp: container_ok_def rt_object_allocate_def bind_eq_Some_conv registered_def
        rt_object_get_type_def rt_object_is_systemobject_def upd_obj_def list_insert_after_def
        listed_def Let_def split: if_splits)
qed

lemma container_ok_detach:
  assumes "container_ok k"
  shows "container_ok (rt_object_detach ob k) \<and> \<not> listed (object_list (rt_object_detach ob k)) ob"
  using assms
  by (auto simp: container_ok_def rt_object_detach_def Let_def upd_obj_def lists_wf_remove
      not_listed_remove set_list_remove rt_object_get_type_def)

lemma rt_object_delete_dynamic:
  "\<not> rt_object_is_systemobject ob k \<Longrightarrow> rt_object_delete ob k = Some (rt_object_detach ob k)"
  by (simp add: rt_object_delete_def rt_object_detach_def rt_object_is_systemobject_def Let_def)

lemma rt_object_delete_static:
  "rt_object_is_systemobject ob k \<Longrightarrow> rt_object_delete ob k = None"
  by (simp add: rt_object_delete_def rt_object_is_systemobject_def)

end
