(* ===== verification/Sched.thy ===== *)
theory Sched
  imports Kobject
begin

text \<open>
  The scheduler of \<^verbatim>\<open>src/scheduler.c\<close> (single processor): the ready lists per priority,
  the bitmap of nonempty ready lists, \<^verbatim>\<open>rt_schedule\<close>, and the scheduler lock. The
  assembly context switch is the change of \<open>rt_current_thread\<close>; a section between
  \<^verbatim>\<open>rt_hw_interrupt_disable\<close> and \<^verbatim>\<open>rt_hw_interrupt_enable\<close> is one atomic step. An access to
  \<^verbatim>\<open>rt_thread_priority_table\<close> outside its bounds is \<open>None\<close>, like a failed assertion, and so
  is the endless loop that \<^verbatim>\<open>_rt_scheduler_stack_check\<close> enters on a bad stack (interrupts
  are already disabled there, so the saved level is not zero).
\<close>

section \<open>Operations\<close>

definition rt_system_scheduler_init :: "kernel \<Rightarrow> kernel" where
  "rt_system_scheduler_init k =
     k\<lparr>rt_scheduler_lock_nest := 0,
       tlists := (\<lambda>h. case h of
           ReadyList p \<Rightarrow> if p < RT_THREAD_PRIORITY_MAX then [] else tlists k h
         | Defunct \<Rightarrow> []
         | _ \<Rightarrow> tlists k h),
       rt_thread_ready_priority_group := 0\<rparr>"

definition get_highest_priority_thread :: "kernel \<Rightarrow> (nat \<times> nat) option" where
  "get_highest_priority_thread k = do {
     rt_assert (rt_ffs (rt_thread_ready_priority_group k) \<noteq> 0);
     let highest_ready_priority = rt_ffs (rt_thread_ready_priority_group k) - 1;
     case tlists k (ReadyList highest_ready_priority) of
       [] \<Rightarrow> None
     | t # _ \<Rightarrow> Some (t, highest_ready_priority)
   }"

definition rt_schedule_insert_thread :: "nat \<Rightarrow> kernel \<Rightarrow> kernel option" where
  "rt_schedule_insert_thread t k =
     (if rt_current_thread k = Some t
      then Some (upd_thread t (set_stat RT_THREAD_RUNNING) k)
      else do {
        let k = upd_thread t (set_stat RT_THREAD_READY) k;
        rt_assert (tprio k t < RT_THREAD_PRIORITY_MAX);
        let k = upd_tlists (list_insert_before (ReadyList (tprio k t)) t) k;
        Some (k\<lparr>rt_thread_ready_priority_group :=
          rt_thread_ready_priority_group k OR number_mask (threads k t)\<rparr>)
      })"

definition rt_schedule_remove_thread :: "nat \<Rightarrow> kernel \<Rightarrow> kernel option" where
  "rt_schedule_remove_thread t k = do {
     let k = upd_tlists (list_remove t) k;
     rt_assert (tprio k t < RT_THREAD_PRIORITY_MAX);
     Some (if tlists k (ReadyList (tprio k t)) = []
       then k\<lparr>rt_thread_ready_priority_group :=
         rt_thread_ready_priority_group k AND NOT (number_mask (threads k t))\<rparr>
       else k)
   }"

definition rt_system_scheduler_start :: "kernel \<Rightarrow> kernel option" where
  "rt_system_scheduler_start k = do {
     (to_thread, _) \<leftarrow> get_highest_priority_thread k;
     let k = k\<lparr>rt_current_thread := Some to_thread\<rparr>;
     k \<leftarrow> rt_schedule_remove_thread to_thread k;
     Some (upd_thread to_thread (\<lambda>t. t\<lparr>stat := RT_THREAD_RUNNING\<rparr>) k)
   }"

definition stack_overflow :: "(u32 \<Rightarrow> u8) \<Rightarrow> rt_thread \<Rightarrow> bool" where
  "stack_overflow m t \<longleftrightarrow> m (stack_addr t) \<noteq> 0x23 \<or> sp t \<le> stack_addr t \<or>
     sp t > stack_addr t + stack_size t"

definition rt_scheduler_stack_check :: "nat \<Rightarrow> kernel \<Rightarrow> unit option" where
  "rt_scheduler_stack_check t k = (if stack_overflow (mem k) (threads k t) then None else Some ())"

definition rt_schedule :: "kernel \<Rightarrow> kernel option" where
  "rt_schedule k =
     (if rt_scheduler_lock_nest k = 0 \<and> rt_thread_ready_priority_group k \<noteq> 0 then do {
        (highest, highest_ready_priority) \<leftarrow> get_highest_priority_thread k;
        cur \<leftarrow> rt_current_thread k;
        let running = (tstat k cur = RT_THREAD_RUNNING);
        let stay = (running \<and> tprio k cur < highest_ready_priority);
        let need_insert_from_thread = (running \<and> \<not> stay);
        let to_thread = (if stay then cur else highest);
        if to_thread \<noteq> cur then do {
          let k = k\<lparr>rt_current_priority := of_nat highest_ready_priority,
                    rt_current_thread := Some to_thread\<rparr>;
          k \<leftarrow> (if need_insert_from_thread then rt_schedule_insert_thread cur k else Some k);
          k \<leftarrow> rt_schedule_remove_thread to_thread k;
          let k = upd_thread to_thread (set_stat RT_THREAD_RUNNING) k;
          rt_scheduler_stack_check to_thread k;
          Some k
        } else do {
          k \<leftarrow> rt_schedule_remove_thread cur k;
          Some (upd_thread cur (set_stat RT_THREAD_RUNNING) k)
        }
      } else Some k)"

definition rt_enter_critical :: "kernel \<Rightarrow> kernel" where
  "rt_enter_critical k = k\<lparr>rt_scheduler_lock_nest := rt_scheduler_lock_nest k + 1\<rparr>"

definition rt_exit_critical :: "kernel \<Rightarrow> kernel option" where
  "rt_exit_critical k =
     (let k = k\<lparr>rt_scheduler_lock_nest := rt_scheduler_lock_nest k - 1\<rparr>
      in if sint (rt_scheduler_lock_nest k) \<le> 0
         then rt_schedule (k\<lparr>rt_scheduler_lock_nest := 0\<rparr>)
         else Some k)"

definition rt_critical_level :: "kernel \<Rightarrow> u16" where
  "rt_critical_level k = rt_scheduler_lock_nest k"

section \<open>The ready queue\<close>

text \<open>
  The interface between the bitmap-and-lists representation and its clients: a family of
  FIFO queues, one per priority. \<open>fit\<close> says that a member may be queued; the laws give the
  queues after insertion and removal and say that the choice is the head of the queue with
  the least number.
\<close>

locale ready_queue =
  fixes inv :: "'s \<Rightarrow> bool"
    and fit :: "'s \<Rightarrow> 't \<Rightarrow> bool"
    and prio :: "'s \<Rightarrow> 't \<Rightarrow> nat"
    and q :: "'s \<Rightarrow> nat \<Rightarrow> 't list"
    and ins :: "'t \<Rightarrow> 's \<Rightarrow> 's option"
    and del :: "'t \<Rightarrow> 's \<Rightarrow> 's option"
    and top :: "'s \<Rightarrow> ('t \<times> nat) option"
  assumes ins: "inv s \<Longrightarrow> fit s t \<Longrightarrow> (\<And>p. t \<notin> set (q s p)) \<Longrightarrow>
      returns (ins t s) (\<lambda>s'. inv s' \<and> q s' = (q s)(prio s t := q s (prio s t) @ [t]) \<and>
        prio s' = prio s \<and> fit s' = fit s)"
    and del: "inv s \<Longrightarrow> fit s t \<Longrightarrow>
      returns (del t s) (\<lambda>s'. inv s' \<and> q s' = (\<lambda>p. remove1 t (q s p)) \<and>
        prio s' = prio s \<and> fit s' = fit s)"
    and top: "inv s \<Longrightarrow> q s p \<noteq> [] \<Longrightarrow> (\<And>i. i < p \<Longrightarrow> q s i = []) \<Longrightarrow>
      top s = Some (hd (q s p), p)"
    and queued: "inv s \<Longrightarrow> t \<in> set (q s p) \<Longrightarrow> prio s t = p"
    and distinct: "inv s \<Longrightarrow> distinct (q s p)"
begin

lemma unique: "inv s \<Longrightarrow> t \<in> set (q s p) \<Longrightarrow> t \<in> set (q s i) \<Longrightarrow> i = p"
  using queued by blast

text \<open>The first of a queue, moved to its end: one turn of the round robin.\<close>

lemma rotate:
  assumes "inv s" and q: "q s p = t # ts" and "fit s t"
  shows "returns (Option.bind (del t s) (ins t))
    (\<lambda>s'. inv s' \<and> q s' = (q s)(p := ts @ [t]) \<and> prio s' = prio s \<and> fit s' = fit s)"
proof -
  from del [OF assms(1,3)] obtain s1 where s1: "del t s = Some s1" "inv s1"
      "q s1 = (\<lambda>p. remove1 t (q s p))" "prio s1 = prio s" "fit s1 = fit s"
    by (auto elim: returnsE)
  have p: "prio s t = p" using queued [OF assms(1), of t p] q by simp
  have dist: "distinct (q s i)" for i by (rule distinct [OF assms(1)])
  have out: "t \<notin> set (q s1 i)" for i
    using dist [of i] s1(3) by simp
  have "t \<notin> set (q s i)" if "i \<noteq> p" for i
    using unique [OF assms(1), of t p i] q that by auto
  then have "(q s1)(p := q s1 p @ [t]) = (q s)(p := ts @ [t])"
    using q s1(3) by (auto simp: fun_eq_iff)
  then show ?thesis
    using ins [OF s1(2) _ out] assms(3) s1 p by simp
qed

end

text \<open>
  The bitmap and the lists of the kernel: bit \<open>p\<close> is set exactly when ready list \<open>p\<close> has
  members, and a member of list \<open>p\<close> has priority \<open>p\<close>.
\<close>

definition rq_inv :: "kernel \<Rightarrow> bool" where
  "rq_inv k \<longleftrightarrow> lists_wf (tlists k) \<and>
     (\<forall>p. bit (rt_thread_ready_priority_group k) p \<longleftrightarrow> tlists k (ReadyList p) \<noteq> []) \<and>
     (\<forall>p t. t \<in> set (tlists k (ReadyList p)) \<longrightarrow> tprio k t = p)"

definition mask_ok :: "rt_thread \<Rightarrow> bool" where
  "mask_ok t \<longleftrightarrow> unat (current_priority t) < RT_THREAD_PRIORITY_MAX \<and>
     number_mask t = 2 ^ unat (current_priority t)"

definition rq_fit :: "kernel \<Rightarrow> nat \<Rightarrow> bool" where
  "rq_fit k t \<longleftrightarrow> mask_ok (threads k t) \<and> rt_current_thread k \<noteq> Some t \<and>
     (\<forall>h. (\<nexists>p. h = ReadyList p) \<longrightarrow> t \<notin> set (tlists k h))"

lemma rq_inv_cong:
  assumes "tlists k' = tlists k"
    and "rt_thread_ready_priority_group k' = rt_thread_ready_priority_group k"
    and "\<And>t. current_priority (threads k' t) = current_priority (threads k t)"
  shows "rq_inv k' = rq_inv k"
  using assms by (simp add: rq_inv_def)

lemma insert_thread_eq:
  assumes "mask_ok (threads k t)" and "rt_current_thread k \<noteq> Some t"
  shows "rt_schedule_insert_thread t k = Some (k\<lparr>
    threads := (threads k)(t := set_stat RT_THREAD_READY (threads k t)),
    tlists := list_insert_before (ReadyList (tprio k t)) t (tlists k),
    rt_thread_ready_priority_group :=
      rt_thread_ready_priority_group k OR 2 ^ tprio k t\<rparr>)"
  using assms by (simp add: rt_schedule_insert_thread_def mask_ok_def kdefs Let_def)

lemma remove_thread_eq:
  assumes "mask_ok (threads k t)"
  shows "rt_schedule_remove_thread t k = Some (k\<lparr>
    tlists := list_remove t (tlists k),
    rt_thread_ready_priority_group :=
      (if list_remove t (tlists k) (ReadyList (tprio k t)) = []
       then rt_thread_ready_priority_group k AND NOT (2 ^ tprio k t)
       else rt_thread_ready_priority_group k)\<rparr>)"
  using assms by (simp add: rt_schedule_remove_thread_def mask_ok_def kdefs Let_def)

lemma rq_inv_insert:
  assumes "rq_inv k" and "mask_ok (threads k t)" and "\<not> listed (tlists k) t"
    and "rt_current_thread k \<noteq> Some t"
  shows "returns (rt_schedule_insert_thread t k) rq_inv"
proof -
  let ?p = "tprio k t" and ?g = "rt_thread_ready_priority_group k"
  have p: "?p < LENGTH(32)" using assms(2) by (simp add: mask_ok_def)
  have wf: "lists_wf (list_insert_before (ReadyList ?p) t (tlists k))"
    using assms(1,3) by (intro lists_wf_insert_before) (simp_all add: rq_inv_def)
  have bm: "bit (?g OR 2 ^ ?p) i \<longleftrightarrow>
      list_insert_before (ReadyList ?p) t (tlists k) (ReadyList i) \<noteq> []" for i
    unfolding bit_or_single [OF p] using assms(1) by (auto simp: rq_inv_def list_insert_before_def)
  have pr: "u \<in> set (list_insert_before (ReadyList ?p) t (tlists k) (ReadyList i)) \<Longrightarrow>
      tprio k u = i" for u i
    using assms(1) by (auto simp: rq_inv_def list_insert_before_def split: if_splits)
  show ?thesis
    unfolding insert_thread_eq [OF assms(2,4)] returns_simps rq_inv_def
    using wf bm pr by (auto split: if_splits)
qed

lemma rq_inv_remove:
  assumes "rq_inv k" and "mask_ok (threads k t)"
  shows "returns (rt_schedule_remove_thread t k) rq_inv"
proof -
  let ?L = "list_remove t (tlists k)" and ?g = "rt_thread_ready_priority_group k"
  have wf: "lists_wf (tlists k)" and bm: "\<And>p. bit (rt_thread_ready_priority_group k) p \<longleftrightarrow>
      tlists k (ReadyList p) \<noteq> []"
    and pr: "\<And>p u. u \<in> set (tlists k (ReadyList p)) \<Longrightarrow> tprio k u = p"
    using assms(1) by (auto simp: rq_inv_def)
  have "?L (ReadyList p) = tlists k (ReadyList p)" if "p \<noteq> tprio k t" for p
  proof -
    have "t \<notin> set (tlists k (ReadyList p))" using pr [of t p] that by blast
    then show ?thesis by (simp add: list_remove_def)
  qed
  note other = this
  have "bit (if ?L (ReadyList (tprio k t)) = [] then ?g AND NOT (2 ^ tprio k t) else ?g) i \<longleftrightarrow>
      ?L (ReadyList i) \<noteq> []" for i
    using bm [of i] other [of i]
    by (cases "i = tprio k t") (auto simp: bit_and_not_single list_remove_def)
  then show ?thesis
    unfolding remove_thread_eq [OF assms(2)] returns_simps rq_inv_def
    using pr lists_wf_remove [OF wf] by (simp add: set_list_remove [OF wf])
qed

lemma get_highest_eq:
  assumes "rq_inv k" and "tlists k (ReadyList p) \<noteq> []"
    and "\<And>i. i < p \<Longrightarrow> tlists k (ReadyList i) = []"
  shows "get_highest_priority_thread k = Some (hd (tlists k (ReadyList p)), p)"
proof -
  let ?g = "rt_thread_ready_priority_group k"
  have b: "bit ?g p" "\<And>i. i < p \<Longrightarrow> \<not> bit ?g i"
    using assms by (auto simp: rq_inv_def)
  then have "?g \<noteq> 0" by auto
  from rt_ffs_lowest [OF this] obtain r where "rt_ffs ?g = Suc r" "bit ?g r" "\<forall>i<r. \<not> bit ?g i"
    by blast
  moreover from this b have "r = p" by (metis linorder_neqE_nat)
  ultimately show ?thesis
    using assms(2) by (simp add: get_highest_priority_thread_def split: list.split)
qed

lemma group_nonzero: "rq_inv k \<Longrightarrow>
    rt_thread_ready_priority_group k \<noteq> 0 \<longleftrightarrow> (\<exists>p. tlists k (ReadyList p) \<noteq> [])"
  unfolding rq_inv_def word_neq_0_bit by (metis bit_imp_le_length)

interpretation rq: ready_queue rq_inv rq_fit tprio "\<lambda>k p. tlists k (ReadyList p)"
  rt_schedule_insert_thread rt_schedule_remove_thread get_highest_priority_thread
proof unfold_locales
  fix k t assume k: "rq_inv k" "rq_fit k t" and out: "\<And>p. t \<notin> set (tlists k (ReadyList p))"
  then have m: "mask_ok (threads k t)" "rt_current_thread k \<noteq> Some t"
    by (auto simp: rq_fit_def)
  have "\<not> listed (tlists k) t"
    using k(2) out unfolding rq_fit_def listed_def by metis
  from rq_inv_insert [OF k(1) m(1) this m(2)]
  show "returns (rt_schedule_insert_thread t k) (\<lambda>k'. rq_inv k' \<and>
      (\<lambda>p. tlists k' (ReadyList p)) = (\<lambda>p. tlists k (ReadyList p))
        (tprio k t := tlists k (ReadyList (tprio k t)) @ [t]) \<and>
      tprio k' = tprio k \<and> rq_fit k' = rq_fit k)"
    by (simp add: insert_thread_eq [OF m] fun_eq_iff rq_fit_def mask_ok_def list_insert_before_def)
next
  fix k t assume k: "rq_inv k" "rq_fit k t"
  then have m: "mask_ok (threads k t)" by (simp add: rq_fit_def)
  have wf: "lists_wf (tlists k)" using k(1) by (simp add: rq_inv_def)
  from rq_inv_remove [OF k(1) m] k(2)
  show "returns (rt_schedule_remove_thread t k) (\<lambda>k'. rq_inv k' \<and>
      (\<lambda>p. tlists k' (ReadyList p)) = (\<lambda>p. remove1 t (tlists k (ReadyList p))) \<and>
      tprio k' = tprio k \<and> rq_fit k' = rq_fit k)"
    by (auto simp: remove_thread_eq [OF m] fun_eq_iff rq_fit_def set_list_remove [OF wf])
       (auto simp: list_remove_def)
qed (auto simp: get_highest_eq rq_inv_def lists_wf_def)

section \<open>The scheduler invariant\<close>

text \<open>
  \<open>head_stat\<close> is the status every member of a list has. A thread is live from its startup
  until it is closed; the fields the scheduler and the timers rely on are then set up.
\<close>

fun head_stat :: "thead \<Rightarrow> u8" where
  "head_stat (ReadyList p) = RT_THREAD_READY"
| "head_stat Defunct = RT_THREAD_CLOSE"
| "head_stat (SuspendThread ob) = RT_THREAD_SUSPEND"
| "head_stat (SuspendSender m) = RT_THREAD_SUSPEND"
| "head_stat (SuspendPush q) = RT_THREAD_SUSPEND"
| "head_stat (SuspendPop q) = RT_THREAD_SUSPEND"
| "head_stat (SuspendCompletion c) = RT_THREAD_SUSPEND"

definition live :: "kernel \<Rightarrow> nat \<Rightarrow> bool" where
  "live k t \<longleftrightarrow> tstat k t \<in> {RT_THREAD_READY, RT_THREAD_SUSPEND, RT_THREAD_RUNNING}"

definition thread_ok :: "kernel \<Rightarrow> nat \<Rightarrow> bool" where
  "thread_ok k t \<longleftrightarrow> mask_ok (threads k t) \<and> \<not> stack_overflow (mem k) (threads k t) \<and>
     rt_object_get_type (OThread t) k = RT_Object_Class_Thread \<and>
     rt_object_get_type (OTimer (ThreadTimer t)) k = RT_Object_Class_Timer \<and>
     rt_object_is_systemobject (OTimer (ThreadTimer t)) k"

definition sched_inv :: "kernel \<Rightarrow> bool" where
  "sched_inv k \<longleftrightarrow> rq_inv k \<and>
     (\<forall>h t. t \<in> set (tlists k h) \<longrightarrow> tstat k t = head_stat h) \<and>
     (\<forall>t. tstat k t = RT_THREAD_READY \<longrightarrow>
        t \<in> set (tlists k (ReadyList (tprio k t))) \<and> rt_current_thread k \<noteq> Some t) \<and>
     (\<forall>t. tstat k t = RT_THREAD_RUNNING \<longrightarrow> rt_current_thread k = Some t) \<and>
     (\<forall>t. live k t \<longrightarrow> thread_ok k t)"

lemma sched_invD:
  assumes "sched_inv k"
  shows "rq_inv k" and "t \<in> set (tlists k h) \<Longrightarrow> tstat k t = head_stat h"
    and "tstat k t = RT_THREAD_READY \<Longrightarrow> t \<in> set (tlists k (ReadyList (tprio k t)))"
    and "tstat k t = RT_THREAD_READY \<Longrightarrow> rt_current_thread k \<noteq> Some t"
    and "tstat k t = RT_THREAD_RUNNING \<Longrightarrow> rt_current_thread k = Some t"
    and "live k t \<Longrightarrow> thread_ok k t" and "lists_wf (tlists k)"
  using assms by (auto simp: sched_inv_def rq_inv_def)

lemma liveI [simp]:
  "tstat k t = RT_THREAD_READY \<Longrightarrow> live k t" "tstat k t = RT_THREAD_SUSPEND \<Longrightarrow> live k t"
  "tstat k t = RT_THREAD_RUNNING \<Longrightarrow> live k t"
  by (simp_all add: live_def)

lemma thread_ok_mask: "thread_ok k t \<Longrightarrow> mask_ok (threads k t)"
  by (simp add: thread_ok_def)

lemma sched_inv_unlisted:
  assumes "sched_inv k" and "tstat k t \<notin> {RT_THREAD_READY, RT_THREAD_SUSPEND, RT_THREAD_CLOSE}"
  shows "\<not> listed (tlists k) t"
proof
  assume "listed (tlists k) t"
  then obtain h where "t \<in> set (tlists k h)" by (auto simp: listed_def)
  with sched_invD(2) [OF assms(1) this] assms(2) show False by (cases h) auto
qed

text \<open>The invariant looks at the scheduler's fields and at object types only.\<close>

lemma sched_inv_cong:
  assumes "threads k' = threads k" "tlists k' = tlists k" "mem k' = mem k"
    "rt_thread_ready_priority_group k' = rt_thread_ready_priority_group k"
    "rt_current_thread k' = rt_current_thread k" "\<And>ob. otype (objs k' ob) = otype (objs k ob)"
  shows "sched_inv k' = sched_inv k"
proof -
  have "rt_object_get_type ob k' = rt_object_get_type ob k"
    "rt_object_is_systemobject ob k' = rt_object_is_systemobject ob k" for ob
    using assms(6) by (simp_all add: rt_object_get_type_def rt_object_is_systemobject_def)
  then have "thread_ok k' t = thread_ok k t" "live k' t = live k t" for t
    using assms by (simp_all add: thread_ok_def live_def)
  then show ?thesis
    using assms rq_inv_cong [of k' k] by (simp add: sched_inv_def)
qed

text \<open>
  Queueing a thread that hangs in no list and is not the current one; the same thread
  becomes the running one when it is the current one.
\<close>

lemma sched_inv_insert:
  assumes k: "sched_inv k" and t: "thread_ok k t" "\<not> listed (tlists k) t"
  shows "returns (rt_schedule_insert_thread t k) (\<lambda>k'. sched_inv k' \<and>
    tstat k' t = (if rt_current_thread k = Some t then RT_THREAD_RUNNING else RT_THREAD_READY) \<and>
    rt_current_thread k' = rt_current_thread k)"
proof (cases "rt_current_thread k = Some t")
  case True
  with k t show ?thesis
    by (auto simp: rt_schedule_insert_thread_def sched_inv_def rq_inv_def kdefs live_def
        thread_ok_def mask_ok_def stack_overflow_def listed_def rt_object_get_type_def
        rt_object_is_systemobject_def)
next
  case False
  note eq = insert_thread_eq [OF thread_ok_mask [OF t(1)] False]
  have "returns (rt_schedule_insert_thread t k) rq_inv"
    using sched_invD(1) [OF k] thread_ok_mask [OF t(1)] t(2) False by (rule rq_inv_insert)
  then have "rq_inv (the (rt_schedule_insert_thread t k))" by (simp add: eq)
  with k t False show ?thesis
    by (auto simp: eq sched_inv_def live_def list_insert_before_def
        thread_ok_def mask_ok_def stack_overflow_def listed_def rt_object_get_type_def
        rt_object_is_systemobject_def)
qed

text \<open>The two ways \<^verbatim>\<open>rt_schedule\<close> changes the state, and the ways it does not.\<close>

definition switch_to :: "nat \<Rightarrow> nat \<Rightarrow> kernel \<Rightarrow> kernel option" where
  "switch_to cur to k = do {
     let k = k\<lparr>rt_current_priority := of_nat (tprio k to), rt_current_thread := Some to\<rparr>;
     k \<leftarrow> (if tstat k cur = RT_THREAD_RUNNING then rt_schedule_insert_thread cur k else Some k);
     k \<leftarrow> rt_schedule_remove_thread to k;
     Some (upd_thread to (set_stat RT_THREAD_RUNNING) k)
   }"

lemma set_stat_idem: "stat t AND RT_THREAD_STAT_MASK = st \<Longrightarrow> set_stat st t = t"
  by (auto simp: set_stat_def bit.conj_disj_distrib [symmetric])

lemma lowest_ready:
  assumes "tlists k (ReadyList i) \<noteq> []"
  obtains p where "tlists k (ReadyList p) \<noteq> []" and "\<And>i. i < p \<Longrightarrow> tlists k (ReadyList i) = []"
  using assms exists_least_iff [of "\<lambda>p. tlists k (ReadyList p) \<noteq> []"] by blast

lemma rt_schedule_locked: "rt_scheduler_lock_nest k \<noteq> 0 \<Longrightarrow> rt_schedule k = Some k"
  by (simp add: rt_schedule_def)

lemma rt_schedule_none_ready:
  assumes "sched_inv k" and "\<And>p. tlists k (ReadyList p) = []"
  shows "rt_schedule k = Some k"
  using group_nonzero [OF sched_invD(1) [OF assms(1)]] assms(2) by (auto simp: rt_schedule_def)

text \<open>\<open>best_ready k p t\<close>: \<open>t\<close> is the first thread of the highest nonempty ready list \<open>p\<close>.\<close>

definition best_ready :: "kernel \<Rightarrow> nat \<Rightarrow> nat \<Rightarrow> bool" where
  "best_ready k p t \<longleftrightarrow> tlists k (ReadyList p) \<noteq> [] \<and> t = hd (tlists k (ReadyList p)) \<and>
     (\<forall>i < p. tlists k (ReadyList i) = [])"

lemma best_readyD:
  assumes "sched_inv k" and "best_ready k p t"
  shows "t \<in> set (tlists k (ReadyList p))" and "tstat k t = RT_THREAD_READY"
    and "tprio k t = p" and "rt_current_thread k \<noteq> Some t" and "thread_ok k t"
    and "get_highest_priority_thread k = Some (t, p)"
    and "rt_thread_ready_priority_group k \<noteq> 0"
proof -
  show t: "t \<in> set (tlists k (ReadyList p))" using assms(2) by (auto simp: best_ready_def)
  show st: "tstat k t = RT_THREAD_READY" using sched_invD(2) [OF assms(1) t] by simp
  show "tprio k t = p" using sched_invD(1) [OF assms(1)] t by (simp add: rq_inv_def)
  show "rt_current_thread k \<noteq> Some t" using sched_invD(4) [OF assms(1) st] .
  show "thread_ok k t" using sched_invD(6) [OF assms(1)] st by simp
  show "get_highest_priority_thread k = Some (t, p)"
    using get_highest_eq [OF sched_invD(1) [OF assms(1)]] assms(2) by (simp add: best_ready_def)
  show "rt_thread_ready_priority_group k \<noteq> 0"
    using group_nonzero [OF sched_invD(1) [OF assms(1)]] assms(2) by (auto simp: best_ready_def)
qed

lemma ex_best_ready:
  assumes "tlists k (ReadyList i) \<noteq> []"
  obtains p t where "best_ready k p t"
  using lowest_ready [OF assms] unfolding best_ready_def by metis

lemma rt_schedule_stay:
  assumes k: "sched_inv k" and b: "best_ready k p t"
    and cur: "rt_current_thread k = Some cur"
    and run: "tstat k cur = RT_THREAD_RUNNING" and less: "tprio k cur < p"
  shows "rt_schedule k = Some k"
proof (cases "rt_scheduler_lock_nest k = 0")
  case True
  note best = best_readyD [OF k b]
  have m: "mask_ok (threads k cur)" using sched_invD(6) [OF k, of cur] run by (simp add: thread_ok_def)
  have e: "tlists k (ReadyList (tprio k cur)) = []" using b less by (simp add: best_ready_def)
  have "\<not> listed (tlists k) cur" using sched_inv_unlisted [OF k, of cur] run by simp
  then have l: "list_remove cur (tlists k) = tlists k"
    by (simp add: list_remove_def listed_def)
  have "\<not> bit (rt_thread_ready_priority_group k) (tprio k cur)"
    using sched_invD(1) [OF k] e by (simp add: rq_inv_def)
  then have g: "rt_thread_ready_priority_group k AND NOT (2 ^ tprio k cur) =
      rt_thread_ready_priority_group k"
    by (intro bit_word_eqI) (auto simp: bit_and_not_single)
  have "rt_schedule_remove_thread cur k = Some k"
    unfolding remove_thread_eq [OF m] l by (simp add: g)
  then show ?thesis
    using True best(6,7) cur run less
    by (simp add: rt_schedule_def Let_def kdefs set_stat_idem)
qed (simp add: rt_schedule_locked)

lemma rt_schedule_switch:
  assumes k: "sched_inv k" and b: "best_ready k p t" and "rt_scheduler_lock_nest k = 0"
    and cur: "rt_current_thread k = Some cur"
    and sw: "tstat k cur = RT_THREAD_RUNNING \<Longrightarrow> p \<le> tprio k cur"
  shows "rt_schedule k = do { k' \<leftarrow> switch_to cur t k; rt_scheduler_stack_check t k'; Some k' }"
  using best_readyD(3,4,6,7) [OF k b] assms
  by (auto simp: rt_schedule_def switch_to_def Let_def)

text \<open>What a switch leaves behind, up to the bitmap, which \<open>rq_inv\<close> determines.\<close>

definition switched :: "nat \<Rightarrow> nat \<Rightarrow> kernel \<Rightarrow> u32 \<Rightarrow> kernel" where
  "switched cur to k g = k\<lparr>
     rt_current_priority := of_nat (tprio k to), rt_current_thread := Some to,
     threads := (if tstat k cur = RT_THREAD_RUNNING
       then (threads k)(cur := set_stat RT_THREAD_READY (threads k cur)) else threads k)
       (to := set_stat RT_THREAD_RUNNING (threads k to)),
     tlists := list_remove to (if tstat k cur = RT_THREAD_RUNNING
       then list_insert_before (ReadyList (tprio k cur)) cur (tlists k) else tlists k),
     rt_thread_ready_priority_group := g\<rparr>"

lemma switch_to_eq:
  assumes k: "sched_inv k" and "cur \<noteq> to" and to: "thread_ok k to"
    and cur: "rt_current_thread k = Some cur"
  shows "\<exists>g. switch_to cur to k = Some (switched cur to k g) \<and> rq_inv (switched cur to k g)"
proof -
  let ?k1 = "k\<lparr>rt_current_priority := of_nat (tprio k to), rt_current_thread := Some to\<rparr>"
  have k1: "rq_inv ?k1" using sched_invD(1) [OF k] by (simp add: rq_inv_def)
  let ?k2 = "\<lambda>g. ?k1\<lparr>
        threads := (if tstat k cur = RT_THREAD_RUNNING
          then (threads k)(cur := set_stat RT_THREAD_READY (threads k cur)) else threads k),
        tlists := (if tstat k cur = RT_THREAD_RUNNING
          then list_insert_before (ReadyList (tprio k cur)) cur (tlists k) else tlists k),
        rt_thread_ready_priority_group := g\<rparr>"
  obtain g where k2: "(if tstat k cur = RT_THREAD_RUNNING
      then rt_schedule_insert_thread cur ?k1 else Some ?k1) = Some (?k2 g)" "rq_inv (?k2 g)"
  proof (cases "tstat k cur = RT_THREAD_RUNNING")
    case True
    have m: "mask_ok (threads ?k1 cur)"
      using sched_invD(6) [OF k, of cur] True by (simp add: thread_ok_def)
    have c: "rt_current_thread ?k1 \<noteq> Some cur" using assms(2) by simp
    have "\<not> listed (tlists ?k1) cur" using sched_inv_unlisted [OF k, of cur] True by simp
    from rq_inv_insert [OF k1 m this c] show ?thesis
      by (intro that [of "rt_thread_ready_priority_group k OR 2 ^ tprio k cur"])
         (use True insert_thread_eq [OF m c] in simp_all)
  next
    case False
    then show ?thesis
      using that [of "rt_thread_ready_priority_group k"] k1 by simp
  qed
  have m: "mask_ok (threads (?k2 g) to)"
    using to assms(2) by (simp add: thread_ok_def)
  obtain g' where g': "rt_schedule_remove_thread to (?k2 g) =
      Some ((?k2 g)\<lparr>tlists := list_remove to (tlists (?k2 g)), rt_thread_ready_priority_group := g'\<rparr>)"
    using remove_thread_eq [OF m] by blast
  with rq_inv_remove [OF k2(2) m] have
    r: "rq_inv ((?k2 g)\<lparr>tlists := list_remove to (tlists (?k2 g)), rt_thread_ready_priority_group := g'\<rparr>)"
    by simp
  then have "rq_inv (switched cur to k g')"
    by (subst rq_inv_cong [OF _ _ _]) (auto simp: switched_def)
  moreover have "switch_to cur to k = Some (switched cur to k g')"
    using k2(1) g' assms(2)
    by (cases "tstat k cur = RT_THREAD_RUNNING") (simp_all add: switch_to_def switched_def kdefs)
  ultimately show ?thesis by blast
qed

lemma sched_inv_switched:
  assumes k: "sched_inv k" and b: "best_ready k p to" and cur: "rt_current_thread k = Some cur"
    and r: "rq_inv (switched cur to k g)"
  shows "sched_inv (switched cur to k g)"
proof -
  note best = best_readyD [OF k b]
  have ne: "cur \<noteq> to" using best(4) cur by auto
  let ?k = "switched cur to k g"
  have st: "tstat ?k u = (if u = to then RT_THREAD_RUNNING
      else if u = cur \<and> tstat k cur = RT_THREAD_RUNNING then RT_THREAD_READY else tstat k u)" for u
    using ne by (auto simp: switched_def)
  have pr: "current_priority (threads ?k u) = current_priority (threads k u)" for u
    by (simp add: switched_def)
  have other: "tstat k u = RT_THREAD_RUNNING \<Longrightarrow> u = cur" for u
    using sched_invD(5) [OF k, of u] cur by simp
  have members: "u \<in> set (tlists ?k h) \<longleftrightarrow> u \<noteq> to \<and> (u \<in> set (tlists k h) \<or>
      u = cur \<and> tstat k cur = RT_THREAD_RUNNING \<and> h = ReadyList (tprio k cur))" for u h
  proof -
    have "lists_wf (if tstat k cur = RT_THREAD_RUNNING
        then list_insert_before (ReadyList (tprio k cur)) cur (tlists k) else tlists k)"
      using lists_wf_insert_before [OF sched_invD(7) [OF k]] sched_inv_unlisted [OF k, of cur]
        sched_invD(7) [OF k] by simp
    from set_list_remove [OF this, of to h] show ?thesis
      by (auto simp: switched_def list_insert_before_def)
  qed
  have "live k u \<or> live ?k u \<longleftrightarrow> live k u" for u
    using best(2) st [of u] by (auto simp: live_def)
  then have ok: "live ?k u \<Longrightarrow> thread_ok k u" for u
    using sched_invD(6) [OF k] by blast
  have "thread_ok ?k u \<longleftrightarrow> thread_ok k u" for u
    by (simp add: thread_ok_def mask_ok_def stack_overflow_def switched_def
        rt_object_get_type_def rt_object_is_systemobject_def)
  note okk = this
  have c: "rt_current_thread ?k = Some to" by (simp add: switched_def)
  show ?thesis unfolding sched_inv_def
  proof (intro conjI allI impI)
    show "rq_inv ?k" by (rule r)
    show "tstat ?k u = head_stat h" if "u \<in> set (tlists ?k h)" for u h
      using that sched_invD(2) [OF k, of u h] st [of u] members [of u h] other [of u]
      by (cases h) auto
    show "u \<in> set (tlists ?k (ReadyList (tprio ?k u)))" if "tstat ?k u = RT_THREAD_READY" for u
      using that sched_invD(3) [OF k, of u]
      unfolding st members pr by (auto split: if_splits)
    show "rt_current_thread ?k \<noteq> Some u" if "tstat ?k u = RT_THREAD_READY" for u
      using that unfolding st c by (auto split: if_splits)
    show "rt_current_thread ?k = Some u" if "tstat ?k u = RT_THREAD_RUNNING" for u
      using that other [of u] unfolding st c by (auto split: if_splits)
    show "thread_ok ?k u" if "live ?k u" for u
      using okk ok [OF that] by simp
  qed
qed

section \<open>A concrete state\<close>

text \<open>
  The zeroed memory the C startup code leaves, and a state with four threads in it:
  thread 0 of priority 31 and thread 2 of priority 10 are ready, thread 1 of priority 10
  is running, and thread 3 of priority 20 sleeps until tick 50. One object of each other
  class is initialised. The witnesses of the properties start from this state.
\<close>

definition zero_kernel :: kernel where
  "zero_kernel = \<lparr>threads = (\<lambda>_. zero_thread), timers = (\<lambda>_. zero_timer),
     sems = (\<lambda>_. \<lparr>sem_value = 0\<rparr>),
     mutexes = (\<lambda>_. \<lparr>mutex_value = 0, original_priority = 0, hold = 0, owner = None\<rparr>),
     events = (\<lambda>_. \<lparr>event_bits = 0\<rparr>),
     mailboxes = (\<lambda>_. \<lparr>msg_pool = [], mb_size = 0, mb_entry = 0, in_offset = 0, out_offset = 0\<rparr>),
     mqs = (\<lambda>_. zero_mq), mempools = (\<lambda>_. zero_mempool),
     objs = (\<lambda>_. \<lparr>name = [], otype = 0, flag = 0\<rparr>), object_list = (\<lambda>_. []),
     tlists = (\<lambda>_. []), rt_timer_list = [], rt_thread_ready_priority_group = 0,
     rt_scheduler_lock_nest = 0, rt_current_thread = None, rt_current_priority = 0,
     rt_interrupt_nest = 0, rt_tick = 0, random_nr = 0, mem = (\<lambda>_. 0), rt_errno_interrupt = 0\<rparr>"

definition example_thread :: "u8 \<Rightarrow> u8 \<Rightarrow> rt_thread" where
  "example_thread prio st = zero_thread\<lparr>sp := 0x20000040, stack_addr := 0x20000000,
     stack_size := 0x100, stat := st, current_priority := prio, init_priority := prio,
     number_mask := 2 ^ unat prio, init_tick := 5, remaining_tick := 5\<rparr>"

definition example_objs :: "kobj \<Rightarrow> rt_object" where
  "example_objs ob = \<lparr>name = [], otype = (case ob of
       OThread _ \<Rightarrow> RT_Object_Class_Thread | OTimer _ \<Rightarrow> RT_Object_Class_Timer
     | OSem _ \<Rightarrow> RT_Object_Class_Semaphore | OMutex _ \<Rightarrow> RT_Object_Class_Mutex
     | OEvent _ \<Rightarrow> RT_Object_Class_Event | OMailbox _ \<Rightarrow> RT_Object_Class_MailBox
     | OMq _ \<Rightarrow> RT_Object_Class_MessageQueue | OMempool _ \<Rightarrow> RT_Object_Class_MemPool
     | ODevice _ \<Rightarrow> RT_Object_Class_Device)
       OR RT_Object_Class_Static,
     flag = (if ob = OTimer (ThreadTimer 3) then RT_TIMER_FLAG_ACTIVATED else 0)\<rparr>"

definition example_kernel :: kernel where
  "example_kernel = zero_kernel\<lparr>
     threads := (\<lambda>_. zero_thread)(0 := example_thread 31 RT_THREAD_READY,
       1 := example_thread 10 RT_THREAD_RUNNING, 2 := example_thread 10 RT_THREAD_READY,
       3 := example_thread 20 RT_THREAD_SUSPEND),
     timers := (\<lambda>t. case t of
         ThreadTimer i \<Rightarrow> \<lparr>timeout_func = Rt_thread_timeout i, timer_init_tick = 50, timeout_tick = 50\<rparr>
       | Timer i \<Rightarrow> \<lparr>timeout_func = User_timeout i 0, timer_init_tick = 10, timeout_tick = 0\<rparr>),
     objs := example_objs,
     tlists := (\<lambda>_. [])(ReadyList 31 := [0], ReadyList 10 := [2]),
     rt_timer_list := [ThreadTimer 3],
     rt_thread_ready_priority_group := 2 ^ 31 OR 2 ^ 10,
     rt_current_thread := Some 1, rt_current_priority := 10, mem := (\<lambda>_. 0x23)\<rparr>"

lemma example_thread_sel [simp]:
  "stat (example_thread pr st) = st" "current_priority (example_thread pr st) = pr"
  "number_mask (example_thread pr st) = 2 ^ unat pr" "stat zero_thread = 0"
  by (simp_all add: example_thread_def zero_thread_def)

lemma example_kernel_sel [simp]:
  "threads example_kernel = (\<lambda>_. zero_thread)(0 := example_thread 31 RT_THREAD_READY,
     1 := example_thread 10 RT_THREAD_RUNNING, 2 := example_thread 10 RT_THREAD_READY,
     3 := example_thread 20 RT_THREAD_SUSPEND)"
  "tlists example_kernel = (\<lambda>_. [])(ReadyList 31 := [0], ReadyList 10 := [2])"
  "timers example_kernel (ThreadTimer i) =
     \<lparr>timeout_func = Rt_thread_timeout i, timer_init_tick = 50, timeout_tick = 50\<rparr>"
  "timers example_kernel (Timer i) =
     \<lparr>timeout_func = User_timeout i 0, timer_init_tick = 10, timeout_tick = 0\<rparr>"
  "objs example_kernel = example_objs"
  "rt_current_thread example_kernel = Some 1" "rt_scheduler_lock_nest example_kernel = 0"
  "rt_interrupt_nest example_kernel = 0" "rt_tick example_kernel = 0"
  "rt_timer_list example_kernel = [ThreadTimer 3]"
  by (simp_all add: example_kernel_def zero_kernel_def)

lemma example_types [simp]:
  "rt_object_get_type (OThread t) example_kernel = RT_Object_Class_Thread"
  "rt_object_get_type (OTimer tm) example_kernel = RT_Object_Class_Timer"
  "rt_object_is_systemobject ob example_kernel"
  by (cases ob; simp add: rt_object_get_type_def rt_object_is_systemobject_def example_objs_def)+

lemma example_tstat:
  "tstat example_kernel t = (if t = 1 then 3 else if t = 0 \<or> t = 2 then 1
     else if t = 3 then 2 else 0)"
  by simp

lemma thread_ok_example:
  assumes "t \<in> {0, 1, 2, 3}"
  shows "thread_ok example_kernel t"
proof -
  have "mask_ok (threads example_kernel t)" using assms by (auto simp: mask_ok_def)
  moreover have "\<not> stack_overflow (mem example_kernel) (threads example_kernel t)"
    using assms by (auto simp: stack_overflow_def example_thread_def example_kernel_def)
  ultimately show ?thesis by (simp add: thread_ok_def)
qed

lemma rq_inv_example: "rq_inv example_kernel"
proof -
  have "bit (rt_thread_ready_priority_group example_kernel) p \<longleftrightarrow> p = 10 \<or> p = 31" for p
  proof -
    have g: "rt_thread_ready_priority_group example_kernel = (0 OR 2 ^ 31) OR 2 ^ 10"
      by (simp add: example_kernel_def)
    have "10 < LENGTH(32)" "31 < LENGTH(32)" by simp_all
    then show ?thesis unfolding g by (simp only: bit_or_single) auto
  qed
  then show ?thesis
    by (auto simp: rq_inv_def lists_wf_def split: if_splits)
qed

lemma sched_inv_example: "sched_inv example_kernel"
proof -
  have "live example_kernel t \<Longrightarrow> t \<in> {0, 1, 2, 3}" for t
    by (auto simp: live_def split: if_splits)
  then show ?thesis
    using rq_inv_example thread_ok_example
    by (auto simp: sched_inv_def split: if_splits)
qed

section \<open>What rt_schedule does\<close>

lemma rt_schedule_cases:
  assumes k: "sched_inv k" and cur: "rt_current_thread k = Some cur"
  obtains
    (same) "rt_schedule k = Some k"
      "rt_scheduler_lock_nest k \<noteq> 0 \<or> (\<forall>p. tlists k (ReadyList p) = []) \<or>
       tstat k cur = RT_THREAD_RUNNING \<and> (\<exists>p t. best_ready k p t \<and> tprio k cur < p)"
  | (switch) p t g where "rt_schedule k = Some (switched cur t k g)"
      "sched_inv (switched cur t k g)" "best_ready k p t" "cur \<noteq> t"
      "rt_scheduler_lock_nest k = 0" "tstat k cur = RT_THREAD_RUNNING \<longrightarrow> p \<le> tprio k cur"
proof (cases "rt_scheduler_lock_nest k \<noteq> 0 \<or> (\<forall>p. tlists k (ReadyList p) = [])")
  case True
  then show ?thesis
    using rt_schedule_locked rt_schedule_none_ready [OF k] same by blast
next
  case False
  then obtain p t where b: "best_ready k p t" by (metis ex_best_ready)
  show ?thesis
  proof (cases "tstat k cur = RT_THREAD_RUNNING \<and> tprio k cur < p")
    case True
    then show ?thesis using rt_schedule_stay [OF k b cur] same b by blast
  next
    case switching: False
    note best = best_readyD [OF k b]
    have ne: "cur \<noteq> t" using best(4) cur by auto
    obtain g where g: "switch_to cur t k = Some (switched cur t k g)" "rq_inv (switched cur t k g)"
      using switch_to_eq [OF k ne best(5) cur] by blast
    have "rt_scheduler_stack_check t (switched cur t k g) = Some ()"
      using best(5) ne
      by (simp add: rt_scheduler_stack_check_def switched_def thread_ok_def stack_overflow_def)
    moreover have "rt_scheduler_lock_nest k = 0"
      "tstat k cur = RT_THREAD_RUNNING \<Longrightarrow> p \<le> tprio k cur"
      using False switching by auto
    ultimately have "rt_schedule k = Some (switched cur t k g)"
      using rt_schedule_switch [OF k b _ cur] g(1) by simp
    then show ?thesis
      using switch sched_inv_switched [OF k b cur g(2)] b ne False switching by force
  qed
qed

definition runnable :: "kernel \<Rightarrow> nat \<Rightarrow> bool" where
  "runnable k t \<longleftrightarrow> tstat k t = RT_THREAD_READY \<or> tstat k t = RT_THREAD_RUNNING"

lemma runnable_ready:
  assumes "sched_inv k" and "runnable k u" and "rt_current_thread k = Some cur"
  shows "u = cur \<and> tstat k cur = RT_THREAD_RUNNING \<or> u \<in> set (tlists k (ReadyList (tprio k u)))"
  using assms sched_invD(3,5) [OF assms(1), of u] by (auto simp: runnable_def)

lemma best_ready_least:
  assumes "best_ready k p t" and "u \<in> set (tlists k (ReadyList i))"
  shows "p \<le> i"
  using assms unfolding best_ready_def by (metis empty_iff linorder_not_less list.set(1))

lemma runnable_switched:
  assumes "cur \<noteq> t" and "tstat k t = RT_THREAD_READY"
  shows "runnable (switched cur t k g) u \<longleftrightarrow> runnable k u"
  using assms by (auto simp: runnable_def switched_def)

lemma queue_switched:
  assumes "cur \<noteq> t" and "tstat k cur = RT_THREAD_RUNNING"
  shows "tlists (switched cur t k g) (ReadyList (tprio k cur)) =
    remove1 t (tlists k (ReadyList (tprio k cur))) @ [cur]"
  using assms by (auto simp: switched_def list_remove_def list_insert_before_def remove1_append)

lemma rt_schedule_picks:
  assumes k: "sched_inv k" and cur: "rt_current_thread k = Some cur"
    and unlocked: "rt_scheduler_lock_nest k = 0" and some: "runnable k u"
  shows "\<exists>k' t. rt_schedule k = Some k' \<and> sched_inv k' \<and> rt_current_thread k' = Some t \<and>
    tstat k' t = RT_THREAD_RUNNING \<and> runnable k t \<and>
    (\<forall>v. runnable k v \<longrightarrow> tprio k t \<le> tprio k v) \<and>
    (t \<noteq> cur \<longrightarrow> t = hd (tlists k (ReadyList (tprio k t))) \<and>
       (tstat k cur = RT_THREAD_RUNNING \<longrightarrow> tlists k' (ReadyList (tprio k cur)) =
          remove1 t (tlists k (ReadyList (tprio k cur))) @ [cur])) \<and>
    (\<forall>v. runnable k' v = runnable k v)"
  using k cur
proof (cases rule: rt_schedule_cases)
  case same
  have q: "\<exists>p t. best_ready k p t \<and> tprio k cur < p"
    if "v \<in> set (tlists k (ReadyList i))" for v i
    using same(2) unlocked that by force
  have run: "tstat k cur = RT_THREAD_RUNNING"
    using runnable_ready [OF k some cur] same(2) unlocked by auto
  have "tprio k cur \<le> tprio k v" if "runnable k v" for v
    using runnable_ready [OF k that cur] q best_ready_least by (metis less_or_eq_imp_le order_less_le_trans)
  with same(1) k cur run show ?thesis by (auto simp: runnable_def)
next
  case (switch p t g)
  note best = best_readyD [OF k switch(3)]
  have "tprio k t \<le> tprio k v" if "runnable k v" for v
    using runnable_ready [OF k that cur] best_ready_least [OF switch(3)] best(3) switch(6) by auto
  moreover have "t = hd (tlists k (ReadyList (tprio k t)))"
    using switch(3) best(3) by (simp add: best_ready_def)
  moreover have "rt_current_thread (switched cur t k g) = Some t"
    "tstat (switched cur t k g) t = RT_THREAD_RUNNING" by (simp_all add: switched_def)
  moreover have "runnable k t" using best(2) by (simp add: runnable_def)
  ultimately show ?thesis
    using switch(1,2) runnable_switched [OF switch(4) best(2)] queue_switched [OF switch(4)]
    by (intro exI [of _ "switched cur t k g"] exI [of _ t]) simp
qed

text \<open>
  C2. \<^verbatim>\<open>rt_schedule\<close> on an unlocked scheduler: whenever some thread can run, it returns
  with the invariant kept and a thread of the highest priority among all threads that can
  run as the running one; a newly chosen thread is the first of its ready list, and the
  thread it displaces, if it could still run, goes to the tail of the ready list of its
  priority. No thread gains or loses the ability to run.
\<close>

theorem rt_schedule_runs_highest:
  assumes k: "sched_inv k" and cur: "rt_current_thread k = Some cur"
    and unlocked: "rt_scheduler_lock_nest k = 0" and some: "runnable k u"
  shows "\<exists>k' t. rt_schedule k = Some k' \<and> sched_inv k' \<and> rt_current_thread k' = Some t \<and>
    tstat k' t = RT_THREAD_RUNNING \<and> runnable k t \<and>
    (\<forall>v. runnable k v \<longrightarrow> tprio k t \<le> tprio k v) \<and>
    (t \<noteq> cur \<longrightarrow> t = hd (tlists k (ReadyList (tprio k t))) \<and>
       (tstat k cur = RT_THREAD_RUNNING \<longrightarrow> tlists k' (ReadyList (tprio k cur)) =
          remove1 t (tlists k (ReadyList (tprio k cur))) @ [cur])) \<and>
    (\<forall>v. runnable k' v = runnable k v)"
  by (rule rt_schedule_picks [OF assms])

theorem rt_schedule_runs_highest_witness:
  "\<exists>k' t. rt_schedule example_kernel = Some k' \<and> rt_current_thread k' = Some t \<and>
     tprio example_kernel t \<le> 10"
proof -
  have "runnable example_kernel 1" by (simp add: runnable_def)
  from rt_schedule_runs_highest [OF sched_inv_example _ _ this, of 1]
  obtain k' t where "rt_schedule example_kernel = Some k'" "rt_current_thread k' = Some t"
      "\<forall>v. runnable example_kernel v \<longrightarrow> tprio example_kernel t \<le> tprio example_kernel v"
    by auto
  moreover have "tprio example_kernel 1 = 10" by simp
  ultimately show ?thesis using \<open>runnable example_kernel 1\<close> by metis
qed

end
