(* ===== verification/Ktimer.thy ===== *)
theory Ktimer
  imports Sched
begin

text \<open>
  The hard timers of \<^verbatim>\<open>src/timer.c\<close>: a list ordered by the tick at which a timer is due.
  With \<^verbatim>\<open>RT_TIMER_SKIP_LIST_LEVEL\<close> 1 the skip list is one list. Ticks are 32-bit and wrap;
  the code compares them by their difference against half the range. The expiry loop
  \<^verbatim>\<open>rt_timer_check\<close>, which calls timeout functions, is in the theory of the clock.
\<close>

section \<open>Operations\<close>

definition rt_timer_init_fields ::
    "rt_timer_t \<Rightarrow> timeout_func \<Rightarrow> u32 \<Rightarrow> u8 \<Rightarrow> kernel \<Rightarrow> kernel" where
  "rt_timer_init_fields timer timeout time fl k =
     (let k = upd_obj (OTimer timer) (\<lambda>ob. ob\<lparr>flag := fl\<rparr>) k;
          k = upd_obj (OTimer timer) (\<lambda>ob. ob\<lparr>flag := flag ob AND NOT RT_TIMER_FLAG_ACTIVATED\<rparr>) k
      in upd_timer timer
           (\<lambda>t. t\<lparr>timeout_func := timeout, timeout_tick := 0, timer_init_tick := time\<rparr>) k)"

definition rt_timer_init ::
    "rt_timer_t \<Rightarrow> u8 list \<Rightarrow> timeout_func \<Rightarrow> u32 \<Rightarrow> u8 \<Rightarrow> kernel \<Rightarrow> kernel option" where
  "rt_timer_init timer nm timeout time fl k = do {
     k \<leftarrow> rt_object_init (OTimer timer) RT_Object_Class_Timer nm k;
     Some (rt_timer_init_fields timer timeout time fl k)
   }"

definition rt_timer_remove :: "rt_timer_t \<Rightarrow> kernel \<Rightarrow> kernel" where
  "rt_timer_remove timer k = k\<lparr>rt_timer_list := remove1 timer (rt_timer_list k)\<rparr>"

definition rt_timer_list_next_timeout :: "kernel \<Rightarrow> u32" where
  "rt_timer_list_next_timeout k =
     (case rt_timer_list k of [] \<Rightarrow> RT_TICK_MAX | t # _ \<Rightarrow> timeout_tick (timers k t))"

definition rt_timer_next_timeout_tick :: "kernel \<Rightarrow> u32" where
  "rt_timer_next_timeout_tick k = rt_timer_list_next_timeout k"

definition rt_timer_detach :: "rt_timer_t \<Rightarrow> kernel \<Rightarrow> (rt_err_t \<times> kernel) option" where
  "rt_timer_detach timer k = do {
     rt_assert (rt_object_get_type (OTimer timer) k = RT_Object_Class_Timer);
     rt_assert (rt_object_is_systemobject (OTimer timer) k);
     let k = rt_timer_remove timer k;
     Some (RT_EOK, rt_object_detach (OTimer timer) k)
   }"

definition rt_timer_create ::
    "rt_timer_t option \<Rightarrow> u8 list \<Rightarrow> timeout_func \<Rightarrow> u32 \<Rightarrow> u8 \<Rightarrow> kernel \<Rightarrow>
     (rt_timer_t option \<times> kernel) option" where
  "rt_timer_create mallocd nm timeout time fl k = do {
     (ob, k) \<leftarrow> rt_object_allocate (map_option OTimer mallocd) RT_Object_Class_Timer nm k;
     case mallocd of
       None \<Rightarrow> Some (None, k)
     | Some timer \<Rightarrow> Some (Some timer, rt_timer_init_fields timer timeout time fl k)
   }"

definition rt_timer_delete :: "rt_timer_t \<Rightarrow> kernel \<Rightarrow> (rt_err_t \<times> kernel) option" where
  "rt_timer_delete timer k = do {
     rt_assert (rt_object_get_type (OTimer timer) k = RT_Object_Class_Timer);
     rt_assert (\<not> rt_object_is_systemobject (OTimer timer) k);
     let k = rt_timer_remove timer k;
     k \<leftarrow> rt_object_delete (OTimer timer) k;
     Some (RT_EOK, k)
   }"

text \<open>
  The search of \<^verbatim>\<open>rt_timer_start\<close>: walk on over timers due at the same tick or earlier,
  stop at the first one due later.
\<close>

fun timer_insert :: "(rt_timer_t \<Rightarrow> u32) \<Rightarrow> rt_timer_t \<Rightarrow> rt_timer_t list \<Rightarrow> rt_timer_t list" where
  "timer_insert due timer [] = [timer]"
| "timer_insert due timer (t # ts) =
     (if due t - due timer = 0 then t # timer_insert due timer ts
      else if due t - due timer < RT_TICK_HALF then timer # t # ts
      else t # timer_insert due timer ts)"

definition rt_timer_start :: "rt_timer_t \<Rightarrow> kernel \<Rightarrow> (rt_err_t \<times> kernel) option" where
  "rt_timer_start timer k = do {
     rt_assert (rt_object_get_type (OTimer timer) k = RT_Object_Class_Timer);
     let k = rt_timer_remove timer k;
     let k = upd_obj (OTimer timer) (\<lambda>ob. ob\<lparr>flag := flag ob AND NOT RT_TIMER_FLAG_ACTIVATED\<rparr>) k;
     rt_assert (timer_init_tick (timers k timer) < RT_TICK_HALF);
     let k = upd_timer timer (\<lambda>t. t\<lparr>timeout_tick := rt_tick k + timer_init_tick t\<rparr>) k;
     let k = k\<lparr>random_nr := random_nr k + 1,
       rt_timer_list := timer_insert (\<lambda>t. timeout_tick (timers k t)) timer (rt_timer_list k)\<rparr>;
     let k = upd_obj (OTimer timer) (\<lambda>ob. ob\<lparr>flag := flag ob OR RT_TIMER_FLAG_ACTIVATED\<rparr>) k;
     Some (RT_EOK, k)
   }"

definition rt_timer_stop :: "rt_timer_t \<Rightarrow> kernel \<Rightarrow> (rt_err_t \<times> kernel) option" where
  "rt_timer_stop timer k = do {
     rt_assert (rt_object_get_type (OTimer timer) k = RT_Object_Class_Timer);
     if flag (objs k (OTimer timer)) AND RT_TIMER_FLAG_ACTIVATED = 0
     then Some (- RT_ERROR, k)
     else
       let k = rt_timer_remove timer k;
           k = upd_obj (OTimer timer) (\<lambda>ob. ob\<lparr>flag := flag ob AND NOT RT_TIMER_FLAG_ACTIVATED\<rparr>) k
       in Some (RT_EOK, k)
   }"

datatype timer_ctrl = Timer_get_time | Timer_set_time u32 | Timer_set_oneshot | Timer_set_periodic
  | Timer_other

definition rt_timer_control ::
    "rt_timer_t \<Rightarrow> timer_ctrl \<Rightarrow> kernel \<Rightarrow> (rt_err_t \<times> u32 option \<times> kernel) option" where
  "rt_timer_control timer cmd k = do {
     rt_assert (rt_object_get_type (OTimer timer) k = RT_Object_Class_Timer);
     Some (case cmd of
       Timer_get_time \<Rightarrow> (RT_EOK, Some (timer_init_tick (timers k timer)), k)
     | Timer_set_time tk \<Rightarrow> (RT_EOK, None, upd_timer timer (\<lambda>t. t\<lparr>timer_init_tick := tk\<rparr>) k)
     | Timer_set_oneshot \<Rightarrow> (RT_EOK, None, upd_obj (OTimer timer)
         (\<lambda>ob. ob\<lparr>flag := flag ob AND NOT RT_TIMER_FLAG_PERIODIC\<rparr>) k)
     | Timer_set_periodic \<Rightarrow> (RT_EOK, None, upd_obj (OTimer timer)
         (\<lambda>ob. ob\<lparr>flag := flag ob OR RT_TIMER_FLAG_PERIODIC\<rparr>) k)
     | Timer_other \<Rightarrow> (RT_EOK, None, k))
   }"

definition rt_system_timer_init :: "kernel \<Rightarrow> kernel" where
  "rt_system_timer_init k = k\<lparr>rt_timer_list := []\<rparr>"

section \<open>Order of the timer list\<close>

text \<open>
  Seen from a reference tick \<open>base\<close>, the list is sorted by the time left, and no timer is
  further away than half the range of the tick counter.
\<close>

definition due_order :: "u32 \<Rightarrow> (rt_timer_t \<Rightarrow> u32) \<Rightarrow> rt_timer_t list \<Rightarrow> bool" where
  "due_order base due ts \<longleftrightarrow> sorted_wrt (\<lambda>a b. due a - base \<le> due b - base) ts \<and>
     (\<forall>t \<in> set ts. due t - base \<le> RT_TICK_HALF)"

lemma half_range_diff:
  fixes x y :: u32
  assumes "x \<le> RT_TICK_HALF" and "y \<le> RT_TICK_HALF" and "y \<noteq> 0" and "x \<noteq> y"
  shows "x - y < RT_TICK_HALF \<longleftrightarrow> y < x"
proof (cases "y \<le> x")
  case True
  then have "unat (x - y) = unat x - unat y" by (rule unat_sub)
  moreover have "0 < unat y" using assms(3) by (simp add: unat_gt_0)
  ultimately show ?thesis
    using True assms by (simp add: word_less_nat_alt word_le_nat_alt word_unat_eq_iff)
next
  case False
  then have "unat (x - y) = 2 ^ 32 + unat x - unat y"
    using unat_sub_if_size [of x y] by (auto simp: word_le_nat_alt word_size)
  with False assms show ?thesis
    by (simp add: word_less_nat_alt word_le_nat_alt)
qed

lemma tick_diff:
  fixes a b base :: u32
  assumes "a - base \<le> RT_TICK_HALF" and "b - base \<le> RT_TICK_HALF" and "b - base \<noteq> 0"
    and "a - b \<noteq> 0"
  shows "a - b < RT_TICK_HALF \<longleftrightarrow> b - base < a - base"
  using half_range_diff [OF assms(1-3)] assms(4) by simp

lemma set_timer_insert [simp]: "set (timer_insert due t ts) = insert t (set ts)"
  by (induction ts) auto

lemma distinct_timer_insert: "distinct ts \<Longrightarrow> t \<notin> set ts \<Longrightarrow> distinct (timer_insert due t ts)"
  by (induction ts) auto

lemma due_order_cong:
  "(\<And>t. t \<in> set ts \<Longrightarrow> due' t = due t) \<Longrightarrow> due_order base due' ts = due_order base due ts"
  unfolding due_order_def
  by (intro conj_cong) (auto elim!: sorted_wrt_mono_rel [rotated])

text \<open>
  The inserted timer comes after every timer due no later than it and before the others.
\<close>

lemma timer_insert_split:
  assumes "due_order base due ts" and "due t - base \<le> RT_TICK_HALF" and "due t \<noteq> base"
  shows "timer_insert due t ts =
    takeWhile (\<lambda>u. due u - base \<le> due t - base) ts @ t #
    dropWhile (\<lambda>u. due u - base \<le> due t - base) ts"
  using assms
proof (induction ts)
  case (Cons u us)
  have d: "due_order base due us" using Cons.prems(1) by (simp add: due_order_def)
  have "due u - base \<le> RT_TICK_HALF" using Cons.prems(1) by (simp add: due_order_def)
  from tick_diff [OF this Cons.prems(2)] Cons.prems(3)
  have "due u - due t \<noteq> 0 \<Longrightarrow> due u - due t < RT_TICK_HALF \<longleftrightarrow> due t - base < due u - base"
    by simp
  then show ?case
    using Cons.IH [OF d Cons.prems(2,3)] by (auto simp: not_le)
qed simp

lemma sorted_wrt_dropWhile: "sorted_wrt P xs \<Longrightarrow> sorted_wrt P (dropWhile Q xs)"
  by (induction xs) auto

lemma sorted_wrt_takeWhile: "sorted_wrt P xs \<Longrightarrow> sorted_wrt P (takeWhile Q xs)"
  by (induction xs) (auto dest: set_takeWhileD)

lemma due_order_dropWhile:
  assumes "due_order base due ts" and "u \<in> set (dropWhile (\<lambda>u. due u - base \<le> x) ts)"
  shows "x < due u - base"
  using assms
proof (induction ts)
  case (Cons a as)
  have d: "due_order base due as" using Cons.prems(1) by (simp add: due_order_def)
  show ?case
  proof (cases "due a - base \<le> x")
    case True
    with Cons.IH [OF d] Cons.prems(2) show ?thesis by simp
  next
    case False
    then have "u \<in> set (a # as)" using Cons.prems(2) by simp
    with Cons.prems(1) False show ?thesis by (auto simp: due_order_def)
  qed
qed simp

lemma due_order_insert:
  assumes d: "due_order base due ts" and t: "due t - base \<le> RT_TICK_HALF" "due t \<noteq> base"
  shows "due_order base due (timer_insert due t ts)"
proof -
  let ?P = "\<lambda>u. due u - base \<le> due t - base"
  have "\<forall>u \<in> set (takeWhile ?P ts). ?P u" by (auto dest: set_takeWhileD)
  moreover have "\<forall>u \<in> set (dropWhile ?P ts). due t - base < due u - base"
    using due_order_dropWhile [OF d] by blast
  moreover have "set (takeWhile ?P ts) \<subseteq> set ts" "set (dropWhile ?P ts) \<subseteq> set ts"
    by (auto dest: set_takeWhileD set_dropWhileD)
  ultimately show ?thesis
    using d t unfolding timer_insert_split [OF assms]
    by (fastforce simp: due_order_def sorted_wrt_append sorted_wrt_takeWhile sorted_wrt_dropWhile)
qed

lemma due_order_remove1: "due_order base due ts \<Longrightarrow> due_order base due (remove1 t ts)"
  by (auto simp: due_order_def sorted_wrt_remove1 dest: set_mp [OF set_remove1_subset])

section \<open>The timer invariant\<close>

text \<open>
  The reference tick is the one before the current tick: a timer of the list is due at
  least then and at most half the range later. The timer of a thread runs only while the
  thread is suspended, which is what \<^verbatim>\<open>rt_thread_timeout\<close> asserts when it fires.
\<close>

abbreviation due :: "kernel \<Rightarrow> rt_timer_t \<Rightarrow> u32" where
  "due k t \<equiv> timeout_tick (timers k t)"

definition thread_timer_ok :: "kernel \<Rightarrow> nat \<Rightarrow> bool" where
  "thread_timer_ok k t \<longleftrightarrow> timeout_func (timers k (ThreadTimer t)) = Rt_thread_timeout t \<and>
     flag (objs k (OTimer (ThreadTimer t))) AND RT_TIMER_FLAG_PERIODIC = 0"

definition timer_inv :: "kernel \<Rightarrow> bool" where
  "timer_inv k \<longleftrightarrow> distinct (rt_timer_list k) \<and>
     due_order (rt_tick k - 1) (due k) (rt_timer_list k) \<and>
     (\<forall>t. t \<in> set (rt_timer_list k) \<longrightarrow>
        flag (objs k (OTimer t)) AND RT_TIMER_FLAG_ACTIVATED \<noteq> 0 \<and>
        rt_object_get_type (OTimer t) k = RT_Object_Class_Timer) \<and>
     (\<forall>t. ThreadTimer t \<in> set (rt_timer_list k) \<longrightarrow> tstat k t = RT_THREAD_SUSPEND) \<and>
     (\<forall>t. live k t \<longrightarrow> thread_timer_ok k t)"

lemma timer_invD:
  assumes "timer_inv k"
  shows "distinct (rt_timer_list k)" and "due_order (rt_tick k - 1) (due k) (rt_timer_list k)"
    and "t \<in> set (rt_timer_list k) \<Longrightarrow> flag (objs k (OTimer t)) AND RT_TIMER_FLAG_ACTIVATED \<noteq> 0"
    and "t \<in> set (rt_timer_list k) \<Longrightarrow>
      rt_object_get_type (OTimer t) k = RT_Object_Class_Timer"
    and "ThreadTimer i \<in> set (rt_timer_list k) \<Longrightarrow> tstat k i = RT_THREAD_SUSPEND"
    and "live k i \<Longrightarrow> thread_timer_ok k i"
  using assms by (auto simp: timer_inv_def)

lemma flag_bits:
  fixes f :: u8
  shows "(f AND NOT 1) AND 2 = f AND 2" "(f OR 1) AND 2 = f AND 2" "(f OR 1) AND 1 \<noteq> 0"
    "(f AND NOT 1) AND 1 = 0" "(f AND - 2) AND 2 = f AND 2" "(f AND - 2) AND 1 = 0"
proof -
  show *: "(f AND NOT 1) AND 2 = f AND 2" "(f OR 1) AND 2 = f AND 2" "(f AND NOT 1) AND 1 = 0"
    by (simp_all add: and.assoc bit.conj_disj_distrib2)
  show "(f OR 1) AND 1 \<noteq> 0" by (simp add: bit.conj_disj_distrib2)
  show "(f AND - 2) AND 2 = f AND 2" "(f AND - 2) AND 1 = 0" using *(1,3) by simp_all
qed

text \<open>
  What a timer operation leaves alone: everything but the timers, the timer list and the
  flags of the timer objects.
\<close>

definition timer_frame :: "kernel \<Rightarrow> kernel \<Rightarrow> bool" where
  "timer_frame k k' \<longleftrightarrow>
     k' = k\<lparr>timers := timers k', objs := objs k', rt_timer_list := rt_timer_list k',
       random_nr := random_nr k'\<rparr> \<and>
     (\<forall>x. otype (objs k' x) = otype (objs k x)) \<and>
     (\<forall>x. (\<nexists>t. x = OTimer t) \<longrightarrow> objs k' x = objs k x)"

lemma timer_frame_sel:
  assumes "timer_frame k k'"
  shows "threads k' = threads k" "tlists k' = tlists k" "mem k' = mem k"
    "rt_thread_ready_priority_group k' = rt_thread_ready_priority_group k"
    "rt_current_thread k' = rt_current_thread k"
    "rt_scheduler_lock_nest k' = rt_scheduler_lock_nest k"
    "rt_interrupt_nest k' = rt_interrupt_nest k" "rt_tick k' = rt_tick k"
    "otype (objs k' x) = otype (objs k x)"
    "rt_object_get_type x k' = rt_object_get_type x k"
    "rt_object_is_systemobject x k' = rt_object_is_systemobject x k"
proof -
  obtain T ob L r where "k' = k\<lparr>timers := T, objs := ob, rt_timer_list := L, random_nr := r\<rparr>"
      "\<And>x. otype (ob x) = otype (objs k x)"
    using assms unfolding timer_frame_def by metis
  then show "threads k' = threads k" "tlists k' = tlists k" "mem k' = mem k"
    "rt_thread_ready_priority_group k' = rt_thread_ready_priority_group k"
    "rt_current_thread k' = rt_current_thread k"
    "rt_scheduler_lock_nest k' = rt_scheduler_lock_nest k"
    "rt_interrupt_nest k' = rt_interrupt_nest k" "rt_tick k' = rt_tick k"
    "otype (objs k' x) = otype (objs k x)"
    "rt_object_get_type x k' = rt_object_get_type x k"
    "rt_object_is_systemobject x k' = rt_object_is_systemobject x k"
    by (simp_all add: rt_object_get_type_def rt_object_is_systemobject_def)
qed

lemma timer_frame_sched_inv: "timer_frame k k' \<Longrightarrow> sched_inv k' = sched_inv k"
  by (rule sched_inv_cong) (simp_all add: timer_frame_sel)

lemma timer_inv_change:
  assumes k: "timer_inv k" and fr: "timer_frame k k'"
    and d: "distinct (rt_timer_list k')"
    and o: "due_order (rt_tick k - 1) (due k') (rt_timer_list k')"
    and sub: "set (rt_timer_list k') \<subseteq> insert t (set (rt_timer_list k))"
    and act: "t \<in> set (rt_timer_list k') \<Longrightarrow>
      flag (objs k' (OTimer t)) AND RT_TIMER_FLAG_ACTIVATED \<noteq> 0 \<and>
      rt_object_get_type (OTimer t) k = RT_Object_Class_Timer \<and>
      (\<forall>i. t = ThreadTimer i \<longrightarrow> tstat k i = RT_THREAD_SUSPEND)"
    and other: "\<And>u. u \<noteq> t \<Longrightarrow> objs k' (OTimer u) = objs k (OTimer u)"
    and func: "\<And>u. timeout_func (timers k' u) = timeout_func (timers k u)"
    and per: "\<And>i. flag (objs k' (OTimer (ThreadTimer i))) AND RT_TIMER_FLAG_PERIODIC =
      flag (objs k (OTimer (ThreadTimer i))) AND RT_TIMER_FLAG_PERIODIC"
  shows "timer_inv k'"
  unfolding timer_inv_def
proof (intro conjI allI impI)
  note fs = timer_frame_sel [OF fr]
  fix u assume u: "u \<in> set (rt_timer_list k')"
  show "flag (objs k' (OTimer u)) AND RT_TIMER_FLAG_ACTIVATED \<noteq> 0"
    using act u other [of u] sub timer_invD(3) [OF k, of u] by (cases "u = t") auto
  show "rt_object_get_type (OTimer u) k' = RT_Object_Class_Timer"
    using act u other [of u] sub timer_invD(4) [OF k, of u] fs by (cases "u = t") auto
next
  note fs = timer_frame_sel [OF fr]
  show "tstat k' i = RT_THREAD_SUSPEND" if "ThreadTimer i \<in> set (rt_timer_list k')" for i
    using act that sub timer_invD(5) [OF k, of i] fs(1) by (cases "ThreadTimer i = t") auto
  show "thread_timer_ok k' i" if "live k' i" for i
    using timer_invD(6) [OF k, of i] that fs(1) func per by (simp add: thread_timer_ok_def live_def)
qed (use d o timer_frame_sel [OF fr] in simp_all)

text \<open>Starting a timer: the new state, and that the invariant is kept.\<close>

definition started :: "rt_timer_t \<Rightarrow> kernel \<Rightarrow> kernel" where
  "started t k = k\<lparr>
     timers := (timers k)(t := (timers k t)\<lparr>timeout_tick := rt_tick k + timer_init_tick (timers k t)\<rparr>),
     objs := (objs k)(OTimer t := (objs k (OTimer t))\<lparr>flag :=
       (flag (objs k (OTimer t)) AND NOT RT_TIMER_FLAG_ACTIVATED) OR RT_TIMER_FLAG_ACTIVATED\<rparr>),
     random_nr := random_nr k + 1,
     rt_timer_list := timer_insert ((due k)(t := rt_tick k + timer_init_tick (timers k t))) t
       (remove1 t (rt_timer_list k))\<rparr>"

lemma rt_timer_start_eq:
  assumes "rt_object_get_type (OTimer t) k = RT_Object_Class_Timer"
    and "timer_init_tick (timers k t) < RT_TICK_HALF"
  shows "rt_timer_start t k = Some (RT_EOK, started t k)"
  using assms
  by (simp add: rt_timer_start_def Let_def kdefs rt_timer_remove_def started_def fun_upd_def
      if_distrib [of timeout_tick] cong: if_cong)

lemma started_frame: "timer_frame k (started t k)"
  by (simp add: timer_frame_def started_def)

lemma tick_window:
  fixes now i :: u32
  assumes "i < RT_TICK_HALF"
  shows "now + i - (now - 1) \<le> RT_TICK_HALF" and "now + i \<noteq> now - 1"
proof -
  have e: "now + i - (now - 1) = i + 1" by simp
  show "now + i - (now - 1) \<le> RT_TICK_HALF" unfolding e using assms by (rule inc_le)
  have "i + 1 \<noteq> 0"
  proof
    assume "i + 1 = 0"
    then have "i = - 1" by (simp add: eq_neg_iff_add_eq_0)
    with assms show False by simp
  qed
  then show "now + i \<noteq> now - 1" using e by auto
qed

lemma due_order_started:
  assumes k: "timer_inv k" and i: "timer_init_tick (timers k t) < RT_TICK_HALF"
  shows "due_order (rt_tick k - 1) (due (started t k)) (rt_timer_list (started t k))"
proof -
  let ?due = "(due k)(t := rt_tick k + timer_init_tick (timers k t))"
  have "due_order (rt_tick k - 1) ?due (remove1 t (rt_timer_list k))"
    using due_order_remove1 [OF timer_invD(2) [OF k]] timer_invD(1) [OF k]
    by (subst due_order_cong [of _ _ "due k"]) auto
  from due_order_insert [OF this] tick_window [OF i]
  have "due_order (rt_tick k - 1) ?due (timer_insert ?due t (remove1 t (rt_timer_list k)))"
    by simp
  moreover have "due (started t k) = ?due" by (auto simp: started_def)
  ultimately show ?thesis by (simp add: started_def)
qed

lemma timer_inv_started:
  assumes k: "timer_inv k" and ty: "rt_object_get_type (OTimer t) k = RT_Object_Class_Timer"
    and i: "timer_init_tick (timers k t) < RT_TICK_HALF"
    and s: "\<And>i. t = ThreadTimer i \<Longrightarrow> tstat k i = RT_THREAD_SUSPEND"
  shows "timer_inv (started t k)"
proof (rule timer_inv_change [OF k started_frame _ due_order_started [OF k i]])
  show "distinct (rt_timer_list (started t k))"
    using timer_invD(1) [OF k] by (simp add: started_def distinct_timer_insert)
  show "set (rt_timer_list (started t k)) \<subseteq> insert t (set (rt_timer_list k))"
    using set_remove1_subset by (fastforce simp: started_def)
qed (use ty s in \<open>auto simp: started_def flag_bits\<close>)

text \<open>Stopping a timer and setting its period.\<close>

definition stopped :: "rt_timer_t \<Rightarrow> kernel \<Rightarrow> kernel" where
  "stopped t k = (if flag (objs k (OTimer t)) AND RT_TIMER_FLAG_ACTIVATED = 0 then k
     else k\<lparr>rt_timer_list := remove1 t (rt_timer_list k),
       objs := (objs k)(OTimer t := (objs k (OTimer t))\<lparr>flag :=
         flag (objs k (OTimer t)) AND NOT RT_TIMER_FLAG_ACTIVATED\<rparr>)\<rparr>)"

lemma rt_timer_stop_eq:
  assumes "rt_object_get_type (OTimer t) k = RT_Object_Class_Timer"
  shows "rt_timer_stop t k = Some
    (if flag (objs k (OTimer t)) AND RT_TIMER_FLAG_ACTIVATED = 0 then - RT_ERROR else RT_EOK, stopped t k)"
  using assms by (simp add: rt_timer_stop_def stopped_def kdefs rt_timer_remove_def Let_def)

lemma stopped_frame: "timer_frame k (stopped t k)"
  by (simp add: timer_frame_def stopped_def)

lemma stopped_list:
  assumes "timer_inv k"
  shows "set (rt_timer_list (stopped t k)) = set (rt_timer_list k) - {t}"
  using timer_invD(1) [OF assms] timer_invD(3) [OF assms, of t] by (auto simp: stopped_def)

lemma timer_inv_stopped:
  assumes k: "timer_inv k"
  shows "timer_inv (stopped t k)"
proof (rule timer_inv_change [OF k stopped_frame])
  show "distinct (rt_timer_list (stopped t k))"
    using timer_invD(1) [OF k] by (simp add: stopped_def)
  show "due_order (rt_tick k - 1) (due (stopped t k)) (rt_timer_list (stopped t k))"
    using timer_invD(2) [OF k] by (simp add: stopped_def due_order_remove1)
  show "set (rt_timer_list (stopped t k)) \<subseteq> insert t (set (rt_timer_list k))"
    using stopped_list [OF k] by auto
qed (use stopped_list [OF k, of t] in \<open>auto simp: stopped_def flag_bits\<close>)

definition set_time :: "rt_timer_t \<Rightarrow> u32 \<Rightarrow> kernel \<Rightarrow> kernel" where
  "set_time t tk k = upd_timer t (\<lambda>x. x\<lparr>timer_init_tick := tk\<rparr>) k"

lemma rt_timer_control_set_time_eq:
  assumes "rt_object_get_type (OTimer t) k = RT_Object_Class_Timer"
  shows "rt_timer_control t (Timer_set_time tk) k = Some (RT_EOK, None, set_time t tk k)"
  using assms by (simp add: rt_timer_control_def set_time_def)

lemma set_time_frame: "timer_frame k (set_time t tk k)"
  by (simp add: timer_frame_def set_time_def kdefs)

lemma set_time_sel [simp]:
  "rt_timer_list (set_time t tk k) = rt_timer_list k" "due (set_time t tk k) u = due k u"
  "timer_init_tick (timers (set_time t tk k) t) = tk" "objs (set_time t tk k) = objs k"
  "timeout_func (timers (set_time t tk k) u) = timeout_func (timers k u)"
  by (simp_all add: set_time_def kdefs)

lemma timer_inv_set_time: "timer_inv k \<Longrightarrow> timer_inv (set_time t tk k)"
  by (rule timer_inv_change [OF _ set_time_frame, of _ _ _ "t"])
     (auto simp: timer_invD due_order_cong [of _ "due (set_time t tk k)" "due k"])

text \<open>
  C7. \<^verbatim>\<open>rt_timer_start\<close> on a timer with a period below half the tick range: it is due
  that many ticks from now (modulo the counter's range), the invariant is kept, and the
  timer is inserted behind all timers that are due no later, in front of all that are due
  later; so the list stays ordered across the wrap-around of the tick counter and timers
  due at the same tick keep the order in which they were started.
\<close>

theorem rt_timer_start_ordered:
  assumes k: "timer_inv k" and ty: "rt_object_get_type (OTimer t) k = RT_Object_Class_Timer"
    and i: "timer_init_tick (timers k t) < RT_TICK_HALF"
    and s: "\<And>i. t = ThreadTimer i \<Longrightarrow> tstat k i = RT_THREAD_SUSPEND"
  shows "\<exists>k' pre post. rt_timer_start t k = Some (RT_EOK, k') \<and> timer_inv k' \<and>
    remove1 t (rt_timer_list k) = pre @ post \<and> rt_timer_list k' = pre @ t # post \<and>
    due k' t = rt_tick k + timer_init_tick (timers k t) \<and>
    (\<forall>u \<in> set pre. due k' u - rt_tick k + 1 \<le> due k' t - rt_tick k + 1) \<and>
    (\<forall>u \<in> set post. due k' t - rt_tick k + 1 < due k' u - rt_tick k + 1)"
proof -
  let ?base = "rt_tick k - 1" and ?xs = "remove1 t (rt_timer_list k)"
  let ?due = "(due k)(t := rt_tick k + timer_init_tick (timers k t))"
  let ?P = "\<lambda>u. ?due u - ?base \<le> ?due t - ?base"
  have d: "due_order ?base ?due ?xs"
    using due_order_remove1 [OF timer_invD(2) [OF k]] timer_invD(1) [OF k]
    by (subst due_order_cong [of _ _ "due k"]) auto
  define k' where "k' = started t k"
  have l: "rt_timer_list k' = takeWhile ?P ?xs @ t # dropWhile ?P ?xs"
    using timer_insert_split [OF d] tick_window [OF i] by (simp add: started_def k'_def)
  have du: "due k' u = ?due u" for u by (simp add: started_def k'_def)
  have e: "x - ?base = x - rt_tick k + 1" for x by simp
  have pre: "\<forall>u \<in> set (takeWhile ?P ?xs). ?P u" by (auto dest: set_takeWhileD)
  have post: "\<forall>u \<in> set (dropWhile ?P ?xs). ?due t - ?base < ?due u - ?base"
    using due_order_dropWhile [OF d] by blast
  show ?thesis
  proof (intro exI conjI)
    show "rt_timer_start t k = Some (RT_EOK, k')" and "timer_inv k'"
      using rt_timer_start_eq [OF ty i] timer_inv_started [OF k ty i s] by (simp_all add: k'_def)
    show "rt_timer_list k' = takeWhile ?P ?xs @ t # dropWhile ?P ?xs" by (rule l)
    show "\<forall>u \<in> set (takeWhile ?P ?xs). due k' u - rt_tick k + 1 \<le> due k' t - rt_tick k + 1"
      using pre unfolding du e .
    show "\<forall>u \<in> set (dropWhile ?P ?xs). due k' t - rt_tick k + 1 < due k' u - rt_tick k + 1"
      using post unfolding du e .
  qed (simp_all add: du)
qed

lemma timer_inv_example: "timer_inv example_kernel"
  by (auto simp: timer_inv_def due_order_def thread_timer_ok_def example_objs_def)

theorem rt_timer_start_ordered_witness:
  "\<exists>k'. rt_timer_start (Timer 0) example_kernel = Some (RT_EOK, k') \<and> due k' (Timer 0) = 10"
  using rt_timer_start_ordered [OF timer_inv_example, of "Timer 0"] by auto

end
