(* ===== verification/Kthread.thy ===== *)
theory Kthread
  imports Ktimer Memops
begin

text \<open>
  Threads: \<^verbatim>\<open>src/thread.c\<close>, the initial stack frame of \<^verbatim>\<open>libcpu/arm/cortex-m3/cpuport.c\<close>, and
  the lookup of objects by name of \<^verbatim>\<open>src/object.c\<close>. \<^verbatim>\<open>rt_thread_sleep\<close> is given in two
  parts, before and after the processor is given away. The address of \<^verbatim>\<open>rt_thread_exit\<close> is
  an argument of the initialisation; what \<^verbatim>\<open>RT_KERNEL_MALLOC\<close> returns is an argument of
  the creation.
\<close>

section \<open>The initial stack frame\<close>

definition rt_hw_stack_init :: "u32 \<Rightarrow> u32 \<Rightarrow> u32 \<Rightarrow> u32 \<Rightarrow> memory \<Rightarrow> u32 \<times> memory" where
  "rt_hw_stack_init tentry param stack_top texit m =
     (let stk = stack_top + 4;
          stk = RT_ALIGN_DOWN stk 8;
          stk = stk - 64;
          m = fold (\<lambda>i. store_word (stk + 4 * of_nat i) 0xdeadbeef) [0..<16] m;
          m = store_word (stk + 32) param m;
          m = store_word (stk + 36) 0 m;
          m = store_word (stk + 40) 0 m;
          m = store_word (stk + 44) 0 m;
          m = store_word (stk + 48) 0 m;
          m = store_word (stk + 52) texit m;
          m = store_word (stk + 56) tentry m;
          m = store_word (stk + 60) 0x01000000 m
      in (stk, m))"

section \<open>Operations\<close>

definition rt_thread_init_fields ::
    "u32 \<Rightarrow> nat \<Rightarrow> u32 \<Rightarrow> u32 \<Rightarrow> u32 \<Rightarrow> u32 \<Rightarrow> u8 \<Rightarrow> u32 \<Rightarrow> kernel \<Rightarrow> (rt_err_t \<times> kernel) option" where
  "rt_thread_init_fields exit_addr t ent param stack_start ssize priority tick k = do {
     let m = rt_memset stack_start 0x23 (unat ssize) (mem k);
     let (stk, m) = rt_hw_stack_init ent param (stack_start + ssize - 4) exit_addr m;
     let k = k\<lparr>mem := m\<rparr>;
     let k = upd_thread t (\<lambda>x. x\<lparr>entry := ent, parameter := param, stack_addr := stack_start,
       stack_size := ssize, sp := stk\<rparr>) k;
     rt_assert (unat priority < RT_THREAD_PRIORITY_MAX);
     let k = upd_thread t (\<lambda>x. x\<lparr>init_priority := priority, current_priority := priority,
       number_mask := 0, init_tick := tick, remaining_tick := tick, error := RT_EOK,
       stat := RT_THREAD_INIT, cleanup := 0, user_data := 0\<rparr>) k;
     k \<leftarrow> rt_timer_init (ThreadTimer t) (name (objs k (OThread t))) (Rt_thread_timeout t) 0
            RT_TIMER_FLAG_ONE_SHOT k;
     Some (RT_EOK, k)
   }"

definition rt_thread_init ::
    "u32 \<Rightarrow> nat \<Rightarrow> u8 list \<Rightarrow> u32 \<Rightarrow> u32 \<Rightarrow> u32 \<Rightarrow> u32 \<Rightarrow> u8 \<Rightarrow> u32 \<Rightarrow> kernel \<Rightarrow>
     (rt_err_t \<times> kernel) option" where
  "rt_thread_init exit_addr t nm ent param stack_start ssize priority tick k = do {
     rt_assert (stack_start \<noteq> 0);
     k \<leftarrow> rt_object_init (OThread t) RT_Object_Class_Thread nm k;
     rt_thread_init_fields exit_addr t ent param stack_start ssize priority tick k
   }"

definition rt_thread_create ::
    "u32 \<Rightarrow> nat option \<Rightarrow> u32 \<Rightarrow> u8 list \<Rightarrow> u32 \<Rightarrow> u32 \<Rightarrow> u32 \<Rightarrow> u8 \<Rightarrow> u32 \<Rightarrow> kernel \<Rightarrow>
     (nat option \<times> kernel) option" where
  "rt_thread_create exit_addr obj_mallocd stack_mallocd nm ent param ssize priority tick k = do {
     (ob, k) \<leftarrow> rt_object_allocate (map_option OThread obj_mallocd) RT_Object_Class_Thread nm k;
     case obj_mallocd of
       None \<Rightarrow> Some (None, k)
     | Some t \<Rightarrow>
         if stack_mallocd = 0 then do {
           k \<leftarrow> rt_object_delete (OThread t) k;
           Some (None, k)
         } else do {
           (_, k) \<leftarrow> rt_thread_init_fields exit_addr t ent param stack_mallocd ssize priority tick k;
           Some (Some t, k)
         }
   }"

definition rt_thread_suspend :: "nat \<Rightarrow> kernel \<Rightarrow> (rt_err_t \<times> kernel) option" where
  "rt_thread_suspend t k = do {
     rt_assert (rt_object_get_type (OThread t) k = RT_Object_Class_Thread);
     if tstat k t \<noteq> RT_THREAD_READY \<and> tstat k t \<noteq> RT_THREAD_RUNNING
     then Some (- RT_ERROR, k)
     else do {
       rt_assert (tstat k t = RT_THREAD_RUNNING \<longrightarrow> rt_thread_self k = Some t);
       k \<leftarrow> rt_schedule_remove_thread t k;
       let k = upd_thread t (set_stat RT_THREAD_SUSPEND) k;
       (_, k) \<leftarrow> rt_timer_stop (ThreadTimer t) k;
       Some (RT_EOK, k)
     }
   }"

definition rt_thread_resume :: "nat \<Rightarrow> kernel \<Rightarrow> (rt_err_t \<times> kernel) option" where
  "rt_thread_resume t k = do {
     rt_assert (rt_object_get_type (OThread t) k = RT_Object_Class_Thread);
     if tstat k t \<noteq> RT_THREAD_SUSPEND
     then Some (- RT_ERROR, k)
     else do {
       let k = upd_tlists (list_remove t) k;
       (_, k) \<leftarrow> rt_timer_stop (ThreadTimer t) k;
       k \<leftarrow> rt_schedule_insert_thread t k;
       Some (RT_EOK, k)
     }
   }"

definition rt_thread_startup :: "nat \<Rightarrow> kernel \<Rightarrow> (rt_err_t \<times> kernel) option" where
  "rt_thread_startup t k = do {
     rt_assert (tstat k t = RT_THREAD_INIT);
     rt_assert (rt_object_get_type (OThread t) k = RT_Object_Class_Thread);
     let k = upd_thread t (\<lambda>x. x\<lparr>current_priority := init_priority x\<rparr>) k;
     let k = upd_thread t (\<lambda>x. x\<lparr>number_mask := push_bit (unat (current_priority x)) 1\<rparr>) k;
     let k = upd_thread t (\<lambda>x. x\<lparr>stat := RT_THREAD_SUSPEND\<rparr>) k;
     (_, k) \<leftarrow> rt_thread_resume t k;
     k \<leftarrow> (if rt_thread_self k \<noteq> None then rt_schedule k else Some k);
     Some (RT_EOK, k)
   }"

definition rt_thread_yield :: "kernel \<Rightarrow> (rt_err_t \<times> kernel) option" where
  "rt_thread_yield k = do {
     k \<leftarrow> rt_schedule k;
     Some (RT_EOK, k)
   }"

definition rt_thread_sleep :: "u32 \<Rightarrow> kernel \<Rightarrow> (outcome \<times> kernel) option" where
  "rt_thread_sleep tick k = do {
     t \<leftarrow> rt_thread_self k;
     rt_assert (rt_object_get_type (OThread t) k = RT_Object_Class_Thread);
     (_, k) \<leftarrow> rt_thread_suspend t k;
     (_, _, k) \<leftarrow> rt_timer_control (ThreadTimer t) (Timer_set_time tick) k;
     (_, k) \<leftarrow> rt_timer_start (ThreadTimer t) k;
     k \<leftarrow> rt_schedule k;
     Some (Wait K_sleep, k)
   }"

definition rt_thread_sleep_resume :: "nat \<Rightarrow> kernel \<Rightarrow> outcome \<times> kernel" where
  "rt_thread_sleep_resume t k =
     (Ret RT_EOK VNone,
      if error (threads k t) = - RT_ETIMEOUT then upd_thread t (\<lambda>x. x\<lparr>error := RT_EOK\<rparr>) k else k)"

definition rt_thread_delay :: "u32 \<Rightarrow> kernel \<Rightarrow> (outcome \<times> kernel) option" where
  "rt_thread_delay tick k = rt_thread_sleep tick k"

definition rt_thread_timeout :: "nat \<Rightarrow> kernel \<Rightarrow> kernel option" where
  "rt_thread_timeout t k = do {
     rt_assert (tstat k t = RT_THREAD_SUSPEND);
     rt_assert (rt_object_get_type (OThread t) k = RT_Object_Class_Thread);
     let k = upd_thread t (\<lambda>x. x\<lparr>error := - RT_ETIMEOUT\<rparr>) k;
     let k = upd_tlists (list_remove t) k;
     k \<leftarrow> rt_schedule_insert_thread t k;
     rt_schedule k
   }"

definition rt_thread_exit :: "kernel \<Rightarrow> kernel option" where
  "rt_thread_exit k = do {
     t \<leftarrow> rt_thread_self k;
     k \<leftarrow> rt_schedule_remove_thread t k;
     let k = upd_thread t (\<lambda>x. x\<lparr>stat := RT_THREAD_CLOSE\<rparr>) k;
     (_, k) \<leftarrow> rt_timer_detach (ThreadTimer t) k;
     let k = (if rt_object_is_systemobject (OThread t) k \<and> cleanup (threads k t) = 0
       then rt_object_detach (OThread t) k
       else upd_tlists (list_insert_after Defunct t) k);
     rt_schedule k
   }"

definition rt_thread_detach :: "nat \<Rightarrow> kernel \<Rightarrow> (rt_err_t \<times> kernel) option" where
  "rt_thread_detach t k = do {
     rt_assert (rt_object_get_type (OThread t) k = RT_Object_Class_Thread);
     rt_assert (rt_object_is_systemobject (OThread t) k);
     k \<leftarrow> (if tstat k t \<noteq> RT_THREAD_INIT then rt_schedule_remove_thread t k else Some k);
     (_, k) \<leftarrow> rt_timer_detach (ThreadTimer t) k;
     let k = upd_thread t (\<lambda>x. x\<lparr>stat := RT_THREAD_CLOSE\<rparr>) k;
     let k = rt_object_detach (OThread t) k;
     Some (RT_EOK, if cleanup (threads k t) \<noteq> 0 then upd_tlists (list_insert_after Defunct t) k else k)
   }"

definition rt_thread_delete :: "nat \<Rightarrow> kernel \<Rightarrow> (rt_err_t \<times> kernel) option" where
  "rt_thread_delete t k = do {
     rt_assert (rt_object_get_type (OThread t) k = RT_Object_Class_Thread);
     rt_assert (\<not> rt_object_is_systemobject (OThread t) k);
     k \<leftarrow> (if tstat k t \<noteq> RT_THREAD_INIT then rt_schedule_remove_thread t k else Some k);
     (_, k) \<leftarrow> rt_timer_detach (ThreadTimer t) k;
     let k = upd_thread t (\<lambda>x. x\<lparr>stat := RT_THREAD_CLOSE\<rparr>) k;
     Some (RT_EOK, upd_tlists (list_insert_after Defunct t) k)
   }"

datatype thread_ctrl = Ctrl_startup | Ctrl_close | Ctrl_change_priority u8 | Ctrl_other

definition set_priority :: "u8 \<Rightarrow> rt_thread \<Rightarrow> rt_thread" where
  "set_priority pr x = x\<lparr>current_priority := pr, number_mask := push_bit (unat pr) 1\<rparr>"

definition change_priority :: "nat \<Rightarrow> u8 \<Rightarrow> kernel \<Rightarrow> kernel option" where
  "change_priority t pr k =
     (if tstat k t = RT_THREAD_READY then do {
        k \<leftarrow> rt_schedule_remove_thread t k;
        let k = upd_thread t (set_priority pr) k;
        rt_schedule_insert_thread t k
      } else Some (upd_thread t (set_priority pr) k))"

definition rt_thread_control :: "nat \<Rightarrow> thread_ctrl \<Rightarrow> kernel \<Rightarrow> (rt_err_t \<times> kernel) option" where
  "rt_thread_control t cmd k = do {
     rt_assert (rt_object_get_type (OThread t) k = RT_Object_Class_Thread);
     case cmd of
       Ctrl_change_priority pr \<Rightarrow> do { k \<leftarrow> change_priority t pr k; Some (RT_EOK, k) }
     | Ctrl_startup \<Rightarrow> rt_thread_startup t k
     | Ctrl_close \<Rightarrow> rt_thread_delete t k
     | Ctrl_other \<Rightarrow> Some (RT_EOK, k)
   }"

text \<open>
  Lookup by name. Both functions walk the container list with the scheduler locked, and
  \<^verbatim>\<open>rt_exit_critical\<close> reschedules before they return.
\<close>

definition find_by_name :: "u8 \<Rightarrow> u8 list \<Rightarrow> kernel \<Rightarrow> kobj option" where
  "find_by_name type nm k =
     List.find (\<lambda>ob. rt_strncmp RT_NAME_MAX (name (objs k ob)) nm = 0) (object_list k type)"

definition rt_object_find :: "u8 list \<Rightarrow> u8 \<Rightarrow> kernel \<Rightarrow> (kobj option \<times> kernel) option" where
  "rt_object_find nm type k =
     (if type > RT_Object_Class_Unknown then Some (None, k)
      else do {
        RT_DEBUG_NOT_IN_INTERRUPT k;
        let k = rt_enter_critical k;
        rt_assert (rt_object_get_information type \<noteq> None);
        let r = find_by_name type nm k;
        k \<leftarrow> rt_exit_critical k;
        Some (r, k)
      })"

definition rt_thread_find :: "u8 list \<Rightarrow> kernel \<Rightarrow> (kobj option \<times> kernel) option" where
  "rt_thread_find nm k = do {
     let k = (if rt_thread_self k \<noteq> None then rt_enter_critical k else k);
     rt_assert (rt_object_get_information RT_Object_Class_Thread \<noteq> None);
     let r = find_by_name RT_Object_Class_Thread nm k;
     k \<leftarrow> (if rt_thread_self k \<noteq> None then rt_exit_critical k else Some k);
     Some (r, k)
   }"

section \<open>Steps that keep the scheduler invariant\<close>

definition kinv :: "kernel \<Rightarrow> bool" where
  "kinv k \<longleftrightarrow> sched_inv k \<and> timer_inv k"

lemma kinvD: "kinv k \<Longrightarrow> sched_inv k" "kinv k \<Longrightarrow> timer_inv k"
  by (simp_all add: kinv_def)

lemma thread_ok_cong:
  assumes "mem k' = mem k" "\<And>ob. otype (objs k' ob) = otype (objs k ob)"
    "current_priority (threads k' t) = current_priority (threads k t)"
    "number_mask (threads k' t) = number_mask (threads k t)" "sp (threads k' t) = sp (threads k t)"
    "stack_addr (threads k' t) = stack_addr (threads k t)"
    "stack_size (threads k' t) = stack_size (threads k t)"
  shows "thread_ok k' t = thread_ok k t"
  using assms by (simp add: thread_ok_def mask_ok_def stack_overflow_def rt_object_get_type_def
      rt_object_is_systemobject_def)

text \<open>
  Taking a thread off its list and giving it a status that is neither ready nor running.
\<close>

definition unqueued :: "nat \<Rightarrow> u8 \<Rightarrow> kernel \<Rightarrow> u32 \<Rightarrow> kernel" where
  "unqueued t st k g = k\<lparr>tlists := list_remove t (tlists k),
     threads := (threads k)(t := (threads k t)\<lparr>stat := st\<rparr>), rt_thread_ready_priority_group := g\<rparr>"

lemma remove_thread_unqueued:
  assumes "sched_inv k" and "mask_ok (threads k t)"
  obtains g where "rt_schedule_remove_thread t k =
      Some (k\<lparr>tlists := list_remove t (tlists k), rt_thread_ready_priority_group := g\<rparr>)"
    and "rq_inv (unqueued t st k g)"
proof -
  let ?k = "\<lambda>g. k\<lparr>tlists := list_remove t (tlists k), rt_thread_ready_priority_group := g\<rparr>"
  obtain g where g: "rt_schedule_remove_thread t k = Some (?k g)"
    using remove_thread_eq [OF assms(2)] by blast
  moreover have "rq_inv (?k g)"
    using rq_inv_remove [OF sched_invD(1) [OF assms(1)] assms(2)] g by simp
  then have "rq_inv (unqueued t st k g)"
    by (subst rq_inv_cong [of _ "?k g"]) (auto simp: unqueued_def)
  ultimately show ?thesis by (rule that)
qed

lemma sched_inv_unqueued:
  assumes k: "sched_inv k" and rq: "rq_inv (unqueued t st k g)"
    and st: "st AND RT_THREAD_STAT_MASK = RT_THREAD_CLOSE \<or>
      st AND RT_THREAD_STAT_MASK = RT_THREAD_SUSPEND \<and> live k t"
  shows "sched_inv (unqueued t st k g)"
proof -
  let ?k = "unqueued t st k g"
  have l: "u \<in> set (tlists ?k h) \<longleftrightarrow> u \<noteq> t \<and> u \<in> set (tlists k h)" for u h
    by (auto simp: unqueued_def set_list_remove [OF sched_invD(7) [OF k]])
  have s: "tstat ?k u = (if u = t then st AND RT_THREAD_STAT_MASK else tstat k u)" for u
    by (simp add: unqueued_def)
  have p: "current_priority (threads ?k u) = current_priority (threads k u)"
    "rt_current_thread ?k = rt_current_thread k" for u
    by (simp_all add: unqueued_def)
  have ok: "thread_ok ?k u = thread_ok k u" for u
    by (rule thread_ok_cong) (simp_all add: unqueued_def)
  show ?thesis unfolding sched_inv_def
  proof (intro conjI allI impI)
    show "rq_inv ?k" by (rule rq)
    show "tstat ?k u = head_stat h" if "u \<in> set (tlists ?k h)" for u h
      using that sched_invD(2) [OF k, of u h] unfolding l s by simp
    show "u \<in> set (tlists ?k (ReadyList (tprio ?k u)))" if "tstat ?k u = RT_THREAD_READY" for u
      using that sched_invD(3) [OF k, of u] st unfolding l s p by (auto split: if_splits)
    show "rt_current_thread ?k \<noteq> Some u" if "tstat ?k u = RT_THREAD_READY" for u
      using that sched_invD(4) [OF k, of u] st unfolding s p by (auto split: if_splits)
    show "rt_current_thread ?k = Some u" if "tstat ?k u = RT_THREAD_RUNNING" for u
      using that sched_invD(5) [OF k, of u] st unfolding s p by (auto split: if_splits)
    show "thread_ok ?k u" if "live ?k u" for u
      using that sched_invD(6) [OF k, of u] st unfolding live_def s ok by (auto split: if_splits)
  qed
qed

lemma unqueued_unlisted: "sched_inv k \<Longrightarrow> \<not> listed (tlists (unqueued t st k g)) t"
  by (simp add: unqueued_def not_listed_remove sched_invD(7))

text \<open>Hanging a thread that is in no list into a list of its status.\<close>

lemma sched_inv_enlist:
  assumes k: "sched_inv k" and t: "\<not> listed (tlists k) t" "tstat k t = head_stat h"
    and h: "\<nexists>p. h = ReadyList p" and xs: "distinct xs" "set xs = insert t (set (tlists k h))"
  shows "sched_inv (k\<lparr>tlists := (tlists k)(h := xs)\<rparr>)"
proof -
  let ?k = "k\<lparr>tlists := (tlists k)(h := xs)\<rparr>"
  have l: "tlists ?k (ReadyList p) = tlists k (ReadyList p)" for p using h by auto
  have "rq_inv ?k"
    using sched_invD(1) [OF k] lists_wf_insert [OF sched_invD(7) [OF k] t(1) xs] l
    by (simp add: rq_inv_def)
  moreover have "tstat ?k u = head_stat h'" if "u \<in> set (tlists ?k h')" for u h'
    using that sched_invD(2) [OF k, of u h'] t(2) xs(2) sched_invD(2) [OF k, of u h]
    by (auto split: if_splits)
  moreover have "live ?k u = live k u" "thread_ok ?k u = thread_ok k u" for u
    by (simp_all add: live_def thread_ok_def rt_object_get_type_def rt_object_is_systemobject_def)
  ultimately show ?thesis
    using k l unfolding sched_inv_def by simp
qed

lemma sched_inv_delist:
  assumes k: "sched_inv k" and t: "tstat k t \<noteq> RT_THREAD_READY"
  shows "sched_inv (k\<lparr>tlists := list_remove t (tlists k)\<rparr>)"
proof -
  let ?k = "k\<lparr>tlists := list_remove t (tlists k)\<rparr>"
  note wf = sched_invD(7) [OF k]
  have "t \<notin> set (tlists k (ReadyList p))" for p
    using sched_invD(2) [OF k, of t "ReadyList p"] t by auto
  then have l: "tlists ?k (ReadyList p) = tlists k (ReadyList p)" for p
    by (simp add: list_remove_def)
  have "rq_inv ?k"
    using sched_invD(1) [OF k] lists_wf_remove [OF wf] l by (simp add: rq_inv_def)
  moreover have "tstat ?k u = head_stat h" if "u \<in> set (tlists ?k h)" for u h
    using that sched_invD(2) [OF k, of u h] by (simp add: set_list_remove [OF wf])
  moreover have "live ?k u = live k u" "thread_ok ?k u = thread_ok k u" for u
    by (simp_all add: live_def thread_ok_def rt_object_get_type_def rt_object_is_systemobject_def)
  ultimately show ?thesis
    using k l unfolding sched_inv_def by simp
qed

section \<open>Steps that keep the timer invariant\<close>

lemma timer_inv_cong:
  assumes k: "timer_inv k"
    and "timers k' = timers k" "rt_timer_list k' = rt_timer_list k" "rt_tick k' = rt_tick k"
      "objs k' = objs k"
    and s: "\<And>t. ThreadTimer t \<in> set (rt_timer_list k) \<Longrightarrow> tstat k' t = RT_THREAD_SUSPEND"
    and l: "\<And>t. live k' t \<Longrightarrow> thread_timer_ok k t"
  shows "timer_inv k'"
  using assms unfolding timer_inv_def by (auto simp: thread_timer_ok_def rt_object_get_type_def)

lemma kinv_timer_frame:
  assumes "kinv k" and "timer_frame k k'" and "timer_inv k'"
  shows "kinv k'"
  using assms timer_frame_sched_inv by (simp add: kinv_def)

text \<open>What \<^verbatim>\<open>rt_schedule\<close> leaves alone.\<close>

definition sched_frame :: "kernel \<Rightarrow> kernel \<Rightarrow> bool" where
  "sched_frame k k' \<longleftrightarrow>
     k' = k\<lparr>threads := threads k', tlists := tlists k',
       rt_thread_ready_priority_group := rt_thread_ready_priority_group k',
       rt_current_thread := rt_current_thread k', rt_current_priority := rt_current_priority k'\<rparr> \<and>
     (\<forall>t. threads k' t = (threads k t)\<lparr>stat := stat (threads k' t)\<rparr>) \<and>
     (\<forall>h. (\<nexists>p. h = ReadyList p) \<longrightarrow> tlists k' h = tlists k h) \<and>
     (\<forall>t. \<not> runnable k t \<longrightarrow> stat (threads k' t) = stat (threads k t)) \<and>
     (\<forall>t. runnable k' t = runnable k t)"

lemma sched_frame_refl [simp]: "sched_frame k k"
  by (simp add: sched_frame_def)

lemma sched_frameD:
  assumes "sched_frame k k'"
  shows "timers k' = timers k" "objs k' = objs k" "object_list k' = object_list k"
    "rt_timer_list k' = rt_timer_list k" "rt_tick k' = rt_tick k" "mem k' = mem k"
    "rt_scheduler_lock_nest k' = rt_scheduler_lock_nest k"
    "rt_interrupt_nest k' = rt_interrupt_nest k"
    "sems k' = sems k" "mutexes k' = mutexes k" "events k' = events k"
    "mailboxes k' = mailboxes k" "mqs k' = mqs k" "mempools k' = mempools k"
    "threads k' t = (threads k t)\<lparr>stat := stat (threads k' t)\<rparr>"
    "(\<nexists>p. h = ReadyList p) \<Longrightarrow> tlists k' h = tlists k h"
    "\<not> runnable k t \<Longrightarrow> stat (threads k' t) = stat (threads k t)"
    "runnable k' t = runnable k t"
proof -
  obtain T L g c p where "k' = k\<lparr>threads := T, tlists := L, rt_thread_ready_priority_group := g,
      rt_current_thread := c, rt_current_priority := p\<rparr>"
    using assms unfolding sched_frame_def by metis
  then show "timers k' = timers k" "objs k' = objs k" "object_list k' = object_list k"
    "rt_timer_list k' = rt_timer_list k" "rt_tick k' = rt_tick k" "mem k' = mem k"
    "rt_scheduler_lock_nest k' = rt_scheduler_lock_nest k"
    "rt_interrupt_nest k' = rt_interrupt_nest k"
    "sems k' = sems k" "mutexes k' = mutexes k" "events k' = events k"
    "mailboxes k' = mailboxes k" "mqs k' = mqs k" "mempools k' = mempools k"
    by simp_all
qed (use assms in \<open>auto simp: sched_frame_def\<close>)

lemma sched_frame_switched:
  assumes "sched_inv k" and "best_ready k p t" and "cur \<noteq> t"
  shows "sched_frame k (switched cur t k g)"
proof -
  note best = best_readyD [OF assms(1,2)]
  have "t \<notin> set (tlists k h)" if "\<nexists>p. h = ReadyList p" for h
    using sched_invD(2) [OF assms(1), of t h] best(2) that by (cases h) auto
  moreover have "runnable (switched cur t k g) u = runnable k u" for u
    by (rule runnable_switched [OF assms(3) best(2)])
  ultimately show ?thesis
    using best(2) by (auto simp: sched_frame_def switched_def list_remove_def list_insert_before_def
        runnable_def set_stat_def)
qed

lemma sched_frame_live:
  assumes "sched_frame k k'"
  shows "live k' t = live k t" and "tstat k t = RT_THREAD_SUSPEND \<Longrightarrow> tstat k' t = RT_THREAD_SUSPEND"
  using sched_frameD(17) [OF assms, of t] sched_frameD(18) [OF assms, of t]
  by (auto simp: live_def runnable_def)

lemma rt_schedule_spec:
  assumes k: "kinv k" and cur: "rt_current_thread k = Some cur"
  shows "returns (rt_schedule k) (\<lambda>k'. kinv k' \<and> sched_frame k k' \<and> rt_current_thread k' \<noteq> None)"
proof -
  have "returns (rt_schedule k) (\<lambda>k'. sched_inv k' \<and> sched_frame k k' \<and> rt_current_thread k' \<noteq> None)"
    using kinvD(1) [OF k] cur
  proof (cases rule: rt_schedule_cases)
    case same
    then show ?thesis using kinvD(1) [OF k] cur by simp
  next
    case (switch p t g)
    then show ?thesis
      using sched_frame_switched [OF kinvD(1) [OF k] switch(3,4)] by (simp add: switched_def)
  qed
  moreover have "timer_inv k'" if "sched_frame k k'" for k'
    by (rule timer_inv_cong [OF kinvD(2) [OF k]])
       (use sched_frameD [OF that] sched_frame_live [OF that] timer_invD(5,6) [OF kinvD(2) [OF k]]
         in auto)
  ultimately show ?thesis by (auto simp: kinv_def elim!: returns_mono)
qed

section \<open>Suspend and resume\<close>

lemma set_stat_stat [simp]: "x\<lparr>stat := stat (set_stat st x)\<rparr> = set_stat st x"
  by (simp add: set_stat_def)

lemma insert_thread_frame:
  assumes "rt_schedule_insert_thread t k = Some k'"
  shows "u \<noteq> t \<Longrightarrow> threads k' u = threads k u"
    "threads k' t = (threads k t)\<lparr>stat := stat (threads k' t)\<rparr>" "runnable k' t"
    "(\<nexists>p. h = ReadyList p) \<Longrightarrow> tlists k' h = tlists k h"
    "timers k' = timers k" "rt_timer_list k' = rt_timer_list k" "rt_tick k' = rt_tick k"
    "objs k' = objs k" "rt_current_thread k' = rt_current_thread k" "mem k' = mem k"
    "sems k' = sems k" "mutexes k' = mutexes k" "events k' = events k"
    "mailboxes k' = mailboxes k" "mqs k' = mqs k" "mempools k' = mempools k"
    "rt_scheduler_lock_nest k' = rt_scheduler_lock_nest k"
    "rt_interrupt_nest k' = rt_interrupt_nest k" "object_list k' = object_list k"
proof -
  obtain st L g where "st = RT_THREAD_RUNNING \<or> st = RT_THREAD_READY"
      "\<And>h. (\<nexists>p. h = ReadyList p) \<Longrightarrow> L h = tlists k h"
      "k' = k\<lparr>threads := (threads k)(t := set_stat st (threads k t)), tlists := L,
        rt_thread_ready_priority_group := g\<rparr>"
  proof (cases "rt_current_thread k = Some t")
    case True
    with assms have e: "k' = k\<lparr>threads := (threads k)(t := set_stat RT_THREAD_RUNNING (threads k t)),
        tlists := tlists k, rt_thread_ready_priority_group := rt_thread_ready_priority_group k\<rparr>"
      by (auto simp: rt_schedule_insert_thread_def kdefs)
    show ?thesis by (rule that [OF _ _ e]) simp_all
  next
    case False
    with assms have e: "k' = k\<lparr>threads := (threads k)(t := set_stat RT_THREAD_READY (threads k t)),
        tlists := list_insert_before (ReadyList (tprio k t)) t (tlists k),
        rt_thread_ready_priority_group :=
          rt_thread_ready_priority_group k OR number_mask (threads k t)\<rparr>"
      by (simp add: rt_schedule_insert_thread_def kdefs Let_def bind_eq_Some_conv)
    show ?thesis by (rule that [OF _ _ e]) (auto simp: list_insert_before_def)
  qed
  then show "u \<noteq> t \<Longrightarrow> threads k' u = threads k u"
    "threads k' t = (threads k t)\<lparr>stat := stat (threads k' t)\<rparr>" "runnable k' t"
    "(\<nexists>p. h = ReadyList p) \<Longrightarrow> tlists k' h = tlists k h"
    "timers k' = timers k" "rt_timer_list k' = rt_timer_list k" "rt_tick k' = rt_tick k"
    "objs k' = objs k" "rt_current_thread k' = rt_current_thread k" "mem k' = mem k"
    "sems k' = sems k" "mutexes k' = mutexes k" "events k' = events k"
    "mailboxes k' = mailboxes k" "mqs k' = mqs k" "mempools k' = mempools k"
    "rt_scheduler_lock_nest k' = rt_scheduler_lock_nest k"
    "rt_interrupt_nest k' = rt_interrupt_nest k" "object_list k' = object_list k"
    by (auto simp: runnable_def)
qed

definition suspended :: "nat \<Rightarrow> kernel \<Rightarrow> u32 \<Rightarrow> kernel" where
  "suspended t k g = stopped (ThreadTimer t) (unqueued t (stat (set_stat RT_THREAD_SUSPEND (threads k t))) k g)"

lemma stopped_sel [simp]:
  "threads (stopped tm k) = threads k" "tlists (stopped tm k) = tlists k"
  "timers (stopped tm k) = timers k" "rt_current_thread (stopped tm k) = rt_current_thread k"
  "rt_tick (stopped tm k) = rt_tick k" "sems (stopped tm k) = sems k"
  "mutexes (stopped tm k) = mutexes k" "events (stopped tm k) = events k"
  "mailboxes (stopped tm k) = mailboxes k" "mqs (stopped tm k) = mqs k"
  "mempools (stopped tm k) = mempools k"
  "rt_scheduler_lock_nest (stopped tm k) = rt_scheduler_lock_nest k"
  "rt_interrupt_nest (stopped tm k) = rt_interrupt_nest k"
  "rt_thread_ready_priority_group (stopped tm k) = rt_thread_ready_priority_group k"
  "object_list (stopped tm k) = object_list k" "mem (stopped tm k) = mem k"
  "otype (objs (stopped tm k) ob) = otype (objs k ob)"
  by (simp_all add: stopped_def)

lemma unqueued_sel [simp]:
  "tlists (unqueued t st k g) = list_remove t (tlists k)"
  "threads (unqueued t st k g) = (threads k)(t := (threads k t)\<lparr>stat := st\<rparr>)"
  "timers (unqueued t st k g) = timers k" "objs (unqueued t st k g) = objs k"
  "rt_timer_list (unqueued t st k g) = rt_timer_list k" "rt_tick (unqueued t st k g) = rt_tick k"
  "rt_current_thread (unqueued t st k g) = rt_current_thread k"
  "sems (unqueued t st k g) = sems k" "mutexes (unqueued t st k g) = mutexes k"
  "events (unqueued t st k g) = events k" "mailboxes (unqueued t st k g) = mailboxes k"
  "mqs (unqueued t st k g) = mqs k" "mempools (unqueued t st k g) = mempools k"
  "rt_scheduler_lock_nest (unqueued t st k g) = rt_scheduler_lock_nest k"
  "rt_interrupt_nest (unqueued t st k g) = rt_interrupt_nest k"
  "object_list (unqueued t st k g) = object_list k" "mem (unqueued t st k g) = mem k"
  by (simp_all add: unqueued_def)

lemma live_thread_ok: "kinv k \<Longrightarrow> live k t \<Longrightarrow> thread_ok k t"
  using sched_invD(6) [OF kinvD(1)] by blast

lemma thread_okD:
  assumes "thread_ok k t"
  shows "rt_object_get_type (OThread t) k = RT_Object_Class_Thread"
    and "rt_object_get_type (OTimer (ThreadTimer t)) k = RT_Object_Class_Timer"
    and "rt_object_is_systemobject (OTimer (ThreadTimer t)) k" and "mask_ok (threads k t)"
  using assms by (simp_all add: thread_ok_def)

text \<open>
  A ready or running thread is suspended: it hangs in no list afterwards and its timer is
  stopped.
\<close>

lemma rt_thread_suspend_spec:
  assumes k: "kinv k" and t: "runnable k t"
  obtains g where "rt_thread_suspend t k = Some (RT_EOK, suspended t k g)"
    and "kinv (suspended t k g)"
proof -
  let ?st = "stat (set_stat RT_THREAD_SUSPEND (threads k t))"
  have live: "live k t" using t by (auto simp: runnable_def)
  note ok = thread_okD [OF live_thread_ok [OF k live]]
  obtain g where g: "rt_schedule_remove_thread t k =
      Some (k\<lparr>tlists := list_remove t (tlists k), rt_thread_ready_priority_group := g\<rparr>)"
    "rq_inv (unqueued t ?st k g)"
    using remove_thread_unqueued [OF kinvD(1) [OF k] ok(4)] by blast
  let ?k = "unqueued t ?st k g"
  have si: "sched_inv ?k"
    by (rule sched_inv_unqueued [OF kinvD(1) [OF k] g(2)]) (use live in simp)
  have "timer_inv ?k"
    by (rule timer_inv_cong [OF kinvD(2) [OF k]])
       (use timer_invD(5,6) [OF kinvD(2) [OF k]] live in \<open>auto simp: live_def split: if_splits\<close>)
  with si have kk: "kinv ?k" by (simp add: kinv_def)
  then have "kinv (suspended t k g)"
    unfolding suspended_def using kinv_timer_frame [OF _ stopped_frame] timer_inv_stopped kinvD(2)
    by blast
  moreover have "rt_thread_suspend t k = Some (RT_EOK, suspended t k g)"
  proof -
    have "upd_thread t (set_stat RT_THREAD_SUSPEND) (k\<lparr>tlists := list_remove t (tlists k),
        rt_thread_ready_priority_group := g\<rparr>) = ?k"
      by (simp add: kdefs unqueued_def set_stat_def)
    moreover have "rt_object_get_type (OTimer (ThreadTimer t)) ?k = RT_Object_Class_Timer"
      using ok(2) by (simp add: rt_object_get_type_def)
    moreover have "tstat k t = RT_THREAD_RUNNING \<Longrightarrow> rt_current_thread k = Some t"
      using sched_invD(5) [OF kinvD(1) [OF k]] by simp
    ultimately show ?thesis
      using t ok(1) g(1)
      by (auto simp: rt_thread_suspend_def rt_timer_stop_eq suspended_def runnable_def
          rt_thread_self_def)
  qed
  ultimately show ?thesis using that by blast
qed

lemma suspended_sel:
  assumes "kinv k"
  shows "tstat (suspended t k g) t = RT_THREAD_SUSPEND" "\<not> listed (tlists (suspended t k g)) t"
    "rt_current_thread (suspended t k g) = rt_current_thread k"
    "u \<noteq> t \<Longrightarrow> threads (suspended t k g) u = threads k u"
    "threads (suspended t k g) t = set_stat RT_THREAD_SUSPEND (threads k t)"
    "tlists (suspended t k g) = list_remove t (tlists k)"
  using not_listed_remove [OF sched_invD(7) [OF kinvD(1) [OF assms]]]
  by (simp_all add: suspended_def)

definition resumed :: "nat \<Rightarrow> kernel \<Rightarrow> u32 \<Rightarrow> kernel" where
  "resumed t k g =
     (let k = stopped (ThreadTimer t) (k\<lparr>tlists := list_remove t (tlists k)\<rparr>)
      in if rt_current_thread k = Some t
         then k\<lparr>threads := (threads k)(t := set_stat RT_THREAD_RUNNING (threads k t))\<rparr>
         else k\<lparr>threads := (threads k)(t := set_stat RT_THREAD_READY (threads k t)),
           tlists := list_insert_before (ReadyList (tprio k t)) t (tlists k),
           rt_thread_ready_priority_group := g\<rparr>)"

lemma timer_inv_woken:
  assumes k: "timer_inv k" and t: "ThreadTimer t \<notin> set (rt_timer_list k)" "live k t"
    and "timers k' = timers k" "rt_timer_list k' = rt_timer_list k" "rt_tick k' = rt_tick k"
      "objs k' = objs k" and "\<And>u. u \<noteq> t \<Longrightarrow> threads k' u = threads k u"
  shows "timer_inv k'"
proof (rule timer_inv_cong [OF k assms(4-7)])
  show "tstat k' u = RT_THREAD_SUSPEND" if "ThreadTimer u \<in> set (rt_timer_list k)" for u
    using timer_invD(5) [OF k that] t(1) that assms(8) [of u] by (cases "u = t") auto
  show "thread_timer_ok k u" if "live k' u" for u
    using timer_invD(6) [OF k, of u] t(2) that assms(8) [of u] by (cases "u = t") (auto simp: live_def)
qed

lemma rt_thread_resume_spec:
  assumes k: "kinv k" and t: "tstat k t = RT_THREAD_SUSPEND"
  obtains g where "rt_thread_resume t k = Some (RT_EOK, resumed t k g)" and "kinv (resumed t k g)"
proof -
  have live: "live k t" using t by simp
  note ok = thread_okD [OF live_thread_ok [OF k live]]
  let ?k1 = "k\<lparr>tlists := list_remove t (tlists k)\<rparr>"
  let ?k2 = "stopped (ThreadTimer t) ?k1"
  have "timer_inv ?k1"
    by (rule timer_inv_cong [OF kinvD(2) [OF k]])
       (use timer_invD(5,6) [OF kinvD(2) [OF k]] in \<open>auto simp: live_def\<close>)
  moreover have "sched_inv ?k1" by (rule sched_inv_delist [OF kinvD(1) [OF k]]) (simp add: t)
  ultimately have "kinv ?k1" by (simp add: kinv_def)
  then have k2: "kinv ?k2"
    using kinv_timer_frame [OF _ stopped_frame] timer_inv_stopped kinvD(2) by blast
  have nt: "ThreadTimer t \<notin> set (rt_timer_list ?k2)"
    using stopped_list [OF kinvD(2) [OF \<open>kinv ?k1\<close>]] by simp
  have ok2: "thread_ok ?k2 t"
    using live_thread_ok [OF k2, of t] t by (simp add: live_def)
  have ul: "\<not> listed (tlists ?k2) t"
    using not_listed_remove [OF sched_invD(7) [OF kinvD(1) [OF k]]] by simp
  have ex: "\<exists>g. rt_schedule_insert_thread t ?k2 = Some (resumed t k g)"
    using insert_thread_eq [of ?k2 t] ok2
    by (auto simp: resumed_def Let_def rt_schedule_insert_thread_def kdefs thread_ok_def)
  then obtain g where g: "rt_schedule_insert_thread t ?k2 = Some (resumed t k g)" by blast
  have "sched_inv (resumed t k g)"
    using sched_inv_insert [OF kinvD(1) [OF k2] ok2 ul] g by simp
  moreover have "timer_inv (resumed t k g)"
    by (rule timer_inv_woken [OF kinvD(2) [OF k2] nt])
       (use t in \<open>auto simp: resumed_def Let_def live_def\<close>)
  moreover have "rt_thread_resume t k = Some (RT_EOK, resumed t k g)"
    using t ok(1,2) g
    by (simp add: rt_thread_resume_def rt_timer_stop_eq kdefs rt_object_get_type_def)
  ultimately show ?thesis using that by (simp add: kinv_def)
qed

lemma resumed_sel:
  assumes "kinv k"
  shows "tstat (resumed t k g) t = (if rt_current_thread k = Some t then RT_THREAD_RUNNING else RT_THREAD_READY)"
    "rt_current_thread (resumed t k g) = rt_current_thread k"
    "u \<noteq> t \<Longrightarrow> threads (resumed t k g) u = threads k u"
    "threads (resumed t k g) t = (threads k t)\<lparr>stat := stat (threads (resumed t k g) t)\<rparr>"
    "(\<nexists>p. h = ReadyList p) \<Longrightarrow> tlists (resumed t k g) h = remove1 t (tlists k h)"
    "runnable (resumed t k g) t"
    "rt_tick (resumed t k g) = rt_tick k" "timers (resumed t k g) = timers k"
    "sems (resumed t k g) = sems k" "mutexes (resumed t k g) = mutexes k"
    "events (resumed t k g) = events k" "mailboxes (resumed t k g) = mailboxes k"
    "mqs (resumed t k g) = mqs k" "mempools (resumed t k g) = mempools k"
    "rt_scheduler_lock_nest (resumed t k g) = rt_scheduler_lock_nest k"
    "rt_interrupt_nest (resumed t k g) = rt_interrupt_nest k"
    "otype (objs (resumed t k g) ob) = otype (objs k ob)"
    "(\<nexists>i. ob = OTimer i) \<Longrightarrow> objs (resumed t k g) ob = objs k ob"
    "set (rt_timer_list (resumed t k g)) = set (rt_timer_list k) - {ThreadTimer t}"
proof -
  have "set (rt_timer_list (stopped (ThreadTimer t) (k\<lparr>tlists := list_remove t (tlists k)\<rparr>))) =
      set (rt_timer_list k) - {ThreadTimer t}"
    using stopped_list [OF kinvD(2) [OF assms], of "ThreadTimer t"]
    by (simp add: stopped_def split: if_splits)
  then show "set (rt_timer_list (resumed t k g)) = set (rt_timer_list k) - {ThreadTimer t}"
    by (simp add: resumed_def Let_def)
qed (auto simp: resumed_def Let_def runnable_def list_insert_before_def list_remove_def stopped_def)

section \<open>Sleeping and waking up\<close>

text \<open>Fields of a thread that the scheduler does not look at.\<close>

lemma kinv_upd_thread:
  assumes k: "kinv k"
    and f: "\<And>x. stat (f x) = stat x" "\<And>x. current_priority (f x) = current_priority x"
      "\<And>x. number_mask (f x) = number_mask x" "\<And>x. sp (f x) = sp x"
      "\<And>x. stack_addr (f x) = stack_addr x" "\<And>x. stack_size (f x) = stack_size x"
  shows "kinv (upd_thread t f k)"
proof -
  let ?k = "upd_thread t f k"
  have th: "stat (threads ?k u) = stat (threads k u)"
    "current_priority (threads ?k u) = current_priority (threads k u)" for u
    by (simp_all add: kdefs f)
  have ok: "thread_ok ?k u = thread_ok k u" for u by (rule thread_ok_cong) (simp_all add: kdefs f)
  have live: "live ?k u = live k u" for u unfolding live_def th ..
  have rq: "rq_inv ?k = rq_inv k" by (rule rq_inv_cong) (simp_all add: kdefs f)
  have sel: "tlists ?k = tlists k" "rt_current_thread ?k = rt_current_thread k" by (simp_all add: kdefs)
  have "sched_inv ?k"
    using kinvD(1) [OF k] unfolding sched_inv_def th rq ok live sel .
  moreover have "timer_inv ?k"
    using timer_invD(5,6) [OF kinvD(2) [OF k]] th live
    by (intro timer_inv_cong [OF kinvD(2) [OF k]]) (simp_all add: kdefs)
  ultimately show ?thesis by (simp add: kinv_def)
qed

lemma kinv_error: "kinv k \<Longrightarrow> kinv (upd_thread t (\<lambda>x. x\<lparr>error := e\<rparr>) k)"
  by (rule kinv_upd_thread) simp_all

lemma rt_thread_timeout_steps:
  assumes k: "kinv k" and cur: "rt_current_thread k = Some c"
    and t: "tstat k t = RT_THREAD_SUSPEND" "ThreadTimer t \<notin> set (rt_timer_list k)"
  shows "returns (rt_thread_timeout t k) (\<lambda>k'. kinv k' \<and> runnable k' t \<and>
    error (threads k' t) = - RT_ETIMEOUT \<and> rt_timer_list k' = rt_timer_list k \<and>
    timers k' = timers k \<and> objs k' = objs k \<and> rt_tick k' = rt_tick k \<and>
    rt_current_thread k' \<noteq> None \<and> (\<forall>u. u \<noteq> t \<longrightarrow> error (threads k' u) = error (threads k u)) \<and>
    (\<forall>u. u \<noteq> t \<longrightarrow> runnable k' u = runnable k u) \<and>
    (\<exists>k2. rt_schedule_insert_thread t ((upd_thread t (\<lambda>x. x\<lparr>error := - RT_ETIMEOUT\<rparr>) k)
        \<lparr>tlists := list_remove t (tlists k)\<rparr>) = Some k2 \<and> sched_frame k2 k' \<and>
      kinv k2 \<and> rt_schedule k2 = Some k'))"
proof -
  let ?k1 = "upd_thread t (\<lambda>x. x\<lparr>error := - RT_ETIMEOUT\<rparr>) k"
  let ?k2 = "?k1\<lparr>tlists := list_remove t (tlists ?k1)\<rparr>"
  have k1: "kinv ?k1" using k by (rule kinv_error)
  have st1: "tstat ?k1 t = RT_THREAD_SUSPEND" using t(1) by (simp add: kdefs)
  have "sched_inv ?k2" by (rule sched_inv_delist [OF kinvD(1) [OF k1]]) (simp add: st1)
  moreover have ti: "timer_inv ?k2"
    by (rule timer_inv_cong [OF kinvD(2) [OF k1]])
       (use timer_invD(5,6) [OF kinvD(2) [OF k1]] in \<open>auto simp: live_def\<close>)
  ultimately have k2: "kinv ?k2" by (simp add: kinv_def)
  have live: "live ?k2 t" using st1 by (simp add: live_def)
  note ok = live_thread_ok [OF k2 live]
  have "\<not> listed (tlists ?k2) t"
    using not_listed_remove [OF sched_invD(7) [OF kinvD(1) [OF k1]]] by simp
  from sched_inv_insert [OF kinvD(1) [OF k2] ok this] obtain k3
    where k3: "rt_schedule_insert_thread t ?k2 = Some k3" "sched_inv k3"
    by (auto elim!: returnsE)
  note ins = insert_thread_frame [OF k3(1)]
  have c3: "rt_current_thread k3 = Some c" using ins(9) cur by (simp add: kdefs)
  have fr: "\<And>u. u \<noteq> t \<Longrightarrow> threads k3 u = threads k u" "timers k3 = timers k"
      "rt_timer_list k3 = rt_timer_list k" "rt_tick k3 = rt_tick k" "objs k3 = objs k"
    using ins by (simp_all add: kdefs)
  have e3: "error (threads k3 t) = - RT_ETIMEOUT"
    by (subst ins(2)) (simp add: kdefs)
  have "timer_inv k3"
    by (rule timer_inv_woken [OF ti, of t]) (use fr t(2) live in \<open>simp_all add: kdefs\<close>)
  with k3 have kinv3: "kinv k3" by (simp add: kinv_def)
  from rt_schedule_spec [OF this c3] obtain k4 where
    k4: "rt_schedule k3 = Some k4" "kinv k4" "sched_frame k3 k4" "rt_current_thread k4 \<noteq> None"
    by (auto elim!: returnsE)
  note f4 = sched_frameD [OF k4(3)]
  have err: "error (threads k4 u) = error (threads k3 u)" for u by (subst f4(15)) simp
  have run: "runnable k3 u = runnable k u" if "u \<noteq> t" for u
    using fr(1) that by (simp add: runnable_def)
  have "rt_thread_timeout t k = Some k4"
    using t(1) thread_okD(1) [OF ok] k3(1) k4(1)
    by (simp add: rt_thread_timeout_def rt_object_get_type_def upd_tlists_def kdefs)
  then show ?thesis
    using k4 fr ins(3) e3 f4 err run k3(1) kinv3 by (auto simp: kdefs)
qed

lemma rt_thread_timeout_spec:
  assumes k: "kinv k" and cur: "rt_current_thread k = Some c"
    and t: "tstat k t = RT_THREAD_SUSPEND" "ThreadTimer t \<notin> set (rt_timer_list k)"
  shows "returns (rt_thread_timeout t k) (\<lambda>k'. kinv k' \<and> runnable k' t \<and>
    error (threads k' t) = - RT_ETIMEOUT \<and> rt_timer_list k' = rt_timer_list k \<and>
    timers k' = timers k \<and> objs k' = objs k \<and> rt_tick k' = rt_tick k \<and>
    rt_current_thread k' \<noteq> None \<and> (\<forall>u. u \<noteq> t \<longrightarrow> error (threads k' u) = error (threads k u)) \<and>
    (\<forall>u. u \<noteq> t \<longrightarrow> runnable k' u = runnable k u))"
  by (rule returns_mono [OF rt_thread_timeout_steps [OF assms]]) blast

text \<open>
  The timer of a suspended thread, set to a time and started; the common tail of every
  call that waits with a timeout.
\<close>

definition start_thread_timer :: "nat \<Rightarrow> u32 \<Rightarrow> kernel \<Rightarrow> kernel option" where
  "start_thread_timer t tick k = do {
     (_, _, k) \<leftarrow> rt_timer_control (ThreadTimer t) (Timer_set_time tick) k;
     (_, k) \<leftarrow> rt_timer_start (ThreadTimer t) k;
     Some k
   }"

definition armed :: "nat \<Rightarrow> u32 \<Rightarrow> kernel \<Rightarrow> kernel" where
  "armed t tick k = started (ThreadTimer t) (set_time (ThreadTimer t) tick k)"

lemma armed_frame: "timer_frame k (armed t tick k)"
  by (simp add: timer_frame_def armed_def started_def set_time_def kdefs)

lemma start_thread_timer_spec:
  assumes k: "kinv k" and t: "tstat k t = RT_THREAD_SUSPEND" and tick: "tick < RT_TICK_HALF"
  shows "start_thread_timer t tick k = Some (armed t tick k)" and "kinv (armed t tick k)"
    and "ThreadTimer t \<in> set (rt_timer_list (armed t tick k))"
    and "due (armed t tick k) (ThreadTimer t) = rt_tick k + tick"
proof -
  let ?k = "set_time (ThreadTimer t) tick k"
  have live: "live k t" using t by simp
  note ok = thread_okD [OF live_thread_ok [OF k live]]
  note fs = timer_frame_sel [OF set_time_frame [of k "ThreadTimer t" tick]]
  have ty: "rt_object_get_type (OTimer (ThreadTimer t)) ?k = RT_Object_Class_Timer"
    using ok(2) fs by simp
  show "start_thread_timer t tick k = Some (armed t tick k)"
    unfolding start_thread_timer_def armed_def
    using rt_timer_control_set_time_eq [OF ok(2)] rt_timer_start_eq [OF ty] tick by simp
  have "timer_inv (armed t tick k)"
    unfolding armed_def
    by (rule timer_inv_started [OF timer_inv_set_time [OF kinvD(2) [OF k]] ty])
       (use tick t fs in auto)
  with kinv_timer_frame [OF k armed_frame] show "kinv (armed t tick k)" by simp
  show "ThreadTimer t \<in> set (rt_timer_list (armed t tick k))"
    by (simp add: armed_def started_def)
  show "due (armed t tick k) (ThreadTimer t) = rt_tick k + tick"
    by (simp add: armed_def started_def fs)
qed

lemma start_thread_timer_too_long:
  assumes "\<not> tick < RT_TICK_HALF"
  shows "start_thread_timer t tick k = None"
  using assms
  by (auto simp: start_thread_timer_def rt_timer_control_def rt_timer_start_def rt_assert_def
      kdefs rt_timer_remove_def Let_def)

lemma rt_thread_sleep_eq:
  "rt_thread_sleep tick k = do {
     t \<leftarrow> rt_thread_self k;
     rt_assert (rt_object_get_type (OThread t) k = RT_Object_Class_Thread);
     (_, k) \<leftarrow> rt_thread_suspend t k;
     k \<leftarrow> start_thread_timer t tick k;
     k \<leftarrow> rt_schedule k;
     Some (Wait K_sleep, k)
   }"
  by (simp add: rt_thread_sleep_def start_thread_timer_def split_def)

lemma suspend_arm_spec:
  assumes k: "kinv k" and t: "runnable k t" and tick: "tick < RT_TICK_HALF"
  obtains g where "rt_thread_suspend t k = Some (RT_EOK, suspended t k g)"
    and "kinv (suspended t k g)"
    and "start_thread_timer t tick (suspended t k g) = Some (armed t tick (suspended t k g))"
    and "kinv (armed t tick (suspended t k g))"
  using rt_thread_suspend_spec [OF k t] start_thread_timer_spec(1,2) [OF _ suspended_sel(1) [OF k] tick]
  by metis

text \<open>
  \<^verbatim>\<open>rt_thread_sleep\<close> called by the running thread with a time below half the tick range:
  the call does not return at once; the thread is suspended, hangs in no ready list, and
  its timer is pending and due exactly that many ticks later; the invariant is kept, and
  when another thread can run and the scheduler is not locked, another thread runs.
\<close>

theorem rt_thread_sleep_suspends:
  assumes k: "kinv k" and cur: "rt_current_thread k = Some t"
    and run: "tstat k t = RT_THREAD_RUNNING" and tick: "tick < RT_TICK_HALF"
  shows "\<exists>k'. rt_thread_sleep tick k = Some (Wait K_sleep, k') \<and> kinv k' \<and>
    tstat k' t = RT_THREAD_SUSPEND \<and> (\<forall>p. t \<notin> set (tlists k' (ReadyList p))) \<and>
    ThreadTimer t \<in> set (rt_timer_list k') \<and> due k' (ThreadTimer t) = rt_tick k + tick \<and>
    (rt_scheduler_lock_nest k = 0 \<and> (\<exists>u. u \<noteq> t \<and> runnable k u) \<longrightarrow> rt_current_thread k' \<noteq> Some t)"
proof -
  have r: "runnable k t" using run by (simp add: runnable_def)
  then obtain g where sus: "rt_thread_suspend t k = Some (RT_EOK, suspended t k g)"
      "kinv (suspended t k g)"
      "start_thread_timer t tick (suspended t k g) = Some (armed t tick (suspended t k g))"
      "kinv (armed t tick (suspended t k g))"
    using suspend_arm_spec [OF k _ tick] by blast
  let ?k = "armed t tick (suspended t k g)"
  note fa = timer_frame_sel [OF armed_frame [of "suspended t k g" t tick]]
  note ss = suspended_sel [OF k, where t = t and g = g]
  have c: "rt_current_thread ?k = Some t" using fa ss cur by simp
  have lock: "rt_scheduler_lock_nest ?k = rt_scheduler_lock_nest k"
    using fa by (simp add: suspended_def)
  from rt_schedule_spec [OF sus(4) c] obtain k' where
    k': "rt_schedule ?k = Some k'" "kinv k'" "sched_frame ?k k'" by (auto elim!: returnsE)
  note f' = sched_frameD [OF k'(3)]
  have st: "tstat k' t = RT_THREAD_SUSPEND"
    using sched_frame_live(2) [OF k'(3), of t] fa(1) ss(1) by simp
  have "rt_current_thread k' \<noteq> Some t"
    if "rt_scheduler_lock_nest k = 0" "u \<noteq> t" "runnable k u" for u
  proof -
    have "runnable ?k u" using that fa(1) ss(4) by (simp add: runnable_def)
    from rt_schedule_picks [OF kinvD(1) [OF sus(4)] c _ this] that(1) lock k'(1) st
    show ?thesis by auto
  qed
  moreover have "t \<notin> set (tlists k' (ReadyList p))" for p
    using sched_invD(2) [OF kinvD(1) [OF k'(2)], of t "ReadyList p"] st by auto
  moreover have "ThreadTimer t \<in> set (rt_timer_list k')" "due k' (ThreadTimer t) = rt_tick k + tick"
    using start_thread_timer_spec(3,4) [OF sus(2) ss(1) tick] f' by (simp_all add: suspended_def)
  moreover have "rt_object_get_type (OThread t) k = RT_Object_Class_Thread"
    using thread_okD(1) [OF live_thread_ok [OF k]] run by simp
  then have "rt_thread_sleep tick k = Some (Wait K_sleep, k')"
    using cur sus(1,3) k'(1) by (simp add: rt_thread_sleep_eq rt_thread_self_def)
  ultimately show ?thesis using k'(2) st by blast
qed

lemma kinv_example: "kinv example_kernel"
  by (simp add: kinv_def sched_inv_example timer_inv_example)

theorem rt_thread_sleep_suspends_witness:
  "\<exists>k'. rt_thread_sleep 100 example_kernel = Some (Wait K_sleep, k') \<and>
     due k' (ThreadTimer 1) = 100 \<and> rt_current_thread k' \<noteq> Some 1"
proof -
  have r: "2 \<noteq> (1::nat) \<and> runnable example_kernel 2" by (simp add: runnable_def)
  obtain k' where "rt_thread_sleep 100 example_kernel = Some (Wait K_sleep, k')"
      "due k' (ThreadTimer 1) = rt_tick example_kernel + 100"
      "rt_scheduler_lock_nest example_kernel = 0 \<and> (\<exists>u. u \<noteq> 1 \<and> runnable example_kernel u) \<longrightarrow>
        rt_current_thread k' \<noteq> Some 1"
    using rt_thread_sleep_suspends [OF kinv_example, of 1 100] by auto
  moreover have "\<exists>u. u \<noteq> 1 \<and> runnable example_kernel u" using r by blast
  ultimately show ?thesis by (intro exI [of _ k']) simp
qed

section \<open>Startup\<close>

text \<open>What \<^verbatim>\<open>rt_thread_init\<close> and \<^verbatim>\<open>rt_thread_create\<close> leave behind for \<^verbatim>\<open>rt_thread_startup\<close>.\<close>

definition inited :: "kernel \<Rightarrow> nat \<Rightarrow> bool" where
  "inited k t \<longleftrightarrow> tstat k t = RT_THREAD_INIT \<and> \<not> listed (tlists k) t \<and>
     ThreadTimer t \<notin> set (rt_timer_list k) \<and>
     unat (init_priority (threads k t)) < RT_THREAD_PRIORITY_MAX \<and>
     \<not> stack_overflow (mem k) (threads k t) \<and> thread_timer_ok k t \<and>
     rt_object_get_type (OThread t) k = RT_Object_Class_Thread \<and>
     rt_object_get_type (OTimer (ThreadTimer t)) k = RT_Object_Class_Timer \<and>
     rt_object_is_systemobject (OTimer (ThreadTimer t)) k"

definition startable :: "nat \<Rightarrow> kernel \<Rightarrow> kernel" where
  "startable t k = k\<lparr>threads := (threads k)(t := (threads k t)\<lparr>
     current_priority := init_priority (threads k t),
     number_mask := 2 ^ unat (init_priority (threads k t)), stat := RT_THREAD_SUSPEND\<rparr>)\<rparr>"

lemma rt_thread_startup_eq:
  assumes "inited k t"
  shows "rt_thread_startup t k = do {
     (_, k) \<leftarrow> rt_thread_resume t (startable t k);
     k \<leftarrow> (if rt_thread_self k \<noteq> None then rt_schedule k else Some k);
     Some (RT_EOK, k) }"
  using assms by (simp add: rt_thread_startup_def inited_def startable_def kdefs)

lemma kinv_startable:
  assumes k: "kinv k" and t: "inited k t"
  shows "kinv (startable t k)"
proof -
  let ?k = "startable t k"
  have st: "tstat ?k u = (if u = t then RT_THREAD_SUSPEND else tstat k u)" for u
    by (simp add: startable_def)
  have nl: "t \<notin> set (tlists k h)" for h using t by (auto simp: inited_def listed_def)
  have sel: "tlists ?k = tlists k" "rt_current_thread ?k = rt_current_thread k"
    by (simp_all add: startable_def)
  have pr: "u \<noteq> t \<Longrightarrow> threads ?k u = threads k u" for u by (simp add: startable_def)
  have ok: "thread_ok ?k u" if "live ?k u" for u
  proof (cases "u = t")
    case True
    then show ?thesis
      using t by (simp add: startable_def inited_def thread_ok_def mask_ok_def stack_overflow_def
          rt_object_get_type_def rt_object_is_systemobject_def)
  next
    case False
    then have "live k u" using that by (simp add: live_def pr)
    from live_thread_ok [OF k this] False show ?thesis
      by (subst thread_ok_cong [of _ k]) (simp_all add: pr startable_def)
  qed
  have "rq_inv ?k"
    using sched_invD(1) [OF kinvD(1) [OF k]] nl unfolding rq_inv_def
    by (auto simp: startable_def)
  then have "sched_inv ?k"
    using sched_invD(2-5) [OF kinvD(1) [OF k]] nl ok unfolding sched_inv_def st sel
    by (auto simp: pr split: if_splits)
  moreover have "timer_inv ?k"
  proof (rule timer_inv_cong [OF kinvD(2) [OF k]])
    show "tstat ?k u = RT_THREAD_SUSPEND" if "ThreadTimer u \<in> set (rt_timer_list k)" for u
      using timer_invD(5) [OF kinvD(2) [OF k] that] unfolding st by simp
    show "thread_timer_ok k u" if "live ?k u" for u
      using that t timer_invD(6) [OF kinvD(2) [OF k], of u]
      by (cases "u = t") (auto simp: inited_def live_def pr)
  qed (simp_all add: startable_def)
  ultimately show ?thesis by (simp add: kinv_def)
qed

lemma rt_thread_startup_spec:
  assumes k: "kinv k" and t: "inited k t"
  shows "returns (rt_thread_startup t k) (\<lambda>(r, k'). r = RT_EOK \<and> kinv k' \<and> runnable k' t)"
proof -
  let ?k = "startable t k"
  have k1: "kinv ?k" by (rule kinv_startable [OF k t])
  have st: "tstat ?k t = RT_THREAD_SUSPEND" by (simp add: startable_def)
  obtain g where g: "rt_thread_resume t ?k = Some (RT_EOK, resumed t ?k g)" "kinv (resumed t ?k g)"
    using rt_thread_resume_spec [OF k1 st] by blast
  note rs = resumed_sel [OF k1, where t = t and g = g]
  show ?thesis
  proof (cases "rt_current_thread (resumed t ?k g)")
    case None
    then show ?thesis using g rs(6) rt_thread_startup_eq [OF t] by (simp add: rt_thread_self_def)
  next
    case (Some c)
    from rt_schedule_spec [OF g(2) this] obtain k' where
      "rt_schedule (resumed t ?k g) = Some k'" "kinv k'" "sched_frame (resumed t ?k g) k'"
      by (auto elim!: returnsE)
    then show ?thesis
      using g(1) rs(6) rt_thread_startup_eq [OF t] Some sched_frameD(18) [of "resumed t ?k g" k' t]
      by (simp add: rt_thread_self_def)
  qed
qed

section \<open>Closing a thread\<close>

text \<open>Objects that no live thread and no pending timer is made of may change freely.\<close>

lemma kinv_objs:
  assumes k: "kinv k"
    and th: "\<And>t. live k t \<Longrightarrow> otype (ob (OThread t)) AND NOT RT_Object_Class_Static =
        otype (objs k (OThread t)) AND NOT RT_Object_Class_Static \<and>
      ob (OTimer (ThreadTimer t)) = objs k (OTimer (ThreadTimer t))"
    and tm: "\<And>tm. tm \<in> set (rt_timer_list k) \<Longrightarrow> ob (OTimer tm) = objs k (OTimer tm)"
  shows "kinv (k\<lparr>objs := ob, object_list := L\<rparr>)"
proof -
  let ?k = "k\<lparr>objs := ob, object_list := L\<rparr>"
  have live: "live ?k t = live k t" for t by (simp add: live_def)
  have ok: "live k t \<Longrightarrow> thread_ok ?k t" for t
    using live_thread_ok [OF k, of t] th [of t]
    by (simp add: thread_ok_def rt_object_get_type_def rt_object_is_systemobject_def)
  have "rq_inv ?k = rq_inv k" by (rule rq_inv_cong) simp_all
  then have "sched_inv ?k"
    using kinvD(1) [OF k] ok unfolding sched_inv_def live by simp
  moreover have "timer_inv ?k"
    using kinvD(2) [OF k] th tm unfolding timer_inv_def live
    by (simp add: thread_timer_ok_def rt_object_get_type_def)
  ultimately show ?thesis by (simp add: kinv_def)
qed

lemma rt_object_detach_eq:
  "rt_object_detach ob k = k\<lparr>objs := (objs k)(ob := (objs k ob)\<lparr>otype := 0\<rparr>),
     object_list := list_remove ob (object_list k)\<rparr>"
  by (simp add: rt_object_detach_def upd_obj_def Let_def)

lemma kinv_timer_remove:
  assumes "kinv k"
  shows "kinv (rt_timer_remove tm k)"
proof -
  have "sched_inv (rt_timer_remove tm k) = sched_inv k"
    by (rule sched_inv_cong) (simp_all add: rt_timer_remove_def)
  moreover have "timer_inv (rt_timer_remove tm k)"
    using kinvD(2) [OF assms] set_remove1_subset [of tm "rt_timer_list k"]
    unfolding timer_inv_def
    by (auto simp: rt_timer_remove_def due_order_remove1 thread_timer_ok_def live_def
        rt_object_get_type_def)
  ultimately show ?thesis using assms by (simp add: kinv_def)
qed

lemma kinv_timer_detached:
  assumes k: "kinv k" and t: "\<And>i. tm = ThreadTimer i \<Longrightarrow> \<not> live k i"
  shows "kinv (rt_object_detach (OTimer tm) (rt_timer_remove tm k))"
proof -
  note k1 = kinv_timer_remove [OF k, of tm]
  have "tm \<notin> set (rt_timer_list (rt_timer_remove tm k))"
    using timer_invD(1) [OF kinvD(2) [OF k]] by (simp add: rt_timer_remove_def)
  moreover have "live (rt_timer_remove tm k) i = live k i" for i
    by (simp add: rt_timer_remove_def live_def)
  ultimately show ?thesis
    unfolding rt_object_detach_eq by (intro kinv_objs [OF k1]) (use t in auto)
qed

lemma kinv_thread_detached:
  assumes "kinv k" and "\<not> live k t"
  shows "kinv (rt_object_detach (OThread t) k)"
  unfolding rt_object_detach_eq by (intro kinv_objs [OF assms(1)]) (use assms(2) in auto)

text \<open>The state after a live thread is closed, before its object is disposed of.\<close>

definition closing :: "nat \<Rightarrow> kernel \<Rightarrow> u32 \<Rightarrow> kernel" where
  "closing t k g = rt_object_detach (OTimer (ThreadTimer t))
     (rt_timer_remove (ThreadTimer t) (unqueued t RT_THREAD_CLOSE k g))"

lemma closing_sel [simp]:
  "threads (closing t k g) = (threads k)(t := (threads k t)\<lparr>stat := RT_THREAD_CLOSE\<rparr>)"
  "tlists (closing t k g) = list_remove t (tlists k)"
  "rt_current_thread (closing t k g) = rt_current_thread k"
  "ob \<noteq> OTimer (ThreadTimer t) \<Longrightarrow> objs (closing t k g) ob = objs k ob"
  "rt_scheduler_lock_nest (closing t k g) = rt_scheduler_lock_nest k"
  by (simp_all add: closing_def rt_object_detach_def rt_timer_remove_def kdefs Let_def)

lemma kinv_closing:
  assumes k: "kinv k" and t: "live k t"
  obtains g where "rt_schedule_remove_thread t k =
      Some (k\<lparr>tlists := list_remove t (tlists k), rt_thread_ready_priority_group := g\<rparr>)"
    and "kinv (closing t k g)"
proof -
  note ok = thread_okD [OF live_thread_ok [OF k t]]
  obtain g where g: "rt_schedule_remove_thread t k =
      Some (k\<lparr>tlists := list_remove t (tlists k), rt_thread_ready_priority_group := g\<rparr>)"
    "rq_inv (unqueued t RT_THREAD_CLOSE k g)"
    using remove_thread_unqueued [OF kinvD(1) [OF k] ok(4)] by blast
  let ?k1 = "unqueued t RT_THREAD_CLOSE k g"
  let ?k0 = "rt_timer_remove (ThreadTimer t) k"
  have k0: "kinv ?k0" by (rule kinv_timer_remove [OF k])
  have eq: "rt_timer_remove (ThreadTimer t) ?k1 = unqueued t RT_THREAD_CLOSE ?k0 g"
    by (simp add: unqueued_def rt_timer_remove_def)
  have nt: "ThreadTimer t \<notin> set (rt_timer_list ?k0)"
    using timer_invD(1) [OF kinvD(2) [OF k]] by (simp add: rt_timer_remove_def)
  have r: "rq_inv (unqueued t RT_THREAD_CLOSE ?k0 g)"
    using g(2) by (simp add: rq_inv_def unqueued_def rt_timer_remove_def)
  have "sched_inv (unqueued t RT_THREAD_CLOSE ?k0 g)"
    by (rule sched_inv_unqueued [OF kinvD(1) [OF k0] r]) simp
  moreover have "timer_inv (unqueued t RT_THREAD_CLOSE ?k0 g)"
    by (rule timer_inv_woken [OF kinvD(2) [OF k0] nt])
       (use t in \<open>simp_all add: rt_timer_remove_def live_def\<close>)
  ultimately have "kinv (rt_timer_remove (ThreadTimer t) ?k1)" unfolding eq by (simp add: kinv_def)
  then have "kinv (rt_object_detach (OTimer (ThreadTimer t))
      (rt_timer_remove (ThreadTimer t) (rt_timer_remove (ThreadTimer t) ?k1)))"
    by (rule kinv_timer_detached) (simp add: rt_timer_remove_def live_def)
  moreover have "rt_timer_remove (ThreadTimer t) (rt_timer_remove (ThreadTimer t) ?k1) =
      rt_timer_remove (ThreadTimer t) ?k1"
    using nt by (simp add: rt_timer_remove_def)
  ultimately have "kinv (closing t k g)" by (simp add: closing_def)
  then show ?thesis using that g(1) by blast
qed

lemma kinv_defunct:
  assumes k: "kinv k" and t: "tstat k t = RT_THREAD_CLOSE" "\<not> listed (tlists k) t"
  shows "kinv (upd_tlists (list_insert_after Defunct t) k)"
proof -
  let ?k = "k\<lparr>tlists := (tlists k)(Defunct := t # tlists k Defunct)\<rparr>"
  have "sched_inv ?k"
    by (rule sched_inv_enlist [OF kinvD(1) [OF k] t(2)])
       (use t sched_invD(7) [OF kinvD(1) [OF k]] in \<open>auto simp: listed_def lists_wf_def\<close>)
  moreover have "timer_inv ?k"
    by (rule timer_inv_cong [OF kinvD(2) [OF k]])
       (use timer_invD(5,6) [OF kinvD(2) [OF k]] in \<open>auto simp: live_def\<close>)
  ultimately show ?thesis by (simp add: kinv_def upd_tlists_def list_insert_after_def)
qed

lemma closing_unlisted: "kinv k \<Longrightarrow> \<not> listed (tlists (closing t k g)) t"
  using not_listed_remove [OF sched_invD(7) [OF kinvD(1)]] by simp

lemma not_live_closing [simp]: "\<not> live (closing t k g) t"
  by (simp add: live_def)

lemma timer_detach_closing:
  assumes "thread_ok k t"
    and "k1 = k\<lparr>tlists := list_remove t (tlists k), rt_thread_ready_priority_group := g\<rparr>"
  shows "rt_timer_detach (ThreadTimer t) k1 = Some (RT_EOK, rt_object_detach (OTimer (ThreadTimer t))
      (rt_timer_remove (ThreadTimer t) k1))"
    and "rt_timer_detach (ThreadTimer t) (upd_thread t (\<lambda>x. x\<lparr>stat := RT_THREAD_CLOSE\<rparr>) k1) =
      Some (RT_EOK, closing t k g)"
    and "upd_thread t (\<lambda>x. x\<lparr>stat := RT_THREAD_CLOSE\<rparr>) (rt_object_detach (OTimer (ThreadTimer t))
      (rt_timer_remove (ThreadTimer t) k1)) = closing t k g"
  using thread_okD(2,3) [OF assms(1)]
  by (simp_all add: assms(2) rt_timer_detach_def rt_object_get_type_def rt_object_is_systemobject_def
      closing_def unqueued_def kdefs rt_object_detach_eq rt_timer_remove_def)

text \<open>
  C26. \<^verbatim>\<open>rt_thread_delete\<close> of a live dynamic thread, wherever it waits: it returns, the thread
  is closed, heads the list of threads the idle thread disposes of and hangs in no other
  list, its timer is no longer pending, and the invariant is kept, so that no later
  scheduling picks it and no timeout fires for it.
\<close>

theorem rt_thread_delete_closes:
  assumes k: "kinv k" and t: "live k t" and dyn: "\<not> rt_object_is_systemobject (OThread t) k"
  shows "\<exists>k'. rt_thread_delete t k = Some (RT_EOK, k') \<and> kinv k' \<and>
    tstat k' t = RT_THREAD_CLOSE \<and> tlists k' Defunct = t # tlists k Defunct \<and>
    (\<forall>h. h \<noteq> Defunct \<longrightarrow> t \<notin> set (tlists k' h)) \<and> ThreadTimer t \<notin> set (rt_timer_list k') \<and>
    (\<forall>u. u \<noteq> t \<longrightarrow> threads k' u = threads k u)"
proof -
  note ok = live_thread_ok [OF k t]
  have ni: "tstat k t \<noteq> RT_THREAD_INIT" using t by (auto simp: live_def)
  obtain g where g: "rt_schedule_remove_thread t k =
      Some (k\<lparr>tlists := list_remove t (tlists k), rt_thread_ready_priority_group := g\<rparr>)"
    "kinv (closing t k g)"
    using kinv_closing [OF k t] by blast
  let ?k = "upd_tlists (list_insert_after Defunct t) (closing t k g)"
  have "kinv ?k"
    by (rule kinv_defunct [OF g(2) _ closing_unlisted [OF k]]) simp
  moreover have "t \<notin> set (tlists k Defunct)"
    using sched_invD(2) [OF kinvD(1) [OF k], of t Defunct] t by (auto simp: live_def)
  then have "tlists ?k Defunct = t # tlists k Defunct"
    by (simp add: upd_tlists_def list_insert_after_def list_remove_def)
  moreover have "t \<notin> set (tlists ?k h)" if "h \<noteq> Defunct" for h
    using that by (simp add: upd_tlists_def list_insert_after_def
        set_list_remove [OF sched_invD(7) [OF kinvD(1) [OF k]]])
  moreover have "ThreadTimer t \<notin> set (rt_timer_list ?k)"
    using timer_invD(1) [OF kinvD(2) [OF k]]
    by (simp add: upd_tlists_def closing_def rt_object_detach_eq rt_timer_remove_def)
  moreover have "rt_thread_delete t k = Some (RT_EOK, ?k)"
    using dyn thread_okD(1) [OF ok] ni g(1) timer_detach_closing(1,3) [OF ok refl, of g]
    by (simp add: rt_thread_delete_def)
  ultimately show ?thesis
    by (intro exI [of _ ?k]) (simp add: upd_tlists_def)
qed

text \<open>A dynamic variant of the example: thread 3, which sleeps, was created on the heap.\<close>

definition example_dynamic :: kernel where
  "example_dynamic = example_kernel\<lparr>
     objs := (example_objs)(OThread 3 := (example_objs (OThread 3))\<lparr>otype := RT_Object_Class_Thread\<rparr>),
     object_list := object_list example_kernel\<rparr>"

lemma kinv_example_dynamic: "kinv example_dynamic"
  unfolding example_dynamic_def
proof (rule kinv_objs [OF kinv_example], goal_cases)
  case (1 t)
  then show ?case
    by (auto simp: live_def example_objs_def split: if_splits)
qed simp

theorem rt_thread_delete_closes_witness:
  "\<exists>k'. rt_thread_delete 3 example_dynamic = Some (RT_EOK, k') \<and> tlists k' Defunct = [3] \<and>
     rt_timer_list k' = []"
proof -
  have "live example_dynamic 3" by (simp add: live_def example_dynamic_def)
  moreover have "\<not> rt_object_is_systemobject (OThread 3) example_dynamic"
    by (simp add: rt_object_is_systemobject_def example_dynamic_def)
  ultimately obtain k' where "rt_thread_delete 3 example_dynamic = Some (RT_EOK, k')"
      "tlists k' Defunct = 3 # tlists example_dynamic Defunct"
    using rt_thread_delete_closes [OF kinv_example_dynamic, of 3] by blast
  moreover from this have "rt_timer_list k' = []"
    by (auto simp: rt_thread_delete_def bind_eq_Some_conv rt_timer_detach_def Let_def
        rt_schedule_remove_thread_def kdefs rt_timer_remove_def rt_object_detach_eq example_dynamic_def
        split: if_splits)
  ultimately show ?thesis by (simp add: example_dynamic_def)
qed

lemma rt_thread_detach_eq:
  assumes k: "kinv k" and t: "live k t" and st: "rt_object_is_systemobject (OThread t) k"
  obtains g where "rt_thread_detach t k = Some (RT_EOK, if cleanup (threads k t) \<noteq> 0
      then upd_tlists (list_insert_after Defunct t) (rt_object_detach (OThread t) (closing t k g))
      else rt_object_detach (OThread t) (closing t k g))"
    and "kinv (rt_object_detach (OThread t) (closing t k g))"
    and "kinv (upd_tlists (list_insert_after Defunct t) (rt_object_detach (OThread t) (closing t k g)))"
proof -
  note ok = live_thread_ok [OF k t]
  have ni: "tstat k t \<noteq> RT_THREAD_INIT" using t by (auto simp: live_def)
  obtain g where g: "rt_schedule_remove_thread t k =
      Some (k\<lparr>tlists := list_remove t (tlists k), rt_thread_ready_priority_group := g\<rparr>)"
    "kinv (closing t k g)"
    using kinv_closing [OF k t] by blast
  let ?k = "rt_object_detach (OThread t) (closing t k g)"
  have k1: "kinv ?k" by (rule kinv_thread_detached [OF g(2)]) simp
  have sel: "tstat ?k t = RT_THREAD_CLOSE" "\<not> listed (tlists ?k) t"
    "cleanup (threads ?k t) = cleanup (threads k t)"
    using closing_unlisted [OF k] by (simp_all add: rt_object_detach_eq)
  have "rt_thread_detach t k = Some (RT_EOK, if cleanup (threads k t) \<noteq> 0
      then upd_tlists (list_insert_after Defunct t) ?k else ?k)"
    using st thread_okD(1) [OF ok] ni g(1) timer_detach_closing(1,3) [OF ok refl, of g] sel(3)
    by (simp add: rt_thread_detach_def)
  then show ?thesis using k1 kinv_defunct [OF k1 sel(1,2)] by (rule that)
qed

lemma rt_thread_detach_spec:
  assumes k: "kinv k" and t: "live k t" and st: "rt_object_is_systemobject (OThread t) k"
  shows "returns (rt_thread_detach t k) (\<lambda>(r, k'). r = RT_EOK \<and> kinv k' \<and>
    tstat k' t = RT_THREAD_CLOSE \<and> otype (objs k' (OThread t)) = 0 \<and>
    (cleanup (threads k t) = 0 \<longrightarrow> \<not> listed (tlists k') t))"
proof -
  obtain g where "rt_thread_detach t k = Some (RT_EOK, if cleanup (threads k t) \<noteq> 0
      then upd_tlists (list_insert_after Defunct t) (rt_object_detach (OThread t) (closing t k g))
      else rt_object_detach (OThread t) (closing t k g))"
    "kinv (rt_object_detach (OThread t) (closing t k g))"
    "kinv (upd_tlists (list_insert_after Defunct t) (rt_object_detach (OThread t) (closing t k g)))"
    using rt_thread_detach_eq [OF assms] .
  then show ?thesis using closing_unlisted [OF k] by (simp add: rt_object_detach_eq upd_tlists_def)
qed

lemma rt_thread_exit_spec:
  assumes k: "kinv k" and t: "rt_current_thread k = Some t" "live k t"
  shows "returns (rt_thread_exit k) (\<lambda>k'. kinv k' \<and> tstat k' t = RT_THREAD_CLOSE \<and>
    rt_current_thread k' \<noteq> None)"
proof -
  note ok = live_thread_ok [OF k t(2)]
  obtain g where g: "rt_schedule_remove_thread t k =
      Some (k\<lparr>tlists := list_remove t (tlists k), rt_thread_ready_priority_group := g\<rparr>)"
    "kinv (closing t k g)"
    using kinv_closing [OF k t(2)] by blast
  let ?k = "if rt_object_is_systemobject (OThread t) (closing t k g) \<and>
      cleanup (threads (closing t k g) t) = 0
    then rt_object_detach (OThread t) (closing t k g)
    else upd_tlists (list_insert_after Defunct t) (closing t k g)"
  have "kinv ?k"
    using kinv_thread_detached [OF g(2), of t] kinv_defunct [OF g(2) _ closing_unlisted [OF k]]
    by simp
  moreover have cur: "rt_current_thread ?k = Some t" and st: "tstat ?k t = RT_THREAD_CLOSE"
    using t(1) by (simp_all add: rt_object_detach_eq upd_tlists_def)
  ultimately obtain k' where k': "rt_schedule ?k = Some k'" "kinv k'" "sched_frame ?k k'"
      "rt_current_thread k' \<noteq> None"
    using rt_schedule_spec by (blast elim: returnsE)
  have "stat (threads k' t) = stat (threads ?k t)"
    by (rule sched_frameD(17) [OF k'(3)]) (use st in \<open>simp add: runnable_def\<close>)
  then have "tstat k' t = RT_THREAD_CLOSE" using st by simp
  moreover have "rt_thread_exit k = rt_schedule ?k"
    using t(1) g(1) timer_detach_closing(2) [OF ok refl, of g]
    by (simp add: rt_thread_exit_def rt_thread_self_def Let_def)
  ultimately show ?thesis using k' by simp
qed

section \<open>Changing priorities\<close>

lemma mask_ok_set_priority: "unat pr < RT_THREAD_PRIORITY_MAX \<Longrightarrow> mask_ok (set_priority pr x)"
  by (simp add: mask_ok_def set_priority_def)

lemma set_priority_sel [simp]:
  "stat (set_priority pr x) = stat x" "current_priority (set_priority pr x) = pr"
  "sp (set_priority pr x) = sp x" "stack_addr (set_priority pr x) = stack_addr x"
  "stack_size (set_priority pr x) = stack_size x"
  by (simp_all add: set_priority_def)

text \<open>A thread in no ready list may be given any priority below the maximum.\<close>

lemma kinv_set_priority:
  assumes k: "kinv k" and t: "tstat k t \<noteq> RT_THREAD_READY" and pr: "unat pr < RT_THREAD_PRIORITY_MAX"
  shows "kinv (upd_thread t (set_priority pr) k)"
proof -
  let ?k = "upd_thread t (set_priority pr) k"
  have th: "stat (threads ?k u) = stat (threads k u)" for u by (simp add: kdefs)
  have pu: "u \<noteq> t \<Longrightarrow> threads ?k u = threads k u" for u by (simp add: kdefs)
  have sel: "tlists ?k = tlists k" "rt_current_thread ?k = rt_current_thread k" by (simp_all add: kdefs)
  have live: "live ?k u = live k u" for u unfolding live_def th ..
  have nr: "t \<notin> set (tlists k (ReadyList p))" for p
    using sched_invD(2) [OF kinvD(1) [OF k], of t "ReadyList p"] t by auto
  have "rq_inv ?k"
    using sched_invD(1) [OF kinvD(1) [OF k]] nr unfolding rq_inv_def by (auto simp: kdefs)
  moreover have "thread_ok ?k u" if "live k u" for u
    using live_thread_ok [OF k that] mask_ok_set_priority [OF pr]
    by (cases "u = t") (simp_all add: thread_ok_def kdefs stack_overflow_def rt_object_get_type_def
        rt_object_is_systemobject_def)
  moreover have "u \<in> set (tlists k (ReadyList (tprio ?k u)))" if "tstat k u = RT_THREAD_READY" for u
    using sched_invD(3) [OF kinvD(1) [OF k] that] pu [of u] t that by metis
  ultimately have "sched_inv ?k"
    using sched_invD(2,4,5) [OF kinvD(1) [OF k]] unfolding sched_inv_def th live sel by blast
  moreover have "timer_inv ?k"
    using timer_invD(5,6) [OF kinvD(2) [OF k]] th live
    by (intro timer_inv_cong [OF kinvD(2) [OF k]]) (simp_all add: kdefs)
  ultimately show ?thesis by (simp add: kinv_def)
qed

lemma set_stat_READY_SUSPEND [simp]: "set_stat 1 (set_stat 2 x) = set_stat 1 x"
proof -
  have "(2 OR (y AND NOT 0x0f)) AND NOT 0x0f = y AND NOT 0x0f" for y :: u8
  proof -
    have "(2 OR (y AND NOT 0x0f)) AND NOT 0x0f = (2 AND NOT 0x0f) OR ((y AND NOT 0x0f) AND NOT 0x0f)"
      by (rule bit.conj_disj_distrib2)
    also have "(2 AND NOT 0x0f :: u8) = 0" by simp
    finally show ?thesis by (simp add: and.assoc)
  qed
  then show ?thesis by (simp add: set_stat_def)
qed

lemma set_stat_set_priority: "set_stat st (set_priority pr x) = set_priority pr (set_stat st x)"
  by (simp add: set_stat_def set_priority_def)

definition requeue_at :: "nat \<Rightarrow> u8 \<Rightarrow> kernel \<Rightarrow> u32 \<Rightarrow> kernel" where
  "requeue_at t pr k g = upd_thread t (set_priority pr)
     (unqueued t (stat (set_stat RT_THREAD_SUSPEND (threads k t))) k g)"

lemma change_priority_ready:
  assumes k: "kinv k" and t: "tstat k t = RT_THREAD_READY" and pr: "unat pr < RT_THREAD_PRIORITY_MAX"
  obtains g where "change_priority t pr k = rt_schedule_insert_thread t (requeue_at t pr k g)"
    and "kinv (requeue_at t pr k g)"
proof -
  let ?st = "stat (set_stat RT_THREAD_SUSPEND (threads k t))"
  have live: "live k t" using t by simp
  note ok = thread_okD [OF live_thread_ok [OF k live]]
  obtain g where g: "rt_schedule_remove_thread t k =
      Some (k\<lparr>tlists := list_remove t (tlists k), rt_thread_ready_priority_group := g\<rparr>)"
    "rq_inv (unqueued t ?st k g)"
    using remove_thread_unqueued [OF kinvD(1) [OF k] ok(4)] by blast
  have "sched_inv (unqueued t ?st k g)"
    by (rule sched_inv_unqueued [OF kinvD(1) [OF k] g(2)]) (use live in simp)
  moreover have "timer_inv (unqueued t ?st k g)"
    by (rule timer_inv_cong [OF kinvD(2) [OF k]])
       (use timer_invD(5,6) [OF kinvD(2) [OF k]] live in \<open>auto simp: live_def split: if_splits\<close>)
  ultimately have kr: "kinv (requeue_at t pr k g)"
    unfolding requeue_at_def by (intro kinv_set_priority [OF _ _ pr]) (simp_all add: kinv_def)
  have nc: "rt_current_thread k \<noteq> Some t" using sched_invD(4) [OF kinvD(1) [OF k] t] .
  have "change_priority t pr k = rt_schedule_insert_thread t (upd_thread t (set_priority pr)
      (k\<lparr>tlists := list_remove t (tlists k), rt_thread_ready_priority_group := g\<rparr>))"
    using t g(1) by (simp add: change_priority_def)
  also have "\<dots> = rt_schedule_insert_thread t (requeue_at t pr k g)"
  proof -
    have m: "mask_ok (set_priority pr (threads k t))"
      "mask_ok (set_priority pr (set_stat RT_THREAD_SUSPEND (threads k t)))"
      by (rule mask_ok_set_priority [OF pr])+
    have e: "set_stat 1 (set_priority pr (set_stat 2 x)) = set_stat 1 (set_priority pr x)" for x
      by (simp add: set_stat_set_priority)
    show ?thesis
      by (subst (1 2) insert_thread_eq) (use m nc e in \<open>simp_all add: requeue_at_def kdefs unqueued_def\<close>)
  qed
  finally show ?thesis using that kr by blast
qed

lemma change_priority_spec:
  assumes k: "kinv k" and t: "live k t" and pr: "unat pr < RT_THREAD_PRIORITY_MAX"
  shows "returns (change_priority t pr k) (\<lambda>k'. kinv k' \<and>
    current_priority (threads k' t) = pr \<and> tstat k' t = tstat k t \<and>
    (\<forall>u. u \<noteq> t \<longrightarrow> threads k' u = threads k u) \<and>
    threads k' t = (threads k t)\<lparr>stat := stat (threads k' t), current_priority := pr,
      number_mask := number_mask (threads k' t)\<rparr> \<and>
    (\<forall>h. (\<nexists>p. h = ReadyList p) \<longrightarrow> tlists k' h = tlists k h) \<and>
    (tstat k t = RT_THREAD_READY \<longrightarrow> (\<exists>xs. tlists k' (ReadyList (unat pr)) = xs @ [t])) \<and>
    rt_current_thread k' = rt_current_thread k \<and> mutexes k' = mutexes k \<and> objs k' = objs k \<and>
    timers k' = timers k \<and> rt_timer_list k' = rt_timer_list k \<and> rt_tick k' = rt_tick k \<and>
    rt_scheduler_lock_nest k' = rt_scheduler_lock_nest k \<and>
    rt_interrupt_nest k' = rt_interrupt_nest k)"
proof (cases "tstat k t = RT_THREAD_READY")
  case True
  obtain g where g: "change_priority t pr k = rt_schedule_insert_thread t (requeue_at t pr k g)"
      "kinv (requeue_at t pr k g)"
    using change_priority_ready [OF k True pr] by blast
  let ?k = "requeue_at t pr k g"
  have st: "tstat ?k t = RT_THREAD_SUSPEND" by (simp add: requeue_at_def kdefs)
  then have ok: "thread_ok ?k t" using live_thread_ok [OF g(2)] by simp
  have nc: "rt_current_thread ?k \<noteq> Some t"
    using sched_invD(4) [OF kinvD(1) [OF k] True] by (simp add: requeue_at_def kdefs)
  have ul: "\<not> listed (tlists ?k) t"
    using not_listed_remove [OF sched_invD(7) [OF kinvD(1) [OF k]]] by (simp add: requeue_at_def kdefs)
  from sched_inv_insert [OF kinvD(1) [OF g(2)] ok ul] nc obtain k' where
    k': "rt_schedule_insert_thread t ?k = Some k'" "sched_inv k'" "tstat k' t = RT_THREAD_READY"
    by (auto elim!: returnsE)
  note fr = insert_thread_frame [OF k'(1)]
  have "ThreadTimer t \<notin> set (rt_timer_list k)"
    using timer_invD(5) [OF kinvD(2) [OF k], of t] True by auto
  then have nt: "ThreadTimer t \<notin> set (rt_timer_list ?k)" by (simp add: requeue_at_def kdefs)
  have "timer_inv k'"
    by (rule timer_inv_woken [OF kinvD(2) [OF g(2)] nt]) (use fr st in auto)
  then have "kinv k'" using k'(2) by (simp add: kinv_def)
  moreover have "current_priority (threads k' t) = pr"
    by (subst fr(2)) (simp add: requeue_at_def kdefs)
  moreover have "number_mask (threads k' t) = 2 ^ unat pr"
    by (subst fr(2)) (simp add: requeue_at_def kdefs set_priority_def)
  then have "threads k' t = (threads k t)\<lparr>stat := stat (threads k' t), current_priority := pr,
      number_mask := number_mask (threads k' t)\<rparr>"
    by (subst fr(2)) (simp add: requeue_at_def kdefs set_priority_def set_stat_def)
  moreover have "\<exists>xs. tlists k' (ReadyList (unat pr)) = xs @ [t]"
    using k'(1) insert_thread_eq [OF thread_okD(4) [OF ok] nc]
    by (auto simp: list_insert_before_def requeue_at_def kdefs)
  moreover have "t \<notin> set (tlists k h)" if "\<nexists>p. h = ReadyList p" for h
    using sched_invD(2) [OF kinvD(1) [OF k], of t h] True that by (cases h) auto
  then have "\<forall>h. (\<nexists>p. h = ReadyList p) \<longrightarrow> tlists k' h = tlists k h"
    using fr(4) by (auto simp: requeue_at_def kdefs list_remove_def)
  ultimately show ?thesis
    using g(1) k' fr True by (auto simp: requeue_at_def kdefs)
next
  case False
  then show ?thesis
    using kinv_set_priority [OF k False pr]
    by (auto simp: change_priority_def kdefs set_priority_def)
qed

end
