(* ===== verification/Clock.thy ===== *)
theory Clock
  imports Kthread "HOL-Library.Signed_Division"
begin

text \<open>
  The system tick: \<^verbatim>\<open>src/clock.c\<close>, the interrupt nesting counter of \<^verbatim>\<open>src/irq.c\<close>, and the
  expiry of timers by \<^verbatim>\<open>rt_timer_check\<close> of \<^verbatim>\<open>src/timer.c\<close>. The timeout functions of the
  application are a parameter \<open>cb\<close>; \<open>cb_ok\<close> names what the tick relies on. The loop of
  \<^verbatim>\<open>rt_timer_check\<close> is a partial function, and that it ends is part of what is proved.
\<close>

section \<open>Operations\<close>

definition rt_interrupt_enter :: "kernel \<Rightarrow> kernel" where
  "rt_interrupt_enter k = k\<lparr>rt_interrupt_nest := rt_interrupt_nest k + 1\<rparr>"

definition rt_interrupt_leave :: "kernel \<Rightarrow> kernel" where
  "rt_interrupt_leave k = k\<lparr>rt_interrupt_nest := rt_interrupt_nest k - 1\<rparr>"

definition rt_tick_get :: "kernel \<Rightarrow> u32" where
  "rt_tick_get k = rt_tick k"

definition rt_tick_set :: "u32 \<Rightarrow> kernel \<Rightarrow> kernel" where
  "rt_tick_set tick k = k\<lparr>rt_tick := tick\<rparr>"

type_synonym callback = "nat \<Rightarrow> u32 \<Rightarrow> kernel \<Rightarrow> kernel option"

definition call_timeout_func :: "callback \<Rightarrow> timeout_func \<Rightarrow> kernel \<Rightarrow> kernel option" where
  "call_timeout_func cb f k =
     (case f of Rt_thread_timeout t \<Rightarrow> rt_thread_timeout t k | User_timeout n p \<Rightarrow> cb n p k)"

definition clear_activated :: "rt_timer_t \<Rightarrow> kernel \<Rightarrow> kernel" where
  "clear_activated t k =
     upd_obj (OTimer t) (\<lambda>ob. ob\<lparr>flag := flag ob AND NOT RT_TIMER_FLAG_ACTIVATED\<rparr>) k"

definition timer_fire :: "callback \<Rightarrow> rt_timer_t \<Rightarrow> kernel \<Rightarrow> kernel option" where
  "timer_fire cb t k = do {
     let k = rt_timer_remove t k;
     k \<leftarrow> call_timeout_func cb (timeout_func (timers k t)) k;
     if flag (objs k (OTimer t)) AND RT_TIMER_FLAG_PERIODIC \<noteq> 0 \<and>
        flag (objs k (OTimer t)) AND RT_TIMER_FLAG_ACTIVATED \<noteq> 0
     then do {
       (_, k) \<leftarrow> rt_timer_start t (clear_activated t k);
       Some k
     } else Some (clear_activated t k)
   }"

partial_function (option) timer_check_loop :: "callback \<Rightarrow> u32 \<Rightarrow> kernel \<Rightarrow> kernel option" where
  "timer_check_loop cb current_tick k =
     (case rt_timer_list k of
        [] \<Rightarrow> Some k
      | t # _ \<Rightarrow>
          if current_tick - timeout_tick (timers k t) < RT_TICK_HALF then
            Option.bind (timer_fire cb t k) (\<lambda>k. timer_check_loop cb (rt_tick_get k) k)
          else Some k)"

definition rt_timer_check :: "callback \<Rightarrow> kernel \<Rightarrow> kernel option" where
  "rt_timer_check cb k = timer_check_loop cb (rt_tick_get k) k"

definition rt_tick_increase :: "callback \<Rightarrow> kernel \<Rightarrow> kernel option" where
  "rt_tick_increase cb k = do {
     let k = k\<lparr>rt_tick := rt_tick k + 1\<rparr>;
     t \<leftarrow> rt_thread_self k;
     let k = upd_thread t (\<lambda>x. x\<lparr>remaining_tick := remaining_tick x - 1\<rparr>) k;
     k \<leftarrow> (if remaining_tick (threads k t) = 0 then do {
              let k = upd_thread t (\<lambda>x. x\<lparr>remaining_tick := init_tick x\<rparr>) k;
              (_, k) \<leftarrow> rt_thread_yield k;
              Some k
            } else Some k);
     rt_timer_check cb k
   }"

text \<open>
  \<^verbatim>\<open>rt_tick_from_millisecond\<close> computes in \<^verbatim>\<open>int\<close>; the model keeps the multiplication at its
  32-bit width, signed, with \<^verbatim>\<open>RT_TICK_PER_SECOND\<close> 100.
\<close>

definition wrap32 :: "int \<Rightarrow> int" where
  "wrap32 x = sint (of_int x :: u32)"

definition rt_tick_from_millisecond :: "int \<Rightarrow> int" where
  "rt_tick_from_millisecond ms =
     (if ms < 0 then - 1 else wrap32 (wrap32 (100 * ms) + 999) sdiv 1000)"

definition rt_thread_mdelay :: "int \<Rightarrow> kernel \<Rightarrow> (outcome \<times> kernel) option" where
  "rt_thread_mdelay ms k = rt_thread_sleep (of_int (rt_tick_from_millisecond ms)) k"

section \<open>Which timers are due\<close>

text \<open>
  The code calls a timer due when the current tick is less than half the range past its
  timeout. Under the timer invariant that means due at this tick or the one before.
\<close>

definition is_due :: "kernel \<Rightarrow> rt_timer_t \<Rightarrow> bool" where
  "is_due k t \<longleftrightarrow> rt_tick k - due k t < RT_TICK_HALF"

definition due_timers :: "kernel \<Rightarrow> rt_timer_t set" where
  "due_timers k = {t \<in> set (rt_timer_list k). is_due k t}"

lemma small_word_cases:
  fixes d :: u32
  assumes "d \<le> RT_TICK_HALF"
  shows "1 - d < RT_TICK_HALF \<longleftrightarrow> d = 0 \<or> d = 1"
proof (cases "d = 0 \<or> d = 1")
  case False
  then have u: "1 < unat d"
    by (metis One_nat_def less_one linorder_neqE_nat unat_1 unat_eq_0 word_unat_eq_iff)
  then have "unat (1 - d) = 2 ^ 32 + 1 - unat d"
    using unat_sub_if_size [of 1 d] by (simp add: word_size)
  with u assms show ?thesis
    using False by (simp add: word_less_nat_alt word_le_nat_alt)
qed auto

lemma above_1:
  fixes d e :: u32
  assumes "d \<le> e" and "d \<noteq> 0" and "d \<noteq> 1"
  shows "e \<noteq> 0 \<and> e \<noteq> 1"
proof -
  have "unat d \<noteq> 0" "unat d \<noteq> 1"
    using assms(2,3) by (metis unat_eq_0, metis unat_1 word_unat_eq_iff)
  then have "1 < unat e" using assms(1) unfolding word_le_nat_alt by linarith
  then show ?thesis by auto
qed

lemma is_due_iff:
  assumes "timer_inv k" and "t \<in> set (rt_timer_list k)"
  shows "is_due k t \<longleftrightarrow> due k t = rt_tick k - 1 \<or> due k t = rt_tick k"
proof -
  let ?d = "due k t - (rt_tick k - 1)"
  have e: "rt_tick k - due k t = 1 - ?d" by simp
  have "?d \<le> RT_TICK_HALF"
    using timer_invD(2) [OF assms(1)] assms(2) by (auto simp: due_order_def)
  from small_word_cases [OF this] have "is_due k t \<longleftrightarrow> ?d = 0 \<or> ?d = 1"
    unfolding is_due_def e .
  moreover have "?d = 0 \<longleftrightarrow> due k t = rt_tick k - 1" by (metis eq_iff_diff_eq_0)
  moreover have "?d = 1 \<longleftrightarrow> due k t = rt_tick k" by (metis add.commute diff_add_cancel diff_eq_eq)
  ultimately show ?thesis by simp
qed

lemma none_due:
  assumes k: "timer_inv k" and "rt_timer_list k = t # ts" and "\<not> is_due k t"
  shows "due_timers k = {}"
proof -
  let ?d = "\<lambda>u. due k u - (rt_tick k - 1)"
  have e: "rt_tick k - due k u = 1 - ?d u" for u by simp
  have du: "is_due k u \<longleftrightarrow> ?d u = 0 \<or> ?d u = 1" if "u \<in> set (rt_timer_list k)" for u
    using small_word_cases [of "?d u"] timer_invD(2) [OF k] that
    unfolding is_due_def e by (auto simp: due_order_def)
  have "?d t \<le> ?d u" if "u \<in> set ts" for u
    using timer_invD(2) [OF k] assms(2) that by (auto simp: due_order_def)
  moreover have "?d t \<noteq> 0" "?d t \<noteq> 1" using du [of t] assms(2,3) by auto
  ultimately have "?d u \<noteq> 0 \<and> ?d u \<noteq> 1" if "u \<in> set ts" for u
    using that above_1 by blast
  with du assms(2,3) show ?thesis by (auto simp: due_timers_def)
qed

section \<open>Expiry\<close>

text \<open>
  What the expiry relies on: pending periodic timers have a nonzero period below half the
  range (with a zero period the loop of \<^verbatim>\<open>rt_timer_check\<close> never ends), and a timer of the
  application runs a function of the application. \<open>cb_ok\<close> is the contract of those
  functions: they return, keep the invariants, do not set the tick, start no timer that is
  due already, leave the timer that fired alone, take a due timeout of a thread back only by
  waking the thread, and neither suspend a thread that can run nor change a thread's error
  number.
\<close>

definition timers_sane :: "kernel \<Rightarrow> bool" where
  "timers_sane k \<longleftrightarrow> (\<forall>t \<in> set (rt_timer_list k).
     (flag (objs k (OTimer t)) AND RT_TIMER_FLAG_PERIODIC \<noteq> 0 \<longrightarrow>
        timer_init_tick (timers k t) \<noteq> 0 \<and> timer_init_tick (timers k t) < RT_TICK_HALF) \<and>
     (\<forall>n. t = Timer n \<longrightarrow> (\<exists>i p. timeout_func (timers k t) = User_timeout i p)))"

definition tick_ready :: "kernel \<Rightarrow> bool" where
  "tick_ready k \<longleftrightarrow> kinv k \<and> timers_sane k \<and> rt_current_thread k \<noteq> None"

definition cb_ok :: "callback \<Rightarrow> bool" where
  "cb_ok cb \<longleftrightarrow> (\<forall>t n p k. tick_ready k \<and> t \<notin> set (rt_timer_list k) \<and>
     timeout_func (timers k t) = User_timeout n p \<longrightarrow>
     returns (cb n p k) (\<lambda>k'. tick_ready k' \<and> rt_tick k' = rt_tick k \<and>
       due_timers k' \<subseteq> due_timers k \<and> t \<notin> set (rt_timer_list k') \<and>
       objs k' (OTimer t) = objs k (OTimer t) \<and> timers k' t = timers k t \<and>
       (\<forall>u. runnable k u \<or> ThreadTimer u \<in> due_timers k - due_timers k' \<longrightarrow> runnable k' u) \<and>
       (\<forall>u. error (threads k' u) = error (threads k u))))"

text \<open>One turn of the loop: what holds between the state before and after a timer fired.\<close>

definition fired :: "rt_timer_t \<Rightarrow> kernel \<Rightarrow> kernel \<Rightarrow> bool" where
  "fired t k k' \<longleftrightarrow> tick_ready k' \<and> rt_tick k' = rt_tick k \<and>
     due_timers k' \<subseteq> due_timers k - {t} \<and>
     (\<forall>u. runnable k u \<or> ThreadTimer u \<in> due_timers k - due_timers k' \<longrightarrow> runnable k' u) \<and>
     (\<forall>i. t = ThreadTimer i \<longrightarrow> error (threads k' i) = - RT_ETIMEOUT) \<and>
     (\<forall>u. t \<noteq> ThreadTimer u \<longrightarrow> error (threads k' u) = error (threads k u))"

lemma timer_remove_sel [simp]:
  "rt_timer_list (rt_timer_remove t k) = remove1 t (rt_timer_list k)"
  "timers (rt_timer_remove t k) = timers k" "objs (rt_timer_remove t k) = objs k"
  "threads (rt_timer_remove t k) = threads k" "rt_tick (rt_timer_remove t k) = rt_tick k"
  "rt_current_thread (rt_timer_remove t k) = rt_current_thread k"
  by (simp_all add: rt_timer_remove_def)

lemma clear_activated_sel [simp]:
  "rt_timer_list (clear_activated t k) = rt_timer_list k" "timers (clear_activated t k) = timers k"
  "threads (clear_activated t k) = threads k" "rt_tick (clear_activated t k) = rt_tick k"
  "rt_current_thread (clear_activated t k) = rt_current_thread k"
  "u \<noteq> t \<Longrightarrow> objs (clear_activated t k) (OTimer u) = objs k (OTimer u)"
  by (simp_all add: clear_activated_def kdefs)

lemma tick_readyD:
  assumes "tick_ready k"
  shows "kinv k" "timers_sane k" "rt_current_thread k \<noteq> None"
  using assms by (simp_all add: tick_ready_def)

lemma tick_ready_remove:
  assumes "tick_ready k"
  shows "tick_ready (rt_timer_remove t k)"
  using kinv_timer_remove [OF tick_readyD(1) [OF assms], of t] tick_readyD(2,3) [OF assms]
    set_remove1_subset [of t "rt_timer_list k"]
  by (auto simp: tick_ready_def timers_sane_def)

lemma tick_ready_clear:
  assumes k: "tick_ready k" and t: "t \<notin> set (rt_timer_list k)"
  shows "tick_ready (clear_activated t k)"
proof -
  have fr: "timer_frame k (clear_activated t k)" by (simp add: timer_frame_def clear_activated_def kdefs)
  note ti = kinvD(2) [OF tick_readyD(1) [OF k]]
  have "timer_inv (clear_activated t k)"
    by (rule timer_inv_change [OF ti fr, of t])
       (use t timer_invD [OF ti] in \<open>auto simp: clear_activated_def kdefs flag_bits\<close>)
  then have "kinv (clear_activated t k)"
    by (rule kinv_timer_frame [OF tick_readyD(1) [OF k] fr])
  moreover have "timers_sane (clear_activated t k)"
    using tick_readyD(2) [OF k] t unfolding timers_sane_def by (metis clear_activated_sel(1,2,6))
  ultimately show ?thesis using k by (simp add: tick_ready_def)
qed

lemma due_timers_sub:
  assumes "set (rt_timer_list k') \<subseteq> set (rt_timer_list k)" "rt_tick k' = rt_tick k"
    "\<And>t. t \<in> set (rt_timer_list k') \<Longrightarrow> due k' t = due k t"
  shows "due_timers k' \<subseteq> due_timers k"
  using assms by (auto simp: due_timers_def is_due_def)

lemma fire_thread:
  assumes k: "tick_ready k" and t: "ThreadTimer i \<in> set (rt_timer_list k)"
  shows "returns (timer_fire cb (ThreadTimer i) k) (fired (ThreadTimer i) k)"
proof -
  let ?t = "ThreadTimer i" and ?k1 = "rt_timer_remove (ThreadTimer i) k"
  note kk = tick_readyD [OF k]
  note ti = kinvD(2) [OF kk(1)]
  have st: "tstat k i = RT_THREAD_SUSPEND" using timer_invD(5) [OF ti t] .
  have tok: "thread_timer_ok k i" using timer_invD(6) [OF ti] st by simp
  have k1: "tick_ready ?k1" by (rule tick_ready_remove [OF k])
  have out: "?t \<notin> set (rt_timer_list ?k1)" using timer_invD(1) [OF ti] by simp
  obtain c where c: "rt_current_thread ?k1 = Some c" using tick_readyD(3) [OF k1] by blast
  have "tstat ?k1 i = RT_THREAD_SUSPEND" using st by simp
  from rt_thread_timeout_spec [OF tick_readyD(1) [OF k1] c this out] obtain k2 where
    k2: "rt_thread_timeout i ?k1 = Some k2" "kinv k2" "runnable k2 i"
      "error (threads k2 i) = - RT_ETIMEOUT" "rt_timer_list k2 = rt_timer_list ?k1"
      "timers k2 = timers ?k1" "objs k2 = objs ?k1" "rt_tick k2 = rt_tick ?k1"
      "rt_current_thread k2 \<noteq> None"
      "\<forall>u. u \<noteq> i \<longrightarrow> error (threads k2 u) = error (threads ?k1 u)"
      "\<forall>u. u \<noteq> i \<longrightarrow> runnable k2 u = runnable ?k1 u"
    unfolding returns_def by blast
  have r2: "tick_ready k2"
    using k2(2,9) tick_readyD(2) [OF k1] k2(5-7) by (simp add: tick_ready_def timers_sane_def)
  have "?t \<notin> set (rt_timer_list k2)" using out k2(5) by simp
  from tick_ready_clear [OF r2 this] have r3: "tick_ready (clear_activated ?t k2)" .
  have "timer_fire cb ?t k = Some (clear_activated ?t k2)"
    using tok k2(1,7)
    by (simp add: timer_fire_def call_timeout_func_def thread_timer_ok_def Let_def)
  moreover have "due_timers (clear_activated ?t k2) \<subseteq> due_timers k - {?t}"
    using timer_invD(1) [OF ti] k2(5,6,8) by (auto simp: due_timers_def is_due_def)
  moreover have "runnable ?k1 u = runnable k u" for u by (simp add: runnable_def)
  then have "runnable k u \<longrightarrow> runnable k2 u" for u
    using k2(3,11) by (cases "u = i") auto
  moreover have "ThreadTimer u \<in> due_timers (clear_activated ?t k2)"
    if "ThreadTimer u \<in> due_timers k" "u \<noteq> i" for u
    using that k2(5,6,8) by (auto simp: due_timers_def is_due_def in_set_remove1)
  moreover have "runnable (clear_activated ?t k2) u = runnable k2 u" for u by (simp add: runnable_def)
  ultimately show ?thesis
    using r3 k2(3,4,8,10) by (fastforce simp: fired_def)
qed

lemma started_clear: "started t (clear_activated t k) = started t k"
  by (simp add: started_def clear_activated_def kdefs and.assoc)

lemma minus_not_due:
  fixes d :: u32
  assumes "d \<noteq> 0" and "d < RT_TICK_HALF"
  shows "\<not> - d < RT_TICK_HALF"
proof -
  have "unat (0 - d) = 2 ^ 32 - unat d"
    using assms(1) unat_sub_if_size [of 0 d] by (simp add: word_size unat_eq_0 unat_gt_0)
  then show ?thesis using assms(2) by (simp add: word_less_nat_alt)
qed

lemma fire_user:
  assumes k: "tick_ready k" and t: "Timer n \<in> set (rt_timer_list k)" and cb: "cb_ok cb"
  shows "returns (timer_fire cb (Timer n) k) (fired (Timer n) k)"
proof -
  let ?t = "Timer n" and ?k1 = "rt_timer_remove (Timer n) k"
  note kk = tick_readyD [OF k]
  note ti = kinvD(2) [OF kk(1)]
  obtain f p where f: "timeout_func (timers k ?t) = User_timeout f p"
    using kk(2) t unfolding timers_sane_def by blast
  have k1: "tick_ready ?k1" by (rule tick_ready_remove [OF k])
  have out: "?t \<notin> set (rt_timer_list ?k1)" using timer_invD(1) [OF ti] by simp
  obtain k2 where k2: "cb f p ?k1 = Some k2" "tick_ready k2" "rt_tick k2 = rt_tick k"
      "due_timers k2 \<subseteq> due_timers ?k1" "?t \<notin> set (rt_timer_list k2)"
      "objs k2 (OTimer ?t) = objs k (OTimer ?t)" "timers k2 ?t = timers k ?t"
      "\<forall>u. runnable k u \<or> ThreadTimer u \<in> due_timers k - due_timers k2 \<longrightarrow> runnable k2 u"
      "\<forall>u. error (threads k2 u) = error (threads k u)"
  proof -
    have "runnable ?k1 u = runnable k u" "ThreadTimer u \<in> due_timers ?k1 \<longleftrightarrow> ThreadTimer u \<in> due_timers k" for u
      by (auto simp: runnable_def due_timers_def is_due_def in_set_remove1)
    then show ?thesis
      using that cb [unfolded cb_ok_def, rule_format, of ?k1 ?t f p] k1 out f
      unfolding returns_def by auto
  qed
  have sub: "due_timers k2 \<subseteq> due_timers k - {?t}"
    using k2(4) timer_invD(1) [OF ti] by (auto simp: due_timers_def is_due_def)
  let ?per = "flag (objs k2 (OTimer ?t)) AND RT_TIMER_FLAG_PERIODIC \<noteq> 0 \<and>
      flag (objs k2 (OTimer ?t)) AND RT_TIMER_FLAG_ACTIVATED \<noteq> 0"
  have fire: "timer_fire cb ?t k = (if ?per
      then Option.bind (rt_timer_start ?t (clear_activated ?t k2)) (\<lambda>(_, k). Some k)
      else Some (clear_activated ?t k2))"
    using f k2(1) by (simp add: timer_fire_def call_timeout_func_def Let_def)
  show ?thesis
  proof (cases ?per)
    case False
    have "due_timers (clear_activated ?t k2) = due_timers k2" by (auto simp: due_timers_def is_due_def)
    moreover have "timer_fire cb ?t k = Some (clear_activated ?t k2)"
      unfolding fire by (rule if_not_P [OF False])
    ultimately show ?thesis using sub tick_ready_clear [OF k2(2,5)] k2(3,8,9)
      by (simp add: fired_def runnable_def)
  next
    case True
    note ti2 = kinvD(2) [OF tick_readyD(1) [OF k2(2)]]
    have init: "timer_init_tick (timers k2 ?t) \<noteq> 0" "timer_init_tick (timers k2 ?t) < RT_TICK_HALF"
      using kk(2) t True k2(6,7) unfolding timers_sane_def by auto
    have ty: "rt_object_get_type (OTimer ?t) k2 = RT_Object_Class_Timer"
      using timer_invD(4) [OF ti t] k2(6) by (simp add: rt_object_get_type_def)
    let ?k3 = "started ?t k2"
    have "rt_timer_start ?t (clear_activated ?t k2) = Some (RT_EOK, ?k3)"
      using rt_timer_start_eq [of ?t "clear_activated ?t k2", unfolded started_clear] ty init(2)
      by (simp add: rt_object_get_type_def clear_activated_def kdefs)
    with True fire have fire': "timer_fire cb ?t k = Some ?k3" by simp
    have "kinv ?k3"
      by (rule kinv_timer_frame [OF tick_readyD(1) [OF k2(2)] started_frame
          timer_inv_started [OF ti2 ty init(2)]]) simp
    moreover have lst: "set (rt_timer_list ?k3) \<subseteq> insert ?t (set (rt_timer_list k2))"
      using set_remove1_subset by (fastforce simp: started_def)
    moreover have "timers_sane ?k3"
      using tick_readyD(2) [OF k2(2)] lst init k2(7) f by (auto simp: timers_sane_def started_def)
    moreover have "\<not> is_due ?k3 ?t"
    proof -
      have "rt_tick ?k3 - due ?k3 ?t = - timer_init_tick (timers k2 ?t)" by (simp add: started_def)
      moreover have "\<not> - timer_init_tick (timers k2 ?t) < RT_TICK_HALF"
        by (rule minus_not_due [OF init])
      ultimately show ?thesis by (simp add: is_due_def)
    qed
    then have "due_timers ?k3 \<subseteq> due_timers k2"
      using lst by (auto simp: due_timers_def is_due_def started_def split: if_splits)
    moreover have "ThreadTimer u \<in> due_timers ?k3" if "ThreadTimer u \<in> due_timers k2" for u
      using that by (auto simp: due_timers_def is_due_def started_def in_set_remove1)
    moreover have "runnable ?k3 u = runnable k2 u" "error (threads ?k3 u) = error (threads k2 u)"
      "rt_current_thread ?k3 = rt_current_thread k2" "rt_tick ?k3 = rt_tick k2" for u
      by (simp_all add: runnable_def started_def)
    ultimately show ?thesis
      using fire' sub k2(3,8,9) tick_readyD(3) [OF k2(2)]
      by (auto simp: fired_def tick_ready_def)
  qed
qed

lemma fire_spec:
  assumes "tick_ready k" and "t \<in> set (rt_timer_list k)" and "cb_ok cb"
  shows "returns (timer_fire cb t k) (fired t k)"
  using assms fire_thread fire_user by (cases t) auto

text \<open>The whole loop, by induction on the number of timers that are due.\<close>

lemma finite_due_timers [simp]: "finite (due_timers k)"
  by (simp add: due_timers_def)

lemma timer_check_loop_spec:
  assumes "tick_ready k" and "cb_ok cb"
  shows "\<exists>k'. timer_check_loop cb (rt_tick k) k = Some k' \<and> tick_ready k' \<and> rt_tick k' = rt_tick k \<and>
    due_timers k' = {} \<and> (\<forall>u. runnable k u \<longrightarrow> runnable k' u) \<and>
    (\<forall>i. ThreadTimer i \<in> due_timers k \<longrightarrow> runnable k' i) \<and>
    (\<forall>i. error (threads k' i) = error (threads k i) \<or>
       ThreadTimer i \<in> due_timers k \<and> error (threads k' i) = - RT_ETIMEOUT)"
  using assms(1)
proof (induction "card (due_timers k)" arbitrary: k rule: less_induct)
  case less
  note ti = kinvD(2) [OF tick_readyD(1) [OF less.prems]]
  show ?case
  proof (cases "rt_timer_list k")
    case Nil
    then show ?thesis
      using less.prems by (subst timer_check_loop.simps) (simp add: due_timers_def)
  next
    case (Cons t ts)
    show ?thesis
    proof (cases "is_due k t")
      case False
      then show ?thesis
        using Cons none_due [OF ti Cons False] less.prems
        by (subst timer_check_loop.simps) (simp add: is_due_def)
    next
      case True
      have t: "t \<in> set (rt_timer_list k)" using Cons by simp
      obtain k1 where k1: "timer_fire cb t k = Some k1" "fired t k k1"
        using fire_spec [OF less.prems t assms(2)] by (auto elim: returnsE)
      have td: "t \<in> due_timers k" using t True by (simp add: due_timers_def)
      have sub: "due_timers k1 \<subseteq> due_timers k - {t}" and r1: "tick_ready k1"
        and tick: "rt_tick k1 = rt_tick k"
        using k1(2) by (simp_all add: fired_def)
      have "card (due_timers k1) < card (due_timers k)"
        by (rule psubset_card_mono) (use sub td in auto)
      from less.hyps [OF this r1] obtain k2 where
        k2: "timer_check_loop cb (rt_tick k1) k1 = Some k2" "tick_ready k2" "rt_tick k2 = rt_tick k1"
          "due_timers k2 = {}" "\<forall>u. runnable k1 u \<longrightarrow> runnable k2 u"
          "\<forall>i. ThreadTimer i \<in> due_timers k1 \<longrightarrow> runnable k2 i"
          "\<forall>i. error (threads k2 i) = error (threads k1 i) \<or>
             ThreadTimer i \<in> due_timers k1 \<and> error (threads k2 i) = - RT_ETIMEOUT"
        by blast
      have "timer_check_loop cb (rt_tick k) k = Some k2"
        using Cons True k1(1) k2(1) tick
        by (subst timer_check_loop.simps) (simp add: is_due_def rt_tick_get_def)
      moreover have "runnable k2 i" if "ThreadTimer i \<in> due_timers k" for i
        using that k1(2) k2(5,6) unfolding fired_def by blast
      moreover have "error (threads k2 i) = error (threads k i) \<or>
          ThreadTimer i \<in> due_timers k \<and> error (threads k2 i) = - RT_ETIMEOUT" for i
        using k1(2) k2(7) td sub unfolding fired_def by (metis DiffD1 subsetD)
      ultimately show ?thesis
        using k2 k1(2) tick by (intro exI [of _ k2]) (auto simp: fired_def)
    qed
  qed
qed

section \<open>The tick\<close>

text \<open>
  Between two ticks no pending timer is due before the current tick: that is what the
  check leaves behind, and a timer started since is due at the current tick or later.
\<close>

definition timers_ahead :: "kernel \<Rightarrow> bool" where
  "timers_ahead k \<longleftrightarrow> (\<forall>t \<in> set (rt_timer_list k). due k t \<noteq> rt_tick k - 1)"

lemma due_order_next:
  assumes d: "due_order base f ts" and a: "\<forall>t \<in> set ts. f t \<noteq> base"
  shows "due_order (base + 1) f ts"
proof -
  have e: "unat (f t - (base + 1)) = unat (f t - base) - 1" if "t \<in> set ts" for t
    using unat_pred [of "f t" base] a that by simp
  have "sorted_wrt (\<lambda>a b. f a - (base + 1) \<le> f b - (base + 1)) ts"
    using d e unfolding due_order_def word_le_nat_alt
    by (auto elim!: sorted_wrt_mono_rel [rotated])
  moreover have "f t - (base + 1) \<le> RT_TICK_HALF" if "t \<in> set ts" for t
    using d e [OF that] that unfolding due_order_def word_le_nat_alt by fastforce
  ultimately show ?thesis by (simp add: due_order_def)
qed

lemma kinv_tick:
  assumes k: "kinv k" and a: "timers_ahead k"
  shows "kinv (k\<lparr>rt_tick := rt_tick k + 1\<rparr>)"
proof -
  let ?k = "k\<lparr>rt_tick := rt_tick k + 1\<rparr>"
  note ti = kinvD(2) [OF k]
  have "due_order (rt_tick k - 1 + 1) (due k) (rt_timer_list k)"
    by (rule due_order_next [OF timer_invD(2) [OF ti]]) (use a in \<open>simp add: timers_ahead_def\<close>)
  then have "timer_inv ?k"
    using ti unfolding timer_inv_def
    by (auto simp: live_def thread_timer_ok_def rt_object_get_type_def)
  moreover have "sched_inv ?k = sched_inv k" by (rule sched_inv_cong) simp_all
  ultimately show ?thesis using k by (simp add: kinv_def)
qed

text \<open>The state in which \<^verbatim>\<open>rt_tick_increase\<close> checks the timers.\<close>

definition tick_pre :: "kernel \<Rightarrow> kernel option" where
  "tick_pre k = do {
     let k = k\<lparr>rt_tick := rt_tick k + 1\<rparr>;
     t \<leftarrow> rt_thread_self k;
     let k = upd_thread t (\<lambda>x. x\<lparr>remaining_tick := remaining_tick x - 1\<rparr>) k;
     if remaining_tick (threads k t) = 0 then do {
       let k = upd_thread t (\<lambda>x. x\<lparr>remaining_tick := init_tick x\<rparr>) k;
       (_, k) \<leftarrow> rt_thread_yield k;
       Some k
     } else Some k
   }"

lemma rt_tick_increase_pre: "rt_tick_increase cb k = Option.bind (tick_pre k) (rt_timer_check cb)"
  by (simp add: rt_tick_increase_def tick_pre_def Let_def split: Option.bind_split if_splits)

lemma tick_pre_spec:
  assumes k: "tick_ready k" and a: "timers_ahead k"
  shows "returns (tick_pre k) (\<lambda>k'. tick_ready k' \<and> rt_tick k' = rt_tick k + 1 \<and>
    rt_timer_list k' = rt_timer_list k \<and> timers k' = timers k \<and>
    (\<forall>u. runnable k' u = runnable k u) \<and> (\<forall>u. error (threads k' u) = error (threads k u)))"
proof -
  obtain t where t: "rt_current_thread k = Some t" using tick_readyD(3) [OF k] by blast
  let ?k1 = "k\<lparr>rt_tick := rt_tick k + 1\<rparr>"
  let ?k2 = "upd_thread t (\<lambda>x. x\<lparr>remaining_tick := remaining_tick x - 1\<rparr>) ?k1"
  let ?k3 = "upd_thread t (\<lambda>x. x\<lparr>remaining_tick := init_tick x\<rparr>) ?k2"
  have k2: "kinv ?k2"
    by (rule kinv_upd_thread [OF kinv_tick [OF tick_readyD(1) [OF k] a]]) simp_all
  have k3: "kinv ?k3" by (rule kinv_upd_thread [OF k2]) simp_all
  have fr: "rt_timer_list ?k3 = rt_timer_list k" "timers ?k3 = timers k" "objs ?k3 = objs k"
    "rt_tick ?k3 = rt_tick k + 1" "rt_current_thread ?k3 = Some t"
    "runnable ?k3 u = runnable k u" "error (threads ?k3 u) = error (threads k u)" for u
    using t by (simp_all add: kdefs runnable_def)
  have fr2: "rt_timer_list ?k2 = rt_timer_list k" "timers ?k2 = timers k" "objs ?k2 = objs k"
    "rt_tick ?k2 = rt_tick k + 1" "rt_current_thread ?k2 = Some t"
    "runnable ?k2 u = runnable k u" "error (threads ?k2 u) = error (threads k u)" for u
    using t by (simp_all add: kdefs runnable_def)
  have r2: "tick_ready ?k2"
    using k2 tick_readyD(2) [OF k] fr2(1-3,5) by (simp add: tick_ready_def timers_sane_def)
  show ?thesis
  proof (cases "remaining_tick (threads ?k2 t) = 0")
    case False
    then have "tick_pre k = Some ?k2" using t by (simp add: tick_pre_def rt_thread_self_def Let_def)
    then show ?thesis using r2 fr2 by simp
  next
    case True
    from rt_schedule_spec [OF k3 fr(5)] obtain k4 where
      k4: "rt_schedule ?k3 = Some k4" "kinv k4" "sched_frame ?k3 k4" "rt_current_thread k4 \<noteq> None"
      by (auto elim!: returnsE)
    note f4 = sched_frameD [OF k4(3)]
    have "tick_pre k = Some k4"
      using t True k4(1) by (simp add: tick_pre_def rt_thread_self_def rt_thread_yield_def Let_def)
    moreover have "error (threads k4 u) = error (threads k u)" for u
      by (subst f4(15)) (simp add: fr)
    moreover have "tick_ready k4"
      using k4(2,4) tick_readyD(2) [OF k] f4(1,2,4) fr(1-3) by (simp add: tick_ready_def timers_sane_def)
    ultimately show ?thesis using f4(1,4,5,18) fr by simp
  qed
qed

text \<open>
  C6. One tick of the clock, with timers pending and timeout functions that keep their
  contract: \<^verbatim>\<open>rt_tick_increase\<close> returns (the loop of \<^verbatim>\<open>rt_timer_check\<close> ends), the invariants
  hold again and no timer that is due is left in the list; every thread whose timeout is due
  at the new tick can run afterwards, its error number is unchanged or \<^verbatim>\<open>-RT_ETIMEOUT\<close>,
  and no thread that could run before has lost that.
\<close>

theorem rt_tick_increase_expires:
  assumes k: "tick_ready k" and a: "timers_ahead k" and cb: "cb_ok cb"
  shows "\<exists>k'. rt_tick_increase cb k = Some k' \<and> tick_ready k' \<and> timers_ahead k' \<and>
    rt_tick k' = rt_tick k + 1 \<and> (\<forall>t \<in> set (rt_timer_list k'). \<not> is_due k' t) \<and>
    (\<forall>u. runnable k u \<longrightarrow> runnable k' u) \<and>
    (\<forall>i. ThreadTimer i \<in> set (rt_timer_list k) \<and> due k (ThreadTimer i) = rt_tick k + 1 \<longrightarrow>
       runnable k' i) \<and>
    (\<forall>i. error (threads k' i) \<in> {error (threads k i), - RT_ETIMEOUT})"
proof -
  from tick_pre_spec [OF k a] obtain k1 where k1: "tick_pre k = Some k1" "tick_ready k1"
      "rt_tick k1 = rt_tick k + 1" "rt_timer_list k1 = rt_timer_list k" "timers k1 = timers k"
      "\<forall>u. runnable k1 u = runnable k u" "\<forall>u. error (threads k1 u) = error (threads k u)"
    by (auto elim: returnsE)
  from timer_check_loop_spec [OF k1(2) cb] obtain k2 where
    k2: "timer_check_loop cb (rt_tick k1) k1 = Some k2" "tick_ready k2" "rt_tick k2 = rt_tick k1"
      "due_timers k2 = {}" "\<forall>u. runnable k1 u \<longrightarrow> runnable k2 u"
      "\<forall>i. ThreadTimer i \<in> due_timers k1 \<longrightarrow> runnable k2 i"
      "\<forall>i. error (threads k2 i) = error (threads k1 i) \<or>
         ThreadTimer i \<in> due_timers k1 \<and> error (threads k2 i) = - RT_ETIMEOUT"
    by blast
  have nd: "\<not> is_due k2 t" if "t \<in> set (rt_timer_list k2)" for t
    using k2(4) that by (auto simp: due_timers_def)
  note ti = kinvD(2) [OF tick_readyD(1) [OF k1(2)]] kinvD(2) [OF tick_readyD(1) [OF k2(2)]]
  have "timers_ahead k2"
    using nd is_due_iff [OF ti(2)] by (auto simp: timers_ahead_def)
  moreover have "ThreadTimer i \<in> due_timers k1"
    if "ThreadTimer i \<in> set (rt_timer_list k)" "due k (ThreadTimer i) = rt_tick k + 1" for i
    using that k1(3-5) by (simp add: due_timers_def is_due_def)
  ultimately show ?thesis
    using k1 k2 nd by (intro exI [of _ k2]) (auto simp: rt_tick_increase_pre rt_timer_check_def rt_tick_get_def)
qed

lemma tick_ready_example: "tick_ready example_kernel" "timers_ahead example_kernel"
  by (simp_all add: tick_ready_def kinv_example timers_sane_def example_objs_def timers_ahead_def)

text \<open>A timeout function that does nothing but count in the user data of thread 0.\<close>

definition example_cb :: callback where
  "example_cb n p k = Some (upd_thread 0 (\<lambda>x. x\<lparr>user_data := user_data x + p\<rparr>) k)"

lemma example_cb_ok: "cb_ok example_cb"
proof -
  have "tick_ready (upd_thread 0 (\<lambda>x. x\<lparr>user_data := user_data x + p\<rparr>) k)" if "tick_ready k" for p k
    using kinv_upd_thread [OF tick_readyD(1) [OF that], of "\<lambda>x. x\<lparr>user_data := user_data x + p\<rparr>" 0]
      tick_readyD(2,3) [OF that] by (simp add: tick_ready_def timers_sane_def kdefs)
  then show ?thesis
    by (auto simp: cb_ok_def example_cb_def due_timers_def is_due_def runnable_def kdefs)
qed

theorem rt_tick_increase_expires_witness:
  "\<exists>k'. rt_tick_increase example_cb (example_kernel\<lparr>rt_tick := 49\<rparr>) = Some k' \<and> runnable k' 3"
proof -
  let ?k = "example_kernel\<lparr>rt_tick := 49\<rparr>"
  have "timer_inv ?k"
    by (auto simp: timer_inv_def due_order_def thread_timer_ok_def example_objs_def live_def
        rt_object_get_type_def)
  moreover have "sched_inv ?k = sched_inv example_kernel" by (rule sched_inv_cong) simp_all
  ultimately have "tick_ready ?k"
    using sched_inv_example by (simp add: tick_ready_def kinv_def timers_sane_def example_objs_def)
  moreover have "timers_ahead ?k" by (simp add: timers_ahead_def)
  ultimately show ?thesis
    using rt_tick_increase_expires [OF _ _ example_cb_ok, of ?k] by fastforce
qed

section \<open>A timer that restarts itself\<close>

text \<open>
  A one-shot timer whose timeout function starts the timer again: after the expiry the
  timer is pending once more, but \<^verbatim>\<open>rt_timer_check\<close> has cleared its activated flag behind
  the function's back, so \<^verbatim>\<open>rt_timer_stop\<close> answers \<^verbatim>\<open>-RT_ERROR\<close> and leaves it pending.
\<close>

theorem timer_restarted_in_callback:
  assumes k: "kinv k" and t: "Timer n \<in> set (rt_timer_list k)"
    and f: "timeout_func (timers k (Timer n)) = User_timeout f p"
    and one_shot: "flag (objs k (OTimer (Timer n))) AND RT_TIMER_FLAG_PERIODIC = 0"
    and init: "timer_init_tick (timers k (Timer n)) < RT_TICK_HALF"
    and cb: "\<And>k. cb f p k = Option.bind (rt_timer_start (Timer n) k) (\<lambda>(_, k). Some k)"
  shows "\<exists>k'. timer_fire cb (Timer n) k = Some k' \<and> Timer n \<in> set (rt_timer_list k') \<and>
    flag (objs k' (OTimer (Timer n))) AND RT_TIMER_FLAG_ACTIVATED = 0 \<and>
    rt_timer_stop (Timer n) k' = Some (- RT_ERROR, k')"
proof -
  let ?t = "Timer n" and ?k1 = "rt_timer_remove (Timer n) k"
  let ?k2 = "started ?t ?k1"
  have ty: "rt_object_get_type (OTimer ?t) k = RT_Object_Class_Timer"
    using timer_invD(4) [OF kinvD(2) [OF k] t] .
  have "rt_timer_start ?t ?k1 = Some (RT_EOK, ?k2)"
    using rt_timer_start_eq [of ?t ?k1] ty init by (simp add: rt_object_get_type_def)
  moreover have "flag (objs ?k2 (OTimer ?t)) AND RT_TIMER_FLAG_PERIODIC = 0"
    using one_shot by (simp add: started_def flag_bits)
  ultimately have "timer_fire cb ?t k = Some (clear_activated ?t ?k2)"
    using f cb by (simp add: timer_fire_def call_timeout_func_def Let_def)
  moreover have "?t \<in> set (rt_timer_list (clear_activated ?t ?k2))" by (simp add: started_def)
  moreover have fl: "flag (objs (clear_activated ?t ?k2) (OTimer ?t)) AND RT_TIMER_FLAG_ACTIVATED = 0"
    by (simp add: clear_activated_def kdefs flag_bits)
  moreover have "rt_object_get_type (OTimer ?t) (clear_activated ?t ?k2) = RT_Object_Class_Timer"
    using ty by (simp add: rt_object_get_type_def clear_activated_def kdefs started_def)
  then have "rt_timer_stop ?t (clear_activated ?t ?k2) = Some (- RT_ERROR, clear_activated ?t ?k2)"
    using fl by (simp add: rt_timer_stop_def)
  ultimately show ?thesis by blast
qed

theorem timer_restarted_in_callback_witness:
  "\<exists>k'. timer_fire (\<lambda>_ _ k. Option.bind (rt_timer_start (Timer 0) k) (\<lambda>(_, k). Some k)) (Timer 0)
     (started (Timer 0) example_kernel) = Some k' \<and> Timer 0 \<in> set (rt_timer_list k') \<and>
     rt_timer_stop (Timer 0) k' = Some (- RT_ERROR, k')"
proof -
  have "timer_inv (started (Timer 0) example_kernel)"
    by (rule timer_inv_started [OF timer_inv_example]) simp_all
  then have "kinv (started (Timer 0) example_kernel)"
    by (rule kinv_timer_frame [OF kinv_example started_frame])
  from timer_restarted_in_callback [OF this, where n = 0 and f = 0 and p = 0] show ?thesis
    by (force simp: started_def example_objs_def)
qed

section \<open>Milliseconds\<close>

lemma wrap32_id: "- (2 ^ 31) \<le> x \<Longrightarrow> x < 2 ^ 31 \<Longrightarrow> wrap32 x = x"
  by (simp add: wrap32_def sint_sbintrunc' signed_take_bit_int_eq_self)

text \<open>
  \<^verbatim>\<open>rt_tick_from_millisecond\<close> at 100 ticks per second: for a non-negative time up to
  21474826 ms the result is the number of 10 ms ticks that covers it, rounded up; the next
  larger time already makes the intermediate sum exceed the range of \<^verbatim>\<open>int\<close>, and the result
  is negative, although the comment on the function allows times up to 0x7fffffff.
\<close>

theorem rt_tick_from_millisecond_range:
  "(\<forall>ms. 0 \<le> ms \<and> ms \<le> 21474826 \<longrightarrow>
      10 * rt_tick_from_millisecond ms \<ge> ms \<and> 10 * (rt_tick_from_millisecond ms - 1) < ms) \<and>
   rt_tick_from_millisecond 21474827 < 0"
proof (intro conjI allI impI)
  fix ms :: int assume ms: "0 \<le> ms \<and> ms \<le> 21474826"
  then have "rt_tick_from_millisecond ms = (100 * ms + 999) div 1000"
    by (simp add: rt_tick_from_millisecond_def wrap32_id signed_divide_int_def)
  moreover have "1000 * ((100 * ms + 999) div 1000) + (100 * ms + 999) mod 1000 = 100 * ms + 999"
    "0 \<le> (100 * ms + 999) mod 1000" "(100 * ms + 999) mod 1000 < 1000" by simp_all
  ultimately have "1000 * rt_tick_from_millisecond ms \<le> 100 * ms + 999"
    "100 * ms + 999 < 1000 * rt_tick_from_millisecond ms + 1000" by linarith+
  then show "10 * rt_tick_from_millisecond ms \<ge> ms" "10 * (rt_tick_from_millisecond ms - 1) < ms"
    by simp_all
next
  show "rt_tick_from_millisecond 21474827 < 0"
    by (simp add: rt_tick_from_millisecond_def wrap32_def signed_divide_int_def int_word_sint)
qed

theorem rt_tick_from_millisecond_range_witness:
  "rt_tick_from_millisecond 25 = 3"
proof -
  have "10 * rt_tick_from_millisecond 25 \<ge> 25" "10 * (rt_tick_from_millisecond 25 - 1) < 25"
    using rt_tick_from_millisecond_range by auto
  then show ?thesis by presburger
qed

end
