(* ===== verification/Ipc_Base.thy ===== *)
theory Ipc_Base
  imports Clock
begin

text \<open>
  What the IPC objects of \<^verbatim>\<open>src/ipc.c\<close> share: the lists of suspended threads, in the order
  of arrival or of priority, and the suspension of the running thread on such a list with
  an optional timeout.
\<close>

abbreviation (input) RT_IPC_FLAG_FIFO :: u8 where "RT_IPC_FLAG_FIFO \<equiv> 0"
abbreviation (input) RT_IPC_FLAG_PRIO :: u8 where "RT_IPC_FLAG_PRIO \<equiv> 1"
abbreviation (input) RT_WAITING_FOREVER :: int where "RT_WAITING_FOREVER \<equiv> - 1"

section \<open>Operations\<close>

definition rt_ipc_object_init :: "thead \<Rightarrow> kernel \<Rightarrow> kernel" where
  "rt_ipc_object_init h k = k\<lparr>tlists := (tlists k)(h := [])\<rparr>"

definition rt_ipc_list_suspend :: "thead \<Rightarrow> nat \<Rightarrow> u8 \<Rightarrow> kernel \<Rightarrow> kernel option" where
  "rt_ipc_list_suspend h t fl k = do {
     (_, k) \<leftarrow> rt_thread_suspend t k;
     Some (if fl = RT_IPC_FLAG_FIFO then upd_tlists (list_insert_before h t) k
       else if fl = RT_IPC_FLAG_PRIO then
         (case List.find (\<lambda>s. current_priority (threads k t) < current_priority (threads k s))
             (tlists k h) of
            Some s \<Rightarrow> upd_tlists (list_insert_before_node s t) k
          | None \<Rightarrow> upd_tlists (list_insert_before h t) k)
       else k)
   }"

text \<open>On an empty list the code would take the list head for a thread.\<close>

definition rt_ipc_list_resume :: "thead \<Rightarrow> kernel \<Rightarrow> kernel option" where
  "rt_ipc_list_resume h k =
     (case tlists k h of [] \<Rightarrow> None
      | t # _ \<Rightarrow> do { (_, k) \<leftarrow> rt_thread_resume t k; Some k })"

partial_function (option) rt_ipc_list_resume_all :: "thead \<Rightarrow> kernel \<Rightarrow> kernel option" where
  "rt_ipc_list_resume_all h k =
     (case tlists k h of [] \<Rightarrow> Some k
      | t # _ \<Rightarrow> Option.bind (rt_thread_resume t (upd_thread t (\<lambda>x. x\<lparr>error := - RT_ERROR\<rparr>) k))
          (\<lambda>(_, k). rt_ipc_list_resume_all h k))"

section \<open>The order of a wait list\<close>

text \<open>
  The interface of a wait list: a waiter is added somewhere without changing the order of
  the others, and the list stays in its order. Both policies of the IPC objects are
  instances; in the order of priority a waiter comes behind all of its own priority.
\<close>

locale wait_list =
  fixes ordered :: "'t list \<Rightarrow> bool"
    and ins :: "'t \<Rightarrow> 't list \<Rightarrow> 't list"
  assumes ins_split: "\<exists>ys zs. xs = ys @ zs \<and> ins t xs = ys @ t # zs"
    and ordered_Nil: "ordered []"
    and ordered_ins: "ordered xs \<Longrightarrow> ordered (ins t xs)"
    and ordered_remove: "ordered (ys @ t # zs) \<Longrightarrow> ordered (ys @ zs)"
begin

lemma set_ins: "set (ins t xs) = insert t (set xs)"
  using ins_split [of xs t] by auto

lemma distinct_ins: "distinct xs \<Longrightarrow> t \<notin> set xs \<Longrightarrow> distinct (ins t xs)"
  using ins_split [of xs t] by auto

lemma ins_not_Nil [simp]: "ins t xs \<noteq> []"
  using ins_split [of xs t] by auto

lemma remove_ins: "t \<notin> set xs \<Longrightarrow> remove1 t (ins t xs) = xs"
  using ins_split [of xs t] by (auto simp: remove1_append)

text \<open>Arrivals never change the order in which the earlier waiters are served.\<close>

lemma no_overtaking: "set ts \<inter> set xs = {} \<Longrightarrow> filter (\<lambda>x. x \<in> set xs) (fold ins ts xs) = xs"
proof -
  have "filter (\<lambda>x. x \<in> A) (fold ins ts ys) = filter (\<lambda>x. x \<in> A) ys"
    if "set ts \<inter> A = {}" for A ys
    using that
  proof (induction ts arbitrary: ys)
    case (Cons t ts)
    from ins_split [of ys t] obtain us vs where "ys = us @ vs" "ins t ys = us @ t # vs" by blast
    with Cons show ?case by simp
  qed simp
  then show "set ts \<inter> set xs = {} \<Longrightarrow> filter (\<lambda>x. x \<in> set xs) (fold ins ts xs) = xs"
    by (simp add: filter_id_conv)
qed

lemma ordered_arrivals: "ordered (fold ins ts [])"
proof -
  have "ordered xs \<Longrightarrow> ordered (fold ins ts xs)" for xs
    by (induction ts arbitrary: xs) (simp_all add: ordered_ins)
  then show ?thesis using ordered_Nil by blast
qed

lemma ordered_tl: "ordered (x # xs) \<Longrightarrow> ordered xs"
  using ordered_remove [of "[]" x xs] by simp

end

definition by_prio :: "('t \<Rightarrow> u8) \<Rightarrow> 't list \<Rightarrow> bool" where
  "by_prio pr xs \<longleftrightarrow> sorted_wrt (\<lambda>a b. pr a \<le> pr b) xs"

fun prio_insert :: "('t \<Rightarrow> u8) \<Rightarrow> 't \<Rightarrow> 't list \<Rightarrow> 't list" where
  "prio_insert pr t [] = [t]"
| "prio_insert pr t (s # ss) = (if pr t < pr s then t # s # ss else s # prio_insert pr t ss)"

lemma prio_insert_eq:
  "prio_insert pr t xs = takeWhile (\<lambda>s. pr s \<le> pr t) xs @ t # dropWhile (\<lambda>s. pr s \<le> pr t) xs"
  by (induction xs) auto

interpretation fifo: wait_list "\<lambda>_. True" "\<lambda>t xs. xs @ [t]"
  by unfold_locales auto

interpretation prio: wait_list "by_prio pr" "prio_insert pr" for pr :: "'t \<Rightarrow> u8"
proof unfold_locales
  show "\<exists>ys zs. xs = ys @ zs \<and> prio_insert pr t xs = ys @ t # zs" for t xs
    unfolding prio_insert_eq by (metis takeWhile_dropWhile_id)
  show "by_prio pr (prio_insert pr t xs)" if "by_prio pr xs" for t xs
  proof -
    have "set (prio_insert pr t xs) = insert t (set xs)" for xs
      by (induction xs) auto
    then show ?thesis using that by (induction xs) (auto simp: by_prio_def)
  qed
qed (auto simp: by_prio_def sorted_wrt_append)

definition wait_insert :: "u8 \<Rightarrow> ('t \<Rightarrow> u8) \<Rightarrow> 't \<Rightarrow> 't list \<Rightarrow> 't list" where
  "wait_insert fl pr t xs = (if fl = RT_IPC_FLAG_FIFO then xs @ [t] else prio_insert pr t xs)"

lemma wait_insert_facts:
  "set (wait_insert fl pr t xs) = insert t (set xs)"
  "distinct xs \<Longrightarrow> t \<notin> set xs \<Longrightarrow> distinct (wait_insert fl pr t xs)"
  "t \<notin> set xs \<Longrightarrow> remove1 t (wait_insert fl pr t xs) = xs"
  "wait_insert fl pr t xs \<noteq> []"
  by (simp_all add: wait_insert_def prio.set_ins prio.distinct_ins prio.remove_ins remove1_append)

lemma insert_at_found:
  assumes "distinct xs" and "List.find P xs = Some s"
  shows "insert_before_elem s t xs = takeWhile (\<lambda>x. \<not> P x) xs @ t # dropWhile (\<lambda>x. \<not> P x) xs"
  using assms by (induction xs) (auto split: if_splits simp: find_Some_iff)

lemma insert_not_found: "List.find P xs = None \<Longrightarrow> takeWhile (\<lambda>x. \<not> P x) xs = xs"
  by (simp add: find_None_iff)

section \<open>Waiting on a list\<close>

definition wait_head :: "thead \<Rightarrow> bool" where
  "wait_head h \<longleftrightarrow> head_stat h = RT_THREAD_SUSPEND"

lemma wait_head_simps [simp]:
  "wait_head (SuspendThread ob)" "wait_head (SuspendSender m)" "\<not> wait_head (ReadyList p)"
  "\<not> wait_head Defunct" "wait_head (SuspendPush q)" "wait_head (SuspendPop q)" "wait_head (SuspendCompletion c)"
  by (simp_all add: wait_head_def)

lemma wait_headD: "wait_head h \<Longrightarrow> head_stat h = RT_THREAD_SUSPEND" "wait_head h \<Longrightarrow> \<nexists>p. h = ReadyList p"
  by (auto simp: wait_head_def)

lemma kinv_enlist:
  assumes k: "kinv k" and t: "\<not> listed (tlists k) t" "tstat k t = head_stat h"
    and h: "\<nexists>p. h = ReadyList p" and xs: "distinct xs" "set xs = insert t (set (tlists k h))"
  shows "kinv (k\<lparr>tlists := (tlists k)(h := xs)\<rparr>)"
proof -
  have "timer_inv (k\<lparr>tlists := (tlists k)(h := xs)\<rparr>)"
    by (rule timer_inv_cong [OF kinvD(2) [OF k]])
       (use timer_invD(5,6) [OF kinvD(2) [OF k]] in \<open>auto simp: live_def\<close>)
  then show ?thesis
    using sched_inv_enlist [OF kinvD(1) [OF k] t h xs] by (simp add: kinv_def)
qed

text \<open>The thread is suspended and hangs in a wait list, which is now \<open>L\<close>.\<close>

definition enlisted :: "thead \<Rightarrow> nat \<Rightarrow> nat list \<Rightarrow> kernel \<Rightarrow> u32 \<Rightarrow> kernel" where
  "enlisted h t L k g = (suspended t k g)\<lparr>tlists := (list_remove t (tlists k))(h := L)\<rparr>"

abbreviation waiting :: "thead \<Rightarrow> nat \<Rightarrow> u8 \<Rightarrow> kernel \<Rightarrow> u32 \<Rightarrow> kernel" where
  "waiting h t fl k g \<equiv>
     enlisted h t (wait_insert fl (\<lambda>u. current_priority (threads k u)) t (tlists k h)) k g"

lemma not_waiting_runnable:
  assumes "kinv k" and "runnable k t" and "wait_head h"
  shows "t \<notin> set (tlists k h)"
  using sched_invD(2) [OF kinvD(1) [OF assms(1)], of t h] assms(2,3)
  by (auto simp: runnable_def wait_head_def)

lemma kinv_enlisted:
  assumes k: "kinv k" and t: "runnable k t" and h: "wait_head h" and s: "kinv (suspended t k g)"
    and L: "distinct L" "set L = insert t (set (tlists k h))"
  shows "kinv (enlisted h t L k g)"
proof -
  note sel = suspended_sel [OF k, where t = t and g = g]
  have nt: "t \<notin> set (tlists k h)" by (rule not_waiting_runnable [OF k t h])
  have "kinv ((suspended t k g)\<lparr>tlists := (tlists (suspended t k g))(h := L)\<rparr>)"
    by (rule kinv_enlist [OF s sel(2)])
       (use sel(1,6) wait_headD [OF h] L nt in \<open>auto simp: list_remove_def\<close>)
  then show ?thesis by (simp add: enlisted_def sel(6))
qed

lemma rt_ipc_list_suspend_spec:
  assumes k: "kinv k" and t: "runnable k t" and fl: "fl = RT_IPC_FLAG_FIFO \<or> fl = RT_IPC_FLAG_PRIO"
    and h: "wait_head h"
  obtains g where "rt_ipc_list_suspend h t fl k = Some (waiting h t fl k g)"
    and "kinv (waiting h t fl k g)"
proof -
  obtain g where g: "rt_thread_suspend t k = Some (RT_EOK, suspended t k g)" "kinv (suspended t k g)"
    using rt_thread_suspend_spec [OF k t] .
  let ?s = "suspended t k g"
  note sel = suspended_sel [OF k, where t = t and g = g]
  have nt: "t \<notin> set (tlists k h)" by (rule not_waiting_runnable [OF k t h])
  have l: "tlists ?s h = tlists k h" using nt sel(6) by (simp add: list_remove_def)
  have d: "distinct (tlists ?s h')" for h'
    using sched_invD(7) [OF kinvD(1) [OF g(2)]] by (simp add: lists_wf_def)
  have pr: "current_priority (threads ?s u) = current_priority (threads k u)" for u
    using sel(4,5) by (cases "u = t") simp_all
  have only: "list_insert_before_node s t (tlists ?s) =
      (tlists ?s)(h := insert_before_elem s t (tlists ?s h))" if "s \<in> set (tlists ?s h)" for s
    using that sched_invD(7) [OF kinvD(1) [OF g(2)]]
    by (auto simp: list_insert_before_node_def lists_wf_def fun_eq_iff intro!: insert_before_elem_absent)
  have "rt_ipc_list_suspend h t fl k = Some (waiting h t fl k g)"
  proof (cases "fl = RT_IPC_FLAG_FIFO")
    case True
    then show ?thesis
      using g(1) l sel(6) by (simp add: rt_ipc_list_suspend_def enlisted_def wait_insert_def kdefs
          list_insert_before_def)
  next
    case False
    show ?thesis
    proof (cases "List.find (\<lambda>s. current_priority (threads ?s t) < current_priority (threads ?s s))
        (tlists ?s h)")
      case None
      with insert_not_found [OF None] g(1) l False fl pr show ?thesis
        by (simp add: rt_ipc_list_suspend_def enlisted_def wait_insert_def kdefs
            list_insert_before_def prio_insert_eq not_less sel(6)
            dropWhile_eq_Nil_conv [THEN iffD2] takeWhile_eq_all_conv [THEN iffD2])
    next
      case (Some s)
      then have "s \<in> set (tlists ?s h)" by (auto simp: find_Some_iff)
      with insert_at_found [OF d Some] g(1) l False fl pr Some only show ?thesis
        by (simp add: rt_ipc_list_suspend_def enlisted_def wait_insert_def kdefs
            prio_insert_eq not_less sel(6))
    qed
  qed
  moreover have "distinct (tlists k h)" using d [of h] l by simp
  then have "kinv (waiting h t fl k g)"
    by (intro kinv_enlisted [OF k t h g(2)]) (simp_all add: wait_insert_facts nt)
  ultimately show ?thesis by (rule that)
qed

section \<open>What waking threads leaves alone\<close>

definition ipc_frame :: "kernel \<Rightarrow> kernel \<Rightarrow> bool" where
  "ipc_frame k k' \<longleftrightarrow> sems k' = sems k \<and> mutexes k' = mutexes k \<and> events k' = events k \<and>
     mailboxes k' = mailboxes k \<and> mqs k' = mqs k \<and> mempools k' = mempools k \<and>
     object_list k' = object_list k \<and> mem k' = mem k \<and> rt_tick k' = rt_tick k \<and>
     rt_scheduler_lock_nest k' = rt_scheduler_lock_nest k \<and>
     rt_interrupt_nest k' = rt_interrupt_nest k \<and>
     (\<forall>ob. (\<nexists>i. ob = OTimer i) \<longrightarrow> objs k' ob = objs k ob) \<and>
     (\<forall>ob. otype (objs k' ob) = otype (objs k ob)) \<and>
     (\<forall>u. threads k' u = (threads k u)\<lparr>stat := stat (threads k' u), error := error (threads k' u)\<rparr>)"

lemma ipc_frame_refl [simp]: "ipc_frame k k"
  by (simp add: ipc_frame_def)

lemma ipc_frame_trans: "ipc_frame k k' \<Longrightarrow> ipc_frame k' k'' \<Longrightarrow> ipc_frame k k''"
proof -
  have "threads k'' u = (threads k u)\<lparr>stat := stat (threads k'' u), error := error (threads k'' u)\<rparr>"
    if "threads k' u = (threads k u)\<lparr>stat := stat (threads k' u), error := error (threads k' u)\<rparr>"
      "threads k'' u = (threads k' u)\<lparr>stat := stat (threads k'' u), error := error (threads k'' u)\<rparr>" for u
    by (rule trans [OF that(2)], subst that(1)) simp
  then show "ipc_frame k k' \<Longrightarrow> ipc_frame k' k'' \<Longrightarrow> ipc_frame k k''"
    unfolding ipc_frame_def by metis
qed

lemma ipc_frameD:
  assumes "ipc_frame k k'"
  shows "sems k' = sems k" "mutexes k' = mutexes k" "events k' = events k"
    "mailboxes k' = mailboxes k" "mqs k' = mqs k" "mempools k' = mempools k"
    "object_list k' = object_list k" "mem k' = mem k" "rt_tick k' = rt_tick k"
    "rt_scheduler_lock_nest k' = rt_scheduler_lock_nest k"
    "rt_interrupt_nest k' = rt_interrupt_nest k"
    "(\<nexists>i. ob = OTimer i) \<Longrightarrow> objs k' ob = objs k ob" "otype (objs k' ob) = otype (objs k ob)"
    "current_priority (threads k' u) = current_priority (threads k u)"
    "event_set (threads k' u) = event_set (threads k u)"
    "event_info (threads k' u) = event_info (threads k u)"
    "init_priority (threads k' u) = init_priority (threads k u)"
proof -
  have t: "threads k' u = (threads k u)\<lparr>stat := stat (threads k' u), error := error (threads k' u)\<rparr>"
    using assms by (simp add: ipc_frame_def)
  show "current_priority (threads k' u) = current_priority (threads k u)"
    "event_set (threads k' u) = event_set (threads k u)"
    "event_info (threads k' u) = event_info (threads k u)"
    "init_priority (threads k' u) = init_priority (threads k u)" by (subst t, simp)+
qed (use assms in \<open>auto simp: ipc_frame_def\<close>)

lemma ipc_frame_error: "ipc_frame k (upd_thread t (\<lambda>x. x\<lparr>error := e\<rparr>) k)"
  by (simp add: ipc_frame_def kdefs)

lemma stat_only:
  fixes x y :: rt_thread
  shows "x = y\<lparr>stat := st\<rparr> \<Longrightarrow> x = y\<lparr>stat := stat x, error := error x\<rparr>"
  by simp

lemma ipc_frame_sched: "sched_frame k k' \<Longrightarrow> ipc_frame k k'"
proof -
  assume f: "sched_frame k k'"
  note d = sched_frameD [OF f]
  have "threads k' u = (threads k u)\<lparr>stat := stat (threads k' u), error := error (threads k' u)\<rparr>" for u
    by (rule stat_only [OF d(15)])
  then show ?thesis using d(1-14) by (simp add: ipc_frame_def)
qed

lemma resumed_frame_all:
  "object_list (resumed t k g) = object_list k" "mem (resumed t k g) = mem k"
  by (simp_all add: resumed_def Let_def)

lemma ipc_frame_resumed:
  assumes "kinv k"
  shows "ipc_frame k (resumed t k g)"
proof -
  note r = resumed_sel [OF assms, where t = t and g = g]
  have "threads (resumed t k g) u = (threads k u)\<lparr>stat := stat (threads (resumed t k g) u),
      error := error (threads (resumed t k g) u)\<rparr>" for u
  proof (cases "u = t")
    case True
    show ?thesis unfolding True by (rule stat_only [OF r(4)])
  qed (simp add: r(3))
  then show ?thesis by (simp add: ipc_frame_def r resumed_frame_all)
qed

text \<open>
  Waking up all waiters of a list: they can all run afterwards, with the error number
  \<^verbatim>\<open>-RT_ERROR\<close>; the loop ends because each turn takes one thread off the list.
\<close>

definition woken_all :: "thead \<Rightarrow> kernel \<Rightarrow> kernel \<Rightarrow> bool" where
  "woken_all h k k' \<longleftrightarrow> kinv k' \<and> ipc_frame k k' \<and> tlists k' h = [] \<and>
     (\<forall>u \<in> set (tlists k h). runnable k' u \<and> error (threads k' u) = - RT_ERROR) \<and>
     (\<forall>u. runnable k u \<longrightarrow> runnable k' u) \<and>
     (\<forall>u. u \<notin> set (tlists k h) \<longrightarrow> threads k' u = threads k u) \<and>
     (\<forall>h'. wait_head h' \<and> h' \<noteq> h \<longrightarrow> tlists k' h' = tlists k h') \<and>
     rt_current_thread k' = rt_current_thread k"

lemma resumed_lists:
  assumes k: "kinv k" and h: "wait_head h" and q: "tlists k h = t # ts"
  shows "tlists (resumed t k g) h = ts"
    and "wait_head h' \<Longrightarrow> h' \<noteq> h \<Longrightarrow> tlists (resumed t k g) h' = tlists k h'"
proof -
  note wf = sched_invD(7) [OF kinvD(1) [OF k]]
  note r = resumed_sel(5) [OF k, where t = t and g = g]
  show "tlists (resumed t k g) h = ts" using r [of h] wait_headD(2) [OF h] q by simp
  show "tlists (resumed t k g) h' = tlists k h'" if "wait_head h'" "h' \<noteq> h"
  proof -
    have "t \<notin> set (tlists k h')" using wf that(2) q unfolding lists_wf_def by (metis list.set_intros(1))
    then show ?thesis using r [of h'] wait_headD(2) [OF that(1)] by simp
  qed
qed

lemma waiter_suspended:
  assumes "kinv k" and "wait_head h" and "t \<in> set (tlists k h)"
  shows "tstat k t = RT_THREAD_SUSPEND"
  using sched_invD(2) [OF kinvD(1) [OF assms(1)] assms(3)] wait_headD(1) [OF assms(2)] by simp

lemma rt_ipc_list_resume_spec:
  assumes k: "kinv k" and h: "wait_head h" and q: "tlists k h = t # ts"
  obtains g where "rt_ipc_list_resume h k = Some (resumed t k g)" and "kinv (resumed t k g)"
    and "tlists (resumed t k g) h = ts"
    and "\<And>h'. wait_head h' \<Longrightarrow> h' \<noteq> h \<Longrightarrow> tlists (resumed t k g) h' = tlists k h'"
proof -
  have "tstat k t = RT_THREAD_SUSPEND" using waiter_suspended [OF k h, of t] q by simp
  from rt_thread_resume_spec [OF k this] obtain g where
    g: "rt_thread_resume t k = Some (RT_EOK, resumed t k g)" "kinv (resumed t k g)" .
  then show ?thesis
    using that [of g] resumed_lists [OF k h q] q by (simp add: rt_ipc_list_resume_def)
qed

lemma runnable_resumed:
  assumes "kinv k" and "runnable k u"
  shows "runnable (resumed t k g) u"
  using assms resumed_sel(3,6) [OF assms(1), where t = t and g = g]
  by (cases "u = t") (simp_all add: runnable_def)

lemma kinv_upd_error:
  assumes "kinv k"
  shows "kinv (upd_thread t (\<lambda>x. x\<lparr>error := e\<rparr>) k)"
    and "ipc_frame k (upd_thread t (\<lambda>x. x\<lparr>error := e\<rparr>) k)"
  by (rule kinv_error [OF assms], rule ipc_frame_error)

lemma rt_ipc_list_resume_all_spec:
  assumes "kinv k" and h: "wait_head h"
  shows "returns (rt_ipc_list_resume_all h k) (woken_all h k)"
  using assms(1)
proof (induction "tlists k h" arbitrary: k)
  case Nil
  then show ?case
    by (subst rt_ipc_list_resume_all.simps) (auto simp: woken_all_def)
next
  case (Cons t ts)
  let ?k1 = "upd_thread t (\<lambda>x. x\<lparr>error := - RT_ERROR\<rparr>) k"
  have k1: "kinv ?k1" by (rule kinv_error [OF Cons.prems])
  have l1: "tlists ?k1 = tlists k" "rt_current_thread ?k1 = rt_current_thread k"
    and e1: "error (threads ?k1 t) = - RT_ERROR" and o1: "\<And>u. u \<noteq> t \<Longrightarrow> threads ?k1 u = threads k u"
    and r1: "\<And>u. runnable ?k1 u = runnable k u"
    by (simp_all add: kdefs runnable_def)
  have q: "tlists ?k1 h = t # ts" using Cons.hyps(2) l1 by simp
  obtain g where g: "rt_ipc_list_resume h ?k1 = Some (resumed t ?k1 g)" "kinv (resumed t ?k1 g)"
      "tlists (resumed t ?k1 g) h = ts"
      "\<And>h'. wait_head h' \<Longrightarrow> h' \<noteq> h \<Longrightarrow> tlists (resumed t ?k1 g) h' = tlists ?k1 h'"
    using rt_ipc_list_resume_spec [OF k1 h q] by blast
  let ?k2 = "resumed t ?k1 g"
  note r = resumed_sel [OF k1, where t = t and g = g]
  have step: "rt_ipc_list_resume_all h k = rt_ipc_list_resume_all h ?k2"
    using g(1) Cons.hyps(2) [symmetric] l1(1)
    by (subst rt_ipc_list_resume_all.simps)
       (auto simp: rt_ipc_list_resume_def bind_eq_Some_conv split: prod.splits)
  have nt: "t \<notin> set ts"
    using sched_invD(7) [OF kinvD(1) [OF Cons.prems]] Cons.hyps(2) unfolding lists_wf_def
    by (metis distinct.simps(2))
  have e2: "error (threads ?k2 t) = - RT_ERROR"
    using e1 r(4) by (metis (no_types) rt_thread.select_convs(6) rt_thread.surjective rt_thread.update_convs(7))
  have "woken_all h k k'" if w: "woken_all h ?k2 k'" for k'
  proof -
    have f: "ipc_frame ?k2 k'" using w by (simp add: woken_all_def)
    have "ipc_frame k k'"
      by (rule ipc_frame_trans [OF ipc_frame_error ipc_frame_trans [OF ipc_frame_resumed [OF k1] f]])
    moreover have "runnable k' u" if "runnable k u" for u
      using w runnable_resumed [OF k1] that r1 by (simp add: woken_all_def)
    moreover have "threads k' t = threads ?k2 t" using w g(3) nt by (simp add: woken_all_def)
    moreover have "runnable k' t" using w r(6) by (simp add: woken_all_def)
    ultimately show ?thesis
      using w g(3,4) r(2,3) l1 o1 e2 Cons.hyps(2) [symmetric] by (auto simp: woken_all_def)
  qed
  then show ?case
    unfolding step using Cons.hyps(1) [OF g(3) [symmetric] g(2)] by (auto elim: returns_mono)
qed

section \<open>Blocking the running thread\<close>

text \<open>
  The statements every blocking call ends with: hang the running thread into the wait list,
  start its timer when the time is limited, and schedule. \<open>blocked_on\<close> is the state in
  which the thread waits in the list \<open>L\<close>, \<open>blocked\<close> the one in the order of the flag.
\<close>

definition arm_schedule :: "nat \<Rightarrow> int \<Rightarrow> kernel \<Rightarrow> kernel option" where
  "arm_schedule t time k = do {
     k \<leftarrow> (if time > 0 then start_thread_timer t (of_int time) k else Some k);
     rt_schedule k
   }"

definition ipc_block :: "thead \<Rightarrow> nat \<Rightarrow> u8 \<Rightarrow> int \<Rightarrow> kernel \<Rightarrow> kernel option" where
  "ipc_block h t fl time k = do {
     k \<leftarrow> rt_ipc_list_suspend h t fl k;
     arm_schedule t time k
   }"

definition blocked_on :: "thead \<Rightarrow> nat \<Rightarrow> nat list \<Rightarrow> int \<Rightarrow> kernel \<Rightarrow> kernel \<Rightarrow> bool" where
  "blocked_on h t L time k k' \<longleftrightarrow> kinv k' \<and> ipc_frame k k' \<and> tstat k' t = RT_THREAD_SUSPEND \<and>
     tlists k' h = L \<and>
     (\<forall>h'. wait_head h' \<and> h' \<noteq> h \<longrightarrow> tlists k' h' = tlists k h') \<and>
     (if time > 0 then ThreadTimer t \<in> set (rt_timer_list k') \<and> due k' (ThreadTimer t) = rt_tick k + of_int time
      else ThreadTimer t \<notin> set (rt_timer_list k')) \<and>
     (\<forall>u. error (threads k' u) = error (threads k u)) \<and>
     (\<forall>u. u \<noteq> t \<longrightarrow> runnable k' u = runnable k u) \<and> rt_current_thread k' \<noteq> None \<and>
     (rt_scheduler_lock_nest k = 0 \<and> (\<exists>u. u \<noteq> t \<and> runnable k u) \<longrightarrow> rt_current_thread k' \<noteq> Some t) \<and>
     (rt_scheduler_lock_nest k \<noteq> 0 \<longrightarrow> rt_current_thread k' = rt_current_thread k)"

abbreviation blocked :: "thead \<Rightarrow> nat \<Rightarrow> u8 \<Rightarrow> int \<Rightarrow> kernel \<Rightarrow> kernel \<Rightarrow> bool" where
  "blocked h t fl time k \<equiv>
     blocked_on h t (wait_insert fl (\<lambda>u. current_priority (threads k u)) t (tlists k h)) time k"

text \<open>Times the code accepts: forever, or less than half the tick range.\<close>

definition time_ok :: "int \<Rightarrow> bool" where
  "time_ok time \<longleftrightarrow> time < 2 ^ 31 - 1"

lemma time_ok_half: "time_ok time \<Longrightarrow> time > 0 \<Longrightarrow> (of_int time :: u32) < RT_TICK_HALF"
  by (simp add: time_ok_def word_less_def uint_word_of_int_eq take_bit_int_eq_self)

lemma timer_frame_ipc:
  assumes "timer_frame k k'"
  shows "ipc_frame k k'"
proof -
  obtain T ob L r where "k' = k\<lparr>timers := T, objs := ob, rt_timer_list := L, random_nr := r\<rparr>"
      "\<forall>x. otype (ob x) = otype (objs k x)" "\<forall>x. (\<nexists>t. x = OTimer t) \<longrightarrow> ob x = objs k x"
    using assms unfolding timer_frame_def by auto
  then show ?thesis by (simp add: ipc_frame_def)
qed

lemma enlisted_sel:
  assumes k: "kinv k" and t: "runnable k t" and h: "wait_head h"
  shows "tstat (enlisted h t L k g) t = RT_THREAD_SUSPEND"
    "threads (enlisted h t L k g) = (threads k)(t := set_stat RT_THREAD_SUSPEND (threads k t))"
    "rt_current_thread (enlisted h t L k g) = rt_current_thread k"
    "tlists (enlisted h t L k g) h = L"
    "wait_head h' \<Longrightarrow> h' \<noteq> h \<Longrightarrow> tlists (enlisted h t L k g) h' = tlists k h'"
    "ThreadTimer t \<notin> set (rt_timer_list (enlisted h t L k g))" "ipc_frame k (enlisted h t L k g)"
proof -
  note s = suspended_sel [OF k, where t = t and g = g]
  show th: "threads (enlisted h t L k g) = (threads k)(t := set_stat RT_THREAD_SUSPEND (threads k t))"
    using s(4,5) by (auto simp: enlisted_def)
  show "tstat (enlisted h t L k g) t = RT_THREAD_SUSPEND" unfolding th by simp
  show "rt_current_thread (enlisted h t L k g) = rt_current_thread k"
    by (simp add: enlisted_def s(3))
  show "tlists (enlisted h t L k g) h = L"
    by (simp add: enlisted_def)
  show "tlists (enlisted h t L k g) h' = tlists k h'" if "wait_head h'" "h' \<noteq> h"
    using that not_waiting_runnable [OF k t that(1)] by (simp add: enlisted_def list_remove_def)
  show "ThreadTimer t \<notin> set (rt_timer_list (enlisted h t L k g))"
    using timer_invD(5) [OF kinvD(2) [OF k], of t] t
    by (auto simp: enlisted_def suspended_def stopped_def runnable_def
        dest!: set_mp [OF set_remove1_subset])
  show "ipc_frame k (enlisted h t L k g)"
    by (simp add: ipc_frame_def th) (simp add: enlisted_def suspended_def stopped_def unqueued_def set_stat_def)
qed

lemma maybe_armed:
  assumes k: "kinv k" and t: "tstat k t = RT_THREAD_SUSPEND" "ThreadTimer t \<notin> set (rt_timer_list k)"
    and time: "time_ok time"
  obtains k' where "(if time > 0 then start_thread_timer t (of_int time) k else Some k) = Some k'"
    and "kinv k'" and "timer_frame k k'"
    and "if time > 0 then ThreadTimer t \<in> set (rt_timer_list k') \<and> due k' (ThreadTimer t) = rt_tick k + of_int time
      else ThreadTimer t \<notin> set (rt_timer_list k')"
proof (cases "time > 0")
  case True
  from start_thread_timer_spec [OF k t(1) time_ok_half [OF time True]] armed_frame True
  show ?thesis by (intro that [of "armed t (of_int time) k"]) simp_all
next
  case False
  with k t show ?thesis by (intro that [of k]) (simp_all add: timer_frame_def)
qed

lemma schedule_away:
  assumes k: "kinv k" and c: "rt_current_thread k = Some c" and t: "tstat k t = RT_THREAD_SUSPEND"
    and "rt_schedule k = Some k'" and "sched_frame k k'"
    and "rt_scheduler_lock_nest k = 0" and "u \<noteq> t" and "runnable k u"
  shows "rt_current_thread k' \<noteq> Some t"
  using rt_schedule_picks [OF kinvD(1) [OF k] c assms(6,8)] assms(4)
    sched_frame_live(2) [OF assms(5) t] by auto

lemma block_on_spec:
  assumes k: "kinv k" and cur: "rt_current_thread k = Some t" and run: "runnable k t"
    and h: "wait_head h" and time: "time_ok time" and w: "kinv (enlisted h t L k g)"
  shows "returns (arm_schedule t time (enlisted h t L k g)) (blocked_on h t L time k)"
proof -
  let ?w = "enlisted h t L k g"
  note ws = enlisted_sel [OF k run h, where L = L and g = g]
  obtain a where a: "(if time > 0 then start_thread_timer t (of_int time) ?w else Some ?w) = Some a"
      "kinv a" "timer_frame ?w a"
      "if time > 0 then ThreadTimer t \<in> set (rt_timer_list a) \<and> due a (ThreadTimer t) = rt_tick ?w + of_int time
       else ThreadTimer t \<notin> set (rt_timer_list a)"
    using maybe_armed [OF w ws(1,6) time] .
  note as = timer_frame_sel [OF a(3)]
  have sa: "tstat a t = RT_THREAD_SUSPEND" using as(1) ws(1) by simp
  have ca: "rt_current_thread a = Some t" using as(5) ws(3) cur by simp
  from rt_schedule_spec [OF a(2) ca] obtain k' where
    k': "rt_schedule a = Some k'" "kinv k'" "sched_frame a k'" "rt_current_thread k' \<noteq> None"
    by (auto elim!: returnsE)
  note f = sched_frameD [OF k'(3)]
  have lock: "rt_scheduler_lock_nest a = rt_scheduler_lock_nest k"
    and tick: "rt_tick ?w = rt_tick k"
    using as(6) ipc_frameD(9,10) [OF ws(7)] by simp_all
  have "error (threads k' u) = error (threads k u)" for u
    using f(15) [of u] as(1) ws(2) by (metis (no_types, lifting) fun_upd_other fun_upd_same
        rt_thread.select_convs(6) rt_thread.surjective rt_thread.update_convs(7) set_stat_frame(4))
  moreover have r: "runnable a u = runnable k u" if "u \<noteq> t" for u
    using that as(1) ws(2) by (simp add: runnable_def)
  moreover have "runnable k' u = runnable k u" if "u \<noteq> t" for u using r that f(18) by simp
  moreover have "rt_current_thread k' \<noteq> Some t"
    if "rt_scheduler_lock_nest k = 0" "u \<noteq> t" "runnable k u" for u
    using schedule_away [OF a(2) ca sa k'(1,3) _ that(2)] lock that r by simp
  moreover have "rt_current_thread k' = rt_current_thread k" if "rt_scheduler_lock_nest k \<noteq> 0"
    using rt_schedule_locked [of a] that lock k'(1) ca cur by simp
  moreover have "ipc_frame k k'"
    by (rule ipc_frame_trans [OF ws(7) ipc_frame_trans [OF timer_frame_ipc [OF a(3)] ipc_frame_sched [OF k'(3)]]])
  moreover have "tlists k' h' = tlists ?w h'" if "wait_head h'" for h'
    using f(16) [of h'] wait_headD(2) [OF that] as(2) by simp
  moreover have "tstat k' t = RT_THREAD_SUSPEND" by (rule sched_frame_live(2) [OF k'(3) sa])
  ultimately have "blocked_on h t L time k k'"
    using k'(2,4) ws(4,5) h a(4) f(1,4) tick by (auto simp: blocked_on_def split: if_splits)
  then show ?thesis
    using a(1) k'(1) by (simp add: arm_schedule_def)
qed

lemma ipc_block_spec:
  assumes k: "kinv k" and cur: "rt_current_thread k = Some t" and run: "runnable k t"
    and fl: "fl = RT_IPC_FLAG_FIFO \<or> fl = RT_IPC_FLAG_PRIO" and h: "wait_head h"
    and time: "time_ok time"
  shows "returns (ipc_block h t fl time k) (blocked h t fl time k)"
proof -
  obtain g where "rt_ipc_list_suspend h t fl k = Some (waiting h t fl k g)" "kinv (waiting h t fl k g)"
    using rt_ipc_list_suspend_spec [OF k run fl h] .
  then show ?thesis using block_on_spec [OF k cur run h time] by (simp add: ipc_block_def)
qed

text \<open>
  What is left of a limited waiting time when a blocked call looks at its object again: the
  elapsed ticks are subtracted in 32 bits, and a negative rest counts as none.
\<close>

definition time_left :: "int \<Rightarrow> u32 \<Rightarrow> kernel \<Rightarrow> int" where
  "time_left timeout start k =
     (if timeout > 0 then
        (let left = sint ((of_int timeout :: u32) - (rt_tick k - start)) in if left < 0 then 0 else left)
      else timeout)"

lemma time_left_eq:
  assumes "0 < timeout" and "timeout < 2 ^ 31" and "uint (rt_tick k - start) \<le> 2 ^ 31"
  shows "time_left timeout start k = max 0 (timeout - uint (rt_tick k - start))"
proof -
  let ?d = "uint (rt_tick k - start)"
  have "(of_int timeout :: u32) - (rt_tick k - start) = of_int (timeout - ?d)" by simp
  moreover have "sint (of_int (timeout - ?d) :: u32) = timeout - ?d"
    using wrap32_id [of "timeout - ?d"] assms unfolding wrap32_def by (smt (verit) uint_nonnegative)
  ultimately have "sint ((of_int timeout :: u32) - (rt_tick k - start)) = timeout - ?d" by metis
  then show ?thesis using assms(1) by (simp add: time_left_def Let_def)
qed

lemma time_ok_left:
  assumes "time_ok timeout" and "uint (rt_tick k - start) \<le> 2 ^ 31"
  shows "time_ok (time_left timeout start k)"
proof (cases "0 < timeout")
  case True
  then have "time_left timeout start k = max 0 (timeout - uint (rt_tick k - start))"
    using time_left_eq assms by (simp add: time_ok_def)
  then show ?thesis using assms(1) by (auto simp: time_ok_def intro: le_less_trans [of _ timeout])
qed (use assms(1) in \<open>simp add: time_left_def\<close>)

section \<open>Waking the first waiter\<close>

text \<open>
  What a release does when threads wait: the first of the list can run afterwards and is off
  the list, nobody else is affected, and the thread that then runs has at least its priority.
\<close>

definition woken :: "thead \<Rightarrow> nat \<Rightarrow> kernel \<Rightarrow> kernel \<Rightarrow> bool" where
  "woken h t k k' \<longleftrightarrow> kinv k' \<and> ipc_frame k k' \<and> runnable k' t \<and> tlists k' h = tl (tlists k h) \<and>
     (\<forall>h'. wait_head h' \<and> h' \<noteq> h \<longrightarrow> tlists k' h' = tlists k h') \<and>
     (\<forall>u. error (threads k' u) = error (threads k u)) \<and>
     (\<forall>u. u \<noteq> t \<longrightarrow> runnable k' u = runnable k u) \<and>
     ThreadTimer t \<notin> set (rt_timer_list k') \<and>
     (\<exists>c. rt_current_thread k' = Some c \<and>
       (rt_scheduler_lock_nest k = 0 \<longrightarrow> runnable k' c \<and> tprio k' c \<le> tprio k' t))"

lemma error_stat: "(x::rt_thread) = y\<lparr>stat := st\<rparr> \<Longrightarrow> error x = error y"
  by simp

lemma rt_schedule_after:
  assumes k: "kinv k" and cur: "rt_current_thread k = Some c"
  shows "returns (rt_schedule k) (\<lambda>k'. kinv k' \<and> sched_frame k k' \<and>
    (\<exists>c. rt_current_thread k' = Some c \<and>
      (rt_scheduler_lock_nest k = 0 \<longrightarrow> (\<forall>v. runnable k v \<longrightarrow> runnable k' c \<and> tprio k c \<le> tprio k v))))"
proof -
  from rt_schedule_spec [OF k cur] obtain k' where
    k': "rt_schedule k = Some k'" "kinv k'" "sched_frame k k'" "rt_current_thread k' \<noteq> None"
    by (auto elim!: returnsE)
  from k'(4) obtain c' where c': "rt_current_thread k' = Some c'" by auto
  have "runnable k' c' \<and> tprio k c' \<le> tprio k v"
    if "rt_scheduler_lock_nest k = 0" "runnable k v" for v
    using rt_schedule_picks [OF kinvD(1) [OF k] cur that] that(2) k'(1) c' by auto
  with k' c' show ?thesis by auto
qed

lemma resumed_schedule_spec:
  assumes k: "kinv k" and cur: "rt_current_thread k \<noteq> None" and h: "wait_head h"
    and q: "tlists k h = t # ts" and g: "kinv (resumed t k g)"
  shows "returns (rt_schedule (resumed t k g)) (woken h t k)"
proof -
  let ?r = "resumed t k g"
  note r = resumed_sel [OF k, where t = t and g = g]
  note l = resumed_lists [OF k h q, where g = g]
  from cur obtain c where "rt_current_thread ?r = Some c" using r(2) by auto
  from rt_schedule_after [OF g this] obtain k' c' where
    k': "rt_schedule ?r = Some k'" "kinv k'" "sched_frame ?r k'" "rt_current_thread k' = Some c'"
      "rt_scheduler_lock_nest ?r = 0 \<Longrightarrow> runnable ?r v \<Longrightarrow> runnable k' c' \<and> tprio ?r c' \<le> tprio ?r v" for v
    by (auto elim!: returnsE)
  note f = sched_frameD [OF k'(3)]
  note pf = ipc_frameD(14) [OF ipc_frame_sched [OF k'(3)]]
  have "error (threads k' u) = error (threads k u)" for u
    using error_stat [OF f(15) [of u]] r(3) [of u] error_stat [OF r(4)] by (cases "u = t") simp_all
  moreover have "runnable k' u = runnable k u" if "u \<noteq> t" for u
    using f(18) [of u] r(3) [OF that] by (simp add: runnable_def)
  moreover have "tlists k' h' = tlists ?r h'" if "wait_head h'" for h'
    using f(16) [of h'] wait_headD(2) [OF that] by simp
  moreover have "runnable k' c' \<and> tprio k' c' \<le> tprio k' t" if "rt_scheduler_lock_nest k = 0"
    using k'(5) [OF _ r(6)] that r(15) pf by simp
  moreover have "ipc_frame k k'"
    by (rule ipc_frame_trans [OF ipc_frame_resumed [OF k] ipc_frame_sched [OF k'(3)]])
  moreover have "ThreadTimer t \<notin> set (rt_timer_list k')" using f(4) r(19) by simp
  ultimately have "woken h t k k'"
    using k'(2,4) l h q f(18) [of t] r(6) by (simp add: woken_def)
  then show ?thesis using k'(1) by simp
qed

lemma resume_schedule_spec:
  assumes k: "kinv k" and cur: "rt_current_thread k \<noteq> None" and h: "wait_head h"
    and q: "tlists k h = t # ts"
  shows "returns (Option.bind (rt_ipc_list_resume h k) rt_schedule) (woken h t k)"
proof -
  obtain g where "rt_ipc_list_resume h k = Some (resumed t k g)" "kinv (resumed t k g)"
    using rt_ipc_list_resume_spec [OF k h q] by blast
  then show ?thesis using resumed_schedule_spec [OF k cur h q] by simp
qed

text \<open>
  The first waiter, if any, is woken up and the scheduler runs: the end of every operation
  that makes something available.
\<close>

definition passed :: "thead \<Rightarrow> kernel \<Rightarrow> kernel \<Rightarrow> bool" where
  "passed h k k' \<longleftrightarrow> kinv k' \<and> ipc_frame k k' \<and> tlists k' h = tl (tlists k h) \<and>
     (\<forall>h'. wait_head h' \<and> h' \<noteq> h \<longrightarrow> tlists k' h' = tlists k h') \<and>
     (\<forall>t ts. tlists k h = t # ts \<longrightarrow> runnable k' t) \<and>
     (\<forall>u. error (threads k' u) = error (threads k u))"

lemma wake_first:
  assumes k: "kinv k" and cur: "rt_current_thread k \<noteq> None" and h: "wait_head h"
  obtains k' where "(if tlists k h \<noteq> [] then do {
      k \<leftarrow> rt_ipc_list_resume h k;
      k \<leftarrow> rt_schedule k;
      Some (r, k) } else Some (r, k)) = Some (r, k')"
    and "passed h k k'"
proof (cases "tlists k h")
  case Nil
  then show ?thesis using k by (intro that [of k]) (simp_all add: passed_def)
next
  case (Cons t ts)
  from resume_schedule_spec [OF k cur h Cons] obtain k1 k' where
    k': "rt_ipc_list_resume h k = Some k1" "rt_schedule k1 = Some k'" "woken h t k k'"
    by (auto simp: returns_def bind_eq_Some_conv)
  then have "passed h k k'" using Cons by (auto simp: woken_def passed_def)
  then show ?thesis using k'(1,2) Cons by (intro that [of k']) simp_all
qed

text \<open>The running thread clears its error number and waits.\<close>

lemma wait_start:
  assumes k: "kinv k" and cur: "rt_current_thread k = Some t" and run: "runnable k t"
    and fl: "fl \<in> {RT_IPC_FLAG_FIFO, RT_IPC_FLAG_PRIO}" and time: "time_ok time" and h: "wait_head h"
    and k0: "k0 = upd_thread t (\<lambda>x. x\<lparr>error := RT_EOK\<rparr>) k"
  obtains k' where "ipc_block h t fl time k0 = Some k'" and "blocked h t fl time k0 k'"
    and "ipc_frame k k'"
proof -
  have c: "rt_current_thread k0 = Some t" "runnable k0 t"
    using cur run unfolding k0 by (simp_all add: kdefs runnable_def)
  have "kinv k0" unfolding k0 by (rule kinv_error [OF k])
  from ipc_block_spec [OF this c _ h time, of fl] fl obtain k' where
    k': "ipc_block h t fl time k0 = Some k'" "blocked h t fl time k0 k'" by (auto elim!: returnsE)
  have "ipc_frame k k0" unfolding k0 by (rule ipc_frame_error)
  then have "ipc_frame k k'" using k'(2) ipc_frame_trans by (auto simp: blocked_on_def)
  with k' show ?thesis by (rule that)
qed

section \<open>The timeout of a waiting thread\<close>

text \<open>
  When the timer of a waiting thread fires, \<^verbatim>\<open>rt_thread_timeout\<close> takes the thread off its
  wait list, whichever it is, and leaves the timeout in its error number.
\<close>

definition timed_out :: "nat \<Rightarrow> kernel \<Rightarrow> kernel \<Rightarrow> bool" where
  "timed_out t k k' \<longleftrightarrow> kinv k' \<and> ipc_frame k k' \<and> runnable k' t \<and>
     error (threads k' t) = - RT_ETIMEOUT \<and>
     (\<forall>h. wait_head h \<longrightarrow> tlists k' h = remove1 t (tlists k h)) \<and>
     (\<forall>u. u \<noteq> t \<longrightarrow> error (threads k' u) = error (threads k u) \<and> runnable k' u = runnable k u)"

lemma ipc_frame_insert:
  assumes "rt_schedule_insert_thread t k = Some k'"
  shows "ipc_frame k k'"
proof -
  note f = insert_thread_frame [OF assms]
  have "threads k' u = (threads k u)\<lparr>stat := stat (threads k' u), error := error (threads k' u)\<rparr>" for u
  proof (cases "u = t")
    case True
    show ?thesis unfolding True by (rule stat_only [OF f(2)])
  qed (simp add: f(1))
  then show ?thesis using f by (simp add: ipc_frame_def)
qed

lemma timeout_wakes:
  assumes k: "kinv k" and cur: "rt_current_thread k = Some c"
    and t: "tstat k t = RT_THREAD_SUSPEND" "ThreadTimer t \<notin> set (rt_timer_list k)"
  shows "returns (rt_thread_timeout t k) (timed_out t k)"
proof -
  let ?k1 = "(upd_thread t (\<lambda>x. x\<lparr>error := - RT_ETIMEOUT\<rparr>) k)\<lparr>tlists := list_remove t (tlists k)\<rparr>"
  from rt_thread_timeout_steps [OF k cur t] obtain k' k2 where
    k': "rt_thread_timeout t k = Some k'" "kinv k'" "runnable k' t"
      "error (threads k' t) = - RT_ETIMEOUT"
      "\<forall>u. u \<noteq> t \<longrightarrow> error (threads k' u) = error (threads k u)"
      "\<forall>u. u \<noteq> t \<longrightarrow> runnable k' u = runnable k u"
    and k2: "rt_schedule_insert_thread t ?k1 = Some k2" "sched_frame k2 k'"
    by (elim returnsE) blast
  have f1: "ipc_frame k ?k1" by (simp add: ipc_frame_def kdefs)
  have "tlists k' h = remove1 t (tlists k h)" if "wait_head h" for h
    using insert_thread_frame(4) [OF k2(1)] sched_frameD(16) [OF k2(2)] wait_headD(2) [OF that]
    by (simp add: kdefs list_remove_def)
  moreover have "ipc_frame k k'"
    by (rule ipc_frame_trans [OF f1 ipc_frame_trans [OF ipc_frame_insert [OF k2(1)] ipc_frame_sched [OF k2(2)]]])
  ultimately have "timed_out t k k'" using k' by (simp add: timed_out_def)
  then show ?thesis using k'(1) by simp
qed

section \<open>Objects and stores outside the scheduler's view\<close>

lemma kinv_store [simp]:
  "kinv (k\<lparr>sems := a\<rparr>) = kinv k" "kinv (k\<lparr>mutexes := b\<rparr>) = kinv k"
  "kinv (k\<lparr>events := c\<rparr>) = kinv k" "kinv (k\<lparr>mailboxes := d\<rparr>) = kinv k"
  "kinv (k\<lparr>mqs := e\<rparr>) = kinv k" "kinv (k\<lparr>mempools := f\<rparr>) = kinv k"
  by (simp_all add: kinv_def timer_inv_def sched_inv_def rq_inv_def thread_ok_def live_def
      thread_timer_ok_def rt_object_get_type_def rt_object_is_systemobject_def)

lemma kinv_lock: "kinv (k\<lparr>rt_scheduler_lock_nest := n\<rparr>) = kinv k"
  by (simp add: kinv_def timer_inv_def sched_inv_def rq_inv_def thread_ok_def live_def
      thread_timer_ok_def rt_object_get_type_def rt_object_is_systemobject_def)

fun scheduled_object :: "kobj \<Rightarrow> bool" where
  "scheduled_object (OThread t) = True"
| "scheduled_object (OTimer t) = True"
| "scheduled_object _ = False"

lemma kinv_object:
  assumes "kinv k" and "\<not> scheduled_object ob"
  shows "kinv (k\<lparr>objs := (objs k)(ob := x), object_list := L\<rparr>)"
  by (rule kinv_objs [OF assms(1)]) (use assms(2) in auto)

lemma kinv_object_detach: "kinv k \<Longrightarrow> \<not> scheduled_object ob \<Longrightarrow> kinv (rt_object_detach ob k)"
  using kinv_object [of k ob] by (simp add: rt_object_detach_eq)

text \<open>Detaching or deleting an object: everybody who waits for it is woken up first.\<close>

lemma ipc_destroy:
  assumes k: "kinv k" and h: "wait_head h" and ob: "\<not> scheduled_object ob"
  obtains k' where "rt_ipc_list_resume_all h k = Some k'" and "woken_all h k k'"
    and "kinv (rt_object_detach ob k')"
    and "\<not> rt_object_is_systemobject ob k \<Longrightarrow> rt_object_delete ob k' = Some (rt_object_detach ob k')"
proof -
  from rt_ipc_list_resume_all_spec [OF k h] obtain k' where
    k': "rt_ipc_list_resume_all h k = Some k'" "woken_all h k k'" by (elim returnsE)
  then have "ipc_frame k k'" "kinv k'" by (simp_all add: woken_all_def)
  then have "rt_object_is_systemobject ob k' = rt_object_is_systemobject ob k"
    "kinv (rt_object_detach ob k')"
    using kinv_object_detach [OF _ ob] by (simp_all add: rt_object_is_systemobject_def ipc_frame_def)
  then show ?thesis using k' rt_object_delete_dynamic by (intro that) simp_all
qed

lemma detach_sel [simp]:
  "threads (rt_object_detach ob k) = threads k" "tlists (rt_object_detach ob k) = tlists k"
  "sems (rt_object_detach ob k) = sems k" "mutexes (rt_object_detach ob k) = mutexes k"
  "events (rt_object_detach ob k) = events k" "mailboxes (rt_object_detach ob k) = mailboxes k"
  "mqs (rt_object_detach ob k) = mqs k" "mempools (rt_object_detach ob k) = mempools k"
  "rt_current_thread (rt_object_detach ob k) = rt_current_thread k"
  "rt_timer_list (rt_object_detach ob k) = rt_timer_list k"
  "otype (objs (rt_object_detach ob k) ob) = 0"
  by (simp_all add: rt_object_detach_eq)

text \<open>Unlocking the scheduler: apart from the lock, it does what \<^verbatim>\<open>rt_schedule\<close> does.\<close>

lemma rt_exit_critical_spec:
  assumes k: "kinv k" and cur: "rt_current_thread k = Some c"
  shows "returns (rt_exit_critical k) (\<lambda>k'. kinv k' \<and> rt_current_thread k' \<noteq> None \<and>
    sched_frame (k\<lparr>rt_scheduler_lock_nest := rt_scheduler_lock_nest k'\<rparr>) k')"
proof -
  let ?n = "rt_scheduler_lock_nest k - 1"
  have k0: "kinv (k\<lparr>rt_scheduler_lock_nest := n\<rparr>)" "rt_current_thread (k\<lparr>rt_scheduler_lock_nest := n\<rparr>) = Some c" for n
    using k cur by (simp_all add: kinv_lock)
  show ?thesis
  proof (cases "sint ?n \<le> 0")
    case True
    from rt_schedule_spec [OF k0, of 0] obtain k' where
      k': "rt_schedule (k\<lparr>rt_scheduler_lock_nest := 0\<rparr>) = Some k'" "kinv k'"
        "sched_frame (k\<lparr>rt_scheduler_lock_nest := 0\<rparr>) k'" "rt_current_thread k' \<noteq> None"
      by (elim returnsE) blast
    then have "rt_scheduler_lock_nest k' = 0" using sched_frameD(7) by fastforce
    then show ?thesis using k' True by (simp add: rt_exit_critical_def Let_def)
  next
    case False
    then show ?thesis using k0 [of ?n] by (simp add: rt_exit_critical_def Let_def)
  qed
qed

text \<open>The commands of the control functions of the IPC objects.\<close>

datatype ipc_ctrl = Ipc_reset u32 | Ipc_other

lemma kinv_runnable_current:
  assumes "kinv k" and "rt_current_thread k = Some t" and "tstat k t = RT_THREAD_RUNNING"
  shows "runnable (upd_thread t (\<lambda>x. x\<lparr>error := e\<rparr>) k) t"
  using assms by (simp add: runnable_def kdefs)

text \<open>A state in which thread 3, whose timer has just been taken off the list, waits.\<close>

definition example_waiting :: "thead \<Rightarrow> kernel" where
  "example_waiting h = example_kernel\<lparr>rt_timer_list := [], tlists := (tlists example_kernel)(h := [3])\<rparr>"

lemma kinv_example_waiting:
  assumes "wait_head h"
  shows "kinv (example_waiting h)"
proof -
  let ?k = "rt_timer_remove (ThreadTimer 3) example_kernel"
  have k: "kinv ?k" by (rule kinv_timer_remove [OF kinv_example])
  have l: "tlists ?k h = []"
    using assms by (auto simp: rt_timer_remove_def)
  have "\<not> listed (tlists ?k) 3" by (auto simp: listed_def rt_timer_remove_def)
  from kinv_enlist [OF k this, of h "[3]"] assms l show ?thesis
    using wait_headD [OF assms] by (simp add: example_waiting_def rt_timer_remove_def)
qed

end
