(* ===== verification/Mutex.thy ===== *)
theory Mutex
  imports Ipc_Base
begin

text \<open>
  Mutexes with nesting and priority inheritance: the functions \<^verbatim>\<open>rt_mutex_*\<close> of
  \<^verbatim>\<open>src/ipc.c\<close>. \<open>mutex_again\<close> is the part of \<^verbatim>\<open>rt_mutex_take\<close> from the label \<^verbatim>\<open>__again\<close> on,
  to which an interrupted wait returns.
\<close>

section \<open>Operations\<close>

abbreviation mutex_waiters :: "kernel \<Rightarrow> nat \<Rightarrow> nat list" where
  "mutex_waiters k m \<equiv> tlists k (SuspendThread (OMutex m))"

definition upd_mutex :: "nat \<Rightarrow> (rt_mutex \<Rightarrow> rt_mutex) \<Rightarrow> kernel \<Rightarrow> kernel" where
  "upd_mutex m f k = k\<lparr>mutexes := (mutexes k)(m := f (mutexes k m))\<rparr>"

definition is_mutex :: "nat \<Rightarrow> kernel \<Rightarrow> bool" where
  "is_mutex m k \<longleftrightarrow> rt_object_get_type (OMutex m) k = RT_Object_Class_Mutex"

definition mutex_init_fields :: "nat \<Rightarrow> u8 \<Rightarrow> kernel \<Rightarrow> kernel" where
  "mutex_init_fields m fl k =
     (let k = rt_ipc_object_init (SuspendThread (OMutex m)) k;
          k = upd_mutex m (\<lambda>x. x\<lparr>mutex_value := 1, owner := None, original_priority := 0xff,
                hold := 0\<rparr>) k
      in upd_obj (OMutex m) (\<lambda>ob. ob\<lparr>flag := fl\<rparr>) k)"

definition rt_mutex_init :: "nat \<Rightarrow> u8 list \<Rightarrow> u8 \<Rightarrow> kernel \<Rightarrow> (rt_err_t \<times> kernel) option" where
  "rt_mutex_init m nm fl k = do {
     k \<leftarrow> rt_object_init (OMutex m) RT_Object_Class_Mutex nm k;
     Some (RT_EOK, mutex_init_fields m fl k)
   }"

definition rt_mutex_create ::
    "nat option \<Rightarrow> u8 list \<Rightarrow> u8 \<Rightarrow> kernel \<Rightarrow> (nat option \<times> kernel) option" where
  "rt_mutex_create mallocd nm fl k = do {
     RT_DEBUG_NOT_IN_INTERRUPT k;
     (_, k) \<leftarrow> rt_object_allocate (map_option OMutex mallocd) RT_Object_Class_Mutex nm k;
     case mallocd of
       None \<Rightarrow> Some (None, k)
     | Some m \<Rightarrow> Some (Some m, mutex_init_fields m fl k)
   }"

definition rt_mutex_detach :: "nat \<Rightarrow> kernel \<Rightarrow> (rt_err_t \<times> kernel) option" where
  "rt_mutex_detach m k = do {
     rt_assert (is_mutex m k);
     rt_assert (rt_object_is_systemobject (OMutex m) k);
     k \<leftarrow> rt_ipc_list_resume_all (SuspendThread (OMutex m)) k;
     Some (RT_EOK, rt_object_detach (OMutex m) k)
   }"

definition rt_mutex_delete :: "nat \<Rightarrow> kernel \<Rightarrow> (rt_err_t \<times> kernel) option" where
  "rt_mutex_delete m k = do {
     RT_DEBUG_NOT_IN_INTERRUPT k;
     rt_assert (is_mutex m k);
     rt_assert (\<not> rt_object_is_systemobject (OMutex m) k);
     k \<leftarrow> rt_ipc_list_resume_all (SuspendThread (OMutex m)) k;
     k \<leftarrow> rt_object_delete (OMutex m) k;
     Some (RT_EOK, k)
   }"

definition mutex_again :: "nat \<Rightarrow> nat \<Rightarrow> int \<Rightarrow> kernel \<Rightarrow> (outcome \<times> kernel) option" where
  "mutex_again m t time k =
     (if mutex_value (mutexes k m) > 0 then
        Some (Ret RT_EOK VNone, upd_mutex m (\<lambda>x. x\<lparr>mutex_value := mutex_value x - 1, owner := Some t,
          original_priority := current_priority (threads k t), hold := hold x + 1\<rparr>) k)
      else if time = 0 then
        Some (Ret (- RT_ETIMEOUT) VNone, upd_thread t (\<lambda>x. x\<lparr>error := - RT_ETIMEOUT\<rparr>) k)
      else do {
        own \<leftarrow> owner (mutexes k m);
        k \<leftarrow> (if current_priority (threads k t) < current_priority (threads k own) then do {
                (_, k) \<leftarrow> rt_thread_control own (Ctrl_change_priority (current_priority (threads k t))) k;
                Some k
              } else Some k);
        k \<leftarrow> ipc_block (SuspendThread (OMutex m)) t (flag (objs k (OMutex m))) time k;
        Some (Wait (K_mutex_take m time), k)
      })"

definition rt_mutex_take :: "nat \<Rightarrow> int \<Rightarrow> kernel \<Rightarrow> (outcome \<times> kernel) option" where
  "rt_mutex_take m time k = do {
     RT_DEBUG_IN_THREAD_CONTEXT k;
     rt_assert (is_mutex m k);
     t \<leftarrow> rt_thread_self k;
     let k = upd_thread t (\<lambda>x. x\<lparr>error := RT_EOK\<rparr>) k;
     if owner (mutexes k m) = Some t
     then Some (Ret RT_EOK VNone, upd_mutex m (\<lambda>x. x\<lparr>hold := hold x + 1\<rparr>) k)
     else mutex_again m t time k
   }"

definition rt_mutex_take_resume :: "nat \<Rightarrow> nat \<Rightarrow> int \<Rightarrow> kernel \<Rightarrow> (outcome \<times> kernel) option" where
  "rt_mutex_take_resume m t time k =
     (if error (threads k t) \<noteq> RT_EOK then
        if error (threads k t) = - RT_EINTR then mutex_again m t time k
        else Some (Ret (error (threads k t)) VNone, k)
      else Some (Ret RT_EOK VNone, k))"

definition mutex_restore_priority :: "nat \<Rightarrow> nat \<Rightarrow> kernel \<Rightarrow> kernel option" where
  "mutex_restore_priority m t k =
     (if original_priority (mutexes k m) \<noteq> current_priority (threads k t) then do {
        (_, k) \<leftarrow> rt_thread_control t (Ctrl_change_priority (original_priority (mutexes k m))) k;
        Some k
      } else Some k)"

definition mutex_hand_over :: "nat \<Rightarrow> kernel \<Rightarrow> kernel option" where
  "mutex_hand_over m k = (case mutex_waiters k m of
       w # _ \<Rightarrow> do {
         let k = upd_mutex m (\<lambda>x. x\<lparr>owner := Some w,
           original_priority := current_priority (threads k w), hold := hold x + 1\<rparr>) k;
         k \<leftarrow> rt_ipc_list_resume (SuspendThread (OMutex m)) k;
         rt_schedule k
       }
     | [] \<Rightarrow> Some (upd_mutex m (\<lambda>x. x\<lparr>mutex_value := mutex_value x + 1, owner := None,
         original_priority := 0xff\<rparr>) k))"

definition rt_mutex_release :: "nat \<Rightarrow> kernel \<Rightarrow> (rt_err_t \<times> kernel) option" where
  "rt_mutex_release m k = do {
     rt_assert (is_mutex m k);
     RT_DEBUG_IN_THREAD_CONTEXT k;
     t \<leftarrow> rt_thread_self k;
     if owner (mutexes k m) \<noteq> Some t
     then Some (- RT_ERROR, upd_thread t (\<lambda>x. x\<lparr>error := - RT_ERROR\<rparr>) k)
     else do {
       let k = upd_mutex m (\<lambda>x. x\<lparr>hold := hold x - 1\<rparr>) k;
       k \<leftarrow> (if hold (mutexes k m) = 0 then do {
               k \<leftarrow> mutex_restore_priority m t k;
               mutex_hand_over m k
             } else Some k);
       Some (RT_EOK, k)
     }
   }"

definition rt_mutex_control :: "nat \<Rightarrow> ipc_ctrl \<Rightarrow> kernel \<Rightarrow> (rt_err_t \<times> kernel) option" where
  "rt_mutex_control m cmd k = do {
     rt_assert (is_mutex m k);
     Some (- RT_ERROR, k)
   }"

section \<open>The mutex invariant\<close>

text \<open>
  A mutex is free, with nobody waiting, or it is held by a live thread that does not wait
  for it. \<open>pi_ok\<close> is priority inheritance: the owner has at least the priority of every
  waiter. The waiters of a mutex created with \<^verbatim>\<open>RT_IPC_FLAG_PRIO\<close> are in priority order.
\<close>

definition mutex_ok :: "kernel \<Rightarrow> nat \<Rightarrow> bool" where
  "mutex_ok k m \<longleftrightarrow> (case owner (mutexes k m) of
       None \<Rightarrow> mutex_value (mutexes k m) = 1 \<and> hold (mutexes k m) = 0 \<and> mutex_waiters k m = []
     | Some t \<Rightarrow> mutex_value (mutexes k m) = 0 \<and> hold (mutexes k m) \<noteq> 0 \<and> live k t \<and>
         t \<notin> set (mutex_waiters k m) \<and>
         unat (original_priority (mutexes k m)) < RT_THREAD_PRIORITY_MAX)"

definition pi_ok :: "kernel \<Rightarrow> nat \<Rightarrow> bool" where
  "pi_ok k m \<longleftrightarrow> (\<forall>t. owner (mutexes k m) = Some t \<longrightarrow>
     (\<forall>w \<in> set (mutex_waiters k m). tprio k t \<le> tprio k w))"

definition waiters_sorted :: "kernel \<Rightarrow> nat \<Rightarrow> bool" where
  "waiters_sorted k m \<longleftrightarrow> by_prio (\<lambda>u. current_priority (threads k u)) (mutex_waiters k m)"

lemma upd_mutex_sel [simp]:
  "mutexes (upd_mutex m f k) = (mutexes k)(m := f (mutexes k m))"
  "tlists (upd_mutex m f k) = tlists k" "threads (upd_mutex m f k) = threads k"
  "objs (upd_mutex m f k) = objs k" "rt_current_thread (upd_mutex m f k) = rt_current_thread k"
  "kinv (upd_mutex m f k) = kinv k" "rt_tick (upd_mutex m f k) = rt_tick k"
  "rt_scheduler_lock_nest (upd_mutex m f k) = rt_scheduler_lock_nest k"
  by (simp_all add: upd_mutex_def)

lemma prio_insert_cong:
  "(\<And>u. u \<in> insert t (set xs) \<Longrightarrow> pr' u = pr u) \<Longrightarrow> prio_insert pr' t xs = prio_insert pr t xs"
  by (induction xs) auto

lemma wait_insert_cong:
  "(\<And>u. u \<in> insert t (set xs) \<Longrightarrow> pr' u = pr u) \<Longrightarrow> wait_insert fl pr' t xs = wait_insert fl pr t xs"
  using prio_insert_cong [of t xs pr' pr] by (auto simp: wait_insert_def)

lemma by_prio_cong:
  assumes "\<And>u. u \<in> set xs \<Longrightarrow> pr' u = pr u"
  shows "by_prio pr' xs = by_prio pr xs"
  using assms by (induction xs) (auto simp: by_prio_def)

section \<open>Taking\<close>

text \<open>
  Giving the owner a priority: the state differs in that priority and in the owner's place
  in the ready lists only.
\<close>

definition reprioritised :: "nat \<Rightarrow> u8 \<Rightarrow> kernel \<Rightarrow> kernel \<Rightarrow> bool" where
  "reprioritised own pr k k' \<longleftrightarrow> kinv k' \<and> rt_current_thread k' = rt_current_thread k \<and>
     (\<forall>u. u \<noteq> own \<longrightarrow> threads k' u = threads k u) \<and> current_priority (threads k' own) = pr \<and>
     error (threads k' own) = error (threads k own) \<and> tstat k' own = tstat k own \<and>
     (\<forall>h. wait_head h \<longrightarrow> tlists k' h = tlists k h) \<and> mutexes k' = mutexes k \<and> objs k' = objs k \<and>
     timers k' = timers k \<and> rt_timer_list k' = rt_timer_list k \<and> rt_tick k' = rt_tick k \<and>
     rt_scheduler_lock_nest k' = rt_scheduler_lock_nest k \<and>
     rt_interrupt_nest k' = rt_interrupt_nest k"

lemma reprioritisedD:
  assumes "reprioritised own pr k k'"
  shows "kinv k'" "rt_current_thread k' = rt_current_thread k"
    "u \<noteq> own \<Longrightarrow> threads k' u = threads k u" "current_priority (threads k' own) = pr"
    "error (threads k' u) = error (threads k u)" "tstat k' u = tstat k u"
    "wait_head h \<Longrightarrow> tlists k' h = tlists k h" "mutexes k' = mutexes k" "objs k' = objs k"
    "timers k' = timers k" "rt_timer_list k' = rt_timer_list k" "rt_tick k' = rt_tick k"
    "rt_scheduler_lock_nest k' = rt_scheduler_lock_nest k"
    "rt_interrupt_nest k' = rt_interrupt_nest k"
  using assms unfolding reprioritised_def by (cases "u = own"; simp)+

lemma reprioritised_refl:
  "kinv k \<Longrightarrow> current_priority (threads k own) = pr \<Longrightarrow> reprioritised own pr k k"
  by (simp add: reprioritised_def)

lemma reprioritise:
  assumes k: "kinv k" and live: "live k own" and pr: "unat pr < RT_THREAD_PRIORITY_MAX"
  obtains k' where "rt_thread_control own (Ctrl_change_priority pr) k = Some (RT_EOK, k')"
    and "reprioritised own pr k k'"
proof -
  from change_priority_spec [OF k live pr] obtain k' where
    k': "change_priority own pr k = Some k'" and
    p: "kinv k' \<and> current_priority (threads k' own) = pr \<and> tstat k' own = tstat k own \<and>
    (\<forall>u. u \<noteq> own \<longrightarrow> threads k' u = threads k u) \<and>
    threads k' own = (threads k own)\<lparr>stat := stat (threads k' own), current_priority := pr,
      number_mask := number_mask (threads k' own)\<rparr> \<and>
    (\<forall>h. (\<nexists>p. h = ReadyList p) \<longrightarrow> tlists k' h = tlists k h) \<and>
    rt_current_thread k' = rt_current_thread k \<and> mutexes k' = mutexes k \<and> objs k' = objs k \<and>
    timers k' = timers k \<and> rt_timer_list k' = rt_timer_list k \<and> rt_tick k' = rt_tick k \<and>
    rt_scheduler_lock_nest k' = rt_scheduler_lock_nest k \<and>
    rt_interrupt_nest k' = rt_interrupt_nest k"
    by (elim returnsE) blast
  have e: "error x = error y" if "x = y\<lparr>stat := a, current_priority := b, number_mask := c\<rparr>"
    for x y :: rt_thread and a b c using that by simp
  have "error (threads k' own) = error (threads k own)"
    by (rule e) (use p in blast)
  then have "reprioritised own pr k k'"
    using p wait_headD(2) by (simp add: reprioritised_def)
  moreover have "rt_thread_control own (Ctrl_change_priority pr) k = Some (RT_EOK, k')"
    using k' thread_okD(1) [OF live_thread_ok [OF k live]] by (simp add: rt_thread_control_def)
  ultimately show ?thesis using that by blast
qed

lemma live_prio: "kinv k \<Longrightarrow> live k t \<Longrightarrow> tprio k t < RT_THREAD_PRIORITY_MAX"
  using live_thread_ok [of k t] by (simp add: thread_ok_def mask_ok_def)

text \<open>
  The state in which the caller of \<^verbatim>\<open>rt_mutex_take\<close> waits: the owner has inherited its
  priority if that is higher, and the thread hangs in the wait list.
\<close>

definition mutex_blocked :: "nat \<Rightarrow> nat \<Rightarrow> nat \<Rightarrow> int \<Rightarrow> kernel \<Rightarrow> kernel \<Rightarrow> bool" where
  "mutex_blocked m t own time k k' \<longleftrightarrow> (\<exists>k1.
     reprioritised own (min (current_priority (threads k t)) (current_priority (threads k own))) k k1 \<and>
     blocked (SuspendThread (OMutex m)) t (flag (objs k (OMutex m))) time k1 k')"

lemma mutex_again_blocks:
  assumes k: "kinv k" and cur: "rt_current_thread k = Some t" and run: "runnable k t"
    and fl: "flag (objs k (OMutex m)) \<in> {RT_IPC_FLAG_FIFO, RT_IPC_FLAG_PRIO}"
    and time: "time_ok time" "time \<noteq> 0"
    and v: "mutex_value (mutexes k m) = 0" and own: "owner (mutexes k m) = Some own" "own \<noteq> t" "live k own"
  shows "\<exists>k'. mutex_again m t time k = Some (Wait (K_mutex_take m time), k') \<and>
    mutex_blocked m t own time k k'"
proof -
  let ?pt = "current_priority (threads k t)" and ?po = "current_priority (threads k own)"
  obtain k1 where k1: "reprioritised own (min ?pt ?po) k k1"
      "(if ?pt < ?po then do { (_, k) \<leftarrow> rt_thread_control own (Ctrl_change_priority ?pt) k; Some k }
        else Some k) = Some k1"
  proof (cases "?pt < ?po")
    case True
    have "live k t" using run by (auto simp: runnable_def)
    then obtain k1 where "rt_thread_control own (Ctrl_change_priority ?pt) k = Some (RT_EOK, k1)"
        "reprioritised own ?pt k k1"
      using reprioritise [OF k own(3) live_prio [OF k]] by blast
    moreover have "min ?pt ?po = ?pt" using True by simp
    ultimately show ?thesis by (intro that [of k1]) (simp_all add: True)
  next
    case False
    then have "min ?pt ?po = ?po" by simp
    then show ?thesis using False reprioritised_refl [OF k] by (intro that [of k]) simp_all
  qed
  note r = reprioritisedD [OF k1(1)]
  have "runnable k1 t" using r(6) [of t] run by (simp add: runnable_def)
  then have "returns (ipc_block (SuspendThread (OMutex m)) t (flag (objs k1 (OMutex m))) time k1)
      (blocked (SuspendThread (OMutex m)) t (flag (objs k1 (OMutex m))) time k1)"
    by (intro ipc_block_spec) (use r(1,2,9) cur fl time(1) in auto)
  then obtain k' where "ipc_block (SuspendThread (OMutex m)) t (flag (objs k1 (OMutex m))) time k1 = Some k'"
      "blocked (SuspendThread (OMutex m)) t (flag (objs k (OMutex m))) time k1 k'"
    unfolding returns_def r(9) by blast
  moreover from this have "mutex_again m t time k = Some (Wait (K_mutex_take m time), k')"
    using k1(2) v own(1) time(2) r(9) by (simp add: mutex_again_def)
  ultimately show ?thesis using k1(1) unfolding mutex_blocked_def by blast
qed

text \<open>
  C8. \<^verbatim>\<open>rt_mutex_take\<close> on every branch, called by the running thread: the owner nests its
  hold; a free mutex gets the caller as its owner, who can get it back at its own priority;
  a mutex held by another thread is refused at once with time 0, and otherwise the caller
  waits in the order of the mutex's flag, with its timer armed when the time is limited,
  after the owner has inherited the caller's priority if that is higher.
\<close>

theorem rt_mutex_take_correct:
  assumes k: "kinv k" and cur: "rt_current_thread k = Some t" and run: "tstat k t = RT_THREAD_RUNNING"
    and m: "is_mutex m k" and ok: "mutex_ok k m"
    and fl: "flag (objs k (OMutex m)) \<in> {RT_IPC_FLAG_FIFO, RT_IPC_FLAG_PRIO}"
    and time: "time_ok time" and nest: "rt_interrupt_nest k = 0"
    and k0: "k0 = upd_thread t (\<lambda>x. x\<lparr>error := RT_EOK\<rparr>) k"
  shows "(owner (mutexes k m) = Some t \<longrightarrow>
      rt_mutex_take m time k = Some (Ret RT_EOK VNone, upd_mutex m (\<lambda>x. x\<lparr>hold := hold x + 1\<rparr>) k0)) \<and>
    (owner (mutexes k m) = None \<longrightarrow>
      (\<exists>k'. rt_mutex_take m time k = Some (Ret RT_EOK VNone, k') \<and> threads k' = threads k0 \<and>
        mutexes k' m = \<lparr>mutex_value = 0, original_priority = current_priority (threads k t),
          hold = 1, owner = Some t\<rparr> \<and> mutex_ok k' m)) \<and>
    (\<forall>own. owner (mutexes k m) = Some own \<and> own \<noteq> t \<longrightarrow>
      (time = 0 \<longrightarrow> (\<exists>k'. rt_mutex_take m time k = Some (Ret (- RT_ETIMEOUT) VNone, k') \<and>
         mutexes k' = mutexes k \<and> tlists k' = tlists k)) \<and>
      (time \<noteq> 0 \<longrightarrow> (\<exists>k'. rt_mutex_take m time k = Some (Wait (K_mutex_take m time), k') \<and>
         mutex_blocked m t own time k0 k')))"
proof -
  have c: "rt_current_thread k0 = Some t" "objs k0 = objs k" "mutexes k0 = mutexes k"
    "tlists k0 = tlists k" "kinv k0" "runnable k0 t"
    using cur kinv_error [OF k] kinv_runnable_current [OF k cur run] unfolding k0 by (simp_all add: kdefs)
  have live0: "live k0 u = live k u" for u unfolding k0 by (simp add: live_def kdefs)
  have pt: "tprio k t < RT_THREAD_PRIORITY_MAX" using live_prio [OF k, of t] run by simp
  have take: "rt_mutex_take m time k = (if owner (mutexes k m) = Some t
      then Some (Ret RT_EOK VNone, upd_mutex m (\<lambda>x. x\<lparr>hold := hold x + 1\<rparr>) k0)
      else mutex_again m t time k0)"
    using cur m nest c(3) unfolding k0 by (simp add: rt_mutex_take_def RT_DEBUG_IN_THREAD_CONTEXT_def
        RT_DEBUG_NOT_IN_INTERRUPT_def rt_thread_self_def rt_interrupt_get_nest_def)
  have wait: "\<exists>k'. mutex_again m t time k0 = Some (Wait (K_mutex_take m time), k') \<and>
      mutex_blocked m t own time k0 k'"
    if "owner (mutexes k m) = Some own" "own \<noteq> t" "time \<noteq> 0" for own
    by (rule mutex_again_blocks) (use that ok c fl time live0 in \<open>auto simp: mutex_ok_def\<close>)
  have free: "\<exists>k'. mutex_again m t time k0 = Some (Ret RT_EOK VNone, k') \<and> threads k' = threads k0 \<and>
      mutexes k' m = \<lparr>mutex_value = 0, original_priority = current_priority (threads k t),
        hold = 1, owner = Some t\<rparr> \<and> mutex_ok k' m" if "owner (mutexes k m) = None"
  proof -
    have none: "owner (mutexes k m) = None" by (rule that)
    obtain orig where mx: "mutexes k m = \<lparr>mutex_value = 1, original_priority = orig, hold = 0, owner = None\<rparr>"
    proof -
      have "mutex_value (mutexes k m) = 1" "hold (mutexes k m) = 0"
        using none ok by (simp_all add: mutex_ok_def)
      then show thesis using that none by (cases "mutexes k m") simp
    qed
    have "mutex_waiters k m = []" using that ok by (simp add: mutex_ok_def)
    moreover have "current_priority (threads k0 t) = current_priority (threads k t)"
      unfolding k0 by (simp add: kdefs)
    moreover have "live k0 t" using live0 [of t] run by simp
    ultimately show ?thesis
      using c(3,4) pt by (simp add: mutex_again_def mutex_ok_def mx live_def)
  qed
  have again0: "mutex_again m t 0 k0 = Some (Ret (- RT_ETIMEOUT) VNone,
      upd_thread t (\<lambda>x. x\<lparr>error := - RT_ETIMEOUT\<rparr>) k0)" if "owner (mutexes k m) = Some own" for own
    using that ok c(3) by (simp add: mutex_again_def mutex_ok_def)
  show ?thesis
    using wait free again0 take c(3,4) by (auto simp: kdefs)
qed

text \<open>A mutex that thread 0, of the lowest priority, holds.\<close>

definition example_mutex :: kernel where
  "example_mutex = upd_mutex 0 (\<lambda>_. \<lparr>mutex_value = 0, original_priority = 31, hold = 1,
     owner = Some 0\<rparr>) example_kernel"

lemma example_mutex_facts:
  "is_mutex m example_kernel" "flag (objs example_kernel (OMutex m)) = RT_IPC_FLAG_FIFO"
  by (simp_all add: is_mutex_def rt_object_get_type_def example_objs_def)

theorem rt_mutex_take_correct_witness:
  "\<exists>k'. rt_mutex_take 0 RT_WAITING_FOREVER example_mutex = Some (Wait (K_mutex_take 0 RT_WAITING_FOREVER), k') \<and>
     tprio k' 0 = 10 \<and> mutex_waiters k' 0 = [1]"
proof -
  let ?k = example_mutex
  have e: "kinv ?k" "rt_current_thread ?k = Some 1" "tstat ?k 1 = RT_THREAD_RUNNING" "is_mutex 0 ?k"
    "flag (objs ?k (OMutex 0)) = RT_IPC_FLAG_FIFO" "rt_interrupt_nest ?k = 0" "mutex_ok ?k 0"
    "owner (mutexes ?k 0) = Some 0" "time_ok RT_WAITING_FOREVER"
    using kinv_example example_mutex_facts
    by (simp_all add: example_mutex_def is_mutex_def rt_object_get_type_def mutex_ok_def time_ok_def live_def upd_mutex_def)
  obtain k' where k': "rt_mutex_take 0 RT_WAITING_FOREVER ?k = Some (Wait (K_mutex_take 0 RT_WAITING_FOREVER), k')"
      "mutex_blocked 0 1 0 RT_WAITING_FOREVER (upd_thread 1 (\<lambda>x. x\<lparr>error := RT_EOK\<rparr>) ?k) k'"
    using rt_mutex_take_correct [OF e(1-4,7) _ e(9,6) refl] e(5,8) by auto
  then obtain k1 where k1: "reprioritised 0 10 (upd_thread 1 (\<lambda>x. x\<lparr>error := RT_EOK\<rparr>) ?k) k1"
      "blocked (SuspendThread (OMutex 0)) 1 RT_IPC_FLAG_FIFO RT_WAITING_FOREVER k1 k'"
    using e(5) by (auto simp: mutex_blocked_def kdefs example_mutex_def upd_mutex_def)
  have "ipc_frame k1 k'" "mutex_waiters k' 0 = wait_insert RT_IPC_FLAG_FIFO
      (\<lambda>u. current_priority (threads k1 u)) 1 (mutex_waiters k1 0)"
    using k1(2) by (simp_all add: blocked_on_def)
  moreover have "mutex_waiters k1 0 = []"
    using reprioritisedD(7) [OF k1(1), of "SuspendThread (OMutex 0)"]
    by (simp add: kdefs example_mutex_def upd_mutex_def)
  ultimately have "mutex_waiters k' 0 = [1]" "tprio k' 0 = 10"
    using reprioritisedD(4) [OF k1(1)] ipc_frameD(14) by (simp_all add: wait_insert_def)
  with k'(1) show ?thesis by blast
qed

section \<open>Releasing\<close>

lemma mutex_restore_priority_spec:
  assumes k: "kinv k" and t: "live k t"
    and pr: "unat (original_priority (mutexes k m)) < RT_THREAD_PRIORITY_MAX"
  obtains k' where "mutex_restore_priority m t k = Some k'"
    and "reprioritised t (original_priority (mutexes k m)) k k'"
proof (cases "original_priority (mutexes k m) = current_priority (threads k t)")
  case True
  then show ?thesis
    using reprioritised_refl [OF k] by (intro that [of k]) (simp_all add: mutex_restore_priority_def)
next
  case False
  obtain k' where "rt_thread_control t (Ctrl_change_priority (original_priority (mutexes k m))) k = Some (RT_EOK, k')"
      "reprioritised t (original_priority (mutexes k m)) k k'"
    using reprioritise [OF k t pr] .
  then show ?thesis using False by (intro that [of k']) (simp_all add: mutex_restore_priority_def)
qed

text \<open>Handing the mutex over: the first waiter becomes the owner and can run.\<close>

lemma mutex_hand_over_spec:
  assumes k: "kinv k" and cur: "rt_current_thread k \<noteq> None"
  shows "mutex_waiters k m = [] \<Longrightarrow> mutex_hand_over m k =
      Some (upd_mutex m (\<lambda>x. x\<lparr>mutex_value := mutex_value x + 1, owner := None, original_priority := 0xff\<rparr>) k)"
    and "mutex_waiters k m = w # ws \<Longrightarrow> returns (mutex_hand_over m k)
      (woken (SuspendThread (OMutex m)) w (upd_mutex m (\<lambda>x. x\<lparr>owner := Some w,
        original_priority := current_priority (threads k w), hold := hold x + 1\<rparr>) k))"
proof -
  let ?k = "upd_mutex m (\<lambda>x. x\<lparr>owner := Some w,
        original_priority := current_priority (threads k w), hold := hold x + 1\<rparr>) k"
  show "returns (mutex_hand_over m k) (woken (SuspendThread (OMutex m)) w ?k)"
    if q: "mutex_waiters k m = w # ws"
    using resume_schedule_spec [of ?k "SuspendThread (OMutex m)" w ws] k cur q
    by (simp add: mutex_hand_over_def)
qed (simp add: mutex_hand_over_def)

lemma rt_mutex_release_eq:
  assumes "is_mutex m k" and "rt_current_thread k = Some t" and "rt_interrupt_nest k = 0"
    and "owner (mutexes k m) = Some t"
  shows "rt_mutex_release m k = (let k1 = upd_mutex m (\<lambda>x. x\<lparr>hold := hold x - 1\<rparr>) k in
    if hold (mutexes k1 m) = 0
    then Option.bind (Option.bind (mutex_restore_priority m t k1) (mutex_hand_over m)) (\<lambda>k. Some (RT_EOK, k))
    else Some (RT_EOK, k1))"
  using assms
  by (simp add: rt_mutex_release_def RT_DEBUG_IN_THREAD_CONTEXT_def RT_DEBUG_NOT_IN_INTERRUPT_def
      rt_thread_self_def rt_interrupt_get_nest_def Let_def)

text \<open>The last release: the owner is back at its own priority and the mutex has a new owner or none.\<close>

definition mutex_released :: "nat \<Rightarrow> nat \<Rightarrow> kernel \<Rightarrow> kernel \<Rightarrow> bool" where
  "mutex_released m t k k' \<longleftrightarrow> kinv k' \<and> mutex_ok k' m \<and>
     current_priority (threads k' t) = original_priority (mutexes k m) \<and>
     (\<forall>u. u \<noteq> t \<longrightarrow> current_priority (threads k' u) = current_priority (threads k u)) \<and>
     mutex_waiters k' m = tl (mutex_waiters k m) \<and>
     (case mutex_waiters k m of
        [] \<Rightarrow> owner (mutexes k' m) = None
      | w # _ \<Rightarrow> owner (mutexes k' m) = Some w \<and> hold (mutexes k' m) = 1 \<and> runnable k' w \<and>
          original_priority (mutexes k' m) = current_priority (threads k w) \<and>
          error (threads k' w) = error (threads k w))"

lemma mutex_release_last:
  assumes k: "kinv k" and cur: "rt_current_thread k = Some t" and m: "is_mutex m k"
    and ok: "mutex_ok k m" and nest: "rt_interrupt_nest k = 0"
    and own: "owner (mutexes k m) = Some t" and hold: "hold (mutexes k m) = 1"
  shows "\<exists>k'. rt_mutex_release m k = Some (RT_EOK, k') \<and> mutex_released m t k k'"
proof -
  let ?k1 = "upd_mutex m (\<lambda>x. x\<lparr>hold := hold x - 1\<rparr>) k"
  have o: "unat (original_priority (mutexes k m)) < RT_THREAD_PRIORITY_MAX" "live k t"
    "t \<notin> set (mutex_waiters k m)" "mutex_value (mutexes k m) = 0"
    using ok own by (simp_all add: mutex_ok_def)
  have "live ?k1 t" using o(2) by (simp add: live_def)
  then obtain k2 where k2: "mutex_restore_priority m t ?k1 = Some k2"
      "reprioritised t (original_priority (mutexes k m)) ?k1 k2"
    using mutex_restore_priority_spec [of ?k1 t m] k o(1) by auto
  note r = reprioritisedD [OF k2(2)]
  have w2: "mutex_waiters k2 m = mutex_waiters k m" using r(7) [of "SuspendThread (OMutex m)"] by simp
  have c2: "rt_current_thread k2 \<noteq> None" using r(2) cur by simp
  have m2: "mutexes k2 m = (mutexes k m)\<lparr>hold := 0\<rparr>" using r(8) hold by simp
  have rel: "rt_mutex_release m k = Option.bind (mutex_hand_over m k2) (\<lambda>k. Some (RT_EOK, k))"
    using rt_mutex_release_eq [OF m cur nest own] hold k2(1) by (simp add: Let_def)
  have pr: "u \<noteq> t \<Longrightarrow> current_priority (threads k2 u) = current_priority (threads k u)" for u
    using r(3) [of u] by simp
  show ?thesis
  proof (cases "mutex_waiters k m")
    case Nil
    with mutex_hand_over_spec(1) [OF r(1) c2, of m] w2 rel r(1,4) m2 pr o(4) show ?thesis
      by (auto simp: mutex_released_def mutex_ok_def)
  next
    case (Cons w ws)
    let ?k3 = "upd_mutex m (\<lambda>x. x\<lparr>owner := Some w, original_priority := current_priority (threads k2 w),
        hold := hold x + 1\<rparr>) k2"
    from mutex_hand_over_spec(2) [OF r(1) c2, of m w ws] w2 Cons obtain k' where
      k': "mutex_hand_over m k2 = Some k'" "woken (SuspendThread (OMutex m)) w ?k3 k'"
      by (auto elim: returnsE)
    note w = k'(2) [unfolded woken_def]
    have f: "ipc_frame ?k3 k'" using w by blast
    have wt: "w \<noteq> t" using o(3) Cons by auto
    have "distinct (mutex_waiters k m)"
      using sched_invD(7) [OF kinvD(1) [OF k]] by (simp add: lists_wf_def)
    then have nw: "w \<notin> set ws" using Cons by simp
    have "tstat k w = RT_THREAD_SUSPEND"
      using sched_invD(2) [OF kinvD(1) [OF k], of w "SuspendThread (OMutex m)"] Cons by simp
    then have "tprio k w < RT_THREAD_PRIORITY_MAX" using live_prio [OF k, of w] by simp
    moreover have "mutexes k' m = \<lparr>mutex_value = 0, original_priority = current_priority (threads k w),
        hold = 1, owner = Some w\<rparr>"
      using ipc_frameD(2) [OF f] m2 o(4) pr [OF wt] by simp
    moreover have "live k' w" using w by (auto simp: runnable_def)
    moreover have "mutex_waiters k' m = ws" using w w2 Cons by simp
    moreover have "current_priority (threads k' u) = current_priority (threads k2 u)"
        "error (threads k' u) = error (threads k2 u)" for u
      using ipc_frameD(14) [OF f, of u] w by simp_all
    ultimately have "mutex_released m t k k'"
      using w r(4,5) pr nw Cons by (simp add: mutex_released_def mutex_ok_def)
    with k'(1) rel show ?thesis by simp
  qed
qed

text \<open>
  C9. \<^verbatim>\<open>rt_mutex_release\<close> on every branch, called by the running thread: a thread that does
  not own the mutex is refused; a nested hold is undone; the last release gives the owner its
  own priority back and either frees the mutex or makes the first waiter the owner, which
  then can run and whose take succeeds. The mutex invariant is kept throughout, and for
  waiters in priority order the new owner has at least the priority of those still waiting.
\<close>

theorem rt_mutex_release_correct:
  assumes k: "kinv k" and cur: "rt_current_thread k = Some t" and m: "is_mutex m k"
    and ok: "mutex_ok k m" and nest: "rt_interrupt_nest k = 0"
  shows "(owner (mutexes k m) \<noteq> Some t \<longrightarrow>
      rt_mutex_release m k = Some (- RT_ERROR, upd_thread t (\<lambda>x. x\<lparr>error := - RT_ERROR\<rparr>) k)) \<and>
    (owner (mutexes k m) = Some t \<and> hold (mutexes k m) \<noteq> 1 \<longrightarrow>
      (\<exists>k'. rt_mutex_release m k = Some (RT_EOK, k') \<and> mutex_ok k' m \<and> owner (mutexes k' m) = Some t \<and>
        hold (mutexes k' m) = hold (mutexes k m) - 1 \<and> threads k' = threads k \<and> tlists k' = tlists k)) \<and>
    (owner (mutexes k m) = Some t \<and> hold (mutexes k m) = 1 \<longrightarrow>
      (\<exists>k'. rt_mutex_release m k = Some (RT_EOK, k') \<and> mutex_released m t k k' \<and>
        (waiters_sorted k m \<longrightarrow> pi_ok k' m \<and> waiters_sorted k' m)))"
proof (intro conjI impI; (elim conjE)?)
  assume "owner (mutexes k m) \<noteq> Some t"
  then show "rt_mutex_release m k = Some (- RT_ERROR, upd_thread t (\<lambda>x. x\<lparr>error := - RT_ERROR\<rparr>) k)"
    using cur m nest by (simp add: rt_mutex_release_def RT_DEBUG_IN_THREAD_CONTEXT_def
        RT_DEBUG_NOT_IN_INTERRUPT_def rt_thread_self_def rt_interrupt_get_nest_def)
next
  assume own: "owner (mutexes k m) = Some t" and "hold (mutexes k m) \<noteq> 1"
  then show "\<exists>k'. rt_mutex_release m k = Some (RT_EOK, k') \<and> mutex_ok k' m \<and> owner (mutexes k' m) = Some t \<and>
      hold (mutexes k' m) = hold (mutexes k m) - 1 \<and> threads k' = threads k \<and> tlists k' = tlists k"
    using rt_mutex_release_eq [OF m cur nest own] ok by (simp add: mutex_ok_def live_def)
next
  assume own: "owner (mutexes k m) = Some t" and hold: "hold (mutexes k m) = 1"
  from mutex_release_last [OF k cur m ok nest own hold] obtain k' where
    k': "rt_mutex_release m k = Some (RT_EOK, k')" "mutex_released m t k k'" by blast
  have "t \<notin> set (mutex_waiters k m)" using ok own by (simp add: mutex_ok_def)
  then have p: "current_priority (threads k' u) = current_priority (threads k u)"
    if "u \<in> set (mutex_waiters k m)" for u
    using k'(2) that by (auto simp: mutex_released_def)
  have "pi_ok k' m \<and> waiters_sorted k' m" if s: "waiters_sorted k m"
  proof (cases "mutex_waiters k m")
    case Nil
    then show ?thesis using k'(2) by (simp add: mutex_released_def pi_ok_def waiters_sorted_def by_prio_def)
  next
    case (Cons w ws)
    have "by_prio (\<lambda>u. current_priority (threads k' u)) (mutex_waiters k m)"
      using s by_prio_cong [of "mutex_waiters k m", OF p] by (simp add: waiters_sorted_def)
    then show ?thesis
      using k'(2) Cons by (auto simp: mutex_released_def pi_ok_def waiters_sorted_def by_prio_def
          word_le_nat_alt)
  qed
  with k' show "\<exists>k'. rt_mutex_release m k = Some (RT_EOK, k') \<and> mutex_released m t k k' \<and>
      (waiters_sorted k m \<longrightarrow> pi_ok k' m \<and> waiters_sorted k' m)" by blast
qed

text \<open>Thread 1 owns the mutex, at its own priority 10, and threads 3 and 2 wait, in this order.\<close>

definition example_contended :: kernel where
  "example_contended = upd_mutex 0 (\<lambda>_. \<lparr>mutex_value = 0, original_priority = 10, hold = 1, owner = Some 1\<rparr>)
     (the (rt_ipc_list_suspend (SuspendThread (OMutex 0)) 2 RT_IPC_FLAG_FIFO
       (example_waiting (SuspendThread (OMutex 0)))))"

lemma example_contended_facts:
  "kinv example_contended" "rt_current_thread example_contended = Some 1" "is_mutex 0 example_contended"
  "mutex_ok example_contended 0" "rt_interrupt_nest example_contended = 0"
  "owner (mutexes example_contended 0) = Some 1" "hold (mutexes example_contended 0) = 1"
  "mutex_waiters example_contended 0 = [3, 2]" "tprio example_contended 2 = 10"
  "tprio example_contended 3 = 20" "original_priority (mutexes example_contended 0) = 10"
proof -
  let ?h = "SuspendThread (OMutex 0)"
  let ?w = "example_waiting ?h"
  have w: "kinv ?w" by (rule kinv_example_waiting) simp
  have r: "runnable ?w 2" by (simp add: example_waiting_def runnable_def)
  obtain g where "rt_ipc_list_suspend ?h 2 RT_IPC_FLAG_FIFO ?w = Some (waiting ?h 2 RT_IPC_FLAG_FIFO ?w g)"
      "kinv (waiting ?h 2 RT_IPC_FLAG_FIFO ?w g)"
    using rt_ipc_list_suspend_spec [OF w r, of RT_IPC_FLAG_FIFO ?h] by auto
  then have e: "example_contended = upd_mutex 0 (\<lambda>_. \<lparr>mutex_value = 0, original_priority = 10, hold = 1,
      owner = Some 1\<rparr>) (waiting ?h 2 RT_IPC_FLAG_FIFO ?w g)" "kinv example_contended"
    by (simp_all add: example_contended_def)
  note s = enlisted_sel [OF w r, where h = ?h and L = "wait_insert RT_IPC_FLAG_FIFO (\<lambda>u. current_priority (threads ?w u)) 2 (tlists ?w ?h)" and g = g, simplified]
  show "kinv example_contended" by (rule e(2))
  show "rt_current_thread example_contended = Some 1" "owner (mutexes example_contended 0) = Some 1"
    "hold (mutexes example_contended 0) = 1" "mutex_waiters example_contended 0 = [3, 2]"
    "tprio example_contended 2 = 10" "tprio example_contended 3 = 20"
    "original_priority (mutexes example_contended 0) = 10"
    using s(2-4) by (simp_all add: e(1) example_waiting_def wait_insert_def)
  then show "mutex_ok example_contended 0"
    using s(2) by (simp add: mutex_ok_def live_def e(1) example_waiting_def)
  show "is_mutex 0 example_contended" "rt_interrupt_nest example_contended = 0"
    using ipc_frameD(11,13) [OF s(7)] example_mutex_facts(1) [of 0]
    by (simp_all add: e(1) is_mutex_def rt_object_get_type_def example_waiting_def upd_mutex_def)
qed

theorem rt_mutex_release_correct_witness:
  "\<exists>k'. rt_mutex_release 0 example_contended = Some (RT_EOK, k') \<and> owner (mutexes k' 0) = Some 3 \<and>
     mutex_waiters k' 0 = [2]"
  using rt_mutex_release_correct [OF example_contended_facts(1-5)] example_contended_facts(6-8)
  by (auto simp: mutex_released_def)

text \<open>
  Priority inheritance ends at a hand-over: the thread that \<^verbatim>\<open>rt_mutex_release\<close> makes the
  owner does not inherit the priority of the threads still waiting. With a first-in first-out
  mutex, a waiter of higher priority than the new owner is left waiting behind it, at the
  owner's own, lower priority.
\<close>

theorem mutex_hand_over_inversion:
  assumes k: "kinv k" and cur: "rt_current_thread k = Some t" and m: "is_mutex m k"
    and ok: "mutex_ok k m" and nest: "rt_interrupt_nest k = 0"
    and own: "owner (mutexes k m) = Some t" and hold: "hold (mutexes k m) = 1"
    and q: "mutex_waiters k m = w # ws" and v: "v \<in> set ws" "tprio k v < tprio k w"
  shows "\<exists>k'. rt_mutex_release m k = Some (RT_EOK, k') \<and> owner (mutexes k' m) = Some w \<and>
    v \<in> set (mutex_waiters k' m) \<and> tprio k' v < tprio k' w \<and> \<not> pi_ok k' m"
proof -
  from mutex_release_last [OF k cur m ok nest own hold] obtain k' where
    k': "rt_mutex_release m k = Some (RT_EOK, k')" "mutex_released m t k k'" by blast
  have "v \<noteq> t" "w \<noteq> t" using ok own q v(1) by (auto simp: mutex_ok_def)
  then have "tprio k' v < tprio k' w" "owner (mutexes k' m) = Some w" "v \<in> set (mutex_waiters k' m)"
    using k'(2) q v by (simp_all add: mutex_released_def)
  then show ?thesis using k'(1) unfolding pi_ok_def by (metis linorder_not_less)
qed

theorem mutex_hand_over_inversion_witness:
  "\<exists>k'. rt_mutex_release 0 example_contended = Some (RT_EOK, k') \<and> \<not> pi_ok k' 0"
  using mutex_hand_over_inversion [OF example_contended_facts(1-8), of 2]
    example_contended_facts(9,10) by auto

section \<open>Detach and delete\<close>

lemma rt_mutex_detach_spec:
  assumes k: "kinv k" and m: "is_mutex m k" and st: "rt_object_is_systemobject (OMutex m) k"
  shows "returns (rt_mutex_detach m k) (\<lambda>(r, k'). r = RT_EOK \<and> kinv k' \<and> \<not> is_mutex m k' \<and>
    mutex_waiters k' m = [] \<and> (\<forall>t \<in> set (mutex_waiters k m). runnable k' t \<and>
      rt_mutex_take_resume m t time k' = Some (Ret (- RT_ERROR) VNone, k')))"
proof -
  obtain k1 where k1: "rt_ipc_list_resume_all (SuspendThread (OMutex m)) k = Some k1"
      "woken_all (SuspendThread (OMutex m)) k k1" "kinv (rt_object_detach (OMutex m) k1)"
    using ipc_destroy [OF k, of "SuspendThread (OMutex m)" "OMutex m"] by auto
  then show ?thesis
    using m st by (auto simp: rt_mutex_detach_def woken_all_def runnable_def rt_mutex_take_resume_def
        is_mutex_def rt_object_get_type_def)
qed

end
