(* ===== verification/Alloc.thy ===== *)
theory Alloc
  imports RT_Prelude
begin

text \<open>
  The interface of a block allocator, which the memory pools and the heap implement: a block
  handed out is not in use, and a block given back is not in use any more. The consequence
  for a client that gives back only what it holds: the blocks it holds are always distinct
  and exactly those in use.
\<close>

datatype ('r, 'b) alloc_op = Alloc 'r | Free 'b

text \<open>A client run: it keeps the blocks it got, and gives back only blocks it holds.\<close>

fun alloc_run :: "('r \<Rightarrow> 's \<Rightarrow> ('b option \<times> 's) option) \<Rightarrow> ('b \<Rightarrow> 's \<Rightarrow> 's option) \<Rightarrow>
    ('r, 'b) alloc_op list \<Rightarrow> 'b list \<Rightarrow> 's \<Rightarrow> ('b list \<times> 's) option" where
  "alloc_run get put [] held s = Some (held, s)"
| "alloc_run get put (Alloc r # ops) held s = do {
     (b, s) \<leftarrow> get r s;
     alloc_run get put ops (case b of None \<Rightarrow> held | Some x \<Rightarrow> x # held) s
   }"
| "alloc_run get put (Free x # ops) held s =
     (if x \<in> set held then do {
        s \<leftarrow> put x s;
        alloc_run get put ops (remove1 x held) s
      } else alloc_run get put ops held s)"

locale allocator =
  fixes inv :: "'s \<Rightarrow> bool"
    and used :: "'s \<Rightarrow> 'b set"
    and get :: "'r \<Rightarrow> 's \<Rightarrow> ('b option \<times> 's) option"
    and put :: "'b \<Rightarrow> 's \<Rightarrow> 's option"
  assumes get: "inv s \<Longrightarrow> returns (get r s) (\<lambda>(b, s'). inv s' \<and>
      (case b of None \<Rightarrow> used s' = used s | Some x \<Rightarrow> x \<notin> used s \<and> used s' = insert x (used s)))"
    and put: "inv s \<Longrightarrow> x \<in> used s \<Longrightarrow> returns (put x s) (\<lambda>s'. inv s' \<and> used s' = used s - {x})"
begin

lemma alloc_run_distinct:
  assumes "inv s" and "distinct held" and "set held = used s"
  shows "returns (alloc_run get put ops held s) (\<lambda>(held', s'). inv s' \<and> distinct held' \<and> set held' = used s')"
  using assms
proof (induction ops arbitrary: held s)
  case (Cons x ops)
  show ?case
  proof (cases x)
    case (Alloc r)
    from get [OF Cons.prems(1), of r] obtain b s1 where
      s1: "get r s = Some (b, s1)" "inv s1" "case b of None \<Rightarrow> used s1 = used s
        | Some y \<Rightarrow> y \<notin> used s \<and> used s1 = insert y (used s)"
      by (auto elim!: returnsE)
    show ?thesis
      using Cons.IH [OF s1(2), of "case b of None \<Rightarrow> held | Some y \<Rightarrow> y # held"] Cons.prems s1 Alloc
      by (auto split: option.splits)
  next
    case (Free y)
    show ?thesis
    proof (cases "y \<in> set held")
      case True
      with put [of s y] Cons.prems obtain s1 where
        s1: "put y s = Some s1" "inv s1" "used s1 = used s - {y}" by (auto elim!: returnsE)
      show ?thesis
        using Cons.IH [OF s1(2), of "remove1 y held"] Cons.prems s1 Free True
        by (simp add: set_remove1_eq)
    qed (use Cons Free in simp)
  qed
qed simp

end

end
