(* ===== verification/Mempool.thy ===== *)
theory Mempool
  imports Ipc_Base Alloc
begin

text \<open>
  Memory pools: \<^verbatim>\<open>src/mempool.c\<close>. A pool is an array of blocks of one size, each with a
  header word in front: the link to the next free block, or the pool while the block is
  allocated. A block is named by its number; the pointer the code returns is
  \<open>start_address + i * (block_size + 4) + 4\<close>.
\<close>

section \<open>Blocks\<close>

text \<open>
  The loop that links the blocks. Its last statement writes the header of the block before
  \<open>offset\<close>, which is in front of the pool when there is no block.
\<close>

definition mp_init_blocks :: "rt_mempool \<Rightarrow> rt_mempool option" where
  "mp_init_blocks mp = do {
     let n = unat (block_total_count mp);
     let hdr = fold (\<lambda>offset h. h(offset := Link (Some (offset + 1)))) [0..<n] (block_hdr mp);
     rt_assert (0 < n);
     Some (mp\<lparr>block_hdr := hdr(n - 1 := Link None), block_list := Some 0\<rparr>)
   }"

definition mp_take :: "nat \<Rightarrow> rt_mempool \<Rightarrow> (nat \<times> rt_mempool) option" where
  "mp_take p mp = do {
     let mp = mp\<lparr>block_free_count := block_free_count mp - 1\<rparr>;
     b \<leftarrow> block_list mp;
     nx \<leftarrow> (case block_hdr mp b of Link nx \<Rightarrow> Some nx | Pool _ \<Rightarrow> None);
     Some (b, mp\<lparr>block_list := nx, block_hdr := (block_hdr mp)(b := Pool p)\<rparr>)
   }"

definition mp_give :: "nat \<Rightarrow> rt_mempool \<Rightarrow> rt_mempool" where
  "mp_give b mp =
     (let mp = mp\<lparr>block_free_count := block_free_count mp + 1\<rparr>
      in mp\<lparr>block_hdr := (block_hdr mp)(b := Link (block_list mp)), block_list := Some b\<rparr>)"

text \<open>The free list is \<open>fs\<close>; every other block belongs to an owner.\<close>

fun free_list :: "(nat \<Rightarrow> mp_word) \<Rightarrow> nat option \<Rightarrow> nat list \<Rightarrow> bool" where
  "free_list hdr p [] \<longleftrightarrow> p = None"
| "free_list hdr p (b # bs) \<longleftrightarrow> p = Some b \<and> (\<exists>nx. hdr b = Link nx \<and> free_list hdr nx bs)"

definition mp_inv :: "nat \<Rightarrow> rt_mempool \<Rightarrow> nat list \<Rightarrow> bool" where
  "mp_inv p mp fs \<longleftrightarrow> free_list (block_hdr mp) (block_list mp) fs \<and> distinct fs \<and>
     set fs \<subseteq> {..<unat (block_total_count mp)} \<and> unat (block_free_count mp) = length fs \<and>
     (\<forall>b < unat (block_total_count mp). b \<notin> set fs \<longrightarrow> block_hdr mp b = Pool p)"

definition mp_ok :: "nat \<Rightarrow> rt_mempool \<Rightarrow> bool" where
  "mp_ok p mp \<longleftrightarrow> (\<exists>fs. mp_inv p mp fs)"

text \<open>The blocks that are allocated.\<close>

definition mp_used :: "rt_mempool \<Rightarrow> nat set" where
  "mp_used mp = {b. b < unat (block_total_count mp) \<and> (\<exists>p. block_hdr mp b = Pool p)}"

lemma free_list_other [simp]: "b \<notin> set fs \<Longrightarrow> free_list (hdr(b := w)) p fs = free_list hdr p fs"
  by (induction fs arbitrary: p) auto

lemma free_list_Link: "free_list hdr p fs \<Longrightarrow> b \<in> set fs \<Longrightarrow> \<exists>nx. hdr b = Link nx"
  by (induction fs arbitrary: p) auto

lemma mp_used_inv:
  assumes "mp_inv p mp fs"
  shows "mp_used mp = {..<unat (block_total_count mp)} - set fs"
  using assms free_list_Link unfolding mp_used_def mp_inv_def by fastforce

lemma mp_take_inv:
  assumes i: "mp_inv p mp (b # fs)"
  obtains mp' where "mp_take p mp = Some (b, mp')" and "mp_inv p mp' fs"
    and "mp_used mp' = insert b (mp_used mp)" and "b \<notin> mp_used mp"
    and "suspend_thread_count mp' = suspend_thread_count mp"
    and "block_total_count mp' = block_total_count mp"
proof -
  from i obtain nx where nx: "block_list mp = Some b" "block_hdr mp b = Link nx"
    by (auto simp: mp_inv_def)
  let ?mp = "mp\<lparr>block_free_count := block_free_count mp - 1, block_list := nx,
    block_hdr := (block_hdr mp)(b := Pool p)\<rparr>"
  have c: "unat (block_free_count mp) = Suc (length fs)" using i by (simp add: mp_inv_def)
  have "unat (block_free_count mp - 1) = length fs" by (rule unat_Suc_minus [OF c])
  then have m: "mp_inv p ?mp fs" using i nx by (auto simp: mp_inv_def)
  have "b < unat (block_total_count mp)" "b \<notin> set fs" using i by (auto simp: mp_inv_def)
  then have "mp_used ?mp = insert b (mp_used mp)" "b \<notin> mp_used mp"
    unfolding mp_used_inv [OF i] mp_used_inv [OF m] by auto
  then show ?thesis using m nx by (intro that [of ?mp]) (simp_all add: mp_take_def)
qed

lemma mp_give_static [simp]:
  "block_total_count (mp_give b mp) = block_total_count mp"
  "suspend_thread_count (mp_give b mp) = suspend_thread_count mp"
  by (simp_all add: mp_give_def)

lemma mp_give_inv:
  assumes i: "mp_inv p mp fs" and b: "b \<in> mp_used mp"
  shows "mp_inv p (mp_give b mp) (b # fs)" and "mp_used (mp_give b mp) = mp_used mp - {b}"
proof -
  have b': "b < unat (block_total_count mp)" "b \<notin> set fs"
    using b unfolding mp_used_inv [OF i] by auto
  have "set (b # fs) \<subseteq> {..<unat (block_total_count mp)}" "distinct (b # fs)"
    using i b' by (auto simp: mp_inv_def)
  then have "length (b # fs) \<le> unat (block_total_count mp)"
    by (metis card_lessThan card_mono distinct_card finite_lessThan)
  then have "block_free_count mp < block_total_count mp"
    using i by (simp add: mp_inv_def word_less_nat_alt)
  from unat_Suc_less [OF this] have "unat (block_free_count mp + 1) = Suc (length fs)"
    using i by (simp add: mp_inv_def)
  then show m: "mp_inv p (mp_give b mp) (b # fs)"
    using i b' by (auto simp: mp_inv_def mp_give_def)
  show "mp_used (mp_give b mp) = mp_used mp - {b}"
    unfolding mp_used_inv [OF i] mp_used_inv [OF m] by (auto simp: mp_give_def)
qed

section \<open>Operations\<close>

abbreviation mp_waiters :: "kernel \<Rightarrow> nat \<Rightarrow> nat list" where
  "mp_waiters k p \<equiv> tlists k (SuspendThread (OMempool p))"

definition set_mp :: "nat \<Rightarrow> rt_mempool \<Rightarrow> kernel \<Rightarrow> kernel" where
  "set_mp p x k = k\<lparr>mempools := (mempools k)(p := x)\<rparr>"

definition is_mempool :: "nat \<Rightarrow> kernel \<Rightarrow> bool" where
  "is_mempool p k \<longleftrightarrow> rt_object_get_type (OMempool p) k = RT_Object_Class_MemPool"

definition mp_fields :: "nat \<Rightarrow> u32 \<Rightarrow> u32 \<Rightarrow> u32 \<Rightarrow> u32 \<Rightarrow> kernel \<Rightarrow> kernel option" where
  "mp_fields p start sz bsz n k = do {
     let k = rt_ipc_object_init (SuspendThread (OMempool p)) k;
     mp \<leftarrow> mp_init_blocks ((mempools k p)\<lparr>start_address := start, mp_size := sz, block_size := bsz,
       block_total_count := n, block_free_count := n, suspend_thread_count := 0\<rparr>);
     Some (set_mp p mp k)
   }"

text \<open>A block size that wraps around to zero makes the code divide by zero.\<close>

definition rt_mp_init :: "nat \<Rightarrow> u8 list \<Rightarrow> u32 \<Rightarrow> u32 \<Rightarrow> u32 \<Rightarrow> kernel \<Rightarrow> (rt_err_t \<times> kernel) option" where
  "rt_mp_init p nm start sz bsz k = do {
     k \<leftarrow> rt_object_init (OMempool p) RT_Object_Class_MemPool nm k;
     let sz = RT_ALIGN_DOWN sz RT_ALIGN_SIZE;
     let bsz = RT_ALIGN bsz RT_ALIGN_SIZE;
     rt_assert (bsz + 4 \<noteq> 0);
     k \<leftarrow> mp_fields p start sz bsz (sz div (bsz + 4)) k;
     Some (RT_EOK, k)
   }"

definition rt_mp_create :: "nat option \<Rightarrow> u32 option \<Rightarrow> u8 list \<Rightarrow> u32 \<Rightarrow> u32 \<Rightarrow> kernel \<Rightarrow>
    (nat option \<times> kernel) option" where
  "rt_mp_create mallocd start_mallocd nm count bsz k = do {
     RT_DEBUG_NOT_IN_INTERRUPT k;
     (_, k) \<leftarrow> rt_object_allocate (map_option OMempool mallocd) RT_Object_Class_MemPool nm k;
     case mallocd of
       None \<Rightarrow> Some (None, k)
     | Some p \<Rightarrow> do {
         let bsz = RT_ALIGN bsz RT_ALIGN_SIZE;
         let sz = (bsz + 4) * count;
         case start_mallocd of
           None \<Rightarrow> do {
             k \<leftarrow> rt_object_delete (OMempool p) k;
             Some (None, k)
           }
         | Some start \<Rightarrow> do {
             k \<leftarrow> mp_fields p start sz bsz count k;
             Some (Some p, k)
           }
       }
   }"

partial_function (option) mp_wake_all :: "nat \<Rightarrow> kernel \<Rightarrow> kernel option" where
  "mp_wake_all p k =
     (case mp_waiters k p of
        [] \<Rightarrow> Some k
      | t # _ \<Rightarrow> Option.bind (rt_thread_resume t (upd_thread t (\<lambda>x. x\<lparr>error := - RT_ERROR\<rparr>) k))
          (\<lambda>(_, k). mp_wake_all p (set_mp p ((mempools k p)
             \<lparr>suspend_thread_count := suspend_thread_count (mempools k p) - 1\<rparr>) k)))"

definition rt_mp_detach :: "nat \<Rightarrow> kernel \<Rightarrow> (rt_err_t \<times> kernel) option" where
  "rt_mp_detach p k = do {
     rt_assert (is_mempool p k);
     rt_assert (rt_object_is_systemobject (OMempool p) k);
     k \<leftarrow> mp_wake_all p k;
     Some (RT_EOK, rt_object_detach (OMempool p) k)
   }"

definition rt_mp_delete :: "nat \<Rightarrow> kernel \<Rightarrow> (rt_err_t \<times> kernel) option" where
  "rt_mp_delete p k = do {
     RT_DEBUG_NOT_IN_INTERRUPT k;
     rt_assert (is_mempool p k);
     rt_assert (\<not> rt_object_is_systemobject (OMempool p) k);
     k \<leftarrow> mp_wake_all p k;
     k \<leftarrow> rt_object_delete (OMempool p) k;
     Some (RT_EOK, k)
   }"

text \<open>
  One turn of the loop of \<^verbatim>\<open>rt_mp_alloc\<close>, with the allocation itself when a block is free. A
  thread that has to wait is put in front of those that wait already.
\<close>

definition mp_alloc_loop :: "nat \<Rightarrow> int \<Rightarrow> kernel \<Rightarrow> (outcome \<times> kernel) option" where
  "mp_alloc_loop p time k =
     (if block_free_count (mempools k p) = 0 then
        if time = 0 then Some (Ret RT_EOK (VBlock None), rt_set_errno (- RT_ETIMEOUT) k)
        else do {
          RT_DEBUG_NOT_IN_INTERRUPT k;
          t \<leftarrow> rt_thread_self k;
          let k = upd_thread t (\<lambda>x. x\<lparr>error := RT_EOK\<rparr>) k;
          (_, k) \<leftarrow> rt_thread_suspend t k;
          let k = upd_tlists (list_insert_after (SuspendThread (OMempool p)) t) k;
          let k = set_mp p ((mempools k p)\<lparr>suspend_thread_count := suspend_thread_count (mempools k p) + 1\<rparr>) k;
          let before_sleep = rt_tick_get k;
          k \<leftarrow> arm_schedule t time k;
          Some (Wait (K_mp_alloc p time before_sleep), k)
        }
      else do {
        (b, mp) \<leftarrow> mp_take p (mempools k p);
        Some (Ret RT_EOK (VBlock (Some b)), set_mp p mp k)
      })"

definition rt_mp_alloc :: "nat \<Rightarrow> int \<Rightarrow> kernel \<Rightarrow> (outcome \<times> kernel) option" where
  "rt_mp_alloc p time k = mp_alloc_loop p time k"

definition rt_mp_alloc_resume ::
    "nat \<Rightarrow> nat \<Rightarrow> int \<Rightarrow> u32 \<Rightarrow> kernel \<Rightarrow> (outcome \<times> kernel) option" where
  "rt_mp_alloc_resume t p time before_sleep k =
     (if error (threads k t) \<noteq> RT_EOK then Some (Ret RT_EOK (VBlock None), k)
      else mp_alloc_loop p (time_left time before_sleep k) k)"

text \<open>
  \<^verbatim>\<open>rt_mp_free\<close> of block \<open>b\<close> of pool \<open>p\<close>: the pool is read from the header of the block; the
  header of a block that is not allocated holds no pool.
\<close>

definition rt_mp_free :: "nat \<Rightarrow> nat \<Rightarrow> kernel \<Rightarrow> kernel option" where
  "rt_mp_free p b k = do {
     mp \<leftarrow> (case block_hdr (mempools k p) b of Pool q \<Rightarrow> Some q | Link _ \<Rightarrow> None);
     rt_assert (mp = p);
     let k = set_mp mp (mp_give b (mempools k mp)) k;
     if suspend_thread_count (mempools k mp) > 0 then
       (case mp_waiters k mp of
          [] \<Rightarrow> None
        | t # _ \<Rightarrow> do {
            (_, k) \<leftarrow> rt_thread_resume t (upd_thread t (\<lambda>x. x\<lparr>error := RT_EOK\<rparr>) k);
            let k = set_mp mp ((mempools k mp)\<lparr>suspend_thread_count := suspend_thread_count (mempools k mp) - 1\<rparr>) k;
            rt_schedule k
          })
     else Some k
   }"

section \<open>Allocating and freeing\<close>

text \<open>A client of the blocks alone, without waiting.\<close>

definition mp_get :: "nat \<Rightarrow> unit \<Rightarrow> rt_mempool \<Rightarrow> (nat option \<times> rt_mempool) option" where
  "mp_get p _ mp = (if block_free_count mp = 0 then Some (None, mp)
     else do { (b, mp) \<leftarrow> mp_take p mp; Some (Some b, mp) })"

lemma mp_free_count:
  assumes "mp_inv p mp fs"
  shows "block_free_count mp = 0 \<longleftrightarrow> fs = []"
  using assms by (auto simp: mp_inv_def unat_eq_zero)

interpretation mp: allocator "\<lambda>mp. mp_ok p mp \<and> block_total_count mp = n" mp_used "mp_get p"
  "\<lambda>b mp. Some (mp_give b mp)" for p n
proof unfold_locales
  show "returns (mp_get p r s) (\<lambda>(b, s'). (mp_ok p s' \<and> block_total_count s' = n) \<and>
      (case b of None \<Rightarrow> mp_used s' = mp_used s
      | Some x \<Rightarrow> x \<notin> mp_used s \<and> mp_used s' = insert x (mp_used s)))"
    if "mp_ok p s \<and> block_total_count s = n" for s r
  proof -
    from that obtain fs where i: "mp_inv p s fs" by (auto simp: mp_ok_def)
    show ?thesis
    proof (cases fs)
      case Nil
      then show ?thesis using that mp_free_count [OF i] by (simp add: mp_get_def)
    next
      case (Cons b fs')
      obtain s' where "mp_take p s = Some (b, s')" "mp_inv p s' fs'"
          "mp_used s' = insert b (mp_used s)" "b \<notin> mp_used s" "block_total_count s' = block_total_count s"
        using mp_take_inv i Cons by metis
      then show ?thesis using that Cons mp_free_count [OF i] by (auto simp: mp_get_def mp_ok_def)
    qed
  qed
  show "returns (Some (mp_give x s)) (\<lambda>s'. (mp_ok p s' \<and> block_total_count s' = n) \<and>
      mp_used s' = mp_used s - {x})"
    if "mp_ok p s \<and> block_total_count s = n" "x \<in> mp_used s" for s x
    using that mp_give_inv [of p s _ x] by (auto simp: mp_ok_def)
qed

lemma set_mp_sel [simp]:
  "mempools (set_mp p x k) = (mempools k)(p := x)" "tlists (set_mp p x k) = tlists k"
  "threads (set_mp p x k) = threads k" "objs (set_mp p x k) = objs k"
  "rt_current_thread (set_mp p x k) = rt_current_thread k" "kinv (set_mp p x k) = kinv k"
  "rt_interrupt_nest (set_mp p x k) = rt_interrupt_nest k" "rt_tick (set_mp p x k) = rt_tick k"
  "rt_timer_list (set_mp p x k) = rt_timer_list k"
  by (simp_all add: set_mp_def)

text \<open>The scheduler's part of the state does not depend on the pools.\<close>

lemma set_mp_commute:
  "set_mp p x (suspended t k g) = suspended t (set_mp p x k) g"
  "set_mp p x (resumed t k g) = resumed t (set_mp p x k) g"
  "set_mp p x (enlisted h t L k g) = enlisted h t L (set_mp p x k) g"
  by (simp_all add: set_mp_def suspended_def resumed_def enlisted_def stopped_def unqueued_def set_stat_def
      Let_def)

lemma mempools_frame [simp]:
  "mempools (suspended t k g) = mempools k" "mempools (enlisted h t L k g) = mempools k"
  "mempools (resumed t k g) = mempools k"
  by (simp_all add: suspended_def enlisted_def resumed_def stopped_def unqueued_def Let_def)

text \<open>The counter of the waiting threads agrees with their list.\<close>

definition mp_counted :: "kernel \<Rightarrow> nat \<Rightarrow> bool" where
  "mp_counted k p \<longleftrightarrow> unat (suspend_thread_count (mempools k p)) = length (mp_waiters k p)"

definition mp_waiting :: "nat \<Rightarrow> nat \<Rightarrow> kernel \<Rightarrow> kernel" where
  "mp_waiting p t k = set_mp p ((mempools k p)\<lparr>suspend_thread_count := suspend_thread_count (mempools k p) + 1\<rparr>)
     (upd_thread t (\<lambda>x. x\<lparr>error := RT_EOK\<rparr>) k)"

lemma mp_alloc_waits:
  assumes k: "kinv k" and cur: "rt_current_thread k = Some t" and run: "runnable k t"
    and time: "time_ok time" "time \<noteq> 0" and nest: "rt_interrupt_nest k = 0"
    and none: "block_free_count (mempools k p) = 0"
  shows "\<exists>k'. mp_alloc_loop p time k = Some (Wait (K_mp_alloc p time (rt_tick k)), k') \<and>
    blocked_on (SuspendThread (OMempool p)) t (t # mp_waiters k p) time (mp_waiting p t k) k'"
proof -
  let ?h = "SuspendThread (OMempool p)" and ?k0 = "upd_thread t (\<lambda>x. x\<lparr>error := RT_EOK\<rparr>) k"
  let ?k1 = "mp_waiting p t k" and ?L = "t # mp_waiters k p"
  have k0: "kinv ?k0" "runnable ?k0 t" "rt_current_thread ?k0 = Some t" "tlists ?k0 = tlists k"
      "mempools ?k0 = mempools k"
    using kinv_error [OF k] run cur by (simp_all add: runnable_def kdefs)
  then have k1: "kinv ?k1" "runnable ?k1 t" "rt_current_thread ?k1 = Some t" "tlists ?k1 = tlists k"
      "rt_tick ?k1 = rt_tick k"
    by (simp_all add: mp_waiting_def runnable_def) (simp add: kdefs)
  obtain g where g: "rt_thread_suspend t ?k0 = Some (RT_EOK, suspended t ?k0 g)" "kinv (suspended t ?k0 g)"
    using rt_thread_suspend_spec [OF k0(1,2)] .
  have nt: "t \<notin> set (mp_waiters k p)" using not_waiting_runnable [OF k run, of ?h] by simp
  have s1: "suspended t ?k1 g = set_mp p ((mempools k p)\<lparr>suspend_thread_count :=
      suspend_thread_count (mempools k p) + 1\<rparr>) (suspended t ?k0 g)"
    by (simp add: mp_waiting_def set_mp_commute)
  have "kinv (suspended t ?k1 g)" unfolding s1 using g(2) by simp
  moreover have "distinct ?L"
    using nt sched_invD(7) [OF kinvD(1) [OF k]] by (simp add: lists_wf_def)
  ultimately have e: "kinv (enlisted ?h t ?L ?k1 g)"
    by (intro kinv_enlisted [OF k1(1,2)]) (simp_all add: k1(4))
  from block_on_spec [OF k1(1,3,2) _ time(1) e] obtain k' where
    k': "arm_schedule t time (enlisted ?h t ?L ?k1 g) = Some k'" "blocked_on ?h t ?L time ?k1 k'"
    by (auto elim!: returnsE)
  have l: "tlists (suspended t ?k0 g) = list_remove t (tlists k)"
    using suspended_sel(6) [OF k0(1)] k0(4) by simp
  have eq: "set_mp p ((mempools k p)\<lparr>suspend_thread_count := suspend_thread_count (mempools k p) + 1\<rparr>)
      (upd_tlists (list_insert_after ?h t) (suspended t ?k0 g)) = enlisted ?h t ?L ?k1 g"
    unfolding enlisted_def s1 using l nt by (simp add: upd_tlists_def list_insert_after_def set_mp_def
        list_remove_def k1(4))
  have "mempools (upd_tlists f x) = mempools x" for f x by (simp add: upd_tlists_def)
  moreover have "rt_tick (enlisted ?h t ?L ?k1 g) = rt_tick k"
    using ipc_frameD(9,10) [OF enlisted_sel(7) [OF k1(1,2)], of ?h ?L g] k1(5) by simp
  then have "rt_tick (upd_tlists (list_insert_after ?h t) (suspended t ?k0 g)) = rt_tick k"
    unfolding eq [symmetric] by simp
  moreover note eq
  ultimately show ?thesis
    using none time(2) nest cur g(1) k' k0(5)
    by (auto simp: mp_alloc_loop_def RT_DEBUG_NOT_IN_INTERRUPT_def rt_interrupt_get_nest_def
        rt_thread_self_def rt_tick_get_def)
qed

lemma mp_init_blocks_inv:
  assumes "mp_init_blocks mp = Some s" and "block_free_count mp = block_total_count mp"
  shows "mp_inv p s [0..<unat (block_total_count mp)]" and "block_total_count s = block_total_count mp"
    and "suspend_thread_count s = suspend_thread_count mp"
proof -
  let ?n = "unat (block_total_count mp)"
  let ?hdr = "fold (\<lambda>offset h. h(offset := Link (Some (offset + 1)))) [0..<?n] (block_hdr mp)"
  have n: "0 < ?n" and s: "s = mp\<lparr>block_hdr := ?hdr(?n - 1 := Link None), block_list := Some 0\<rparr>"
    using assms(1) by (auto simp: mp_init_blocks_def bind_eq_Some_conv Let_def)
  have hdr: "fold (\<lambda>offset h. h(offset := Link (Some (offset + 1)))) [0..<m] h0 i = Link (Some (i + 1))"
    if "i < m" for m i and h0 :: "nat \<Rightarrow> mp_word"
    using that by (induction m) auto
  have fl: "free_list (?hdr(?n - 1 := Link None)) (Some i) [i..<?n]" if "i < ?n" for i
    using that
  proof (induction "?n - i" arbitrary: i)
    case (Suc d)
    then have u: "[i..<?n] = i # [Suc i..<?n]" by (simp add: upt_conv_Cons)
    show ?case
    proof (cases "Suc i < ?n")
      case True
      then show ?thesis using Suc.hyps(1) [of "Suc i"] Suc.hyps(2) u hdr [OF Suc.prems] by auto
    next
      case False
      then show ?thesis using Suc.prems u by auto
    qed
  qed simp
  show "mp_inv p s [0..<?n]" using fl [OF n] assms(2) s by (simp add: mp_inv_def atLeast0LessThan)
  show "block_total_count s = block_total_count mp" "suspend_thread_count s = suspend_thread_count mp"
    unfolding s by simp_all
qed

lemma mp_free_used:
  assumes "mp_ok p mp"
  shows "card (mp_used mp) + unat (block_free_count mp) = unat (block_total_count mp)"
    and "mp_used mp \<subseteq> {..<unat (block_total_count mp)}"
proof -
  from assms obtain fs where i: "mp_inv p mp fs" by (auto simp: mp_ok_def)
  then have "length fs = card (set fs)" "set fs \<subseteq> {..<unat (block_total_count mp)}"
    using distinct_card [of fs] by (simp_all add: mp_inv_def)
  then show "card (mp_used mp) + unat (block_free_count mp) = unat (block_total_count mp)"
    using i card_mono [of "{..<unat (block_total_count mp)}" "set fs"]
    unfolding mp_used_inv [OF i] by (simp add: card_Diff_subset mp_inv_def)
qed (auto simp: mp_used_def)

text \<open>
  C14. For every sequence of allocations and releases on a newly initialised pool, by a client
  that releases only what it holds: no block is handed out while it is held, the blocks held
  are exactly those the headers mark as allocated, and together with the free count they add
  up to the blocks of the pool.
\<close>

theorem mempool_never_shared:
  assumes "mp_init_blocks mp = Some s" and "block_free_count mp = block_total_count mp"
  shows "\<exists>held s'. alloc_run (mp_get p) (\<lambda>b mp. Some (mp_give b mp)) ops [] s = Some (held, s') \<and>
    mp_ok p s' \<and> distinct held \<and> set held = mp_used s' \<and>
    length held + unat (block_free_count s') = unat (block_total_count mp)"
proof -
  note i = mp_init_blocks_inv(1) [OF assms, of p] and n = mp_init_blocks_inv(2) [OF assms]
  have "mp_used s = {}" unfolding mp_used_inv [OF i] using n by auto
  moreover have "mp_ok p s" using i by (auto simp: mp_ok_def)
  ultimately obtain held s' where r: "alloc_run (mp_get p) (\<lambda>b mp. Some (mp_give b mp)) ops [] s = Some (held, s')"
      "mp_ok p s'" "block_total_count s' = block_total_count mp" "distinct held" "set held = mp_used s'"
    using mp.alloc_run_distinct [of p s "block_total_count mp" "[]" ops] n by (auto elim!: returnsE)
  moreover have "length held = card (mp_used s')" using distinct_card [OF r(4)] r(5) by simp
  ultimately show ?thesis using mp_free_used(1) [OF r(2)] by auto
qed

text \<open>A pool of three blocks, and the three allocated in turn.\<close>

definition example_mp :: rt_mempool where
  "example_mp = \<lparr>start_address = 0x20001000, mp_size = 36, block_size = 8, block_list = None,
     block_hdr = (\<lambda>_. Link None), block_total_count = 3, block_free_count = 3, suspend_thread_count = 0\<rparr>"

theorem mempool_never_shared_witness:
  "\<exists>s held s'. mp_init_blocks example_mp = Some s \<and>
    alloc_run (mp_get 5) (\<lambda>b mp. Some (mp_give b mp)) [Alloc (), Alloc (), Free 0, Alloc ()] [] s = Some (held, s') \<and>
    distinct held \<and> length held + unat (block_free_count s') = 3"
proof -
  obtain s where s: "mp_init_blocks example_mp = Some s"
    by (simp add: mp_init_blocks_def example_mp_def Let_def)
  moreover have "block_free_count example_mp = block_total_count example_mp"
    "unat (block_total_count example_mp) = 3" by (simp_all add: example_mp_def)
  ultimately show ?thesis
    using mempool_never_shared [OF s, of 5 "[Alloc (), Alloc (), Free 0, Alloc ()]"] by auto
qed

text \<open>
  C33. \<^verbatim>\<open>rt_mp_alloc\<close> called by the running thread: while blocks are free the first one, which is
  not allocated, is handed out; with none left and time 0 it returns the null pointer and
  leaves \<^verbatim>\<open>-RT_ETIMEOUT\<close> in the error number; otherwise the thread waits, in front of all
  threads that wait already, with its timer armed when the time is limited.
\<close>

theorem rt_mp_alloc_correct:
  assumes k: "kinv k" and cur: "rt_current_thread k = Some t" and run: "tstat k t = RT_THREAD_RUNNING"
    and mp: "mp_ok p (mempools k p)" and time: "time_ok time" and nest: "rt_interrupt_nest k = 0"
  shows "(block_free_count (mempools k p) \<noteq> 0 \<longrightarrow>
      (\<exists>b mp'. rt_mp_alloc p time k = Some (Ret RT_EOK (VBlock (Some b)), set_mp p mp' k) \<and> mp_ok p mp' \<and>
        b \<notin> mp_used (mempools k p) \<and> mp_used mp' = insert b (mp_used (mempools k p)))) \<and>
    (block_free_count (mempools k p) = 0 \<and> time = 0 \<longrightarrow>
      rt_mp_alloc p time k = Some (Ret RT_EOK (VBlock None), upd_thread t (\<lambda>x. x\<lparr>error := - RT_ETIMEOUT\<rparr>) k)) \<and>
    (block_free_count (mempools k p) = 0 \<and> time \<noteq> 0 \<longrightarrow>
      (\<exists>k'. rt_mp_alloc p time k = Some (Wait (K_mp_alloc p time (rt_tick k)), k') \<and>
        blocked_on (SuspendThread (OMempool p)) t (t # mp_waiters k p) time (mp_waiting p t k) k'))"
proof -
  have r: "runnable k t" using run by (simp add: runnable_def)
  from mp obtain fs where i: "mp_inv p (mempools k p) fs" by (auto simp: mp_ok_def)
  have "\<exists>b mp'. mp_take p (mempools k p) = Some (b, mp') \<and> mp_ok p mp' \<and> b \<notin> mp_used (mempools k p) \<and>
      mp_used mp' = insert b (mp_used (mempools k p))" if "block_free_count (mempools k p) \<noteq> 0"
  proof -
    from that mp_free_count [OF i] obtain b fs' where "fs = b # fs'" by (cases fs) auto
    then show ?thesis using mp_take_inv [of p "mempools k p" b fs'] i unfolding mp_ok_def by metis
  qed
  then have "block_free_count (mempools k p) \<noteq> 0 \<longrightarrow>
      (\<exists>b mp'. rt_mp_alloc p time k = Some (Ret RT_EOK (VBlock (Some b)), set_mp p mp' k) \<and> mp_ok p mp' \<and>
        b \<notin> mp_used (mempools k p) \<and> mp_used mp' = insert b (mp_used (mempools k p)))"
    by (fastforce simp: rt_mp_alloc_def mp_alloc_loop_def)
  moreover have "block_free_count (mempools k p) = 0 \<and> time = 0 \<longrightarrow>
      rt_mp_alloc p time k = Some (Ret RT_EOK (VBlock None), upd_thread t (\<lambda>x. x\<lparr>error := - RT_ETIMEOUT\<rparr>) k)"
    using cur nest by (simp add: rt_mp_alloc_def mp_alloc_loop_def rt_set_errno_def
        rt_interrupt_get_nest_def rt_thread_self_def)
  ultimately show ?thesis
    using mp_alloc_waits [OF k cur r time _ nest] unfolding rt_mp_alloc_def by blast
qed

definition example_pools :: "rt_mempool \<Rightarrow> kernel" where
  "example_pools mp = set_mp 5 mp example_kernel"

lemma example_pools_facts:
  "kinv (example_pools mp)" "rt_current_thread (example_pools mp) = Some 1"
  "tstat (example_pools mp) 1 = RT_THREAD_RUNNING" "rt_interrupt_nest (example_pools mp) = 0"
  "mempools (example_pools mp) 5 = mp" "mp_waiters (example_pools mp) 5 = []" "rt_tick (example_pools mp) = 0"
  by (simp_all add: example_pools_def kinv_example)

theorem rt_mp_alloc_correct_witness:
  "\<exists>k'. rt_mp_alloc 5 40 (example_pools (example_mp\<lparr>block_free_count := 0,
      block_hdr := (\<lambda>_. Pool 5)\<rparr>)) = Some (Wait (K_mp_alloc 5 40 0), k') \<and>
    mp_waiters k' 5 = [1] \<and> suspend_thread_count (mempools k' 5) = 1"
proof -
  let ?mp = "example_mp\<lparr>block_free_count := 0, block_hdr := (\<lambda>_. Pool 5)\<rparr>"
  let ?k = "example_pools ?mp"
  have "mp_inv 5 ?mp []" by (simp add: mp_inv_def example_mp_def)
  then have "mp_ok 5 (mempools ?k 5)" "time_ok 40"
    by (auto simp: mp_ok_def example_pools_facts time_ok_def)
  from rt_mp_alloc_correct [OF example_pools_facts(1-3) this example_pools_facts(4)] obtain k' where
    k': "rt_mp_alloc 5 40 ?k = Some (Wait (K_mp_alloc 5 40 (rt_tick ?k)), k')"
      "blocked_on (SuspendThread (OMempool 5)) 1 (1 # mp_waiters ?k 5) 40 (mp_waiting 5 1 ?k) k'"
    by (auto simp: example_pools_facts(5))
  have "mempools k' = mempools (mp_waiting 5 1 ?k)" using k'(2) by (simp add: blocked_on_def ipc_frame_def)
  then have "suspend_thread_count (mempools k' 5) = 1"
    by (simp add: mp_waiting_def example_pools_facts(5)) (simp add: example_mp_def)
  moreover have "mp_waiters k' 5 = [1]" using k'(2) by (simp add: blocked_on_def example_pools_facts(6))
  ultimately show ?thesis using k'(1) by (simp add: example_pools_facts(7))
qed

text \<open>
  \<^verbatim>\<open>rt_mp_free\<close> of an allocated block, while the counter of waiting threads is exact: the
  block is free again, and the thread that came last of those that wait, if any, can run,
  with no error; the counter stays exact.
\<close>

theorem rt_mp_free_correct:
  assumes k: "kinv k" and cur: "rt_current_thread k \<noteq> None" and mp: "mp_ok p (mempools k p)"
    and b: "b \<in> mp_used (mempools k p)" and n: "mp_counted k p"
  shows "(mp_waiters k p = [] \<longrightarrow> rt_mp_free p b k = Some (set_mp p (mp_give b (mempools k p)) k)) \<and>
    (\<forall>t ts. mp_waiters k p = t # ts \<longrightarrow> (\<exists>k'. rt_mp_free p b k = Some k' \<and> kinv k' \<and>
      runnable k' t \<and> error (threads k' t) = RT_EOK \<and> mp_waiters k' p = ts \<and> mp_counted k' p \<and>
      mp_ok p (mempools k' p) \<and> mp_used (mempools k' p) = mp_used (mempools k p) - {b}))"
proof -
  let ?h = "SuspendThread (OMempool p)" and ?mp = "mp_give b (mempools k p)"
  from mp obtain fs where i: "mp_inv p (mempools k p) fs" by (auto simp: mp_ok_def)
  have hdr: "block_hdr (mempools k p) b = Pool p"
    using b i unfolding mp_used_inv [OF i] by (auto simp: mp_inv_def)
  have zero: "suspend_thread_count (mempools k p) = 0 \<longleftrightarrow> mp_waiters k p = []"
    using n by (auto simp: mp_counted_def unat_eq_zero)
  have "\<exists>k'. rt_mp_free p b k = Some k' \<and> kinv k' \<and>
      runnable k' t \<and> error (threads k' t) = RT_EOK \<and> mp_waiters k' p = ts \<and> mp_counted k' p \<and>
      mp_ok p (mempools k' p) \<and> mp_used (mempools k' p) = mp_used (mempools k p) - {b}"
    if q: "mp_waiters k p = t # ts" for t ts
  proof -
    let ?k1 = "upd_thread t (\<lambda>x. x\<lparr>error := RT_EOK\<rparr>) (set_mp p ?mp k)"
    let ?mp2 = "?mp\<lparr>suspend_thread_count := suspend_thread_count ?mp - 1\<rparr>"
    have k1: "kinv ?k1" "tlists ?k1 = tlists k" "mempools ?k1 p = ?mp" "rt_current_thread ?k1 \<noteq> None"
        "error (threads ?k1 t) = RT_EOK"
      using kinv_error [of "set_mp p ?mp k"] k cur by (simp_all add: kdefs)
    have "tstat ?k1 t = RT_THREAD_SUSPEND" using waiter_suspended [OF k1(1), of ?h t] q k1(2) by simp
    from rt_thread_resume_spec [OF k1(1) this] obtain g where
      g: "rt_thread_resume t ?k1 = Some (RT_EOK, resumed t ?k1 g)" "kinv (resumed t ?k1 g)" .
    let ?k2 = "set_mp p ?mp2 ?k1"
    have k2: "kinv ?k2" "rt_current_thread ?k2 \<noteq> None" "tlists ?k2 ?h = t # ts" "wait_head ?h"
        "kinv (resumed t ?k2 g)"
      using k1 g(2) q by (simp_all add: set_mp_commute [symmetric])
    from resumed_schedule_spec [OF k2(1,2,4,3,5)] obtain k' where
      k': "rt_schedule (resumed t ?k2 g) = Some k'" "woken ?h t ?k2 k'" by (auto elim!: returnsE)
    have m': "mempools k' p = ?mp2" using k'(2) by (simp add: woken_def ipc_frame_def)
    have c: "unat (suspend_thread_count ?mp) = Suc (length ts)" using n q by (simp add: mp_counted_def)
    have "rt_mp_free p b k = Some k'"
      using hdr q g(1) k1(3) k'(1) zero
      by (simp add: rt_mp_free_def word_gt_0 set_mp_commute)
    moreover have "mp_counted k' p"
      using k'(2) m' unat_Suc_minus [OF c] k2(3) by (simp add: mp_counted_def woken_def)
    moreover have "mp_inv p ?mp2 (b # fs)" using mp_give_inv(1) [OF i b] by (simp add: mp_inv_def)
    then have "mp_ok p ?mp2" by (auto simp: mp_ok_def)
    moreover have "mp_used ?mp2 = mp_used (mempools k p) - {b}"
      using mp_give_inv(2) [OF i b] by (simp add: mp_used_def)
    ultimately show ?thesis
      using k'(2) m' k1(5) k2(3) by (simp add: woken_def)
  qed
  moreover have "rt_mp_free p b k = Some (set_mp p ?mp k)" if "mp_waiters k p = []"
    using that hdr zero by (simp add: rt_mp_free_def)
  ultimately show ?thesis by blast
qed

text \<open>A pool whose three blocks are allocated, with \<open>n\<close> threads counted as waiting.\<close>

definition full_mp :: "u32 \<Rightarrow> rt_mempool" where
  "full_mp n = example_mp\<lparr>block_free_count := 0, block_hdr := (\<lambda>_. Pool 5), suspend_thread_count := n\<rparr>"

lemma full_mp_facts:
  "mp_ok 5 (full_mp n)" "mp_used (full_mp n) = {0, 1, 2}" "suspend_thread_count (full_mp n) = n"
proof -
  have i: "mp_inv 5 (full_mp n) []" by (simp add: mp_inv_def full_mp_def example_mp_def)
  then show "mp_ok 5 (full_mp n)" by (auto simp: mp_ok_def)
  have "unat (block_total_count (full_mp n)) = 3" by (simp add: full_mp_def example_mp_def)
  then show "mp_used (full_mp n) = {0, 1, 2}" unfolding mp_used_inv [OF i] by auto
qed (simp add: full_mp_def)

text \<open>Thread 3 waits for a block, its timer has just expired or been stopped.\<close>

definition example_mp_waiting :: kernel where
  "example_mp_waiting = set_mp 5 (full_mp 1) (example_waiting (SuspendThread (OMempool 5)))"

lemma example_mp_waiting_facts:
  "kinv example_mp_waiting" "rt_current_thread example_mp_waiting = Some 1"
  "mempools example_mp_waiting 5 = full_mp 1" "mp_waiters example_mp_waiting 5 = [3]"
  "ThreadTimer 3 \<notin> set (rt_timer_list example_mp_waiting)"
  "tstat example_mp_waiting 3 = RT_THREAD_SUSPEND"
  using kinv_example_waiting [of "SuspendThread (OMempool 5)"]
  by (simp_all add: example_mp_waiting_def) (simp_all add: example_waiting_def)

theorem rt_mp_free_correct_witness:
  "\<exists>k'. rt_mp_free 5 1 example_mp_waiting = Some k' \<and> runnable k' 3 \<and> mp_waiters k' 5 = [] \<and>
     mp_used (mempools k' 5) = {0, 2}"
proof -
  have "mp_ok 5 (mempools example_mp_waiting 5)" "1 \<in> mp_used (mempools example_mp_waiting 5)"
    "mp_counted example_mp_waiting 5" "rt_current_thread example_mp_waiting \<noteq> None"
    by (simp_all add: example_mp_waiting_facts full_mp_facts mp_counted_def)
  note free = rt_mp_free_correct [OF example_mp_waiting_facts(1) this(4,1,2,3)]
  obtain k' where "rt_mp_free 5 1 example_mp_waiting = Some k'" "runnable k' 3" "mp_waiters k' 5 = []"
    "mp_used (mempools k' 5) = mp_used (mempools example_mp_waiting 5) - {1}"
    using free [THEN conjunct2, rule_format, OF example_mp_waiting_facts(4)] by blast
  moreover have "{0, 1, 2} - {1} = {0, 2::nat}" by auto
  ultimately show ?thesis
    unfolding example_mp_waiting_facts(3) full_mp_facts(2) by (intro exI [of _ k']) metis
qed

text \<open>
  A wait that ends by timeout leaves the counter of waiting threads as it was: the timer
  takes the thread off the list, and nothing of \<^verbatim>\<open>rt_mp_alloc\<close> counts it down. After the
  timeout of the only waiter the list is empty while the counter says one, and the next
  \<^verbatim>\<open>rt_mp_free\<close> takes the head of the empty list for a thread.
\<close>

theorem mp_free_after_timeout:
  assumes k: "kinv k" and cur: "rt_current_thread k \<noteq> None"
    and q: "mp_waiters k p = [t]" and n: "mp_counted k p" and fired: "ThreadTimer t \<notin> set (rt_timer_list k)"
  shows "\<exists>k'. rt_thread_timeout t k = Some k' \<and> kinv k' \<and> mp_waiters k' p = [] \<and>
    suspend_thread_count (mempools k' p) = 1 \<and>
    (\<forall>r k''. rt_mp_alloc_resume t p time before k' = Some (r, k'') \<longrightarrow> mempools k'' = mempools k') \<and>
    (\<forall>b. rt_mp_free p b k' = None)"
proof -
  let ?h = "SuspendThread (OMempool p)"
  from cur obtain c where c: "rt_current_thread k = Some c" by auto
  have "tstat k t = RT_THREAD_SUSPEND" using waiter_suspended [OF k, of ?h t] q by simp
  from timeout_wakes [OF k c this fired] obtain k' where
    k': "rt_thread_timeout t k = Some k'" "timed_out t k k'" by (auto elim!: returnsE)
  then have m: "mempools k' = mempools k" "mp_waiters k' p = []" "error (threads k' t) = - RT_ETIMEOUT"
    using q by (simp_all add: timed_out_def ipc_frame_def)
  have one: "suspend_thread_count (mempools k p) = 1"
    using n q by (simp add: mp_counted_def word_unat_eq_iff)
  have "rt_mp_free p b k' = None" for b
  proof (cases "block_hdr (mempools k p) b = Pool p")
    case True
    then show ?thesis using m one by (simp add: rt_mp_free_def)
  next
    case False
    then show ?thesis using m(1) by (cases "block_hdr (mempools k p) b") (simp_all add: rt_mp_free_def)
  qed
  moreover have "mempools k'' = mempools k'" if "rt_mp_alloc_resume t p time before k' = Some (r, k'')" for r k''
    using that m(3) by (simp add: rt_mp_alloc_resume_def)
  ultimately show ?thesis using k' m one by (simp add: timed_out_def)
qed

theorem mp_free_after_timeout_witness:
  "\<exists>k'. rt_thread_timeout 3 example_mp_waiting = Some k' \<and> rt_mp_free 5 0 k' = None"
proof -
  have "mp_counted example_mp_waiting 5" "rt_current_thread example_mp_waiting \<noteq> None"
    by (simp_all add: example_mp_waiting_facts full_mp_facts mp_counted_def)
  then show ?thesis
    using mp_free_after_timeout [OF example_mp_waiting_facts(1) _ example_mp_waiting_facts(4) _
        example_mp_waiting_facts(5), of 0 0] by blast
qed

end
