(* ===== verification/Fifo.thy ===== *)
theory Fifo
  imports RT_Prelude
begin

text \<open>
  The interface of a bounded first-in first-out buffer, which the mailboxes, the message
  queues and the ring buffers of the program implement in different ways: elements are
  accepted unless the buffer is full and delivered unless it is empty. The main consequence,
  for every sequence of operations: what has been delivered, followed by what is still
  inside, is what was inside at first followed by what has been accepted.
\<close>

datatype 'a fifo_op = Put 'a | Get

text \<open>Running operations; the elements accepted and delivered are collected in order.\<close>

fun fifo_run :: "('s \<Rightarrow> bool) \<Rightarrow> ('s \<Rightarrow> bool) \<Rightarrow> ('a \<Rightarrow> 's \<Rightarrow> 's option) \<Rightarrow> ('s \<Rightarrow> ('a \<times> 's) option) \<Rightarrow>
    'a fifo_op list \<Rightarrow> 's \<Rightarrow> ('a list \<times> 'a list \<times> 's) option" where
  "fifo_run is_full is_empty put get [] s = Some ([], [], s)"
| "fifo_run is_full is_empty put get (Put x # ops) s =
     (if is_full s then fifo_run is_full is_empty put get ops s
      else do {
        s \<leftarrow> put x s;
        (acc, del, s) \<leftarrow> fifo_run is_full is_empty put get ops s;
        Some (x # acc, del, s)
      })"
| "fifo_run is_full is_empty put get (Get # ops) s =
     (if is_empty s then fifo_run is_full is_empty put get ops s
      else do {
        (y, s) \<leftarrow> get s;
        (acc, del, s) \<leftarrow> fifo_run is_full is_empty put get ops s;
        Some (acc, y # del, s)
      })"

locale bounded_fifo =
  fixes inv :: "'s \<Rightarrow> bool"
    and cap :: "'s \<Rightarrow> nat"
    and cont :: "'s \<Rightarrow> 'a list"
    and is_full :: "'s \<Rightarrow> bool"
    and is_empty :: "'s \<Rightarrow> bool"
    and fit :: "'s \<Rightarrow> 'a \<Rightarrow> bool"
    and put :: "'a \<Rightarrow> 's \<Rightarrow> 's option"
    and get :: "'s \<Rightarrow> ('a \<times> 's) option"
  assumes bound: "inv s \<Longrightarrow> length (cont s) \<le> cap s"
    and is_full: "inv s \<Longrightarrow> is_full s \<longleftrightarrow> length (cont s) = cap s"
    and is_empty: "inv s \<Longrightarrow> is_empty s \<longleftrightarrow> cont s = []"
    and put: "inv s \<Longrightarrow> length (cont s) < cap s \<Longrightarrow> fit s x \<Longrightarrow>
      returns (put x s) (\<lambda>s'. inv s' \<and> cont s' = cont s @ [x] \<and> cap s' = cap s \<and> fit s' = fit s)"
    and get: "inv s \<Longrightarrow> cont s = x # xs \<Longrightarrow>
      returns (get s) (\<lambda>(y, s'). y = x \<and> inv s' \<and> cont s' = xs \<and> cap s' = cap s \<and> fit s' = fit s)"
begin

lemma put_total: "inv s \<Longrightarrow> \<not> is_full s \<Longrightarrow> fit s x \<Longrightarrow>
    returns (put x s) (\<lambda>s'. inv s' \<and> cont s' = cont s @ [x] \<and> cap s' = cap s \<and> fit s' = fit s)"
  using put [of s x] is_full [of s] bound [of s] by linarith

lemma get_total: "inv s \<Longrightarrow> \<not> is_empty s \<Longrightarrow>
    returns (get s) (\<lambda>(y, s'). y = hd (cont s) \<and> inv s' \<and> cont s' = tl (cont s) \<and> cap s' = cap s \<and> fit s' = fit s)"
  using get [of s "hd (cont s)" "tl (cont s)"] is_empty [of s] by simp

lemma put_get:
  assumes "inv s" and "cont s = []" and "0 < cap s" and "fit s x"
  shows "returns (Option.bind (put x s) get) (\<lambda>(y, s'). y = x \<and> inv s' \<and> cont s' = [])"
proof -
  from put [of s x] assms obtain s1 where "put x s = Some s1" "inv s1" "cont s1 = [x]"
    by (auto elim!: returnsE)
  then show ?thesis using get [of s1 x "[]"] by (auto elim!: returns_mono)
qed

lemma run:
  assumes "inv s" and "\<And>x. Put x \<in> set ops \<Longrightarrow> fit s x"
  shows "returns (fifo_run is_full is_empty put get ops s) (\<lambda>(acc, del, s').
    inv s' \<and> cap s' = cap s \<and> del @ cont s' = cont s @ acc \<and> length (cont s') \<le> cap s)"
  using assms
proof (induction ops arbitrary: s)
  case Nil
  then show ?case using bound by simp
next
  case (Cons x ops)
  show ?case
  proof (cases x)
    case (Put a)
    show ?thesis
    proof (cases "is_full s")
      case True
      then show ?thesis using Cons.IH [OF Cons.prems(1)] Cons.prems(2) Put by simp
    next
      case False
      have "fit s a" using Cons.prems(2) Put by simp
      from put_total [OF Cons.prems(1) False this] obtain s1 where
        s1: "put a s = Some s1" "inv s1" "cont s1 = cont s @ [a]" "cap s1 = cap s" "fit s1 = fit s"
        by (auto elim!: returnsE)
      then show ?thesis
        using Cons.IH [OF s1(2)] Cons.prems(2) s1(5) Put False by (auto elim!: returns_mono)
    qed
  next
    case Get
    show ?thesis
    proof (cases "is_empty s")
      case True
      then show ?thesis using Cons.IH [OF Cons.prems(1)] Cons.prems(2) Get by simp
    next
      case False
      then have ne: "cont s \<noteq> []" using is_empty [OF Cons.prems(1)] by simp
      from get_total [OF Cons.prems(1) False] obtain s1 where
        s1: "get s = Some (hd (cont s), s1)" "inv s1" "cont s1 = tl (cont s)" "cap s1 = cap s" "fit s1 = fit s"
        by (auto elim!: returnsE)
      have h: "hd (cont s) # tl (cont s) = cont s" using ne by simp
      have "hd (cont s) # del @ cont s' = cont s @ acc" if "del @ cont s' = cont s1 @ acc" for del s' acc
        using that s1(3) h by (metis append_Cons)
      then show ?thesis
        using Cons.IH [OF s1(2)] Cons.prems(2) Get False s1(1,4,5) by (auto elim!: returns_mono)
    qed
  qed
qed

end

text \<open>A buffer that also accepts elements in front of all others.\<close>

locale urgent_fifo = bounded_fifo +
  fixes push :: "'b \<Rightarrow> 'a \<Rightarrow> 'a option"
  assumes push: "inv s \<Longrightarrow> length (cont s) < cap s \<Longrightarrow> fit s x \<Longrightarrow>
      returns (push x s) (\<lambda>s'. inv s' \<and> cont s' = x # cont s \<and> cap s' = cap s \<and> fit s' = fit s)"
begin

lemma push_get:
  assumes "inv s" and "length (cont s) < cap s" and "fit s x"
  shows "returns (Option.bind (push x s) get) (\<lambda>(y, s'). y = x \<and> inv s' \<and> cont s' = cont s)"
proof -
  from push [OF assms] obtain s1 where "push x s = Some s1" "inv s1" "cont s1 = x # cont s"
    by (auto elim!: returnsE)
  then show ?thesis using get [of s1 x "cont s"] by (auto elim!: returns_mono)
qed

end

section \<open>Circular arrays\<close>

text \<open>The elements from position \<open>i\<close> on, \<open>n\<close> of them, in an array used modulo \<open>m\<close>.\<close>

definition ring_read :: "'a list \<Rightarrow> nat \<Rightarrow> nat \<Rightarrow> nat \<Rightarrow> 'a list" where
  "ring_read xs m i n = map (\<lambda>j. xs ! ((i + j) mod m)) [0..<n]"

lemma length_ring_read [simp]: "length (ring_read xs m i n) = n"
  by (simp add: ring_read_def)

lemma ring_read_0 [simp]: "ring_read xs m i 0 = []"
  by (simp add: ring_read_def)

lemma ring_read_Suc: "ring_read xs m i (Suc n) = xs ! (i mod m) # ring_read xs m (Suc i) n"
  by (simp add: ring_read_def upt_rec [of 0] map_Suc_upt [symmetric] del: upt_Suc)

lemma ring_read_mod: "ring_read xs m (i mod m) n = ring_read xs m i n"
  by (simp add: ring_read_def mod_add_left_eq)

lemma mod_inj_lt:
  fixes i j k m :: nat
  assumes "(i + j) mod m = (i + k) mod m" and "j < m" and "k < m"
  shows "j = k"
proof -
  have "(int i + int j) mod int m = (int i + int k) mod int m"
    using assms(1) by (metis of_nat_add of_nat_mod)
  then have "int j mod int m = int k mod int m" by (metis add.commute mod_add_cong diff_add_cancel mod_diff_left_eq add_diff_cancel_right')
  then show ?thesis using assms(2,3) by simp
qed

lemma ring_read_write:
  assumes "n < m" and "m \<le> length xs"
  shows "ring_read (xs[(i + n) mod m := x]) m i (Suc n) = ring_read xs m i n @ [x]"
proof -
  have "(i + n) mod m < length xs" 
    using assms mod_less_divisor [of m "i + n"] by linarith
  moreover have "xs[(i + n) mod m := x] ! ((i + j) mod m) = xs ! ((i + j) mod m)" if "j < n" for j
    using mod_inj_lt [of i j m n] that assms(1) by (metis nth_list_update_neq less_trans less_irrefl)
  ultimately show ?thesis by (simp add: ring_read_def)
qed

text \<open>Advancing an offset is the successor modulo the size.\<close>

lemma unat_advance:
  fixes i n :: "'a::len word"
  assumes "i < n"
  shows "unat (if i + 1 \<ge> n then 0 else i + 1) = Suc (unat i) mod unat n"
proof -
  have "i + 1 \<ge> n \<longleftrightarrow> Suc (unat i) = unat n"
    using unat_Suc_less [OF assms] assms by (simp add: word_le_nat_alt word_less_nat_alt) linarith
  then show ?thesis
    using unat_Suc_less [OF assms] assms by (auto simp: word_less_nat_alt)
qed

end
