(* ===== verification/Ringbuffer.thy ===== *)
theory Ringbuffer
  imports Fifo
begin

text \<open>
  The ring buffer of the device drivers: \<^verbatim>\<open>components/drivers/src/ringbuffer.c\<close> and its
  header. The read and the write index have 15 bits, each with one mirror bit that flips
  when the index wraps around; equal indexes mean empty with equal mirrors and full with
  different ones. The size is a signed 16-bit number; the differences the code compares are
  computed in \<^verbatim>\<open>int\<close>.
\<close>

section \<open>Operations\<close>

record rt_ringbuffer =
  buffer :: "u8 list"
  read_mirror :: "1 word"
  read_index :: "15 word"
  write_mirror :: "1 word"
  write_index :: "15 word"
  buffer_size :: "16 word"

datatype rt_ringbuffer_state = RT_RINGBUFFER_EMPTY | RT_RINGBUFFER_FULL | RT_RINGBUFFER_HALFFULL

definition rt_ringbuffer_status :: "rt_ringbuffer \<Rightarrow> rt_ringbuffer_state" where
  "rt_ringbuffer_status rb =
     (if read_index rb = write_index rb then
        if read_mirror rb = write_mirror rb then RT_RINGBUFFER_EMPTY else RT_RINGBUFFER_FULL
      else RT_RINGBUFFER_HALFFULL)"

definition rt_ringbuffer_data_len :: "rt_ringbuffer \<Rightarrow> u32" where
  "rt_ringbuffer_data_len rb =
     (case rt_ringbuffer_status rb of
        RT_RINGBUFFER_EMPTY \<Rightarrow> 0
      | RT_RINGBUFFER_FULL \<Rightarrow> scast (buffer_size rb)
      | RT_RINGBUFFER_HALFFULL \<Rightarrow>
          if write_index rb > read_index rb then of_int (uint (write_index rb) - uint (read_index rb))
          else of_int (sint (buffer_size rb) - (uint (read_index rb) - uint (write_index rb))))"

definition rt_ringbuffer_space_len :: "rt_ringbuffer \<Rightarrow> u32" where
  "rt_ringbuffer_space_len rb = scast (buffer_size rb) - rt_ringbuffer_data_len rb"

definition rt_ringbuffer_get_size :: "rt_ringbuffer \<Rightarrow> u16" where
  "rt_ringbuffer_get_size rb = buffer_size rb"

definition rt_ringbuffer_init :: "u8 list \<Rightarrow> 16 word \<Rightarrow> rt_ringbuffer option" where
  "rt_ringbuffer_init pool sz = do {
     rt_assert (sint sz > 0);
     Some \<lparr>buffer = pool, read_mirror = 0, read_index = 0, write_mirror = 0, write_index = 0,
       buffer_size = sz AND NOT 3\<rparr>
   }"

text \<open>\<^verbatim>\<open>memcpy\<close> into and out of the buffer; outside its bounds the program has no meaning.\<close>

definition buf_write :: "nat \<Rightarrow> u8 list \<Rightarrow> u8 list \<Rightarrow> u8 list option" where
  "buf_write i xs buf = (if i + length xs \<le> length buf
     then Some (take i buf @ xs @ drop (i + length xs) buf) else None)"

definition buf_read :: "nat \<Rightarrow> nat \<Rightarrow> u8 list \<Rightarrow> u8 list option" where
  "buf_read i n buf = (if i + n \<le> length buf then Some (take n (drop i buf)) else None)"

text \<open>The room up to the end of the array, \<^verbatim>\<open>rb->buffer_size - rb->write_index\<close>.\<close>

definition to_end :: "rt_ringbuffer \<Rightarrow> 15 word \<Rightarrow> int" where
  "to_end rb i = sint (buffer_size rb) - uint i"

text \<open>The two copies of a write: before the end of the array, and from its beginning.\<close>

definition rb_write :: "u8 list \<Rightarrow> u16 \<Rightarrow> rt_ringbuffer \<Rightarrow> rt_ringbuffer option" where
  "rb_write ptr len rb =
     (let w = unat (write_index rb) in
      if to_end rb (write_index rb) > uint len then do {
        buf \<leftarrow> buf_write w (take (unat len) ptr) (buffer rb);
        Some (rb\<lparr>buffer := buf, write_index := write_index rb + ucast len\<rparr>)
      } else do {
        let n = nat (to_end rb (write_index rb));
        buf \<leftarrow> buf_write w (take n ptr) (buffer rb);
        buf \<leftarrow> buf_write 0 (take (unat len - n) (drop n ptr)) buf;
        Some (rb\<lparr>buffer := buf, write_mirror := NOT (write_mirror rb),
          write_index := of_int (uint len - to_end rb (write_index rb))\<rparr>)
      })"

definition rt_ringbuffer_put :: "u8 list \<Rightarrow> u16 \<Rightarrow> rt_ringbuffer \<Rightarrow> (u16 \<times> rt_ringbuffer) option" where
  "rt_ringbuffer_put ptr len rb = do {
     let sz = ucast (rt_ringbuffer_space_len rb);
     if sz = 0 then Some (0, rb)
     else do {
       let len = (if sz < len then sz else len);
       rt_assert (unat len \<le> length ptr);
       rb \<leftarrow> rb_write ptr len rb;
       Some (len, rb)
     }
   }"

definition rt_ringbuffer_put_force :: "u8 list \<Rightarrow> u16 \<Rightarrow> rt_ringbuffer \<Rightarrow> (u16 \<times> rt_ringbuffer) option" where
  "rt_ringbuffer_put_force ptr len rb = do {
     let space_length = (ucast (rt_ringbuffer_space_len rb) :: u16);
     rt_assert (unat len \<le> length ptr);
     let (ptr, len) = (if uint len > sint (buffer_size rb)
       then (drop (nat (uint len - sint (buffer_size rb))) ptr, buffer_size rb) else (ptr, len));
     let wraps = (to_end rb (write_index rb) \<le> uint len);
     rb \<leftarrow> rb_write ptr len rb;
     let rb = (if len > space_length
       then (if wraps then rb\<lparr>read_mirror := NOT (read_mirror rb), read_index := write_index rb\<rparr>
             else rb\<lparr>read_index := write_index rb\<rparr>)
       else rb);
     Some (len, rb)
   }"

definition rt_ringbuffer_get :: "u16 \<Rightarrow> rt_ringbuffer \<Rightarrow> (u8 list \<times> rt_ringbuffer) option" where
  "rt_ringbuffer_get len rb = do {
     let sz = rt_ringbuffer_data_len rb;
     if sz = 0 then Some ([], rb)
     else do {
       let len = (if sz < ucast len then ucast sz else len);
       let r = unat (read_index rb);
       if to_end rb (read_index rb) > uint len then do {
         xs \<leftarrow> buf_read r (unat len) (buffer rb);
         Some (xs, rb\<lparr>read_index := read_index rb + ucast len\<rparr>)
       } else do {
         let n = nat (to_end rb (read_index rb));
         xs \<leftarrow> buf_read r n (buffer rb);
         ys \<leftarrow> buf_read 0 (unat len - n) (buffer rb);
         Some (xs @ ys, rb\<lparr>read_mirror := NOT (read_mirror rb),
           read_index := of_int (uint len - to_end rb (read_index rb))\<rparr>)
       }
     }
   }"

definition rt_ringbuffer_putchar :: "u8 \<Rightarrow> rt_ringbuffer \<Rightarrow> (nat \<times> rt_ringbuffer) option" where
  "rt_ringbuffer_putchar ch rb =
     (if rt_ringbuffer_space_len rb = 0 then Some (0, rb)
      else do {
        buf \<leftarrow> buf_write (unat (write_index rb)) [ch] (buffer rb);
        let rb = rb\<lparr>buffer := buf\<rparr>;
        Some (1, if uint (write_index rb) = sint (buffer_size rb) - 1
          then rb\<lparr>write_mirror := NOT (write_mirror rb), write_index := 0\<rparr>
          else rb\<lparr>write_index := write_index rb + 1\<rparr>)
      })"

definition rt_ringbuffer_putchar_force :: "u8 \<Rightarrow> rt_ringbuffer \<Rightarrow> (nat \<times> rt_ringbuffer) option" where
  "rt_ringbuffer_putchar_force ch rb = do {
     let old_state = rt_ringbuffer_status rb;
     buf \<leftarrow> buf_write (unat (write_index rb)) [ch] (buffer rb);
     let rb = rb\<lparr>buffer := buf\<rparr>;
     Some (1, if uint (write_index rb) = sint (buffer_size rb) - 1
       then (let rb = rb\<lparr>write_mirror := NOT (write_mirror rb), write_index := 0\<rparr> in
         if old_state = RT_RINGBUFFER_FULL
         then rb\<lparr>read_mirror := NOT (read_mirror rb), read_index := write_index rb\<rparr> else rb)
       else (let rb = rb\<lparr>write_index := write_index rb + 1\<rparr> in
         if old_state = RT_RINGBUFFER_FULL then rb\<lparr>read_index := write_index rb\<rparr> else rb))
   }"

definition rt_ringbuffer_getchar :: "rt_ringbuffer \<Rightarrow> (u8 option \<times> rt_ringbuffer) option" where
  "rt_ringbuffer_getchar rb =
     (if rt_ringbuffer_data_len rb = 0 then Some (None, rb)
      else do {
        xs \<leftarrow> buf_read (unat (read_index rb)) 1 (buffer rb);
        Some (Some (hd xs), if uint (read_index rb) = sint (buffer_size rb) - 1
          then rb\<lparr>read_mirror := NOT (read_mirror rb), read_index := 0\<rparr>
          else rb\<lparr>read_index := read_index rb + 1\<rparr>)
      })"

definition rt_ringbuffer_reset :: "rt_ringbuffer \<Rightarrow> rt_ringbuffer" where
  "rt_ringbuffer_reset rb = rb\<lparr>read_mirror := 0, read_index := 0, write_mirror := 0, write_index := 0\<rparr>"

text \<open>The results of the two allocations are arguments.\<close>

definition rt_ringbuffer_create :: "bool \<Rightarrow> u8 list option \<Rightarrow> u16 \<Rightarrow> rt_ringbuffer option option" where
  "rt_ringbuffer_create mallocd pool_mallocd sz = do {
     rt_assert (sz > 0);
     let sz = sz AND NOT 3;
     if \<not> mallocd then Some None
     else (case pool_mallocd of
         None \<Rightarrow> Some None
       | Some pool \<Rightarrow> map_option Some (rt_ringbuffer_init pool sz))
   }"

section \<open>Contents and invariant\<close>

abbreviation rb_cap :: "rt_ringbuffer \<Rightarrow> nat" where
  "rb_cap rb \<equiv> nat (sint (buffer_size rb))"

definition rb_count :: "rt_ringbuffer \<Rightarrow> nat" where
  "rb_count rb = (if read_mirror rb = write_mirror rb then unat (write_index rb) - unat (read_index rb)
     else rb_cap rb + unat (write_index rb) - unat (read_index rb))"

definition rb_inv :: "rt_ringbuffer \<Rightarrow> bool" where
  "rb_inv rb \<longleftrightarrow> 0 < rb_cap rb \<and> rb_cap rb \<le> length (buffer rb) \<and>
     unat (read_index rb) < rb_cap rb \<and> unat (write_index rb) < rb_cap rb \<and>
     (if read_mirror rb = write_mirror rb then unat (read_index rb) \<le> unat (write_index rb)
      else unat (write_index rb) \<le> unat (read_index rb))"

definition rb_data :: "rt_ringbuffer \<Rightarrow> u8 list" where
  "rb_data rb = ring_read (buffer rb) (rb_cap rb) (unat (read_index rb)) (rb_count rb)"

lemma length_rb_data [simp]: "length (rb_data rb) = rb_count rb"
  by (simp add: rb_data_def)

lemma one_word_flip:
  fixes x y :: "1 word"
  shows "NOT x \<noteq> x" "x \<noteq> y \<longleftrightarrow> y = NOT x" "x \<noteq> NOT y \<longleftrightarrow> x = y" "NOT x = y \<longleftrightarrow> x \<noteq> y"
proof -
  have c: "z = 0 \<or> z = 1" for z :: "1 word"
  proof -
    have "unat z < 2 ^ LENGTH(1)" by (rule unsigned_less)
    then have "unat z = 0 \<or> unat z = 1" by auto
    then show ?thesis by (simp add: word_unat_eq_iff)
  qed
  have n: "NOT (0 :: 1 word) = 1" "NOT (1 :: 1 word) = 0" by simp_all
  show "NOT x \<noteq> x" using c [of x] n by auto
  show "x \<noteq> y \<longleftrightarrow> y = NOT x" using c [of x] c [of y] n by auto
  show "x \<noteq> NOT y \<longleftrightarrow> x = y" using c [of x] c [of y] n by auto
  show "NOT x = y \<longleftrightarrow> x \<noteq> y" using c [of x] c [of y] n by auto
qed

lemma rb_cap_bound: "rb_cap rb < 2 ^ 15"
  using sint_lt [of "buffer_size rb"] by simp

lemma rb_count_le: "rb_inv rb \<Longrightarrow> rb_count rb \<le> rb_cap rb"
  by (auto simp: rb_inv_def rb_count_def)

lemma rb_status:
  assumes "rb_inv rb"
  shows "rt_ringbuffer_status rb = (if rb_count rb = 0 then RT_RINGBUFFER_EMPTY
    else if rb_count rb = rb_cap rb then RT_RINGBUFFER_FULL else RT_RINGBUFFER_HALFFULL)"
  using assms by (auto simp: rt_ringbuffer_status_def rb_count_def rb_inv_def word_unat_eq_iff)

lemma unat_of_nat_small: "n < 2 ^ 15 \<Longrightarrow> unat (of_nat n :: u32) = n"
  by (simp add: unat_of_nat take_bit_nat_eq_self)

lemma scast_size: "rb_inv rb \<Longrightarrow> scast (buffer_size rb) = (of_nat (rb_cap rb) :: u32)"
  by (simp add: rb_inv_def)

lemma data_len:
  assumes i: "rb_inv rb"
  shows "rt_ringbuffer_data_len rb = of_nat (rb_count rb)"
proof -
  let ?r = "unat (read_index rb)" and ?w = "unat (write_index rb)"
  have s: "sint (buffer_size rb) = int (rb_cap rb)" using i by (simp add: rb_inv_def)
  have "of_int (uint (write_index rb) - uint (read_index rb)) = (of_nat (rb_count rb) :: u32)"
    if "write_index rb > read_index rb"
  proof -
    have "uint (write_index rb) - uint (read_index rb) = int (rb_count rb)"
      using i that by (auto simp: rb_inv_def rb_count_def word_less_nat_alt split: if_splits)
    then show ?thesis by (metis of_int_of_nat_eq)
  qed
  moreover have "of_int (sint (buffer_size rb) - (uint (read_index rb) - uint (write_index rb))) =
      (of_nat (rb_count rb) :: u32)"
    if "\<not> write_index rb > read_index rb" "write_index rb \<noteq> read_index rb"
  proof -
    have "?w < ?r" using that by (simp add: word_less_nat_alt word_unat_eq_iff)
    then have "sint (buffer_size rb) - (uint (read_index rb) - uint (write_index rb)) = int (rb_count rb)"
      using i s by (auto simp: rb_inv_def rb_count_def split: if_splits)
    then show ?thesis by (metis of_int_of_nat_eq)
  qed
  ultimately show ?thesis
    using i scast_size [OF i] unfolding rt_ringbuffer_data_len_def rt_ringbuffer_status_def
    by (auto simp: rb_count_def)
qed

lemma space_len:
  assumes "rb_inv rb"
  shows "unat (rt_ringbuffer_space_len rb) = rb_cap rb - rb_count rb"
    and "unat (rt_ringbuffer_data_len rb) = rb_count rb"
proof -
  have "rt_ringbuffer_space_len rb = of_nat (rb_cap rb - rb_count rb)"
    using rb_count_le [OF assms] by (simp add: rt_ringbuffer_space_len_def data_len [OF assms] scast_size [OF assms] of_nat_diff)
  then show "unat (rt_ringbuffer_space_len rb) = rb_cap rb - rb_count rb"
    using rb_cap_bound [of rb] by (simp add: unat_of_nat_small)
  show "unat (rt_ringbuffer_data_len rb) = rb_count rb"
    using rb_cap_bound [of rb] rb_count_le [OF assms] by (simp add: data_len [OF assms] unat_of_nat_small)
qed

lemma ucast_small:
  assumes "unat (x :: u32) < 2 ^ 15"
  shows "unat (ucast x :: u16) = unat x"
  using assms by (simp add: unsigned_ucast_eq take_bit_nat_eq_self)

section \<open>Writing\<close>

text \<open>The window of the circular array a write covers, as positions after the write index.\<close>

definition written :: "u8 list \<Rightarrow> nat \<Rightarrow> nat \<Rightarrow> u8 list \<Rightarrow> u8 list \<Rightarrow> bool" where
  "written xs n w b b' \<longleftrightarrow> length b' = length b \<and> (\<forall>j < length xs. b' ! ((w + j) mod n) = xs ! j) \<and>
     (\<forall>p < n. (\<forall>j < length xs. p \<noteq> (w + j) mod n) \<longrightarrow> b' ! p = b ! p)"

lemma buf_write_Some:
  assumes "buf_write i xs b = Some b'"
  shows "length b' = length b" and "i + length xs \<le> length b"
    and "p < length b \<Longrightarrow> b' ! p = (if i \<le> p \<and> p < i + length xs then xs ! (p - i) else b ! p)"
  using assms by (auto simp: buf_write_def nth_append min_def split: if_splits)

lemma buf_write_in: "i + length xs \<le> length b \<Longrightarrow> \<exists>b'. buf_write i xs b = Some b'"
  by (simp add: buf_write_def)

lemma mod_window:
  fixes n w j :: nat
  assumes "w < n" and "j < n"
  shows "(w + j) mod n = (if w + j < n then w + j else w + j - n)"
  using assms by (simp add: mod_if)

lemma written_straight:
  assumes "buf_write w xs b = Some b'" and "w + length xs < n" and "n \<le> length b"
  shows "written xs n w b b'"
proof -
  note l = buf_write_Some(1) [OF assms(1)] and at = buf_write_Some(3) [OF assms(1)]
  have m: "(w + j) mod n = w + j" if "j < length xs" for j using that assms(2) by simp
  have "b' ! p = b ! p" if "p < n" "\<forall>j < length xs. p \<noteq> (w + j) mod n" for p
  proof -
    have "p \<noteq> w + (p - w)" if "p - w < length xs"
      using \<open>\<forall>j < length xs. p \<noteq> (w + j) mod n\<close> [rule_format, OF that] m [OF that] by simp
    then have "w \<le> p \<Longrightarrow> \<not> p - w < length xs" by auto
    then have "\<not> (w \<le> p \<and> p < w + length xs)" by linarith
    then show ?thesis using at [of p] that(1) assms(3) by auto
  qed
  then show ?thesis using l at m assms(2,3) by (simp add: written_def)
qed

lemma written_wrapped:
  assumes "buf_write w (take k xs) b = Some b1" and "buf_write 0 (drop k xs) b1 = Some b'"
    and "w + k = n" and "k \<le> length xs" and "length xs \<le> n" and "n \<le> length b" and "0 < k"
  shows "written xs n w b b'"
proof -
  note l1 = buf_write_Some(1) [OF assms(1)] and at1 = buf_write_Some(3) [OF assms(1)]
  note l = buf_write_Some(1) [OF assms(2)] and at = buf_write_Some(3) [OF assms(2)]
  have at': "b' ! p = (if p < length xs - k then xs ! (k + p) else if w \<le> p then xs ! (p - w) else b ! p)"
    if "p < n" for p
    using at [of p] at1 [of p] that assms(3,4,6) l1 by auto
  have "b' ! ((w + j) mod n) = xs ! j" if j: "j < length xs" for j
  proof (cases "j < k")
    case True
    then have "(w + j) mod n = w + j" "\<not> w + j < length xs - k" using assms(3,5) by auto
    then show ?thesis using at' [of "w + j"] True assms(3) by simp
  next
    case False
    have "w + j < 2 * n" using assms(3,5,7) j by simp
    moreover have "w + j - n = j - k" "\<not> w + j < n" using False assms(3) by linarith+
    ultimately have "(w + j) mod n = j - k" by (simp add: mod_if)
    then show ?thesis using at' [of "j - k"] False j assms(3,5) by auto
  qed
  moreover have "b' ! p = b ! p" if "p < n" "\<forall>j < length xs. p \<noteq> (w + j) mod n" for p
  proof -
    have "\<not> p < length xs - k"
    proof
      assume "p < length xs - k"
      moreover have "(w + (k + p)) mod n = (n + p) mod n" using assms(3) by (simp add: add.assoc [symmetric])
      ultimately have "(w + (k + p)) mod n = p" "k + p < length xs" using that(1) by simp_all
      then show False using that(2) by metis
    qed
    moreover have "\<not> w \<le> p"
    proof
      assume "w \<le> p"
      then have "(w + (p - w)) mod n = p" "p - w < length xs" using that(1) assms(3,4) by auto
      then show False using that(2) by metis
    qed
    ultimately show ?thesis using at' [OF that(1)] by simp
  qed
  ultimately show ?thesis using l l1 by (simp add: written_def)
qed

lemma ring_read_written:
  assumes w: "written xs n w b b'" and e: "w = (r + c) mod n" and len: "c + length xs \<le> n" and n: "0 < n"
  shows "ring_read b' n r (c + length xs) = ring_read b n r c @ xs"
proof (rule nth_equalityI)
  fix i assume "i < length (ring_read b' n r (c + length xs))"
  then have i: "i < c + length xs" by simp
  show "ring_read b' n r (c + length xs) ! i = (ring_read b n r c @ xs) ! i"
  proof (cases "i < c")
    case True
    have "(r + i) mod n \<noteq> (w + j) mod n" if "j < length xs" for j
    proof -
      have "(w + j) mod n = (r + (c + j)) mod n" using e by (simp add: mod_add_left_eq add.assoc)
      then show ?thesis using mod_inj_lt [of r i n "c + j"] True that len by auto
    qed
    then have "b' ! ((r + i) mod n) = b ! ((r + i) mod n)" using w n by (simp add: written_def)
    then show ?thesis using True i by (simp add: ring_read_def nth_append)
  next
    case False
    have "(w + (i - c)) mod n = (r + c + (i - c)) mod n" unfolding e by (rule mod_add_left_eq)
    then have "(r + i) mod n = (w + (i - c)) mod n" using False by simp
    moreover have "i - c < length xs" using i False by linarith
    then have "b' ! ((w + (i - c)) mod n) = xs ! (i - c)" using w unfolding written_def by blast
    ultimately show ?thesis using False i by (simp add: ring_read_def nth_append)
  qed
qed simp

lemma unat_index:
  assumes "n < 2 ^ 15" and "int n = x"
  shows "unat (of_int x :: 15 word) = n"
  using assms by (auto simp: unat_of_nat take_bit_nat_eq_self)

lemma unat_index_add:
  assumes "unat (i :: 15 word) + unat (len :: u16) < 2 ^ 15"
  shows "unat (i + ucast len) = unat i + unat len"
proof -
  have "unat (ucast len :: 15 word) = unat len"
    using assms by (simp add: unsigned_ucast_eq take_bit_nat_eq_self)
  then show ?thesis using assms by (simp add: unat_word_ariths)
qed

text \<open>What the two copies do; the index wraps around, and the mirror flips, at the end.\<close>

lemma rb_write_spec:
  assumes i: "rb_inv rb" and p: "unat len \<le> length ptr" and c: "unat len \<le> rb_cap rb"
  shows "returns (rb_write ptr len rb) (\<lambda>rb'. \<exists>b w m. rb' = rb\<lparr>buffer := b, write_mirror := m, write_index := w\<rparr> \<and>
    written (take (unat len) ptr) (rb_cap rb) (unat (write_index rb)) (buffer rb) b \<and>
    (if unat (write_index rb) + unat len < rb_cap rb
     then unat w = unat (write_index rb) + unat len \<and> m = write_mirror rb
     else unat w = unat (write_index rb) + unat len - rb_cap rb \<and> m = NOT (write_mirror rb)))"
proof -
  let ?w = "unat (write_index rb)" and ?n = "rb_cap rb" and ?len = "unat len"
  let ?xs = "take ?len ptr"
  have n: "?n \<le> length (buffer rb)" "?w < ?n" using i by (auto simp: rb_inv_def)
  have e: "to_end rb (write_index rb) = int ?n - int ?w" using n by (simp add: to_end_def)
  have l: "length ?xs = ?len" using p by simp
  show ?thesis
  proof (cases "?w + ?len < ?n")
    case True
    obtain b where b: "buf_write ?w ?xs (buffer rb) = Some b"
      using buf_write_in [of ?w ?xs "buffer rb"] True n l by auto
    have "written ?xs ?n ?w (buffer rb) b" using written_straight [OF b] True n l by simp
    moreover have "unat (write_index rb + ucast len) = ?w + ?len"
      using unat_index_add [of "write_index rb" len] True rb_cap_bound [of rb] by simp
    moreover have "to_end rb (write_index rb) > int ?len" using e True by linarith
    then have "to_end rb (write_index rb) > uint len" by simp
    ultimately show ?thesis using b True
      by (auto simp: rb_write_def Let_def intro!: exI [of _ "write_mirror rb"])
  next
    case False
    let ?k = "?n - ?w"
    have k: "?w + ?k = ?n" "?k \<le> ?len" "0 < ?k" using False n by auto
    have t: "take ?k ptr = take ?k ?xs" using k by simp
    have d: "take (?len - ?k) (drop ?k ptr) = drop ?k ?xs" using k by (simp add: take_drop)
    have le: "?w + length (take ?k ?xs) \<le> length (buffer rb)" "0 + length (drop ?k ?xs) \<le> length (buffer rb)"
      using k n c l by auto
    obtain b1 where b1: "buf_write ?w (take ?k ?xs) (buffer rb) = Some b1" using buf_write_in [OF le(1)] ..
    have "0 + length (drop ?k ?xs) \<le> length b1" using le(2) buf_write_Some(1) [OF b1] by simp
    then obtain b where b: "buf_write 0 (drop ?k ?xs) b1 = Some b" using buf_write_in by blast
    have w: "written ?xs ?n ?w (buffer rb) b"
      by (rule written_wrapped [OF b1 b]) (use k n c l in auto)
    have wi: "unat (of_int (uint len - to_end rb (write_index rb)) :: 15 word) = ?w + ?len - ?n"
      by (rule unat_index) (use False n c rb_cap_bound [of rb] e in auto)
    have "\<not> to_end rb (write_index rb) > int ?len" "nat (to_end rb (write_index rb)) = ?k"
      using e False n by linarith+
    then have "\<not> to_end rb (write_index rb) > uint len" "nat (to_end rb (write_index rb)) = ?k" by simp_all
    then have eq: "rb_write ptr len rb = Some (rb\<lparr>buffer := b, write_mirror := NOT (write_mirror rb),
        write_index := of_int (uint len - to_end rb (write_index rb))\<rparr>)"
      using b1 b t d by (simp add: rb_write_def)
    show ?thesis unfolding eq returns_simps(1)
      by (intro exI conjI, rule refl, rule w) (use wi False in simp)
  qed
qed

lemma write_pos:
  assumes "rb_inv rb"
  shows "unat (write_index rb) = (unat (read_index rb) + rb_count rb) mod rb_cap rb"
proof (cases "read_mirror rb = write_mirror rb")
  case True
  then show ?thesis using assms by (auto simp: rb_inv_def rb_count_def)
next
  case False
  then have "unat (read_index rb) + rb_count rb = rb_cap rb + unat (write_index rb)"
    using assms by (auto simp: rb_inv_def rb_count_def)
  then show ?thesis using assms by (simp add: rb_inv_def)
qed

lemma rb_appended:
  assumes i: "rb_inv rb" and b: "written xs (rb_cap rb) (unat (write_index rb)) (buffer rb) b"
    and room: "rb_count rb + length xs \<le> rb_cap rb"
    and w: "if unat (write_index rb) + length xs < rb_cap rb
     then unat w = unat (write_index rb) + length xs \<and> m = write_mirror rb
     else unat w = unat (write_index rb) + length xs - rb_cap rb \<and> m = NOT (write_mirror rb)"
    and rb': "rb' = rb\<lparr>buffer := b, write_mirror := m, write_index := w\<rparr>"
  shows "rb_inv rb'" and "rb_count rb' = rb_count rb + length xs" and "rb_data rb' = rb_data rb @ xs"
proof -
  have l: "length b = length (buffer rb)" using b by (simp add: written_def)
  have mm: "read_mirror rb = m \<longleftrightarrow> (if unat (write_index rb) + length xs < rb_cap rb
      then read_mirror rb = write_mirror rb else read_mirror rb \<noteq> write_mirror rb)"
    using w one_word_flip(3) by auto
  have fields: "buffer rb' = b" "write_mirror rb' = m" "write_index rb' = w" "read_index rb' = read_index rb"
      "read_mirror rb' = read_mirror rb" "buffer_size rb' = buffer_size rb" unfolding rb' by simp_all
  note d = i [unfolded rb_inv_def] and r = room [unfolded rb_count_def]
  have "(if read_mirror rb = m then unat (read_index rb) \<le> unat w else unat w \<le> unat (read_index rb)) \<and>
      unat w < rb_cap rb \<and>
      (if read_mirror rb = m then unat w - unat (read_index rb) else rb_cap rb + unat w - unat (read_index rb)) =
        rb_count rb + length xs"
  proof (cases "unat (write_index rb) + length xs < rb_cap rb")
    case True
    then have w': "unat w = unat (write_index rb) + length xs" "m = write_mirror rb" using w by simp_all
    show ?thesis
      using d r True unfolding w' rb_count_def by (cases "read_mirror rb = write_mirror rb"; simp; linarith)
  next
    case False
    then have w': "unat w = unat (write_index rb) + length xs - rb_cap rb" using w by simp
    have e: "read_mirror rb = write_mirror rb" using d r False by (auto split: if_splits)
    then have "read_mirror rb \<noteq> m" using mm False by simp
    then show ?thesis using d r False e unfolding w' rb_count_def by simp linarith
  qed
  then show "rb_inv rb'" and c: "rb_count rb' = rb_count rb + length xs"
    using d l unfolding rb_inv_def rb_count_def fields by simp_all
  have "0 < rb_cap rb" using i by (simp add: rb_inv_def)
  from ring_read_written [OF b write_pos [OF i] room this]
  show "rb_data rb' = rb_data rb @ xs" using c unfolding rb_data_def by (simp add: rb')
qed

lemma rt_ringbuffer_put_spec:
  assumes i: "rb_inv rb" and p: "unat len \<le> length ptr"
  shows "returns (rt_ringbuffer_put ptr len rb) (\<lambda>(k, rb'). unat k = min (unat len) (rb_cap rb - rb_count rb) \<and>
    rb_inv rb' \<and> buffer_size rb' = buffer_size rb \<and> rb_data rb' = rb_data rb @ take (unat k) ptr)"
proof -
  let ?sz = "ucast (rt_ringbuffer_space_len rb) :: u16" and ?room = "rb_cap rb - rb_count rb"
  have sz: "unat ?sz = ?room"
    using ucast_small [of "rt_ringbuffer_space_len rb"] space_len(1) [OF i] rb_cap_bound [of rb] by simp
  show ?thesis
  proof (cases "?sz = 0")
    case True
    then have "?room = 0" using sz by (metis unat_0)
    then show ?thesis using True i by (simp add: rt_ringbuffer_put_def)
  next
    case False
    define k where "k = (if ?sz < len then ?sz else len)"
    have k: "unat k = min (unat len) ?room"
      using sz by (simp add: k_def word_less_nat_alt min_def)
    have "unat k \<le> length ptr" "unat k \<le> rb_cap rb" using k p by auto
    from rb_write_spec [OF i this] obtain b w m rb' where
      rb': "rb_write ptr k rb = Some rb'" "rb' = rb\<lparr>buffer := b, write_mirror := m, write_index := w\<rparr>"
        "written (take (unat k) ptr) (rb_cap rb) (unat (write_index rb)) (buffer rb) b"
        "if unat (write_index rb) + unat k < rb_cap rb
         then unat w = unat (write_index rb) + unat k \<and> m = write_mirror rb
         else unat w = unat (write_index rb) + unat k - rb_cap rb \<and> m = NOT (write_mirror rb)"
      by (elim returnsE exE conjE)
    have l: "length (take (unat k) ptr) = unat k" using k p by simp
    have "rb_count rb + unat k \<le> rb_cap rb" using k rb_count_le [OF i] by simp
    from rb_appended [OF i rb'(3) _ _ rb'(2), unfolded l, OF this rb'(4)]
    have "rb_inv rb'" "rb_data rb' = rb_data rb @ take (unat k) ptr" by simp_all
    moreover have "rt_ringbuffer_put ptr len rb = Some (k, rb')"
      using False rb'(1) k p unfolding k_def by (simp add: rt_ringbuffer_put_def)
    ultimately show ?thesis using k rb'(2) by simp
  qed
qed

section \<open>Reading\<close>

lemma ring_read_take: "k \<le> c \<Longrightarrow> take k (ring_read b n r c) = ring_read b n r k"
  by (simp add: ring_read_def take_map)

lemma ring_read_drop:
  assumes "k \<le> c"
  shows "drop k (ring_read b n r c) = ring_read b n (r + k) (c - k)"
  using assms by (auto intro!: nth_equalityI simp: ring_read_def add.assoc)

lemma ring_read_straight:
  assumes "r + k \<le> n" and "n \<le> length b"
  shows "ring_read b n r k = take k (drop r b)"
  using assms by (auto intro!: nth_equalityI simp: ring_read_def)

lemma rb_consumed:
  assumes i: "rb_inv rb" and k: "k \<le> rb_count rb"
    and r: "if unat (read_index rb) + k < rb_cap rb
     then unat r' = unat (read_index rb) + k \<and> m = read_mirror rb
     else unat r' = unat (read_index rb) + k - rb_cap rb \<and> m = NOT (read_mirror rb)"
    and rb': "rb' = rb\<lparr>read_mirror := m, read_index := r'\<rparr>"
  shows "rb_inv rb'" and "rb_data rb' = drop k (rb_data rb)"
proof -
  have mm: "m = write_mirror rb \<longleftrightarrow> (if unat (read_index rb) + k < rb_cap rb
      then read_mirror rb = write_mirror rb else read_mirror rb \<noteq> write_mirror rb)"
    using r one_word_flip(4) by auto
  have fields: "buffer rb' = buffer rb" "write_mirror rb' = write_mirror rb" "write_index rb' = write_index rb"
      "read_index rb' = r'" "read_mirror rb' = m" "buffer_size rb' = buffer_size rb" unfolding rb' by simp_all
  note d = i [unfolded rb_inv_def] and c = k [unfolded rb_count_def]
  have all: "(if m = write_mirror rb then unat r' \<le> unat (write_index rb) else unat (write_index rb) \<le> unat r') \<and>
      unat r' < rb_cap rb \<and> unat r' = (unat (read_index rb) + k) mod rb_cap rb \<and>
      (if m = write_mirror rb then unat (write_index rb) - unat r' else rb_cap rb + unat (write_index rb) - unat r') =
        rb_count rb - k"
  proof (cases "unat (read_index rb) + k < rb_cap rb")
    case True
    then have w': "unat r' = unat (read_index rb) + k" "m = read_mirror rb" using r by simp_all
    show ?thesis
      using d c True unfolding w' rb_count_def by (cases "read_mirror rb = write_mirror rb"; simp; linarith)
  next
    case False
    then have w': "unat r' = unat (read_index rb) + k - rb_cap rb" using r by simp
    have e: "read_mirror rb \<noteq> write_mirror rb" using d c False by (auto split: if_splits)
    then have m: "m = write_mirror rb" using mm False by simp
    have lt: "unat (read_index rb) + k - rb_cap rb < rb_cap rb" using d c e by simp linarith
    then have "(unat (read_index rb) + k) mod rb_cap rb = unat (read_index rb) + k - rb_cap rb"
      using False by (simp add: mod_if)
    then show ?thesis using d c False e lt m unfolding w' rb_count_def by simp linarith
  qed
  then show "rb_inv rb'" using d unfolding rb_inv_def fields by blast
  have c': "rb_count rb' = rb_count rb - k" using all unfolding rb_count_def [of rb'] fields by blast
  have p: "unat r' = (unat (read_index rb) + k) mod rb_cap rb" using all by blast
  show "rb_data rb' = drop k (rb_data rb)"
    unfolding rb_data_def fields ring_read_drop [OF k] c' p by (rule ring_read_mod)
qed

lemma rt_ringbuffer_get_spec:
  assumes i: "rb_inv rb"
  shows "returns (rt_ringbuffer_get len rb) (\<lambda>(xs, rb'). xs = take (unat len) (rb_data rb) \<and> rb_inv rb' \<and>
    buffer_size rb' = buffer_size rb \<and> rb_data rb' = drop (unat len) (rb_data rb))"
proof -
  let ?sz = "rt_ringbuffer_data_len rb" and ?r = "unat (read_index rb)" and ?n = "rb_cap rb"
  have n: "?n \<le> length (buffer rb)" "?r < ?n" using i by (auto simp: rb_inv_def)
  have sz: "unat ?sz = rb_count rb" by (rule space_len(2) [OF i])
  show ?thesis
  proof (cases "?sz = 0")
    case True
    then have "rb_data rb = []" using sz length_rb_data [of rb] by (metis length_0_conv unat_0)
    then show ?thesis using True i by (simp add: rt_ringbuffer_get_def)
  next
    case False
    define k where "k = (if ?sz < ucast len then ucast ?sz else len)"
    have "unat (ucast len :: u32) = unat len"
      using unsigned_less [of len, where 'a = nat] by (simp add: unsigned_ucast_eq take_bit_nat_eq_self)
    moreover have "unat (ucast ?sz :: u16) = rb_count rb"
      using ucast_small [of ?sz] sz rb_count_le [OF i] rb_cap_bound [of rb] by simp
    ultimately have k: "unat k = min (unat len) (rb_count rb)"
      using sz by (simp add: k_def word_less_nat_alt min_def)
    have e: "to_end rb (read_index rb) = int ?n - int ?r" using n by (simp add: to_end_def)
    have dat: "take (unat len) (rb_data rb) = ring_read (buffer rb) ?n ?r (unat k)"
      "drop (unat len) (rb_data rb) = drop (unat k) (rb_data rb)"
      unfolding k rb_data_def by (cases "unat len \<le> rb_count rb"; simp add: ring_read_take)+
    have kc: "unat k \<le> rb_count rb" "unat k \<le> ?n" using k rb_count_le [OF i] by simp_all
    show ?thesis
    proof (cases "?r + unat k < ?n")
      case True
      let ?rb' = "rb\<lparr>read_index := read_index rb + ucast k\<rparr>"
      have "unat (read_index rb + ucast k) = ?r + unat k"
        using unat_index_add [of "read_index rb" k] True rb_cap_bound [of rb] by simp
      then have rb': "rb_inv ?rb'" "rb_data ?rb' = drop (unat k) (rb_data rb)"
        using rb_consumed [OF i kc(1), of "read_index rb + ucast k" "read_mirror rb" ?rb'] True by simp_all
      have "to_end rb (read_index rb) > int (unat k)" using e True by linarith
      then have "to_end rb (read_index rb) > uint k" by simp
      moreover have "buf_read ?r (unat k) (buffer rb) = Some (take (unat len) (rb_data rb))"
        using True n ring_read_straight [OF _ n(1), of ?r "unat k"] by (simp add: buf_read_def dat)
      ultimately have "rt_ringbuffer_get len rb = Some (take (unat len) (rb_data rb), ?rb')"
        using False unfolding rt_ringbuffer_get_def by (simp add: k_def [symmetric] Let_def)
      then show ?thesis using rb' dat(2) by simp
    next
      case wrap: False
      let ?j = "?n - ?r" and ?r' = "of_int (uint k - to_end rb (read_index rb)) :: 15 word"
      let ?rb' = "rb\<lparr>read_mirror := NOT (read_mirror rb), read_index := ?r'\<rparr>"
      have r': "unat ?r' = ?r + unat k - ?n"
        by (rule unat_index) (use wrap n kc rb_cap_bound [of rb] e in auto)
      then have rb': "rb_inv ?rb'" "rb_data ?rb' = drop (unat k) (rb_data rb)"
        using rb_consumed [OF i kc(1), of ?r' "NOT (read_mirror rb)" ?rb'] wrap by simp_all
      have "\<not> to_end rb (read_index rb) > int (unat k)" "nat (to_end rb (read_index rb)) = ?j"
        using e wrap n by linarith+
      then have t: "\<not> to_end rb (read_index rb) > uint k" "nat (to_end rb (read_index rb)) = ?j" by simp_all
      have j: "?j \<le> unat k" "?r + ?j = ?n" using wrap n by simp_all
      then have "ring_read (buffer rb) ?n ?r (unat k) =
          take ?j (ring_read (buffer rb) ?n ?r (unat k)) @ drop ?j (ring_read (buffer rb) ?n ?r (unat k))"
        by simp
      also have "\<dots> = ring_read (buffer rb) ?n ?r ?j @ ring_read (buffer rb) ?n 0 (unat k - ?j)"
        unfolding ring_read_take [OF j(1)] ring_read_drop [OF j(1)] j(2)
        using ring_read_mod [of "buffer rb" ?n ?n "unat k - ?j"] by simp
      finally have d: "take (unat len) (rb_data rb) = take ?j (drop ?r (buffer rb)) @ take (unat k - ?j) (buffer rb)"
        using dat(1) ring_read_straight [of ?r ?j ?n "buffer rb"] ring_read_straight [of 0 "unat k - ?j" ?n "buffer rb"]
          j n kc by simp
      have "buf_read ?r ?j (buffer rb) = Some (take ?j (drop ?r (buffer rb)))"
        "buf_read 0 (unat k - ?j) (buffer rb) = Some (take (unat k - ?j) (buffer rb))"
        using n kc j by (simp_all add: buf_read_def)
      then have "rt_ringbuffer_get len rb = Some (take (unat len) (rb_data rb), ?rb')"
        using False t unfolding rt_ringbuffer_get_def d by (simp add: k_def [symmetric] Let_def)
      then show ?thesis using rb' dat(2) by simp
    qed
  qed
qed

section \<open>Single bytes\<close>

text \<open>The byte operations do what the block operations do on blocks of one byte.\<close>

lemma buf_write_Nil [simp]: "buf_write 0 [] b = Some b"
  by (simp add: buf_write_def)

lemma to_end_one:
  assumes "rb_inv rb" and "i = write_index rb \<or> i = read_index rb"
  shows "to_end rb i > 1 \<longleftrightarrow> uint i \<noteq> sint (buffer_size rb) - 1" and "\<not> to_end rb i > 1 \<Longrightarrow> to_end rb i = 1"
proof -
  have "unat i < rb_cap rb" using assms by (auto simp: rb_inv_def)
  then have "int (unat i) < sint (buffer_size rb)" by linarith
  then have u: "uint i < sint (buffer_size rb)" by simp
  show "to_end rb i > 1 \<longleftrightarrow> uint i \<noteq> sint (buffer_size rb) - 1" using u unfolding to_end_def by linarith
  show "\<not> to_end rb i > 1 \<Longrightarrow> to_end rb i = 1" using u unfolding to_end_def by linarith
qed

lemma putchar_put:
  assumes i: "rb_inv rb"
  shows "rt_ringbuffer_putchar ch rb = map_option (\<lambda>(k, rb). (unat k, rb)) (rt_ringbuffer_put [ch] 1 rb)"
proof -
  let ?sz = "ucast (rt_ringbuffer_space_len rb) :: u16"
  have sz: "unat ?sz = unat (rt_ringbuffer_space_len rb)"
    using ucast_small [of "rt_ringbuffer_space_len rb"] space_len(1) [OF i] rb_cap_bound [of rb] by simp
  then have z: "?sz = 0 \<longleftrightarrow> rt_ringbuffer_space_len rb = 0" by (metis unat_eq_zero)
  show ?thesis
  proof (cases "?sz = 0")
    case True
    then show ?thesis using z by (simp add: rt_ringbuffer_put_def rt_ringbuffer_putchar_def)
  next
    case False
    then have "(if ?sz < 1 then ?sz else 1) = 1" by (simp add: word_less_1)
    then have "rt_ringbuffer_put [ch] 1 rb = Option.bind (rb_write [ch] 1 rb) (\<lambda>rb. Some (1, rb))"
      using False by (simp add: rt_ringbuffer_put_def)
    moreover have "rt_ringbuffer_space_len rb \<noteq> 0" using z False by simp
    ultimately show ?thesis
      using to_end_one [OF i, of "write_index rb"]
      by (cases "to_end rb (write_index rb) > 1"; cases "buf_write (unat (write_index rb)) [ch] (buffer rb)")
         (simp_all add: rt_ringbuffer_putchar_def rb_write_def)
  qed
qed

lemma getchar_get:
  assumes i: "rb_inv rb"
  shows "rt_ringbuffer_getchar rb = map_option (\<lambda>(xs, rb). (case xs of [] \<Rightarrow> None | x # _ \<Rightarrow> Some x, rb))
    (rt_ringbuffer_get 1 rb)"
proof (cases "rt_ringbuffer_data_len rb = 0")
  case True
  then show ?thesis by (simp add: rt_ringbuffer_get_def rt_ringbuffer_getchar_def)
next
  case False
  have k: "(if rt_ringbuffer_data_len rb < ucast (1 :: u16) then ucast (rt_ringbuffer_data_len rb) else 1) = (1 :: u16)"
    using False by (simp add: word_less_1)
  have rd: "buf_read (unat (read_index rb)) 1 (buffer rb) = Some [buffer rb ! unat (read_index rb)]"
  proof -
    have "unat (read_index rb) < length (buffer rb)" using i by (simp add: rb_inv_def)
    then show ?thesis by (simp add: buf_read_def take_Suc_conv_app_nth hd_drop_conv_nth take_Suc)
  qed
  show ?thesis
    using to_end_one [OF i, of "read_index rb"] False rd
    by (cases "to_end rb (read_index rb) > 1")
       (simp_all add: rt_ringbuffer_get_def rt_ringbuffer_getchar_def k buf_read_def)
qed

section \<open>Overwriting old data\<close>

lemma rb_forced:
  assumes i: "rb_inv rb" and b: "written xs (rb_cap rb) (unat (write_index rb)) (buffer rb) b"
    and len: "length xs \<le> rb_cap rb" and full: "rb_cap rb - rb_count rb < length xs"
    and w: "unat w = (unat (write_index rb) + length xs) mod rb_cap rb" and m: "rm \<noteq> wm"
    and rb': "rb' = rb\<lparr>buffer := b, write_mirror := wm, write_index := w, read_mirror := rm, read_index := w\<rparr>"
  shows "rb_inv rb'" and "rb_data rb' = drop (length xs - (rb_cap rb - rb_count rb)) (rb_data rb) @ xs"
proof -
  let ?n = "rb_cap rb" and ?w = "unat (write_index rb)" and ?r = "unat (read_index rb)"
  let ?L = "length xs" and ?room = "rb_cap rb - rb_count rb"
  have n: "0 < ?n" and l: "length b = length (buffer rb)" using i b by (auto simp: rb_inv_def written_def)
  have wn: "unat w < ?n" unfolding w using n by (rule mod_less_divisor)
  have cap: "rb_cap rb' = ?n" unfolding rb' by simp
  show "rb_inv rb'" using i l wn m unfolding rb_inv_def rb' by simp
  have c: "rb_count rb' = ?n" using m unfolding rb_count_def rb' by simp
  have wr: "?w = (?r + rb_count rb) mod ?n" by (rule write_pos [OF i])
  have "(unat w + (?n - ?L)) mod ?n = (?w + ?L + (?n - ?L)) mod ?n" unfolding w by (rule mod_add_left_eq)
  also have "\<dots> = ?w mod ?n" using len by simp
  also have "\<dots> = ?w" using i by (simp add: rb_inv_def)
  finally have "?w = (unat w + (?n - ?L)) mod ?n" by simp
  from ring_read_written [OF b this _ n] len
  have "ring_read b ?n (unat w) ?n = ring_read (buffer rb) ?n (unat w) (?n - ?L) @ xs" by simp
  moreover have "ring_read (buffer rb) ?n (unat w) (?n - ?L) = drop (?L - ?room) (rb_data rb)"
  proof -
    have k: "?L - ?room \<le> rb_count rb" using len rb_count_le [OF i] by linarith
    have "unat w = (?r + rb_count rb + ?L) mod ?n" unfolding w wr by (rule mod_add_left_eq)
    moreover have "?r + rb_count rb + ?L = ?r + (?L - ?room) + ?n" using full rb_count_le [OF i] by linarith
    ultimately have u: "unat w = (?r + (?L - ?room)) mod ?n" by (simp only: mod_add_self2)
    have d: "rb_count rb - (?L - ?room) = ?n - ?L" using full rb_count_le [OF i] by linarith
    show ?thesis unfolding rb_data_def ring_read_drop [OF k] u d by (rule ring_read_mod)
  qed
  moreover have "buffer rb' = b" "read_index rb' = w" unfolding rb' by simp_all
  ultimately show "rb_data rb' = drop (?L - ?room) (rb_data rb) @ xs"
    unfolding rb_data_def [of rb'] cap c by simp
qed

lemma put_force_spec:
  assumes i: "rb_inv rb" and p: "unat len \<le> length ptr"
  defines "k \<equiv> min (unat len) (rb_cap rb)" and "room \<equiv> rb_cap rb - rb_count rb"
  defines "xs \<equiv> drop (unat len - k) (take (unat len) ptr)"
  shows "returns (rt_ringbuffer_put_force ptr len rb) (\<lambda>(l, rb'). unat l = k \<and> rb_inv rb' \<and>
    buffer_size rb' = buffer_size rb \<and>
    (k \<le> room \<longrightarrow> rb_data rb' = rb_data rb @ xs) \<and>
    (room < k \<and> read_mirror rb \<noteq> write_mirror rb \<longrightarrow> rb_data rb' = drop (k - room) (rb_data rb) @ xs) \<and>
    (room < k \<and> read_mirror rb = write_mirror rb \<longrightarrow> rb_data rb' = []))"
proof -
  let ?n = "rb_cap rb" and ?w = "unat (write_index rb)" and ?sz = "ucast (rt_ringbuffer_space_len rb) :: u16"
  define ptr' where "ptr' = drop (unat len - k) ptr"
  define l where "l = (if uint len > sint (buffer_size rb) then buffer_size rb else len)"
  have sn: "sint (buffer_size rb) = int ?n" and wn: "?w < ?n" using i by (auto simp: rb_inv_def)
  have "int (unat len) > sint (buffer_size rb) \<longleftrightarrow> ?n < unat len" using sn by linarith
  then have big: "uint len > sint (buffer_size rb) \<longleftrightarrow> ?n < unat len" by simp
  have bs: "unat (buffer_size rb) = ?n"
  proof -
    have "0 \<le> sint (buffer_size rb)" using sn by linarith
    moreover have "sint (buffer_size rb) < 2 ^ 15" using sint_lt [of "buffer_size rb"] by simp
    ultimately have "uint (buffer_size rb) = sint (buffer_size rb)"
      using uint_sint [of "buffer_size rb"] by (simp add: take_bit_int_eq_self)
    then show ?thesis by (metis nat_uint_eq)
  qed
  have l: "unat l = k" using big bs by (auto simp: l_def k_def min_def)
  have room: "unat ?sz = room"
    using ucast_small [of "rt_ringbuffer_space_len rb"] space_len(1) [OF i] rb_cap_bound [of rb]
    by (simp add: room_def)
  have lp: "unat l \<le> length ptr'" "unat l \<le> ?n" using p by (auto simp: l k_def ptr'_def)
  have xs: "take (unat l) ptr' = xs" using p by (simp add: l xs_def ptr'_def k_def take_drop min_def)
  have lx: "length xs = k" using lp(1) xs l by (metis length_take min.absorb2)
  from rb_write_spec [OF i lp] obtain b w m rb1 where
    rb1: "rb_write ptr' l rb = Some rb1" "rb1 = rb\<lparr>buffer := b, write_mirror := m, write_index := w\<rparr>"
      "written xs ?n ?w (buffer rb) b"
      "if ?w + k < ?n then unat w = ?w + k \<and> m = write_mirror rb
       else unat w = ?w + k - ?n \<and> m = NOT (write_mirror rb)"
    unfolding xs unfolding l by (elim returnsE exE conjE)
  let ?wraps = "to_end rb (write_index rb) \<le> uint l"
  have wraps: "?wraps \<longleftrightarrow> \<not> ?w + k < ?n"
  proof -
    have "to_end rb (write_index rb) = int ?n - int ?w" using sn by (simp add: to_end_def)
    then have "to_end rb (write_index rb) \<le> int k \<longleftrightarrow> \<not> ?w + k < ?n" by linarith
    moreover have "uint l = int k" using l by (metis uint_nat)
    ultimately have "?wraps \<longleftrightarrow> \<not> ?w + k < ?n" by metis
    then show ?thesis by simp
  qed
  have dr: "drop (nat (uint len - sint (buffer_size rb))) ptr = ptr'" if "?n < unat len"
  proof -
    have "uint len - sint (buffer_size rb) = int (unat len - ?n)"
      unfolding uint_nat using that sn by linarith
    then have "nat (uint len - sint (buffer_size rb)) = unat len - ?n" by simp
    then show ?thesis using that by (simp add: ptr'_def k_def)
  qed
  have "(if uint len > sint (buffer_size rb)
      then (drop (nat (uint len - sint (buffer_size rb))) ptr, buffer_size rb) else (ptr, len)) = (ptr', l)"
    using big dr by (auto simp: l_def ptr'_def k_def)
  then have eq: "rt_ringbuffer_put_force ptr len rb = Some (l, if l > ?sz
      then (if ?wraps then rb1\<lparr>read_mirror := NOT (read_mirror rb1), read_index := write_index rb1\<rparr>
        else rb1\<lparr>read_index := write_index rb1\<rparr>) else rb1)"
    using rb1(1) p unfolding rt_ringbuffer_put_force_def by simp
  have gt: "l > ?sz \<longleftrightarrow> room < k" using room l by (simp add: word_less_nat_alt)
  show ?thesis
  proof (cases "room < k")
    case False
    then have "rb_count rb + length xs \<le> ?n" using lx rb_count_le [OF i] by (simp add: room_def)
    from rb_appended [OF i rb1(3) this _ rb1(2), unfolded lx, OF rb1(4)]
    show ?thesis unfolding eq using False gt l rb1(2) by simp
  next
    case True
    have wm: "unat w = (?w + length xs) mod ?n"
    proof (cases "?w + k < ?n")
      case no: False
      have "?w + k - ?n < ?n" using lp(2) wn l by linarith
      then show ?thesis using rb1(4) no lx by (simp add: mod_if)
    qed (use rb1(4) lx in simp)
    show ?thesis
    proof (cases "read_mirror rb = write_mirror rb")
      case eqm: True
      then have "\<not> ?w + k < ?n" using True i by (auto simp: room_def rb_count_def rb_inv_def)
      moreover then have "m = NOT (write_mirror rb)" using rb1(4) by simp
      ultimately have e: "rt_ringbuffer_put_force ptr len rb = Some (l, rb1\<lparr>read_mirror := write_mirror rb1,
          read_index := write_index rb1\<rparr>)"
        unfolding eq using gt wraps True eqm rb1(2) by simp
      have "unat w < ?n" using wm i by (simp add: rb_inv_def)
      then have "rb_inv (rb1\<lparr>read_mirror := write_mirror rb1, read_index := write_index rb1\<rparr>)"
        using i rb1(2,3) by (simp add: rb_inv_def written_def)
      then show ?thesis
        unfolding e using l rb1(2) eqm True by (simp add: rb_data_def rb_count_def)
    next
      case ne: False
      let ?rm = "if ?wraps then NOT (read_mirror rb) else read_mirror rb"
      have "?rm \<noteq> m" using ne rb1(4) wraps by (auto simp: one_word_flip split: if_splits)
      note forced = rb_forced [OF i rb1(3) _ _ wm this refl, unfolded lx, folded room_def]
      have e: "rt_ringbuffer_put_force ptr len rb = Some (l, rb\<lparr>buffer := b, write_mirror := m, write_index := w,
          read_mirror := ?rm, read_index := w\<rparr>)"
        unfolding eq using gt True rb1(2) by simp
      show ?thesis unfolding e using l True ne forced lp(2) by simp
    qed
  qed
qed

lemma putchar_force_put_force:
  assumes i: "rb_inv rb"
  shows "rt_ringbuffer_putchar_force ch rb = map_option (\<lambda>(k, rb). (unat k, rb)) (rt_ringbuffer_put_force [ch] 1 rb)"
proof -
  let ?sz = "ucast (rt_ringbuffer_space_len rb) :: u16"
  have sz: "unat ?sz = rb_cap rb - rb_count rb"
    using ucast_small [of "rt_ringbuffer_space_len rb"] space_len(1) [OF i] rb_cap_bound [of rb] by simp
  have n: "0 < rb_cap rb" using i by (simp add: rb_inv_def)
  have "1 > ?sz \<longleftrightarrow> rb_cap rb - rb_count rb = 0" using sz by (simp add: word_less_nat_alt)
  moreover have "rt_ringbuffer_status rb = RT_RINGBUFFER_FULL \<longleftrightarrow> rb_cap rb - rb_count rb = 0"
    using rb_status [OF i] rb_count_le [OF i] n by auto
  ultimately have full: "1 > ?sz \<longleftrightarrow> rt_ringbuffer_status rb = RT_RINGBUFFER_FULL" by simp
  have one: "\<not> 1 > sint (buffer_size rb)" using n by linarith
  show ?thesis
    using to_end_one [OF i, of "write_index rb"] full one
    by (cases "to_end rb (write_index rb) > 1"; cases "buf_write (unat (write_index rb)) [ch] (buffer rb)")
       (simp_all add: rt_ringbuffer_putchar_force_def rt_ringbuffer_put_force_def rb_write_def Let_def)
qed

text \<open>The byte operations make the ring buffer a bounded buffer.\<close>

interpretation rb: bounded_fifo rb_inv rb_cap rb_data "\<lambda>rb. rt_ringbuffer_space_len rb = 0"
  "\<lambda>rb. rt_ringbuffer_data_len rb = 0" "\<lambda>_ _. True"
  "\<lambda>ch rb. map_option snd (rt_ringbuffer_putchar ch rb)"
  "\<lambda>rb. map_option (\<lambda>(ch, rb). (the ch, rb)) (rt_ringbuffer_getchar rb)"
proof unfold_locales
  show "length (rb_data s) \<le> rb_cap s" if "rb_inv s" for s using rb_count_le [OF that] by simp
  show "(rt_ringbuffer_space_len s = 0) = (length (rb_data s) = rb_cap s)" if "rb_inv s" for s
    using space_len(1) [OF that] rb_count_le [OF that] unat_eq_zero [of "rt_ringbuffer_space_len s"] by auto
  show "(rt_ringbuffer_data_len s = 0) = (rb_data s = [])" if "rb_inv s" for s
    using space_len(2) [OF that] unat_eq_zero [of "rt_ringbuffer_data_len s"] length_rb_data [of s]
    by (metis length_0_conv)
  show "returns (map_option snd (rt_ringbuffer_putchar x s)) (\<lambda>s'. rb_inv s' \<and> rb_data s' = rb_data s @ [x] \<and>
      rb_cap s' = rb_cap s \<and> (\<lambda>_::u8. True) = (\<lambda>_. True))"
    if "rb_inv s" "length (rb_data s) < rb_cap s" for s x
  proof -
    have "unat (1 :: u16) \<le> length [x]" by simp
    from rt_ringbuffer_put_spec [OF that(1) this] show ?thesis
      using that(2) by (auto elim!: returnsE simp: putchar_put [OF that(1)] min_def split: if_splits)
  qed
  show "returns (map_option (\<lambda>(ch, rb). (the ch, rb)) (rt_ringbuffer_getchar s)) (\<lambda>(y, s'). y = x \<and> rb_inv s' \<and>
      rb_data s' = xs \<and> rb_cap s' = rb_cap s \<and> (\<lambda>_::u8. True) = (\<lambda>_. True))"
    if "rb_inv s" "rb_data s = x # xs" for s x xs
    using rt_ringbuffer_get_spec [OF that(1), of 1] that(2)
    by (auto elim!: returnsE simp: getchar_get [OF that(1)])
qed

text \<open>
  C30. Block writes and reads of a ring buffer, for every state, wrap-around included:
  \<^verbatim>\<open>rt_ringbuffer_put\<close> stores as many of the bytes as there is room for behind the bytes in the
  buffer, and a following \<^verbatim>\<open>rt_ringbuffer_get\<close> of any length delivers the oldest bytes, cut to
  what is there, and leaves the rest: what is put comes back unchanged and in order.
\<close>

theorem rt_ringbuffer_put_get:
  assumes i: "rb_inv rb" and p: "unat len \<le> length ptr"
  shows "\<exists>k rb1. rt_ringbuffer_put ptr len rb = Some (k, rb1) \<and> unat k = min (unat len) (rb_cap rb - rb_count rb) \<and>
    rb_inv rb1 \<and> rb_data rb1 = rb_data rb @ take (unat k) ptr \<and>
    (\<forall>n. \<exists>rb2. rt_ringbuffer_get n rb1 = Some (take (unat n) (rb_data rb @ take (unat k) ptr), rb2) \<and>
      rb_inv rb2 \<and> rb_data rb2 = drop (unat n) (rb_data rb @ take (unat k) ptr))"
proof -
  from rt_ringbuffer_put_spec [OF i p] obtain k rb1 where
    1: "rt_ringbuffer_put ptr len rb = Some (k, rb1)" "unat k = min (unat len) (rb_cap rb - rb_count rb)"
      "rb_inv rb1" "rb_data rb1 = rb_data rb @ take (unat k) ptr" by (auto elim!: returnsE)
  have "\<exists>rb2. rt_ringbuffer_get n rb1 = Some (take (unat n) (rb_data rb1), rb2) \<and>
      rb_inv rb2 \<and> rb_data rb2 = drop (unat n) (rb_data rb1)" for n
    using rt_ringbuffer_get_spec [OF 1(3), of n] by (auto elim!: returnsE)
  then show ?thesis using 1 by metis
qed

text \<open>A buffer of four bytes with the bytes 1 and 2 in its first half.\<close>

definition example_rb :: rt_ringbuffer where
  "example_rb = \<lparr>buffer = [1, 2, 0, 0], read_mirror = 0, read_index = 0, write_mirror = 0, write_index = 2,
     buffer_size = 4\<rparr>"

lemma example_rb_facts:
  "rb_inv example_rb" "rb_cap example_rb = 4" "rb_count example_rb = 2" "rb_data example_rb = [1, 2]"
  "read_mirror example_rb = write_mirror example_rb"
proof -
  have "[0..<2] = [0, 1::nat]" by (simp add: numeral_2_eq_2)
  then show "rb_inv example_rb" "rb_cap example_rb = 4" "rb_count example_rb = 2" "rb_data example_rb = [1, 2]"
    "read_mirror example_rb = write_mirror example_rb"
    by (simp_all add: example_rb_def rb_inv_def rb_count_def rb_data_def ring_read_def)
qed

theorem rt_ringbuffer_put_get_witness:
  "\<exists>rb1 rb2. rt_ringbuffer_put [7, 8, 9] 3 example_rb = Some (2, rb1) \<and>
     rt_ringbuffer_get 3 rb1 = Some ([1, 2, 7], rb2)"
proof -
  have "unat (3 :: u16) \<le> length [7, 8, 9 :: u8]" by simp
  from rt_ringbuffer_put_get [OF example_rb_facts(1) this] obtain k rb1 where
    k: "rt_ringbuffer_put [7, 8, 9] 3 example_rb = Some (k, rb1)"
      "unat k = min (unat (3 :: u16)) (rb_cap example_rb - rb_count example_rb)"
      "\<forall>n. \<exists>rb2. rt_ringbuffer_get n rb1 = Some (take (unat n) (rb_data example_rb @ take (unat k) [7, 8, 9]), rb2)"
    by blast
  have "k = 2" using k(2) by (simp add: word_unat_eq_iff example_rb_facts)
  moreover from this obtain rb2 where "rt_ringbuffer_get 3 rb1 = Some ([1, 2, 7], rb2)"
    using k(3) [rule_format, of 3] by (auto simp: example_rb_facts)
  ultimately show ?thesis using k(1) by auto
qed

text \<open>
  \<^verbatim>\<open>rt_ringbuffer_put_force\<close> stores the last bytes of the block, at most as many as the
  buffer has. When there is room they go behind the bytes in the buffer; otherwise the oldest
  bytes are dropped, but only if the mirrors differ. When the mirrors are equal and old bytes
  must be overwritten, the read mirror is flipped together with the write mirror: the
  buffer, which is full, reports that it is empty, and all bytes are lost.
\<close>

theorem rt_ringbuffer_put_force_correct:
  assumes "rb_inv rb" and "unat len \<le> length ptr"
    and "k = min (unat len) (rb_cap rb)" and "xs = drop (unat len - k) (take (unat len) ptr)"
  shows "\<exists>l rb'. rt_ringbuffer_put_force ptr len rb = Some (l, rb') \<and> unat l = k \<and> rb_inv rb' \<and>
    (k \<le> rb_cap rb - rb_count rb \<longrightarrow> rb_data rb' = rb_data rb @ xs) \<and>
    (rb_cap rb - rb_count rb < k \<and> read_mirror rb \<noteq> write_mirror rb \<longrightarrow>
      rb_data rb' = drop (k - (rb_cap rb - rb_count rb)) (rb_data rb) @ xs) \<and>
    (rb_cap rb - rb_count rb < k \<and> read_mirror rb = write_mirror rb \<longrightarrow> rb_data rb' = [])"
  using put_force_spec [OF assms(1,2)] unfolding assms(3,4) by (elim returnsE) auto

theorem rt_ringbuffer_put_force_correct_witness:
  "\<exists>rb'. rt_ringbuffer_put_force [7, 8, 9] 3 example_rb = Some (3, rb') \<and> rb_data rb' = []"
proof -
  have "unat (3 :: u16) \<le> length [7, 8, 9 :: u8]" by simp
  from rt_ringbuffer_put_force_correct [OF example_rb_facts(1) this refl refl] obtain l rb' where
    "rt_ringbuffer_put_force [7, 8, 9] 3 example_rb = Some (l, rb')" "unat l = 3" "rb_data rb' = []"
    by (auto simp: example_rb_facts)
  moreover from this(2) have "l = 3" by (simp add: word_unat_eq_iff)
  ultimately show ?thesis by auto
qed

text \<open>The byte version overwrites correctly: a full buffer loses its oldest byte.\<close>

lemma rt_ringbuffer_putchar_force_spec:
  assumes i: "rb_inv rb"
  shows "returns (rt_ringbuffer_putchar_force ch rb) (\<lambda>(n, rb'). n = 1 \<and> rb_inv rb' \<and>
    rb_data rb' = (if rb_count rb = rb_cap rb then tl (rb_data rb) else rb_data rb) @ [ch])"
proof -
  have p: "unat (1 :: u16) \<le> length [ch]" by simp
  have n: "0 < rb_cap rb" using i by (simp add: rb_inv_def)
  have k: "min (unat (1 :: u16)) (rb_cap rb) = 1" using n by simp
  have ne: "read_mirror rb \<noteq> write_mirror rb" if "rb_count rb = rb_cap rb"
    using that n i by (auto simp: rb_count_def rb_inv_def)
  show ?thesis
    using put_force_spec [OF i p, unfolded k] rb_count_le [OF i] ne
    by (auto elim!: returnsE simp: putchar_force_put_force [OF i] drop_Suc)
qed

end
