(* ===== verification/Rt_SList.thy ===== *)
theory Rt_SList
  imports RT_Prelude
begin

text \<open>
  The singly linked lists of \<^verbatim>\<open>include/rtservice.h\<close>: a store of \<open>next\<close> pointers, in which the
  head is a node like the others and the last node's pointer is null. The loops are partial
  functions, because on a cyclic store they need not end. \<open>chain\<close> says that the nodes \<open>xs\<close>
  hang behind \<open>a\<close> in this order; the lemmas give the effect of each routine on such a
  sequence, which is what the ring block buffer (theory \<open>Ringblk\<close>) is written against.
\<close>

section \<open>The code\<close>

type_synonym 'n slist_store = "'n \<Rightarrow> 'n option"

definition rt_slist_init :: "'n \<Rightarrow> 'n slist_store \<Rightarrow> 'n slist_store" where
  "rt_slist_init l s = s(l := None)"

partial_function (option) rt_slist_tail :: "'n \<Rightarrow> 'n slist_store \<Rightarrow> 'n option" where
  "rt_slist_tail l s = (case s l of Some n \<Rightarrow> rt_slist_tail n s | None \<Rightarrow> Some l)"

definition rt_slist_append :: "'n \<Rightarrow> 'n \<Rightarrow> 'n slist_store \<Rightarrow> 'n slist_store option" where
  "rt_slist_append l n s = do {
     node \<leftarrow> rt_slist_tail l s;
     let s = s(node := Some n);
     Some (s(n := None))
   }"

definition rt_slist_insert :: "'n \<Rightarrow> 'n \<Rightarrow> 'n slist_store \<Rightarrow> 'n slist_store" where
  "rt_slist_insert l n s = (let s = s(n := s l) in s(l := Some n))"

partial_function (option) slist_len_loop :: "'n option \<Rightarrow> nat \<Rightarrow> 'n slist_store \<Rightarrow> nat option" where
  "slist_len_loop list len s =
     (case list of Some n \<Rightarrow> slist_len_loop (s n) (len + 1) s | None \<Rightarrow> Some len)"

definition rt_slist_len :: "'n \<Rightarrow> 'n slist_store \<Rightarrow> nat option" where
  "rt_slist_len l s = slist_len_loop (s l) 0 s"

partial_function (option) slist_before :: "'n \<Rightarrow> 'n \<Rightarrow> 'n slist_store \<Rightarrow> 'n option" where
  "slist_before node n s = (case s node of
       Some m \<Rightarrow> if m \<noteq> n then slist_before m n s else Some node
     | None \<Rightarrow> Some node)"

definition rt_slist_remove :: "'n \<Rightarrow> 'n \<Rightarrow> 'n slist_store \<Rightarrow> 'n slist_store option" where
  "rt_slist_remove l n s = do {
     node \<leftarrow> slist_before l n s;
     Some (case s node of Some m \<Rightarrow> s(node := s m) | None \<Rightarrow> s)
   }"

definition rt_slist_first :: "'n \<Rightarrow> 'n slist_store \<Rightarrow> 'n option" where
  "rt_slist_first l s = s l"

definition rt_slist_next :: "'n \<Rightarrow> 'n slist_store \<Rightarrow> 'n option" where
  "rt_slist_next n s = s n"

definition rt_slist_isempty :: "'n \<Rightarrow> 'n slist_store \<Rightarrow> bool" where
  "rt_slist_isempty l s \<longleftrightarrow> s l = None"

section \<open>Chains\<close>

fun chain :: "'n slist_store \<Rightarrow> 'n \<Rightarrow> 'n list \<Rightarrow> bool" where
  "chain s a [] \<longleftrightarrow> s a = None"
| "chain s a (x # xs) \<longleftrightarrow> s a = Some x \<and> chain s x xs"

lemma chain_frame: "m \<notin> set (a # xs) \<Longrightarrow> chain (s(m := v)) a xs = chain s a xs"
  by (induction xs arbitrary: a) auto

lemma rt_slist_tail_chain: "chain s a xs \<Longrightarrow> rt_slist_tail a s = Some (last (a # xs))"
  by (induction xs arbitrary: a) (auto simp: rt_slist_tail.simps)

lemma slist_len_loop_chain: "chain s a xs \<Longrightarrow> slist_len_loop (s a) k s = Some (k + length xs)"
  by (induction xs arbitrary: a k) (auto simp: slist_len_loop.simps)

lemma chain_observe:
  assumes "chain s l xs"
  shows "rt_slist_len l s = Some (length xs)" and "rt_slist_isempty l s \<longleftrightarrow> xs = []"
    and "rt_slist_first l s = (case xs of [] \<Rightarrow> None | x # _ \<Rightarrow> Some x)"
    and "xs = ys @ x # zs \<Longrightarrow> rt_slist_next x s = (case zs of [] \<Rightarrow> None | z # _ \<Rightarrow> Some z)"
proof -
  show "rt_slist_len l s = Some (length xs)"
    using slist_len_loop_chain [OF assms, of 0] by (simp add: rt_slist_len_def)
  show "rt_slist_isempty l s \<longleftrightarrow> xs = []" "rt_slist_first l s = (case xs of [] \<Rightarrow> None | x # _ \<Rightarrow> Some x)"
    using assms by (cases xs; simp add: rt_slist_isempty_def rt_slist_first_def)+
  have "chain s a (ys @ x # zs) \<Longrightarrow> chain s x zs" for a by (induction ys arbitrary: a) auto
  then show "rt_slist_next x s = (case zs of [] \<Rightarrow> None | z # _ \<Rightarrow> Some z)" if "xs = ys @ x # zs"
    using assms that by (cases zs) (auto simp: rt_slist_next_def)
qed

lemma chain_snoc:
  assumes "chain s a xs" and "n \<notin> set (a # xs)" and "distinct (a # xs)"
  shows "chain (s(last (a # xs) := Some n, n := None)) a (xs @ [n])"
  using assms by (induction xs arbitrary: a) (auto simp: fun_upd_twist)

lemma rt_slist_append_chain:
  assumes "chain s l xs" and "n \<notin> set (l # xs)" and "distinct (l # xs)"
  shows "returns (rt_slist_append l n s) (\<lambda>s'. chain s' l (xs @ [n]))"
  using chain_snoc [OF assms] rt_slist_tail_chain [OF assms(1)] by (simp add: rt_slist_append_def)

lemma rt_slist_insert_chain:
  assumes "chain s l xs" and "n \<notin> set (l # xs)" and "distinct (l # xs)"
  shows "chain (rt_slist_insert l n s) l (n # xs)"
proof -
  have "chain (s(n := s l)) n xs" using assms(1,2) by (cases xs) (auto simp: chain_frame)
  then have "chain (s(n := s l, l := Some n)) n xs" using assms(2,3) by (subst chain_frame) auto
  then show ?thesis by (simp add: rt_slist_insert_def)
qed

lemma slist_remove_aux:
  assumes "chain s a xs" and "distinct (a # xs)" and "a \<noteq> n"
  shows "\<exists>p. slist_before a n s = Some p \<and>
    chain (case s p of Some m \<Rightarrow> s(p := s m) | None \<Rightarrow> s) a (remove1 n xs) \<and>
    p \<in> set (a # xs)"
  using assms
proof (induction xs arbitrary: a)
  case Nil
  then show ?case by (intro exI [of _ a]) (simp add: slist_before.simps)
next
  case (Cons x xs)
  show ?case
  proof (cases "x = n")
    case True
    then have "slist_before a n s = Some a" using Cons.prems(1) by (simp add: slist_before.simps)
    moreover have "chain (s(a := s x)) a xs"
      using Cons.prems by (cases xs) (auto simp: chain_frame)
    ultimately show ?thesis using Cons.prems(1) True by simp
  next
    case False
    from Cons.IH [of x] Cons.prems False obtain p where
      p: "slist_before x n s = Some p" "chain (case s p of Some m \<Rightarrow> s(p := s m) | None \<Rightarrow> s) x (remove1 n xs)"
        "p \<in> set (x # xs)" by auto
    have "slist_before a n s = Some p" using p(1) Cons.prems(1) False by (subst slist_before.simps) simp
    moreover have "(case s p of Some m \<Rightarrow> s(p := s m) | None \<Rightarrow> s) a = Some x"
      using Cons.prems(1,2) p(3) by (auto split: option.split)
    ultimately show ?thesis using p(2,3) False by auto
  qed
qed

lemma rt_slist_remove_chain:
  assumes "chain s l xs" and "distinct (l # xs)" and "l \<noteq> n"
  shows "returns (rt_slist_remove l n s) (\<lambda>s'. chain s' l (remove1 n xs))"
  using slist_remove_aux [OF assms] by (auto simp: rt_slist_remove_def)

end
