(* ===== verification/Ringblk.thy ===== *)
theory Ringblk
  imports Rt_SList Alloc
begin

text \<open>
  The ring block buffer of the device drivers: \<^verbatim>\<open>components/drivers/src/ringblk_buf.c\<close>. Blocks
  of any size are cut from one buffer in a circle; the descriptors of the blocks are an array,
  those in use hang in a singly linked list in the order of their allocation. A block pointer
  is the number of its descriptor, the list is the sequence of its nodes (theory \<open>Rt_SList\<close>
  justifies this), and addresses are 32-bit words. The main invariant is the layout of the
  blocks in the buffer: they never overlap, as long as no block of size zero is requested, an
  empty buffer is not asked for more than its size (the code does not check it), and blocks
  are not taken with \<^verbatim>\<open>rt_rbb_blk_queue_get\<close>, which unlinks them while they are read.
\<close>

section \<open>The code\<close>

datatype rt_rbb_status = RT_RBB_BLK_UNUSED | RT_RBB_BLK_INITED | RT_RBB_BLK_PUT | RT_RBB_BLK_GET

record rt_rbb_blk =
  status :: rt_rbb_status
  blk_size :: u32
  blk_buf :: u32

record rt_rbb =
  rbb_buf :: u32
  rbb_buf_size :: u32
  blk_set :: "nat \<Rightarrow> rt_rbb_blk"
  blk_max_num :: nat
  blk_list :: "nat list"

record rt_rbb_blk_queue =
  blocks :: nat
  blk_num :: nat

definition upd_blk :: "nat \<Rightarrow> (rt_rbb_blk \<Rightarrow> rt_rbb_blk) \<Rightarrow> rt_rbb \<Rightarrow> rt_rbb" where
  "upd_blk b f r = r\<lparr>blk_set := (blk_set r)(b := f (blk_set r b))\<rparr>"

definition rt_rbb_init :: "u32 \<Rightarrow> u32 \<Rightarrow> (nat \<Rightarrow> rt_rbb_blk) \<Rightarrow> nat \<Rightarrow> rt_rbb" where
  "rt_rbb_init buf sz block_set max_num =
     fold (\<lambda>i. upd_blk i (\<lambda>x. x\<lparr>status := RT_RBB_BLK_UNUSED\<rparr>)) [0..<max_num]
       \<lparr>rbb_buf = buf, rbb_buf_size = sz, blk_set = block_set, blk_max_num = max_num, blk_list = []\<rparr>"

text \<open>
  Creation from the heap: each of the three allocations may fail; then what has been got is
  given back.
\<close>

datatype rbb_mem = Mem_rbb | Mem_buf | Mem_blk_set

definition rt_rbb_create :: "bool \<Rightarrow> u32 option \<Rightarrow> (nat \<Rightarrow> rt_rbb_blk) option \<Rightarrow> u32 \<Rightarrow> nat \<Rightarrow>
    rt_rbb option \<times> rbb_mem list" where
  "rt_rbb_create rbb_mem buf_mem set_mem buf_size max_num =
     (if \<not> rbb_mem then (None, [])
      else case buf_mem of
        None \<Rightarrow> (None, [Mem_rbb])
      | Some buf \<Rightarrow>
          (case set_mem of
             None \<Rightarrow> (None, [Mem_buf, Mem_rbb])
           | Some block_set \<Rightarrow> (Some (rt_rbb_init buf buf_size block_set max_num), [])))"

definition find_empty_blk_in_set :: "rt_rbb \<Rightarrow> nat option" where
  "find_empty_blk_in_set r =
     List.find (\<lambda>i. status (blk_set r i) = RT_RBB_BLK_UNUSED) [0..<blk_max_num r]"

definition link_blk :: "nat \<Rightarrow> u32 \<Rightarrow> u32 \<Rightarrow> rt_rbb \<Rightarrow> rt_rbb" where
  "link_blk new buf sz r =
     (let r = r\<lparr>blk_list := blk_list r @ [new]\<rparr>
      in upd_blk new (\<lambda>x. x\<lparr>status := RT_RBB_BLK_INITED, blk_buf := buf, blk_size := sz\<rparr>) r)"

definition rt_rbb_blk_alloc :: "u32 \<Rightarrow> rt_rbb \<Rightarrow> (nat option \<times> rt_rbb) option" where
  "rt_rbb_blk_alloc sz r = do {
     rt_assert (sz < 2 ^ 24);
     case find_empty_blk_in_set r of
       None \<Rightarrow> Some (None, r)
     | Some new \<Rightarrow>
         if \<not> length (blk_list r) < blk_max_num r then Some (None, r)
         else if length (blk_list r) > 0 then
           let head = blk_set r (hd (blk_list r));
               tail = blk_set r (last (blk_list r))
           in if blk_buf head \<le> blk_buf tail then
                let empty1 = (rbb_buf r + rbb_buf_size r) - (blk_buf tail + blk_size tail);
                    empty2 = blk_buf head - rbb_buf r
                in if empty1 \<ge> sz then Some (Some new, link_blk new (blk_buf tail + blk_size tail) sz r)
                   else if empty2 \<ge> sz then Some (Some new, link_blk new (rbb_buf r) sz r)
                   else Some (None, r)
              else
                let empty1 = blk_buf head - (blk_buf tail + blk_size tail)
                in if empty1 \<ge> sz then Some (Some new, link_blk new (blk_buf tail + blk_size tail) sz r)
                   else Some (None, r)
         else Some (Some new, link_blk new (rbb_buf r) sz r)
   }"

definition rt_rbb_blk_put :: "nat \<Rightarrow> rt_rbb \<Rightarrow> rt_rbb option" where
  "rt_rbb_blk_put b r = do {
     rt_assert (status (blk_set r b) = RT_RBB_BLK_INITED);
     Some (upd_blk b (\<lambda>x. x\<lparr>status := RT_RBB_BLK_PUT\<rparr>) r)
   }"

definition rt_rbb_blk_get :: "rt_rbb \<Rightarrow> nat option \<times> rt_rbb" where
  "rt_rbb_blk_get r =
     (case List.find (\<lambda>b. status (blk_set r b) = RT_RBB_BLK_PUT) (blk_list r) of
        Some b \<Rightarrow> (Some b, upd_blk b (\<lambda>x. x\<lparr>status := RT_RBB_BLK_GET\<rparr>) r)
      | None \<Rightarrow> (None, r))"

definition rt_rbb_blk_size :: "nat \<Rightarrow> rt_rbb \<Rightarrow> u32" where
  "rt_rbb_blk_size b r = blk_size (blk_set r b)"

definition rt_rbb_blk_buf :: "nat \<Rightarrow> rt_rbb \<Rightarrow> u32" where
  "rt_rbb_blk_buf b r = blk_buf (blk_set r b)"

definition rt_rbb_blk_free :: "nat \<Rightarrow> rt_rbb \<Rightarrow> rt_rbb option" where
  "rt_rbb_blk_free b r = do {
     rt_assert (status (blk_set r b) \<noteq> RT_RBB_BLK_UNUSED);
     let r = r\<lparr>blk_list := remove1 b (blk_list r)\<rparr>;
     Some (upd_blk b (\<lambda>x. x\<lparr>status := RT_RBB_BLK_UNUSED\<rparr>) r)
   }"

text \<open>
  The loop of \<^verbatim>\<open>rt_rbb_blk_queue_get\<close>: the list is walked on from each node, also from a node
  that has just been unlinked, whose \<open>next\<close> pointer \<^verbatim>\<open>rt_slist_remove\<close> leaves as it was.
\<close>

definition queue_take :: "nat \<Rightarrow> u32 \<times> rt_rbb_blk_queue \<times> rt_rbb \<Rightarrow> u32 \<times> rt_rbb_blk_queue \<times> rt_rbb" where
  "queue_take b = (\<lambda>(tot, q, r).
     (tot + blk_size (blk_set r b), q\<lparr>blk_num := blk_num q + 1\<rparr>,
      upd_blk b (\<lambda>x. x\<lparr>status := RT_RBB_BLK_GET\<rparr>) (r\<lparr>blk_list := remove1 b (blk_list r)\<rparr>)))"

fun queue_get_loop :: "u32 \<Rightarrow> nat list \<Rightarrow> nat option \<Rightarrow> u32 \<times> rt_rbb_blk_queue \<times> rt_rbb \<Rightarrow>
    u32 \<times> rt_rbb_blk_queue \<times> rt_rbb" where
  "queue_get_loop len [] last_block s = s"
| "queue_get_loop len (b # bs) None (tot, q, r) =
     (if status (blk_set r b) = RT_RBB_BLK_PUT
      then queue_get_loop len bs (Some b) (queue_take b (tot, \<lparr>blocks = b, blk_num = 0\<rparr>, r))
      else queue_get_loop len bs None (tot, q, r))"
| "queue_get_loop len (b # bs) (Some last_block) (tot, q, r) =
     (if status (blk_set r b) \<noteq> RT_RBB_BLK_PUT \<or> blk_buf (blk_set r last_block) > blk_buf (blk_set r b) \<or>
         tot + blk_size (blk_set r b) > len
      then (tot, q, r)
      else queue_get_loop len bs (Some b) (queue_take b (tot, q, r)))"

definition rt_rbb_blk_queue_get :: "u32 \<Rightarrow> rt_rbb_blk_queue \<Rightarrow> rt_rbb \<Rightarrow> u32 \<times> rt_rbb_blk_queue \<times> rt_rbb" where
  "rt_rbb_blk_queue_get len q r = queue_get_loop len (blk_list r) None (0, q, r)"

definition rt_rbb_blk_queue_len :: "rt_rbb_blk_queue \<Rightarrow> rt_rbb \<Rightarrow> u32" where
  "rt_rbb_blk_queue_len q r = fold (\<lambda>i n. n + blk_size (blk_set r (blocks q + i))) [0..<blk_num q] 0"

definition rt_rbb_blk_queue_buf :: "rt_rbb_blk_queue \<Rightarrow> rt_rbb \<Rightarrow> u32" where
  "rt_rbb_blk_queue_buf q r = blk_buf (blk_set r (blocks q))"

definition rt_rbb_blk_queue_free :: "rt_rbb_blk_queue \<Rightarrow> rt_rbb \<Rightarrow> rt_rbb option" where
  "rt_rbb_blk_queue_free q r =
     fold (\<lambda>i m. Option.bind m (rt_rbb_blk_free (blocks q + i))) [0..<blk_num q] (Some r)"

fun next_queue_len_loop :: "nat list \<Rightarrow> nat option \<Rightarrow> u32 \<Rightarrow> rt_rbb \<Rightarrow> u32" where
  "next_queue_len_loop [] last_block tot r = tot"
| "next_queue_len_loop (b # bs) None tot r =
     (if status (blk_set r b) \<noteq> RT_RBB_BLK_PUT then next_queue_len_loop bs None tot r
      else next_queue_len_loop bs (Some b) (tot + blk_size (blk_set r b)) r)"
| "next_queue_len_loop (b # bs) (Some last_block) tot r =
     (if status (blk_set r b) \<noteq> RT_RBB_BLK_PUT \<or> blk_buf (blk_set r last_block) > blk_buf (blk_set r b)
      then tot
      else next_queue_len_loop bs (Some b) (tot + blk_size (blk_set r b)) r)"

definition rt_rbb_next_blk_queue_len :: "rt_rbb \<Rightarrow> u32" where
  "rt_rbb_next_blk_queue_len r = next_queue_len_loop (blk_list r) None 0 r"

definition rt_rbb_get_buf_size :: "rt_rbb \<Rightarrow> u32" where
  "rt_rbb_get_buf_size r = rbb_buf_size r"

lemma blk_sel [simp]:
  "blk_set (upd_blk b f r) = (blk_set r)(b := f (blk_set r b))" "blk_list (upd_blk b f r) = blk_list r"
  "rbb_buf (upd_blk b f r) = rbb_buf r" "rbb_buf_size (upd_blk b f r) = rbb_buf_size r"
  "blk_max_num (upd_blk b f r) = blk_max_num r"
  "blk_set (link_blk b a n r) =
     (blk_set r)(b := (blk_set r b)\<lparr>status := RT_RBB_BLK_INITED, blk_buf := a, blk_size := n\<rparr>)"
  "blk_list (link_blk b a n r) = blk_list r @ [b]"
  "rbb_buf (link_blk b a n r) = rbb_buf r" "rbb_buf_size (link_blk b a n r) = rbb_buf_size r"
  "blk_max_num (link_blk b a n r) = blk_max_num r"
  by (simp_all add: upd_blk_def link_blk_def)

section \<open>The layout of the blocks\<close>

text \<open>
  Where a block begins and ends, as numbers, and blocks that follow each other from \<open>lo\<close> on
  without overlap and end before \<open>hi\<close>.
\<close>

definition blk_at :: "rt_rbb \<Rightarrow> nat \<Rightarrow> nat" where
  "blk_at r b = unat (blk_buf (blk_set r b))"

definition blk_end :: "rt_rbb \<Rightarrow> nat \<Rightarrow> nat" where
  "blk_end r b = blk_at r b + unat (blk_size (blk_set r b))"

fun ascending :: "rt_rbb \<Rightarrow> nat \<Rightarrow> nat list \<Rightarrow> nat \<Rightarrow> bool" where
  "ascending r lo [] hi \<longleftrightarrow> lo \<le> hi"
| "ascending r lo (b # bs) hi \<longleftrightarrow> lo \<le> blk_at r b \<and> blk_at r b < blk_end r b \<and> ascending r (blk_end r b) bs hi"

definition rbb_end :: "rt_rbb \<Rightarrow> nat" where
  "rbb_end r = unat (rbb_buf r) + unat (rbb_buf_size r)"

text \<open>
  The older blocks \<open>A\<close> lie in ascending order up to the end of the buffer; the younger \<open>B\<close>, if
  the allocation has wrapped around, from its beginning up to the oldest block.
\<close>

definition rbb_layout :: "rt_rbb \<Rightarrow> nat list \<Rightarrow> nat list \<Rightarrow> bool" where
  "rbb_layout r A B \<longleftrightarrow> ascending r (unat (rbb_buf r)) A (rbb_end r) \<and>
     (B \<noteq> [] \<longrightarrow> A \<noteq> [] \<and> ascending r (unat (rbb_buf r)) B (blk_at r (hd A)))"

definition rbb_ok :: "rt_rbb \<Rightarrow> bool" where
  "rbb_ok r \<longleftrightarrow> distinct (blk_list r) \<and> set (blk_list r) \<subseteq> {..<blk_max_num r} \<and>
     (\<forall>b < blk_max_num r. status (blk_set r b) = RT_RBB_BLK_UNUSED \<longleftrightarrow> b \<notin> set (blk_list r)) \<and>
     rbb_end r \<le> 2 ^ 32 \<and> (\<exists>A B. blk_list r = A @ B \<and> rbb_layout r A B)"

lemma ascending_mono:
  "ascending r lo bs hi \<Longrightarrow> lo' \<le> lo \<Longrightarrow> hi \<le> hi' \<Longrightarrow> ascending r lo' bs hi'"
  by (induction bs arbitrary: lo lo') auto

lemma ascending_append:
  "ascending r lo (xs @ ys) hi \<longleftrightarrow> (\<exists>m. ascending r lo xs m \<and> ascending r m ys hi)"
proof (induction xs arbitrary: lo)
  case Nil
  then show ?case using ascending_mono by (cases ys) auto
qed auto

lemma ascending_le: "ascending r lo bs hi \<Longrightarrow> lo \<le> hi"
  by (induction bs arbitrary: lo) fastforce+

lemma ascending_bounds:
  assumes "ascending r lo bs hi" and "b \<in> set bs"
  shows "lo \<le> blk_at r b" and "blk_at r b < blk_end r b" and "blk_end r b \<le> hi"
  using assms by (induction bs arbitrary: lo) (fastforce dest: ascending_le)+


lemma ascending_remove: "ascending r lo bs hi \<Longrightarrow> ascending r lo (remove1 b bs) hi"
proof (induction bs arbitrary: lo)
  case (Cons x xs)
  then show ?case using ascending_mono [of r "blk_end r x" xs hi lo hi] by auto
qed simp

lemma ascending_cong:
  assumes "\<And>b. b \<in> set bs \<Longrightarrow> blk_buf (blk_set r' b) = blk_buf (blk_set r b) \<and>
    blk_size (blk_set r' b) = blk_size (blk_set r b)"
  shows "ascending r' lo bs hi = ascending r lo bs hi"
  using assms by (induction bs arbitrary: lo) (simp_all add: blk_at_def blk_end_def)

lemma ascending_snoc:
  assumes "ascending r lo (xs @ [b]) hi" and "blk_end r b \<le> blk_at r c" and "blk_at r c < blk_end r c"
    and "blk_end r c \<le> hi'"
  shows "ascending r lo (xs @ [b, c]) hi'"
proof -
  from assms(1) obtain m where "ascending r lo xs m" "m \<le> blk_at r b" "blk_at r b < blk_end r b"
    by (auto simp: ascending_append)
  with assms(2-4) show ?thesis by (auto simp: ascending_append)
qed

lemma rbb_layout_remove:
  assumes "rbb_layout r A B" and "distinct (A @ B)"
  shows "\<exists>A' B'. remove1 b (A @ B) = A' @ B' \<and> rbb_layout r A' B'"
proof (cases "b \<in> set A")
  case True
  then have e: "remove1 b (A @ B) = remove1 b A @ B" by (simp add: remove1_append)
  show ?thesis
  proof (cases "remove1 b A")
    case Nil
    have "ascending r (unat (rbb_buf r)) B (rbb_end r)"
    proof (cases "B = []")
      case True
      then show ?thesis using assms(1) ascending_le by (auto simp: rbb_layout_def)
    next
      case False
      then have "A \<noteq> []" "ascending r (unat (rbb_buf r)) B (blk_at r (hd A))"
        "ascending r (unat (rbb_buf r)) A (rbb_end r)" using assms(1) by (auto simp: rbb_layout_def)
      then show ?thesis using ascending_bounds(2,3) [of r _ A _ "hd A"] ascending_mono
        by (metis hd_in_set le_refl less_le_trans less_or_eq_imp_le)
    qed
    then show ?thesis using e Nil by (intro exI [of _ B] exI [of _ "[]"]) (simp add: rbb_layout_def)
  next
    case (Cons a as)
    have "blk_at r (hd A) \<le> blk_at r a"
    proof -
      have "a \<in> set A" using Cons set_remove1_subset [of b A] by auto
      then show ?thesis using assms(1) ascending_bounds(1)
        by (cases A) (fastforce simp: rbb_layout_def)+
    qed
    then show ?thesis
      using assms(1) e Cons ascending_remove [of r _ A _ b] ascending_mono [of r _ B "blk_at r (hd A)"]
      by (intro exI [of _ "remove1 b A"] exI [of _ B]) (auto simp: rbb_layout_def)
  qed
next
  case False
  then have "remove1 b (A @ B) = A @ remove1 b B" by (simp add: remove1_append)
  then show ?thesis
    using assms(1) ascending_remove [of r _ B _ b]
    by (intro exI [of _ A] exI [of _ "remove1 b B"]) (auto simp: rbb_layout_def)
qed


section \<open>Every operation keeps the layout\<close>



text \<open>What a new block needs: its place is free and its descriptor unused.\<close>

lemma layout_other:
  assumes "b \<notin> set bs"
  shows "ascending (link_blk b a n r) lo bs hi = ascending r lo bs hi"
  by (rule ascending_cong) (use assms in auto)

lemma link_blk_at [simp]:
  "blk_at (link_blk b a n r) c = (if c = b then unat a else blk_at r c)"
  "blk_end (link_blk b a n r) c = (if c = b then unat a + unat n else blk_end r c)"
  "rbb_end (link_blk b a n r) = rbb_end r"
  by (simp_all add: blk_at_def blk_end_def rbb_end_def)

definition places :: "rt_rbb \<Rightarrow> u32 \<Rightarrow> u32 \<Rightarrow> bool" where
  "places r a n \<longleftrightarrow> (\<exists>A B. blk_list r = A @ B \<and> rbb_layout r A B \<and>
     (B = [] \<and> A \<noteq> [] \<and> unat a = blk_end r (last A) \<and> unat a + unat n \<le> rbb_end r \<or>
      B = [] \<and> A \<noteq> [] \<and> a = rbb_buf r \<and> unat a + unat n \<le> blk_at r (hd A) \<or>
      B \<noteq> [] \<and> unat a = blk_end r (last B) \<and> unat a + unat n \<le> blk_at r (hd A) \<or>
      A = [] \<and> B = [] \<and> a = rbb_buf r \<and> unat a + unat n \<le> rbb_end r))"

lemma link_layout:
  assumes p: "places r a n" and n: "n \<noteq> 0" and b: "b \<notin> set (blk_list r)"
  shows "\<exists>A B. blk_list (link_blk b a n r) = A @ B \<and> rbb_layout (link_blk b a n r) A B"
proof -
  let ?r = "link_blk b a n r"
  from p obtain A B where l: "blk_list r = A @ B" "rbb_layout r A B" and
    c: "B = [] \<and> A \<noteq> [] \<and> unat a = blk_end r (last A) \<and> unat a + unat n \<le> rbb_end r \<or>
      B = [] \<and> A \<noteq> [] \<and> a = rbb_buf r \<and> unat a + unat n \<le> blk_at r (hd A) \<or>
      B \<noteq> [] \<and> unat a = blk_end r (last B) \<and> unat a + unat n \<le> blk_at r (hd A) \<or>
      A = [] \<and> B = [] \<and> a = rbb_buf r \<and> unat a + unat n \<le> rbb_end r"
    unfolding places_def by blast
  have n0: "0 < unat n" using n by (simp add: unat_gt_0)
  have nb: "b \<notin> set A" "b \<notin> set B" using b l(1) by auto
  note o = layout_other [OF nb(1), of a n r] layout_other [OF nb(2), of a n r]
  from c show ?thesis
  proof (elim disjE conjE)
    assume h: "B = []" "A \<noteq> []" "unat a = blk_end r (last A)" "unat a + unat n \<le> rbb_end r"
    then obtain xs x where x: "A = xs @ [x]" by (metis append_butlast_last_id)
    have "ascending ?r (unat (rbb_buf r)) (xs @ [x, b]) (rbb_end r)"
      by (rule ascending_snoc [where hi = "rbb_end r"])
         (use l(2) h o x nb n0 in \<open>auto simp: rbb_layout_def\<close>)
    then show ?thesis
      using l h(1) x by (intro exI [of _ "A @ [b]"] exI [of _ "[]"]) (simp add: rbb_layout_def)
  next
    assume h: "B = []" "A \<noteq> []" "a = rbb_buf r" "unat a + unat n \<le> blk_at r (hd A)"
    then have "hd A \<noteq> b" using nb by auto
    then show ?thesis
      using l h o n0 by (intro exI [of _ A] exI [of _ "[b]"]) (simp add: rbb_layout_def)
  next
    assume h: "B \<noteq> []" "unat a = blk_end r (last B)" "unat a + unat n \<le> blk_at r (hd A)"
    then obtain xs x where x: "B = xs @ [x]" by (metis append_butlast_last_id)
    have A: "A \<noteq> []" using l(2) h(1) by (simp add: rbb_layout_def)
    then have "hd A \<noteq> b" using nb by auto
    then have "ascending ?r (unat (rbb_buf r)) (xs @ [x, b]) (blk_at ?r (hd A))"
      by (intro ascending_snoc [where hi = "blk_at r (hd A)"])
         (use l(2) h o x nb n0 in \<open>auto simp: rbb_layout_def\<close>)
    then show ?thesis
      using l o x A by (intro exI [of _ A] exI [of _ "B @ [b]"]) (simp add: rbb_layout_def)
  next
    assume h: "A = []" "B = []" "a = rbb_buf r" "unat a + unat n \<le> rbb_end r"
    then show ?thesis
      using l n0 by (intro exI [of _ "[b]"] exI [of _ "[]"]) (simp add: rbb_layout_def)
  qed
qed

lemma find_empty_spec:
  assumes "find_empty_blk_in_set r = Some b"
  shows "b < blk_max_num r" and "status (blk_set r b) = RT_RBB_BLK_UNUSED"
  using assms by (auto simp: find_empty_blk_in_set_def find_Some_iff)

lemma link_ok:
  assumes r: "rbb_ok r" and b: "find_empty_blk_in_set r = Some b" and p: "places r a n" and n: "n \<noteq> 0"
  shows "rbb_ok (link_blk b a n r)" and "b \<notin> set (blk_list r)"
proof -
  note f = find_empty_spec [OF b]
  show nb: "b \<notin> set (blk_list r)" using r f unfolding rbb_ok_def by blast
  show "rbb_ok (link_blk b a n r)"
    using r f nb link_layout [OF p n nb] unfolding rbb_ok_def by auto
qed

text \<open>The pointer arithmetic of the allocation does not wrap around.\<close>

lemma layout_facts:
  assumes r: "rbb_ok r" and l: "blk_list r = A @ B" "rbb_layout r A B"
  shows "b \<in> set (A @ B) \<Longrightarrow> unat (rbb_buf r) \<le> blk_at r b \<and> blk_at r b < blk_end r b \<and> blk_end r b \<le> rbb_end r"
    and "B \<noteq> [] \<Longrightarrow> b \<in> set B \<Longrightarrow> blk_at r b < blk_at r (hd A) \<and> blk_end r b \<le> blk_at r (hd A)"
proof -
  have a: "ascending r (unat (rbb_buf r)) A (rbb_end r)"
    and b': "B \<noteq> [] \<Longrightarrow> A \<noteq> [] \<and> ascending r (unat (rbb_buf r)) B (blk_at r (hd A))"
    using l(2) by (simp_all add: rbb_layout_def)
  show g: "blk_at r b < blk_at r (hd A) \<and> blk_end r b \<le> blk_at r (hd A)" if "B \<noteq> []" "b \<in> set B"
    using ascending_bounds [of r _ B _ b] b' that by fastforce
  show "unat (rbb_buf r) \<le> blk_at r b \<and> blk_at r b < blk_end r b \<and> blk_end r b \<le> rbb_end r"
    if "b \<in> set (A @ B)"
  proof (cases "b \<in> set A")
    case True
    then show ?thesis using ascending_bounds [OF a] by blast
  next
    case False
    with that have "b \<in> set B" "B \<noteq> []" by auto
    then show ?thesis
      using ascending_bounds [of r _ B _ b] b' ascending_bounds [OF a, of "hd A"] by fastforce
  qed
qed

lemma unat_block_end:
  assumes "blk_end r b \<le> hi" and "hi < 2 ^ 32"
  shows "unat (blk_buf (blk_set r b) + blk_size (blk_set r b)) = blk_end r b"
  using assms by (simp add: blk_end_def blk_at_def unat_word_ariths)


lemma unat_diff:
  assumes "n \<le> m" and "m \<le> 2 ^ 32" and "0 < n"
  shows "unat (word_of_nat m - word_of_nat n :: u32) = m - n"
proof -
  have "word_of_nat m - word_of_nat n = (word_of_nat (m - n) :: u32)"
    using assms(1) by (simp add: of_nat_diff)
  moreover have "m - n < 2 ^ 32" using assms by linarith
  ultimately show ?thesis by (simp add: unat_of_nat take_bit_nat_eq_self)
qed

lemma rbb_words:
  "rbb_buf r + rbb_buf_size r = word_of_nat (rbb_end r)"
  "blk_buf (blk_set r b) + blk_size (blk_set r b) = word_of_nat (blk_end r b)"
  by (simp_all add: rbb_end_def blk_end_def blk_at_def)

text \<open>Room behind the last block, at the end of the buffer or before the first block.\<close>

lemma room_after:
  assumes r: "rbb_ok r" and l: "blk_list r = A" "rbb_layout r A []" and A: "A \<noteq> []" and n: "0 < unat n"
  shows "n \<le> (rbb_buf r + rbb_buf_size r) - (blk_buf (blk_set r (last A)) + blk_size (blk_set r (last A))) \<longleftrightarrow>
    blk_end r (last A) + unat n \<le> rbb_end r"
    and "n \<le> blk_buf (blk_set r (hd A)) - rbb_buf r \<longleftrightarrow> unat (rbb_buf r) + unat n \<le> blk_at r (hd A)"
    and "blk_end r (last A) + unat n \<le> rbb_end r \<Longrightarrow>
      unat (blk_buf (blk_set r (last A)) + blk_size (blk_set r (last A))) = blk_end r (last A)"
    and "blk_buf (blk_set r (hd A)) \<le> blk_buf (blk_set r (last A))"
proof -
  have e: "rbb_end r \<le> 2 ^ 32" using r by (simp add: rbb_ok_def)
  have m: "last A \<in> set (A @ [])" "hd A \<in> set (A @ [])" using A by auto
  note t = layout_facts(1) [OF r _ l(2) m(1)] layout_facts(1) [OF r _ l(2) m(2)]
  have t: "blk_at r (last A) < blk_end r (last A)" "blk_end r (last A) \<le> rbb_end r" "unat (rbb_buf r) \<le> blk_at r (hd A)"
    using t l(1) by simp_all
  have d: "unat ((rbb_buf r + rbb_buf_size r) - (blk_buf (blk_set r (last A)) + blk_size (blk_set r (last A)))) =
    rbb_end r - blk_end r (last A)"
    unfolding rbb_words by (rule unat_diff) (use t e in auto)
  show "n \<le> (rbb_buf r + rbb_buf_size r) - (blk_buf (blk_set r (last A)) + blk_size (blk_set r (last A))) \<longleftrightarrow>
    blk_end r (last A) + unat n \<le> rbb_end r"
    using d t(2) n by (simp add: word_le_nat_alt le_diff_conv2 add.commute)
  have "unat (blk_buf (blk_set r (hd A)) - rbb_buf r) = blk_at r (hd A) - unat (rbb_buf r)"
    using t(3) by (simp add: blk_at_def unat_sub_if')
  then show "n \<le> blk_buf (blk_set r (hd A)) - rbb_buf r \<longleftrightarrow> unat (rbb_buf r) + unat n \<le> blk_at r (hd A)"
    using t(3) by (simp add: word_le_nat_alt le_diff_conv2 add.commute)
  show "unat (blk_buf (blk_set r (last A)) + blk_size (blk_set r (last A))) = blk_end r (last A)"
    if "blk_end r (last A) + unat n \<le> rbb_end r"
    by (rule unat_block_end [of _ _ "blk_end r (last A)"]) (use that e n in auto)
  show "blk_buf (blk_set r (hd A)) \<le> blk_buf (blk_set r (last A))"
  proof (cases "last A = hd A")
    case False
    then obtain a as where "A = a # as" "last A \<in> set as" using A by (cases A) (auto split: if_splits)
    then have "blk_at r (hd A) \<le> blk_at r (last A)"
      using l(2) ascending_bounds(1) [of r _ as _ "last A"] by (fastforce simp: rbb_layout_def)
    then show ?thesis by (simp add: blk_at_def word_le_nat_alt)
  qed simp
qed

lemma room_between:
  assumes r: "rbb_ok r" and l: "blk_list r = A @ B" "rbb_layout r A B" and B: "B \<noteq> []"
  shows "n \<le> blk_buf (blk_set r (hd A)) - (blk_buf (blk_set r (last B)) + blk_size (blk_set r (last B))) \<longleftrightarrow>
    blk_end r (last B) + unat n \<le> blk_at r (hd A)"
    and "unat (blk_buf (blk_set r (last B)) + blk_size (blk_set r (last B))) = blk_end r (last B)"
    and "\<not> blk_buf (blk_set r (hd A)) \<le> blk_buf (blk_set r (last B))"
proof -
  have m: "last B \<in> set B" using B by simp
  note f = layout_facts(2) [OF r l B m]
  show e: "unat (blk_buf (blk_set r (last B)) + blk_size (blk_set r (last B))) = blk_end r (last B)"
    by (rule unat_block_end [of _ _ "blk_at r (hd A)"])
       (use f in \<open>auto simp: blk_at_def less_le_trans [OF unsigned_less]\<close>)
  have "unat (blk_buf (blk_set r (hd A)) - (blk_buf (blk_set r (last B)) + blk_size (blk_set r (last B)))) =
    blk_at r (hd A) - blk_end r (last B)"
    using f e by (simp add: blk_at_def unat_sub_if')
  then show "n \<le> blk_buf (blk_set r (hd A)) - (blk_buf (blk_set r (last B)) + blk_size (blk_set r (last B))) \<longleftrightarrow>
    blk_end r (last B) + unat n \<le> blk_at r (hd A)"
    using f by (simp add: word_le_nat_alt le_diff_conv2 add.commute)
  show "\<not> blk_buf (blk_set r (hd A)) \<le> blk_buf (blk_set r (last B))"
    using f by (simp add: blk_at_def word_le_nat_alt)
qed


text \<open>
  The places a block of \<open>n\<close> bytes may get: the beginning of an empty buffer; behind the youngest
  block, up to the end of the buffer or, after the allocation has wrapped around, up to the
  oldest block; or the beginning of the buffer, up to the oldest block.
\<close>

definition room :: "rt_rbb \<Rightarrow> u32 \<Rightarrow> u32 \<Rightarrow> bool" where
  "room r a n \<longleftrightarrow>
     (if blk_list r = [] then a = rbb_buf r \<and> unat a + unat n \<le> rbb_end r
      else let oldest = hd (blk_list r); youngest = last (blk_list r)
           in if blk_at r oldest \<le> blk_at r youngest
              then unat a = blk_end r youngest \<and> unat a + unat n \<le> rbb_end r \<or>
                a = rbb_buf r \<and> unat a + unat n \<le> blk_at r oldest
              else unat a = blk_end r youngest \<and> unat a + unat n \<le> blk_at r oldest)"

lemma blk_at_le: "blk_at r b \<le> blk_at r c \<longleftrightarrow> blk_buf (blk_set r b) \<le> blk_buf (blk_set r c)"
  by (simp add: blk_at_def word_le_nat_alt)

lemma room_places:
  assumes r: "rbb_ok r" and p: "room r a n" and n: "n \<noteq> 0"
  shows "places r a n"
proof -
  from r obtain A B where l: "blk_list r = A @ B" "rbb_layout r A B" unfolding rbb_ok_def by blast
  have n0: "0 < unat n" using n by (simp add: unat_gt_0)
  consider (none) "A = []" "B = []" | (low) "A \<noteq> []" "B = []" | (high) "A \<noteq> []" "B \<noteq> []"
    using l(2) by (auto simp: rbb_layout_def)
  then show ?thesis
  proof cases
    case none
    then show ?thesis
      using p l unfolding places_def room_def by (intro exI [of _ "[]"]) auto
  next
    case low
    then have "blk_list r = A" "rbb_layout r A []" using l by auto
    then show ?thesis
      using p low room_after(4) [OF r _ _ low(1) n0]
      unfolding places_def room_def by (intro exI [of _ A] exI [of _ "[]"]) (auto simp: blk_at_le Let_def)
  next
    case high
    then show ?thesis
      using p l room_between(3) [OF r l high(2)]
      unfolding places_def room_def by (intro exI [of _ A] exI [of _ B]) (auto simp: blk_at_le Let_def)
  qed
qed

lemma find_empty_None:
  assumes "rbb_ok r" and "find_empty_blk_in_set r = None"
  shows "length (blk_list r) = blk_max_num r"
proof -
  have "status (blk_set r b) \<noteq> RT_RBB_BLK_UNUSED" if "b < blk_max_num r" for b
    using assms(2) that by (auto simp: find_empty_blk_in_set_def find_None_iff)
  then have "set (blk_list r) = {..<blk_max_num r}" using assms(1) unfolding rbb_ok_def by blast
  then show ?thesis using assms(1) distinct_card [of "blk_list r"] by (simp add: rbb_ok_def)
qed

lemma find_empty_Some:
  assumes "rbb_ok r" and "find_empty_blk_in_set r = Some b"
  shows "length (blk_list r) < blk_max_num r"
proof -
  have "set (blk_list r) \<subset> {..<blk_max_num r}"
    using assms find_empty_spec [OF assms(2)] unfolding rbb_ok_def by blast
  then have "card (set (blk_list r)) < card {..<blk_max_num r}" by (rule psubset_card_mono [rotated]) simp
  then show ?thesis using assms(1) distinct_card [of "blk_list r"] by (simp add: rbb_ok_def)
qed

text \<open>
  The allocation: it takes an unused descriptor and one of the places, the one behind the
  youngest block first, and fails exactly when there is no unused descriptor or no place.
\<close>

lemma rt_rbb_blk_alloc_spec:
  assumes r: "rbb_ok r" and sz: "sz \<noteq> 0" "sz < 2 ^ 24" and e: "blk_list r = [] \<Longrightarrow> sz \<le> rbb_buf_size r"
  shows "returns (rt_rbb_blk_alloc sz r) (\<lambda>(res, r'). case res of
      None \<Rightarrow> r' = r \<and> (length (blk_list r) = blk_max_num r \<or> (\<forall>a. \<not> room r a sz))
    | Some b \<Rightarrow> (\<exists>a. r' = link_blk b a sz r \<and> room r a sz) \<and> find_empty_blk_in_set r = Some b)"
proof (cases "find_empty_blk_in_set r")
  case None
  then show ?thesis using find_empty_None [OF r None] sz by (simp add: rt_rbb_blk_alloc_def)
next
  case (Some b)
  note len = find_empty_Some [OF r Some]
  have n0: "0 < unat sz" using sz by (simp add: unat_gt_0)
  from r obtain A B where l: "blk_list r = A @ B" "rbb_layout r A B" unfolding rbb_ok_def by blast
  consider (none) "A = []" "B = []" | (low) "A \<noteq> []" "B = []" | (high) "A \<noteq> []" "B \<noteq> []"
    using l(2) by (auto simp: rbb_layout_def)
  then show ?thesis
  proof cases
    case none
    then have "blk_list r = []" using l by simp
    moreover from this have "room r (rbb_buf r) sz"
      using e by (simp add: room_def rbb_end_def word_le_nat_alt)
    ultimately show ?thesis using Some len sz by (auto simp: rt_rbb_blk_alloc_def)
  next
    case low
    then have lA: "blk_list r = A" "rbb_layout r A []" using l by auto
    note ra = room_after [OF r lA low(1) n0]
    show ?thesis
      using Some len sz low lA(1) ra ra(4) [folded blk_at_le]
      by (auto simp: rt_rbb_blk_alloc_def room_def Let_def)
  next
    case high
    note rb = room_between [OF r l high(2)]
    show ?thesis
      using Some len sz high l(1) rb rb(3) [folded blk_at_le]
      by (auto simp: rt_rbb_blk_alloc_def room_def Let_def)
  qed
qed


lemma rt_rbb_blk_alloc_ok:
  assumes r: "rbb_ok r" and sz: "sz \<noteq> 0" "sz < 2 ^ 24" and e: "blk_list r = [] \<Longrightarrow> sz \<le> rbb_buf_size r"
  shows "returns (rt_rbb_blk_alloc sz r) (\<lambda>(res, r'). rbb_ok r' \<and>
    (case res of None \<Rightarrow> r' = r | Some b \<Rightarrow> b \<notin> set (blk_list r) \<and> blk_list r' = blk_list r @ [b] \<and>
       status (blk_set r' b) = RT_RBB_BLK_INITED \<and> rt_rbb_blk_size b r' = sz))"
proof -
  obtain res r' where a: "rt_rbb_blk_alloc sz r = Some (res, r')" and
    c: "case res of None \<Rightarrow> r' = r \<and> (length (blk_list r) = blk_max_num r \<or> (\<forall>a. \<not> room r a sz))
      | Some b \<Rightarrow> (\<exists>a. r' = link_blk b a sz r \<and> room r a sz) \<and> find_empty_blk_in_set r = Some b"
    using rt_rbb_blk_alloc_spec [OF assms] by (auto elim!: returnsE)
  show ?thesis
  proof (cases res)
    case None
    then show ?thesis using a c r by simp
  next
    case (Some b)
    then obtain x where x: "r' = link_blk b x sz r" "room r x sz" "find_empty_blk_in_set r = Some b"
      using c by auto
    from link_ok [OF r x(3) room_places [OF r x(2) sz(1)] sz(1)] show ?thesis
      using a Some x(1) by (simp add: rt_rbb_blk_size_def)
  qed
qed





lemma rt_rbb_blk_free_ok:
  assumes r: "rbb_ok r" and b: "b \<in> set (blk_list r)"
  shows "returns (rt_rbb_blk_free b r) (\<lambda>r'. rbb_ok r' \<and> blk_list r' = remove1 b (blk_list r))"
proof -
  let ?r = "upd_blk b (\<lambda>x. x\<lparr>status := RT_RBB_BLK_UNUSED\<rparr>) (r\<lparr>blk_list := remove1 b (blk_list r)\<rparr>)"
  from r b have u: "status (blk_set r b) \<noteq> RT_RBB_BLK_UNUSED" "b < blk_max_num r" "distinct (blk_list r)"
    by (auto simp: rbb_ok_def)
  have at: "blk_at ?r c = blk_at r c" for c by (simp add: blk_at_def)
  have "ascending ?r lo bs hi = ascending r lo bs hi" for lo bs hi
    by (rule ascending_cong) simp
  then have ly: "rbb_layout ?r A B = rbb_layout r A B" for A B
    by (simp add: rbb_layout_def rbb_end_def at)
  obtain A B where l: "blk_list r = A @ B" "rbb_layout r A B" using r unfolding rbb_ok_def by blast
  obtain A' B' where l': "remove1 b (blk_list r) = A' @ B'" "rbb_layout r A' B'"
    using rbb_layout_remove [OF l(2), of b] l(1) u(3) by auto
  then have "\<exists>A B. blk_list ?r = A @ B \<and> rbb_layout ?r A B" using ly by auto
  moreover have "set (blk_list ?r) = set (blk_list r) - {b}" using u(3) by simp
  ultimately have "rbb_ok ?r" using r u(2,3) unfolding rbb_ok_def by (auto simp: rbb_end_def)
  then show ?thesis using u(1) by (simp add: rt_rbb_blk_free_def)
qed



section \<open>Runs of a producer and a consumer\<close>

lemma rbb_ok_distinct: "rbb_ok r \<Longrightarrow> distinct (blk_list r)"
  by (simp add: rbb_ok_def)

text \<open>
  The allocator contract, for a client that keeps to the requests the code does not check.
\<close>

definition rbb_request :: "u32 \<Rightarrow> rt_rbb \<Rightarrow> (nat option \<times> rt_rbb) option" where
  "rbb_request n r =
     (if n \<noteq> 0 \<and> n < 2 ^ 24 \<and> n \<le> rbb_buf_size r then rt_rbb_blk_alloc n r else Some (None, r))"

interpretation rbb: allocator rbb_ok "\<lambda>r. set (blk_list r)" rbb_request rt_rbb_blk_free
proof
  fix r :: rt_rbb and n :: u32
  assume r: "rbb_ok r"
  show "returns (rbb_request n r) (\<lambda>(b, r'). rbb_ok r' \<and> (case b of None \<Rightarrow> set (blk_list r') = set (blk_list r)
    | Some x \<Rightarrow> x \<notin> set (blk_list r) \<and> set (blk_list r') = insert x (set (blk_list r))))"
    using rt_rbb_blk_alloc_ok [OF r, of n] r
    by (auto simp: rbb_request_def elim!: returnsE split: option.splits)
next
  fix r :: rt_rbb and b
  assume r: "rbb_ok r" and b: "b \<in> set (blk_list r)"
  show "returns (rt_rbb_blk_free b r) (\<lambda>r'. rbb_ok r' \<and> set (blk_list r') = set (blk_list r) - {b})"
    using rt_rbb_blk_free_ok [OF r b] rbb_ok_distinct [OF r] by (auto elim!: returnsE)
qed

text \<open>
  Every state a buffer can get into: blocks are requested, put, read and given back in any order.
\<close>

inductive rbb_reach :: "rt_rbb \<Rightarrow> bool" where
  start: "unat buf + unat sz \<le> 2 ^ 32 \<Longrightarrow> rbb_reach (rt_rbb_init buf sz bs n)"
| alloc: "rbb_reach r \<Longrightarrow> sz \<noteq> 0 \<Longrightarrow> blk_list r = [] \<longrightarrow> sz \<le> rbb_buf_size r \<Longrightarrow>
    rt_rbb_blk_alloc sz r = Some (res, r') \<Longrightarrow> rbb_reach r'"
| put: "rbb_reach r \<Longrightarrow> rt_rbb_blk_put b r = Some r' \<Longrightarrow> rbb_reach r'"
| get: "rbb_reach r \<Longrightarrow> rt_rbb_blk_get r = (res, r') \<Longrightarrow> rbb_reach r'"
| free: "rbb_reach r \<Longrightarrow> b < blk_max_num r \<Longrightarrow> rt_rbb_blk_free b r = Some r' \<Longrightarrow> rbb_reach r'"



text \<open>A buffer of 64 bytes: the third block does not fit behind the second and wraps around.\<close>

definition example_rbb :: rt_rbb where
  "example_rbb = rt_rbb_init 0x20000000 64 (\<lambda>_. \<lparr>status = RT_RBB_BLK_GET, blk_size = 0, blk_buf = 0\<rparr>) 4"





section \<open>Taking several blocks at once\<close>

text \<open>
  Without a limit, \<^verbatim>\<open>rt_rbb_blk_queue_get\<close> takes as much as \<^verbatim>\<open>rt_rbb_next_blk_queue_len\<close> announces.
\<close>

lemma queue_take_other:
  "c \<noteq> b \<Longrightarrow> blk_set (snd (snd (queue_take b (tot, q, r)))) c = blk_set r c"
  by (simp add: queue_take_def)

lemma next_queue_len_cong:
  "(\<And>b. b \<in> set bs \<Longrightarrow> blk_set r b = blk_set r' b) \<Longrightarrow>
   (\<And>b. last_block = Some b \<Longrightarrow> blk_buf (blk_set r b) = blk_buf (blk_set r' b)) \<Longrightarrow>
   next_queue_len_loop bs last_block tot r = next_queue_len_loop bs last_block tot r'"
  by (induction bs last_block tot r rule: next_queue_len_loop.induct) auto

lemma queue_get_loop_len:
  "distinct bs \<Longrightarrow> (\<And>b. last_block = Some b \<Longrightarrow> b \<notin> set bs) \<Longrightarrow>
   fst (queue_get_loop 0xffffffff bs last_block (tot, q, r)) = next_queue_len_loop bs last_block tot r"
proof (induction "0xffffffff :: u32" bs last_block "(tot, q, r)" arbitrary: tot q r rule: queue_get_loop.induct)
  case (2 b bs tot q r)
  show ?case
  proof (cases "status (blk_set r b) = RT_RBB_BLK_PUT")
    case True
    obtain tot' q' r' where t: "queue_take b (tot, \<lparr>blocks = b, blk_num = 0\<rparr>, r) = (tot', q', r')"
      by (cases "queue_take b (tot, \<lparr>blocks = b, blk_num = 0\<rparr>, r)")
    then have "tot' = tot + blk_size (blk_set r b)" "r' = snd (snd (queue_take b (tot, \<lparr>blocks = b, blk_num = 0\<rparr>, r)))"
      by (auto simp: queue_take_def)
    moreover have "next_queue_len_loop bs (Some b) tot' r' = next_queue_len_loop bs (Some b) tot' r"
      by (rule next_queue_len_cong) (use 2(3) t in \<open>auto simp: queue_take_def\<close>)
    ultimately show ?thesis using 2(1) [OF True t] 2(3) True t by simp
  next
    case False
    then show ?thesis using 2(2) [OF False] 2(3) by simp
  qed
next
  case (3 b bs l tot q r)
  show ?case
  proof (cases "status (blk_set r b) \<noteq> RT_RBB_BLK_PUT \<or> blk_buf (blk_set r l) > blk_buf (blk_set r b)")
    case False
    have m: "\<not> tot + blk_size (blk_set r b) > 0xffffffff"
      by (simp add: word_less_nat_alt not_less) (use unsigned_less [of "tot + blk_size (blk_set r b)", where ?'a = nat] in simp)
    obtain tot' q' r' where t: "queue_take b (tot, q, r) = (tot', q', r')" by (cases "queue_take b (tot, q, r)")
    then have "tot' = tot + blk_size (blk_set r b)" by (auto simp: queue_take_def)
    moreover have "next_queue_len_loop bs (Some b) tot' r' = next_queue_len_loop bs (Some b) tot' r"
      by (rule next_queue_len_cong) (use 3(2) t in \<open>auto simp: queue_take_def\<close>)
    ultimately show ?thesis using 3(1) [OF _ t] 3(2) False m t by auto
  qed auto
qed simp

lemma rt_rbb_blk_queue_get_len:
  assumes "rbb_ok r"
  shows "fst (rt_rbb_blk_queue_get 0xffffffff q r) = rt_rbb_next_blk_queue_len r"
  using queue_get_loop_len [of "blk_list r" None] rbb_ok_distinct [OF assms]
  by (simp add: rt_rbb_blk_queue_get_def rt_rbb_next_blk_queue_len_def)


text \<open>
  But the blocks taken this way leave the list while their data is still to be read, so that the next
  request may hand out their memory: here both blocks of a full buffer are being read, and the
  request gets a third block on top of the first.
\<close>

lemma queue_get_loses_blocks:
  "\<exists>r q r1 r2. rbb_reach r \<and> rt_rbb_blk_queue_get 64 q r = (40, \<lparr>blocks = 0, blk_num = 2\<rparr>, r1) \<and>
     status (blk_set r1 0) = RT_RBB_BLK_GET \<and> rt_rbb_blk_alloc 30 r1 = Some (Some 2, r2) \<and>
     rt_rbb_blk_buf 2 r2 = rt_rbb_blk_buf 0 r2 \<and> status (blk_set r2 0) = RT_RBB_BLK_GET"
proof -
  have s: "rbb_reach example_rbb" unfolding example_rbb_def by (rule rbb_reach.start) simp
  have u: "[0 ..< 4 :: nat] = [0, 1, 2, 3]" by (simp add: upt_rec)
  note defs = rt_rbb_init_def upd_blk_def u rt_rbb_blk_alloc_def find_empty_blk_in_set_def link_blk_def
    Let_def rt_rbb_blk_put_def rt_rbb_blk_queue_get_def queue_take_def rt_rbb_blk_buf_def
  fix q
  have "\<exists>r1. rt_rbb_blk_alloc 20 example_rbb = Some (Some 0, r1) \<and> (\<exists>r2. rt_rbb_blk_alloc 20 r1 = Some (Some 1, r2) \<and>
      (\<exists>r3. rt_rbb_blk_put 0 r2 = Some r3 \<and> (\<exists>r. rt_rbb_blk_put 1 r3 = Some r \<and>
      (\<exists>r4. rt_rbb_blk_queue_get 64 q r = (40, \<lparr>blocks = 0, blk_num = 2\<rparr>, r4) \<and>
        status (blk_set r4 0) = RT_RBB_BLK_GET \<and> (\<exists>r5. rt_rbb_blk_alloc 30 r4 = Some (Some 2, r5) \<and>
        rt_rbb_blk_buf 2 r5 = rt_rbb_blk_buf 0 r5 \<and> status (blk_set r5 0) = RT_RBB_BLK_GET \<and>
        20 \<le> rbb_buf_size example_rbb \<and> blk_list r1 = [0])))))"
    by (simp add: defs example_rbb_def)
  then obtain r1 r2 r3 r r4 r5 where r: "rt_rbb_blk_alloc 20 example_rbb = Some (Some 0, r1)"
      "rt_rbb_blk_alloc 20 r1 = Some (Some 1, r2)" "rt_rbb_blk_put 0 r2 = Some r3" "rt_rbb_blk_put 1 r3 = Some r"
      "20 \<le> rbb_buf_size example_rbb" "blk_list r1 = [0]"
    and e: "rt_rbb_blk_queue_get 64 q r = (40, \<lparr>blocks = 0, blk_num = 2\<rparr>, r4)" "status (blk_set r4 0) = RT_RBB_BLK_GET"
      "rt_rbb_blk_alloc 30 r4 = Some (Some 2, r5)" "rt_rbb_blk_buf 2 r5 = rt_rbb_blk_buf 0 r5"
      "status (blk_set r5 0) = RT_RBB_BLK_GET"
    by blast
  have "rbb_reach r1" by (rule rbb_reach.alloc [OF s _ _ r(1)]) (use r(5) in simp_all)
  then have "rbb_reach r2" by (rule rbb_reach.alloc [OF _ _ _ r(2)]) (use r(6) in simp_all)
  then have "rbb_reach r" using rbb_reach.put [OF _ r(3)] rbb_reach.put [OF _ r(4)] by blast
  then show ?thesis using e by blast
qed

text \<open>And the first request is not compared with the size of the buffer.\<close>

lemma first_block_unchecked:
  "\<exists>r. rt_rbb_blk_alloc 100 example_rbb = Some (Some 0, r) \<and> rbb_end r < blk_end r 0"
proof -
  have u: "[0 ..< 4 :: nat] = [0, 1, 2, 3]" by (simp add: upt_rec)
  show ?thesis
    by (simp add: example_rbb_def rt_rbb_init_def upd_blk_def u rt_rbb_blk_alloc_def find_empty_blk_in_set_def
      link_blk_def Let_def rbb_end_def blk_end_def blk_at_def)
qed

end
