(* ===== verification/Mem.thy ===== *)
theory Mem
  imports RT_Prelude Alloc
begin

text \<open>
  The system heap: \<^verbatim>\<open>src/mem.c\<close>. Every block starts with a \<^verbatim>\<open>struct heap_mem\<close> of 12 bytes that
  links it to its neighbours by their offsets from \<^verbatim>\<open>heap_ptr\<close>; a block is named by its
  offset. Headers are kept in a store of their own, \<open>hdr\<close>, by offset; what the store holds
  at other places than the blocks is arbitrary. This theory has the parts of the functions
  that work on the blocks; the calls, with the semaphore around them, are in \<^verbatim>\<open>Heap\<close>.
\<close>

section \<open>Blocks\<close>

record heap_mem =
  magic :: u16
  used :: u16
  hnext :: u32
  hprev :: u32

record heap =
  hdr :: "u32 \<Rightarrow> heap_mem"
  heap_ptr :: u32
  lfree :: u32
  mem_size_aligned :: u32
  used_mem :: u32
  max_mem :: u32

abbreviation (input) HEAP_MAGIC :: u16 where "HEAP_MAGIC \<equiv> 0x1ea0"
abbreviation (input) SIZEOF_STRUCT_MEM :: u32 where "SIZEOF_STRUCT_MEM \<equiv> 12"
abbreviation (input) MIN_SIZE_ALIGNED :: u32 where "MIN_SIZE_ALIGNED \<equiv> 12"

definition heap_end :: "heap \<Rightarrow> u32" where
  "heap_end h = mem_size_aligned h + SIZEOF_STRUCT_MEM"

definition upd_hdr :: "u32 \<Rightarrow> (heap_mem \<Rightarrow> heap_mem) \<Rightarrow> heap \<Rightarrow> heap" where
  "upd_hdr o' f h = h\<lparr>hdr := (hdr h)(o' := f (hdr h o'))\<rparr>"

text \<open>The two headers that \<^verbatim>\<open>rt_system_heap_init\<close> writes between the aligned addresses.\<close>

definition heap_layout :: "u32 \<Rightarrow> u32 \<Rightarrow> heap \<Rightarrow> heap" where
  "heap_layout begin_align end_align h =
     (let h = h\<lparr>mem_size_aligned := end_align - begin_align - 2 * SIZEOF_STRUCT_MEM\<rparr>;
          h = h\<lparr>heap_ptr := begin_align\<rparr>;
          h = upd_hdr 0 (\<lambda>m. m\<lparr>magic := HEAP_MAGIC, hnext := mem_size_aligned h + SIZEOF_STRUCT_MEM,
            hprev := 0, used := 0\<rparr>) h
      in upd_hdr (heap_end h) (\<lambda>m. m\<lparr>magic := HEAP_MAGIC, used := 1,
           hnext := mem_size_aligned h + SIZEOF_STRUCT_MEM, hprev := mem_size_aligned h + SIZEOF_STRUCT_MEM\<rparr>) h)"

definition plug_forward :: "u32 \<Rightarrow> heap \<Rightarrow> heap" where
  "plug_forward m h =
     (let nmem = hnext (hdr h m) in
      if m \<noteq> nmem \<and> used (hdr h nmem) = 0 \<and> nmem \<noteq> heap_end h then
        (let h = (if lfree h = nmem then h\<lparr>lfree := m\<rparr> else h);
             h = upd_hdr m (\<lambda>x. x\<lparr>hnext := hnext (hdr h nmem)\<rparr>) h
         in upd_hdr (hnext (hdr h nmem)) (\<lambda>x. x\<lparr>hprev := m\<rparr>) h)
      else h)"

definition plug_backward :: "u32 \<Rightarrow> heap \<Rightarrow> heap" where
  "plug_backward m h =
     (let pmem = hprev (hdr h m) in
      if pmem \<noteq> m \<and> used (hdr h pmem) = 0 then
        (let h = (if lfree h = m then h\<lparr>lfree := pmem\<rparr> else h);
             h = upd_hdr pmem (\<lambda>x. x\<lparr>hnext := hnext (hdr h m)\<rparr>) h
         in upd_hdr (hnext (hdr h m)) (\<lambda>x. x\<lparr>hprev := pmem\<rparr>) h)
      else h)"

definition plug_holes :: "u32 \<Rightarrow> heap \<Rightarrow> heap option" where
  "plug_holes m h = do {
     rt_assert (m < heap_end h);
     rt_assert (used (hdr h m) = 0);
     Some (plug_backward m (plug_forward m h))
   }"

text \<open>
  The search of \<^verbatim>\<open>rt_malloc\<close> from the lowest free block on, and the search for the next
  lowest free block. Both follow links and may not end in a damaged heap.
\<close>

partial_function (option) heap_search :: "u32 \<Rightarrow> u32 \<Rightarrow> heap \<Rightarrow> u32 option option" where
  "heap_search sz ptr h =
     (if ptr < mem_size_aligned h - sz then
        if used (hdr h ptr) = 0 \<and> hnext (hdr h ptr) - (ptr + SIZEOF_STRUCT_MEM) \<ge> sz then Some (Some ptr)
        else heap_search sz (hnext (hdr h ptr)) h
      else Some None)"

partial_function (option) next_free :: "u32 \<Rightarrow> heap \<Rightarrow> u32 option" where
  "next_free p h = (if used (hdr h p) \<noteq> 0 \<and> p \<noteq> heap_end h then next_free (hnext (hdr h p)) h else Some p)"

text \<open>Taking \<open>sz\<close> bytes from the free block \<open>ptr\<close>, with a remainder when it is large enough.\<close>

definition account :: "u32 \<Rightarrow> heap \<Rightarrow> heap" where
  "account n h =
     (let h = h\<lparr>used_mem := used_mem h + n\<rparr>
      in if max_mem h < used_mem h then h\<lparr>max_mem := used_mem h\<rparr> else h)"

definition heap_split :: "u32 \<Rightarrow> u32 \<Rightarrow> heap \<Rightarrow> heap" where
  "heap_split sz ptr h =
     (let ptr2 = ptr + SIZEOF_STRUCT_MEM + sz;
          h = upd_hdr ptr2 (\<lambda>x. x\<lparr>magic := HEAP_MAGIC, used := 0, hnext := hnext (hdr h ptr), hprev := ptr\<rparr>) h;
          h = upd_hdr ptr (\<lambda>x. x\<lparr>hnext := ptr2\<rparr>) h
      in if hnext (hdr h ptr2) \<noteq> mem_size_aligned h + SIZEOF_STRUCT_MEM
         then upd_hdr (hnext (hdr h ptr2)) (\<lambda>x. x\<lparr>hprev := ptr2\<rparr>) h else h)"

definition heap_take :: "u32 \<Rightarrow> u32 \<Rightarrow> heap \<Rightarrow> heap option" where
  "heap_take sz ptr h = do {
     let h = (if hnext (hdr h ptr) - (ptr + SIZEOF_STRUCT_MEM) \<ge> sz + SIZEOF_STRUCT_MEM + MIN_SIZE_ALIGNED
       then account (sz + SIZEOF_STRUCT_MEM) (upd_hdr ptr (\<lambda>x. x\<lparr>used := 1\<rparr>) (heap_split sz ptr h))
       else account (hnext (hdr h ptr) - ptr) (upd_hdr ptr (\<lambda>x. x\<lparr>used := 1\<rparr>) h));
     let h = upd_hdr ptr (\<lambda>x. x\<lparr>magic := HEAP_MAGIC\<rparr>) h;
     if ptr = lfree h then do {
       p \<leftarrow> next_free (lfree h) h;
       let h = h\<lparr>lfree := p\<rparr>;
       rt_assert (lfree h = heap_end h \<or> used (hdr h (lfree h)) = 0);
       Some h
     } else Some h
   }"

text \<open>
  The rounding of the size of a request, the allocation between the semaphore calls, and the
  assertions after it.
\<close>

definition malloc_size :: "u32 \<Rightarrow> u32" where
  "malloc_size sz = (let sz = RT_ALIGN sz RT_ALIGN_SIZE in if sz < MIN_SIZE_ALIGNED then MIN_SIZE_ALIGNED else sz)"

definition heap_malloc :: "u32 \<Rightarrow> heap \<Rightarrow> (u32 option \<times> heap) option" where
  "heap_malloc sz h = do {
     r \<leftarrow> heap_search sz (lfree h) h;
     case r of
       None \<Rightarrow> Some (None, h)
     | Some ptr \<Rightarrow> do {
         h \<leftarrow> heap_take sz ptr h;
         Some (Some ptr, h)
       }
   }"

definition malloc_asserts :: "u32 \<Rightarrow> u32 \<Rightarrow> heap \<Rightarrow> bool" where
  "malloc_asserts sz ptr h \<longleftrightarrow>
     heap_ptr h + ptr + SIZEOF_STRUCT_MEM + sz \<le> heap_ptr h + heap_end h \<and>
     (heap_ptr h + ptr + SIZEOF_STRUCT_MEM) mod RT_ALIGN_SIZE = 0 \<and>
     (heap_ptr h + ptr) AND (RT_ALIGN_SIZE - 1) = 0"

text \<open>The release of a block, between the semaphore calls of \<^verbatim>\<open>rt_free\<close>.\<close>

definition heap_free :: "u32 \<Rightarrow> heap \<Rightarrow> heap option" where
  "heap_free m h = do {
     rt_assert (used (hdr h m) \<noteq> 0);
     rt_assert (magic (hdr h m) = HEAP_MAGIC);
     let h = upd_hdr m (\<lambda>x. x\<lparr>used := 0, magic := HEAP_MAGIC\<rparr>) h;
     let h = (if m < lfree h then h\<lparr>lfree := m\<rparr> else h);
     let h = h\<lparr>used_mem := used_mem h - (hnext (hdr h m) - m)\<rparr>;
     plug_holes m h
   }"

text \<open>The part of \<^verbatim>\<open>rt_realloc\<close> that shrinks a block in place.\<close>

definition heap_shrink :: "u32 \<Rightarrow> u32 \<Rightarrow> heap \<Rightarrow> heap option" where
  "heap_shrink newsize ptr h = do {
     let sz = hnext (hdr h ptr) - ptr - SIZEOF_STRUCT_MEM;
     let h = h\<lparr>used_mem := used_mem h - (sz - newsize)\<rparr>;
     plug_holes (ptr + SIZEOF_STRUCT_MEM + newsize) (heap_split newsize ptr h)
   }"

definition rt_memory_info :: "heap \<Rightarrow> u32 \<times> u32 \<times> u32" where
  "rt_memory_info h = (mem_size_aligned h, used_mem h, max_mem h)"

section \<open>The chain of blocks\<close>

text \<open>
  The blocks from offset \<open>p\<close> up to \<open>e\<close>: each links to its neighbours and has room for its
  header and at least four bytes.
\<close>

fun linked :: "(u32 \<Rightarrow> heap_mem) \<Rightarrow> u32 \<Rightarrow> u32 \<Rightarrow> u32 list \<Rightarrow> u32 \<Rightarrow> bool" where
  "linked H q p [] e \<longleftrightarrow> p = e"
| "linked H q p (b # bs) e \<longleftrightarrow> p = b \<and> hprev (H b) = q \<and> unat b + 16 \<le> unat (hnext (H b)) \<and>
     linked H b (hnext (H b)) bs e"

lemma linked_append:
  "linked H q p (as @ bs) e \<longleftrightarrow> (\<exists>m. linked H q p as m \<and> linked H (last (q # as)) m bs e)"
  by (induction as arbitrary: q p) (auto simp: last_ConsL)

lemma linked_bounds:
  assumes "linked H q p bs e"
  shows "unat p \<le> unat e" and "b \<in> set bs \<Longrightarrow> unat p \<le> unat b \<and> unat b + 16 \<le> unat e"
  using assms by (induction bs arbitrary: q p) fastforce+

lemma linked_end: "linked H q p bs e \<Longrightarrow> e \<notin> set bs"
  using linked_bounds(2) [of H q p bs e e] by auto

lemma linked_distinct:
  assumes "linked H q p bs e"
  shows "distinct bs"
  using assms
proof (induction bs arbitrary: q p)
  case (Cons b bs)
  then have "linked H b (hnext (H b)) bs e" "unat b + 16 \<le> unat (hnext (H b))" by auto
  then show ?case using Cons.IH linked_bounds(2) by fastforce
qed simp

lemma linked_unique: "linked H q p as e \<Longrightarrow> linked H q p bs e \<Longrightarrow> as = bs"
proof (induction as arbitrary: q p bs)
  case Nil
  then show ?case using linked_end by (cases bs) fastforce+
next
  case (Cons a as)
  then show ?case using linked_end [OF Cons.prems(1)] by (cases bs) auto
qed

lemma linked_cong:
  assumes "\<And>b. b \<in> set bs \<Longrightarrow> hnext (H' b) = hnext (H b) \<and> hprev (H' b) = hprev (H b)"
  shows "linked H' q p bs e = linked H q p bs e"
  using assms by (induction bs arbitrary: q p) auto

lemma linked_other [simp]: "x \<notin> set bs \<Longrightarrow> linked (H(x := v)) q p bs e = linked H q p bs e"
  by (rule linked_cong) auto

lemma linked_first:
  assumes "linked H q p bs e"
  shows "linked (H(p := (H p)\<lparr>hprev := q'\<rparr>)) q' p bs e"
proof (cases bs)
  case (Cons b cs)
  then have "b \<notin> set cs" using linked_distinct [OF assms] by simp
  then show ?thesis using assms Cons by auto
qed (use assms in simp)

text \<open>A block in the middle of the chain.\<close>

lemma linked_split:
  assumes "linked H q p (as @ b # cs) e"
  shows "linked H q p as b" and "hprev (H b) = last (q # as)" and "unat b + 16 \<le> unat (hnext (H b))"
    and "linked H b (hnext (H b)) cs e" and "b \<notin> set as" and "b \<notin> set cs" and "set as \<inter> set cs = {}"
    and "hnext (H b) \<notin> set as" and "hnext (H b) \<noteq> b" and "cs \<noteq> [] \<Longrightarrow> hnext (H b) = hd cs"
    and "cs = [] \<Longrightarrow> hnext (H b) = e"
proof -
  show l: "linked H q p as b" "hprev (H b) = last (q # as)" "unat b + 16 \<le> unat (hnext (H b))"
    "linked H b (hnext (H b)) cs e"
    using assms by (auto simp: linked_append)
  show "b \<notin> set as" "b \<notin> set cs" "set as \<inter> set cs = {}" using linked_distinct [OF assms] by auto
  show "hnext (H b) \<noteq> b" using l(3) by auto
  show "hnext (H b) \<notin> set as" using linked_bounds(2) [OF l(1)] l(3) by fastforce
  show "cs \<noteq> [] \<Longrightarrow> hnext (H b) = hd cs" using l(4) by (cases cs) auto
  show "cs = [] \<Longrightarrow> hnext (H b) = e" using l(4) by simp
qed

lemma linked_merge:
  assumes l: "linked H q p (as @ a # b # cs) e"
    and H': "H' = (H(a := (H a)\<lparr>hnext := hnext (H b)\<rparr>))(hnext (H b) := ((H(a := (H a)\<lparr>hnext := hnext (H b)\<rparr>)) (hnext (H b)))\<lparr>hprev := a\<rparr>)"
  shows "linked H' q p (as @ a # cs) e"
proof -
  note s = linked_split [OF l]
  have l': "linked H q p ((as @ [a]) @ b # cs) e" using l by simp
  note t = linked_split [OF l']
  have n: "hnext (H b) \<noteq> a" "hnext (H b) \<notin> set as" using t(8) by auto
  have "linked H b (hnext (H b)) cs e" using t(4) .
  then have "linked (H(a := (H a)\<lparr>hnext := hnext (H b)\<rparr>)) b (hnext (H b)) cs e" using s(6) by simp
  then have c: "linked H' a (hnext (H b)) cs e" unfolding H' by (rule linked_first)
  have "linked H' q p as a" unfolding H' using s(1,5) n by simp
  moreover have "hnext (H' a) = hnext (H b)" "hprev (H' a) = hprev (H a)" unfolding H' using n by simp_all
  moreover have "unat a + 16 \<le> unat (hnext (H b))" using s(3) t(3) s(10) by simp
  ultimately show ?thesis using c s(2) by (auto simp: linked_append)
qed

lemma linked_divide:
  assumes l: "linked H q p (as @ a # cs) e"
    and m: "unat a + 16 \<le> unat m" "unat m + 16 \<le> unat (hnext (H a))"
    and H1: "hnext (H1 m) = hnext (H a)" "hprev (H1 m) = a" "hnext (H1 a) = m" "hprev (H1 a) = hprev (H a)"
    and other: "\<And>x. x \<noteq> a \<Longrightarrow> x \<noteq> m \<Longrightarrow> H1 x = H x"
    and H': "H' = (if hnext (H a) \<noteq> e then H1(hnext (H a) := (H1 (hnext (H a)))\<lparr>hprev := m\<rparr>) else H1)"
  shows "linked H' q p (as @ a # m # cs) e"
proof -
  note s = linked_split [OF l]
  have am: "a \<noteq> m" "hnext (H a) \<noteq> m" using m by auto
  have mas: "m \<notin> set as" using linked_bounds(2) [OF s(1)] m by fastforce
  have mcs: "m \<notin> set cs" using linked_bounds(2) [OF s(4)] m by fastforce
  have oc: "H1 x = H x" if "x \<in> set cs" for x using other that s(6) mcs by metis
  have "linked H1 a (hnext (H a)) cs e"
    using s(4) by (subst linked_cong [of _ _ H]) (simp_all add: oc)
  then have c: "linked H' m (hnext (H a)) cs e"
    using linked_first [of H1 a "hnext (H a)" cs e m] linked_end [OF s(4)] unfolding H'
    by (cases cs) auto
  have oa: "H' x = H x" if "x \<in> set as" for x
    using other [of x] that s(5,8) mas unfolding H' by (cases "x = a"; cases "x = m"; cases "x = hnext (H a)") auto
  have "linked H' q p as a"
    using s(1) by (subst linked_cong [of _ _ H]) (simp_all add: oa)
  moreover have "hnext (H' a) = m" "hprev (H' a) = hprev (H a)" "hnext (H' m) = hnext (H a)" "hprev (H' m) = a"
    unfolding H' using s(9) am H1 by auto
  ultimately show ?thesis using c s(2) m by (auto simp: linked_append)
qed

section \<open>The invariant\<close>

abbreviation free :: "heap \<Rightarrow> u32 \<Rightarrow> bool" where
  "free h b \<equiv> used (hdr h b) = 0"

definition block_bytes :: "heap \<Rightarrow> u32 \<Rightarrow> u32" where
  "block_bytes h b = (if free h b then 0 else hnext (hdr h b) - b)"

text \<open>
  \<open>heap_chain\<close>: the blocks \<open>bs\<close> fill the heap; \<open>lfree\<close> is one of them or the end; used blocks carry
  the magic number. \<open>accounted\<close>: \<open>used_mem\<close> counts the bytes of the used blocks. In \<open>heap_inv\<close>
  moreover no two neighbours are free. \<open>lowest\<close>: no block below \<open>lfree\<close> is free.
\<close>

definition heap_chain :: "heap \<Rightarrow> u32 list \<Rightarrow> bool" where
  "heap_chain h bs \<longleftrightarrow> linked (hdr h) 0 0 bs (heap_end h) \<and> bs \<noteq> [] \<and>
     unat (heap_ptr h) + unat (mem_size_aligned h) + 24 < 2 ^ 32 \<and> 12 \<le> unat (mem_size_aligned h) \<and>
     \<not> free h (heap_end h) \<and> lfree h \<in> set bs \<union> {heap_end h} \<and>
     (\<forall>b \<in> set bs. \<not> free h b \<longrightarrow> magic (hdr h b) = HEAP_MAGIC) \<and> (\<forall>b \<in> set bs. 4 dvd unat b) \<and>
     4 dvd unat (heap_ptr h) \<and> 4 dvd unat (mem_size_aligned h)"

definition accounted :: "heap \<Rightarrow> u32 list \<Rightarrow> bool" where
  "accounted h bs \<longleftrightarrow> used_mem h = (\<Sum>b\<leftarrow>bs. block_bytes h b)"

abbreviation spaced :: "heap \<Rightarrow> u32 list \<Rightarrow> bool" where
  "spaced h bs \<equiv> successively (\<lambda>a b. \<not> free h a \<or> \<not> free h b) bs"

definition heap_inv :: "heap \<Rightarrow> u32 list \<Rightarrow> bool" where
  "heap_inv h bs \<longleftrightarrow> heap_chain h bs \<and> accounted h bs \<and> spaced h bs"

definition lowest :: "heap \<Rightarrow> u32 list \<Rightarrow> bool" where
  "lowest h bs \<longleftrightarrow> (\<forall>b \<in> set bs. free h b \<longrightarrow> lfree h \<le> b)"

lemma heap_chainD:
  assumes "heap_chain h bs"
  shows "linked (hdr h) 0 0 bs (heap_end h)" and "bs \<noteq> []"
    and "unat (heap_ptr h) + unat (mem_size_aligned h) + 24 < 2 ^ 32" and "12 \<le> unat (mem_size_aligned h)"
    and "\<not> free h (heap_end h)" and "lfree h \<in> set bs \<union> {heap_end h}"
    and "b \<in> set bs \<Longrightarrow> \<not> free h b \<Longrightarrow> magic (hdr h b) = HEAP_MAGIC" and "b \<in> set bs \<Longrightarrow> 4 dvd unat b"
    and "4 dvd unat (heap_ptr h)" and "4 dvd unat (mem_size_aligned h)"
  using assms by (simp_all add: heap_chain_def)

lemma unat_heap_end:
  assumes "heap_chain h bs"
  shows "unat (heap_end h) = unat (mem_size_aligned h) + 12"
  using heap_chainD(3) [OF assms] by (simp add: heap_end_def unat_word_ariths)

lemma block_space:
  assumes l: "linked H q p bs e" and b: "b \<in> set bs"
  shows "unat (hnext (H b) - (b + 12)) = unat (hnext (H b)) - unat b - 12"
    and "unat (hnext (H b) - b) = unat (hnext (H b)) - unat b"
    and "unat b + 16 \<le> unat (hnext (H b))" and "unat (hnext (H b)) \<le> unat e"
proof -
  from b obtain as cs where bs: "bs = as @ b # cs" by (meson split_list)
  note s = linked_split [OF l [unfolded bs]]
  show g: "unat b + 16 \<le> unat (hnext (H b))" by (rule s(3))
  show "unat (hnext (H b)) \<le> unat e" by (rule linked_bounds(1) [OF s(4)])
  have "unat (hnext (H b)) < 2 ^ 32" using unsigned_less [of "hnext (H b)", where 'a = nat] by simp
  then have "unat (b + 12) = unat b + 12" using g by (simp add: unat_word_ariths)
  then show "unat (hnext (H b) - (b + 12)) = unat (hnext (H b)) - unat b - 12"
    using g by (subst unat_sub) (simp_all add: word_le_nat_alt)
  show "unat (hnext (H b) - b) = unat (hnext (H b)) - unat b"
    using g by (subst unat_sub) (simp_all add: word_le_nat_alt)
qed

text \<open>Both searches end, and find what they look for.\<close>

definition fits :: "heap \<Rightarrow> u32 \<Rightarrow> u32 \<Rightarrow> bool" where
  "fits h sz b \<longleftrightarrow> b < mem_size_aligned h - sz \<and> free h b \<and> hnext (hdr h b) - (b + 12) \<ge> sz"

lemma heap_search_spec:
  assumes "linked (hdr h) q p bs (heap_end h)" and "unat sz \<le> unat (mem_size_aligned h)"
    and "unat (mem_size_aligned h) + 24 < 2 ^ 32"
  shows "heap_search sz p h = Some (List.find (fits h sz) bs)"
  using assms
proof (induction bs arbitrary: q p)
  case Nil
  have u: "unat (mem_size_aligned h - sz) = unat (mem_size_aligned h) - unat sz"
    using assms(2) by (subst unat_sub) (simp_all add: word_le_nat_alt)
  have "unat (heap_end h) = unat (mem_size_aligned h) + 12"
    using assms(3) by (simp add: heap_end_def unat_word_ariths)
  then have "\<not> p < mem_size_aligned h - sz" using Nil.prems(1) u by (simp add: word_less_nat_alt)
  then show ?case by (subst heap_search.simps) simp
next
  case (Cons b bs)
  have l: "linked (hdr h) b (hnext (hdr h b)) bs (heap_end h)" "p = b" using Cons.prems(1) by simp_all
  show ?case
  proof (cases "p < mem_size_aligned h - sz")
    case True
    then have "fits h sz b \<longleftrightarrow> used (hdr h b) = 0 \<and> hnext (hdr h b) - (b + SIZEOF_STRUCT_MEM) \<ge> sz"
      using l(2) by (simp add: fits_def)
    then show ?thesis
      using Cons.IH [OF l(1)] Cons.prems(2,3) l(2) True by (subst heap_search.simps) simp
  next
    case False
    have "\<not> fits h sz x" if "x \<in> set (b # bs)" for x
      using linked_bounds(2) [OF Cons.prems(1) that] False by (auto simp: fits_def word_less_nat_alt)
    then have "List.find (fits h sz) (b # bs) = None" by (simp add: find_None_iff)
    then show ?thesis using False by (subst heap_search.simps) simp
  qed
qed

lemma next_free_spec:
  assumes "linked (hdr h) q p bs (heap_end h)"
  shows "next_free p h = Some (hd (filter (free h) bs @ [heap_end h]))"
  using assms
proof (induction bs arbitrary: q p)
  case Nil
  then show ?case by (subst next_free.simps) simp
next
  case (Cons b bs)
  then have "linked (hdr h) b (hnext (hdr h b)) bs (heap_end h)" "p = b" by simp_all
  moreover have "b \<noteq> heap_end h" using linked_end [OF Cons.prems] by auto
  ultimately show ?case using Cons.IH by (subst next_free.simps) simp
qed

section \<open>Joining neighbours\<close>

text \<open>\<open>kept\<close>: what \<^verbatim>\<open>plug_holes\<close> does not touch; used blocks stay where they are.\<close>

definition kept :: "heap \<Rightarrow> heap \<Rightarrow> bool" where
  "kept h h' \<longleftrightarrow> heap_ptr h' = heap_ptr h \<and> mem_size_aligned h' = mem_size_aligned h \<and>
     used_mem h' = used_mem h \<and> max_mem h' = max_mem h \<and>
     (\<forall>x. used (hdr h' x) = used (hdr h x) \<and> magic (hdr h' x) = magic (hdr h x) \<and>
       (used (hdr h x) \<noteq> 0 \<longrightarrow> hnext (hdr h' x) = hnext (hdr h x)))"

lemma kept_refl [simp]: "kept h h"
  by (simp add: kept_def)

lemma kept_trans: "kept h1 h2 \<Longrightarrow> kept h2 h3 \<Longrightarrow> kept h1 h3"
  by (simp add: kept_def)

lemma kept_free: "kept h h' \<Longrightarrow> free h' x \<longleftrightarrow> free h x"
  by (simp add: kept_def)

lemma kept_heap_end: "kept h h' \<Longrightarrow> heap_end h' = heap_end h"
  by (simp add: kept_def heap_end_def)

lemma kept_block_bytes: "kept h h' \<Longrightarrow> block_bytes h' x = block_bytes h x"
  by (simp add: kept_def block_bytes_def)

definition merged :: "u32 \<Rightarrow> u32 \<Rightarrow> heap \<Rightarrow> heap" where
  "merged a b h =
     (let h1 = upd_hdr a (\<lambda>x. x\<lparr>hnext := hnext (hdr h b)\<rparr>) (if lfree h = b then h\<lparr>lfree := a\<rparr> else h)
      in upd_hdr (hnext (hdr h b)) (\<lambda>x. x\<lparr>hprev := a\<rparr>) h1)"

lemma plug_forward_merged:
  assumes "linked (hdr h) q p (as @ m # cs) (heap_end h)"
  shows "plug_forward m h = (if cs \<noteq> [] \<and> free h (hd cs) then merged m (hd cs) h else h)"
proof -
  note s = linked_split [OF assms]
  show ?thesis
  proof (cases cs)
    case Nil
    then show ?thesis using s(11) by (simp add: plug_forward_def)
  next
    case (Cons n ds)
    then have "hnext (hdr h m) = n" "n \<noteq> m" "n \<noteq> heap_end h"
      using s(9,10) linked_end [OF assms] by auto
    then show ?thesis using Cons by (simp add: plug_forward_def merged_def Let_def upd_hdr_def)
  qed
qed

lemma plug_backward_merged:
  assumes "linked (hdr h) 0 0 (as @ m # cs) e"
  shows "plug_backward m h = (if as \<noteq> [] \<and> free h (last as) then merged (last as) m h else h)"
proof -
  note s = linked_split [OF assms]
  show ?thesis
  proof (cases "as = []")
    case True
    then have "m = 0" "hprev (hdr h m) = m" using assms by auto
    then show ?thesis using True by (simp add: plug_backward_def)
  next
    case False
    then have "hprev (hdr h m) = last as" "last as \<noteq> m" using s(2,5) by auto
    then show ?thesis using False by (simp add: plug_backward_def merged_def Let_def upd_hdr_def)
  qed
qed

lemma merged_spec:
  assumes c: "heap_chain h (as @ a # b # cs)" and f: "free h a" "free h b"
  shows "heap_chain (merged a b h) (as @ a # cs)" and "kept h (merged a b h)"
    and "accounted h (as @ a # b # cs) \<Longrightarrow> accounted (merged a b h) (as @ a # cs)"
    and "lowest h (as @ a # b # cs) \<Longrightarrow> lowest (merged a b h) (as @ a # cs)"
proof -
  let ?h = "merged a b h"
  note d = heap_chainD [OF c]
  have s: "linked (hdr h) 0 0 ((as @ [a]) @ b # cs) (heap_end h)" using d(1) by simp
  have ab: "a \<noteq> b" using linked_distinct [OF d(1)] by simp
  have H: "hdr ?h = ((hdr h)(a := (hdr h a)\<lparr>hnext := hnext (hdr h b)\<rparr>))(hnext (hdr h b) :=
      (((hdr h)(a := (hdr h a)\<lparr>hnext := hnext (hdr h b)\<rparr>)) (hnext (hdr h b)))\<lparr>hprev := a\<rparr>)"
    by (simp add: merged_def upd_hdr_def Let_def)
  have R: "lfree ?h = (if lfree h = b then a else lfree h)"
    by (simp add: merged_def upd_hdr_def Let_def)
  show k: "kept h ?h"
    using f by (auto simp: kept_def H) (simp_all add: merged_def upd_hdr_def Let_def)
  have l: "linked (hdr ?h) 0 0 (as @ a # cs) (heap_end ?h)"
    using linked_merge [OF d(1) H] kept_heap_end [OF k] by simp
  show "heap_chain ?h (as @ a # cs)"
    unfolding heap_chain_def
    using l d k R kept_heap_end [OF k] by (auto simp: kept_def)
  show "accounted ?h (as @ a # cs)" if "accounted h (as @ a # b # cs)"
    using that f k by (simp add: accounted_def kept_block_bytes [OF k] kept_def)
      (simp add: block_bytes_def)
  show "lowest ?h (as @ a # cs)" if "lowest h (as @ a # b # cs)"
  proof -
    have "a < b" using linked_split(3) [OF d(1)] linked_split(10) [OF d(1)] by (simp add: word_less_nat_alt)
    moreover have "lfree h \<le> a" using that f(1) by (simp add: lowest_def)
    ultimately have "lfree ?h = lfree h" using R by auto
    then show ?thesis using that by (auto simp: lowest_def kept_free [OF k])
  qed
qed

text \<open>The blocks after \<^verbatim>\<open>plug_holes\<close> of the free block \<open>m\<close>.\<close>

definition drop_free :: "heap \<Rightarrow> u32 list \<Rightarrow> u32 list" where
  "drop_free h cs = (if cs \<noteq> [] \<and> free h (hd cs) then tl cs else cs)"

definition plugged :: "heap \<Rightarrow> u32 list \<Rightarrow> u32 \<Rightarrow> u32 list \<Rightarrow> u32 list" where
  "plugged h as m cs = (if as \<noteq> [] \<and> free h (last as) then as @ drop_free h cs else as @ m # drop_free h cs)"

lemma drop_free_set: "set cs = (if drop_free h cs = cs then set cs else insert (hd cs) (set (drop_free h cs)))"
  by (cases cs) (auto simp: drop_free_def)

lemma plugged_used: "free h m \<Longrightarrow> {b \<in> set (plugged h as m cs). \<not> free h b} = {b \<in> set (as @ m # cs). \<not> free h b}"
  by (cases cs; cases as rule: rev_cases) (auto simp: plugged_def drop_free_def)

lemma spaced_plugged:
  assumes "spaced h as" and "spaced h cs"
  shows "spaced h (plugged h as m cs)"
proof -
  have d: "spaced h (drop_free h cs)" "drop_free h cs = [] \<or> \<not> free h (hd (drop_free h cs))"
    using assms(2) by (cases cs; cases "tl cs"; simp add: drop_free_def)+
  then have "spaced h (m # drop_free h cs)" by (cases "drop_free h cs") auto
  then show ?thesis using assms(1) d unfolding plugged_def by (auto simp: successively_append_iff)
qed

lemma spaced_cong: "(\<And>x. x \<in> set bs \<Longrightarrow> free h' x \<longleftrightarrow> free h x) \<Longrightarrow> spaced h' bs \<longleftrightarrow> spaced h bs"
  by (induction bs rule: induct_list012) auto

lemma plug_holes_spec:
  assumes c: "heap_chain h (as @ m # cs)" and a: "accounted h (as @ m # cs)"
    and f: "free h m" and s: "spaced h as" "spaced h cs"
  shows "returns (plug_holes m h) (\<lambda>h'. heap_inv h' (plugged h as m cs) \<and> kept h h' \<and>
    (lowest h (as @ m # cs) \<longrightarrow> lowest h' (plugged h as m cs)))"
proof -
  let ?h1 = "plug_forward m h"
  note l = heap_chainD(1) [OF c]
  have me: "m < heap_end h"
    using linked_bounds(2) [OF l, of m] by (simp add: word_less_nat_alt)
  have 1: "heap_chain ?h1 (as @ m # drop_free h cs) \<and> kept h ?h1 \<and> accounted ?h1 (as @ m # drop_free h cs) \<and>
    (lowest h (as @ m # cs) \<longrightarrow> lowest ?h1 (as @ m # drop_free h cs))"
  proof (cases "cs \<noteq> [] \<and> free h (hd cs)")
    case True
    then obtain n ds where cs: "cs = n # ds" "free h n" by (cases cs) auto
    have "?h1 = merged m n h" "drop_free h cs = ds"
      using plug_forward_merged [OF l] cs by (simp_all add: drop_free_def)
    then show ?thesis using merged_spec [of h as m n ds] c a f cs by simp
  next
    case False
    then have "?h1 = h" "drop_free h cs = cs"
      using plug_forward_merged [OF l] by (auto simp: drop_free_def)
    then show ?thesis using c a by simp
  qed
  then have k1: "kept h ?h1" and c1: "heap_chain ?h1 (as @ m # drop_free h cs)" by simp_all
  let ?h2 = "plug_backward m ?h1"
  have 2: "heap_chain ?h2 (plugged h as m cs) \<and> kept ?h1 ?h2 \<and> accounted ?h2 (plugged h as m cs) \<and>
    (lowest ?h1 (as @ m # drop_free h cs) \<longrightarrow> lowest ?h2 (plugged h as m cs))"
  proof (cases "as \<noteq> [] \<and> free h (last as)")
    case True
    then obtain bs p where as: "as = bs @ [p]" "free h p" by (cases as rule: rev_cases) auto
    have "?h2 = merged p m ?h1" "plugged h as m cs = bs @ p # drop_free h cs"
      using plug_backward_merged [OF heap_chainD(1) [OF c1]] as kept_free [OF k1] by (simp_all add: plugged_def)
    then show ?thesis using merged_spec [of ?h1 bs p m "drop_free h cs"] 1 as f kept_free [OF k1] by simp
  next
    case False
    then have "?h2 = ?h1" "plugged h as m cs = as @ m # drop_free h cs"
      using plug_backward_merged [OF heap_chainD(1) [OF c1]] kept_free [OF k1] by (auto simp: plugged_def)
    then show ?thesis using 1 by simp
  qed
  have k: "kept h ?h2" using 1 2 kept_trans by blast
  have "spaced ?h2 (plugged h as m cs)"
    using spaced_plugged [OF s] spaced_cong [of _ ?h2 h] kept_free [OF k] by simp
  then show ?thesis using 1 2 k me f by (simp add: plug_holes_def heap_inv_def)
qed

section \<open>Release\<close>

text \<open>The blocks handed out; \<open>bounds_kept\<close>: the heap is the same memory.\<close>

definition taken :: "heap \<Rightarrow> u32 list \<Rightarrow> u32 set" where
  "taken h bs = {b \<in> set bs. \<not> free h b}"

definition bounds_kept :: "heap \<Rightarrow> heap \<Rightarrow> bool" where
  "bounds_kept h h' \<longleftrightarrow> heap_ptr h' = heap_ptr h \<and> mem_size_aligned h' = mem_size_aligned h"

lemma kept_bounds: "kept h h' \<Longrightarrow> bounds_kept h h'"
  by (simp add: kept_def bounds_kept_def)

lemma heap_chain_cong:
  assumes "heap_chain h bs" and "bounds_kept h h'"
    and "\<And>x. x \<in> set bs \<Longrightarrow> hnext (hdr h' x) = hnext (hdr h x) \<and> hprev (hdr h' x) = hprev (hdr h x)"
    and "\<And>x. x \<in> set bs \<Longrightarrow> \<not> free h' x \<Longrightarrow> magic (hdr h' x) = HEAP_MAGIC"
    and "\<not> free h' (heap_end h)" and "lfree h' \<in> set bs \<union> {heap_end h}"
  shows "heap_chain h' bs"
  using assms linked_cong [of bs "hdr h'" "hdr h"]
  by (simp add: heap_chain_def bounds_kept_def heap_end_def)

lemma spaced_parts:
  assumes "spaced h (as @ b # cs)"
  shows "spaced h as" and "spaced h cs"
  using assms by (auto simp: successively_append_iff successively_Cons)

lemma map_other:
  assumes "a \<notin> set xs" and "\<And>x. x \<in> set xs \<Longrightarrow> x \<noteq> a \<Longrightarrow> f x = g x"
  shows "map f xs = map g xs"
  using assms by (metis map_cong)

lemma accounted_change:
  assumes "accounted h (as @ b # cs)"
    and "map (block_bytes h') as = map (block_bytes h) as" and "map (block_bytes h') cs = map (block_bytes h) cs"
    and "used_mem h' = used_mem h - block_bytes h b + block_bytes h' b"
  shows "accounted h' (as @ b # cs)" and "free h' m \<Longrightarrow> accounted h' (as @ b # m # cs)"
proof -
  have m: "sum_list (map (block_bytes h') as) = sum_list (map (block_bytes h) as)"
    "sum_list (map (block_bytes h') cs) = sum_list (map (block_bytes h) cs)"
    by (simp_all only: assms(2,3))
  show "accounted h' (as @ b # cs)" using assms(1,4) m by (simp add: accounted_def)
  show "accounted h' (as @ b # m # cs)" if "free h' m"
    using assms(1,4) m that by (simp add: accounted_def block_bytes_def [of _ m])
qed

lemma heap_free_spec:
  assumes i: "heap_inv h bs" and b: "b \<in> taken h bs"
  shows "returns (heap_free b h) (\<lambda>h'. \<exists>bs'. heap_inv h' bs' \<and> bounds_kept h h' \<and> taken h' bs' = taken h bs - {b} \<and>
    (\<forall>x \<in> taken h' bs'. hnext (hdr h' x) = hnext (hdr h x)) \<and> (lowest h bs \<longrightarrow> lowest h' bs'))"
proof -
  from i have c: "heap_chain h bs" and a: "accounted h bs" and s: "spaced h bs" by (simp_all add: heap_inv_def)
  note d = heap_chainD [OF c]
  from b have bb: "b \<in> set bs" "\<not> free h b" by (simp_all add: taken_def)
  then obtain as cs where bs: "bs = as @ b # cs" by (meson split_list)
  have n: "b \<notin> set as" "b \<notin> set cs" "b \<noteq> heap_end h"
    using linked_distinct [OF d(1)] linked_end [OF d(1)] bs by auto
  define h1 where "h1 = (let h = upd_hdr b (\<lambda>x. x\<lparr>used := 0, magic := HEAP_MAGIC\<rparr>) h;
     h = (if b < lfree h then h\<lparr>lfree := b\<rparr> else h)
     in h\<lparr>used_mem := used_mem h - (hnext (hdr h b) - b)\<rparr>)"
  have H: "hdr h1 = (hdr h)(b := (hdr h b)\<lparr>used := 0, magic := HEAP_MAGIC\<rparr>)"
    and R: "bounds_kept h h1" "used_mem h1 = used_mem h - (hnext (hdr h b) - b)"
      "lfree h1 = (if b < lfree h then b else lfree h)"
    by (simp_all add: h1_def upd_hdr_def Let_def bounds_kept_def)
  have c1: "heap_chain h1 bs"
    by (rule heap_chain_cong [OF c R(1)]) (use d(5,6,7) bb n R H in \<open>auto split: if_splits\<close>)
  have "map (block_bytes h1) as = map (block_bytes h) as" "map (block_bytes h1) cs = map (block_bytes h) cs"
    using n H by (auto intro!: map_other simp: block_bytes_def)
  moreover have "used_mem h1 = used_mem h - block_bytes h b + block_bytes h1 b"
    using bb R(2) H by (simp add: block_bytes_def)
  ultimately have a1: "accounted h1 bs" using accounted_change(1) a bs by simp
  have "spaced h1 as" using spaced_parts(1) [OF s [unfolded bs]]
    by (subst spaced_cong [of as h1 h]) (use n H in auto)
  moreover have "spaced h1 cs" using spaced_parts(2) [OF s [unfolded bs]]
    by (subst spaced_cong [of cs h1 h]) (use n H in auto)
  ultimately have s1: "spaced h1 as" "spaced h1 cs" .
  have lo: "lowest h1 bs" if "lowest h bs" using that R(3) H by (auto simp: lowest_def)
  have "heap_free b h = plug_holes b h1"
    using bb d(7) by (simp add: heap_free_def h1_def Let_def)
  moreover have "returns (plug_holes b h1) (\<lambda>h'. heap_inv h' (plugged h1 as b cs) \<and> kept h1 h' \<and>
    (lowest h1 bs \<longrightarrow> lowest h' (plugged h1 as b cs)))"
    using plug_holes_spec [of h1 as b cs] c1 a1 s1 H bs by simp
  moreover have "\<exists>bs'. heap_inv h' bs' \<and> bounds_kept h h' \<and> taken h' bs' = taken h bs - {b} \<and>
    (\<forall>x \<in> taken h' bs'. hnext (hdr h' x) = hnext (hdr h x)) \<and> (lowest h bs \<longrightarrow> lowest h' bs')"
    if "heap_inv h' (plugged h1 as b cs) \<and> kept h1 h' \<and> (lowest h1 bs \<longrightarrow> lowest h' (plugged h1 as b cs))" for h'
  proof -
    have k: "kept h1 h'" using that by simp
    have "taken h' (plugged h1 as b cs) = taken h1 bs"
      using plugged_used [of h1 b as cs] H kept_free [OF k] bs by (simp add: taken_def)
    also have "\<dots> = taken h bs - {b}" using H by (auto simp: taken_def)
    finally have "taken h' (plugged h1 as b cs) = taken h bs - {b}" .
    moreover have "hnext (hdr h' x) = hnext (hdr h x)" if "x \<in> taken h bs - {b}" for x
      using that k H by (auto simp: kept_def taken_def)
    moreover have "bounds_kept h h'" using k R(1) by (simp add: kept_def bounds_kept_def)
    ultimately show ?thesis using that lo by auto
  qed
  ultimately show ?thesis by (auto elim: returns_mono)
qed

section \<open>Allocation\<close>

lemma heap_split_spec:
  assumes c: "heap_chain h (as @ a # cs)" and r: "unat a + unat sz + 28 \<le> unat (hnext (hdr h a))"
    and z: "4 \<le> unat sz" "4 dvd unat sz"
  shows "unat (a + 12 + sz) = unat a + 12 + unat sz"
    and "linked (hdr (heap_split sz a h)) 0 0 (as @ a # (a + 12 + sz) # cs) (heap_end h)"
    and "free (heap_split sz a h) (a + 12 + sz)" and "4 dvd unat (a + 12 + sz)"
    and "hnext (hdr (heap_split sz a h) a) = a + 12 + sz"
    and "hnext (hdr (heap_split sz a h) (a + 12 + sz)) = hnext (hdr h a)"
    and "x \<noteq> a + 12 + sz \<Longrightarrow> used (hdr (heap_split sz a h) x) = used (hdr h x) \<and>
      magic (hdr (heap_split sz a h) x) = magic (hdr h x) \<and> (x \<noteq> a \<longrightarrow> hnext (hdr (heap_split sz a h) x) = hnext (hdr h x))"
    and "heap_split sz a h = h\<lparr>hdr := hdr (heap_split sz a h)\<rparr>"
    and "a + 12 + sz \<notin> set (as @ a # cs)" and "a + 12 + sz \<noteq> heap_end h"
proof -
  note d = heap_chainD [OF c] and s = linked_split [OF heap_chainD(1) [OF c]]
  let ?m = "a + 12 + sz" and ?h = "heap_split sz a h"
  have ne: "unat (hnext (hdr h a)) \<le> unat (heap_end h)" using linked_bounds(1) [OF s(4)] .
  have "unat (hnext (hdr h a)) < 2 ^ 32" using unsigned_less [of "hnext (hdr h a)", where 'a = nat] by simp
  then show m: "unat ?m = unat a + 12 + unat sz" using r by (simp add: unat_word_ariths)
  define H1 where "H1 = ((hdr h)(?m := (hdr h ?m)\<lparr>magic := HEAP_MAGIC, used := 0, hnext := hnext (hdr h a), hprev := a\<rparr>))
    (a := (hdr h a)\<lparr>hnext := ?m\<rparr>)"
  have am: "a \<noteq> ?m" using m by (metis add_cancel_right_right add.assoc add_is_0 zero_neq_numeral)
  have mn: "?m \<noteq> hnext (hdr h a)" using m r by auto
  have H: "hdr ?h = (if hnext (hdr h a) \<noteq> heap_end h then H1(hnext (hdr h a) := (H1 (hnext (hdr h a)))\<lparr>hprev := ?m\<rparr>) else H1)"
    using am by (simp add: heap_split_def upd_hdr_def Let_def H1_def heap_end_def)
  show "linked (hdr ?h) 0 0 (as @ a # ?m # cs) (heap_end h)"
    by (rule linked_divide [OF d(1) _ _ _ _ _ _ _ H]) (use m r z am in \<open>auto simp: H1_def\<close>)
  show "free ?h ?m" "hnext (hdr ?h a) = ?m" "hnext (hdr ?h ?m) = hnext (hdr h a)"
    using am mn s(9) unfolding H H1_def by auto
  show "x \<noteq> ?m \<Longrightarrow> used (hdr ?h x) = used (hdr h x) \<and> magic (hdr ?h x) = magic (hdr h x) \<and>
      (x \<noteq> a \<longrightarrow> hnext (hdr ?h x) = hnext (hdr h x))"
    unfolding H H1_def by auto
  show "heap_split sz a h = h\<lparr>hdr := hdr (heap_split sz a h)\<rparr>"
    by (simp add: heap_split_def upd_hdr_def Let_def)
  show "4 dvd unat ?m" using d(8) [of a] z m by (simp add: dvd_add)
  have "?m \<notin> set as" using linked_bounds(2) [OF s(1), of ?m] m by auto
  moreover have "?m \<notin> set cs" using linked_bounds(2) [OF s(4), of ?m] m r by auto
  ultimately show "?m \<notin> set (as @ a # cs)" using am by simp
  show "?m \<noteq> heap_end h" using m r ne by auto
qed

text \<open>The block \<open>a\<close> is marked and \<open>lfree\<close> still points to a block: what \<^verbatim>\<open>rt_malloc\<close> has at the end.\<close>

definition handed :: "heap \<Rightarrow> u32 list \<Rightarrow> u32 \<Rightarrow> u32 \<Rightarrow> heap \<Rightarrow> u32 list \<Rightarrow> bool" where
  "handed h bs sz a h' bs' \<longleftrightarrow> heap_inv h' bs' \<and> bounds_kept h h' \<and> taken h' bs' = insert a (taken h bs) \<and>
     (\<forall>x \<in> taken h bs. hnext (hdr h' x) = hnext (hdr h x)) \<and> sz \<le> hnext (hdr h' a) - (a + 12) \<and>
     (lowest h bs \<longrightarrow> lowest h' bs')"

lemma take_whole:
  assumes i: "heap_inv h bs" and a: "a \<in> set bs" "free h a" and z: "sz \<le> hnext (hdr h a) - (a + 12)"
    and h': "h' = upd_hdr a (\<lambda>x. x\<lparr>magic := HEAP_MAGIC\<rparr>) (account (hnext (hdr h a) - a) (upd_hdr a (\<lambda>x. x\<lparr>used := 1\<rparr>) h))"
  shows "handed h bs sz a h' bs" and "lfree h' = lfree h"
proof -
  from i have c: "heap_chain h bs" and ac: "accounted h bs" and s: "spaced h bs" by (simp_all add: heap_inv_def)
  note d = heap_chainD [OF c]
  from a obtain as cs where bs: "bs = as @ a # cs" by (meson split_list)
  have n: "a \<notin> set as" "a \<notin> set cs" "a \<noteq> heap_end h"
    using linked_distinct [OF d(1)] linked_end [OF d(1)] bs by auto
  have H: "hdr h' = (hdr h)(a := (hdr h a)\<lparr>used := 1, magic := HEAP_MAGIC\<rparr>)"
    and R: "bounds_kept h h'" "used_mem h' = used_mem h + (hnext (hdr h a) - a)" "lfree h' = lfree h"
    by (simp_all add: h' account_def upd_hdr_def Let_def bounds_kept_def)
  show "lfree h' = lfree h" by (rule R(3))
  have "heap_chain h' bs"
    by (rule heap_chain_cong [OF c R(1)]) (use d(5,6,7) n R H in \<open>auto split: if_splits\<close>)
  moreover have "map (block_bytes h') as = map (block_bytes h) as" "map (block_bytes h') cs = map (block_bytes h) cs"
    using n H by (auto intro!: map_other simp: block_bytes_def)
  then have "accounted h' bs"
    unfolding bs by (rule accounted_change(1) [OF ac [unfolded bs]]) (use a R(2) H in \<open>simp add: block_bytes_def\<close>)
  moreover have "spaced h' bs" using s by (rule successively_mono) (use H in auto)
  moreover have "taken h' bs = insert a (taken h bs)" using a H by (auto simp: taken_def)
  moreover have "lowest h' bs" if "lowest h bs" using that R(3) H by (auto simp: lowest_def)
  ultimately show "handed h bs sz a h' bs" using R H z by (simp add: handed_def heap_inv_def)
qed

lemma take_split:
  assumes i: "heap_inv h bs" and a: "a \<in> set bs" "free h a"
    and z: "unat a + unat sz + 36 \<le> unat (hnext (hdr h a))" "4 \<le> unat sz" "4 dvd unat sz"
    and h': "h' = upd_hdr a (\<lambda>x. x\<lparr>magic := HEAP_MAGIC\<rparr>)
      (account (sz + 12) (upd_hdr a (\<lambda>x. x\<lparr>used := 1\<rparr>) (heap_split sz a h)))"
  shows "\<exists>bs'. handed h bs sz a h' bs'" and "lfree h' = lfree h"
proof -
  from i have c: "heap_chain h bs" and ac: "accounted h bs" and s: "spaced h bs" by (simp_all add: heap_inv_def)
  note d = heap_chainD [OF c]
  from a obtain as cs where bs: "bs = as @ a # cs" by (meson split_list)
  have n: "a \<notin> set as" "a \<notin> set cs" "a \<noteq> heap_end h"
    using linked_distinct [OF d(1)] linked_end [OF d(1)] bs by auto
  let ?m = "a + 12 + sz" and ?hs = "heap_split sz a h" and ?bs = "as @ a # (a + 12 + sz) # cs"
  have r: "unat a + unat sz + 28 \<le> unat (hnext (hdr h a))" using z by simp
  note p = heap_split_spec [OF c [unfolded bs] r z(2,3)]
  have H: "hdr h' = (hdr ?hs)(a := (hdr ?hs a)\<lparr>used := 1, magic := HEAP_MAGIC\<rparr>)"
    by (simp add: h' account_def upd_hdr_def Let_def)
  obtain X where hs: "?hs = h\<lparr>hdr := X\<rparr>" using p(8) by blast
  have R: "bounds_kept h h'" "used_mem h' = used_mem h + (sz + 12)" "lfree h' = lfree h" "heap_end h' = heap_end h"
    unfolding h' hs by (simp_all add: account_def upd_hdr_def Let_def bounds_kept_def heap_end_def)
  show "lfree h' = lfree h" by (rule R(3))
  have U: "used (hdr h' x) = used (hdr h x) \<and> magic (hdr h' x) = magic (hdr h x) \<and> hnext (hdr h' x) = hnext (hdr h x)"
    if "x \<noteq> a" "x \<noteq> ?m" for x using p(7) [of x] that H by simp
  have V: "free h' x = free h x \<and> block_bytes h' x = block_bytes h x" if "x \<in> set as \<union> set cs" for x
    using U [of x] n p(9) that by (cases "x = a"; cases "x = ?m") (auto simp: block_bytes_def)
  have am: "a \<noteq> ?m" using p(9) by auto
  have fm: "free h' ?m" "\<not> free h' a" "hnext (hdr h' a) = ?m" using H p(3,5) am by auto
  have l: "linked (hdr h') 0 0 ?bs (heap_end h')"
    using p(2) R(4) linked_cong [of ?bs "hdr h'" "hdr ?hs"] H by simp
  have "\<not> free h' (heap_end h)" using U [of "heap_end h"] d(5) n(3) p(10) by auto
  moreover have "magic (hdr h' x) = HEAP_MAGIC" if "x \<in> set ?bs" "\<not> free h' x" for x
    using that d(7) [of x] U [of x] fm H by (cases "x = a"; cases "x = ?m") (auto simp: bs)
  ultimately have "heap_chain h' ?bs"
    using l d(3,4,6,8,9,10) R p(4) by (auto simp: heap_chain_def bounds_kept_def bs)
  moreover have "map (block_bytes h') as = map (block_bytes h) as" "map (block_bytes h') cs = map (block_bytes h) cs"
    using V by simp_all
  then have "accounted h' ?bs"
    by (rule accounted_change(2) [OF ac [unfolded bs]]) (use a R(2) fm in \<open>simp_all add: block_bytes_def\<close>)
  moreover have "spaced h' ?bs"
  proof -
    have "spaced h' as" using spaced_parts(1) [OF s [unfolded bs]]
      by (subst spaced_cong [of as h' h]) (use V in auto)
    moreover have "spaced h' cs" using spaced_parts(2) [OF s [unfolded bs]]
      by (subst spaced_cong [of cs h' h]) (use V in auto)
    moreover have "cs = [] \<or> \<not> free h' (hd cs)"
      using s a(2) V by (cases cs) (auto simp: bs successively_append_iff successively_Cons)
    ultimately show ?thesis using fm by (auto simp: successively_append_iff successively_Cons)
  qed
  moreover have "taken h' ?bs = insert a (taken h bs)"
    using a fm V by (auto simp: taken_def bs)
  moreover have "lowest h' ?bs" if "lowest h bs"
  proof -
    have "lfree h \<le> a" "a < ?m" using that a p(1) by (auto simp: lowest_def word_less_nat_alt)
    then show ?thesis using that R(3) fm V by (auto simp: lowest_def bs)
  qed
  moreover have "sz \<le> hnext (hdr h' a) - (a + 12)" using fm(3) by simp
  moreover have "\<forall>x \<in> taken h bs. hnext (hdr h' x) = hnext (hdr h x)"
    using U p(9) a(2) by (metis (mono_tags, lifting) bs mem_Collect_eq taken_def)
  ultimately have "handed h bs sz a h' ?bs" using R(1) by (simp add: handed_def heap_inv_def)
  then show "\<exists>bs'. handed h bs sz a h' bs'" by blast
qed

lemma first_le:
  assumes "linked H q p bs e" and "x \<in> set bs" and "P x"
  shows "hd (filter P bs @ [e]) \<le> x"
  using assms
proof (induction bs arbitrary: q p)
  case (Cons b bs)
  have "b \<le> y" if "y \<in> set (b # bs)" for y
    using linked_bounds(2) [OF Cons.prems(1) that] Cons.prems(1) by (simp add: word_le_nat_alt)
  then show ?case using Cons by auto
qed simp

text \<open>The next lowest free block after \<open>a\<close> was taken.\<close>

lemma handed_next_free:
  assumes "handed h bs sz a h' bs'" and "lfree h' = a"
  shows "returns (next_free (lfree h') h') (\<lambda>p. handed h bs sz a (h'\<lparr>lfree := p\<rparr>) bs' \<and>
    (p = heap_end h' \<or> used (hdr h' p) = 0))"
proof -
  from assms(1) have i: "heap_inv h' bs'" and t: "a \<in> taken h' bs'" by (simp_all add: handed_def)
  from i have c: "heap_chain h' bs'" by (simp add: heap_inv_def)
  note d = heap_chainD [OF c]
  from t obtain as cs where bs: "bs' = as @ a # cs" by (auto simp: taken_def dest: split_list)
  note s = linked_split [OF d(1) [unfolded bs]]
  have l: "linked (hdr h') (last (0 # as)) a (a # cs) (heap_end h')"
    using d(1) s(1) bs by (auto simp: linked_append)
  define p where "p = hd (filter (free h') (a # cs) @ [heap_end h'])"
  have n: "next_free (lfree h') h' = Some p"
    using next_free_spec [OF l] assms(2) by (simp add: p_def)
  have p: "p \<in> set bs' \<and> free h' p \<or> p = heap_end h'"
  proof -
    have "p \<in> set (filter (free h') (a # cs) @ [heap_end h'])" unfolding p_def by (rule hd_in_set) simp
    then show ?thesis using bs by (auto split: if_splits)
  qed
  have "lowest (h'\<lparr>lfree := p\<rparr>) bs'" if "lowest h' bs'"
  proof -
    have "p \<le> x" if x: "x \<in> set bs'" "free h' x" for x
    proof (cases "x \<in> set as")
      case True
      then have "x < a" using linked_bounds(2) [OF s(1)] by (fastforce simp: word_less_nat_alt)
      then show ?thesis using \<open>lowest h' bs'\<close> assms(2) x by (auto simp: lowest_def)
    next
      case False
      then show ?thesis unfolding p_def using first_le [OF l, of x "free h'"] x bs by auto
    qed
    then show ?thesis by (simp add: lowest_def)
  qed
  moreover have "heap_inv (h'\<lparr>lfree := p\<rparr>) bs'"
  proof -
    have "block_bytes (h'\<lparr>lfree := p\<rparr>) = block_bytes h'" by (simp add: fun_eq_iff block_bytes_def)
    moreover have "heap_chain (h'\<lparr>lfree := p\<rparr>) bs'"
      using c p by (auto simp: heap_chain_def heap_end_def)
    ultimately show ?thesis using i by (simp add: heap_inv_def accounted_def)
  qed
  ultimately have "handed h bs sz a (h'\<lparr>lfree := p\<rparr>) bs'"
    using assms(1) by (auto simp: handed_def bounds_kept_def taken_def)
  then show ?thesis using n p by auto
qed

lemma heap_take_spec:
  assumes i: "heap_inv h bs" and a: "a \<in> set bs" "free h a" and z: "sz \<le> hnext (hdr h a) - (a + 12)" "4 \<le> unat sz" "4 dvd unat sz"
  shows "returns (heap_take sz a h) (\<lambda>h'. \<exists>bs'. handed h bs sz a h' bs')"
proof -
  from i have c: "heap_chain h bs" by (simp add: heap_inv_def)
  note d = heap_chainD [OF c]
  note sp = block_space [OF d(1) a(1)]
  have "unat (hnext (hdr h a)) \<le> unat (mem_size_aligned h) + 12" using sp(4) unat_heap_end [OF c] by simp
  then have "unat sz + 24 < 2 ^ 32" using z(1) sp(1) d(3) by (simp add: word_le_nat_alt)
  then have sz: "unat (sz + 12 + 12) = unat sz + 24" by (simp add: unat_word_ariths)
  define h1 where "h1 = upd_hdr a (\<lambda>x. x\<lparr>magic := HEAP_MAGIC\<rparr>)
    (if sz + 12 + 12 \<le> hnext (hdr h a) - (a + 12)
     then account (sz + 12) (upd_hdr a (\<lambda>x. x\<lparr>used := 1\<rparr>) (heap_split sz a h))
     else account (hnext (hdr h a) - a) (upd_hdr a (\<lambda>x. x\<lparr>used := 1\<rparr>) h))"
  have "\<exists>bs'. handed h bs sz a h1 bs'"
  proof (cases "sz + 12 + 12 \<le> hnext (hdr h a) - (a + 12)")
    case True
    then have "unat a + unat sz + 36 \<le> unat (hnext (hdr h a))" using sz sp(1,3) by (simp add: word_le_nat_alt)
    then show ?thesis using take_split(1) [OF i a _ z(2,3)] True by (simp add: h1_def)
  next
    case False
    then show ?thesis using take_whole(1) [OF i a z(1)] by (auto simp: h1_def)
  qed
  then obtain bs' where h: "handed h bs sz a h1 bs'" by blast
  have t: "heap_take sz a h = (if a = lfree h1 then do {
       p \<leftarrow> next_free (lfree h1) h1;
       rt_assert (p = heap_end h1 \<or> used (hdr h1 p) = 0);
       Some (h1\<lparr>lfree := p\<rparr>)
     } else Some h1)"
    by (simp add: heap_take_def h1_def Let_def heap_end_def)
  show ?thesis
  proof (cases "lfree h1 = a")
    case True
    then show ?thesis using handed_next_free [OF h True] t by (auto simp: returns_def)
  next
    case False
    then show ?thesis using h t by auto
  qed
qed

text \<open>
  A request of \<open>sz\<close> bytes, already rounded, gets the first free block that fits, starting
  from \<open>lfree\<close>.
\<close>

definition from_lfree :: "heap \<Rightarrow> u32 list \<Rightarrow> u32 list" where
  "from_lfree h bs = dropWhile (\<lambda>b. b \<noteq> lfree h) bs"

lemma heap_search_from_lfree:
  assumes c: "heap_chain h bs" and z: "unat sz \<le> unat (mem_size_aligned h)"
  shows "heap_search sz (lfree h) h = Some (List.find (fits h sz) (from_lfree h bs))"
proof -
  note d = heap_chainD [OF c]
  have "\<exists>q. linked (hdr h) q (lfree h) (from_lfree h bs) (heap_end h)"
  proof (cases "lfree h \<in> set bs")
    case True
    then obtain as cs where bs: "bs = as @ lfree h # cs" "lfree h \<notin> set as" by (meson split_list_first)
    then have "\<And>x. x \<in> set as \<Longrightarrow> x \<noteq> lfree h" by auto
    then have "from_lfree h bs = lfree h # cs"
      unfolding from_lfree_def by (subst bs(1)) (simp add: dropWhile_append2)
    moreover have "linked (hdr h) (last (0 # as)) (lfree h) (lfree h # cs) (heap_end h)"
      using d(1) linked_split(1) [OF d(1) [unfolded bs(1)]] by (subst (asm) bs(1)) (auto simp: linked_append)
    ultimately show ?thesis by auto
  next
    case False
    then have "from_lfree h bs = []" by (auto simp: from_lfree_def)
    then show ?thesis using d(6) False by simp
  qed
  then show ?thesis using heap_search_spec [OF _ z] d(3) by auto
qed

lemma lowest_find:
  assumes c: "heap_chain h bs" and l: "lowest h bs"
  shows "List.find (fits h sz) (from_lfree h bs) = List.find (fits h sz) bs"
proof -
  note d = heap_chainD [OF c]
  have "\<not> free h x" if "x \<in> set (takeWhile (\<lambda>b. b \<noteq> lfree h) bs)" for x
  proof
    assume f: "free h x"
    have x: "x \<in> set bs" "x \<noteq> lfree h" using that set_takeWhileD by fastforce+
    show False
    proof (cases "lfree h \<in> set bs")
      case True
      then obtain as cs where bs: "bs = as @ lfree h # cs" "lfree h \<notin> set as" by (meson split_list_first)
      then have "\<And>x. x \<in> set as \<Longrightarrow> x \<noteq> lfree h" by auto
      then have "takeWhile (\<lambda>b. b \<noteq> lfree h) bs = as" by (subst bs(1)) (simp add: takeWhile_append2)
      then have "x < lfree h" using that linked_bounds(2) [OF linked_split(1) [OF d(1) [unfolded bs(1)]]]
        by (fastforce simp: word_less_nat_alt)
      then show False using l x f by (auto simp: lowest_def)
    next
      case False
      then have "lfree h = heap_end h" using d(6) by simp
      moreover have "x < heap_end h" using linked_bounds(2) [OF d(1) x(1)] by (simp add: word_less_nat_alt)
      ultimately show False using l x f by (auto simp: lowest_def)
    qed
  qed
  then have "List.find (fits h sz) (takeWhile (\<lambda>b. b \<noteq> lfree h) bs) = None"
    by (auto simp: find_None_iff fits_def)
  moreover have "List.find P (xs @ ys) = (case List.find P xs of None \<Rightarrow> List.find P ys | Some x \<Rightarrow> Some x)"
    for P :: "u32 \<Rightarrow> bool" and xs ys by (induction xs) auto
  ultimately show ?thesis unfolding from_lfree_def by (metis option.simps(4) takeWhile_dropWhile_id)
qed

lemma heap_malloc_spec:
  assumes i: "heap_inv h bs" and z: "unat sz \<le> unat (mem_size_aligned h)" "4 \<le> unat sz" "4 dvd unat sz"
  shows "returns (heap_malloc sz h) (\<lambda>(r, h'). r = List.find (fits h sz) (from_lfree h bs) \<and>
    (case r of None \<Rightarrow> h' = h | Some a \<Rightarrow> a \<in> set bs \<and> fits h sz a \<and> (\<exists>bs'. handed h bs sz a h' bs')))"
proof -
  from i have c: "heap_chain h bs" by (simp add: heap_inv_def)
  note d = heap_chainD [OF c]
  have s: "heap_search sz (lfree h) h = Some (List.find (fits h sz) (from_lfree h bs))"
    by (rule heap_search_from_lfree [OF c z(1)])
  show ?thesis
  proof (cases "List.find (fits h sz) (from_lfree h bs)")
    case None
    then show ?thesis using s by (simp add: heap_malloc_def)
  next
    case (Some a)
    then have f: "fits h sz a" and ab: "a \<in> set bs"
      by (auto simp: find_Some_iff from_lfree_def) (metis nth_mem set_dropWhileD)
    have g: "free h a" "sz \<le> hnext (hdr h a) - (a + 12)" using f by (simp_all add: fits_def)
    have "returns (heap_take sz a h) (\<lambda>h'. \<exists>bs'. handed h bs sz a h' bs')"
      by (rule heap_take_spec [OF i ab g z(2,3)])
    then show ?thesis using s Some f ab by (auto simp: heap_malloc_def returns_def)
  qed
qed

text \<open>The addresses of the block and of its end are in the heap and aligned.\<close>

lemma dvd4_word: "4 dvd unat x \<longleftrightarrow> x mod 4 = 0" for x :: u32
  by (simp add: word_unat_eq_iff unat_mod dvd_eq_mod_eq_0)

lemma and3_word: "x AND 3 = x mod 4" for x :: u32
  using take_bit_eq_mask [of 2 x] take_bit_eq_mod [of 2 x] by (simp add: mask_eq_exp_minus_1)

lemma block_address:
  assumes c: "heap_chain h bs" and a: "a \<in> set bs"
  shows "unat (heap_ptr h + a + 12) = unat (heap_ptr h) + unat a + 12"
    and "unat (heap_ptr h + heap_end h) = unat (heap_ptr h) + unat (mem_size_aligned h) + 12"
    and "(heap_ptr h + a + 12) mod 4 = 0" and "(heap_ptr h + a) mod 4 = 0"
    and "unat a + 16 \<le> unat (mem_size_aligned h) + 12"
proof -
  note d = heap_chainD [OF c]
  show b: "unat a + 16 \<le> unat (mem_size_aligned h) + 12"
    using linked_bounds(2) [OF d(1) a] unat_heap_end [OF c] by simp
  show u: "unat (heap_ptr h + a + 12) = unat (heap_ptr h) + unat a + 12"
    "unat (heap_ptr h + heap_end h) = unat (heap_ptr h) + unat (mem_size_aligned h) + 12"
    using d(3) b unat_heap_end [OF c] by (simp_all add: unat_word_ariths)
  have "unat (heap_ptr h + a) = unat (heap_ptr h) + unat a"
    using d(3) b by (simp add: unat_word_ariths)
  then have "4 dvd unat (heap_ptr h + a)" "4 dvd unat (heap_ptr h + a + 12)"
    using u(1) d(8) [OF a] d(9) by (simp_all add: dvd_add)
  then show "(heap_ptr h + a + 12) mod 4 = 0" "(heap_ptr h + a) mod 4 = 0" by (simp_all add: dvd4_word)
qed

lemma handed_asserts:
  assumes h: "handed h bs sz a h' bs'"
  shows "malloc_asserts sz a h'"
proof -
  from h have c: "heap_chain h' bs'" and a: "a \<in> set bs'" and z: "sz \<le> hnext (hdr h' a) - (a + 12)"
    by (auto simp: handed_def heap_inv_def taken_def)
  note d = heap_chainD [OF c] and sp = block_space [OF heap_chainD(1) [OF c] a] and b = block_address [OF c a]
  have s: "unat a + 12 + unat sz \<le> unat (mem_size_aligned h') + 12"
    using z sp unat_heap_end [OF c] by (simp add: word_le_nat_alt)
  then have "unat (heap_ptr h' + a + 12 + sz) = unat (heap_ptr h') + unat a + 12 + unat sz"
    using b(1) d(3) by (simp add: unat_word_ariths(1) [of "heap_ptr h' + a + 12"])
  then have "heap_ptr h' + a + 12 + sz \<le> heap_ptr h' + heap_end h'"
    using s b(2) by (simp add: word_le_nat_alt)
  then show ?thesis using b(3,4) by (simp add: malloc_asserts_def and3_word)
qed

section \<open>Requests\<close>

lemma RT_ALIGN_4:
  shows "unat sz + 3 < 2 ^ 32 \<Longrightarrow> unat (RT_ALIGN sz 4) = 4 * ((unat sz + 3) div 4)"
    and "2 ^ 32 \<le> unat sz + 3 \<Longrightarrow> RT_ALIGN sz 4 = 0"
proof -
  have "x AND NOT 3 = x - x mod 4" for x :: u32
  proof -
    have "x - (x AND 3) = x AND NOT (x AND 3)" by (rule disjunctive_diff) (simp add: bit_and_iff)
    moreover have "x AND NOT (x AND 3) = x AND NOT 3" by (simp add: bit.conj_disj_distrib)
    ultimately show ?thesis by (simp add: and3_word)
  qed
  then have r: "RT_ALIGN sz 4 = (sz + 3) - (sz + 3) mod 4" by (simp add: RT_ALIGN_def add.commute)
  have le: "(sz + 3) mod 4 \<le> sz + 3"
    by (simp add: word_le_nat_alt unat_mod)
  then have u: "unat (RT_ALIGN sz 4) = unat (sz + 3) - unat (sz + 3) mod 4"
    unfolding r by (subst unat_sub) (simp_all add: unat_mod)
  show "unat (RT_ALIGN sz 4) = 4 * ((unat sz + 3) div 4)" if "unat sz + 3 < 2 ^ 32"
  proof -
    have "unat (sz + 3) = unat sz + 3" using that by (simp add: unat_word_ariths)
    then show ?thesis using u by (simp add: minus_mod_eq_mult_div)
  qed
  show "RT_ALIGN sz 4 = 0" if "2 ^ 32 \<le> unat sz + 3"
  proof -
    have "unat sz < 2 ^ 32" using unsigned_less [of sz, where 'a = nat] by simp
    then have "(unat sz + 3) mod 2 ^ 32 = unat sz + 3 - 2 ^ 32"
      using that by (simp add: mod_if)
    then have "unat (sz + 3) < 3"
      using \<open>unat sz < 2 ^ 32\<close> by (simp add: unat_word_ariths)
    then have "unat (RT_ALIGN sz 4) = 0" using u by simp
    then show ?thesis by (simp add: word_unat_eq_iff)
  qed
qed

lemma RT_ALIGN_mod: "RT_ALIGN sz 4 mod 4 = 0"
  using RT_ALIGN_4 [of sz] dvd4_word [of "RT_ALIGN sz 4"] by (cases "unat sz + 3 < 2 ^ 32") simp_all

lemma RT_ALIGN_DOWN_mod: "RT_ALIGN_DOWN e 4 mod 4 = 0"
  by (simp add: RT_ALIGN_DOWN_def and3_word [symmetric] and.assoc)

lemma malloc_size_facts:
  assumes "RT_ALIGN sz 4 \<le> mem_size_aligned h" and "12 \<le> unat (mem_size_aligned h)"
  shows "unat (malloc_size sz) \<le> unat (mem_size_aligned h)" and "4 \<le> unat (malloc_size sz)"
    and "4 dvd unat (malloc_size sz)"
    and "unat sz + 3 < 2 ^ 32 \<Longrightarrow> unat sz \<le> unat (malloc_size sz)"
    and "2 ^ 32 \<le> unat sz + 3 \<Longrightarrow> malloc_size sz = 12"
proof -
  have m: "malloc_size sz = (if RT_ALIGN sz 4 < 12 then 12 else RT_ALIGN sz 4)"
    by (simp add: malloc_size_def Let_def)
  show "unat (malloc_size sz) \<le> unat (mem_size_aligned h)" "4 \<le> unat (malloc_size sz)"
    using assms by (simp_all add: m word_le_nat_alt word_less_nat_alt)
  have "4 dvd unat (RT_ALIGN sz 4)" using RT_ALIGN_4 [of sz] by (cases "unat sz + 3 < 2 ^ 32") simp_all
  then show "4 dvd unat (malloc_size sz)" by (simp add: m)
  show "unat sz \<le> unat (malloc_size sz)" if "unat sz + 3 < 2 ^ 32"
  proof -
    have "unat sz \<le> 4 * ((unat sz + 3) div 4)" by presburger
    then show ?thesis using RT_ALIGN_4(1) [OF that] by (simp add: m word_less_nat_alt)
  qed
  show "malloc_size sz = 12" if "2 ^ 32 \<le> unat sz + 3" using RT_ALIGN_4(2) [OF that] by (simp add: m)
qed

section \<open>Set-up and shrinking in place\<close>

lemma heap_layout_spec:
  assumes a: "b mod 4 = 0" "e mod 4 = 0" and g: "unat b + 36 \<le> unat e" and u: "used_mem h = 0"
  shows "heap_inv ((heap_layout b e h)\<lparr>lfree := 0\<rparr>) [0]" and "lowest ((heap_layout b e h)\<lparr>lfree := 0\<rparr>) [0]"
    and "free ((heap_layout b e h)\<lparr>lfree := 0\<rparr>) 0" and "heap_ptr (heap_layout b e h) = b"
    and "unat (mem_size_aligned (heap_layout b e h)) = unat e - unat b - 24"
proof -
  let ?h = "(heap_layout b e h)\<lparr>lfree := 0\<rparr>"
  have "b \<le> e" "24 \<le> e - b" using g by (auto simp: word_le_nat_alt unat_sub)
  then have m: "unat (e - b - 24) = unat e - unat b - 24"
    by (simp add: unat_sub word_le_nat_alt)
  have s: "mem_size_aligned ?h = e - b - 24" "heap_ptr ?h = b" "used_mem ?h = 0"
    using u by (simp_all add: heap_layout_def upd_hdr_def Let_def)
  then show "heap_ptr (heap_layout b e h) = b" "unat (mem_size_aligned (heap_layout b e h)) = unat e - unat b - 24"
    using m by simp_all
  have E: "heap_end ?h = e - b - 24 + 12" using s(1) by (simp add: heap_end_def)
  have eb: "unat e < 2 ^ 32" using unsigned_less [of e, where 'a = nat] by simp
  have ue: "unat (heap_end ?h) = unat e - unat b - 12"
    unfolding E using m g eb by (subst unat_word_ariths) simp
  have pos: "0 < unat (heap_end ?h)" using ue g by linarith
  then have ne: "heap_end ?h \<noteq> 0" by (metis less_irrefl unsigned_0)
  have H: "hdr ?h = ((hdr h)(0 := (hdr h 0)\<lparr>magic := HEAP_MAGIC, hnext := heap_end ?h, hprev := 0, used := 0\<rparr>))
     (heap_end ?h := (hdr h (heap_end ?h))\<lparr>magic := HEAP_MAGIC, used := 1, hnext := heap_end ?h, hprev := heap_end ?h\<rparr>)"
    using ne by (simp add: heap_layout_def upd_hdr_def Let_def heap_end_def)
  show f: "free ?h 0" unfolding H using ne by simp
  show "lowest ?h [0]" by (simp add: lowest_def)
  have "hnext (hdr ?h 0) = heap_end ?h" "hprev (hdr ?h 0) = 0" "\<not> free ?h (heap_end ?h)"
    unfolding H using ne by simp_all
  moreover have "4 dvd unat (e - b - 24)"
    using a m by (simp add: dvd4_word [symmetric] dvd_diff_nat)
  moreover have "4 dvd unat b" using a(1) by (simp add: dvd4_word)
  moreover have "16 \<le> unat e - (unat b + 12)" "12 \<le> unat e - (unat b + 24)" using g by linarith+
  ultimately have "heap_chain ?h [0]"
    using f s m g eb ue by (simp add: heap_chain_def)
  then show "heap_inv ?h [0]" using f s by (simp add: heap_inv_def accounted_def block_bytes_def)
qed

text \<open>
  Shrinking a block in place. The remainder is a free block, but \<open>lfree\<close> only changes when the
  next block was the lowest free one.
\<close>

lemma heap_shrink_spec:
  assumes i: "heap_inv h bs" and b: "b \<in> taken h bs" and z: "4 \<le> unat n" "4 dvd unat n"
    and g: "unat n + unat b + 36 < unat (hnext (hdr h b))"
  shows "returns (heap_shrink n b h) (\<lambda>h'. \<exists>bs'. heap_inv h' bs' \<and> bounds_kept h h' \<and> taken h' bs' = taken h bs \<and>
    hnext (hdr h' b) = b + 12 + n \<and> (\<forall>x \<in> taken h bs - {b}. hnext (hdr h' x) = hnext (hdr h x)) \<and>
    b + 12 + n \<in> set bs' \<and> free h' (b + 12 + n) \<and>
    (\<not> free h (hnext (hdr h b)) \<longrightarrow> lfree h' = lfree h))"
proof -
  from i have c: "heap_chain h bs" and ac: "accounted h bs" and s: "spaced h bs" by (simp_all add: heap_inv_def)
  note d = heap_chainD [OF c]
  from b have bb: "b \<in> set bs" "\<not> free h b" by (simp_all add: taken_def)
  then obtain as cs where bs: "bs = as @ b # cs" by (meson split_list)
  have n: "b \<notin> set as" "b \<notin> set cs" "b \<noteq> heap_end h"
    using linked_distinct [OF d(1)] linked_end [OF d(1)] bs by auto
  let ?m = "b + 12 + n" and ?bs = "as @ b # (b + 12 + n) # cs"
  have "unat b + unat n + 28 \<le> unat (hnext (hdr h b))" using g by simp
  note p = heap_split_spec [OF c [unfolded bs] this z]
  define h0 where "h0 = h\<lparr>used_mem := used_mem h - (hnext (hdr h b) - b - 12 - n)\<rparr>"
  define h1 where "h1 = heap_split n b h0"
  have H: "hdr h1 = hdr (heap_split n b h)"
    by (simp add: h1_def h0_def heap_split_def upd_hdr_def Let_def)
  have R: "bounds_kept h h1" "used_mem h1 = used_mem h - (hnext (hdr h b) - b - 12 - n)" "lfree h1 = lfree h"
      "heap_end h1 = heap_end h"
    by (simp_all add: h1_def h0_def heap_split_def upd_hdr_def Let_def bounds_kept_def heap_end_def)
  have U: "used (hdr h1 x) = used (hdr h x) \<and> magic (hdr h1 x) = magic (hdr h x) \<and> (x \<noteq> b \<longrightarrow> hnext (hdr h1 x) = hnext (hdr h x))"
    if "x \<noteq> ?m" for x using p(7) [OF that] H by simp
  have bm: "b \<noteq> ?m" using p(9) by auto
  have V: "free h1 x = free h x \<and> block_bytes h1 x = block_bytes h x" if "x \<in> set as \<union> set cs" for x
    using U [of x] n p(9) that by (cases "x = b"; cases "x = ?m") (auto simp: block_bytes_def)
  have fm: "free h1 ?m" "\<not> free h1 b" "hnext (hdr h1 b) = ?m" using U [of b] bm bb H p(3,5) by auto
  have "\<not> free h1 (heap_end h)" using U [of "heap_end h"] d(5) p(10) by auto
  moreover have "magic (hdr h1 x) = HEAP_MAGIC" if "x \<in> set ?bs" "\<not> free h1 x" for x
    using that d(7) [of x] U [of x] fm by (cases "x = ?m") (auto simp: bs)
  ultimately have c1: "heap_chain h1 ((as @ [b]) @ ?m # cs)"
    using p(2,4) H d(3,4,6,8,9,10) R by (auto simp: heap_chain_def bounds_kept_def bs)
  have "map (block_bytes h1) as = map (block_bytes h) as" "map (block_bytes h1) cs = map (block_bytes h) cs"
    using V by simp_all
  then have "accounted h1 ?bs"
    by (rule accounted_change(2) [OF ac [unfolded bs]]) (use bb R(2) fm in \<open>simp_all add: block_bytes_def algebra_simps\<close>)
  then have a1: "accounted h1 ((as @ [b]) @ ?m # cs)" by simp
  have sa: "spaced h1 (as @ [b])"
  proof -
    have "spaced h1 as" using spaced_parts(1) [OF s [unfolded bs]]
      by (subst spaced_cong [of as h1 h]) (use V in auto)
    then show ?thesis using fm by (simp add: successively_append_iff)
  qed
  have sc: "spaced h1 cs" using spaced_parts(2) [OF s [unfolded bs]]
    by (subst spaced_cong [of cs h1 h]) (use V in auto)
  have pl: "plugged h1 (as @ [b]) ?m cs = as @ b # ?m # drop_free h1 cs"
    using fm by (simp add: plugged_def)
  obtain h' where h': "plug_holes ?m h1 = Some h'" "heap_inv h' (as @ b # ?m # drop_free h1 cs)" "kept h1 h'"
    using plug_holes_spec [OF c1 a1 fm(1) sa sc] unfolding pl by (auto elim: returnsE)
  have "taken h' (as @ b # ?m # drop_free h1 cs) = {x \<in> set ((as @ [b]) @ ?m # cs). \<not> free h1 x}"
    using plugged_used [OF fm(1), of "as @ [b]" cs] kept_free [OF h'(3)] unfolding pl taken_def by simp
  also have "\<dots> = taken h bs" using V fm bb by (auto simp: taken_def bs)
  finally have "taken h' (as @ b # ?m # drop_free h1 cs) = taken h bs" .
  moreover have "hnext (hdr h' b) = ?m" using h'(3) fm by (simp add: kept_def)
  moreover have "hnext (hdr h' x) = hnext (hdr h x)" if x: "x \<in> taken h bs - {b}" for x
  proof -
    have "x \<noteq> ?m" using x p(9) by (auto simp: taken_def bs)
    from U [OF this] show ?thesis using x h'(3) by (auto simp: kept_def taken_def)
  qed
  moreover have "lfree h' = lfree h" if "\<not> free h (hnext (hdr h b))"
  proof -
    note s1 = linked_split [OF heap_chainD(1) [OF c [unfolded bs]]]
    have "\<not> (cs \<noteq> [] \<and> free h1 (hd cs))" using that s1(10) V by auto
    then have "plug_forward ?m h1 = h1" using plug_forward_merged [OF heap_chainD(1) [OF c1]] by argo
    moreover have "plug_backward ?m h1 = h1"
      using plug_backward_merged [OF heap_chainD(1) [OF c1]] fm by simp
    ultimately show ?thesis using h'(1) R(3) by (auto simp: plug_holes_def bind_eq_Some_conv)
  qed
  moreover have "bounds_kept h h'" using R(1) kept_bounds [OF h'(3)] by (simp add: bounds_kept_def)
  moreover have "free h' ?m" using kept_free [OF h'(3)] fm by simp
  moreover have "heap_shrink n b h = Some h'"
    using h'(1) by (simp add: heap_shrink_def h1_def h0_def Let_def)
  ultimately show ?thesis using h'(2) by auto
qed

text \<open>Blocks do not overlap, and the search sees no block below \<open>lfree\<close>.\<close>

lemma linked_disjoint:
  assumes "linked H q p bs e" and "x \<in> set bs" and "y \<in> set bs" and "x \<noteq> y"
  shows "hnext (H x) \<le> y \<or> hnext (H y) \<le> x"
  using assms
proof (induction bs arbitrary: q p)
  case (Cons b bs)
  then have l: "linked H b (hnext (H b)) bs e" by simp
  have "hnext (H b) \<le> z" if "z \<in> set bs" for z
    using linked_bounds(2) [OF l that] by (simp add: word_le_nat_alt)
  then show ?case using Cons.IH [OF l] Cons.prems by auto
qed simp

lemma linked_whole:
  assumes "linked (hdr h) 0 0 bs e" and "bs \<noteq> []" and "spaced h bs" and "\<And>x. x \<in> set bs \<Longrightarrow> free h x"
  shows "bs = [0]"
  using assms by (cases bs; cases "tl bs") (auto simp: successively_Cons)

lemma from_lfree_ge:
  assumes c: "heap_chain h bs" and x: "x \<in> set (from_lfree h bs)"
  shows "lfree h \<le> x"
proof -
  note d = heap_chainD [OF c]
  obtain as where bs: "bs = as @ from_lfree h bs"
    unfolding from_lfree_def by (metis takeWhile_dropWhile_id)
  from x obtain y ys where y: "from_lfree h bs = y # ys" by (cases "from_lfree h bs") auto
  have "y = lfree h" using y by (auto simp: from_lfree_def dropWhile_eq_Cons_conv)
  then have "linked (hdr h) 0 0 (as @ lfree h # ys) (heap_end h)" using d(1) bs y by simp
  note s = linked_split [OF this]
  show ?thesis
    using x y \<open>y = lfree h\<close> linked_bounds(2) [OF s(4), of x] s(3) by (auto simp: word_le_nat_alt)
qed

end
