(* ===== verification/Semaphore.thy ===== *)
theory Semaphore
  imports Ipc_Base
begin

text \<open>
  Semaphores: the functions \<^verbatim>\<open>rt_sem_*\<close> of \<^verbatim>\<open>src/ipc.c\<close>. The value is a 16-bit counter; the
  waiters hang in \<open>SuspendThread (OSem s)\<close> in the order the object's flag selects.
\<close>

section \<open>Operations\<close>

abbreviation sem_waiters :: "kernel \<Rightarrow> nat \<Rightarrow> nat list" where
  "sem_waiters k s \<equiv> tlists k (SuspendThread (OSem s))"

definition set_sem :: "nat \<Rightarrow> u16 \<Rightarrow> kernel \<Rightarrow> kernel" where
  "set_sem s v k = k\<lparr>sems := (sems k)(s := (sems k s)\<lparr>sem_value := v\<rparr>)\<rparr>"

definition is_sem :: "nat \<Rightarrow> kernel \<Rightarrow> bool" where
  "is_sem s k \<longleftrightarrow> rt_object_get_type (OSem s) k = RT_Object_Class_Semaphore"

definition rt_sem_init :: "nat \<Rightarrow> u8 list \<Rightarrow> u32 \<Rightarrow> u8 \<Rightarrow> kernel \<Rightarrow> (rt_err_t \<times> kernel) option" where
  "rt_sem_init s nm value fl k = do {
     k \<leftarrow> rt_object_init (OSem s) RT_Object_Class_Semaphore nm k;
     let k = rt_ipc_object_init (SuspendThread (OSem s)) k;
     let k = set_sem s (ucast value) k;
     let k = upd_obj (OSem s) (\<lambda>ob. ob\<lparr>flag := fl\<rparr>) k;
     Some (RT_EOK, k)
   }"

definition rt_sem_detach :: "nat \<Rightarrow> kernel \<Rightarrow> (rt_err_t \<times> kernel) option" where
  "rt_sem_detach s k = do {
     rt_assert (is_sem s k);
     rt_assert (rt_object_is_systemobject (OSem s) k);
     k \<leftarrow> rt_ipc_list_resume_all (SuspendThread (OSem s)) k;
     Some (RT_EOK, rt_object_detach (OSem s) k)
   }"

definition rt_sem_create ::
    "nat option \<Rightarrow> u8 list \<Rightarrow> u32 \<Rightarrow> u8 \<Rightarrow> kernel \<Rightarrow> (nat option \<times> kernel) option" where
  "rt_sem_create mallocd nm value fl k = do {
     RT_DEBUG_NOT_IN_INTERRUPT k;
     (_, k) \<leftarrow> rt_object_allocate (map_option OSem mallocd) RT_Object_Class_Semaphore nm k;
     case mallocd of
       None \<Rightarrow> Some (None, k)
     | Some s \<Rightarrow>
         let k = rt_ipc_object_init (SuspendThread (OSem s)) k;
             k = set_sem s (ucast value) k;
             k = upd_obj (OSem s) (\<lambda>ob. ob\<lparr>flag := fl\<rparr>) k
         in Some (Some s, k)
   }"

definition rt_sem_delete :: "nat \<Rightarrow> kernel \<Rightarrow> (rt_err_t \<times> kernel) option" where
  "rt_sem_delete s k = do {
     RT_DEBUG_NOT_IN_INTERRUPT k;
     rt_assert (is_sem s k);
     rt_assert (\<not> rt_object_is_systemobject (OSem s) k);
     k \<leftarrow> rt_ipc_list_resume_all (SuspendThread (OSem s)) k;
     k \<leftarrow> rt_object_delete (OSem s) k;
     Some (RT_EOK, k)
   }"

definition rt_sem_take :: "nat \<Rightarrow> int \<Rightarrow> kernel \<Rightarrow> (outcome \<times> kernel) option" where
  "rt_sem_take s time k = do {
     rt_assert (is_sem s k);
     if sem_value (sems k s) > 0
     then Some (Ret RT_EOK VNone, set_sem s (sem_value (sems k s) - 1) k)
     else if time = 0 then Some (Ret (- RT_ETIMEOUT) VNone, k)
     else do {
       RT_DEBUG_IN_THREAD_CONTEXT k;
       t \<leftarrow> rt_thread_self k;
       let k = upd_thread t (\<lambda>x. x\<lparr>error := RT_EOK\<rparr>) k;
       k \<leftarrow> ipc_block (SuspendThread (OSem s)) t (flag (objs k (OSem s))) time k;
       Some (Wait K_sem_take, k)
     }
   }"

definition rt_sem_take_resume :: "nat \<Rightarrow> kernel \<Rightarrow> outcome \<times> kernel" where
  "rt_sem_take_resume t k =
     (if error (threads k t) \<noteq> RT_EOK then (Ret (error (threads k t)) VNone, k)
      else (Ret RT_EOK VNone, k))"

definition rt_sem_trytake :: "nat \<Rightarrow> kernel \<Rightarrow> (outcome \<times> kernel) option" where
  "rt_sem_trytake s k = rt_sem_take s 0 k"

definition rt_sem_release :: "nat \<Rightarrow> kernel \<Rightarrow> (rt_err_t \<times> kernel) option" where
  "rt_sem_release s k = do {
     rt_assert (is_sem s k);
     if sem_waiters k s \<noteq> [] then do {
       k \<leftarrow> rt_ipc_list_resume (SuspendThread (OSem s)) k;
       k \<leftarrow> rt_schedule k;
       Some (RT_EOK, k)
     } else Some (RT_EOK, set_sem s (sem_value (sems k s) + 1) k)
   }"

definition rt_sem_control :: "nat \<Rightarrow> ipc_ctrl \<Rightarrow> kernel \<Rightarrow> (rt_err_t \<times> kernel) option" where
  "rt_sem_control s cmd k = do {
     rt_assert (is_sem s k);
     case cmd of
       Ipc_reset value \<Rightarrow> do {
         k \<leftarrow> rt_ipc_list_resume_all (SuspendThread (OSem s)) k;
         let k = set_sem s (ucast value) k;
         k \<leftarrow> rt_schedule k;
         Some (RT_EOK, k)
       }
     | Ipc_other \<Rightarrow> Some (- RT_ERROR, k)
   }"

section \<open>Taking\<close>

lemma set_sem_sel [simp]:
  "sems (set_sem s v k) = (sems k)(s := (sems k s)\<lparr>sem_value := v\<rparr>)"
  "tlists (set_sem s v k) = tlists k" "threads (set_sem s v k) = threads k"
  "objs (set_sem s v k) = objs k" "rt_current_thread (set_sem s v k) = rt_current_thread k"
  "kinv (set_sem s v k) = kinv k"
  by (simp_all add: set_sem_def)

lemma set_sem_same:
  assumes "sem_value (sems k s) = v"
  shows "set_sem s v (set_sem s w k) = k"
proof -
  have "(sems k s)\<lparr>sem_value := v\<rparr> = sems k s" using assms by (cases "sems k s") simp
  then show ?thesis by (simp add: set_sem_def fun_upd_idem)
qed

lemma rt_sem_take_blocks:
  assumes k: "kinv k" and cur: "rt_current_thread k = Some t" and run: "tstat k t = RT_THREAD_RUNNING"
    and s: "is_sem s k" and fl: "flag (objs k (OSem s)) \<in> {RT_IPC_FLAG_FIFO, RT_IPC_FLAG_PRIO}"
    and time: "time_ok time" "time \<noteq> 0" and nest: "rt_interrupt_nest k = 0"
    and empty: "sem_value (sems k s) = 0"
  shows "\<exists>k'. rt_sem_take s time k = Some (Wait K_sem_take, k') \<and>
    blocked (SuspendThread (OSem s)) t (flag (objs k (OSem s))) time
      (upd_thread t (\<lambda>x. x\<lparr>error := RT_EOK\<rparr>) k) k' \<and>
    rt_sem_take_resume t k' = (Ret RT_EOK VNone, k')"
proof -
  let ?k = "upd_thread t (\<lambda>x. x\<lparr>error := RT_EOK\<rparr>) k"
  have c: "rt_current_thread ?k = Some t" "objs ?k = objs k" "error (threads ?k t) = RT_EOK"
    using cur by (simp_all add: kdefs)
  have "returns (ipc_block (SuspendThread (OSem s)) t (flag (objs ?k (OSem s))) time ?k)
      (blocked (SuspendThread (OSem s)) t (flag (objs ?k (OSem s))) time ?k)"
    by (rule ipc_block_spec [OF kinv_error [OF k] c(1) kinv_runnable_current [OF k cur run] _ _ time(1)])
       (use fl c(2) in auto)
  then obtain k' where k': "ipc_block (SuspendThread (OSem s)) t (flag (objs ?k (OSem s))) time ?k = Some k'"
      "blocked (SuspendThread (OSem s)) t (flag (objs k (OSem s))) time ?k k'"
    unfolding returns_def c(2) by blast
  have "error (threads k' t) = RT_EOK" using k'(2) c(3) by (simp add: blocked_on_def)
  moreover have "rt_sem_take s time k = Some (Wait K_sem_take, k')"
    using time(2) empty s cur nest k'(1)
    by (simp add: rt_sem_take_def RT_DEBUG_IN_THREAD_CONTEXT_def RT_DEBUG_NOT_IN_INTERRUPT_def
        rt_thread_self_def rt_interrupt_get_nest_def)
  ultimately show ?thesis using k'(2) by (simp add: rt_sem_take_resume_def)
qed

text \<open>
  C17. \<^verbatim>\<open>rt_sem_take\<close> on every branch: with permits left it takes one; without one and with
  time 0 it reports the timeout and changes nothing; otherwise the calling thread waits on
  the semaphore's list, placed in the order the semaphore was created with, with its timer
  armed exactly when the time is limited, and another thread that can run gets the
  processor. When it runs again, the call returns the thread's error number.
\<close>

theorem rt_sem_take_correct:
  assumes k: "kinv k" and cur: "rt_current_thread k = Some t" and run: "tstat k t = RT_THREAD_RUNNING"
    and s: "is_sem s k" and fl: "flag (objs k (OSem s)) \<in> {RT_IPC_FLAG_FIFO, RT_IPC_FLAG_PRIO}"
    and time: "time_ok time" and nest: "rt_interrupt_nest k = 0"
  shows "(sem_value (sems k s) > 0 \<longrightarrow>
      rt_sem_take s time k = Some (Ret RT_EOK VNone, set_sem s (sem_value (sems k s) - 1) k)) \<and>
    (sem_value (sems k s) = 0 \<and> time = 0 \<longrightarrow>
      rt_sem_take s time k = Some (Ret (- RT_ETIMEOUT) VNone, k)) \<and>
    (sem_value (sems k s) = 0 \<and> time \<noteq> 0 \<longrightarrow>
      (\<exists>k'. rt_sem_take s time k = Some (Wait K_sem_take, k') \<and>
        blocked (SuspendThread (OSem s)) t (flag (objs k (OSem s))) time
          (upd_thread t (\<lambda>x. x\<lparr>error := RT_EOK\<rparr>) k) k' \<and>
        rt_sem_take_resume t k' = (Ret RT_EOK VNone, k')))"
  using rt_sem_take_blocks [OF k cur run s fl time _ nest] s by (simp add: rt_sem_take_def)

lemma example_sem:
  "is_sem s example_kernel" "flag (objs example_kernel (OSem s)) = RT_IPC_FLAG_FIFO"
  "sem_value (sems example_kernel s) = 0"
  by (simp_all add: is_sem_def rt_object_get_type_def example_objs_def example_kernel_def zero_kernel_def)

theorem rt_sem_take_correct_witness:
  "\<exists>k'. rt_sem_take 0 25 example_kernel = Some (Wait K_sem_take, k') \<and> sem_waiters k' 0 = [1] \<and>
     due k' (ThreadTimer 1) = 25"
proof -
  have r: "rt_current_thread example_kernel = Some 1" "tstat example_kernel 1 = RT_THREAD_RUNNING"
    "rt_interrupt_nest example_kernel = 0" by simp_all
  have "time_ok 25" by (simp add: time_ok_def)
  from rt_sem_take_correct [OF kinv_example r(1,2) example_sem(1) _ this r(3), of 0]
  obtain k' where "rt_sem_take 0 25 example_kernel = Some (Wait K_sem_take, k')"
      "blocked (SuspendThread (OSem 0)) 1 RT_IPC_FLAG_FIFO 25
        (upd_thread 1 (\<lambda>x. x\<lparr>error := RT_EOK\<rparr>) example_kernel) k'"
    using example_sem by auto
  then show ?thesis by (auto simp: blocked_on_def wait_insert_def kdefs)
qed

section \<open>A timed take that times out\<close>

text \<open>
  From the take to the timeout: when the timer of a thread that waits for a semaphore
  fires, the thread leaves the wait list and can run again, the call returns
  \<^verbatim>\<open>-RT_ETIMEOUT\<close>, and the semaphore's value and the other waiters are as before.
\<close>

theorem sem_take_times_out:
  assumes k: "kinv k" and cur: "rt_current_thread k \<noteq> None"
    and t: "t \<in> set (sem_waiters k s)" and expired: "ThreadTimer t \<notin> set (rt_timer_list k)"
  shows "\<exists>k'. rt_thread_timeout t k = Some k' \<and> kinv k' \<and> runnable k' t \<and>
    rt_sem_take_resume t k' = (Ret (- RT_ETIMEOUT) VNone, k') \<and>
    sem_waiters k' s = remove1 t (sem_waiters k s) \<and> t \<notin> set (sem_waiters k' s) \<and>
    sems k' = sems k"
proof -
  have st: "tstat k t = RT_THREAD_SUSPEND"
    using sched_invD(2) [OF kinvD(1) [OF k] t] by simp
  from cur obtain c where c: "rt_current_thread k = Some c" by blast
  from timeout_wakes [OF k c st expired] obtain k' where
    k': "rt_thread_timeout t k = Some k'" "timed_out t k k'" by (elim returnsE)
  have "distinct (sem_waiters k s)"
    using sched_invD(7) [OF kinvD(1) [OF k]] by (simp add: lists_wf_def)
  with k' show ?thesis
    by (auto simp: timed_out_def rt_sem_take_resume_def ipc_frame_def)
qed

theorem sem_take_times_out_witness:
  "\<exists>k'. rt_thread_timeout 3 (example_waiting (SuspendThread (OSem 0))) = Some k' \<and>
     sem_waiters k' 0 = []"
proof -
  have "kinv (example_waiting (SuspendThread (OSem 0)))" by (rule kinv_example_waiting) simp
  from sem_take_times_out [OF this, of 3 0] show ?thesis by (auto simp: example_waiting_def)
qed

section \<open>Releasing\<close>

text \<open>
  C18. \<^verbatim>\<open>rt_sem_release\<close>: with waiters, the first of the list is handed the permit (it can run,
  its error number says success, the value stays) and a thread of at least its priority runs;
  without waiters the value grows by one, in 16 bits: the release at 65535 succeeds and
  leaves the value 0.
\<close>

theorem rt_sem_release_correct:
  assumes k: "kinv k" and cur: "rt_current_thread k \<noteq> None" and s: "is_sem s k"
  shows "(\<forall>t ts. sem_waiters k s = t # ts \<longrightarrow>
      (\<exists>k'. rt_sem_release s k = Some (RT_EOK, k') \<and> woken (SuspendThread (OSem s)) t k k' \<and>
        sem_waiters k' s = ts \<and> sems k' = sems k)) \<and>
    (sem_waiters k s = [] \<longrightarrow>
      rt_sem_release s k = Some (RT_EOK, set_sem s (sem_value (sems k s) + 1) k)) \<and>
    (sem_waiters k s = [] \<and> unat (sem_value (sems k s)) = 65535 \<longrightarrow>
      (\<exists>k'. rt_sem_release s k = Some (RT_EOK, k') \<and> sem_value (sems k' s) = 0))"
proof -
  have "\<exists>k'. rt_sem_release s k = Some (RT_EOK, k') \<and> woken (SuspendThread (OSem s)) t k k' \<and>
      sem_waiters k' s = ts \<and> sems k' = sems k" if q: "sem_waiters k s = t # ts" for t ts
  proof -
    obtain k1 k' where "rt_ipc_list_resume (SuspendThread (OSem s)) k = Some k1" "rt_schedule k1 = Some k'"
        "woken (SuspendThread (OSem s)) t k k'"
      using resume_schedule_spec [OF k cur _ q] by (auto simp: returns_def bind_eq_Some_conv)
    then show ?thesis using q s by (auto simp: rt_sem_release_def woken_def ipc_frame_def)
  qed
  moreover have "sem_value (sems k s) + 1 = 0" if "unat (sem_value (sems k s)) = 65535"
  proof -
    have "sem_value (sems k s) = 0xffff" by (rule word_unat_eq_iff [THEN iffD2]) (simp add: that)
    then show ?thesis by simp
  qed
  ultimately show ?thesis using s by (auto simp: rt_sem_release_def)
qed

theorem rt_sem_release_correct_witness:
  "\<exists>k'. rt_sem_release 0 (example_waiting (SuspendThread (OSem 0))) = Some (RT_EOK, k') \<and>
     runnable k' 3 \<and> sem_waiters k' 0 = []"
proof -
  let ?k = "example_waiting (SuspendThread (OSem 0))"
  have "kinv ?k" by (rule kinv_example_waiting) simp
  moreover have "is_sem 0 ?k" using example_sem(1) by (simp add: example_waiting_def is_sem_def rt_object_get_type_def)
  ultimately show ?thesis
    using rt_sem_release_correct [of ?k 0] by (auto simp: example_waiting_def woken_def)
qed

section \<open>A take under the scheduler lock\<close>

text \<open>
  With the scheduler locked, a take of an empty semaphore does not wait: the thread is
  put on the wait list and marked suspended, but \<^verbatim>\<open>rt_schedule\<close> does nothing, so the thread
  runs on and the call returns \<^verbatim>\<open>RT_EOK\<close> although no permit was taken.
\<close>

theorem sem_take_under_lock:
  assumes k: "kinv k" and cur: "rt_current_thread k = Some t" and run: "tstat k t = RT_THREAD_RUNNING"
    and s: "is_sem s k" and fl: "flag (objs k (OSem s)) \<in> {RT_IPC_FLAG_FIFO, RT_IPC_FLAG_PRIO}"
    and time: "time_ok time" "time \<noteq> 0" and nest: "rt_interrupt_nest k = 0"
    and lock: "rt_scheduler_lock_nest k \<noteq> 0" and empty: "sem_value (sems k s) = 0"
  shows "\<exists>k'. rt_sem_take s time k = Some (Wait K_sem_take, k') \<and> rt_current_thread k' = Some t \<and>
    rt_sem_take_resume t k' = (Ret RT_EOK VNone, k') \<and> sem_value (sems k' s) = 0 \<and>
    t \<in> set (sem_waiters k' s) \<and> tstat k' t = RT_THREAD_SUSPEND"
proof -
  from rt_sem_take_blocks [OF k cur run s fl time nest empty] obtain k' where
    k': "rt_sem_take s time k = Some (Wait K_sem_take, k')"
      "blocked (SuspendThread (OSem s)) t (flag (objs k (OSem s))) time
        (upd_thread t (\<lambda>x. x\<lparr>error := RT_EOK\<rparr>) k) k'"
      "rt_sem_take_resume t k' = (Ret RT_EOK VNone, k')" by blast
  then show ?thesis
    using lock empty cur by (auto simp: blocked_on_def ipc_frame_def kdefs wait_insert_facts)
qed

theorem sem_take_under_lock_witness:
  "\<exists>k'. rt_sem_take 0 RT_WAITING_FOREVER (rt_enter_critical example_kernel) = Some (Wait K_sem_take, k') \<and>
     rt_sem_take_resume 1 k' = (Ret RT_EOK VNone, k') \<and> 1 \<in> set (sem_waiters k' 0)"
proof -
  let ?k = "rt_enter_critical example_kernel"
  have "kinv ?k"
    using kinv_example by (simp add: kinv_lock rt_enter_critical_def)
  from sem_take_under_lock [OF this, of 1 0 RT_WAITING_FOREVER] example_sem show ?thesis
    by (auto simp: rt_enter_critical_def is_sem_def rt_object_get_type_def time_ok_def)
qed

section \<open>Control, detach and delete\<close>

lemma rt_sem_detach_spec:
  assumes k: "kinv k" and s: "is_sem s k" and st: "rt_object_is_systemobject (OSem s) k"
  shows "returns (rt_sem_detach s k) (\<lambda>(r, k'). r = RT_EOK \<and> kinv k' \<and> \<not> is_sem s k' \<and>
    sem_waiters k' s = [] \<and> (\<forall>t \<in> set (sem_waiters k s). runnable k' t \<and>
      rt_sem_take_resume t k' = (Ret (- RT_ERROR) VNone, k')))"
proof -
  obtain k1 where k1: "rt_ipc_list_resume_all (SuspendThread (OSem s)) k = Some k1"
      "woken_all (SuspendThread (OSem s)) k k1" "kinv (rt_object_detach (OSem s) k1)"
    using ipc_destroy [OF k, of "SuspendThread (OSem s)" "OSem s"] by auto
  then show ?thesis
    using s st by (auto simp: rt_sem_detach_def woken_all_def runnable_def rt_sem_take_resume_def
        is_sem_def rt_object_get_type_def)
qed

text \<open>
  \<^verbatim>\<open>rt_sem_delete\<close> of a semaphore that threads wait for: every one of them can run
  again and its take returns \<^verbatim>\<open>-RT_ERROR\<close>, so no thread is left waiting for an object that
  no longer exists; the object is out of the container and the invariants hold.
\<close>

theorem rt_sem_delete_wakes_all:
  assumes k: "kinv k" and s: "is_sem s k" and dyn: "\<not> rt_object_is_systemobject (OSem s) k"
    and nest: "rt_interrupt_nest k = 0"
  shows "\<exists>k'. rt_sem_delete s k = Some (RT_EOK, k') \<and> kinv k' \<and> \<not> is_sem s k' \<and>
    sem_waiters k' s = [] \<and> (\<forall>t \<in> set (sem_waiters k s). runnable k' t \<and>
      rt_sem_take_resume t k' = (Ret (- RT_ERROR) VNone, k')) \<and>
    (\<forall>t. runnable k t \<longrightarrow> runnable k' t)"
proof -
  obtain k1 where k1: "rt_ipc_list_resume_all (SuspendThread (OSem s)) k = Some k1"
      "woken_all (SuspendThread (OSem s)) k k1" "kinv (rt_object_detach (OSem s) k1)"
      "rt_object_delete (OSem s) k1 = Some (rt_object_detach (OSem s) k1)"
    using ipc_destroy [OF k, of "SuspendThread (OSem s)" "OSem s"] dyn by auto
  then show ?thesis
    using s dyn nest by (auto simp: rt_sem_delete_def woken_all_def runnable_def rt_sem_take_resume_def
        is_sem_def rt_object_get_type_def RT_DEBUG_NOT_IN_INTERRUPT_def rt_interrupt_get_nest_def)
qed

text \<open>The waiting state with a semaphore that was created on the heap.\<close>

definition example_dyn_sem :: kernel where
  "example_dyn_sem = (let k = example_waiting (SuspendThread (OSem 0)) in
     k\<lparr>objs := (objs k)(OSem 0 := (objs k (OSem 0))\<lparr>otype := RT_Object_Class_Semaphore\<rparr>),
       object_list := object_list k\<rparr>)"

theorem rt_sem_delete_wakes_all_witness:
  "\<exists>k'. rt_sem_delete 0 example_dyn_sem = Some (RT_EOK, k') \<and> runnable k' 3 \<and>
     rt_sem_take_resume 3 k' = (Ret (- RT_ERROR) VNone, k')"
proof -
  have "kinv (example_waiting (SuspendThread (OSem 0)))" by (rule kinv_example_waiting) simp
  then have "kinv example_dyn_sem"
    unfolding example_dyn_sem_def Let_def by (rule kinv_object) simp
  then show ?thesis
    using rt_sem_delete_wakes_all [of example_dyn_sem 0]
    by (auto simp: example_dyn_sem_def example_waiting_def is_sem_def rt_object_get_type_def
        rt_object_is_systemobject_def Let_def)
qed

text \<open>A semaphore with waiters has no permits left; every operation keeps that.\<close>

definition sem_ok :: "kernel \<Rightarrow> nat \<Rightarrow> bool" where
  "sem_ok k s \<longleftrightarrow> (sem_waiters k s \<noteq> [] \<longrightarrow> sem_value (sems k s) = 0)"

lemma rt_sem_reset_spec:
  assumes k: "kinv k" and s: "is_sem s k" and cur: "rt_current_thread k \<noteq> None"
  shows "returns (rt_sem_control s (Ipc_reset v) k) (\<lambda>(r, k'). r = RT_EOK \<and> kinv k' \<and>
    sem_waiters k' s = [] \<and> sem_value (sems k' s) = ucast v)"
proof -
  from rt_ipc_list_resume_all_spec [OF k, of "SuspendThread (OSem s)"] obtain k1 where
    k1: "rt_ipc_list_resume_all (SuspendThread (OSem s)) k = Some k1"
      "woken_all (SuspendThread (OSem s)) k k1" by (auto elim: returnsE)
  obtain c where c: "rt_current_thread (set_sem s (ucast v) k1) = Some c"
    using cur k1(2) by (auto simp: woken_all_def)
  have "kinv (set_sem s (ucast v) k1)" using k1(2) by (simp add: woken_all_def)
  from rt_schedule_spec [OF this c] obtain k2 where
    k2: "rt_schedule (set_sem s (ucast v) k1) = Some k2" "kinv k2" "sched_frame (set_sem s (ucast v) k1) k2"
    by (auto elim: returnsE)
  then show ?thesis
    using s k1 sched_frameD(9,16) [OF k2(3)] by (simp add: rt_sem_control_def woken_all_def)
qed

end
