(* ===== verification/Heap.thy ===== *)
theory Heap
  imports Mem Memops Semaphore
begin

text \<open>
  The calls of \<^verbatim>\<open>src/mem.c\<close>: the operations on the blocks of \<^verbatim>\<open>Mem\<close> between \<^verbatim>\<open>rt_sem_take\<close> and
  \<^verbatim>\<open>rt_sem_release\<close> of the semaphore \<^verbatim>\<open>heap_sem\<close>. The state is the heap with the kernel, whose
  memory holds the contents of the blocks. A call whose take blocks has the rest of its
  body as a continuation; \<open>resume\<close> executes it when the thread runs again. Pointers are
  addresses, \<open>None\<close> is \<^verbatim>\<open>RT_NULL\<close>. The semaphore is a static object of the file; its number
  \<open>hs\<close> is an argument.
\<close>

section \<open>Operations\<close>

type_synonym hstate = "heap \<times> kernel"

datatype mem_cont =
    In_malloc u32
  | In_free u32
  | In_realloc u32 u32
  | Then_return mem_cont "u32 option"
  | Then_copy mem_cont u32 u32 u32
  | Then_zero mem_cont u32

datatype call = Done "u32 option" | Blocked mem_cont

definition rt_system_heap_init :: "nat \<Rightarrow> u32 \<Rightarrow> u32 \<Rightarrow> hstate \<Rightarrow> hstate option" where
  "rt_system_heap_init hs begin_addr end_addr = (\<lambda>(h, k). do {
     let begin_align = RT_ALIGN begin_addr RT_ALIGN_SIZE;
     let end_align = RT_ALIGN_DOWN end_addr RT_ALIGN_SIZE;
     RT_DEBUG_NOT_IN_INTERRUPT k;
     if end_align > 2 * SIZEOF_STRUCT_MEM \<and> end_align - 2 * SIZEOF_STRUCT_MEM \<ge> begin_align then do {
       let h = heap_layout begin_align end_align h;
       (_, k) \<leftarrow> rt_sem_init hs [0x68, 0x65, 0x61, 0x70] 1 RT_IPC_FLAG_FIFO k;
       Some (h\<lparr>lfree := 0\<rparr>, k)
     } else Some (h, k)
   })"

text \<open>The address range test of \<^verbatim>\<open>rt_free\<close> and \<^verbatim>\<open>rt_realloc\<close>, and the header of a pointer.\<close>

definition in_heap :: "u32 \<Rightarrow> heap \<Rightarrow> bool" where
  "in_heap a h \<longleftrightarrow> a \<ge> heap_ptr h \<and> a < heap_ptr h + heap_end h"

definition block_of :: "u32 \<Rightarrow> heap \<Rightarrow> u32" where
  "block_of a h = a - SIZEOF_STRUCT_MEM - heap_ptr h"

definition malloc_locked :: "nat \<Rightarrow> u32 \<Rightarrow> hstate \<Rightarrow> (call \<times> hstate) option" where
  "malloc_locked hs sz = (\<lambda>(h, k). do {
     (r, h) \<leftarrow> heap_malloc sz h;
     (_, k) \<leftarrow> rt_sem_release hs k;
     case r of
       None \<Rightarrow> Some (Done None, h, k)
     | Some ptr \<Rightarrow> do {
         rt_assert (malloc_asserts sz ptr h);
         Some (Done (Some (heap_ptr h + ptr + SIZEOF_STRUCT_MEM)), h, k)
       }
   })"

definition rt_malloc :: "nat \<Rightarrow> u32 \<Rightarrow> hstate \<Rightarrow> (call \<times> hstate) option" where
  "rt_malloc hs sz = (\<lambda>(h, k).
     if sz = 0 then Some (Done None, h, k)
     else do {
       RT_DEBUG_NOT_IN_INTERRUPT k;
       if RT_ALIGN sz RT_ALIGN_SIZE > mem_size_aligned h then Some (Done None, h, k)
       else do {
         (r, k) \<leftarrow> rt_sem_take hs RT_WAITING_FOREVER k;
         case r of
           Wait _ \<Rightarrow> Some (Blocked (In_malloc (malloc_size sz)), h, k)
         | Ret _ _ \<Rightarrow> malloc_locked hs (malloc_size sz) (h, k)
       }
     })"

definition free_locked :: "nat \<Rightarrow> u32 \<Rightarrow> hstate \<Rightarrow> (call \<times> hstate) option" where
  "free_locked hs a = (\<lambda>(h, k). do {
     h \<leftarrow> heap_free (block_of a h) h;
     (_, k) \<leftarrow> rt_sem_release hs k;
     Some (Done None, h, k)
   })"

definition rt_free :: "nat \<Rightarrow> u32 option \<Rightarrow> hstate \<Rightarrow> (call \<times> hstate) option" where
  "rt_free hs rmem = (\<lambda>(h, k).
     case rmem of
       None \<Rightarrow> Some (Done None, h, k)
     | Some a \<Rightarrow> do {
         RT_DEBUG_NOT_IN_INTERRUPT k;
         rt_assert (a AND (RT_ALIGN_SIZE - 1) = 0);
         rt_assert (in_heap a h);
         (r, k) \<leftarrow> rt_sem_take hs RT_WAITING_FOREVER k;
         case r of
           Wait _ \<Rightarrow> Some (Blocked (In_free a), h, k)
         | Ret _ _ \<Rightarrow> free_locked hs a (h, k)
       })"

text \<open>
  What \<^verbatim>\<open>rt_realloc\<close> and \<^verbatim>\<open>rt_calloc\<close> do after the calls they make: return a value, copy the
  contents and free the old block, clear the block.
\<close>

definition after_call :: "(mem_cont \<Rightarrow> mem_cont) \<Rightarrow> (u32 option \<Rightarrow> hstate \<Rightarrow> (call \<times> hstate) option) \<Rightarrow>
    (call \<times> hstate) option \<Rightarrow> (call \<times> hstate) option" where
  "after_call wrap f m = do {
     (r, s) \<leftarrow> m;
     case r of Done p \<Rightarrow> f p s | Blocked c \<Rightarrow> Some (Blocked (wrap c), s)
   }"

definition then_return :: "u32 option \<Rightarrow> (call \<times> hstate) option \<Rightarrow> (call \<times> hstate) option" where
  "then_return r = after_call (\<lambda>c. Then_return c r) (\<lambda>_ s. Some (Done r, s))"

definition then_copy :: "nat \<Rightarrow> u32 \<Rightarrow> u32 \<Rightarrow> u32 \<Rightarrow> (call \<times> hstate) option \<Rightarrow> (call \<times> hstate) option" where
  "then_copy hs rmem sz newsize = after_call (\<lambda>c. Then_copy c rmem sz newsize) (\<lambda>nmem (h, k).
     case nmem of
       None \<Rightarrow> Some (Done None, h, k)
     | Some n \<Rightarrow>
         (let k = k\<lparr>mem := rt_memcpy n rmem (unat (if sz < newsize then sz else newsize)) (mem k)\<rparr>
          in then_return nmem (rt_free hs (Some rmem) (h, k))))"

definition then_zero :: "u32 \<Rightarrow> (call \<times> hstate) option \<Rightarrow> (call \<times> hstate) option" where
  "then_zero n = after_call (\<lambda>c. Then_zero c n) (\<lambda>p (h, k).
     case p of
       None \<Rightarrow> Some (Done None, h, k)
     | Some a \<Rightarrow> Some (Done (Some a), h, k\<lparr>mem := rt_memset a 0 (unat n) (mem k)\<rparr>))"

definition realloc_locked :: "nat \<Rightarrow> u32 \<Rightarrow> u32 \<Rightarrow> hstate \<Rightarrow> (call \<times> hstate) option" where
  "realloc_locked hs rmem newsize = (\<lambda>(h, k).
     if \<not> in_heap rmem h then do {
       (_, k) \<leftarrow> rt_sem_release hs k;
       Some (Done (Some rmem), h, k)
     } else do {
       let ptr = block_of rmem h;
       let sz = hnext (hdr h ptr) - ptr - SIZEOF_STRUCT_MEM;
       if sz = newsize then do {
         (_, k) \<leftarrow> rt_sem_release hs k;
         Some (Done (Some rmem), h, k)
       } else if newsize + SIZEOF_STRUCT_MEM + MIN_SIZE_ALIGNED < sz then do {
         h \<leftarrow> heap_shrink newsize ptr h;
         (_, k) \<leftarrow> rt_sem_release hs k;
         Some (Done (Some rmem), h, k)
       } else do {
         (_, k) \<leftarrow> rt_sem_release hs k;
         then_copy hs rmem sz newsize (rt_malloc hs newsize (h, k))
       }
     })"

definition rt_realloc :: "nat \<Rightarrow> u32 option \<Rightarrow> u32 \<Rightarrow> hstate \<Rightarrow> (call \<times> hstate) option" where
  "rt_realloc hs rmem newsize = (\<lambda>(h, k). do {
     RT_DEBUG_NOT_IN_INTERRUPT k;
     let newsize = RT_ALIGN newsize RT_ALIGN_SIZE;
     if newsize > mem_size_aligned h then Some (Done None, h, k)
     else if newsize = 0 then then_return None (rt_free hs rmem (h, k))
     else (case rmem of
         None \<Rightarrow> rt_malloc hs newsize (h, k)
       | Some a \<Rightarrow> do {
           (r, k) \<leftarrow> rt_sem_take hs RT_WAITING_FOREVER k;
           case r of
             Wait _ \<Rightarrow> Some (Blocked (In_realloc a newsize), h, k)
           | Ret _ _ \<Rightarrow> realloc_locked hs a newsize (h, k)
         })
   })"

definition rt_calloc :: "nat \<Rightarrow> u32 \<Rightarrow> u32 \<Rightarrow> hstate \<Rightarrow> (call \<times> hstate) option" where
  "rt_calloc hs count sz s = then_zero (count * sz) (rt_malloc hs (count * sz) s)"

text \<open>The rest of a call that blocked, executed when its thread runs again.\<close>

primrec resume :: "nat \<Rightarrow> mem_cont \<Rightarrow> hstate \<Rightarrow> (call \<times> hstate) option" where
  "resume hs (In_malloc sz) s = malloc_locked hs sz s"
| "resume hs (In_free a) s = free_locked hs a s"
| "resume hs (In_realloc a newsize) s = realloc_locked hs a newsize s"
| "resume hs (Then_return c r) s = then_return r (resume hs c s)"
| "resume hs (Then_copy c a sz newsize) s = then_copy hs a sz newsize (resume hs c s)"
| "resume hs (Then_zero c n) s = then_zero n (resume hs c s)"

section \<open>The semaphore is free\<close>

text \<open>
  No call is between its take and its release. Then a call takes the semaphore and gives it
  back, and the kernel is as before.
\<close>

definition heap_sem_free :: "nat \<Rightarrow> kernel \<Rightarrow> bool" where
  "heap_sem_free hs k \<longleftrightarrow> is_sem hs k \<and> sem_value (sems k hs) = 1 \<and> sem_waiters k hs = [] \<and> rt_interrupt_nest k = 0"

lemma take_release:
  assumes "heap_sem_free hs k"
  shows "rt_sem_take hs RT_WAITING_FOREVER k = Some (Ret RT_EOK VNone, set_sem hs 0 k)"
    and "rt_sem_release hs (set_sem hs 0 k) = Some (RT_EOK, k)"
    and "RT_DEBUG_NOT_IN_INTERRUPT k = Some ()"
  using assms by (simp_all add: heap_sem_free_def rt_sem_take_def rt_sem_release_def is_sem_def
      rt_object_get_type_def set_sem_same RT_DEBUG_NOT_IN_INTERRUPT_def rt_interrupt_get_nest_def)

lemma rt_malloc_free_sem:
  assumes "heap_sem_free hs k"
  shows "rt_malloc hs sz (h, k) =
    (if sz = 0 \<or> RT_ALIGN sz 4 > mem_size_aligned h then Some (Done None, h, k)
     else do {
       (r, h) \<leftarrow> heap_malloc (malloc_size sz) h;
       case r of None \<Rightarrow> Some (Done None, h, k)
       | Some a \<Rightarrow> do {
           rt_assert (malloc_asserts (malloc_size sz) a h);
           Some (Done (Some (heap_ptr h + a + 12)), h, k)
         }
     })"
  by (cases "heap_malloc (malloc_size sz) h")
    (auto simp: rt_malloc_def malloc_locked_def take_release [OF assms] split: option.split)

lemma rt_free_free_sem:
  assumes "heap_sem_free hs k"
  shows "rt_free hs (Some a) (h, k) = do {
    rt_assert (a AND 3 = 0);
    rt_assert (in_heap a h);
    h \<leftarrow> heap_free (block_of a h) h;
    Some (Done None, h, k)
  }"
  by (cases "heap_free (block_of a h) h")
    (auto simp: rt_free_def free_locked_def take_release [OF assms] rt_assert_def)

lemma block_of_address [simp]: "block_of (heap_ptr h + a + 12) h = a"
  by (simp add: block_of_def)

lemma rt_system_heap_init_spec:
  assumes r: "RT_ALIGN b 4 = b'" "RT_ALIGN_DOWN e 4 = e'" and g: "unat b' + 36 \<le> unat e'"
    and u: "used_mem h = 0" and n: "rt_interrupt_nest k = 0"
  obtains h1 k1 where "rt_system_heap_init hs b e (h, k) = Some (h1, k1)" and "heap_sem_free hs k1"
    and "heap_inv h1 [0]" and "lowest h1 [0]" and "free h1 0" and "h1 = (heap_layout b' e' h)\<lparr>lfree := 0\<rparr>"
proof -
  have "\<exists>k1. rt_sem_init hs [0x68, 0x65, 0x61, 0x70] 1 RT_IPC_FLAG_FIFO k = Some (RT_EOK, k1) \<and> heap_sem_free hs k1"
    using n by (auto simp: rt_sem_init_def rt_object_init_def rt_object_container_def Let_def heap_sem_free_def
        is_sem_def rt_object_get_type_def kdefs rt_ipc_object_init_def set_sem_def)
  then obtain k1 where k1: "rt_sem_init hs [0x68, 0x65, 0x61, 0x70] 1 RT_IPC_FLAG_FIFO k = Some (RT_EOK, k1)"
    "heap_sem_free hs k1" by blast
  have a: "b' mod 4 = 0" "e' mod 4 = 0"
    using RT_ALIGN_mod [of b] RT_ALIGN_DOWN_mod [of e] r by simp_all
  have "e' > 24" "e' - 24 \<ge> b'" using g by (auto simp: word_less_nat_alt word_le_nat_alt unat_sub)
  then have "rt_system_heap_init hs b e (h, k) = Some ((heap_layout b' e' h)\<lparr>lfree := 0\<rparr>, k1)"
    using k1(1) n r by (simp add: rt_system_heap_init_def RT_DEBUG_NOT_IN_INTERRUPT_def rt_interrupt_get_nest_def)
  then show ?thesis using that k1(2) heap_layout_spec [OF a g u] by simp
qed

section \<open>Allocation and release\<close>

definition heap_get :: "nat \<Rightarrow> u32 \<Rightarrow> hstate \<Rightarrow> (u32 option \<times> hstate) option" where
  "heap_get hs sz s = (case rt_malloc hs sz s of Some (Done p, s') \<Rightarrow> Some (p, s') | _ \<Rightarrow> None)"

definition heap_put :: "nat \<Rightarrow> u32 \<Rightarrow> hstate \<Rightarrow> hstate option" where
  "heap_put hs a s = (case rt_free hs (Some a) s of Some (Done p, s') \<Rightarrow> Some s' | _ \<Rightarrow> None)"

definition heap_ok :: "nat \<Rightarrow> hstate \<Rightarrow> bool" where
  "heap_ok hs = (\<lambda>(h, k). (\<exists>bs. heap_inv h bs) \<and> heap_sem_free hs k)"

definition heap_used :: "hstate \<Rightarrow> u32 set" where
  "heap_used = (\<lambda>(h, k). {heap_ptr h + a + 12 |a. \<exists>bs. heap_inv h bs \<and> a \<in> taken h bs})"

lemma heap_inv_unique: "heap_inv h bs \<Longrightarrow> heap_inv h bs' \<Longrightarrow> bs' = bs"
  using linked_unique by (metis heap_chainD(1) heap_inv_def)

lemma heap_used_eq:
  assumes "heap_inv h bs"
  shows "heap_used (h, k) = (\<lambda>a. heap_ptr h + a + 12) ` taken h bs"
proof -
  have "(\<exists>bs'. heap_inv h bs' \<and> a \<in> taken h bs') \<longleftrightarrow> a \<in> taken h bs" for a
    using heap_inv_unique [OF assms] assms by metis
  then show ?thesis by (auto simp: heap_used_def)
qed

text \<open>Both calls on a heap that no other call holds.\<close>

lemma rt_malloc_spec:
  assumes i: "heap_inv h bs" and s: "heap_sem_free hs k" and z0: "sz \<noteq> 0" "RT_ALIGN sz 4 \<le> mem_size_aligned h"
  shows "List.find (fits h (malloc_size sz)) (from_lfree h bs) = None \<Longrightarrow> rt_malloc hs sz (h, k) = Some (Done None, h, k)"
    and "List.find (fits h (malloc_size sz)) (from_lfree h bs) = Some a \<Longrightarrow>
      \<exists>h' bs'. rt_malloc hs sz (h, k) = Some (Done (Some (heap_ptr h + a + 12)), h', k) \<and>
        handed h bs (malloc_size sz) a h' bs' \<and> a \<in> set bs \<and> a \<notin> taken h bs"
proof -
  from i have c: "heap_chain h bs" by (simp add: heap_inv_def)
  note z = malloc_size_facts [OF z0(2) heap_chainD(4) [OF c]]
  obtain r h' where m: "heap_malloc (malloc_size sz) h = Some (r, h')"
    "r = List.find (fits h (malloc_size sz)) (from_lfree h bs)"
    "case r of None \<Rightarrow> h' = h | Some a \<Rightarrow> a \<in> set bs \<and> fits h (malloc_size sz) a \<and> (\<exists>bs'. handed h bs (malloc_size sz) a h' bs')"
    using heap_malloc_spec [OF i z(1,2,3)] by (auto elim!: returnsE)
  show "rt_malloc hs sz (h, k) = Some (Done None, h, k)"
    if "List.find (fits h (malloc_size sz)) (from_lfree h bs) = None"
    using that m z0 by (simp add: rt_malloc_free_sem [OF s] not_less)
  show "\<exists>h' bs'. rt_malloc hs sz (h, k) = Some (Done (Some (heap_ptr h + a + 12)), h', k) \<and>
      handed h bs (malloc_size sz) a h' bs' \<and> a \<in> set bs \<and> a \<notin> taken h bs"
    if f: "List.find (fits h (malloc_size sz)) (from_lfree h bs) = Some a"
  proof -
    obtain bs' where a: "a \<in> set bs" "fits h (malloc_size sz) a" "handed h bs (malloc_size sz) a h' bs'"
      using m(2,3) f by auto
    then have "rt_malloc hs sz (h, k) = Some (Done (Some (heap_ptr h + a + 12)), h', k)"
      using m(1,2) f z0 handed_asserts [OF a(3)]
      by (simp add: rt_malloc_free_sem [OF s] not_less handed_def bounds_kept_def)
    moreover have "a \<notin> taken h bs" using a(2) by (simp add: fits_def taken_def)
    ultimately show ?thesis using a by blast
  qed
qed

lemma taken_in_heap:
  assumes "heap_inv h bs" and "a \<in> taken h bs"
  shows "in_heap (heap_ptr h + a + 12) h" and "(heap_ptr h + a + 12) mod 4 = 0"
proof -
  have c: "heap_chain h bs" and "a \<in> set bs" using assms by (simp_all add: heap_inv_def taken_def)
  note b = block_address [OF this]
  show "in_heap (heap_ptr h + a + 12) h" using b by (simp add: in_heap_def word_le_nat_alt word_less_nat_alt)
  show "(heap_ptr h + a + 12) mod 4 = 0" by (rule b(3))
qed

lemma rt_free_spec:
  assumes i: "heap_inv h bs" and s: "heap_sem_free hs k" and a: "a \<in> taken h bs"
  shows "\<exists>h' bs'. rt_free hs (Some (heap_ptr h + a + 12)) (h, k) = Some (Done None, h', k) \<and>
    heap_inv h' bs' \<and> heap_ptr h' = heap_ptr h \<and> taken h' bs' = taken h bs - {a} \<and>
    (\<forall>x \<in> taken h' bs'. hnext (hdr h' x) = hnext (hdr h x))"
proof -
  obtain h' bs' where h': "heap_free a h = Some h'" "heap_inv h' bs'" "heap_ptr h' = heap_ptr h"
    "taken h' bs' = taken h bs - {a}" "\<forall>x \<in> taken h' bs'. hnext (hdr h' x) = hnext (hdr h x)"
    using heap_free_spec [OF i a] unfolding bounds_kept_def by (elim returnsE) blast
  then have "rt_free hs (Some (heap_ptr h + a + 12)) (h, k) = Some (Done None, h', k)"
    using taken_in_heap [OF i a] by (simp add: rt_free_free_sem [OF s] and3_word)
  then show ?thesis using h' by blast
qed

lemma heap_get_spec:
  assumes i: "heap_inv h bs" and s: "heap_sem_free hs k"
  shows "returns (heap_get hs sz (h, k)) (\<lambda>(r, s'). heap_ok hs s' \<and> heap_ptr (fst s') = heap_ptr h \<and>
    (case r of None \<Rightarrow> heap_used s' = heap_used (h, k)
     | Some x \<Rightarrow> x \<notin> heap_used (h, k) \<and> heap_used s' = insert x (heap_used (h, k))))"
proof -
  have none: ?thesis if "rt_malloc hs sz (h, k) = Some (Done None, h, k)"
    using that i s by (auto simp: heap_get_def heap_ok_def)
  show ?thesis
  proof (cases "sz = 0 \<or> RT_ALIGN sz 4 > mem_size_aligned h")
    case True
    then show ?thesis using none by (auto simp: rt_malloc_free_sem [OF s])
  next
    case False
    then have z: "sz \<noteq> 0" "RT_ALIGN sz 4 \<le> mem_size_aligned h" by (simp_all add: not_less)
    show ?thesis
    proof (cases "List.find (fits h (malloc_size sz)) (from_lfree h bs)")
      case None
      then show ?thesis using none rt_malloc_spec(1) [OF i s z] by blast
    next
      case (Some a)
      from rt_malloc_spec(2) [OF i s z this] obtain h' bs' where
        m: "rt_malloc hs sz (h, k) = Some (Done (Some (heap_ptr h + a + 12)), h', k)"
          "handed h bs (malloc_size sz) a h' bs'" "a \<notin> taken h bs" by blast
      then have b: "heap_inv h' bs'" "heap_ptr h' = heap_ptr h" "taken h' bs' = insert a (taken h bs)"
        by (simp_all add: handed_def bounds_kept_def)
      then show ?thesis using m s heap_used_eq [OF i] heap_used_eq [OF b(1)]
        by (auto simp: heap_ok_def heap_get_def)
    qed
  qed
qed

lemma heap_put_spec:
  assumes i: "heap_inv h bs" and s: "heap_sem_free hs k" and a: "a \<in> taken h bs"
  shows "returns (heap_put hs (heap_ptr h + a + 12) (h, k)) (\<lambda>s'. heap_ok hs s' \<and> heap_ptr (fst s') = heap_ptr h \<and>
    heap_used s' = heap_used (h, k) - {heap_ptr h + a + 12})"
proof -
  from rt_free_spec [OF i s a] obtain h' bs' where
    h': "rt_free hs (Some (heap_ptr h + a + 12)) (h, k) = Some (Done None, h', k)"
      "heap_inv h' bs'" "heap_ptr h' = heap_ptr h" "taken h' bs' = taken h bs - {a}" by blast
  then show ?thesis using s heap_used_eq [OF i] heap_used_eq [OF h'(2)]
    by (auto simp: heap_put_def heap_ok_def)
qed

interpretation hp: allocator "\<lambda>s. heap_ok hs s \<and> heap_ptr (fst s) = b" heap_used "heap_get hs" "heap_put hs"
  for hs b
proof unfold_locales
  show "returns (heap_get hs r s) (\<lambda>(x, s'). (heap_ok hs s' \<and> heap_ptr (fst s') = b) \<and>
      (case x of None \<Rightarrow> heap_used s' = heap_used s
      | Some x \<Rightarrow> x \<notin> heap_used s \<and> heap_used s' = insert x (heap_used s)))"
    if "heap_ok hs s \<and> heap_ptr (fst s) = b" for s r
  proof -
    obtain h k where s: "s = (h, k)" by (cases s)
    from that s obtain bs where "heap_inv h bs" "heap_sem_free hs k" by (auto simp: heap_ok_def)
    from heap_get_spec [OF this, of r] that s show ?thesis by (auto elim!: returns_mono)
  qed
  show "returns (heap_put hs x s) (\<lambda>s'. (heap_ok hs s' \<and> heap_ptr (fst s') = b) \<and> heap_used s' = heap_used s - {x})"
    if "heap_ok hs s \<and> heap_ptr (fst s) = b" "x \<in> heap_used s" for s x
  proof -
    obtain h k where s: "s = (h, k)" by (cases s)
    from that s obtain bs a where "heap_inv h bs" "heap_sem_free hs k" "a \<in> taken h bs" "x = heap_ptr h + a + 12"
      by (auto simp: heap_ok_def heap_used_def)
    from heap_put_spec [OF this(1,2,3)] this(4) that(1) s show ?thesis
      by (auto elim!: returns_mono)
  qed
qed

text \<open>
  C5. For every sequence of \<^verbatim>\<open>rt_malloc\<close> and \<^verbatim>\<open>rt_free\<close> calls on the heap that
  \<^verbatim>\<open>rt_system_heap_init\<close> sets up, by a client that frees only what it holds: every call returns,
  no address is handed out while it is held, the blocks in use are exactly those held and do
  not overlap, and when all is given back the heap is one free block again and no byte is
  counted as used.
\<close>

theorem heap_never_shared:
  assumes "unat (RT_ALIGN b 4) + 36 \<le> unat (RT_ALIGN_DOWN e 4)" and "used_mem h0 = 0" and "rt_interrupt_nest k0 = 0"
  shows "\<exists>h k held h' k' bs. rt_system_heap_init hs b e (h0, k0) = Some (h, k) \<and>
    alloc_run (heap_get hs) (heap_put hs) ops [] (h, k) = Some (held, h', k') \<and>
    heap_inv h' bs \<and> distinct held \<and> set held = (\<lambda>a. heap_ptr h' + a + 12) ` taken h' bs \<and>
    (\<forall>x \<in> taken h' bs. \<forall>y \<in> taken h' bs. x \<noteq> y \<longrightarrow> hnext (hdr h' x) \<le> y \<or> hnext (hdr h' y) \<le> x) \<and>
    (held = [] \<longrightarrow> bs = [0] \<and> used_mem h' = 0)"
proof -
  obtain h k where i: "rt_system_heap_init hs b e (h0, k0) = Some (h, k)" "heap_sem_free hs k"
      "heap_inv h [0]" "free h 0"
    by (rule rt_system_heap_init_spec [OF refl refl assms, of hs])
  have "heap_used (h, k) = {}" using heap_used_eq [OF i(3)] i(4) by (simp add: taken_def)
  moreover have "heap_ok hs (h, k)" using i by (auto simp: heap_ok_def)
  ultimately have "returns (alloc_run (heap_get hs) (heap_put hs) ops [] (h, k))
      (\<lambda>(held', s'). (heap_ok hs s' \<and> heap_ptr (fst s') = heap_ptr h) \<and> distinct held' \<and> set held' = heap_used s')"
    by (intro hp.alloc_run_distinct) simp_all
  then obtain held h' k' where r: "alloc_run (heap_get hs) (heap_put hs) ops [] (h, k) = Some (held, h', k')"
      "heap_ok hs (h', k')" "distinct held" "set held = heap_used (h', k')"
    by (auto elim!: returnsE)
  from r(2) obtain bs where bs: "heap_inv h' bs" by (auto simp: heap_ok_def)
  then have c: "heap_chain h' bs" "accounted h' bs" "spaced h' bs" by (simp_all add: heap_inv_def)
  note d = heap_chainD [OF c(1)]
  have "\<forall>x \<in> taken h' bs. \<forall>y \<in> taken h' bs. x \<noteq> y \<longrightarrow> hnext (hdr h' x) \<le> y \<or> hnext (hdr h' y) \<le> x"
    using linked_disjoint [OF d(1)] by (auto simp: taken_def)
  moreover have "set held = (\<lambda>a. heap_ptr h' + a + 12) ` taken h' bs"
    using r(4) heap_used_eq [OF bs] by simp
  moreover have "bs = [0] \<and> used_mem h' = 0" if "held = []"
  proof -
    have "taken h' bs = {}" using that r(4) heap_used_eq [OF bs] by simp
    then have f: "\<And>x. x \<in> set bs \<Longrightarrow> free h' x" by (auto simp: taken_def)
    have b: "bs = [0]" by (rule linked_whole [OF d(1,2) c(3) f])
    then show ?thesis using c(2) f by (simp add: accounted_def block_bytes_def)
  qed
  ultimately show ?thesis using i(1) r(1,3) bs by blast
qed

definition example_heap :: heap where
  "example_heap = \<lparr>hdr = (\<lambda>_. \<lparr>magic = 0, used = 0, hnext = 0, hprev = 0\<rparr>), heap_ptr = 0, lfree = 0,
     mem_size_aligned = 0, used_mem = 0, max_mem = 0\<rparr>"

theorem heap_never_shared_witness:
  "\<exists>h k held h' k'. rt_system_heap_init 7 0x20000001 0x20001002 (example_heap, example_kernel) = Some (h, k) \<and>
    alloc_run (heap_get 7) (heap_put 7) [Alloc 100, Alloc 3, Free 0x20000010, Alloc 60] [] (h, k) = Some (held, h', k') \<and>
    distinct held"
proof -
  have "unat (RT_ALIGN 0x20000001 4) + 36 \<le> unat (RT_ALIGN_DOWN 0x20001002 4)"
    by (simp add: RT_ALIGN_def RT_ALIGN_DOWN_def)
  moreover have "used_mem example_heap = 0" by (simp add: example_heap_def)
  moreover have "rt_interrupt_nest example_kernel = 0" by simp
  ultimately show ?thesis
    using heap_never_shared [of "0x20000001" "0x20001002" example_heap example_kernel 7] by blast
qed


lemma example_heap_init:
  obtains h k where "rt_system_heap_init 7 0x20000000 0x20001000 (example_heap, example_kernel) = Some (h, k)"
    and "heap_sem_free 7 k" and "heap_inv h [0]" and "lowest h [0]" and "free h 0" and "heap_ptr h = 0x20000000"
    and "mem_size_aligned h = 0xfe8" and "hnext (hdr h 0) = 0xff4"
proof -
  have g: "unat (0x20000000 :: u32) + 36 \<le> unat (0x20001000 :: u32)" by simp
  have "RT_ALIGN 0x20000000 4 = (0x20000000 :: u32)" "RT_ALIGN_DOWN 0x20001000 4 = (0x20001000 :: u32)"
    by (simp_all add: RT_ALIGN_def RT_ALIGN_DOWN_def)
  note r = rt_system_heap_init_spec [OF this g, of example_heap example_kernel 7]
  have "used_mem example_heap = 0" "rt_interrupt_nest example_kernel = 0" by (simp_all add: example_heap_def)
  from r [OF this] obtain h k where
    i: "rt_system_heap_init 7 0x20000000 0x20001000 (example_heap, example_kernel) = Some (h, k)"
      "heap_sem_free 7 k" "heap_inv h [0]" "lowest h [0]" "free h 0"
    and h: "h = (heap_layout 0x20000000 0x20001000 example_heap)\<lparr>lfree := 0\<rparr>" by blast
  have "heap_ptr h = 0x20000000" "mem_size_aligned h = 0xfe8" "hnext (hdr h 0) = 0xff4"
    by (simp_all add: h heap_layout_def upd_hdr_def Let_def heap_end_def)
  with i that show thesis by blast
qed


section \<open>Resizing\<close>

lemma heap_sem_free_mem: "heap_sem_free hs (k\<lparr>mem := m\<rparr>) = heap_sem_free hs k"
  by (simp add: heap_sem_free_def is_sem_def rt_object_get_type_def)

lemma rt_realloc_free_sem:
  assumes s: "heap_sem_free hs k" and n: "n = RT_ALIGN sz 4" "n \<noteq> 0" "n \<le> mem_size_aligned h"
    and a: "in_heap (heap_ptr h + a + 12) h" and old: "old = hnext (hdr h a) - a - 12"
  shows "rt_realloc hs (Some (heap_ptr h + a + 12)) sz (h, k) =
    (if old = n then Some (Done (Some (heap_ptr h + a + 12)), h, k)
     else if n + 12 + 12 < old then do {
       h' \<leftarrow> heap_shrink n a h;
       Some (Done (Some (heap_ptr h + a + 12)), h', k)
     } else then_copy hs (heap_ptr h + a + 12) old n (rt_malloc hs n (h, k)))"
  using a n old
  by (cases "heap_shrink n a h")
    (auto simp: rt_realloc_def realloc_locked_def take_release [OF s] Let_def not_less)

lemma RT_ALIGN_idem: "RT_ALIGN (RT_ALIGN sz 4) 4 = RT_ALIGN sz 4"
proof -
  let ?n = "RT_ALIGN sz 4"
  obtain m where m: "unat ?n = 4 * m" using RT_ALIGN_mod [of sz] dvd4_word [of ?n] by (auto elim: dvdE)
  have "unat ?n < 2 ^ 32" using unsigned_less [of ?n, where 'a = nat] by simp
  then have "unat ?n + 3 < 2 ^ 32" using m by simp
  from RT_ALIGN_4(1) [OF this] m have "unat (RT_ALIGN ?n 4) = unat ?n" by simp
  then show ?thesis by (simp only: word_unat_eq_iff)
qed

text \<open>Moving a block: the contents are copied to the new block and the old one is released.\<close>

lemma then_copy_spec:
  assumes i: "heap_inv h bs" and s: "heap_sem_free hs k" and ab: "a \<in> taken h bs" "b \<in> taken h bs" "a \<noteq> b"
    and old: "old \<le> hnext (hdr h a) - a - 12" and room: "n \<le> hnext (hdr h b) - (b + 12)"
  shows "\<exists>h' bs'. then_copy hs (heap_ptr h + a + 12) old n (Some (Done (Some (heap_ptr h + b + 12)), h, k)) =
      Some (Done (Some (heap_ptr h + b + 12)), h',
        k\<lparr>mem := copy (heap_ptr h + b + 12) (heap_ptr h + a + 12) (min (unat old) (unat n)) (mem k)\<rparr>) \<and>
    heap_inv h' bs' \<and> taken h' bs' = taken h bs - {a} \<and> (\<forall>x \<in> taken h' bs'. hnext (hdr h' x) = hnext (hdr h x))"
proof -
  let ?len = "min (unat old) (unat n)"
  let ?k = "k\<lparr>mem := copy (heap_ptr h + b + 12) (heap_ptr h + a + 12) ?len (mem k)\<rparr>"
  have c: "heap_chain h bs" using i by (simp add: heap_inv_def)
  note d = heap_chainD [OF c]
  have ab': "a \<in> set bs" "b \<in> set bs" using ab by (simp_all add: taken_def)
  note A = block_space [OF d(1) ab'(1)] and B = block_space [OF d(1) ab'(2)]
  note pa = block_address(1) [OF c ab'(1)] and pb = block_address(1) [OF c ab'(2)]
  have la: "unat a + 12 + ?len \<le> unat (hnext (hdr h a))"
    using old A by (simp add: word_le_nat_alt diff_diff_eq)
  have lb: "unat b + 12 + ?len \<le> unat (hnext (hdr h b))"
    using room B by (simp add: word_le_nat_alt)
  have e: "unat (heap_ptr h) + unat (heap_end h) < 2 ^ 32" using d(3) unat_heap_end [OF c] by simp
  have "forward_ok (heap_ptr h + b + 12) (heap_ptr h + a + 12) ?len"
  proof (cases "hnext (hdr h a) \<le> b")
    case True
    then show ?thesis
      by (intro forward_ok_disjoint) (use pa pb la lb e A(4) B(4) in \<open>simp_all add: word_le_nat_alt\<close>)
  next
    case False
    then have "hnext (hdr h b) \<le> a" using linked_disjoint [OF d(1) ab' ab(3)] by simp
    then show ?thesis
      by (intro forward_ok_below) (use pa pb la lb e A(4) B(4) in \<open>simp_all add: word_le_nat_alt\<close>)
  qed
  moreover have "?len < 2 ^ 32" using unsigned_less [of old, where 'a = nat] by simp
  ultimately have "rt_memcpy (heap_ptr h + b + 12) (heap_ptr h + a + 12) ?len (mem k) =
      copy (heap_ptr h + b + 12) (heap_ptr h + a + 12) ?len (mem k)"
    by (simp add: rt_memcpy_bytes memcpy_bytes_copy)
  moreover have "unat (if old < n then old else n) = ?len" by (simp add: word_less_nat_alt)
  moreover have "heap_sem_free hs ?k" using s by (simp add: heap_sem_free_mem)
  from rt_free_spec [OF i this ab(1)] obtain h' bs' where
    "rt_free hs (Some (heap_ptr h + a + 12)) (h, ?k) = Some (Done None, h', ?k)" "heap_inv h' bs'"
    "taken h' bs' = taken h bs - {a}" "\<forall>x \<in> taken h' bs'. hnext (hdr h' x) = hnext (hdr h x)" by blast
  ultimately show ?thesis by (auto simp: then_copy_def after_call_def then_return_def)
qed

text \<open>A free block below \<open>lfree\<close> is given to no request.\<close>

lemma rt_malloc_not_below:
  assumes i: "heap_inv h bs" and s: "heap_sem_free hs k" and b: "b < lfree h"
  shows "rt_malloc hs sz (h, k) \<noteq> Some (Done (Some (heap_ptr h + b + 12)), s')"
proof
  assume m: "rt_malloc hs sz (h, k) = Some (Done (Some (heap_ptr h + b + 12)), s')"
  then have z: "sz \<noteq> 0" "RT_ALIGN sz 4 \<le> mem_size_aligned h"
    by (auto simp: rt_malloc_free_sem [OF s] not_less split: if_splits)
  obtain a where f: "List.find (fits h (malloc_size sz)) (from_lfree h bs) = Some a"
    using rt_malloc_spec(1) [OF i s z] m by fastforce
  then have "a = b" using rt_malloc_spec(2) [OF i s z f] m by auto
  moreover have "a \<in> set (from_lfree h bs)" using f by (auto simp: find_Some_iff)
  ultimately show False using from_lfree_ge i b by (fastforce simp: heap_inv_def)
qed

lemma next_block:
  assumes c: "heap_chain h bs" and a: "a \<in> set bs" and l: "a < lfree h"
  shows "hnext (hdr h a) \<le> lfree h"
proof -
  note d = heap_chainD [OF c]
  from d(6) show ?thesis
  proof
    assume "lfree h \<in> set bs"
    then show ?thesis
      using linked_disjoint [OF d(1) a, of "lfree h"] l block_space(3) [OF d(1), of "lfree h"]
      by (fastforce simp: word_less_nat_alt word_le_nat_alt)
  next
    assume "lfree h \<in> {heap_end h}"
    then show ?thesis using block_space(4) [OF d(1) a] by (simp add: word_le_nat_alt)
  qed
qed

lemma old_size:
  assumes c: "heap_chain h bs" and a: "a \<in> set bs" and old: "old = hnext (hdr h a) - a - 12"
  shows "unat old = unat (hnext (hdr h a)) - unat a - 12" and "unat a + 12 + unat old = unat (hnext (hdr h a))"
    and "n \<le> mem_size_aligned h \<Longrightarrow> n + 12 + 12 < old \<longleftrightarrow> unat n + 24 < unat old"
proof -
  note d = heap_chainD [OF c]
  note A = block_space [OF d(1) a]
  show 1: "unat old = unat (hnext (hdr h a)) - unat a - 12" using A(1) by (simp add: old diff_diff_eq)
  then show "unat a + 12 + unat old = unat (hnext (hdr h a))" using A(3) by simp
  show "n + 12 + 12 < old \<longleftrightarrow> unat n + 24 < unat old" if "n \<le> mem_size_aligned h"
  proof -
    have "unat n + 24 < 2 ^ 32" using that d(3) by (simp add: word_le_nat_alt)
    then have "unat (n + 12 + 12) = unat n + 24" by (simp add: unat_word_ariths)
    then show ?thesis by (simp only: word_less_nat_alt)
  qed
qed

lemma RT_ALIGN_pos:
  assumes "RT_ALIGN sz 4 \<noteq> 0"
  shows "4 \<le> unat (RT_ALIGN sz 4)" and "4 dvd unat (RT_ALIGN sz 4)"
proof -
  show "4 dvd unat (RT_ALIGN sz 4)" using RT_ALIGN_mod [of sz] dvd4_word by simp
  moreover have "unat (RT_ALIGN sz 4) \<noteq> 0" using assms by (simp add: word_unat_eq_iff)
  ultimately show "4 \<le> unat (RT_ALIGN sz 4)" by (auto intro: dvd_imp_le)
qed

lemma rt_realloc_shrinks:
  assumes i: "heap_inv h bs" and s: "heap_sem_free hs k" and a: "a \<in> taken h bs"
    and n: "n = RT_ALIGN sz 4" "n \<noteq> 0" "n \<le> mem_size_aligned h"
    and p: "p = heap_ptr h + a + 12" and old: "old = hnext (hdr h a) - a - 12"
    and g: "unat n + 24 < unat old"
  shows "\<exists>h' bs'. rt_realloc hs (Some p) sz (h, k) = Some (Done (Some p), h', k) \<and> heap_inv h' bs' \<and>
    taken h' bs' = taken h bs \<and> hnext (hdr h' a) = a + 12 + n \<and> a + 12 + n \<in> set bs' \<and> free h' (a + 12 + n) \<and>
    (a < lfree h \<and> \<not> free h (hnext (hdr h a)) \<longrightarrow>
      (\<forall>sz' s'. rt_malloc hs sz' (h', k) \<noteq> Some (Done (Some (p + 12 + n)), s')))"
proof -
  have c: "heap_chain h bs" using i by (simp add: heap_inv_def)
  have ab: "a \<in> set bs" using a by (simp add: taken_def)
  note o = old_size [OF c ab old]
  have "unat n + unat a + 36 < unat (hnext (hdr h a))" using g o(2) by simp
  from heap_shrink_spec [OF i a RT_ALIGN_pos [of sz, folded n(1), OF n(2)] this] obtain h' bs' where
    h': "heap_shrink n a h = Some h'" "heap_inv h' bs'" "bounds_kept h h'" "taken h' bs' = taken h bs"
      "hnext (hdr h' a) = a + 12 + n" "a + 12 + n \<in> set bs'" "free h' (a + 12 + n)"
      "\<not> free h (hnext (hdr h a)) \<longrightarrow> lfree h' = lfree h"
    by (elim returnsE) blast
  have "rt_malloc hs sz' (h', k) \<noteq> Some (Done (Some (p + 12 + n)), s')"
    if l: "a < lfree h" "\<not> free h (hnext (hdr h a))" for sz' s'
  proof -
    have "unat (hnext (hdr h a)) < 2 ^ 32" using unsigned_less [of "hnext (hdr h a)", where 'a = nat] by simp
    then have "unat (a + 12 + n) = unat a + 12 + unat n" using g o(2) by (simp add: unat_word_ariths)
    then have lt: "a + 12 + n < lfree h'"
      using next_block [OF c ab l(1)] h'(8) l(2) g o(2) by (simp add: word_less_nat_alt word_le_nat_alt)
    have "p + 12 + n = heap_ptr h' + (a + 12 + n) + 12"
      using h'(3) by (simp add: p bounds_kept_def ac_simps)
    then show ?thesis using rt_malloc_not_below [OF h'(2) s lt, of sz' s'] by (simp only: not_False_eq_True simp_thms)
  qed
  moreover have "rt_realloc hs (Some p) sz (h, k) = Some (Done (Some p), h', k)"
    using rt_realloc_free_sem [OF s n taken_in_heap(1) [OF i a] old, folded p] o(3) [OF n(3)] g h'(1) by auto
  ultimately show ?thesis using h' by auto
qed

lemma rt_realloc_moves:
  assumes i: "heap_inv h bs" and s: "heap_sem_free hs k" and a: "a \<in> taken h bs"
    and n: "n = RT_ALIGN sz 4" "n \<noteq> 0" "n \<le> mem_size_aligned h"
    and p: "p = heap_ptr h + a + 12" and old: "old = hnext (hdr h a) - a - 12"
    and g: "old \<noteq> n" "unat old \<le> unat n + 24"
  shows "List.find (fits h (malloc_size n)) (from_lfree h bs) = None \<Longrightarrow>
      rt_realloc hs (Some p) sz (h, k) = Some (Done None, h, k)"
    and "List.find (fits h (malloc_size n)) (from_lfree h bs) = Some b \<Longrightarrow>
      \<exists>h' bs'. rt_realloc hs (Some p) sz (h, k) = Some (Done (Some (heap_ptr h + b + 12)), h',
          k\<lparr>mem := copy (heap_ptr h + b + 12) p (min (unat old) (unat n)) (mem k)\<rparr>) \<and>
        heap_inv h' bs' \<and> b \<notin> taken h bs \<and> taken h' bs' = insert b (taken h bs - {a})"
proof -
  have c: "heap_chain h bs" using i by (simp add: heap_inv_def)
  have ab: "a \<in> set bs" using a by (simp add: taken_def)
  have rt: "rt_realloc hs (Some p) sz (h, k) = then_copy hs p old n (rt_malloc hs n (h, k))"
    using rt_realloc_free_sem [OF s n taken_in_heap(1) [OF i a] old, folded p] old_size(3) [OF c ab old n(3)] g by simp
  have n4: "RT_ALIGN n 4 = n" using RT_ALIGN_idem n(1) by simp
  note m = rt_malloc_spec [OF i s n(2), unfolded n4, OF n(3)]
  show "rt_realloc hs (Some p) sz (h, k) = Some (Done None, h, k)"
    if "List.find (fits h (malloc_size n)) (from_lfree h bs) = None"
    using m(1) [OF that] by (simp add: rt then_copy_def after_call_def)
  assume "List.find (fits h (malloc_size n)) (from_lfree h bs) = Some b"
  from m(2) [OF this] obtain h1 bs1 where
    h1: "rt_malloc hs n (h, k) = Some (Done (Some (heap_ptr h + b + 12)), h1, k)"
      "handed h bs (malloc_size n) b h1 bs1" "b \<notin> taken h bs" by blast
  then have k1: "heap_inv h1 bs1" "heap_ptr h1 = heap_ptr h" "taken h1 bs1 = insert b (taken h bs)"
    "hnext (hdr h1 a) = hnext (hdr h a)" "malloc_size n \<le> hnext (hdr h1 b) - (b + 12)"
    using a by (simp_all add: handed_def bounds_kept_def)
  have "n \<le> malloc_size n" using n4 by (auto simp: malloc_size_def Let_def)
  then have room: "n \<le> hnext (hdr h1 b) - (b + 12)" using k1(5) by (rule order_trans)
  have ab1: "a \<in> taken h1 bs1" "b \<in> taken h1 bs1" "a \<noteq> b" using k1(3) a h1(3) by auto
  have "old \<le> hnext (hdr h1 a) - a - 12" using k1(4) old by simp
  from then_copy_spec [OF k1(1) s ab1 this room] obtain h' bs' where
    "then_copy hs p old n (Some (Done (Some (heap_ptr h + b + 12)), h1, k)) =
      Some (Done (Some (heap_ptr h + b + 12)), h',
        k\<lparr>mem := copy (heap_ptr h + b + 12) p (min (unat old) (unat n)) (mem k)\<rparr>)"
    "heap_inv h' bs'" "taken h' bs' = taken h1 bs1 - {a}"
    unfolding k1(2) p by blast
  moreover from this(3) have "taken h' bs' = insert b (taken h bs - {a})" using k1(3) ab1(3) by auto
  ultimately show "\<exists>h' bs'. rt_realloc hs (Some p) sz (h, k) = Some (Done (Some (heap_ptr h + b + 12)), h',
        k\<lparr>mem := copy (heap_ptr h + b + 12) p (min (unat old) (unat n)) (mem k)\<rparr>) \<and>
      heap_inv h' bs' \<and> b \<notin> taken h bs \<and> taken h' bs' = insert b (taken h bs - {a})"
    using rt h1(1,3) by auto
qed

text \<open>A block in use, and a size that the heap may have.\<close>

lemma rt_realloc_in_use:
  assumes i: "heap_inv h bs" and s: "heap_sem_free hs k" and a: "a \<in> taken h bs"
    and n: "n = RT_ALIGN sz 4" "n \<noteq> 0" "n \<le> mem_size_aligned h"
    and p: "p = heap_ptr h + a + 12" and old: "old = hnext (hdr h a) - a - 12"
  shows "(old = n \<longrightarrow> rt_realloc hs (Some p) sz (h, k) = Some (Done (Some p), h, k)) \<and>
    (unat n + 24 < unat old \<longrightarrow>
      (\<exists>h' bs'. rt_realloc hs (Some p) sz (h, k) = Some (Done (Some p), h', k) \<and> heap_inv h' bs' \<and>
        taken h' bs' = taken h bs \<and> hnext (hdr h' a) = a + 12 + n \<and> a + 12 + n \<in> set bs' \<and> free h' (a + 12 + n) \<and>
        (a < lfree h \<and> \<not> free h (hnext (hdr h a)) \<longrightarrow>
          (\<forall>sz' s'. rt_malloc hs sz' (h', k) \<noteq> Some (Done (Some (p + 12 + n)), s'))))) \<and>
    (old \<noteq> n \<and> unat old \<le> unat n + 24 \<longrightarrow>
      (List.find (fits h (malloc_size n)) (from_lfree h bs) = None \<longrightarrow>
        rt_realloc hs (Some p) sz (h, k) = Some (Done None, h, k)) \<and>
      (\<forall>b. List.find (fits h (malloc_size n)) (from_lfree h bs) = Some b \<longrightarrow>
        (\<exists>h' bs'. rt_realloc hs (Some p) sz (h, k) = Some (Done (Some (heap_ptr h + b + 12)), h',
            k\<lparr>mem := copy (heap_ptr h + b + 12) p (min (unat old) (unat n)) (mem k)\<rparr>) \<and>
          heap_inv h' bs' \<and> b \<notin> taken h bs \<and> taken h' bs' = insert b (taken h bs - {a}))))"
proof (intro conjI impI)
  show "old = n \<Longrightarrow> rt_realloc hs (Some p) sz (h, k) = Some (Done (Some p), h, k)"
    using rt_realloc_free_sem [OF s n taken_in_heap(1) [OF i a] old, folded p] by simp
qed (use rt_realloc_shrinks [OF assms] rt_realloc_moves [OF assms] in blast)+

text \<open>
  The ends of \<^verbatim>\<open>rt_realloc\<close> in front of the block: a size beyond the heap, a rounded size of 0, the null pointer, an
  address outside the heap, and a heap that another call holds.
\<close>

lemma rt_realloc_refused:
  assumes "heap_sem_free hs k" and "mem_size_aligned h < RT_ALIGN sz 4"
  shows "rt_realloc hs rmem sz (h, k) = Some (Done None, h, k)"
  using assms(2) by (simp add: rt_realloc_def take_release(3) [OF assms(1)])

lemma rt_realloc_zero:
  assumes i: "heap_inv h bs" and s: "heap_sem_free hs k" and n: "RT_ALIGN sz 4 = 0"
  shows "rt_realloc hs None sz (h, k) = Some (Done None, h, k)"
    and "a \<in> taken h bs \<Longrightarrow> \<exists>h' bs'. rt_realloc hs (Some (heap_ptr h + a + 12)) sz (h, k) = Some (Done None, h', k) \<and>
      heap_inv h' bs' \<and> taken h' bs' = taken h bs - {a} \<and> (\<forall>x \<in> taken h' bs'. hnext (hdr h' x) = hnext (hdr h x))"
    and "\<not> in_heap p h \<or> p AND 3 \<noteq> 0 \<Longrightarrow> rt_realloc hs (Some p) sz (h, k) = None"
proof -
  have r: "rt_realloc hs rmem sz (h, k) = then_return None (rt_free hs rmem (h, k))" for rmem
    using n by (simp add: rt_realloc_def take_release(3) [OF s])
  show "rt_realloc hs None sz (h, k) = Some (Done None, h, k)"
    by (simp add: r rt_free_def then_return_def after_call_def)
  show "\<exists>h' bs'. rt_realloc hs (Some (heap_ptr h + a + 12)) sz (h, k) = Some (Done None, h', k) \<and>
      heap_inv h' bs' \<and> taken h' bs' = taken h bs - {a} \<and> (\<forall>x \<in> taken h' bs'. hnext (hdr h' x) = hnext (hdr h x))"
    if a: "a \<in> taken h bs"
  proof -
    from rt_free_spec [OF i s a] obtain h' bs' where
      "rt_free hs (Some (heap_ptr h + a + 12)) (h, k) = Some (Done None, h', k)" "heap_inv h' bs'"
      "taken h' bs' = taken h bs - {a}" "\<forall>x \<in> taken h' bs'. hnext (hdr h' x) = hnext (hdr h x)" by blast
    then show ?thesis by (auto simp: r then_return_def after_call_def)
  qed
  show "rt_realloc hs (Some p) sz (h, k) = None" if "\<not> in_heap p h \<or> p AND 3 \<noteq> 0"
    using that by (auto simp: r rt_free_free_sem [OF s] then_return_def after_call_def rt_assert_def)
qed

lemma rt_realloc_null:
  assumes s: "heap_sem_free hs k" and n: "RT_ALIGN sz 4 \<noteq> 0" "RT_ALIGN sz 4 \<le> mem_size_aligned h"
  shows "rt_realloc hs None sz (h, k) = rt_malloc hs sz (h, k)"
proof -
  have "sz \<noteq> 0" using n(1) by (auto simp: RT_ALIGN_def)
  moreover have "malloc_size (RT_ALIGN sz 4) = malloc_size sz" by (simp add: malloc_size_def RT_ALIGN_idem)
  moreover have "\<not> mem_size_aligned h < RT_ALIGN sz 4" using n(2) by (rule leD)
  ultimately show ?thesis
    using n(1) by (simp add: rt_realloc_def Let_def take_release(3) [OF s] rt_malloc_free_sem [OF s] RT_ALIGN_idem cong: option.case_cong)
qed

lemma rt_realloc_outside:
  assumes s: "heap_sem_free hs k" and n: "RT_ALIGN sz 4 \<noteq> 0" "RT_ALIGN sz 4 \<le> mem_size_aligned h"
    and p: "\<not> in_heap p h"
  shows "rt_realloc hs (Some p) sz (h, k) = Some (Done (Some p), h, k)"
  using n p by (simp add: rt_realloc_def Let_def realloc_locked_def take_release [OF s] not_less)

text \<open>
  While another call holds the heap, the call waits; the rest of it, run when the semaphore is handed over, does
  what the call does on a free heap. Sizes beyond the heap and the null pointer with size 0 do not wait.
\<close>

definition heap_held :: "nat \<Rightarrow> kernel \<Rightarrow> kernel \<Rightarrow> bool" where
  "heap_held hs k k' \<longleftrightarrow> rt_interrupt_nest k = 0 \<and> (\<exists>c. rt_sem_take hs RT_WAITING_FOREVER k = Some (Wait c, k'))"

lemma rt_realloc_waits:
  assumes s: "heap_sem_free hs k" and w: "heap_held hs k0 k1" and b: "bounds_kept h0 h"
    and n: "RT_ALIGN sz 4 \<le> mem_size_aligned h" and p: "RT_ALIGN sz 4 = 0 \<longrightarrow> in_heap p h \<and> p AND 3 = 0"
  shows "\<exists>c. rt_realloc hs (Some p) sz (h0, k0) = Some (Blocked c, h0, k1) \<and>
    resume hs c (h, set_sem hs 0 k) = rt_realloc hs (Some p) sz (h, k)"
proof -
  have e: "mem_size_aligned h0 = mem_size_aligned h" "in_heap p h0 = in_heap p h"
    using b by (simp_all add: bounds_kept_def in_heap_def heap_end_def)
  have i: "RT_DEBUG_NOT_IN_INTERRUPT k0 = Some ()"
    using w by (simp add: heap_held_def RT_DEBUG_NOT_IN_INTERRUPT_def rt_interrupt_get_nest_def)
  obtain c where c: "rt_sem_take hs RT_WAITING_FOREVER k0 = Some (Wait c, k1)" using w by (auto simp: heap_held_def)
  note t = take_release [OF s]
  show ?thesis
  proof (cases "RT_ALIGN sz 4 = 0")
    case True
    then show ?thesis
      using p n e by (simp add: rt_realloc_def rt_free_def i c t then_return_def after_call_def)
  next
    case False
    moreover have "\<not> mem_size_aligned h < RT_ALIGN sz 4" using n by (rule leD)
    ultimately show ?thesis using e(1) by (simp add: rt_realloc_def Let_def i c t)
  qed
qed

text \<open>
  C16. \<^verbatim>\<open>rt_realloc\<close> for every size, with \<open>n\<close> the rounded size, and for the null pointer, an address outside the heap
  and a block in use. More than the heap has gets \<^verbatim>\<open>RT_NULL\<close> and changes nothing. A size that rounds to 0 (also by
  wrapping, as in \<^verbatim>\<open>rt_malloc\<close>) releases the block and gets \<^verbatim>\<open>RT_NULL\<close>; on an address that is outside the heap or not
  aligned the assertions of \<^verbatim>\<open>rt_free\<close> fail. With the null pointer any other size is a request to \<^verbatim>\<open>rt_malloc\<close>. An address
  outside the heap comes back as it is. A block of \<open>old\<close> bytes in use: with \<open>n = old\<close> nothing happens. When at least
  25 bytes become free the block is cut in place and the rest is a free block; but \<open>lfree\<close> is not lowered to it, so that
  no request gets the rest as long as \<open>lfree\<close> stays above it. Otherwise the contents move to a new block, cut to the
  smaller size, and the old block is released, or nothing changes when no block fits. All this while no other call holds the
  heap; when one does, the call waits, and what it does when it gets the heap is what it does on a free heap. In an
  interrupt the assertion fails. An address in the heap at which no block in use starts is not covered: the code takes
  the bytes in front of it for a header.
\<close>

theorem rt_realloc_correct:
  assumes i: "heap_inv h bs" and s: "heap_sem_free hs k" and n: "n = RT_ALIGN sz 4"
  shows "(n > mem_size_aligned h \<longrightarrow> rt_realloc hs rmem sz (h, k) = Some (Done None, h, k)) \<and>
    (n = 0 \<longrightarrow> rt_realloc hs None sz (h, k) = Some (Done None, h, k)) \<and>
    (n = 0 \<and> (\<not> in_heap p h \<or> p AND 3 \<noteq> 0) \<longrightarrow> rt_realloc hs (Some p) sz (h, k) = None) \<and>
    (n = 0 \<and> a \<in> taken h bs \<longrightarrow>
      (\<exists>h' bs'. rt_realloc hs (Some (heap_ptr h + a + 12)) sz (h, k) = Some (Done None, h', k) \<and> heap_inv h' bs' \<and>
        taken h' bs' = taken h bs - {a} \<and> (\<forall>x \<in> taken h' bs'. hnext (hdr h' x) = hnext (hdr h x)))) \<and>
    (n \<noteq> 0 \<and> n \<le> mem_size_aligned h \<longrightarrow> rt_realloc hs None sz (h, k) = rt_malloc hs sz (h, k)) \<and>
    (n \<noteq> 0 \<and> n \<le> mem_size_aligned h \<and> \<not> in_heap p h \<longrightarrow>
      rt_realloc hs (Some p) sz (h, k) = Some (Done (Some p), h, k)) \<and>
    (n \<noteq> 0 \<and> n \<le> mem_size_aligned h \<and> a \<in> taken h bs \<and> p = heap_ptr h + a + 12 \<and> old = hnext (hdr h a) - a - 12 \<longrightarrow>
      (old = n \<longrightarrow> rt_realloc hs (Some p) sz (h, k) = Some (Done (Some p), h, k)) \<and>
      (unat n + 24 < unat old \<longrightarrow>
        (\<exists>h' bs'. rt_realloc hs (Some p) sz (h, k) = Some (Done (Some p), h', k) \<and> heap_inv h' bs' \<and>
          taken h' bs' = taken h bs \<and> hnext (hdr h' a) = a + 12 + n \<and> a + 12 + n \<in> set bs' \<and> free h' (a + 12 + n) \<and>
          (a < lfree h \<and> \<not> free h (hnext (hdr h a)) \<longrightarrow>
            (\<forall>sz' s'. rt_malloc hs sz' (h', k) \<noteq> Some (Done (Some (p + 12 + n)), s'))))) \<and>
      (old \<noteq> n \<and> unat old \<le> unat n + 24 \<longrightarrow>
        (List.find (fits h (malloc_size n)) (from_lfree h bs) = None \<longrightarrow>
          rt_realloc hs (Some p) sz (h, k) = Some (Done None, h, k)) \<and>
        (\<forall>b. List.find (fits h (malloc_size n)) (from_lfree h bs) = Some b \<longrightarrow>
          (\<exists>h' bs'. rt_realloc hs (Some p) sz (h, k) = Some (Done (Some (heap_ptr h + b + 12)), h',
              k\<lparr>mem := copy (heap_ptr h + b + 12) p (min (unat old) (unat n)) (mem k)\<rparr>) \<and>
            heap_inv h' bs' \<and> b \<notin> taken h bs \<and> taken h' bs' = insert b (taken h bs - {a}))))) \<and>
    (heap_held hs k0 k1 \<and> bounds_kept h0 h \<and> n \<le> mem_size_aligned h \<and> (n = 0 \<longrightarrow> in_heap p h \<and> p AND 3 = 0) \<longrightarrow>
      (\<exists>c. rt_realloc hs (Some p) sz (h0, k0) = Some (Blocked c, h0, k1) \<and>
        resume hs c (h, set_sem hs 0 k) = rt_realloc hs (Some p) sz (h, k))) \<and>
    (rt_interrupt_nest k0 \<noteq> 0 \<longrightarrow> rt_realloc hs rmem sz (h0, k0) = None)"
proof (intro conjI, goal_cases)
  case 1
  show ?case using rt_realloc_refused [OF s, of h sz rmem] unfolding n by blast
next
  case 2
  show ?case using rt_realloc_zero(1) [OF i s, of sz] n by simp
next
  case 3
  show ?case using rt_realloc_zero(3) [OF i s, of sz p] unfolding n by blast
next
  case 4
  show ?case using rt_realloc_zero(2) [OF i s, of sz a] unfolding n by blast
next
  case 5
  show ?case using rt_realloc_null [OF s, of sz h] unfolding n by blast
next
  case 6
  show ?case using rt_realloc_outside [OF s, of sz h p] unfolding n by blast
next
  case 7
  show ?case using rt_realloc_in_use [OF i s _ n, of a p old] by (intro impI) (elim conjE, assumption)
next
  case 8
  show ?case using rt_realloc_waits [OF s, of k0 k1 h0 h sz p] unfolding n by blast
next
  case 9
  show ?case by (simp add: rt_realloc_def RT_DEBUG_NOT_IN_INTERRUPT_def rt_interrupt_get_nest_def rt_assert_def)
qed

theorem rt_realloc_correct_witness:
  "\<exists>h k h1 h2. rt_system_heap_init 7 0x20000000 0x20001000 (example_heap, example_kernel) = Some (h, k) \<and>
     rt_malloc 7 200 (h, k) = Some (Done (Some 0x2000000c), h1, k) \<and>
     rt_realloc 7 (Some 0x2000000c) 98 (h1, k) = Some (Done (Some 0x2000000c), h2, k) \<and> hnext (hdr h2 0) = 112 \<and>
     rt_realloc 7 (Some 0x2000000c) 0xfff (h1, k) = Some (Done None, h1, k) \<and>
     rt_realloc 7 (Some 0x1ffffffc) 0 (h1, k) = None \<and>
     rt_realloc 7 (Some 0x1ffffffc) 98 (h1, k) = Some (Done (Some 0x1ffffffc), h1, k) \<and>
     (\<exists>h3. rt_realloc 7 (Some 0x2000000c) 0 (h1, k) = Some (Done None, h3, k)) \<and>
     (\<exists>c k1. rt_realloc 7 (Some 0x2000000c) 98 (h1, example_kernel) = Some (Blocked c, h1, k1) \<and>
       resume 7 c (h1, set_sem 7 0 k) = Some (Done (Some 0x2000000c), h2, k))"
proof -
  obtain h k where i: "rt_system_heap_init 7 0x20000000 0x20001000 (example_heap, example_kernel) = Some (h, k)"
      "heap_sem_free 7 k" "heap_inv h [0]" "lowest h [0]" and f: "free h 0" "heap_ptr h = 0x20000000"
      "mem_size_aligned h = 0xfe8" "hnext (hdr h 0) = 0xff4"
    by (rule example_heap_init)
  have n: "RT_ALIGN 200 4 = (200 :: u32)" "RT_ALIGN 98 4 = (100 :: u32)" by (simp_all add: RT_ALIGN_def)
  then have m: "malloc_size 200 = 200" by (simp add: malloc_size_def)
  have "fits h 200 0" using f by (simp add: fits_def)
  then have fd: "List.find (fits h (malloc_size 200)) (from_lfree h [0]) = Some 0"
    using lowest_find [of h "[0]" 200] i(3,4) by (simp add: m heap_inv_def)
  obtain h1 bs1 where h1: "rt_malloc 7 200 (h, k) = Some (Done (Some 0x2000000c), h1, k)"
      "handed h [0] 200 0 h1 bs1"
    using rt_malloc_spec(2) [OF i(3,2) _ _ fd] n f by (auto simp: m)
  then have h1': "heap_inv h1 bs1" "0 \<in> taken h1 bs1" "heap_ptr h1 = 0x20000000" "mem_size_aligned h1 = 0xfe8"
      "200 \<le> hnext (hdr h1 0) - 12"
    using f by (simp_all add: handed_def bounds_kept_def)
  then have "unat (100 :: u32) + 24 < unat (hnext (hdr h1 0) - 0 - 12)" by (simp add: word_le_nat_alt)
  moreover have "(100 :: u32) \<le> mem_size_aligned h1" using h1'(4) by simp
  moreover obtain k1 where w: "heap_held 7 example_kernel k1"
    using rt_sem_take_blocks [OF kinv_example, of 1 7 RT_WAITING_FOREVER] example_sem
    by (auto simp: heap_held_def time_ok_def)
  ultimately obtain h2 where h2: "rt_realloc 7 (Some 0x2000000c) 98 (h1, k) = Some (Done (Some 0x2000000c), h2, k)"
      "hnext (hdr h2 0) = 112"
    and c: "\<exists>c. rt_realloc 7 (Some 0x2000000c) 98 (h1, example_kernel) = Some (Blocked c, h1, k1) \<and>
      resume 7 c (h1, set_sem 7 0 k) = rt_realloc 7 (Some 0x2000000c) 98 (h1, k)"
    using rt_realloc_correct [OF h1'(1) i(2) n(2) [symmetric], where p = "0x2000000c" and a = 0
        and old = "hnext (hdr h1 0) - 0 - 12" and rmem = None and ?k0.0 = example_kernel and ?k1.0 = k1 and ?h0.0 = h1]
      h1'(2,3)
    by (auto simp: bounds_kept_def)
  have "RT_ALIGN 0xfff 4 = (0x1000 :: u32)" "RT_ALIGN 0 4 = (0 :: u32)" by (simp_all add: RT_ALIGN_def)
  note e = this(1) [symmetric] this(2) [symmetric]
  have out: "\<not> in_heap 0x1ffffffc h1" using h1'(3) by (simp add: in_heap_def)
  have "rt_realloc 7 (Some 0x2000000c) 0xfff (h1, k) = Some (Done None, h1, k)"
    using rt_realloc_correct [OF h1'(1) i(2) e(1), where rmem = "Some 0x2000000c"] h1'(4) by simp
  moreover have "rt_realloc 7 (Some 0x1ffffffc) 0 (h1, k) = None"
    using rt_realloc_correct [OF h1'(1) i(2) e(2), where p = "0x1ffffffc"] out by simp
  moreover have "rt_realloc 7 (Some 0x1ffffffc) 98 (h1, k) = Some (Done (Some 0x1ffffffc), h1, k)"
    using rt_realloc_correct [OF h1'(1) i(2) n(2) [symmetric], where p = "0x1ffffffc"] out h1'(4) by simp
  moreover have "\<exists>h3. rt_realloc 7 (Some 0x2000000c) 0 (h1, k) = Some (Done None, h3, k)"
    using rt_realloc_correct [OF h1'(1) i(2) e(2), where p = 0 and a = 0 and rmem = None and ?k0.0 = k and ?k1.0 = k
        and ?h0.0 = h1] h1'(2,3)
    by auto
  moreover have "\<exists>c k1. rt_realloc 7 (Some 0x2000000c) 98 (h1, example_kernel) = Some (Blocked c, h1, k1) \<and>
      resume 7 c (h1, set_sem 7 0 k) = Some (Done (Some 0x2000000c), h2, k)"
    using c h2(1) by auto
  ultimately show ?thesis using i(1) h1(1) h2 by blast
qed

end
