(* ===== verification/Idle.thy ===== *)
theory Idle
  imports Ipc_Base
begin

text \<open>
  The idle thread: \<^verbatim>\<open>src/idle.c\<close>. Between the calls of its hooks it takes the closed threads off the
  defunct list, calls their cleanup functions and gives the memory of the dynamic ones back to the
  heap. The cleanup functions are code of the application: \<open>run_cleanup\<close>, a parameter, executes the
  function at an address. The memory that is given back is the first result, thread by thread (the
  stack and the thread object). Every turn runs with the interrupts disabled; the threads that may
  run between two turns are not part of the model, so that the loop is the one of a processor on
  which no other thread is ready in the meantime.
\<close>

section \<open>The code\<close>

definition has_defunct_thread :: "kernel \<Rightarrow> bool" where
  "has_defunct_thread k \<longleftrightarrow> tlists k Defunct \<noteq> []"

definition reap :: "(u32 \<Rightarrow> nat \<Rightarrow> kernel \<Rightarrow> kernel option) \<Rightarrow> nat \<Rightarrow> kernel \<Rightarrow> kernel option" where
  "reap run_cleanup t k = do {
     let k = upd_tlists (list_remove t) k;
     let k = rt_enter_critical k;
     (if cleanup (threads k t) \<noteq> 0 then run_cleanup (cleanup (threads k t)) t k else Some k)
   }"

partial_function (option) rt_thread_idle_excute ::
    "(u32 \<Rightarrow> nat \<Rightarrow> kernel \<Rightarrow> kernel option) \<Rightarrow> kernel \<Rightarrow> (nat list \<times> kernel) option" where
  "rt_thread_idle_excute run_cleanup k =
     (if \<not> has_defunct_thread k then Some ([], k)
      else Option.bind (RT_DEBUG_NOT_IN_INTERRUPT k) (\<lambda>_.
        let t = hd (tlists k Defunct)
        in Option.bind (reap run_cleanup t k) (\<lambda>k.
          if rt_object_is_systemobject (OThread t) k
          then Option.bind (rt_exit_critical k) (\<lambda>k. Some ([], k))
          else Option.bind (rt_exit_critical k) (\<lambda>k.
            Option.bind (rt_object_delete (OThread t) k) (\<lambda>k.
              Option.bind (rt_thread_idle_excute run_cleanup k) (\<lambda>(freed, k).
                Some (t # freed, k)))))))"

text \<open>The hooks: a table of four functions, null where it is empty.\<close>

abbreviation (input) RT_IDEL_HOOK_LIST_SIZE :: nat where "RT_IDEL_HOOK_LIST_SIZE \<equiv> 4"

definition rt_thread_idle_sethook :: "u32 \<Rightarrow> u32 list \<Rightarrow> rt_err_t \<times> u32 list" where
  "rt_thread_idle_sethook hook hs =
     (case List.find (\<lambda>i. hs ! i = 0) [0..<RT_IDEL_HOOK_LIST_SIZE] of
        Some i \<Rightarrow> (RT_EOK, hs[i := hook])
      | None \<Rightarrow> (- RT_EFULL, hs))"

definition rt_thread_idle_delhook :: "u32 \<Rightarrow> u32 list \<Rightarrow> rt_err_t \<times> u32 list" where
  "rt_thread_idle_delhook hook hs =
     (case List.find (\<lambda>i. hs ! i = hook) [0..<RT_IDEL_HOOK_LIST_SIZE] of
        Some i \<Rightarrow> (RT_EOK, hs[i := 0])
      | None \<Rightarrow> (- RT_ENOSYS, hs))"

text \<open>One turn of the idle thread: the hooks in the order of the table, then the closed threads.\<close>

definition rt_thread_idle_turn ::
    "(u32 \<Rightarrow> kernel \<Rightarrow> kernel option) \<Rightarrow> (u32 \<Rightarrow> nat \<Rightarrow> kernel \<Rightarrow> kernel option) \<Rightarrow> u32 list \<Rightarrow> kernel \<Rightarrow>
     (nat list \<times> kernel) option" where
  "rt_thread_idle_turn run_hook run_cleanup hs k = do {
     k \<leftarrow> fold (\<lambda>i m. Option.bind m (\<lambda>k. if hs ! i \<noteq> 0 then run_hook (hs ! i) k else Some k))
            [0..<RT_IDEL_HOOK_LIST_SIZE] (Some k);
     rt_thread_idle_excute run_cleanup k
   }"

text \<open>The name is \<^verbatim>\<open>tidle0\<close>, what \<^verbatim>\<open>rt_sprintf\<close> makes of \<^verbatim>\<open>tidle%d\<close> for the only processor.\<close>

definition rt_thread_idle_init :: "u32 \<Rightarrow> nat \<Rightarrow> u32 \<Rightarrow> u32 \<Rightarrow> kernel \<Rightarrow> kernel option" where
  "rt_thread_idle_init exit_addr idle idle_entry idle_stack k = do {
     (_, k) \<leftarrow> rt_thread_init exit_addr idle [116, 105, 100, 108, 101, 48, 0] idle_entry 0 idle_stack 256 31 32 k;
     (_, k) \<leftarrow> rt_thread_startup idle k;
     Some k
   }"

section \<open>The closed threads are given back\<close>

definition cleanup_ok :: "(u32 \<Rightarrow> nat \<Rightarrow> kernel \<Rightarrow> kernel option) \<Rightarrow> bool" where
  "cleanup_ok run_cleanup \<longleftrightarrow> (\<forall>f t k. kinv k \<and> rt_current_thread k \<noteq> None \<longrightarrow>
     returns (run_cleanup f t k) (\<lambda>k'. kinv k' \<and> rt_current_thread k' = rt_current_thread k \<and>
       tlists k' Defunct = tlists k Defunct \<and> objs k' = objs k \<and> object_list k' = object_list k \<and>
       rt_interrupt_nest k' = rt_interrupt_nest k \<and>
       (\<forall>u. tstat k u = RT_THREAD_CLOSE \<longrightarrow> tstat k' u = RT_THREAD_CLOSE)))"

lemma cleanup_okD:
  assumes "cleanup_ok run_cleanup" and "kinv k" and "rt_current_thread k \<noteq> None"
  shows "returns (run_cleanup f t k) (\<lambda>k'. kinv k' \<and> rt_current_thread k' = rt_current_thread k \<and>
       tlists k' Defunct = tlists k Defunct \<and> objs k' = objs k \<and> object_list k' = object_list k \<and>
       rt_interrupt_nest k' = rt_interrupt_nest k \<and>
       (\<forall>u. tstat k u = RT_THREAD_CLOSE \<longrightarrow> tstat k' u = RT_THREAD_CLOSE))"
  using assms unfolding cleanup_ok_def by blast

lemma defunct_closed:
  assumes "kinv k" and "t \<in> set (tlists k Defunct)"
  shows "tstat k t = RT_THREAD_CLOSE"
  using sched_invD(2) [OF kinvD(1) [OF assms(1)] assms(2)] by simp

lemma kinv_delist_defunct:
  assumes k: "kinv k" and t: "t \<in> set (tlists k Defunct)"
  shows "kinv (k\<lparr>tlists := list_remove t (tlists k)\<rparr>)"
proof -
  have s: "tstat k t \<noteq> RT_THREAD_READY" using defunct_closed [OF k t] by simp
  have "timer_inv (k\<lparr>tlists := list_remove t (tlists k)\<rparr>)"
    by (rule timer_inv_cong [OF kinvD(2) [OF k]])
       (use timer_invD(5,6) [OF kinvD(2) [OF k]] in \<open>auto simp: live_def\<close>)
  then show ?thesis using sched_inv_delist [OF kinvD(1) [OF k] s] by (simp add: kinv_def)
qed

lemma reap_spec:
  assumes k: "kinv k" and cur: "rt_current_thread k \<noteq> None" and cb: "cleanup_ok run_cleanup"
    and d: "tlists k Defunct = t # ts"
  shows "returns (reap run_cleanup t k) (\<lambda>k'. kinv k' \<and> rt_current_thread k' = rt_current_thread k \<and>
    tlists k' Defunct = ts \<and> objs k' = objs k \<and> object_list k' = object_list k \<and>
    rt_interrupt_nest k' = rt_interrupt_nest k \<and> tstat k' t = RT_THREAD_CLOSE)"
proof -
  let ?k = "rt_enter_critical (upd_tlists (list_remove t) k)"
  have t: "t \<in> set (tlists k Defunct)" using d by simp
  have i: "kinv ?k" using kinv_delist_defunct [OF k t] by (simp add: rt_enter_critical_def upd_tlists_def kinv_lock)
  have s: "rt_current_thread ?k = rt_current_thread k" "tlists ?k Defunct = ts" "objs ?k = objs k"
      "object_list ?k = object_list k" "rt_interrupt_nest ?k = rt_interrupt_nest k" "threads ?k = threads k"
    using d by (simp_all add: rt_enter_critical_def upd_tlists_def list_remove_def)
  have c: "tstat ?k t = RT_THREAD_CLOSE" using defunct_closed [OF k t] s(6) by simp
  have r: "reap run_cleanup t k =
      (if cleanup (threads k t) \<noteq> 0 then run_cleanup (cleanup (threads k t)) t ?k else Some ?k)"
    by (simp add: reap_def Let_def s(6))
  show ?thesis
  proof (cases "cleanup (threads k t) = 0")
    case True
    then show ?thesis using i s c r by simp
  next
    case False
    have cu: "rt_current_thread ?k \<noteq> None" using cur s(1) by simp
    show ?thesis
      using cleanup_okD [OF cb i cu, of "cleanup (threads k t)" t] False s c r
      by (elim returnsE) (simp add: returns_def)
  qed
qed

lemma rt_exit_critical_keeps:
  assumes k: "kinv k" and cur: "rt_current_thread k \<noteq> None" and t: "tstat k t = RT_THREAD_CLOSE"
  shows "returns (rt_exit_critical k) (\<lambda>k'. kinv k' \<and> rt_current_thread k' \<noteq> None \<and>
    tlists k' Defunct = tlists k Defunct \<and> objs k' = objs k \<and> object_list k' = object_list k \<and>
    rt_interrupt_nest k' = rt_interrupt_nest k \<and> tstat k' t = RT_THREAD_CLOSE)"
proof -
  obtain c where "rt_current_thread k = Some c" using cur by blast
  from rt_exit_critical_spec [OF k this] obtain k' where
    k': "rt_exit_critical k = Some k'" "kinv k'" "rt_current_thread k' \<noteq> None"
      "sched_frame (k\<lparr>rt_scheduler_lock_nest := rt_scheduler_lock_nest k'\<rparr>) k'"
    by (elim returnsE) blast
  note f = sched_frameD [OF k'(4)]
  have "stat (threads k' t) = stat (threads k t)" using f(17) [of t] t by (simp add: runnable_def)
  then show ?thesis using k'(1-3) f(2,3,8) f(16) [of Defunct] t by simp
qed

text \<open>What is left behind: the list up to the first static thread is gone, that thread included.\<close>

definition dynamic :: "kernel \<Rightarrow> nat \<Rightarrow> bool" where
  "dynamic k t \<longleftrightarrow> \<not> rt_object_is_systemobject (OThread t) k"

definition reaped :: "kernel \<Rightarrow> nat list \<Rightarrow> kernel \<Rightarrow> bool" where
  "reaped k freed k' \<longleftrightarrow> kinv k' \<and> rt_current_thread k' \<noteq> None \<and> rt_interrupt_nest k' = rt_interrupt_nest k \<and>
     freed = takeWhile (dynamic k) (tlists k Defunct) \<and>
     tlists k' Defunct = tl (dropWhile (dynamic k) (tlists k Defunct)) \<and>
     objs k' = (\<lambda>ob. if ob \<in> OThread ` set freed then (objs k ob)\<lparr>otype := 0\<rparr> else objs k ob) \<and>
     object_list k' = (\<lambda>c. filter (\<lambda>ob. ob \<notin> OThread ` set freed) (object_list k c))"

lemma rt_thread_idle_excute_spec:
  assumes "kinv k" and "rt_current_thread k \<noteq> None" and "rt_interrupt_nest k = 0" and cb: "cleanup_ok run_cleanup"
    and "lists_wf (object_list k)"
  shows "returns (rt_thread_idle_excute run_cleanup k) (\<lambda>(freed, k'). reaped k freed k')"
  using assms(1-3,5)
proof (induction "tlists k Defunct" arbitrary: k)
  case Nil
  then show ?case
    by (subst rt_thread_idle_excute.simps) (auto simp: has_defunct_thread_def reaped_def)
next
  case (Cons t ts)
  obtain k1 where k1: "reap run_cleanup t k = Some k1" "kinv k1" "rt_current_thread k1 \<noteq> None"
      "tlists k1 Defunct = ts" "objs k1 = objs k" "object_list k1 = object_list k"
      "rt_interrupt_nest k1 = rt_interrupt_nest k" "tstat k1 t = RT_THREAD_CLOSE"
    using reap_spec [OF Cons.prems(1,2) cb Cons.hyps(2) [symmetric]] Cons.prems(2) by (elim returnsE) auto
  obtain k2 where k2: "rt_exit_critical k1 = Some k2" "kinv k2" "rt_current_thread k2 \<noteq> None"
      "tlists k2 Defunct = ts" "objs k2 = objs k" "object_list k2 = object_list k"
      "rt_interrupt_nest k2 = rt_interrupt_nest k" "tstat k2 t = RT_THREAD_CLOSE"
    using rt_exit_critical_keeps [OF k1(2,3,8)] k1(4-7) by (elim returnsE) auto
  have d: "rt_object_is_systemobject (OThread t) k1 = (\<not> dynamic k t)"
    using k1(5) by (simp add: dynamic_def rt_object_is_systemobject_def)
  have start: "rt_thread_idle_excute run_cleanup k =
      (if \<not> dynamic k t then Some ([], k2)
       else Option.bind (rt_object_delete (OThread t) k2) (\<lambda>k.
         Option.bind (rt_thread_idle_excute run_cleanup k) (\<lambda>(freed, k). Some (t # freed, k))))"
    by (subst rt_thread_idle_excute.simps)
       (use Cons.hyps(2) [symmetric] Cons.prems(3) k1(1) k2(1) d in
         \<open>simp add: has_defunct_thread_def RT_DEBUG_NOT_IN_INTERRUPT_def rt_interrupt_get_nest_def\<close>)
  show ?case
  proof (cases "dynamic k t")
    case False
    then have "reaped k [] k2"
      using k2 Cons.hyps(2) [symmetric] by (simp add: reaped_def fun_eq_iff)
    then show ?thesis using start False by simp
  next
    case True
    let ?k3 = "rt_object_detach (OThread t) k2"
    have nl: "\<not> live k2 t" using k2(8) by (simp add: live_def)
    have k3: "kinv ?k3" by (rule kinv_thread_detached [OF k2(2) nl])
    have "\<not> rt_object_is_systemobject (OThread t) k2"
      using True k2(5) by (simp add: dynamic_def rt_object_is_systemobject_def)
    then have del: "rt_object_delete (OThread t) k2 = Some ?k3" by (rule rt_object_delete_dynamic)
    have s: "tlists ?k3 Defunct = ts" "rt_current_thread ?k3 \<noteq> None" "rt_interrupt_nest ?k3 = 0"
        "objs ?k3 = (objs k)(OThread t := (objs k (OThread t))\<lparr>otype := 0\<rparr>)"
        "object_list ?k3 = list_remove (OThread t) (object_list k)"
      using k2(3-7) Cons.prems(3) by (simp_all add: rt_object_detach_eq)
    have wf: "lists_wf (object_list ?k3)" using lists_wf_remove [OF Cons.prems(4)] s(5) by simp
    have dyn: "dynamic ?k3 u = dynamic k u" if "u \<noteq> t" for u
      using that s(4) by (simp add: dynamic_def rt_object_is_systemobject_def)
    have "distinct (tlists k Defunct)"
      using sched_invD(7) [OF kinvD(1) [OF Cons.prems(1)]] by (simp add: lists_wf_def)
    then have nt: "t \<notin> set ts" using Cons.hyps(2) [symmetric] by simp
    then have "dynamic ?k3 u = dynamic k u" if "u \<in> set ts" for u using that dyn by metis
    then have w: "takeWhile (dynamic ?k3) ts = takeWhile (dynamic k) ts"
        "dropWhile (dynamic ?k3) ts = dropWhile (dynamic k) ts"
      by (auto cong: takeWhile_cong dropWhile_cong)
    obtain freed k' where k': "rt_thread_idle_excute run_cleanup ?k3 = Some (freed, k')" "reaped ?k3 freed k'"
      using Cons.hyps(1) [OF s(1) [symmetric] k3 s(2,3) wf] by (auto elim!: returnsE)
    have "list_remove (OThread t) (object_list k) c = filter (\<lambda>ob. ob \<noteq> OThread t) (object_list k c)" for c
      using Cons.prems(4) by (simp add: list_remove_def distinct_remove1_removeAll removeAll_filter_not_eq lists_wf_def
          eq_commute)
    then have "reaped k (t # freed) k'"
      using k'(2) s w True Cons.hyps(2) [symmetric] Cons.prems(3)
      unfolding reaped_def by (auto simp: fun_eq_iff)
    then show ?thesis using start True del k'(1) by simp
  qed
qed


text \<open>
  C27. The idle thread's clean-up returns, whatever the number of closed threads. It takes the
  closed threads off the defunct list in order, unregisters the dynamic ones and gives their memory back, each exactly once;
  but it stops after the first static thread, so that one call does not do all the clean-ups,
  and the static thread stays registered.
\<close>

theorem rt_thread_idle_excute_reaps:
  assumes "kinv k" and "rt_current_thread k \<noteq> None" and "rt_interrupt_nest k = 0" and "cleanup_ok run_cleanup"
    and "lists_wf (object_list k)"
  shows "\<exists>freed k'. rt_thread_idle_excute run_cleanup k = Some (freed, k') \<and> kinv k' \<and>
    freed = takeWhile (dynamic k) (tlists k Defunct) \<and> distinct freed \<and>
    tlists k' Defunct = tl (dropWhile (dynamic k) (tlists k Defunct)) \<and>
    (\<forall>t. rt_object_get_type (OThread t) k' = (if t \<in> set freed then 0 else rt_object_get_type (OThread t) k)) \<and>
    (\<forall>c. object_list k' c = filter (\<lambda>ob. ob \<notin> OThread ` set freed) (object_list k c))"
proof -
  obtain freed k' where k': "rt_thread_idle_excute run_cleanup k = Some (freed, k')" "reaped k freed k'"
    using rt_thread_idle_excute_spec [OF assms] by (auto elim!: returnsE)
  have "distinct (tlists k Defunct)"
    using sched_invD(7) [OF kinvD(1) [OF assms(1)]] by (simp add: lists_wf_def)
  then have "distinct freed" using k'(2) by (simp add: reaped_def)
  moreover have "rt_object_get_type (OThread t) k' = (if t \<in> set freed then 0 else rt_object_get_type (OThread t) k)" for t
    using k'(2) by (auto simp: reaped_def rt_object_get_type_def)
  ultimately show ?thesis using k' unfolding reaped_def by fastforce
qed

text \<open>
  A static thread with a cleanup function that is detached has lost its object type, and with it the static bit,
  when it reaches the idle thread: its memory, which is not of the heap, is given back to the heap.
\<close>

lemma detached_defunct:
  assumes k: "kinv k" and t: "live k t" and st: "rt_object_is_systemobject (OThread t) k"
    and cl: "cleanup (threads k t) \<noteq> 0" and d: "tlists k Defunct = []"
    and cur: "rt_current_thread k \<noteq> None" and nest: "rt_interrupt_nest k = 0"
    and wf: "lists_wf (object_list k)"
  obtains k1 where "rt_thread_detach t k = Some (RT_EOK, k1)" and "kinv k1" and "rt_current_thread k1 \<noteq> None"
    and "rt_interrupt_nest k1 = 0" and "lists_wf (object_list k1)" and "tlists k1 Defunct = [t]" and "dynamic k1 t"
proof -
  obtain g where g: "rt_thread_detach t k = Some (RT_EOK, if cleanup (threads k t) \<noteq> 0
      then upd_tlists (list_insert_after Defunct t) (rt_object_detach (OThread t) (closing t k g))
      else rt_object_detach (OThread t) (closing t k g))"
    and i: "kinv (upd_tlists (list_insert_after Defunct t) (rt_object_detach (OThread t) (closing t k g)))"
    using rt_thread_detach_eq [OF k t st] .
  let ?k = "upd_tlists (list_insert_after Defunct t) (rt_object_detach (OThread t) (closing t k g))"
  have "rt_current_thread ?k \<noteq> None" "rt_interrupt_nest ?k = 0" "lists_wf (object_list ?k)"
    "tlists ?k Defunct = [t]" "dynamic ?k t"
    using cur nest lists_wf_remove [OF lists_wf_remove [OF wf]] d
    by (simp_all add: upd_tlists_def rt_object_detach_eq closing_def rt_timer_remove_def unqueued_def
        list_insert_after_def list_remove_def dynamic_def rt_object_is_systemobject_def)
  then show ?thesis using that [of ?k] g i cl by simp
qed

lemma idle_frees_static_thread:
  assumes "kinv k" and "live k t" and "rt_object_is_systemobject (OThread t) k"
    and "cleanup (threads k t) \<noteq> 0" and "tlists k Defunct = []"
    and "rt_current_thread k \<noteq> None" and "rt_interrupt_nest k = 0"
    and "lists_wf (object_list k)" and cb: "cleanup_ok run_cleanup"
  shows "\<exists>k1 k2. rt_thread_detach t k = Some (RT_EOK, k1) \<and> rt_thread_idle_excute run_cleanup k1 = Some ([t], k2)"
proof -
  obtain k1 where k1: "rt_thread_detach t k = Some (RT_EOK, k1)" "kinv k1" "rt_current_thread k1 \<noteq> None"
      "rt_interrupt_nest k1 = 0" "lists_wf (object_list k1)" "tlists k1 Defunct = [t]" "dynamic k1 t"
    using detached_defunct [OF assms(1-8)] .
  from rt_thread_idle_excute_spec [OF k1(2-4) cb k1(5)]
  have "returns (rt_thread_idle_excute run_cleanup k1) (\<lambda>(freed, k'). freed = [t])"
    using k1(6,7) by (auto elim!: returns_mono simp: reaped_def)
  then show ?thesis using k1(1) by (auto elim!: returnsE)
qed

text \<open>The sleeping thread 3 of the example, with a cleanup function, which puts its number into a semaphore.\<close>

definition example_cleanup :: "u32 \<Rightarrow> nat \<Rightarrow> kernel \<Rightarrow> kernel option" where
  "example_cleanup f t k = Some (k\<lparr>sems := (sems k)(t := \<lparr>sem_value = ucast f\<rparr>)\<rparr>)"

lemma example_cleanup_ok: "cleanup_ok example_cleanup"
  by (simp add: cleanup_ok_def example_cleanup_def)

definition example_static :: kernel where
  "example_static = upd_thread 3 (\<lambda>x. x\<lparr>cleanup := 77\<rparr>) example_kernel"

lemma example_static_facts:
  "kinv example_static" "live example_static 3" "rt_object_is_systemobject (OThread 3) example_static"
  "cleanup (threads example_static 3) \<noteq> 0" "tlists example_static Defunct = []"
  "rt_current_thread example_static \<noteq> None" "rt_interrupt_nest example_static = 0" "lists_wf (object_list example_static)"
proof -
  show "kinv example_static" unfolding example_static_def by (rule kinv_upd_thread [OF kinv_example]) simp_all
  show "lists_wf (object_list example_static)"
    by (simp add: example_static_def upd_thread_def example_kernel_def zero_kernel_def lists_wf_def)
qed (simp_all add: example_static_def kdefs live_def rt_object_is_systemobject_def example_objs_def)

theorem rt_thread_idle_excute_reaps_witness:
  "\<exists>k1 k2. rt_thread_detach 3 example_static = Some (RT_EOK, k1) \<and>
     rt_thread_idle_excute example_cleanup k1 = Some ([3], k2) \<and> tlists k2 Defunct = []"
proof -
  obtain k1 where k1: "rt_thread_detach 3 example_static = Some (RT_EOK, k1)" "kinv k1" "rt_current_thread k1 \<noteq> None"
      "rt_interrupt_nest k1 = 0" "lists_wf (object_list k1)" "tlists k1 Defunct = [3]" "dynamic k1 3"
    using detached_defunct [OF example_static_facts] .
  show ?thesis
    using rt_thread_idle_excute_reaps [OF k1(2-4) example_cleanup_ok k1(5)] k1(1,6,7) by auto
qed


section \<open>The hooks\<close>

lemma find_index_eq:
  assumes "i < n" and "P i" and "\<And>j. j < i \<Longrightarrow> \<not> P j"
  shows "List.find P [0..<n] = Some i"
  using assms by (auto simp: find_Some_iff)

lemma first_index:
  assumes "length hs = n" and "x \<in> set hs"
  obtains i where "i < n" and "hs ! i = x" and "\<And>j. j < i \<Longrightarrow> hs ! j \<noteq> x"
proof -
  let ?i = "LEAST i. i < n \<and> hs ! i = x"
  have "?i < n \<and> hs ! ?i = x" by (rule LeastI_ex) (use assms in \<open>auto simp: in_set_conv_nth\<close>)
  moreover have "hs ! j \<noteq> x" if "j < ?i" for j using not_less_Least [OF that] calculation that by auto
  ultimately show ?thesis using that by blast
qed

text \<open>A hook gets the first free place and can be taken off again; a full table refuses it.\<close>

lemma idle_hook_set_delete:
  assumes n: "length hs = 4" and h: "hook \<noteq> 0" "hook \<notin> set hs"
  shows "if 0 \<in> set hs then fst (rt_thread_idle_sethook hook hs) = RT_EOK \<and>
      hook \<in> set (snd (rt_thread_idle_sethook hook hs)) \<and>
      rt_thread_idle_delhook hook (snd (rt_thread_idle_sethook hook hs)) = (RT_EOK, hs)
    else rt_thread_idle_sethook hook hs = (- RT_EFULL, hs)"
proof (cases "0 \<in> set hs")
  case True
  obtain i where i: "i < 4" "hs ! i = 0" "\<And>j. j < i \<Longrightarrow> hs ! j \<noteq> 0" by (rule first_index [OF n True]) blast
  have s: "rt_thread_idle_sethook hook hs = (RT_EOK, hs[i := hook])"
    unfolding rt_thread_idle_sethook_def by (subst find_index_eq [OF i(1)]) (use i in auto)
  have "hs ! j \<noteq> hook" if "j < 4" for j using h(2) n that by (auto simp: in_set_conv_nth)
  then have "rt_thread_idle_delhook hook (hs[i := hook]) = (RT_EOK, hs[i := hook, i := 0])"
    unfolding rt_thread_idle_delhook_def
    by (subst find_index_eq [OF i(1)]) (use i n in \<open>auto simp: nth_list_update\<close>)
  moreover have "hs[i := hook, i := 0] = hs" using i(1,2) n by (metis list_update_id list_update_overwrite)
  moreover have "hook \<in> set (hs[i := hook])" using i(1) n by (simp add: set_update_memI)
  ultimately show ?thesis using True s by simp
next
  case False
  then have "List.find (\<lambda>i. hs ! i = 0) [0..<4] = None" using n by (auto simp: find_None_iff in_set_conv_nth)
  then show ?thesis using False by (simp add: rt_thread_idle_sethook_def)
qed

end
