(* ===== verification/Completion.thy ===== *)
theory Completion
  imports Ipc_Base
begin

text \<open>
  Completions of the device drivers: \<^verbatim>\<open>components/drivers/src/completion.c\<close>. One thread waits
  until an interrupt or another thread reports that something is done; a report that comes
  first is remembered in a flag.
\<close>

section \<open>The code\<close>

record rt_completion =
  completion_flag :: u32

abbreviation (input) RT_COMPLETED :: u32 where "RT_COMPLETED \<equiv> 1"
abbreviation (input) RT_UNCOMPLETED :: u32 where "RT_UNCOMPLETED \<equiv> 0"

text \<open>
  A driver call that may block returns a value or has suspended the calling thread; the rest of
  its body, which runs when the thread is scheduled again, is a function of its own.
\<close>

datatype 'a wait_result = Returned 'a | Suspended

definition rt_completion_init :: "nat \<Rightarrow> rt_completion \<times> kernel \<Rightarrow> rt_completion \<times> kernel" where
  "rt_completion_init c = (\<lambda>(x, k).
     (x\<lparr>completion_flag := RT_UNCOMPLETED\<rparr>, k\<lparr>tlists := (tlists k)(SuspendCompletion c := [])\<rparr>))"

definition rt_completion_wait :: "nat \<Rightarrow> int \<Rightarrow> rt_completion \<times> kernel \<Rightarrow>
    (rt_err_t wait_result \<times> rt_completion \<times> kernel) option" where
  "rt_completion_wait c timeout = (\<lambda>(x, k).
     if completion_flag x \<noteq> RT_COMPLETED then do {
       rt_assert (tlists k (SuspendCompletion c) = []);
       if timeout = 0 then Some (Returned (- RT_ETIMEOUT), x, k)
       else do {
         t \<leftarrow> rt_thread_self k;
         let k = upd_thread t (\<lambda>y. y\<lparr>error := RT_EOK\<rparr>) k;
         k \<leftarrow> rt_ipc_list_suspend (SuspendCompletion c) t RT_IPC_FLAG_FIFO k;
         RT_DEBUG_NOT_IN_INTERRUPT k;
         k \<leftarrow> arm_schedule t timeout k;
         Some (Suspended, x, k)
       }
     } else Some (Returned RT_EOK, x\<lparr>completion_flag := RT_UNCOMPLETED\<rparr>, k))"

definition rt_completion_wait_resume :: "nat \<Rightarrow> rt_completion \<times> kernel \<Rightarrow>
    rt_err_t wait_result \<times> rt_completion \<times> kernel" where
  "rt_completion_wait_resume t = (\<lambda>(x, k).
     (Returned (error (threads k t)), x\<lparr>completion_flag := RT_UNCOMPLETED\<rparr>, k))"

definition rt_completion_done :: "nat \<Rightarrow> rt_completion \<times> kernel \<Rightarrow> (rt_completion \<times> kernel) option" where
  "rt_completion_done c = (\<lambda>(x, k).
     if completion_flag x = RT_COMPLETED then Some (x, k)
     else let x = x\<lparr>completion_flag := RT_COMPLETED\<rparr>
       in if tlists k (SuspendCompletion c) \<noteq> [] then do {
            k \<leftarrow> rt_ipc_list_resume (SuspendCompletion c) k;
            k \<leftarrow> rt_schedule k;
            Some (x, k)
          } else Some (x, k))"

section \<open>Waiting and being woken\<close>

lemma completion_blocks:
  assumes k: "kinv k" and cur: "rt_current_thread k = Some t" and run: "runnable k t"
    and time: "time_ok timeout" "timeout \<noteq> 0" and nest: "rt_interrupt_nest k = 0"
    and none: "tlists k (SuspendCompletion c) = []" and f: "completion_flag x \<noteq> RT_COMPLETED"
  shows "\<exists>k'. rt_completion_wait c timeout (x, k) = Some (Suspended, x, k') \<and>
    blocked (SuspendCompletion c) t RT_IPC_FLAG_FIFO timeout (upd_thread t (\<lambda>y. y\<lparr>error := RT_EOK\<rparr>) k) k'"
proof -
  let ?h = "SuspendCompletion c" and ?k0 = "upd_thread t (\<lambda>y. y\<lparr>error := RT_EOK\<rparr>) k"
  have k0: "kinv ?k0" by (rule kinv_error [OF k])
  have r0: "runnable ?k0 t" using run by (simp add: kdefs runnable_def)
  obtain g where g: "rt_ipc_list_suspend ?h t RT_IPC_FLAG_FIFO ?k0 = Some (waiting ?h t RT_IPC_FLAG_FIFO ?k0 g)"
    using rt_ipc_list_suspend_spec [OF k0 r0, of RT_IPC_FLAG_FIFO ?h] by auto
  obtain k' where b: "ipc_block ?h t RT_IPC_FLAG_FIFO timeout ?k0 = Some k'"
      "blocked ?h t RT_IPC_FLAG_FIFO timeout ?k0 k'"
    using wait_start [OF k cur run _ time(1) _ refl, of RT_IPC_FLAG_FIFO ?h] by auto
  have "rt_interrupt_nest (waiting ?h t RT_IPC_FLAG_FIFO ?k0 g) = 0"
    using ipc_frameD(11) [OF enlisted_sel(7) [OF k0 r0]] nest by (simp add: kdefs)
  then have "rt_completion_wait c timeout (x, k) = Some (Suspended, x, k')"
    using b(1) g f none time(2) cur
    by (simp add: rt_completion_wait_def ipc_block_def rt_thread_self_def RT_DEBUG_NOT_IN_INTERRUPT_def
      rt_interrupt_get_nest_def)
  then show ?thesis using b(2) by blast
qed

lemma completion_wakes:
  assumes k: "kinv k" and cur: "rt_current_thread k \<noteq> None" and f: "completion_flag x \<noteq> RT_COMPLETED"
    and w: "tlists k (SuspendCompletion c) = t # ts"
  shows "\<exists>k'. rt_completion_done c (x, k) = Some (x\<lparr>completion_flag := RT_COMPLETED\<rparr>, k') \<and>
    woken (SuspendCompletion c) t k k'"
  using resume_schedule_spec [OF k cur _ w] f w
  by (auto simp: rt_completion_done_def returns_def bind_eq_Some_conv)

lemma completion_times_out:
  assumes k: "kinv k" and cur: "rt_current_thread k \<noteq> None" and w: "tlists k (SuspendCompletion c) = [t]"
    and f: "completion_flag x \<noteq> RT_COMPLETED" and t: "tstat k t = RT_THREAD_SUSPEND"
  shows "\<exists>k'. rt_thread_timeout t (rt_timer_remove (ThreadTimer t) k) = Some k' \<and> kinv k' \<and> runnable k' t \<and>
    rt_completion_done c (x, k') = Some (x\<lparr>completion_flag := RT_COMPLETED\<rparr>, k') \<and>
    rt_completion_wait_resume t (x\<lparr>completion_flag := RT_COMPLETED\<rparr>, k') =
      (Returned (- RT_ETIMEOUT), x\<lparr>completion_flag := RT_UNCOMPLETED\<rparr>, k')"
proof -
  let ?k = "rt_timer_remove (ThreadTimer t) k"
  have k1: "kinv ?k" by (rule kinv_timer_remove [OF k])
  have "distinct (rt_timer_list k)" using timer_invD(1) [OF kinvD(2) [OF k]] .
  then have s: "tstat ?k t = RT_THREAD_SUSPEND" "ThreadTimer t \<notin> set (rt_timer_list ?k)"
      "tlists ?k (SuspendCompletion c) = [t]"
    using t w by (simp_all add: rt_timer_remove_def)
  obtain cu where "rt_current_thread ?k = Some cu" using cur by (auto simp: rt_timer_remove_def)
  from timeout_wakes [OF k1 this s(1,2)] obtain k' where
    k': "rt_thread_timeout t ?k = Some k'" "timed_out t ?k k'" by (elim returnsE)
  then show ?thesis using s(3) f
    by (auto simp: timed_out_def rt_completion_done_def rt_completion_wait_resume_def)
qed

text \<open>
  C29. A completion, of which at most one thread waits. A report that has come is consumed at once;
  without one, time 0 gives a timeout; otherwise the thread waits, alone, with its timer armed when
  the time is limited. When the report comes, the thread can run, and its call returns RT_EOK with
  the report consumed. When instead the time runs out first, and the report comes before the thread
  runs, the call returns the timeout and the report is lost: the flag is cleared all the same.
\<close>

theorem rt_completion_correct:
  assumes k: "kinv k" and cur: "rt_current_thread k = Some t" and run: "tstat k t = RT_THREAD_RUNNING"
    and time: "time_ok timeout" and nest: "rt_interrupt_nest k = 0"
    and none: "tlists k (SuspendCompletion c) = []"
  shows "(completion_flag x = RT_COMPLETED \<longrightarrow>
      rt_completion_wait c timeout (x, k) = Some (Returned RT_EOK, x\<lparr>completion_flag := RT_UNCOMPLETED\<rparr>, k)) \<and>
    (completion_flag x \<noteq> RT_COMPLETED \<and> timeout = 0 \<longrightarrow>
      rt_completion_wait c timeout (x, k) = Some (Returned (- RT_ETIMEOUT), x, k)) \<and>
    (completion_flag x \<noteq> RT_COMPLETED \<and> timeout \<noteq> 0 \<longrightarrow>
      (\<exists>k1. rt_completion_wait c timeout (x, k) = Some (Suspended, x, k1) \<and>
        blocked (SuspendCompletion c) t RT_IPC_FLAG_FIFO timeout (upd_thread t (\<lambda>y. y\<lparr>error := RT_EOK\<rparr>) k) k1 \<and>
        tlists k1 (SuspendCompletion c) = [t] \<and>
        (\<exists>k2. rt_completion_done c (x, k1) = Some (x\<lparr>completion_flag := RT_COMPLETED\<rparr>, k2) \<and>
          woken (SuspendCompletion c) t k1 k2 \<and>
          rt_completion_wait_resume t (x\<lparr>completion_flag := RT_COMPLETED\<rparr>, k2) =
            (Returned RT_EOK, x\<lparr>completion_flag := RT_UNCOMPLETED\<rparr>, k2)) \<and>
        (\<exists>k2. rt_thread_timeout t (rt_timer_remove (ThreadTimer t) k1) = Some k2 \<and> kinv k2 \<and> runnable k2 t \<and>
          rt_completion_done c (x, k2) = Some (x\<lparr>completion_flag := RT_COMPLETED\<rparr>, k2) \<and>
          rt_completion_wait_resume t (x\<lparr>completion_flag := RT_COMPLETED\<rparr>, k2) =
            (Returned (- RT_ETIMEOUT), x\<lparr>completion_flag := RT_UNCOMPLETED\<rparr>, k2))))"
proof (intro conjI impI)
  show "completion_flag x = RT_COMPLETED \<Longrightarrow>
      rt_completion_wait c timeout (x, k) = Some (Returned RT_EOK, x\<lparr>completion_flag := RT_UNCOMPLETED\<rparr>, k)"
    by (simp add: rt_completion_wait_def)
  show "completion_flag x \<noteq> RT_COMPLETED \<and> timeout = 0 \<Longrightarrow>
      rt_completion_wait c timeout (x, k) = Some (Returned (- RT_ETIMEOUT), x, k)"
    using none by (simp add: rt_completion_wait_def)
  let ?k0 = "upd_thread t (\<lambda>y. y\<lparr>error := RT_EOK\<rparr>) k" and ?h = "SuspendCompletion c"
  assume f: "completion_flag x \<noteq> RT_COMPLETED \<and> timeout \<noteq> 0"
  have "runnable k t" using run by (simp add: runnable_def)
  then obtain k1 where k1: "rt_completion_wait c timeout (x, k) = Some (Suspended, x, k1)"
      "blocked ?h t RT_IPC_FLAG_FIFO timeout ?k0 k1"
    using completion_blocks [OF k cur _ time _ nest none] f by blast
  have w: "tlists k1 ?h = [t]" and e: "error (threads k1 t) = RT_EOK" and i: "kinv k1" "rt_current_thread k1 \<noteq> None"
    using k1(2) none by (simp_all add: blocked_on_def wait_insert_def kdefs)
  obtain k2 where k2: "rt_completion_done c (x, k1) = Some (x\<lparr>completion_flag := RT_COMPLETED\<rparr>, k2)" "woken ?h t k1 k2"
    using completion_wakes [OF i _ w] f by blast
  have "rt_completion_wait_resume t (x\<lparr>completion_flag := RT_COMPLETED\<rparr>, k2) =
      (Returned RT_EOK, x\<lparr>completion_flag := RT_UNCOMPLETED\<rparr>, k2)"
    using k2(2) e by (simp add: woken_def rt_completion_wait_resume_def)
  moreover obtain k3 where k3: "rt_thread_timeout t (rt_timer_remove (ThreadTimer t) k1) = Some k3" "kinv k3" "runnable k3 t"
      "rt_completion_done c (x, k3) = Some (x\<lparr>completion_flag := RT_COMPLETED\<rparr>, k3)"
      "rt_completion_wait_resume t (x\<lparr>completion_flag := RT_COMPLETED\<rparr>, k3) =
        (Returned (- RT_ETIMEOUT), x\<lparr>completion_flag := RT_UNCOMPLETED\<rparr>, k3)"
    using completion_times_out [OF i w, of x] f k1(2) by (auto simp: blocked_on_def)
  ultimately show "\<exists>k1. rt_completion_wait c timeout (x, k) = Some (Suspended, x, k1) \<and>
        blocked ?h t RT_IPC_FLAG_FIFO timeout ?k0 k1 \<and> tlists k1 ?h = [t] \<and>
        (\<exists>k2. rt_completion_done c (x, k1) = Some (x\<lparr>completion_flag := RT_COMPLETED\<rparr>, k2) \<and>
          woken ?h t k1 k2 \<and>
          rt_completion_wait_resume t (x\<lparr>completion_flag := RT_COMPLETED\<rparr>, k2) =
            (Returned RT_EOK, x\<lparr>completion_flag := RT_UNCOMPLETED\<rparr>, k2)) \<and>
        (\<exists>k2. rt_thread_timeout t (rt_timer_remove (ThreadTimer t) k1) = Some k2 \<and> kinv k2 \<and> runnable k2 t \<and>
          rt_completion_done c (x, k2) = Some (x\<lparr>completion_flag := RT_COMPLETED\<rparr>, k2) \<and>
          rt_completion_wait_resume t (x\<lparr>completion_flag := RT_COMPLETED\<rparr>, k2) =
            (Returned (- RT_ETIMEOUT), x\<lparr>completion_flag := RT_UNCOMPLETED\<rparr>, k2))"
    using k1 k2 w by blast
qed

theorem rt_completion_correct_witness:
  "\<exists>k1 k2. rt_completion_wait 0 (- 1) (\<lparr>completion_flag = 0\<rparr>, example_kernel) = Some (Suspended, \<lparr>completion_flag = 0\<rparr>, k1) \<and>
     rt_completion_done 0 (\<lparr>completion_flag = 0\<rparr>, k1) = Some (\<lparr>completion_flag = 1\<rparr>, k2) \<and>
     rt_completion_wait_resume 1 (\<lparr>completion_flag = 1\<rparr>, k2) = (Returned RT_EOK, \<lparr>completion_flag = 0\<rparr>, k2)"
proof -
  have "rt_current_thread example_kernel = Some 1" "tstat example_kernel 1 = RT_THREAD_RUNNING"
    "time_ok (- 1)" "rt_interrupt_nest example_kernel = 0" "tlists example_kernel (SuspendCompletion 0) = []"
    by (simp_all add: time_ok_def)
  from rt_completion_correct [OF kinv_example this, of "\<lparr>completion_flag = 0\<rparr>"] show ?thesis by auto
qed

end
