(* ===== verification/Dataqueue.thy ===== *)
theory Dataqueue
  imports Completion Fifo
begin

text \<open>
  Data queues of the device drivers: \<^verbatim>\<open>components/drivers/src/dataqueue.c\<close>. A circular array of
  data items with a list of waiting producers and one of waiting consumers; producers are woken
  when no more than \<^verbatim>\<open>lwm\<close> items are left. The two indices are 16-bit counters that are never
  reduced modulo the size, and their difference is computed in \<^verbatim>\<open>int\<close>. The queue behaves as a
  FIFO until the put index wraps around after 65536 items; from then on, as long as the get index
  has not wrapped around too, a full queue is not recognised.
\<close>

section \<open>The code\<close>

record rt_data_item =
  data_ptr :: u32
  data_size :: u32

record rt_data_queue =
  dq_size :: u16
  lwm :: u16
  get_index :: u16
  put_index :: u16
  items :: "rt_data_item list"
  evt_notify :: bool

text \<open>
  \<open>evt_notify\<close> says whether the driver has registered a function; its call is a result of the
  operation, the number of the event.
\<close>

abbreviation (input) RT_DATAQUEUE_EVENT_POP :: u32 where "RT_DATAQUEUE_EVENT_POP \<equiv> 1"
abbreviation (input) RT_DATAQUEUE_EVENT_PUSH :: u32 where "RT_DATAQUEUE_EVENT_PUSH \<equiv> 2"
abbreviation (input) RT_DATAQUEUE_EVENT_LWM :: u32 where "RT_DATAQUEUE_EVENT_LWM \<equiv> 3"

definition notify :: "rt_data_queue \<Rightarrow> u32 \<Rightarrow> u32 option" where
  "notify q ev = (if evt_notify q then Some ev else None)"

text \<open>\<^verbatim>\<open>RT_DATAQUEUE_SIZE\<close>: the operands are promoted to \<^verbatim>\<open>int\<close>, so that the result may be negative.\<close>

definition RT_DATAQUEUE_SIZE :: "rt_data_queue \<Rightarrow> int" where
  "RT_DATAQUEUE_SIZE q = uint (put_index q) - uint (get_index q)"

definition rt_data_queue_init ::
    "nat \<Rightarrow> u16 \<Rightarrow> u16 \<Rightarrow> bool \<Rightarrow> rt_data_item list option \<Rightarrow> rt_data_queue \<times> kernel \<Rightarrow>
     rt_err_t \<times> rt_data_queue \<times> kernel" where
  "rt_data_queue_init d sz low fn mallocd = (\<lambda>(q, k).
     let q = q\<lparr>evt_notify := fn, dq_size := sz, lwm := low, get_index := 0, put_index := 0\<rparr>;
         k = k\<lparr>tlists := (tlists k)(SuspendPush d := [])\<rparr>;
         k = k\<lparr>tlists := (tlists k)(SuspendPop d := [])\<rparr>
     in case mallocd of
          None \<Rightarrow> (- RT_ENOMEM, q\<lparr>items := []\<rparr>, k)
        | Some m \<Rightarrow> (RT_EOK, q\<lparr>items := m\<rparr>, k))"

definition dq_put :: "rt_data_item \<Rightarrow> rt_data_queue \<Rightarrow> rt_data_queue option" where
  "dq_put item q = do {
     rt_assert (dq_size q \<noteq> 0);
     let i = unat (put_index q) mod unat (dq_size q);
     rt_assert (i < length (items q));
     Some (q\<lparr>items := (items q)[i := item], put_index := put_index q + 1\<rparr>)
   }"

definition dq_front :: "rt_data_queue \<Rightarrow> rt_data_item option" where
  "dq_front q = do {
     rt_assert (dq_size q \<noteq> 0);
     let i = unat (get_index q) mod unat (dq_size q);
     rt_assert (i < length (items q));
     Some (items q ! i)
   }"

definition dq_take :: "rt_data_queue \<Rightarrow> (rt_data_item \<times> rt_data_queue) option" where
  "dq_take q = do {
     item \<leftarrow> dq_front q;
     Some (item, q\<lparr>get_index := get_index q + 1\<rparr>)
   }"

text \<open>
  One turn of the loop of a push, with the push itself when the queue is not full. A producer
  that is woken looks again, with the same timeout.
\<close>

definition push_loop :: "nat \<Rightarrow> rt_data_item \<Rightarrow> int \<Rightarrow> rt_data_queue \<times> kernel \<Rightarrow>
    ((rt_err_t \<times> u32 option) wait_result \<times> rt_data_queue \<times> kernel) option" where
  "push_loop d item timeout = (\<lambda>(q, k).
     if RT_DATAQUEUE_SIZE q = uint (dq_size q) then
       if timeout = 0 then Some (Returned (- RT_ETIMEOUT, None), q, k)
       else do {
         RT_DEBUG_NOT_IN_INTERRUPT k;
         t \<leftarrow> rt_thread_self k;
         k \<leftarrow> ipc_block (SuspendPush d) t RT_IPC_FLAG_FIFO timeout (upd_thread t (\<lambda>x. x\<lparr>error := RT_EOK\<rparr>) k);
         Some (Suspended, q, k)
       }
     else do {
       q \<leftarrow> dq_put item q;
       if tlists k (SuspendPop d) \<noteq> [] then do {
         k \<leftarrow> rt_ipc_list_resume (SuspendPop d) k;
         k \<leftarrow> rt_schedule k;
         Some (Returned (RT_EOK, None), q, k)
       } else Some (Returned (RT_EOK, notify q RT_DATAQUEUE_EVENT_PUSH), q, k)
     })"

definition rt_data_queue_push :: "nat \<Rightarrow> rt_data_item \<Rightarrow> int \<Rightarrow> rt_data_queue \<times> kernel \<Rightarrow>
    ((rt_err_t \<times> u32 option) wait_result \<times> rt_data_queue \<times> kernel) option" where
  "rt_data_queue_push d item timeout s = push_loop d item timeout s"

definition rt_data_queue_push_resume :: "nat \<Rightarrow> nat \<Rightarrow> rt_data_item \<Rightarrow> int \<Rightarrow> rt_data_queue \<times> kernel \<Rightarrow>
    ((rt_err_t \<times> u32 option) wait_result \<times> rt_data_queue \<times> kernel) option" where
  "rt_data_queue_push_resume t d item timeout = (\<lambda>(q, k).
     if error (threads k t) \<noteq> RT_EOK then Some (Returned (error (threads k t), None), q, k)
     else push_loop d item timeout (q, k))"

definition pop_loop :: "nat \<Rightarrow> int \<Rightarrow> rt_data_queue \<times> kernel \<Rightarrow>
    ((rt_err_t \<times> rt_data_item option \<times> u32 option) wait_result \<times> rt_data_queue \<times> kernel) option" where
  "pop_loop d timeout = (\<lambda>(q, k).
     if get_index q = put_index q then
       if timeout = 0 then Some (Returned (- RT_ETIMEOUT, None, None), q, k)
       else do {
         RT_DEBUG_NOT_IN_INTERRUPT k;
         t \<leftarrow> rt_thread_self k;
         k \<leftarrow> ipc_block (SuspendPop d) t RT_IPC_FLAG_FIFO timeout (upd_thread t (\<lambda>x. x\<lparr>error := RT_EOK\<rparr>) k);
         Some (Suspended, q, k)
       }
     else do {
       (item, q) \<leftarrow> dq_take q;
       if RT_DATAQUEUE_SIZE q \<le> uint (lwm q) then do {
         k \<leftarrow> (if tlists k (SuspendPush d) \<noteq> [] then do {
                 k \<leftarrow> rt_ipc_list_resume (SuspendPush d) k;
                 k \<leftarrow> rt_schedule k;
                 Some k
               } else Some k);
         Some (Returned (RT_EOK, Some item, notify q RT_DATAQUEUE_EVENT_LWM), q, k)
       } else Some (Returned (RT_EOK, Some item, notify q RT_DATAQUEUE_EVENT_POP), q, k)
     })"

definition rt_data_queue_pop :: "nat \<Rightarrow> int \<Rightarrow> rt_data_queue \<times> kernel \<Rightarrow>
    ((rt_err_t \<times> rt_data_item option \<times> u32 option) wait_result \<times> rt_data_queue \<times> kernel) option" where
  "rt_data_queue_pop d timeout s = pop_loop d timeout s"

definition rt_data_queue_pop_resume :: "nat \<Rightarrow> nat \<Rightarrow> int \<Rightarrow> rt_data_queue \<times> kernel \<Rightarrow>
    ((rt_err_t \<times> rt_data_item option \<times> u32 option) wait_result \<times> rt_data_queue \<times> kernel) option" where
  "rt_data_queue_pop_resume t d timeout = (\<lambda>(q, k).
     if error (threads k t) \<noteq> RT_EOK then Some (Returned (error (threads k t), None, None), q, k)
     else pop_loop d timeout (q, k))"

definition rt_data_queue_peak :: "rt_data_queue \<Rightarrow> (rt_err_t \<times> rt_data_item option) option" where
  "rt_data_queue_peak q =
     (if get_index q = put_index q then Some (- RT_EEMPTY, None)
      else do { item \<leftarrow> dq_front q; Some (RT_EOK, Some item) })"

text \<open>The two loops of the reset wake everybody up; the indices and the items stay.\<close>

definition rt_data_queue_reset :: "nat \<Rightarrow> kernel \<Rightarrow> kernel option" where
  "rt_data_queue_reset d k = do {
     let k = rt_enter_critical k;
     k \<leftarrow> rt_ipc_list_resume_all (SuspendPop d) k;
     k \<leftarrow> rt_ipc_list_resume_all (SuspendPush d) k;
     k \<leftarrow> rt_exit_critical k;
     rt_schedule k
   }"

section \<open>A FIFO until the indices wrap around\<close>

definition dq_inv :: "rt_data_queue \<Rightarrow> bool" where
  "dq_inv q \<longleftrightarrow> dq_size q \<noteq> 0 \<and> length (items q) = unat (dq_size q) \<and> get_index q \<le> put_index q \<and>
     unat (put_index q) \<le> unat (get_index q) + unat (dq_size q)"

definition queued :: "rt_data_queue \<Rightarrow> rt_data_item list" where
  "queued q = ring_read (items q) (unat (dq_size q)) (unat (get_index q)) (unat (put_index q) - unat (get_index q))"

lemma length_queued [simp]: "length (queued q) = unat (put_index q) - unat (get_index q)"
  by (simp add: queued_def)

lemma dq_full_empty:
  assumes "dq_inv q"
  shows "RT_DATAQUEUE_SIZE q = int (length (queued q))"
    and "RT_DATAQUEUE_SIZE q = uint (dq_size q) \<longleftrightarrow> length (queued q) = unat (dq_size q)"
    and "RT_DATAQUEUE_SIZE q \<le> uint (lwm q) \<longleftrightarrow> length (queued q) \<le> unat (lwm q)"
    and "get_index q = put_index q \<longleftrightarrow> queued q = []" and "length (queued q) \<le> unat (dq_size q)"
proof -
  have le: "unat (get_index q) \<le> unat (put_index q)" using assms by (simp add: dq_inv_def word_le_nat_alt)
  have s: "RT_DATAQUEUE_SIZE q = int (length (queued q))"
    unfolding RT_DATAQUEUE_SIZE_def length_queued uint_nat using le by simp
  then show "RT_DATAQUEUE_SIZE q = int (length (queued q))" .
  show "RT_DATAQUEUE_SIZE q = uint (dq_size q) \<longleftrightarrow> length (queued q) = unat (dq_size q)"
    unfolding s uint_nat by (simp only: of_nat_eq_iff of_nat_le_iff)
  show "RT_DATAQUEUE_SIZE q \<le> uint (lwm q) \<longleftrightarrow> length (queued q) \<le> unat (lwm q)"
    unfolding s uint_nat by (simp only: of_nat_eq_iff of_nat_le_iff)
  have "queued q = [] \<longleftrightarrow> length (queued q) = 0" by blast
  then show "get_index q = put_index q \<longleftrightarrow> queued q = []"
    using le by (auto simp: word_unat_eq_iff)
  show "length (queued q) \<le> unat (dq_size q)" using assms by (simp add: dq_inv_def le_diff_conv add.commute)
qed

lemma dq_put_spec:
  assumes q: "dq_inv q" and room: "length (queued q) < unat (dq_size q)" and p: "put_index q \<noteq> 0xffff"
  shows "returns (dq_put x q) (\<lambda>q'. dq_inv q' \<and> queued q' = queued q @ [x] \<and>
    evt_notify q' = evt_notify q \<and> dq_size q' = dq_size q \<and> lwm q' = lwm q)"
proof -
  let ?n = "unat (dq_size q)" and ?g = "unat (get_index q)" and ?p = "unat (put_index q)"
  note i = q [unfolded dq_inv_def]
  have "put_index q = 0xffff" if "?p = 65535" by (rule word_unat_eq_iff [THEN iffD2]) (simp add: that)
  with p have "?p \<noteq> 65535" by blast
  then have p1: "unat (put_index q + 1) = Suc ?p"
    using unsigned_less [of "put_index q", where ?'a = nat] by (simp add: unat_word_ariths)
  have le: "?g \<le> ?p" using i by (simp add: word_le_nat_alt)
  have n: "0 < ?n" using i by (simp add: unat_gt_0)
  then have lt: "?p mod ?n < length (items q)" using i by simp
  let ?q = "q\<lparr>items := (items q)[?p mod ?n := x], put_index := put_index q + 1\<rparr>"
  have "queued ?q = queued q @ [x]"
    using ring_read_write [of "?p - ?g" ?n "items q" ?g x] room i le by (simp add: queued_def p1 Suc_diff_le)
  moreover have "dq_inv ?q" using i room le p1 by (simp add: dq_inv_def word_le_nat_alt)
  moreover have "dq_put x q = Some ?q" using i lt by (simp add: dq_put_def Let_def)
  ultimately show ?thesis by simp
qed

lemma dq_take_spec:
  assumes q: "dq_inv q" and some: "queued q \<noteq> []"
  shows "returns (dq_take q) (\<lambda>(y, q'). y = hd (queued q) \<and> dq_inv q' \<and> queued q' = tl (queued q) \<and>
    evt_notify q' = evt_notify q \<and> dq_size q' = dq_size q \<and> lwm q' = lwm q \<and> put_index q' = put_index q)"
    and "dq_front q = Some (hd (queued q))"
proof -
  let ?n = "unat (dq_size q)" and ?g = "unat (get_index q)" and ?p = "unat (put_index q)"
  note i = q [unfolded dq_inv_def]
  have "length (queued q) \<noteq> 0" using some by (simp only: length_0_conv not_False_eq_True)
  then have lt: "?g < ?p" by simp
  then have "get_index q < put_index q" by (simp add: word_less_nat_alt)
  then have g1: "unat (get_index q + 1) = Suc ?g" by (rule unat_Suc_less)
  have n: "0 < ?n" using i by (simp add: unat_gt_0)
  then have l: "?g mod ?n < length (items q)" using i by simp
  have "?p - ?g = Suc (?p - Suc ?g)" using lt by simp
  then have e: "queued q = items q ! (?g mod ?n) # ring_read (items q) ?n (Suc ?g) (?p - Suc ?g)"
    unfolding queued_def by (simp only: ring_read_Suc)
  show f: "dq_front q = Some (hd (queued q))" using i l by (simp add: dq_front_def Let_def e)
  let ?q = "q\<lparr>get_index := get_index q + 1\<rparr>"
  have "queued ?q = tl (queued q)" unfolding e by (simp add: queued_def g1)
  moreover have "dq_inv ?q" using i lt g1 by (simp add: dq_inv_def word_le_nat_alt)
  moreover have "dq_take q = Some (hd (queued q), ?q)" using f by (simp add: dq_take_def)
  ultimately show "returns (dq_take q) (\<lambda>(y, q'). y = hd (queued q) \<and> dq_inv q' \<and> queued q' = tl (queued q) \<and>
    evt_notify q' = evt_notify q \<and> dq_size q' = dq_size q \<and> lwm q' = lwm q \<and> put_index q' = put_index q)" by simp
qed

section \<open>Pushing and popping\<close>

lemma push_loop_spec:
  assumes k: "kinv k" and cur: "rt_current_thread k = Some t" and run: "runnable k t"
    and time: "time_ok timeout" and nest: "rt_interrupt_nest k = 0" and q: "dq_inv q"
  shows "length (queued q) < unat (dq_size q) \<Longrightarrow> put_index q \<noteq> 0xffff \<Longrightarrow>
      \<exists>ev q' k'. push_loop d item timeout (q, k) = Some (Returned (RT_EOK, ev), q', k') \<and> dq_inv q' \<and>
        queued q' = queued q @ [item] \<and> passed (SuspendPop d) k k' \<and>
        ev = (if tlists k (SuspendPop d) = [] then notify q RT_DATAQUEUE_EVENT_PUSH else None)"
    and "length (queued q) = unat (dq_size q) \<Longrightarrow> timeout = 0 \<Longrightarrow>
      push_loop d item timeout (q, k) = Some (Returned (- RT_ETIMEOUT, None), q, k)"
    and "length (queued q) = unat (dq_size q) \<Longrightarrow> timeout \<noteq> 0 \<Longrightarrow>
      \<exists>k'. push_loop d item timeout (q, k) = Some (Suspended, q, k') \<and>
        blocked (SuspendPush d) t RT_IPC_FLAG_FIFO timeout (upd_thread t (\<lambda>x. x\<lparr>error := RT_EOK\<rparr>) k) k'"
proof -
  note fe = dq_full_empty [OF q]
  have c: "rt_current_thread k \<noteq> None" using cur by simp
  show "\<exists>ev q' k'. push_loop d item timeout (q, k) = Some (Returned (RT_EOK, ev), q', k') \<and> dq_inv q' \<and>
        queued q' = queued q @ [item] \<and> passed (SuspendPop d) k k' \<and>
        ev = (if tlists k (SuspendPop d) = [] then notify q RT_DATAQUEUE_EVENT_PUSH else None)"
    if room: "length (queued q) < unat (dq_size q)" and p: "put_index q \<noteq> 0xffff"
  proof -
    obtain q' where q': "dq_put item q = Some q'" "dq_inv q'" "queued q' = queued q @ [item]"
        "evt_notify q' = evt_notify q"
      using dq_put_spec [OF q room p, of item] by (auto elim!: returnsE)
    let ?ev = "if tlists k (SuspendPop d) = [] then notify q' RT_DATAQUEUE_EVENT_PUSH else None"
    obtain k' where k': "(if tlists k (SuspendPop d) \<noteq> [] then do {
        k \<leftarrow> rt_ipc_list_resume (SuspendPop d) k;
        k \<leftarrow> rt_schedule k;
        Some (?ev, k) } else Some (?ev, k)) = Some (?ev, k')" "passed (SuspendPop d) k k'"
      using wake_first [OF k c, of "SuspendPop d" ?ev] by auto
    have "push_loop d item timeout (q, k) = Some (Returned (RT_EOK, ?ev), q', k')"
      using k'(1) room fe(2) q'(1) by (auto simp: push_loop_def bind_eq_Some_conv split: if_splits)
    then show ?thesis using q' k'(2) by (auto simp: notify_def)
  qed
  show "push_loop d item timeout (q, k) = Some (Returned (- RT_ETIMEOUT, None), q, k)"
    if "length (queued q) = unat (dq_size q)" "timeout = 0"
    using that fe(2) by (simp add: push_loop_def)
  show "\<exists>k'. push_loop d item timeout (q, k) = Some (Suspended, q, k') \<and>
        blocked (SuspendPush d) t RT_IPC_FLAG_FIFO timeout (upd_thread t (\<lambda>x. x\<lparr>error := RT_EOK\<rparr>) k) k'"
    if full: "length (queued q) = unat (dq_size q)" and "timeout \<noteq> 0"
  proof -
    obtain k' where "ipc_block (SuspendPush d) t RT_IPC_FLAG_FIFO timeout (upd_thread t (\<lambda>x. x\<lparr>error := RT_EOK\<rparr>) k) = Some k'"
        "blocked (SuspendPush d) t RT_IPC_FLAG_FIFO timeout (upd_thread t (\<lambda>x. x\<lparr>error := RT_EOK\<rparr>) k) k'"
      by (rule wait_start [OF k cur run _ time _ refl, of RT_IPC_FLAG_FIFO "SuspendPush d"]) auto
    moreover have "RT_DATAQUEUE_SIZE q = uint (dq_size q)"
      using full fe by simp
    ultimately show ?thesis using \<open>timeout \<noteq> 0\<close> nest cur
      by (simp add: push_loop_def RT_DEBUG_NOT_IN_INTERRUPT_def rt_interrupt_get_nest_def rt_thread_self_def)
  qed
qed

lemma pop_loop_spec:
  assumes k: "kinv k" and cur: "rt_current_thread k = Some t" and run: "runnable k t"
    and time: "time_ok timeout" and nest: "rt_interrupt_nest k = 0" and q: "dq_inv q"
  shows "queued q = x # xs \<Longrightarrow>
      \<exists>ev q' k'. pop_loop d timeout (q, k) = Some (Returned (RT_EOK, Some x, ev), q', k') \<and> dq_inv q' \<and>
        queued q' = xs \<and> (if length xs \<le> unat (lwm q) then passed (SuspendPush d) k k' else k' = k) \<and>
        ev = notify q (if length xs \<le> unat (lwm q) then RT_DATAQUEUE_EVENT_LWM else RT_DATAQUEUE_EVENT_POP)"
    and "queued q = [] \<Longrightarrow> timeout = 0 \<Longrightarrow>
      pop_loop d timeout (q, k) = Some (Returned (- RT_ETIMEOUT, None, None), q, k)"
    and "queued q = [] \<Longrightarrow> timeout \<noteq> 0 \<Longrightarrow>
      \<exists>k'. pop_loop d timeout (q, k) = Some (Suspended, q, k') \<and>
        blocked (SuspendPop d) t RT_IPC_FLAG_FIFO timeout (upd_thread t (\<lambda>x. x\<lparr>error := RT_EOK\<rparr>) k) k'"
proof -
  note fe = dq_full_empty [OF q]
  have c: "rt_current_thread k \<noteq> None" using cur by simp
  show "\<exists>ev q' k'. pop_loop d timeout (q, k) = Some (Returned (RT_EOK, Some x, ev), q', k') \<and> dq_inv q' \<and>
        queued q' = xs \<and> (if length xs \<le> unat (lwm q) then passed (SuspendPush d) k k' else k' = k) \<and>
        ev = notify q (if length xs \<le> unat (lwm q) then RT_DATAQUEUE_EVENT_LWM else RT_DATAQUEUE_EVENT_POP)"
    if some: "queued q = x # xs"
  proof -
    obtain q' where q': "dq_take q = Some (x, q')" "dq_inv q'" "queued q' = xs"
        "evt_notify q' = evt_notify q" "lwm q' = lwm q"
      using dq_take_spec(1) [OF q] some by (auto elim!: returnsE)
    have low: "RT_DATAQUEUE_SIZE q' \<le> uint (lwm q') \<longleftrightarrow> length xs \<le> unat (lwm q)"
      using dq_full_empty(3) [OF q'(2)] q'(3,5) by simp
    have ne: "get_index q \<noteq> put_index q" using fe(4) some by simp
    obtain k' where k': "(if tlists k (SuspendPush d) \<noteq> [] then do {
        k \<leftarrow> rt_ipc_list_resume (SuspendPush d) k;
        k \<leftarrow> rt_schedule k;
        Some ((), k) } else Some ((), k)) = Some ((), k')" "passed (SuspendPush d) k k'"
      using wake_first [OF k c, of "SuspendPush d" "()"] by auto
    have w: "(if tlists k (SuspendPush d) \<noteq> [] then do {
        k \<leftarrow> rt_ipc_list_resume (SuspendPush d) k;
        k \<leftarrow> rt_schedule k;
        Some k } else Some k) = Some k'"
      using k'(1) by (auto simp: bind_eq_Some_conv split: if_splits)
    show ?thesis
    proof (cases "length xs \<le> unat (lwm q)")
      case True
      then have "pop_loop d timeout (q, k) = Some (Returned (RT_EOK, Some x, notify q' RT_DATAQUEUE_EVENT_LWM), q', k')"
        using ne q'(1) low w by (simp add: pop_loop_def)
      then show ?thesis using True q' k'(2) by (auto simp: notify_def)
    next
      case False
      then have "pop_loop d timeout (q, k) = Some (Returned (RT_EOK, Some x, notify q' RT_DATAQUEUE_EVENT_POP), q', k)"
        using ne q'(1) low by (simp add: pop_loop_def)
      then show ?thesis using False q' by (auto simp: notify_def)
    qed
  qed
  show "pop_loop d timeout (q, k) = Some (Returned (- RT_ETIMEOUT, None, None), q, k)"
    if "queued q = []" "timeout = 0"
    using that fe(4) by (simp add: pop_loop_def)
  show "\<exists>k'. pop_loop d timeout (q, k) = Some (Suspended, q, k') \<and>
        blocked (SuspendPop d) t RT_IPC_FLAG_FIFO timeout (upd_thread t (\<lambda>x. x\<lparr>error := RT_EOK\<rparr>) k) k'"
    if full: "queued q = []" and "timeout \<noteq> 0"
  proof -
    obtain k' where "ipc_block (SuspendPop d) t RT_IPC_FLAG_FIFO timeout (upd_thread t (\<lambda>x. x\<lparr>error := RT_EOK\<rparr>) k) = Some k'"
        "blocked (SuspendPop d) t RT_IPC_FLAG_FIFO timeout (upd_thread t (\<lambda>x. x\<lparr>error := RT_EOK\<rparr>) k) k'"
      by (rule wait_start [OF k cur run _ time _ refl, of RT_IPC_FLAG_FIFO "SuspendPop d"]) auto
    moreover have "get_index q = put_index q"
      using full fe by simp
    ultimately show ?thesis using \<open>timeout \<noteq> 0\<close> nest cur
      by (simp add: pop_loop_def RT_DEBUG_NOT_IN_INTERRUPT_def rt_interrupt_get_nest_def rt_thread_self_def)
  qed
qed


text \<open>
  C28. \<^verbatim>\<open>rt_data_queue_push\<close> and \<^verbatim>\<open>rt_data_queue_pop\<close> called by the running thread, as long as the
  put index has not reached its largest value. A push appends its item unless the queue is full; the first
  waiting consumer can run, and only when there is none the push event is raised; on a full queue it times
  out at once with time 0, and otherwise waits behind the other producers. A pop takes the oldest item; when
  no more than \<open>lwm\<close> items are left the first waiting producer can run and the low-water event is raised, else
  the pop event; on an empty queue it times out at once or waits behind the other consumers.
\<close>

theorem data_queue_correct:
  assumes k: "kinv k" and cur: "rt_current_thread k = Some t" and run: "tstat k t = RT_THREAD_RUNNING"
    and time: "time_ok timeout" and nest: "rt_interrupt_nest k = 0" and q: "dq_inv q"
  shows "(length (queued q) < unat (dq_size q) \<and> put_index q \<noteq> 0xffff \<longrightarrow>
      (\<exists>ev q' k'. rt_data_queue_push d item timeout (q, k) = Some (Returned (RT_EOK, ev), q', k') \<and> dq_inv q' \<and>
        queued q' = queued q @ [item] \<and> passed (SuspendPop d) k k' \<and>
        ev = (if tlists k (SuspendPop d) = [] then notify q RT_DATAQUEUE_EVENT_PUSH else None))) \<and>
    (length (queued q) = unat (dq_size q) \<longrightarrow>
      (if timeout = 0 then rt_data_queue_push d item timeout (q, k) = Some (Returned (- RT_ETIMEOUT, None), q, k)
       else \<exists>k'. rt_data_queue_push d item timeout (q, k) = Some (Suspended, q, k') \<and>
         blocked (SuspendPush d) t RT_IPC_FLAG_FIFO timeout (upd_thread t (\<lambda>x. x\<lparr>error := RT_EOK\<rparr>) k) k')) \<and>
    (\<forall>x xs. queued q = x # xs \<longrightarrow> rt_data_queue_peak q = Some (RT_EOK, Some x) \<and>
      (\<exists>ev q' k'. rt_data_queue_pop d timeout (q, k) = Some (Returned (RT_EOK, Some x, ev), q', k') \<and> dq_inv q' \<and>
        queued q' = xs \<and> (if length xs \<le> unat (lwm q) then passed (SuspendPush d) k k' else k' = k) \<and>
        ev = notify q (if length xs \<le> unat (lwm q) then RT_DATAQUEUE_EVENT_LWM else RT_DATAQUEUE_EVENT_POP))) \<and>
    (queued q = [] \<longrightarrow> rt_data_queue_peak q = Some (- RT_EEMPTY, None) \<and>
      (if timeout = 0 then rt_data_queue_pop d timeout (q, k) = Some (Returned (- RT_ETIMEOUT, None, None), q, k)
       else \<exists>k'. rt_data_queue_pop d timeout (q, k) = Some (Suspended, q, k') \<and>
         blocked (SuspendPop d) t RT_IPC_FLAG_FIFO timeout (upd_thread t (\<lambda>x. x\<lparr>error := RT_EOK\<rparr>) k) k'))"
proof -
  have r: "runnable k t" using run by (simp add: runnable_def)
  note push = push_loop_spec [OF k cur r time nest q, folded rt_data_queue_push_def, where d = d and item = item]
  note pop = pop_loop_spec [OF k cur r time nest q, folded rt_data_queue_pop_def, where d = d]
  note fe = dq_full_empty(4) [OF q]
  have peak: "rt_data_queue_peak q = Some (RT_EOK, Some x)" if "queued q = x # xs" for x xs
    using dq_take_spec(2) [OF q] that fe by (simp add: rt_data_queue_peak_def)
  show ?thesis
    using push pop peak fe
    by (intro conjI allI impI) (auto simp: rt_data_queue_peak_def)
qed

text \<open>A queue of two items with the item at 7 in it, whose indices have advanced.\<close>

definition example_dq :: rt_data_queue where
  "example_dq = \<lparr>dq_size = 2, lwm = 1, get_index = 4, put_index = 5,
     items = [\<lparr>data_ptr = 7, data_size = 1\<rparr>, \<lparr>data_ptr = 0, data_size = 0\<rparr>], evt_notify = True\<rparr>"

theorem data_queue_correct_witness:
  "\<exists>q1 k1 q2 k2. rt_data_queue_push 0 \<lparr>data_ptr = 9, data_size = 3\<rparr> 0 (example_dq, example_kernel) =
      Some (Returned (RT_EOK, Some 2), q1, k1) \<and> length (queued q1) = 2 \<and>
    rt_data_queue_pop 0 0 (example_dq, example_kernel) =
      Some (Returned (RT_EOK, Some \<lparr>data_ptr = 7, data_size = 1\<rparr>, Some 3), q2, k2) \<and> queued q2 = []"
proof -
  have c: "rt_current_thread example_kernel = Some 1" "tstat example_kernel 1 = RT_THREAD_RUNNING"
    "time_ok 0" "rt_interrupt_nest example_kernel = 0" and l: "tlists example_kernel (SuspendPop 0) = []"
    by (simp_all add: time_ok_def)
  have q: "dq_inv example_dq" "queued example_dq = [\<lparr>data_ptr = 7, data_size = 1\<rparr>]" "unat (dq_size example_dq) = 2"
    "put_index example_dq \<noteq> 0xffff" "notify example_dq ev = Some ev" for ev
    by (simp_all add: example_dq_def dq_inv_def queued_def ring_read_def notify_def)
  note m = data_queue_correct [OF kinv_example c q(1), where d = 0 and item = "\<lparr>data_ptr = 9, data_size = 3\<rparr>"]
  have "length (queued example_dq) < unat (dq_size example_dq)" using q(2,3) by simp
  then obtain q1 k1 where "rt_data_queue_push 0 \<lparr>data_ptr = 9, data_size = 3\<rparr> 0 (example_dq, example_kernel) =
      Some (Returned (RT_EOK, Some 2), q1, k1)" and e: "queued q1 = queued example_dq @ [\<lparr>data_ptr = 9, data_size = 3\<rparr>]"
    using conjunct1 [OF m] q(4,5) l by auto
  moreover have "length (queued q1) = 2" unfolding e q(2) by simp
  moreover obtain q2 k2 where "rt_data_queue_pop 0 0 (example_dq, example_kernel) =
      Some (Returned (RT_EOK, Some \<lparr>data_ptr = 7, data_size = 1\<rparr>, Some 3), q2, k2)" "queued q2 = []"
    using conjunct1 [OF conjunct2 [OF conjunct2 [OF m]]] q(2,5) by auto
  ultimately show ?thesis by blast
qed

section \<open>When the put index wraps around\<close>

text \<open>Pushes, without waiting, of items one after the other, each of which must succeed.\<close>

primrec dq_pushes :: "nat \<Rightarrow> rt_data_item list \<Rightarrow> rt_data_queue \<times> kernel \<Rightarrow> (rt_data_queue \<times> kernel) option" where
  "dq_pushes d [] s = Some s"
| "dq_pushes d (x # xs) s =
     (case rt_data_queue_push d x 0 s of
        Some (Returned (e, _), s) \<Rightarrow> (if e = RT_EOK then dq_pushes d xs s else None)
      | _ \<Rightarrow> None)"

text \<open>\<open>n\<close> times a push that is followed by the pop of its item.\<close>

primrec dq_cycles :: "nat \<Rightarrow> rt_data_item \<Rightarrow> nat \<Rightarrow> rt_data_queue \<times> kernel \<Rightarrow> (rt_data_queue \<times> kernel) option" where
  "dq_cycles d x 0 s = Some s"
| "dq_cycles d x (Suc n) s =
     (case dq_cycles d x n s of
        Some s \<Rightarrow>
          (case dq_pushes d [x] s of
             Some s \<Rightarrow>
               (case rt_data_queue_pop d 0 s of
                  Some (Returned (e, y, _), s) \<Rightarrow> (if e = RT_EOK \<and> y = Some x then Some s else None)
                | _ \<Rightarrow> None)
           | None \<Rightarrow> None)
      | None \<Rightarrow> None)"

definition nobody_waits :: "nat \<Rightarrow> kernel \<Rightarrow> bool" where
  "nobody_waits d k \<longleftrightarrow> tlists k (SuspendPush d) = [] \<and> tlists k (SuspendPop d) = []"

lemma push_alone:
  assumes "nobody_waits d k" and "dq_size q \<noteq> 0" and "length (items q) = unat (dq_size q)"
    and "RT_DATAQUEUE_SIZE q \<noteq> uint (dq_size q)"
  shows "rt_data_queue_push d x 0 (q, k) = Some (Returned (RT_EOK, notify q RT_DATAQUEUE_EVENT_PUSH),
    q\<lparr>items := (items q)[unat (put_index q) mod unat (dq_size q) := x], put_index := put_index q + 1\<rparr>, k)"
proof -
  have "0 < unat (dq_size q)" using assms(2) by (simp add: unat_gt_0)
  then have "unat (put_index q) mod unat (dq_size q) < length (items q)" using assms(3) by simp
  then have "dq_put x q = Some (q\<lparr>items := (items q)[unat (put_index q) mod unat (dq_size q) := x],
      put_index := put_index q + 1\<rparr>)"
    using assms(2) by (simp add: dq_put_def Let_def)
  then show ?thesis
    using assms(1,4) by (simp add: rt_data_queue_push_def push_loop_def nobody_waits_def notify_def)
qed

lemma pop_alone:
  assumes "nobody_waits d k" and "dq_size q \<noteq> 0" and "length (items q) = unat (dq_size q)"
    and "get_index q \<noteq> put_index q"
  shows "\<exists>ev. rt_data_queue_pop d 0 (q, k) = Some (Returned (RT_EOK,
    Some (items q ! (unat (get_index q) mod unat (dq_size q))), ev), q\<lparr>get_index := get_index q + 1\<rparr>, k)"
proof -
  have "0 < unat (dq_size q)" using assms(2) by (simp add: unat_gt_0)
  then have "unat (get_index q) mod unat (dq_size q) < length (items q)" using assms(3) by simp
  then have "dq_take q = Some (items q ! (unat (get_index q) mod unat (dq_size q)), q\<lparr>get_index := get_index q + 1\<rparr>)"
    using assms(2) by (simp add: dq_take_def dq_front_def Let_def)
  then show ?thesis
    using assms(1,4) by (simp add: rt_data_queue_pop_def pop_loop_def nobody_waits_def)
qed

lemma dq_cycles_spec:
  assumes w: "nobody_waits d k" and q: "dq_size q \<noteq> 0" "length (items q) = unat (dq_size q)"
      "get_index q = 0" "put_index q = 0" and n: "n \<le> 65535"
  shows "\<exists>q'. dq_cycles d x n (q, k) = Some (q', k) \<and> dq_size q' = dq_size q \<and>
    length (items q') = unat (dq_size q) \<and> get_index q' = word_of_nat n \<and> put_index q' = word_of_nat n"
  using n
proof (induction n)
  case 0
  then show ?case using q by simp
next
  case (Suc n)
  then obtain q1 where q1: "dq_cycles d x n (q, k) = Some (q1, k)" "dq_size q1 = dq_size q"
      "length (items q1) = unat (dq_size q)" "get_index q1 = word_of_nat n" "put_index q1 = word_of_nat n"
    by auto
  have un: "unat (word_of_nat n :: u16) = n" using Suc.prems by (simp add: unat_of_nat take_bit_nat_eq_self)
  have ne: "(word_of_nat n :: u16) \<noteq> word_of_nat n + 1" by simp
  have sz: "0 < unat (dq_size q)" using q(1) by (simp add: unat_gt_0)
  have "RT_DATAQUEUE_SIZE q1 \<noteq> uint (dq_size q1)"
    using q(1) q1 by (simp add: RT_DATAQUEUE_SIZE_def uint_0_iff [symmetric] del: uint_0_iff)
  from push_alone [OF w _ _ this, of x] pop_alone [OF w, of "q1\<lparr>items := (items q1)[unat (put_index q1) mod
      unat (dq_size q1) := x], put_index := put_index q1 + 1\<rparr>"]
  show ?case using q1 q(1) ne un sz by (auto simp: add.commute)
qed


text \<open>With the put index wrapped around and the get index not, every push is accepted and overwrites.\<close>

lemma dq_pushes_wrapped:
  assumes w: "nobody_waits d k" and q: "dq_size q \<noteq> 0" "length (items q) = unat (dq_size q)" "get_index q = 0xffff"
      "put_index q = word_of_nat j" and n: "j + length ys \<le> unat (dq_size q)"
  shows "\<exists>q'. dq_pushes d ys (q, k) = Some (q', k) \<and> dq_size q' = dq_size q \<and>
    length (items q') = unat (dq_size q) \<and> get_index q' = 0xffff \<and> put_index q' = word_of_nat (j + length ys) \<and>
    (\<forall>m < unat (dq_size q). items q' ! m = (if j \<le> m \<and> m < j + length ys then ys ! (m - j) else items q ! m))"
  using q n
proof (induction ys arbitrary: q j)
  case Nil
  then show ?case by (intro exI [of _ q]) auto
next
  case (Cons y ys)
  have sz: "unat (dq_size q) < 65536" using unsigned_less [of "dq_size q", where ?'a = nat] by simp
  then have j: "unat (word_of_nat j :: u16) = j" using Cons.prems(5) by (simp add: unat_of_nat take_bit_nat_eq_self)
  have "unat (put_index q) = j" "unat (get_index q) = 65535" using Cons.prems(3,4) j by simp_all
  then have full: "RT_DATAQUEUE_SIZE q \<noteq> uint (dq_size q)"
    using Cons.prems(5) sz unfolding RT_DATAQUEUE_SIZE_def uint_nat by linarith
  let ?q = "q\<lparr>items := (items q)[j := y], put_index := word_of_nat (Suc j)\<rparr>"
  have jm: "j mod unat (dq_size q) = j" using Cons.prems(5) by simp
  have "rt_data_queue_push d y 0 (q, k) = Some (Returned (RT_EOK, notify q RT_DATAQUEUE_EVENT_PUSH), ?q, k)"
    using push_alone [OF w Cons.prems(1,2) full, of y] j jm Cons.prems(4) by (simp add: add.commute)
  moreover obtain q' where q': "dq_pushes d ys (?q, k) = Some (q', k)" "dq_size q' = dq_size q"
      "length (items q') = unat (dq_size q)" "get_index q' = 0xffff" "put_index q' = word_of_nat (Suc j + length ys)"
      "\<forall>m < unat (dq_size q). items q' ! m = (if Suc j \<le> m \<and> m < Suc j + length ys then ys ! (m - Suc j) else items ?q ! m)"
    using Cons.IH [of ?q "Suc j"] Cons.prems by auto
  moreover have "items q' ! m = (if j \<le> m \<and> m < j + length (y # ys) then (y # ys) ! (m - j) else items q ! m)"
    if "m < unat (dq_size q)" for m
  proof (cases "m = j")
    case True
    then show ?thesis using q'(6) that Cons.prems(2) by simp
  next
    case False
    then show ?thesis using q'(6) that by (auto simp: nth_Cons' )
  qed
  ultimately show ?case by simp
qed

text \<open>
  C36. A new data queue of any size \<open>n\<close> below 65535, used for 65535 items one at a time, then accepts \<open>n + 1\<close> items
  although nobody takes any, because the 16-bit put index has wrapped around; and the first
  item taken afterwards is not the oldest one, which has been overwritten.
\<close>

theorem data_queue_overwrites:
  assumes n: "n = unat sz" "0 < n" "n < 65535" and m: "length m = n" and xs: "length xs = Suc n"
    and i: "rt_data_queue_init d sz low fn (Some m) (q, k) = (e, q0, k0)"
  shows "\<exists>q1 q2 ev. dq_cycles d x 65535 (q0, k0) = Some (q1, k0) \<and> dq_pushes d xs (q1, k0) = Some (q2, k0) \<and>
    rt_data_queue_pop d 0 (q2, k0) =
      Some (Returned (RT_EOK, Some (xs ! Suc (65535 mod n)), ev), q2\<lparr>get_index := 0\<rparr>, k0)"
proof -
  have q0: "nobody_waits d k0" "dq_size q0 = sz" "sz \<noteq> 0" "length (items q0) = unat sz" "get_index q0 = 0" "put_index q0 = 0"
    using i n m by (auto simp: rt_data_queue_init_def Let_def nobody_waits_def)
  obtain q1 where q1: "dq_cycles d x 65535 (q0, k0) = Some (q1, k0)" "dq_size q1 = sz" "length (items q1) = unat sz"
      "get_index q1 = 0xffff" "put_index q1 = 0xffff"
    using dq_cycles_spec [OF q0(1), of q0 65535 x] q0 by auto
  obtain y ys where y: "xs = y # ys" "length ys = n" using xs by (cases xs) auto
  let ?q = "q1\<lparr>items := (items q1)[65535 mod n := y], put_index := 0\<rparr>"
  have "uint sz \<noteq> 0" using q0(3) by (metis uint_0_iff)
  then have "RT_DATAQUEUE_SIZE q1 \<noteq> uint (dq_size q1)" unfolding RT_DATAQUEUE_SIZE_def q1 by simp
  from push_alone [OF q0(1) _ _ this, of y] have
    p: "rt_data_queue_push d y 0 (q1, k0) = Some (Returned (RT_EOK, notify q1 RT_DATAQUEUE_EVENT_PUSH), ?q, k0)"
    using q1 q0(3) n by simp
  have "0 < unat sz" using n by simp
  then obtain q2 where q2: "dq_pushes d ys (?q, k0) = Some (q2, k0)" "dq_size q2 = sz" "length (items q2) = unat sz"
      "get_index q2 = 0xffff" "put_index q2 = word_of_nat n"
      "\<forall>i < unat sz. items q2 ! i = (if i < n then ys ! i else items ?q ! i)"
    using dq_pushes_wrapped [OF q0(1), of ?q 0 ys] q1 q0(3) n y(2) by auto
  have lt: "65535 mod n < n" using n by simp
  then have "items q2 ! (65535 mod n) = xs ! Suc (65535 mod n)" using q2(6) n y by simp
  moreover have "unat (put_index q2) = n" using q2(5) n(3) by (simp add: unat_of_nat take_bit_nat_eq_self)
  then have "get_index q2 \<noteq> put_index q2" using q2(4) n(3) by auto
  ultimately show ?thesis
    using pop_alone [OF q0(1), of q2] q1(1) q2(1-4) p q0(3) y(1) n by auto
qed


theorem data_queue_overwrites_witness:
  "\<exists>q0 k0 q1 q2 ev. rt_data_queue_init 0 2 0 False (Some (items example_dq)) (example_dq, example_kernel) = (RT_EOK, q0, k0) \<and>
     dq_cycles 0 \<lparr>data_ptr = 0, data_size = 0\<rparr> 65535 (q0, k0) = Some (q1, k0) \<and>
     dq_pushes 0 (map (\<lambda>p. \<lparr>data_ptr = p, data_size = 4\<rparr>) [1, 2, 3]) (q1, k0) = Some (q2, k0) \<and>
     rt_data_queue_pop 0 0 (q2, k0) = Some (Returned (RT_EOK, Some \<lparr>data_ptr = 3, data_size = 4\<rparr>, ev), q2\<lparr>get_index := 0\<rparr>, k0)"
proof -
  obtain q0 k0 where i: "rt_data_queue_init 0 2 0 False (Some (items example_dq)) (example_dq, example_kernel) = (RT_EOK, q0, k0)"
    by (auto simp: rt_data_queue_init_def Let_def)
  have l: "length (items example_dq) = 2" by (simp add: example_dq_def)
  let ?xs = "map (\<lambda>p. \<lparr>data_ptr = p, data_size = 4\<rparr>) [1, 2, 3]"
  have "(2 :: nat) = unat (2 :: u16)" "(0 :: nat) < 2" "(2 :: nat) < 65535" "length ?xs = Suc 2" by simp_all
  from data_queue_overwrites [OF this(1-3) l this(4) i, of "\<lparr>data_ptr = 0, data_size = 0\<rparr>"]
  obtain q1 q2 ev where "dq_cycles 0 \<lparr>data_ptr = 0, data_size = 0\<rparr> 65535 (q0, k0) = Some (q1, k0)"
      "dq_pushes 0 ?xs (q1, k0) = Some (q2, k0)"
      "rt_data_queue_pop 0 0 (q2, k0) = Some (Returned (RT_EOK, Some (?xs ! Suc (65535 mod 2)), ev), q2\<lparr>get_index := 0\<rparr>, k0)"
    by blast
  moreover have "?xs ! Suc (65535 mod 2) = \<lparr>data_ptr = 3, data_size = 4\<rparr>" by simp
  ultimately show ?thesis using i by metis
qed

section \<open>Reset\<close>

text \<open>The reset wakes everybody who waits, with -RT_ERROR; what is in the queue stays there.\<close>

lemma rt_data_queue_reset_spec:
  assumes k: "kinv k" and cur: "rt_current_thread k = Some c"
  shows "returns (rt_data_queue_reset d k) (\<lambda>k'. kinv k' \<and> nobody_waits d k' \<and>
    (\<forall>t \<in> set (tlists k (SuspendPush d)) \<union> set (tlists k (SuspendPop d)).
      runnable k' t \<and> error (threads k' t) = - RT_ERROR))"
proof -
  let ?k0 = "rt_enter_critical k"
  have k0: "kinv ?k0" "rt_current_thread ?k0 = Some c" "tlists ?k0 = tlists k"
    using k cur by (simp_all add: rt_enter_critical_def kinv_lock)
  obtain k1 where k1: "rt_ipc_list_resume_all (SuspendPop d) ?k0 = Some k1" "woken_all (SuspendPop d) ?k0 k1"
    using rt_ipc_list_resume_all_spec [OF k0(1)] by (metis returnsE wait_head_simps(6))
  then have i1: "kinv k1" by (simp add: woken_all_def)
  obtain k2 where k2: "rt_ipc_list_resume_all (SuspendPush d) k1 = Some k2" "woken_all (SuspendPush d) k1 k2"
    using rt_ipc_list_resume_all_spec [OF i1] by (metis returnsE wait_head_simps(5))
  have i2: "kinv k2" "rt_current_thread k2 = Some c" using k1(2) k2(2) k0(2) by (simp_all add: woken_all_def)
  obtain k3 where k3: "rt_exit_critical k2 = Some k3" "kinv k3" "rt_current_thread k3 \<noteq> None"
      "sched_frame (k2\<lparr>rt_scheduler_lock_nest := rt_scheduler_lock_nest k3\<rparr>) k3"
    using rt_exit_critical_spec [OF i2] by (elim returnsE) blast
  note f3 = sched_frameD [OF k3(4)]
  obtain c' where c': "rt_current_thread k3 = Some c'" using k3(3) by blast
  obtain k4 where k4: "rt_schedule k3 = Some k4" "kinv k4" "sched_frame k3 k4"
    using rt_schedule_spec [OF k3(2) c'] by (elim returnsE) blast
  note f = sched_frameD [OF k4(3)]
  have w: "tlists k1 (SuspendPop d) = []" "tlists k1 (SuspendPush d) = tlists k (SuspendPush d)"
      "tlists k2 (SuspendPush d) = []" "tlists k2 (SuspendPop d) = []"
    using k1(2) k2(2) k0(3) by (simp_all add: woken_all_def)
  have e: "error (threads k4 t) = error (threads k2 t)" "runnable k4 t = runnable k2 t" for t
    using error_stat [OF f(15) [of t]] error_stat [OF f3(15) [of t]] f(18) [of t] f3(18) [of t]
    by (simp_all add: runnable_def)
  have "nobody_waits d k4" using f(16) f3(16) w(3,4) by (simp add: nobody_waits_def)
  moreover have "runnable k2 t \<and> error (threads k2 t) = - RT_ERROR"
    if "t \<in> set (tlists k (SuspendPush d)) \<union> set (tlists k (SuspendPop d))" for t
    using that k1(2) k2(2) k0(3) w(2) unfolding woken_all_def by (metis UnE)
  ultimately show ?thesis
    using k1(1) k2(1) k3(1) k4(1,2) e by (simp add: rt_data_queue_reset_def Let_def)
qed

end
