(* ===== verification/Kstring.thy ===== *)
theory Kstring
  imports Kservice Memops "HOL-Library.Sublist"
begin

text \<open>
  The remaining string routines of \<^verbatim>\<open>src/kservice.c\<close> and its allocation of aligned blocks. Comparison and search
  work on strings as lists, as in \<open>Kservice\<close>; \<^verbatim>\<open>rt_strdup\<close> and the aligned allocation work on the
  memory. What \<^verbatim>\<open>rt_malloc\<close> returned is an argument, \<open>None\<close> for null.
\<close>

section \<open>Comparison\<close>

fun rt_strcmp :: "u8 list \<Rightarrow> u8 list \<Rightarrow> int" where
  "rt_strcmp [] ct = 0 - uint (char_at ct)"
| "rt_strcmp (c # cs) ct =
     (if c \<noteq> 0 \<and> c = char_at ct then rt_strcmp cs (tl ct) else uint c - uint (char_at ct))"

definition lower :: "int \<Rightarrow> int" where
  "lower c = (if c \<ge> 65 \<and> c \<le> 90 then c + (97 - 65) else c)"

fun rt_strcasecmp :: "u8 list \<Rightarrow> u8 list \<Rightarrow> u32" where
  "rt_strcasecmp [] b = word_of_int (lower 0 - lower (uint (char_at b)))"
| "rt_strcasecmp (c # a) b =
     (let ca = lower (uint c); cb = lower (uint (char_at b))
      in if ca = cb \<and> ca \<noteq> 0 then rt_strcasecmp a (tl b) else word_of_int (ca - cb))"

text \<open>On an array of bytes: reading behind its last byte fails.\<close>

fun strnlen_loop :: "u8 list \<Rightarrow> nat \<Rightarrow> nat \<Rightarrow> nat option" where
  "strnlen_loop [] maxlen i = None"
| "strnlen_loop (c # s) maxlen i = (if c \<noteq> 0 \<and> i < maxlen then strnlen_loop s maxlen (i + 1) else Some i)"

definition rt_strnlen :: "u8 list \<Rightarrow> nat \<Rightarrow> nat option" where
  "rt_strnlen s maxlen = strnlen_loop s maxlen 0"

lemma uint_eq: "uint c = uint d \<longleftrightarrow> c = d" "uint c = 0 \<longleftrightarrow> c = 0" for c d :: u8
  by (simp_all add: word_uint_eq_iff)

lemma rt_strcmp_eq_0: "rt_strcmp cs ct = 0 \<longleftrightarrow> cstr cs = cstr ct"
proof (induction cs arbitrary: ct)
  case Nil
  then show ?case by (cases ct) (auto simp: char_at_def uint_eq)
next
  case (Cons c cs)
  then show ?case by (cases ct) (auto simp: char_at_def uint_eq)
qed

lemma small_word_of_int: "- 256 < x \<Longrightarrow> x < 256 \<Longrightarrow> (word_of_int x :: u32) = 0 \<longleftrightarrow> x = 0"
proof -
  assume x: "- 256 < x" "x < 256"
  have "\<not> 2 ^ 32 dvd x" if "x \<noteq> 0"
    using that x dvd_imp_le_int [of x "2 ^ 32"] by auto
  then show ?thesis by (auto simp: word_of_int_eq_0_iff)
qed

lemma lower_bounds: "0 \<le> lower (uint (c :: u8))" "lower (uint (c :: u8)) < 256" "lower (uint (c :: u8)) = 0 \<longleftrightarrow> c = 0"
proof -
  have "uint c < 2 ^ LENGTH(8)" by (rule uint_bounded)
  then show "0 \<le> lower (uint c)" "lower (uint c) < 256" by (simp_all add: lower_def)
  show "lower (uint c) = 0 \<longleftrightarrow> c = 0" using uint_nonnegative [of c] by (auto simp: lower_def uint_0_iff)
qed

lemma rt_strcasecmp_eq_0:
  "rt_strcasecmp a b = 0 \<longleftrightarrow> map (\<lambda>c. lower (uint c)) (cstr a) = map (\<lambda>c. lower (uint c)) (cstr b)"
proof -
  have diff: "(word_of_int (lower (uint c) - lower (uint d)) :: u32) = 0 \<longleftrightarrow> lower (uint c) = lower (uint d)" for c d :: u8
    using small_word_of_int [of "lower (uint c) - lower (uint d)"] lower_bounds [of c] lower_bounds [of d] by simp
  have z: "lower 0 = 0" by (simp add: lower_def)
  show ?thesis
  proof (induction a b rule: rt_strcasecmp.induct)
    case (1 b)
    show ?case using diff [of 0 "char_at b"] lower_bounds(3) by (cases b) (auto simp: char_at_def z)
  next
    case (2 c a b)
    show ?case
      using 2 [OF refl refl] diff [of c "char_at b"] diff [of c 0] lower_bounds(3)
      by (cases b) (auto simp: char_at_def z Let_def)
  qed
qed

lemma strnlen_loop_spec:
  "strnlen_loop (s @ 0 # rest) maxlen i = Some (if i \<le> maxlen then min maxlen (i + length (cstr s)) else i)"
  by (induction s arbitrary: i) auto

lemma rt_strnlen_spec: "rt_strnlen (s @ 0 # rest) maxlen = Some (min maxlen (length (cstr s)))"
  by (simp add: rt_strnlen_def strnlen_loop_spec)

text \<open>Contrary to its comment the routine looks at one more character than \<open>maxlen\<close>.\<close>

lemma rt_strnlen_reads_behind: "0 \<notin> set s \<Longrightarrow> rt_strnlen s (length s) = None"
proof -
  have "0 \<notin> set s \<Longrightarrow> i + length s \<le> n \<Longrightarrow> strnlen_loop s n i = None" for i n
    by (induction s arbitrary: i) auto
  then show "0 \<notin> set s \<Longrightarrow> ?thesis" by (simp add: rt_strnlen_def)
qed

section \<open>Search\<close>

fun memcmp_list :: "nat \<Rightarrow> u8 list \<Rightarrow> u8 list \<Rightarrow> int" where
  "memcmp_list 0 cs ct = 0"
| "memcmp_list (Suc n) cs ct =
     (let res = uint (char_at cs) - uint (char_at ct) in if res \<noteq> 0 then res else memcmp_list n (tl cs) (tl ct))"

text \<open>The result is the number of characters in front of the place found.\<close>

fun strstr_loop :: "nat \<Rightarrow> nat \<Rightarrow> u8 list \<Rightarrow> u8 list \<Rightarrow> nat \<Rightarrow> nat option" where
  "strstr_loop l1 l2 s1 s2 i =
     (if l1 \<ge> l2 \<and> l2 \<noteq> 0 then
        if memcmp_list l2 s1 s2 = 0 then Some i else strstr_loop (l1 - 1) l2 (tl s1) s2 (i + 1)
      else None)"

definition rt_strstr :: "u8 list \<Rightarrow> u8 list \<Rightarrow> nat option" where
  "rt_strstr s1 s2 =
     (let l2 = rt_strlen s2 in if l2 = 0 then Some 0 else strstr_loop (rt_strlen s1) l2 s1 s2 0)"

declare strstr_loop.simps [simp del]

lemma take_cstr: "k \<le> length (cstr s) \<Longrightarrow> take k s = take k (cstr s)"
proof -
  assume k: "k \<le> length (cstr s)"
  have "cstr s = take (length (cstr s)) s" unfolding cstr_def by (rule takeWhile_eq_take)
  then have "take k (cstr s) = take k (take (length (cstr s)) s)" by simp
  then show ?thesis using k by (simp add: min_absorb1)
qed

lemma memcmp_list_take:
  "n \<le> length cs \<Longrightarrow> n \<le> length ct \<Longrightarrow> memcmp_list n cs ct = 0 \<longleftrightarrow> take n cs = take n ct"
proof (induction n cs ct rule: memcmp_list.induct)
  case (2 n cs ct)
  then show ?case by (cases cs; cases ct) (auto simp: char_at_def Let_def uint_eq)
qed simp

lemma length_cstr: "length (cstr s) \<le> length s"
  by (simp add: cstr_def length_takeWhile_le)

lemma cstr_tl: "cstr (tl s) = tl (cstr s)" if "cstr s \<noteq> []"
  using that by (cases s) (auto split: if_splits)

text \<open>The search finds the first place where the second string is a prefix of what is left of the first one.\<close>

definition first_at :: "u8 list \<Rightarrow> u8 list \<Rightarrow> nat \<Rightarrow> bool" where
  "first_at ys xs i \<longleftrightarrow> i \<le> length xs \<and> prefix ys (drop i xs) \<and> (\<forall>j < i. \<not> prefix ys (drop j xs))"

lemma first_at_Cons:
  "first_at ys (x # xs) i \<longleftrightarrow> (if prefix ys (x # xs) then i = 0 else 0 < i \<and> first_at ys xs (i - 1))"
  by (cases i) (auto simp: first_at_def All_less_Suc2)

lemma strstr_loop_spec:
  assumes "length (cstr s2) = l2" and "l2 \<noteq> 0"
  shows "strstr_loop (length (cstr s1)) l2 s1 s2 i = Some k \<longleftrightarrow> i \<le> k \<and> first_at (cstr s2) (cstr s1) (k - i)"
proof (induction "length (cstr s1)" arbitrary: s1 i)
  case 0
  then show ?case using assms by (auto simp: strstr_loop.simps first_at_def)
next
  case (Suc n)
  then obtain x xs where x: "cstr s1 = x # xs" "cstr (tl s1) = xs" "length xs = n"
    using cstr_tl [of s1] by (cases "cstr s1") auto
  show ?case
  proof (cases "l2 \<le> Suc n")
    case True
    have "memcmp_list l2 s1 s2 = 0 \<longleftrightarrow> take l2 s1 = take l2 s2"
      using True assms(1) length_cstr [of s1] length_cstr [of s2] Suc(2) by (intro memcmp_list_take) linarith+
    also have "\<dots> \<longleftrightarrow> prefix (cstr s2) (cstr s1)"
    proof -
      have "take l2 s1 = take l2 (cstr s1)" "take l2 s2 = cstr s2"
        using True assms(1) Suc(2) take_cstr [of l2 s1] take_cstr [of l2 s2] by simp_all
      moreover have "take (length ys) xs = ys \<longleftrightarrow> prefix ys xs" for ys xs :: "u8 list"
        by (metis append_eq_conv_conj prefix_def take_is_prefix)
      ultimately show ?thesis using assms(1) by metis
    qed
    finally have m: "memcmp_list l2 s1 s2 = 0 \<longleftrightarrow> prefix (cstr s2) (cstr s1)" .
    have "strstr_loop (Suc n) l2 s1 s2 i =
        (if prefix (cstr s2) (cstr s1) then Some i else strstr_loop n l2 (tl s1) s2 (i + 1))"
      using True assms(2) m by (subst strstr_loop.simps) simp
    moreover have "strstr_loop n l2 (tl s1) s2 (i + 1) = Some k \<longleftrightarrow> i + 1 \<le> k \<and> first_at (cstr s2) xs (k - (i + 1))"
      using Suc(1) [of "tl s1" "i + 1"] x(2,3) by simp
    ultimately show ?thesis
      unfolding Suc(2) [symmetric] by (auto simp: first_at_Cons x(1))
  next
    case False
    then show ?thesis
      using assms Suc(2) by (auto simp: strstr_loop.simps [of "length (cstr s1)"] first_at_def dest: prefix_length_le)
  qed
qed

lemma rt_strstr_spec:
  "rt_strstr s1 s2 = Some i \<longleftrightarrow> first_at (cstr s2) (cstr s1) i"
  "rt_strstr s1 s2 = None \<longleftrightarrow> \<not> sublist (cstr s2) (cstr s1)"
proof -
  show f: "rt_strstr s1 s2 = Some i \<longleftrightarrow> first_at (cstr s2) (cstr s1) i" for i
  proof (cases "cstr s2 = []")
    case True
    then show ?thesis by (auto simp: rt_strstr_def rt_strlen_cstr first_at_def)
  next
    case False
    then show ?thesis using strstr_loop_spec [OF refl, of s2 s1 0 i] by (simp add: rt_strstr_def rt_strlen_cstr)
  qed
  have "(\<exists>i. first_at ys xs i) \<longleftrightarrow> sublist ys xs" for ys xs
  proof
    assume "sublist ys xs"
    then obtain us vs where "xs = us @ ys @ vs" by (auto simp: sublist_def)
    then have "prefix ys (drop (length us) xs)" "length us \<le> length xs" by simp_all
    then have "first_at ys xs (LEAST i. prefix ys (drop i xs))"
      unfolding first_at_def by (metis (mono_tags, lifting) LeastI Least_le not_less_Least order_trans)
    then show "\<exists>i. first_at ys xs i" ..
  next
    assume "\<exists>i. first_at ys xs i"
    then obtain i where "prefix ys (drop i xs)" by (auto simp: first_at_def)
    then show "sublist ys xs" by (meson prefix_imp_sublist sublist_drop sublist_order.order_trans)
  qed
  then show "rt_strstr s1 s2 = None \<longleftrightarrow> \<not> sublist (cstr s2) (cstr s1)"
    using f by (metis not_Some_eq)
qed

section \<open>A copy of a string\<close>

partial_function (option) mem_strlen :: "u32 \<Rightarrow> memory \<Rightarrow> nat \<Rightarrow> nat option" where
  "mem_strlen s m n = (if m s \<noteq> 0 then mem_strlen (s + 1) m (n + 1) else Some n)"

definition rt_strdup :: "(nat \<Rightarrow> u32 option) \<Rightarrow> u32 \<Rightarrow> memory \<Rightarrow> (u32 option \<times> memory) option" where
  "rt_strdup malloc s m = do {
     n \<leftarrow> mem_strlen s m 0;
     let len = n + 1;
     Some (case malloc len of None \<Rightarrow> (None, m) | Some tmp \<Rightarrow> (Some tmp, rt_memcpy tmp s len m))
   }"

text \<open>The string at an address: its characters, then a NUL.\<close>

fun str_at :: "u32 \<Rightarrow> u8 list \<Rightarrow> memory \<Rightarrow> bool" where
  "str_at a [] m = (m a = 0)"
| "str_at a (c # cs) m = (c \<noteq> 0 \<and> m a = c \<and> str_at (a + 1) cs m)"

lemma mem_strlen_str: "str_at a cs m \<Longrightarrow> mem_strlen a m n = Some (n + length cs)"
  by (induction cs arbitrary: a n) (simp_all add: mem_strlen.simps)

lemma str_at_iff:
  "str_at a cs m \<longleftrightarrow> 0 \<notin> set cs \<and> (\<forall>i < length cs. m (a + of_nat i) = cs ! i) \<and> m (a + of_nat (length cs)) = 0"
  by (induction cs arbitrary: a) (auto simp: All_less_Suc2 add.assoc)

lemma rt_strdup_spec:
  assumes "str_at s cs m" and "malloc (length cs + 1) = Some tmp"
    and "forward_ok tmp s (length cs + 1)" and "length cs + 1 < 2 ^ 32"
  shows "\<exists>m'. rt_strdup malloc s m = Some (Some tmp, m') \<and> str_at tmp cs m'"
proof -
  have "rt_memcpy tmp s (length cs + 1) m = copy tmp s (length cs + 1) m"
    using rt_memcpy_spec [of tmp s "length cs + 1" m] assms(3,4) by blast
  moreover have "copy tmp s (length cs + 1) m (tmp + of_nat i) = m (s + of_nat i)" if "i \<le> length cs" for i
    using that assms(4) by (simp add: copy_def unat_of_nat)
  ultimately show ?thesis
    using assms(1,2) mem_strlen_str [OF assms(1), of 0] by (simp add: rt_strdup_def str_at_iff)
qed

section \<open>Aligned blocks\<close>

definition rt_malloc_align :: "(u32 \<Rightarrow> u32 option) \<Rightarrow> u32 \<Rightarrow> u32 \<Rightarrow> memory \<Rightarrow> u32 option \<times> memory" where
  "rt_malloc_align malloc sz align m =
     (let align = (align + 3) AND NOT 3;
          align_size = ((sz + 3) AND NOT 3) + align
      in case malloc align_size of
           None \<Rightarrow> (None, m)
         | Some ptr \<Rightarrow>
             let align_ptr = (if ptr AND (align - 1) = 0 then ptr + align
                              else (ptr + (align - 1)) AND NOT (align - 1))
             in (Some align_ptr, store_word (align_ptr - 4) ptr m))"

text \<open>The address that goes to \<^verbatim>\<open>rt_free\<close>.\<close>

definition rt_free_align :: "u32 \<Rightarrow> memory \<Rightarrow> u32" where
  "rt_free_align ptr m = load_word (ptr - 4) m"

lemma unat_take_bit: "unat (take_bit k x) = unat x mod 2 ^ k" for x :: u32
  by (simp add: unsigned_take_bit_eq take_bit_nat_def)

lemma and_not_mask: "unat (x AND NOT (2 ^ k - 1)) = unat x - unat x mod 2 ^ k" for x :: u32
proof -
  have "x - (x AND mask k) = x AND NOT (x AND mask k)" by (rule disjunctive_diff) (simp add: bit_and_iff)
  moreover have "x AND NOT (x AND mask k) = x AND NOT (mask k)" by (simp add: bit.conj_disj_distrib)
  ultimately have "x AND NOT (mask k) = x - take_bit k x" by (simp add: take_bit_eq_mask)
  moreover have "take_bit k x \<le> x" by (simp add: word_le_nat_alt unat_take_bit)
  ultimately have "unat (x AND NOT (mask k)) = unat x - unat x mod 2 ^ k" by (simp add: unat_sub unat_take_bit)
  then show ?thesis by (simp add: mask_eq_exp_minus_1)
qed

lemma and_mask_0: "x AND (2 ^ k - 1) = 0 \<longleftrightarrow> unat x mod 2 ^ k = 0" for x :: u32
proof -
  have "x AND (2 ^ k - 1) = take_bit k x" by (simp add: take_bit_eq_mask mask_eq_exp_minus_1)
  then show ?thesis using unat_take_bit [of k x] by (metis unat_eq_0)
qed

text \<open>Rounding down and up in natural numbers.\<close>

lemma round_up:
  fixes P A :: nat
  assumes "0 < A"
  shows "P mod A \<noteq> 0 \<Longrightarrow> P + (A - 1) - (P + (A - 1)) mod A = P + (A - P mod A)"
proof -
  assume r: "P mod A \<noteq> 0"
  have lt: "P mod A < A" using assms by simp
  have "P + (A - 1) = A * (P div A + 1) + (P mod A - 1)"
    using r lt mult_div_mod_eq [of A P] unfolding distrib_left by linarith
  moreover from this have "(P + (A - 1)) mod A = P mod A - 1"
    using lt by (metis mod_mult_self4 mod_less less_imp_diff_less add.commute mult.commute)
  ultimately have "P + (A - 1) - (P + (A - 1)) mod A = A * (P div A + 1)" by simp
  also have "\<dots> = P + (A - P mod A)" using lt mult_div_mod_eq [of A P] unfolding distrib_left by linarith
  finally show ?thesis .
qed

text \<open>
  For an alignment that is a power of two, from 4 on, and sizes that do not wrap: the block is aligned, lies with
  a word in front of it inside the block of the heap, and \<^verbatim>\<open>rt_free_align\<close> finds the heap's block again, as long as
  that word is not overwritten.
\<close>

lemma rt_malloc_align_spec:
  assumes al: "(align + 3) AND NOT 3 = 2 ^ k" "2 \<le> k" "k < 32" and sz: "0 < sz" "unat sz + 3 + 2 ^ k < 2 ^ 32"
    and ptr: "malloc (((sz + 3) AND NOT 3) + ((align + 3) AND NOT 3)) = Some ptr" "unat ptr mod 4 = 0"
      "unat ptr + unat (((sz + 3) AND NOT 3) + ((align + 3) AND NOT 3)) \<le> 2 ^ 32"
  shows "\<exists>a m'. rt_malloc_align malloc sz align m = (Some a, m') \<and> unat a mod 2 ^ k = 0 \<and> unat ptr + 4 \<le> unat a \<and>
    unat a + unat sz \<le> unat ptr + unat (((sz + 3) AND NOT 3) + ((align + 3) AND NOT 3)) \<and> rt_free_align a m' = ptr"
proof -
  define A :: nat where "A = 2 ^ k"
  have "(2 :: nat) ^ k < 2 ^ 32" using al(3) by (intro power_strict_increasing) simp_all
  then have "unat (of_nat (2 ^ k) :: u32) = 2 ^ k" by (simp only: unat_of_nat) simp
  then have A: "4 dvd A" "0 < A" "unat (2 ^ k :: u32) = A"
    using al(2) le_imp_power_dvd [of 2 k "2 :: nat"] by (simp_all add: A_def)
  have s4: "unat (sz + 3) = unat sz + 3" using sz(2) by (simp add: unat_word_ariths)
  have s: "unat ((sz + 3) AND NOT 3) = unat sz + 3 - (unat sz + 3) mod 4"
    using and_not_mask [of "sz + 3" 2] s4 by simp
  have "(unat sz + 3) mod 4 \<le> 3" using mod_less_divisor [of 4 "unat sz + 3"] by linarith
  then have sle: "unat sz \<le> unat ((sz + 3) AND NOT 3)" "unat ((sz + 3) AND NOT 3) \<le> unat sz + 3"
    using s by linarith+
  let ?n = "((sz + 3) AND NOT 3) + 2 ^ k :: u32"
  have n: "unat ?n = unat ((sz + 3) AND NOT 3) + A"
  proof -
    have "unat ((sz + 3) AND NOT 3) + unat (2 ^ k :: u32) < 2 ^ 32" using sle(2) sz(2) A(3) unfolding A_def by linarith
    then show ?thesis using A(3) by (simp add: unat_word_ariths)
  qed
  have le: "unat ptr + unat ((sz + 3) AND NOT 3) + A \<le> 2 ^ 32" using ptr(3) n unfolding al(1) by simp
  have pos: "0 < unat ((sz + 3) AND NOT 3)" using sle(1) sz(1) by (simp add: word_less_nat_alt)
  define a :: u32 where "a = (if ptr AND (2 ^ k - 1) = 0 then ptr + 2 ^ k else (ptr + (2 ^ k - 1)) AND NOT (2 ^ k - 1))"
  have a: "unat a = unat ptr + (A - unat ptr mod A)"
  proof (cases "unat ptr mod A = 0")
    case True
    have "unat ptr + unat (2 ^ k :: u32) < 2 ^ 32" using le pos A(3) by linarith
    then have "unat (ptr + 2 ^ k) = unat ptr + A" using A(3) by (simp add: unat_word_ariths)
    then show ?thesis using True and_mask_0 [of ptr k] by (simp add: a_def A_def)
  next
    case False
    have "unat (2 ^ k - 1 :: u32) = A - 1" using A(2,3) unat_minus_one [of "2 ^ k :: u32"] by (metis unat_gt_0)
    moreover have "unat ptr + (A - 1) < 2 ^ 32" using le pos A(2) by linarith
    ultimately have "unat (ptr + (2 ^ k - 1)) = unat ptr + (A - 1)" by (simp only: unat_word_ariths) simp
    then have "unat a = unat ptr + (A - 1) - (unat ptr + (A - 1)) mod A"
      using False and_mask_0 [of ptr k] and_not_mask [of "ptr + (2 ^ k - 1)" k] by (simp add: a_def A_def)
    then show ?thesis using round_up [OF A(2) False] by simp
  qed
  have r: "unat ptr mod A < A" using A(2) by simp
  have d: "4 dvd A - unat ptr mod A" using A(1) ptr(2) by (metis dvd_diff_nat dvd_mod_iff mod_0_imp_dvd)
  have m: "unat a mod A = 0"
  proof -
    have "unat a = A * (unat ptr div A + 1)" using a r mult_div_mod_eq [of A "unat ptr"] unfolding distrib_left by linarith
    then show ?thesis by simp
  qed
  have "4 \<le> A - unat ptr mod A" using d r by (simp add: dvd_imp_le)
  then have b: "unat ptr + 4 \<le> unat a" "unat a + unat sz \<le> unat ptr + unat ?n" using a sle(1) n by linarith+
  have "rt_malloc_align malloc sz align m = (Some a, store_word (a - 4) ptr m)"
    using ptr(1) unfolding rt_malloc_align_def al(1) Let_def a_def by simp
  then show ?thesis
    using b m unfolding al(1) by (simp add: rt_free_align_def load_store_word A_def)
qed

end
