(* ===== verification/Kprintf.thy ===== *)
theory Kprintf
  imports Kstring
begin

text \<open>
  Formatted output: \<^verbatim>\<open>rt_vsnprintf\<close> of \<^verbatim>\<open>src/kservice.c\<close> with its helpers. The text goes to a memory
  through a pointer that counts on behind the end of the buffer without storing. A format is the list
  of its characters before the NUL; an argument is a 32-bit word or a string. A signed overflow in the
  arithmetic on field widths (\<^verbatim>\<open>skip_atoi\<close> on more than nine digits, the negation of the least
  \<^verbatim>\<open>int\<close>) and an argument of the wrong sort make the model fail. \<open>RT_PRINTF_PRECISION\<close> is set;
  \<open>RT_PRINTF_SPECIAL\<close> and \<open>RT_PRINTF_LONGLONG\<close> are not, so that the flag \<open>#\<close> has no effect.
\<close>

datatype va = Va_int u32 | Va_str "u8 list option"

type_synonym out = "u32 \<times> memory"

abbreviation (input) ZEROPAD :: nat where "ZEROPAD \<equiv> 0"
abbreviation (input) SIGN :: nat where "SIGN \<equiv> 1"
abbreviation (input) PLUS :: nat where "PLUS \<equiv> 2"
abbreviation (input) SPACE :: nat where "SPACE \<equiv> 3"
abbreviation (input) LEFT :: nat where "LEFT \<equiv> 4"
abbreviation (input) SPECIAL :: nat where "SPECIAL \<equiv> 5"
abbreviation (input) LARGE :: nat where "LARGE \<equiv> 6"

abbreviation (input) INT_MAX :: int where "INT_MAX \<equiv> 0x7fffffff"

section \<open>Numbers\<close>

text \<open>\<^verbatim>\<open>if (buf <= end) *buf = c; ++ buf;\<close>, once and \<open>n\<close> times.\<close>

definition put_char :: "u32 \<Rightarrow> u8 \<Rightarrow> out \<Rightarrow> out" where
  "put_char e c = (\<lambda>(buf, m). (buf + 1, if buf \<le> e then m(buf := c) else m))"

definition put_pad :: "u32 \<Rightarrow> u8 \<Rightarrow> int \<Rightarrow> out \<Rightarrow> out" where
  "put_pad e c n st = (put_char e c ^^ nat n) st"

text \<open>\<^verbatim>\<open>divide\<close>: every base but 10 is taken for 16.\<close>

definition divide :: "u32 \<Rightarrow> nat \<Rightarrow> nat \<times> u32" where
  "divide n base = (if base = 10 then (unat (n mod 10), n div 10) else (unat (n mod 16), n div 16))"

definition isdigit :: "u8 \<Rightarrow> bool" where
  "isdigit c \<longleftrightarrow> c - 48 < 10"

fun skip_atoi_loop :: "int \<Rightarrow> u8 list \<Rightarrow> (int \<times> u8 list) option" where
  "skip_atoi_loop i [] = Some (i, [])"
| "skip_atoi_loop i (c # s) =
     (if isdigit c then do {
        rt_assert (i * 10 + uint c \<le> INT_MAX);
        skip_atoi_loop (i * 10 + uint c - 48) s
      } else Some (i, c # s))"

definition skip_atoi :: "u8 list \<Rightarrow> (int \<times> u8 list) option" where
  "skip_atoi s = skip_atoi_loop 0 s"

definition small_digits :: "u8 list" where
  "small_digits = [48, 49, 50, 51, 52, 53, 54, 55, 56, 57, 97, 98, 99, 100, 101, 102]"

definition large_digits :: "u8 list" where
  "large_digits = [48, 49, 50, 51, 52, 53, 54, 55, 56, 57, 65, 66, 67, 68, 69, 70]"

lemma divide_less: "n \<noteq> 0 \<Longrightarrow> unat (snd (divide n base)) < unat n"
proof -
  assume "n \<noteq> 0"
  then have "0 < unat n" by (simp add: unat_gt_0)
  then show ?thesis by (simp add: divide_def unat_div)
qed

text \<open>The loop that fills \<^verbatim>\<open>tmp\<close>, least digit first.\<close>

function number_tmp :: "u8 list \<Rightarrow> nat \<Rightarrow> u32 \<Rightarrow> u8 list" where
  "number_tmp digits base num =
     (if num = 0 then []
      else (case divide num base of (d, num') \<Rightarrow> digits ! d # number_tmp digits base num'))"
  by pat_completeness auto

termination
  by (relation "measure (\<lambda>(_, _, n). unat n)") (use divide_less in \<open>auto, metis snd_conv\<close>)

declare number_tmp.simps [simp del]

text \<open>The sign character, 0 for none, and the number without its sign.\<close>

definition number_sign :: "u8 \<Rightarrow> u32 \<Rightarrow> u8 \<times> u32" where
  "number_sign type num =
     (if bit type SIGN then
        if num <s 0 then (45, - num)
        else if bit type PLUS then (43, num)
        else if bit type SPACE then (32, num)
        else (0, num)
      else (0, num))"

definition print_number :: "u32 \<Rightarrow> u32 \<Rightarrow> nat \<Rightarrow> int \<Rightarrow> int \<Rightarrow> u8 \<Rightarrow> out \<Rightarrow> out option" where
  "print_number e num base s precision type st = do {
     let precision_bak = precision;
     let size = s;
     let digits = (if bit type LARGE then large_digits else small_digits);
     let type = (if bit type LEFT then type AND NOT 1 else type);
     let c = (if bit type ZEROPAD then 48 else 32);
     let (sign, num) = number_sign type num;
     let tmp = (if num = 0 then [48] else number_tmp digits base num);
     rt_assert (length tmp \<le> 16);
     let i = int (length tmp);
     let precision = (if i > precision then i else precision);
     let size = size - precision;
     let (size, st) =
       (if \<not> bit type ZEROPAD \<and> \<not> bit type LEFT then
          let size = (if sign \<noteq> 0 \<and> size > 0 then size - 1 else size)
          in (min size 0 - 1, put_pad e 32 size st)
        else (size, st));
     let (size, st) =
       (if sign \<noteq> 0 then ((if fst st \<le> e then size - 1 else size), put_char e sign st) else (size, st));
     let (size, st) =
       (if \<not> bit type LEFT then (min size 0 - 1, put_pad e c size st) else (size, st));
     let st = put_pad e 48 (precision - i) st;
     let st = (if precision_bak \<noteq> 0 then fold (put_char e) (rev tmp) st else st);
     Some (put_pad e 32 size st)
   }"

section \<open>Conversions\<close>

text \<open>The parts of a directive behind the percent sign, in the order of the code.\<close>

fun format_flags :: "u8 \<Rightarrow> u8 list \<Rightarrow> u8 \<times> u8 list" where
  "format_flags flags [] = (flags, [])"
| "format_flags flags (c # fmt) =
     (if c = 45 then format_flags (flags OR 2 ^ LEFT) fmt
      else if c = 43 then format_flags (flags OR 2 ^ PLUS) fmt
      else if c = 32 then format_flags (flags OR 2 ^ SPACE) fmt
      else if c = 35 then format_flags (flags OR 2 ^ SPECIAL) fmt
      else if c = 48 then format_flags (flags OR 2 ^ ZEROPAD) fmt
      else (flags, c # fmt))"

fun va_int :: "va list \<Rightarrow> (u32 \<times> va list) option" where
  "va_int (Va_int w # args) = Some (w, args)"
| "va_int _ = None"

fun va_str :: "va list \<Rightarrow> (u8 list option \<times> va list) option" where
  "va_str (Va_str s # args) = Some (s, args)"
| "va_str _ = None"

definition format_width :: "u8 \<Rightarrow> u8 list \<Rightarrow> va list \<Rightarrow> (int \<times> u8 \<times> u8 list \<times> va list) option" where
  "format_width flags fmt args =
     (if isdigit (char_at fmt) then do {
        (w, fmt) \<leftarrow> skip_atoi fmt;
        Some (w, flags, fmt, args)
      }
      else if char_at fmt = 42 then do {
        (a, args) \<leftarrow> va_int args;
        let w = sint a;
        rt_assert (- w \<le> INT_MAX);
        Some (if w < 0 then (- w, flags OR 2 ^ LEFT, tl fmt, args) else (w, flags, tl fmt, args))
      }
      else Some (- 1, flags, fmt, args))"

definition format_precision :: "u8 list \<Rightarrow> va list \<Rightarrow> (int \<times> u8 list \<times> va list) option" where
  "format_precision fmt args =
     (if char_at fmt = 46 then do {
        let fmt = tl fmt;
        (p, fmt, args) \<leftarrow>
          (if isdigit (char_at fmt) then do {
             (p, fmt) \<leftarrow> skip_atoi fmt;
             Some (p, fmt, args)
           }
           else if char_at fmt = 42 then do {
             (a, args) \<leftarrow> va_int args;
             Some (sint a, tl fmt, args)
           }
           else Some (- 1, fmt, args));
        Some (if p < 0 then 0 else p, fmt, args)
      }
      else Some (- 1, fmt, args))"

definition format_qualifier :: "u8 list \<Rightarrow> u8 \<times> u8 list" where
  "format_qualifier fmt =
     (if char_at fmt = 104 \<or> char_at fmt = 108 then (char_at fmt, tl fmt) else (0, fmt))"

text \<open>The integer argument, read as the qualifier and the sign flag say.\<close>

definition number_arg :: "u8 \<Rightarrow> u8 \<Rightarrow> u32 \<Rightarrow> u32" where
  "number_arg qualifier flags a =
     (if qualifier = 104 then if bit flags SIGN then scast (ucast a :: u16) else ucast (ucast a :: u16) else a)"

text \<open>What the switch selects, with the arguments it has taken.\<close>

datatype conversion =
    Literal "u8 list"
  | Char u8 int u8
  | String u8 int int "u8 list"
  | Number u32 nat int int u8

definition conversion :: "u8 \<Rightarrow> u8 \<Rightarrow> int \<Rightarrow> int \<Rightarrow> u8 \<Rightarrow> va list \<Rightarrow> (conversion \<times> va list) option" where
  "conversion c flags width precision qualifier args =
     (if c = 99 then do {
        (a, args) \<leftarrow> va_int args;
        Some (Char flags width (ucast a), args)
      }
      else if c = 115 then do {
        (s, args) \<leftarrow> va_str args;
        Some (String flags width precision (case s of Some s \<Rightarrow> s | None \<Rightarrow> [40, 78, 85, 76, 76, 41]), args)
      }
      else if c = 112 then do {
        (a, args) \<leftarrow> va_int args;
        Some (if width = - 1 then Number a 16 8 precision (flags OR 2 ^ ZEROPAD) else Number a 16 width precision flags, args)
      }
      else if c = 37 then Some (Literal [37], args)
      else if c \<in> {111, 88, 120, 100, 105, 117} then do {
        let base = (if c = 111 then 8 else if c = 88 \<or> c = 120 then 16 else 10);
        let flags = (if c = 88 then flags OR 2 ^ LARGE else if c = 100 \<or> c = 105 then flags OR 2 ^ SIGN else flags);
        (a, args) \<leftarrow> va_int args;
        Some (Number (number_arg qualifier flags a) base width precision flags, args)
      }
      else Some (Literal (if c \<noteq> 0 then [37, c] else [37]), args))"

definition directive :: "u8 list \<Rightarrow> va list \<Rightarrow> (conversion \<times> u8 list \<times> va list) option" where
  "directive fmt args = do {
     let (flags, fmt) = format_flags 0 fmt;
     (width, flags, fmt, args) \<leftarrow> format_width flags fmt args;
     (precision, fmt, args) \<leftarrow> format_precision fmt args;
     let (qualifier, fmt) = format_qualifier fmt;
     (v, args) \<leftarrow> conversion (char_at fmt) flags width precision qualifier args;
     Some (v, tl fmt, args)
   }"

definition print_char :: "u32 \<Rightarrow> u8 \<Rightarrow> int \<Rightarrow> u8 \<Rightarrow> out \<Rightarrow> out" where
  "print_char e flags width c st =
     (let (width, st) = (if \<not> bit flags LEFT then (min (width - 1) 0, put_pad e 32 (width - 1) st) else (width, st));
          st = put_char e c st
      in put_pad e 32 (width - 1) st)"

definition print_string :: "u32 \<Rightarrow> u8 \<Rightarrow> int \<Rightarrow> int \<Rightarrow> u8 list \<Rightarrow> out \<Rightarrow> out" where
  "print_string e flags width precision s st =
     (let len = int (rt_strlen s);
          len = (if precision > 0 \<and> len > precision then precision else len);
          (width, st) = (if \<not> bit flags LEFT then (min width len - 1, put_pad e 32 (width - len) st) else (width, st));
          st = fold (put_char e) (take (nat len) s) st
      in put_pad e 32 (width - len) st)"

fun print_conversion :: "u32 \<Rightarrow> conversion \<Rightarrow> out \<Rightarrow> out option" where
  "print_conversion e (Literal cs) st = Some (fold (put_char e) cs st)"
| "print_conversion e (Char flags width c) st = Some (print_char e flags width c st)"
| "print_conversion e (String flags width precision s) st = Some (print_string e flags width precision s st)"
| "print_conversion e (Number num base width precision flags) st = print_number e num base width precision flags st"

text \<open>The loop over the format. A directive ends in front of what follows it.\<close>

lemma length_format_flags: "length (snd (format_flags flags fmt)) \<le> length fmt"
  by (induction flags fmt rule: format_flags.induct) auto

lemma length_skip_atoi_loop: "skip_atoi_loop i s = Some (w, s') \<Longrightarrow> length s' \<le> length s"
  by (induction i s rule: skip_atoi_loop.induct) (auto simp: Let_def bind_eq_Some_conv split: if_splits)

lemma length_directive: "directive fmt args = Some (v, fmt', args') \<Longrightarrow> length fmt' \<le> length fmt"
  using length_format_flags [of 0 fmt]
  by (force simp: directive_def Let_def bind_eq_Some_conv format_width_def format_precision_def skip_atoi_def
      format_qualifier_def split: prod.splits if_splits dest: length_skip_atoi_loop)

function vsnprintf_loop :: "u32 \<Rightarrow> u8 list \<Rightarrow> va list \<Rightarrow> out \<Rightarrow> out option" where
  "vsnprintf_loop e [] args st = Some st"
| "vsnprintf_loop e (c # fmt) args st =
     (if c \<noteq> 37 then vsnprintf_loop e fmt args (put_char e c st)
      else (case directive fmt args of
          Some (v, fmt', args') \<Rightarrow> Option.bind (print_conversion e v st) (vsnprintf_loop e fmt' args')
        | None \<Rightarrow> None))"
  by pat_completeness auto

termination
  by (relation "measure (\<lambda>(_, fmt, _, _). length fmt)") (auto dest: length_directive)

definition rt_vsnprintf :: "u32 \<Rightarrow> u32 \<Rightarrow> u8 list \<Rightarrow> va list \<Rightarrow> memory \<Rightarrow> (int \<times> memory) option" where
  "rt_vsnprintf buf n fmt args m = do {
     let e = buf + n - 1;
     let e = (if e < buf then - 1 else e);
     (str, m) \<leftarrow> vsnprintf_loop e fmt args (buf, m);
     Some (sint (str - buf), if str \<le> e then m(str := 0) else m(e := 0))
   }"

definition rt_snprintf :: "u32 \<Rightarrow> u32 \<Rightarrow> u8 list \<Rightarrow> va list \<Rightarrow> memory \<Rightarrow> (int \<times> memory) option" where
  "rt_snprintf buf n fmt args m = rt_vsnprintf buf n fmt args m"

definition rt_vsprintf :: "u32 \<Rightarrow> u8 list \<Rightarrow> va list \<Rightarrow> memory \<Rightarrow> (int \<times> memory) option" where
  "rt_vsprintf buf fmt args m = rt_vsnprintf buf (- 1) fmt args m"

definition rt_sprintf :: "u32 \<Rightarrow> u8 list \<Rightarrow> va list \<Rightarrow> memory \<Rightarrow> (int \<times> memory) option" where
  "rt_sprintf buf fmt args m = rt_vsprintf buf fmt args m"

section \<open>The text of a directive\<close>

text \<open>
  What a directive stands for, without a buffer: digits of a number from the highest to the lowest, sign,
  zeros up to the precision, and the gap up to the width on the side the flags select. As in the code, base 8
  prints hexadecimal digits, and with precision 0 the digits are left out but still counted.
\<close>

fun radix :: "nat \<Rightarrow> nat \<Rightarrow> nat list" where
  "radix b n = (if n < b \<or> b < 2 then [n] else radix b (n div b) @ [n mod b])"

declare radix.simps [simp del]

definition sign_text :: "u32 \<Rightarrow> u8 \<Rightarrow> u8 list" where
  "sign_text num flags =
     (if \<not> bit flags SIGN then [] else if num <s 0 then [45] else if bit flags PLUS then [43]
      else if bit flags SPACE then [32] else [])"

definition magnitude :: "u32 \<Rightarrow> u8 \<Rightarrow> nat" where
  "magnitude num flags = (if bit flags SIGN \<and> num <s 0 then unat (- num) else unat num)"

definition digits_text :: "u8 \<Rightarrow> nat \<Rightarrow> nat \<Rightarrow> u8 list" where
  "digits_text flags base n = map ((!) (if bit flags LARGE then large_digits else small_digits))
     (radix (if base = 10 then 10 else 16) n)"

definition number_text :: "u32 \<Rightarrow> nat \<Rightarrow> int \<Rightarrow> int \<Rightarrow> u8 \<Rightarrow> u8 list" where
  "number_text num base width precision flags =
     (let sg = sign_text num flags;
          ds = digits_text flags base (magnitude num flags);
          body = replicate (nat (precision - int (length ds))) 48 @ (if precision = 0 then [] else ds);
          gap = nat (width - max (int (length ds)) precision - int (length sg))
      in if bit flags LEFT then sg @ body @ replicate gap 32
         else if bit flags ZEROPAD then sg @ replicate gap 48 @ body
         else replicate gap 32 @ sg @ body)"

fun text_of :: "conversion \<Rightarrow> u8 list" where
  "text_of (Literal cs) = cs"
| "text_of (Char flags width c) =
     (if bit flags LEFT then c # replicate (nat (width - 1)) 32 else replicate (nat (width - 1)) 32 @ [c])"
| "text_of (String flags width precision s) =
     (let s = cstr s; t = (if precision > 0 then take (nat precision) s else s); gap = nat (width - int (length t))
      in if bit flags LEFT then t @ replicate gap 32 else replicate gap 32 @ t)"
| "text_of (Number num base width precision flags) = number_text num base width precision flags"

function format_text :: "u8 list \<Rightarrow> va list \<Rightarrow> u8 list option" where
  "format_text [] args = Some []"
| "format_text (c # fmt) args =
     (if c \<noteq> 37 then map_option ((#) c) (format_text fmt args)
      else (case directive fmt args of
          Some (v, fmt', args') \<Rightarrow> map_option ((@) (text_of v)) (format_text fmt' args')
        | None \<Rightarrow> None))"
  by pat_completeness auto

termination
  by (relation "measure (\<lambda>(fmt, _). length fmt)") (auto dest: length_directive)

section \<open>Output through the pointer\<close>

definition emit :: "u32 \<Rightarrow> u8 list \<Rightarrow> out \<Rightarrow> out" where
  "emit e xs = fold (put_char e) xs"

text \<open>How many bytes there are from \<open>p\<close> up to the end of the buffer.\<close>

definition room :: "u32 \<Rightarrow> u32 \<Rightarrow> nat" where
  "room e p = (if p \<le> e then Suc (unat e - unat p) else 0)"

lemma emit_simps [simp]:
  "emit e [] st = st" "emit e (x # xs) st = emit e xs (put_char e x st)"
  by (simp_all add: emit_def)

lemma emit_append: "emit e (xs @ ys) st = emit e ys (emit e xs st)"
  by (simp add: emit_def)

lemma emit_funpow: "(put_char e c ^^ k) st = emit e (replicate k c) st"
  by (induction k arbitrary: st) (simp_all add: funpow_Suc_right del: funpow.simps)

lemma put_pad_emit: "put_pad e c n st = emit e (replicate (nat n) c) st"
  by (simp add: put_pad_def emit_funpow)

lemma fst_emit: "fst (emit e xs st) = fst st + of_nat (length xs)"
  by (induction xs arbitrary: st) (simp_all add: put_char_def split: prod.splits)

lemma room_Suc:
  assumes "unat p + 1 < 2 ^ 32"
  shows "room e (p + 1) = room e p - 1"
proof -
  have "unat (p + 1) = Suc (unat p)" using assms by (simp add: unat_word_ariths)
  then show ?thesis by (auto simp: room_def word_le_nat_alt)
qed

lemma room_add:
  assumes "unat p + n < 2 ^ 32"
  shows "room e (p + of_nat n) = room e p - n"
proof -
  have "unat (p + of_nat n) = unat p + n" using assms by (simp add: unat_word_ariths unat_of_nat)
  then show ?thesis by (auto simp: room_def word_le_nat_alt)
qed

lemma snd_emit:
  "unat p + length xs \<le> 2 ^ 32 \<Longrightarrow> snd (emit e xs (p, m)) = store_bytes p (take (room e p) xs) m"
proof (induction xs arbitrary: p m)
  case (Cons x xs)
  let ?m = "if p \<le> e then m(p := x) else m"
  have "snd (emit e xs (p + 1, ?m)) = store_bytes (p + 1) (take (room e p - 1) xs) ?m"
  proof (cases "xs = []")
    case False
    then have "unat p + 1 < 2 ^ 32" using Cons.prems by (cases xs) simp_all
    moreover from this have "unat (p + 1) = unat p + 1" by (simp add: unat_word_ariths)
    ultimately show ?thesis using Cons.IH [of "p + 1" ?m] Cons.prems room_Suc [of p e] by simp
  qed simp
  then show ?case by (auto simp: put_char_def room_def)
qed simp

lemma emit_eq:
  "unat p + length xs \<le> 2 ^ 32 \<Longrightarrow>
    emit e xs (p, m) = (p + of_nat (length xs), store_bytes p (take (room e p) xs) m)"
  using snd_emit [of p xs e m] fst_emit [of e xs "(p, m)"] by (simp add: prod_eq_iff)

text \<open>Two texts of which only the first \<open>r\<close> bytes are kept: the same, or both longer and equal so far.\<close>

definition agree :: "nat \<Rightarrow> u8 list \<Rightarrow> u8 list \<Rightarrow> bool" where
  "agree r xs ys \<longleftrightarrow> xs = ys \<or> r < length xs \<and> r < length ys \<and> take r xs = take r ys"

lemma agree_refl [simp]: "agree r xs xs"
  by (simp add: agree_def)

lemma agree_append:
  assumes "agree r xs xs'" and "agree (r - length xs) ys ys'"
  shows "agree r (xs @ ys) (xs' @ ys')"
  using assms by (auto simp: agree_def)

lemma agree_take: "agree r xs ys \<Longrightarrow> take r xs = take r ys"
  by (auto simp: agree_def)

section \<open>Each conversion emits its text\<close>

lemma radix_bound:
  "2 \<le> b \<Longrightarrow> n < b ^ k \<Longrightarrow> 0 < k \<Longrightarrow> length (radix b n) \<le> k"
proof (induction k arbitrary: n)
  case (Suc k)
  show ?case
  proof (cases "n < b")
    case False
    then have "0 < k" using Suc.prems by (cases k) simp_all
    moreover have "n div b < b ^ k" using Suc.prems by (simp add: less_mult_imp_div_less mult.commute)
    ultimately show ?thesis using Suc.IH [of "n div b"] Suc.prems(1) False by (simp add: radix.simps [of b n])
  qed (simp add: radix.simps [of b n])
qed simp

lemma magnitude_less: "magnitude num flags < 2 ^ 32"
proof -
  have "unat num < 2 ^ LENGTH(32)" "unat (- num) < 2 ^ LENGTH(32)" by (rule unsigned_less)+
  then show ?thesis by (simp add: magnitude_def)
qed

lemma length_digits_text: "length (digits_text flags base (magnitude num flags)) \<le> 10"
  using magnitude_less [of num flags] radix_bound [of 10 "magnitude num flags" 10] radix_bound [of 16 "magnitude num flags" 10]
  by (simp add: digits_text_def)

lemma number_tmp_radix:
  "num \<noteq> 0 \<Longrightarrow> number_tmp digits base num = rev (map ((!) digits) (radix (if base = 10 then 10 else 16) (unat num)))"
proof (induction digits base num rule: number_tmp.induct)
  case (1 digits base num)
  let ?b = "if base = 10 then 10 else 16 :: nat"
  let ?n = "num div (if base = 10 then 10 else 16)"
  have d: "divide num base = (unat num mod ?b, ?n)" by (simp add: divide_def unat_mod)
  have n: "unat ?n = unat num div ?b" by (simp add: unat_div)
  have step: "number_tmp digits base num = digits ! (unat num mod ?b) # number_tmp digits base ?n"
    using 1(2) d by (simp add: number_tmp.simps [of digits base num])
  show ?case
  proof (cases "?n = 0")
    case True
    then have "unat num div ?b = 0" using n by simp
    then have "unat num < ?b" by (simp add: div_eq_0_iff split: if_splits)
    then show ?thesis using step True by (simp add: number_tmp.simps [of digits base 0] radix.simps [of ?b "unat num"])
  next
    case False
    then have "unat num div ?b \<noteq> 0" using n by (metis unat_eq_0)
    then have "\<not> unat num < ?b" by (metis div_less)
    then have "radix ?b (unat num) = radix ?b (unat num div ?b) @ [unat num mod ?b]"
      by (simp add: radix.simps [of ?b "unat num"])
    with step 1(1) [OF 1(2) d [symmetric] False] n show ?thesis by simp
  qed
qed

lemma tmp_digits:
  "(if num = 0 then [48] else number_tmp (if bit flags LARGE then large_digits else small_digits) base num) =
    rev (digits_text flags base (unat num))"
  using number_tmp_radix [of num] by (simp add: digits_text_def radix.simps [of _ 0] small_digits_def large_digits_def)

lemma type_bits:
  "bit (flags AND - 2 :: u8) n \<longleftrightarrow> bit flags n \<and> n \<noteq> 0"
  using bit_and_not_single [of flags 0 n] by simp

lemma print_number_spec:
  "\<exists>ys. print_number e num base s precision flags (p, m) = Some (emit e ys (p, m)) \<and>
     agree (room e p) (number_text num base s precision flags) ys \<and>
     length ys \<le> Suc (length (number_text num base s precision flags))"
proof -
  define ds where "ds = digits_text flags base (magnitude num flags)"
  define sg where "sg = sign_text num flags"
  define type where "type = (if bit flags LEFT then flags AND NOT 1 else flags)"
  define P where "P = max (int (length ds)) precision"
  define body where "body = replicate (nat (precision - int (length ds))) 48 @ (if precision = 0 then [] else ds)"
  define num' where "num' = (if bit flags SIGN \<and> num <s 0 then - num else num)"
  have ty: "bit type (Suc 0) = bit flags (Suc 0)" "bit type LARGE = bit flags LARGE" "bit type LEFT = bit flags LEFT" "bit type SIGN = bit flags SIGN"
      "bit type PLUS = bit flags PLUS" "bit type SPACE = bit flags SPACE" "bit type ZEROPAD \<longleftrightarrow> bit flags ZEROPAD \<and> \<not> bit flags LEFT"
    by (simp_all add: type_def type_bits)
  have sign: "number_sign type num = (if sg = [] then 0 else hd sg, num')"
    by (simp add: number_sign_def ty sg_def sign_text_def num'_def)
  have tmp: "(if num' = 0 then [48] else number_tmp (if bit flags LARGE then large_digits else small_digits) base num') = rev ds"
    using tmp_digits [of num' flags base] by (simp add: ds_def magnitude_def num'_def split: if_splits)
  have len: "length ds \<le> 16"
    using length_digits_text [of flags base num] by (simp add: ds_def)
  have sg: "sg = [] \<or> (\<exists>c. sg = [c] \<and> c \<noteq> 0)" by (simp add: sg_def sign_text_def)
  have P: "(if precision < int (length ds) then int (length ds) else precision) = P" by (simp add: P_def)
  have body': "(if precision \<noteq> 0 then fold (put_char e) ds (put_pad e 48 (P - int (length ds)) st)
      else put_pad e 48 (P - int (length ds)) st) = emit e body st" for st
    by (simp add: body_def emit_append put_pad_emit P_def emit_def max_def)
  have nt: "number_text num base s precision flags = (let gap = nat (s - P - int (length sg)) in
      if bit flags LEFT then sg @ body @ replicate gap 32
      else if bit flags ZEROPAD then sg @ replicate gap 48 @ body else replicate gap 32 @ sg @ body)"
    by (simp add: number_text_def Let_def ds_def sg_def P_def body_def)
  have pn: "print_number e num base s precision flags (p, m) =
      (let (size, st) = (if \<not> bit flags ZEROPAD \<and> \<not> bit flags LEFT then
             let size = (if sg \<noteq> [] \<and> s - P > 0 then s - P - 1 else s - P) in (min size 0 - 1, put_pad e 32 size (p, m))
           else (s - P, p, m));
         (size, st) = (if sg \<noteq> [] then (if fst st \<le> e then size - 1 else size, put_char e (hd sg) st) else (size, st));
         (size, st) = (if \<not> bit flags LEFT
           then (min size 0 - 1, put_pad e (if bit flags ZEROPAD then 48 else 32) size st) else (size, st))
       in Some (put_pad e 32 size (emit e body st)))"
  proof -
    have h: "(if sg = [] then 0 else hd sg) \<noteq> 0 \<longleftrightarrow> sg \<noteq> []" using sg by auto
    show ?thesis
      unfolding print_number_def Let_def type_def [symmetric]
      by (simp only: sign prod.case ty tmp length_rev rev_rev_ident P body' rt_assert_bind [OF len] h)
         (cases "bit flags LEFT"; cases "bit flags ZEROPAD"; use sg in force)
  qed
  note d = pn Let_def put_pad_emit emit_append
  show ?thesis
  proof (cases "sg = []")
    case True
    then show ?thesis
      by (intro exI [of _ "number_text num base s precision flags"]) (simp add: d nt)
  next
    case False
    then obtain c where c: "sg = [c]" "c \<noteq> 0" using sg by blast
    let ?gap = "nat (s - P - (if p \<le> e then 1 else 0))"
    let ?ys = "if bit flags LEFT then c # body @ replicate ?gap 32
      else if bit flags ZEROPAD then c # replicate ?gap 48 @ body else number_text num base s precision flags"
    have "print_number e num base s precision flags (p, m) = Some (emit e ?ys (p, m))"
      by (simp add: d nt c put_char_def)
    moreover have "agree (room e p) (number_text num base s precision flags) ?ys"
      by (simp add: nt c Let_def agree_def room_def)
    moreover have "length ?ys \<le> Suc (length (number_text num base s precision flags))"
      by (auto simp: nt c Let_def)
    ultimately show ?thesis by blast
  qed
qed

lemma print_char_emit: "print_char e flags width c st = emit e (text_of (Char flags width c)) st"
  by (auto simp: print_char_def put_pad_emit emit_append Let_def)

lemma print_string_emit: "print_string e flags width precision s st = emit e (text_of (String flags width precision s)) st"
proof -
  define len where "len = (if precision > 0 \<and> int (length (cstr s)) > precision then precision else int (length (cstr s)))"
  have len: "0 \<le> len" "nat len \<le> length (cstr s)" by (auto simp: len_def)
  have t: "(if precision > 0 then take (nat precision) (cstr s) else cstr s) = take (nat len) s"
    using len(2) by (auto simp: take_cstr len_def)
  have l: "int (length (take (nat len) s)) = len" using len by (simp add: take_cstr)
  show ?thesis
    unfolding print_string_def text_of.simps Let_def rt_strlen_cstr len_def [symmetric] t l
    by (simp add: put_pad_emit emit_append flip: emit_def)
qed

lemma print_conversion_spec:
  "\<exists>ys. print_conversion e v (p, m) = Some (emit e ys (p, m)) \<and> agree (room e p) (text_of v) ys \<and>
     length ys \<le> Suc (length (text_of v))"
proof (cases v)
  case (Literal cs)
  then show ?thesis by (intro exI [of _ cs]) (simp add: emit_def)
next
  case (Char flags width c)
  then show ?thesis by (intro exI [of _ "text_of v"]) (simp add: print_char_emit)
next
  case (String flags width precision s)
  then show ?thesis by (intro exI [of _ "text_of v"]) (simp add: print_string_emit)
next
  case (Number num base width precision flags)
  then show ?thesis using print_number_spec by simp
qed

lemma vsnprintf_loop_spec:
  "format_text fmt args = Some out \<Longrightarrow> unat p + length out + length fmt < 2 ^ 32 \<Longrightarrow>
    \<exists>ys. vsnprintf_loop e fmt args (p, m) = Some (emit e ys (p, m)) \<and> agree (room e p) out ys \<and>
      length ys \<le> length out + length fmt"
proof (induction fmt args arbitrary: out p m rule: format_text.induct)
  case (2 c fmt args)
  have step: "\<exists>ys. vsnprintf_loop e fmt' args' (emit e y1 (p, m)) = Some (emit e ys (emit e y1 (p, m))) \<and>
      agree (room e p - length y1) out' ys \<and> length ys \<le> length out' + length fmt'"
    if ih: "\<And>p m. unat p + length out' + length fmt' < 2 ^ 32 \<Longrightarrow>
        \<exists>ys. vsnprintf_loop e fmt' args' (p, m) = Some (emit e ys (p, m)) \<and> agree (room e p) out' ys \<and>
          length ys \<le> length out' + length fmt'"
      and y1: "unat p + length y1 + length out' + length fmt' < 2 ^ 32" for fmt' args' out' y1
  proof -
    obtain q m' where q: "emit e y1 (p, m) = (q, m')" by fastforce
    then have "q = p + of_nat (length y1)" using fst_emit [of e y1 "(p, m)"] by simp
    moreover have "unat (p + of_nat (length y1)) = unat p + length y1" using y1 by (simp add: unat_word_ariths unat_of_nat)
    ultimately show ?thesis using ih [of q m'] y1 room_add [of p "length y1" e] q by simp
  qed
  show ?case
  proof (cases "c = 37")
    case False
    then obtain out' where o: "format_text fmt args = Some out'" "out = c # out'" using 2(3) by auto
    obtain ys where "vsnprintf_loop e fmt args (emit e [c] (p, m)) = Some (emit e ys (emit e [c] (p, m)))"
        "agree (room e p - 1) out' ys" "length ys \<le> length out' + length fmt"
      using step [OF 2(1) [OF False o(1)], of "[c]"] 2(4) o(2) by auto
    then show ?thesis using False o(2) agree_append [of "room e p" "[c]" "[c]" out' ys]
      by (intro exI [of _ "c # ys"]) (simp add: put_char_def)
  next
    case True
    then obtain v fmt' args' out' where v: "directive fmt args = Some (v, fmt', args')" "format_text fmt' args' = Some out'"
        "out = text_of v @ out'"
      using 2(3) by (auto split: option.splits)
    obtain y1 where y1: "print_conversion e v (p, m) = Some (emit e y1 (p, m))" "agree (room e p) (text_of v) y1"
        "length y1 \<le> Suc (length (text_of v))"
      using print_conversion_spec [of e v p m] by blast
    have len: "length fmt' \<le> length fmt" using length_directive [OF v(1)] .
    obtain ys where ys: "vsnprintf_loop e fmt' args' (emit e y1 (p, m)) = Some (emit e ys (emit e y1 (p, m)))"
        "agree (room e p - length y1) out' ys" "length ys \<le> length out' + length fmt'"
      using step [of out' fmt' args' y1] 2(2) [OF _ v(1) refl refl v(2)] 2(4) True v(3) y1(3) len by auto
    have "agree (room e p) out (y1 @ ys)"
      using y1(2) ys(2) agree_append by (auto simp: v(3) agree_def)
    then show ?thesis using True v y1 ys len by (intro exI [of _ "y1 @ ys"]) (simp add: emit_append)
  qed
qed simp

lemma store_bytes_last: "(store_bytes a (xs @ [x]) m)(a + of_nat (length xs) := y) = store_bytes a (xs @ [y]) m"
  by (simp flip: store_bytes_append)

lemma vsnprintf_end:
  assumes n: "1 \<le> n" "unat buf + unat n \<le> 2 ^ 32"
  shows "\<not> buf + n - 1 < buf" and "unat (buf + n - 1) = unat buf + unat n - 1" and "room (buf + n - 1) buf = unat n"
proof -
  have "0 < unat n" using n(1) by (simp add: word_le_nat_alt)
  have add: "unat (buf + k) = unat buf + unat k" if "unat buf + unat k < 2 ^ 32" for k
    using that by (simp add: unat_word_ariths)
  have "unat (n - 1) = unat n - 1" using \<open>0 < unat n\<close> by (metis unat_minus_one unat_eq_0 less_numeral_extra(3))
  then show e: "unat (buf + n - 1) = unat buf + unat n - 1" using n(2) add [of "n - 1"] \<open>0 < unat n\<close> unfolding add_diff_eq by simp
  show "\<not> buf + n - 1 < buf" "room (buf + n - 1) buf = unat n"
    using e \<open>0 < unat n\<close> by (simp_all add: room_def word_less_nat_alt word_le_nat_alt)
qed

lemma rt_vsnprintf_spec:
  assumes "1 \<le> n" and "unat buf + unat n \<le> 2 ^ 32" and "format_text fmt args = Some out"
    and "unat buf + length out + length fmt < 2 ^ 32" and "length out + length fmt < 2 ^ 31"
  shows "\<exists>len. rt_vsnprintf buf n fmt args m = Some (len, store_bytes buf (take (unat n - 1) out @ [0]) m) \<and>
    (length out < unat n \<longrightarrow> len = int (length out)) \<and> (unat n \<le> length out \<longrightarrow> uint n \<le> len)"
proof -
  let ?e = "buf + n - 1"
  note e = vsnprintf_end [OF assms(1,2)]
  obtain ys where ys: "vsnprintf_loop ?e fmt args (buf, m) = Some (emit ?e ys (buf, m))" "agree (unat n) out ys"
      "length ys \<le> length out + length fmt"
    using vsnprintf_loop_spec [OF assms(3,4), of ?e m] e(3) by auto
  let ?str = "buf + of_nat (length ys)" and ?m = "store_bytes buf (take (unat n) ys) m"
  have em: "emit ?e ys (buf, m) = (?str, ?m)" using emit_eq [of buf ys ?e m] ys(3) assms(4) e(3) by simp
  have str: "unat ?str = unat buf + length ys" using ys(3) assms(4) by (simp add: unat_word_ariths unat_of_nat)
  have len: "sint (word_of_nat (length ys) :: u32) = int (length ys)"
    using ys(3) assms(5) by (simp add: sint_uint signed_take_bit_int_eq_self uint_nat unat_of_nat take_bit_nat_eq_self)
  have run: "rt_vsnprintf buf n fmt args m = Some (int (length ys), if ?str \<le> ?e then ?m(?str := 0) else ?m(?e := 0))"
    using e(1) ys(1) by (simp add: rt_vsnprintf_def em len Let_def)
  show ?thesis
  proof (cases "length ys < unat n")
    case True
    then have "out = ys" using ys(2) by (auto simp: agree_def)
    moreover have "?str \<le> ?e" using True str e(2) by (simp add: word_le_nat_alt)
    ultimately show ?thesis using run True by (simp flip: store_bytes_append)
  next
    case False
    then have out: "unat n \<le> length out" "take (unat n) ys = take (unat n) out" using ys(2) by (auto simp: agree_def)
    have gt: "\<not> ?str \<le> ?e" using False str e(2) assms(1) by (simp add: word_le_nat_alt)
    have t: "take (unat n) out = take (unat n - 1) out @ [out ! (unat n - 1)]"
      using out(1) assms(1) take_Suc_conv_app_nth [of "unat n - 1" out] by (simp add: word_le_nat_alt)
    have at: "buf + of_nat (length (take (unat n - 1) out)) = ?e"
    proof -
      have "0 < unat n" using assms(1) by (simp add: word_le_nat_alt)
      then have "unat (buf + of_nat (unat n - 1)) = unat buf + (unat n - 1)"
        using assms(2) by (simp add: unat_word_ariths unat_of_nat del: of_nat_diff)
      then have "buf + of_nat (unat n - 1) = ?e" using e(2) \<open>0 < unat n\<close> by (intro word_unat_eq_iff [THEN iffD2]) simp
      then show ?thesis using out(1) by (simp add: min_absorb2 del: of_nat_diff)
    qed
    have "?m(?e := 0) = store_bytes buf (take (unat n - 1) out @ [0]) m"
      unfolding out(2) t by (rule store_bytes_last [of buf "take (unat n - 1) out", unfolded at])
    then have "rt_vsnprintf buf n fmt args m = Some (int (length ys), store_bytes buf (take (unat n - 1) out @ [0]) m)"
      using run gt by (simp only: if_False)
    moreover have "int (unat n) \<le> int (length ys)" using False by linarith
    ultimately show ?thesis using out(1) by (intro exI [of _ "int (length ys)"]) simp
  qed
qed

lemma rt_vsnprintf_result: "rt_vsnprintf buf n fmt args m = Some (len, m') \<Longrightarrow> len < 2 ^ 31"
  using sint_less [where 'a = 32] by (auto simp: rt_vsnprintf_def Let_def bind_eq_Some_conv)

text \<open>
  C31. Formatted output into a buffer of \<open>n\<close> bytes. For every format whose directives find their arguments, with
  \<open>out\<close> the text it stands for: the function changes the buffer and nothing else, the buffer holds as much of the
  text as fits and a terminating NUL, and the result is the length of the text when it fits, and otherwise at least
  the size of the buffer.
\<close>

theorem rt_vsnprintf_bounded:
  assumes "1 \<le> n" and "unat buf + unat n \<le> 2 ^ 32" and "format_text fmt args = Some out"
    and "unat buf + length out + length fmt < 2 ^ 32" and "length out + length fmt < 2 ^ 31"
  shows "\<exists>len. rt_vsnprintf buf n fmt args m = Some (len, store_bytes buf (take (unat n - 1) out @ [0]) m) \<and>
    (length out < unat n \<longrightarrow> len = int (length out)) \<and> (unat n \<le> length out \<longrightarrow> uint n \<le> len)"
  by (rule rt_vsnprintf_spec [OF assms])

theorem rt_vsnprintf_bounded_witness:
  "\<exists>m' len. rt_vsnprintf 0x20000000 6 [120, 61, 37, 52, 100, 37, 115] [Va_int (- 5), Va_str (Some [111, 107])] (\<lambda>_. 1) =
     Some (len, store_bytes 0x20000000 [120, 61, 32, 32, 45, 0] (\<lambda>_. 1)) \<and> 6 \<le> len"
proof -
  have "format_text [120, 61, 37, 52, 100, 37, 115] [Va_int (- 5), Va_str (Some [111, 107])] =
      Some [120, 61, 32, 32, 45, 53, 111, 107]"
    by code_simp
  from rt_vsnprintf_bounded [OF _ _ this, of 6 "0x20000000" "\<lambda>_. 1"] show ?thesis by simp
qed

section \<open>Digits read back\<close>

lemma skip_atoi_append:
  "skip_atoi_loop i xs = Some (j, []) \<Longrightarrow> skip_atoi_loop i (xs @ ys) = skip_atoi_loop j ys"
  by (induction i xs rule: skip_atoi_loop.induct) (auto simp: bind_eq_Some_conv split: if_splits)

lemma digit_char: "d < 10 \<Longrightarrow> isdigit (small_digits ! d) \<and> uint (small_digits ! d) = 48 + int d"
proof -
  assume "d < 10"
  then have "d \<in> {0, 1, 2, 3, 4, 5, 6, 7, 8, 9}" by auto
  then show ?thesis unfolding small_digits_def isdigit_def by auto
qed

lemma skip_atoi_radix:
  "n + 48 \<le> 2147483647 \<Longrightarrow> skip_atoi_loop 0 (map ((!) small_digits) (radix 10 n)) = Some (int n, [])"
proof (induction "10 :: nat" n rule: radix.induct)
  case (1 n)
  have d: "isdigit (small_digits ! (n mod 10))" "uint (small_digits ! (n mod 10)) = 48 + int (n mod 10)"
    using digit_char [of "n mod 10"] by simp_all
  show ?case
  proof (cases "n < 10")
    case True
    then show ?thesis using d 1(2) by (simp add: radix.simps)
  next
    case False
    have ih: "skip_atoi_loop 0 (map ((!) small_digits) (radix 10 (n div 10))) = Some (int (n div 10), [])"
      using False 1 by (intro 1(1)) auto
    have "int (n div 10) * 10 + int (n mod 10) = int n" by presburger
    then show ?thesis using skip_atoi_append [OF ih] d 1(2) False
      by (subst radix.simps) (simp add: algebra_simps)
  qed
qed

text \<open>What \<^verbatim>\<open>%u\<close> prints, \<^verbatim>\<open>skip_atoi\<close> reads, and stops behind it.\<close>

lemma decimal_roundtrip:
  assumes "n + 48 \<le> 2147483647" and "\<not> isdigit (char_at rest)"
  shows "skip_atoi (number_text (of_nat n) 10 (- 1) (- 1) 0 @ rest) = Some (int n, rest)"
proof -
  have "number_text (of_nat n) 10 (- 1) (- 1) 0 = map ((!) small_digits) (radix 10 n)"
    using assms(1) by (simp add: number_text_def digits_text_def magnitude_def sign_text_def unat_of_nat)
  then show ?thesis using skip_atoi_append [OF skip_atoi_radix [OF assms(1)]] skip_atoi_radix [OF assms(1)] assms(2)
    by (cases rest) (auto simp: skip_atoi_def char_at_def)
qed

section \<open>Where the output is not that of C\<close>

text \<open>A buffer of size 0 is taken for one without end.\<close>

lemma vsnprintf_size_zero:
  assumes "format_text fmt args = Some out" and "unat buf + length out + length fmt < 2 ^ 32" and "buf \<noteq> 0"
  shows "\<exists>len. rt_vsnprintf buf 0 fmt args m = Some (len, store_bytes buf (out @ [0]) m)"
proof -
  have "buf - 1 < buf" using assms(3) by (simp add: word_less_nat_alt unat_minus_one unat_gt_0)
  then have e: "(if buf + 0 - 1 < buf then - 1 else buf + 0 - 1) = - 1" by simp
  have room: "room (- 1) buf = 2 ^ 32 - unat buf"
  proof -
    have "unat buf < 2 ^ LENGTH(32)" by (rule unsigned_less)
    moreover have "unat (- 1 :: u32) = 4294967295" by (simp add: unsigned_minus_1_eq_mask mask_eq_exp_minus_1)
    ultimately show ?thesis by (simp add: room_def Suc_diff_le)
  qed
  obtain ys where ys: "vsnprintf_loop (- 1) fmt args (buf, m) = Some (emit (- 1) ys (buf, m))" "agree (room (- 1) buf) out ys"
    using vsnprintf_loop_spec [OF assms(1,2), of "- 1" m] by blast
  then have "ys = out" using assms(2) by (auto simp: agree_def room)
  then have "vsnprintf_loop (- 1) fmt args (buf, m) = Some (buf + of_nat (length out), store_bytes buf out m)"
    using ys(1) emit_eq [of buf out "- 1" m] assms(2) room by simp
  then show ?thesis unfolding rt_vsnprintf_def Let_def e by (simp flip: store_bytes_append)
qed

text \<open>
  \<^verbatim>\<open>%o\<close> prints hexadecimal digits (8 as \<^verbatim>\<open>8\<close>); \<^verbatim>\<open>%.0d\<close> prints nothing even for 5; \<^verbatim>\<open>%.0s\<close> prints the whole string.
\<close>

lemma conversions_not_C:
  "format_text [37, 111] [Va_int 8] = Some [56]"
  "format_text [37, 46, 48, 100] [Va_int 5] = Some []"
  "format_text [37, 46, 48, 115] [Va_str (Some [97, 98])] = Some [97, 98]"
  by code_simp+

text \<open>The length returned for \<^verbatim>\<open>a%+03d\<close> depends on whether the buffer ends in front of the sign.\<close>

lemma length_depends_on_size:
  "map_option fst (rt_vsnprintf 0x100 9 [97, 37, 43, 48, 51, 100] [Va_int 1] (\<lambda>_. 0)) = Some 4"
  "map_option fst (rt_vsnprintf 0x100 1 [97, 37, 43, 48, 51, 100] [Va_int 1] (\<lambda>_. 0)) = Some 5"
  by code_simp+

end
