(* ===== verification/Serial_Fifo.thy ===== *)
theory Serial_Fifo
  imports "HOL-Library.Sublist" Memops Fifo
begin

text \<open>
  The receive buffer of the serial driver: the functions of
  \<^verbatim>\<open>components/drivers/serial/serial.c\<close> that put bytes into it and take bytes out, in interrupt mode
  (one byte at a time, from the interrupt) and in DMA mode (the hardware writes the bytes, the
  driver advances the put index). A full buffer gives up its oldest bytes. The two modes use
  \<^verbatim>\<open>is_full\<close> differently: with interrupts one place stays free and the flag means nothing, with DMA
  the flag tells a full buffer from an empty one.
\<close>

section \<open>The code\<close>

record rt_serial_rx_fifo =
  rx_buffer :: "u8 list"
  rx_put_index :: u16
  rx_get_index :: u16
  rx_is_full :: bool

text \<open>The buffer as \<^verbatim>\<open>rt_serial_open\<close> makes it.\<close>

definition new_rx_fifo :: "u16 \<Rightarrow> rt_serial_rx_fifo" where
  "new_rx_fifo sz = \<lparr>rx_buffer = replicate (unat sz) 0, rx_put_index = 0, rx_get_index = 0, rx_is_full = False\<rparr>"

text \<open>
  The critical section of the receive interrupt for one character, and that of one turn of
  \<^verbatim>\<open>_serial_int_rx\<close>. \<open>sz\<close> is \<^verbatim>\<open>serial->config.bufsz\<close>.
\<close>

definition rx_push :: "u16 \<Rightarrow> u8 \<Rightarrow> rt_serial_rx_fifo \<Rightarrow> rt_serial_rx_fifo option" where
  "rx_push sz ch f = do {
     rt_assert (unat (rx_put_index f) < length (rx_buffer f));
     let f = f\<lparr>rx_buffer := (rx_buffer f)[unat (rx_put_index f) := ch]\<rparr>;
     let f = f\<lparr>rx_put_index := rx_put_index f + 1\<rparr>;
     let f = (if rx_put_index f \<ge> sz then f\<lparr>rx_put_index := 0\<rparr> else f);
     if rx_put_index f = rx_get_index f then do {
       let f = f\<lparr>rx_get_index := rx_get_index f + 1, rx_is_full := True\<rparr>;
       Some (if rx_get_index f \<ge> sz then f\<lparr>rx_get_index := 0\<rparr> else f)
     } else Some f
   }"

definition rx_empty :: "rt_serial_rx_fifo \<Rightarrow> bool" where
  "rx_empty f \<longleftrightarrow> rx_get_index f = rx_put_index f \<and> \<not> rx_is_full f"

definition rx_pop :: "u16 \<Rightarrow> rt_serial_rx_fifo \<Rightarrow> (u8 \<times> rt_serial_rx_fifo) option" where
  "rx_pop sz f = do {
     rt_assert (unat (rx_get_index f) < length (rx_buffer f));
     let ch = rx_buffer f ! unat (rx_get_index f);
     let f = f\<lparr>rx_get_index := rx_get_index f + 1\<rparr>;
     let f = (if rx_get_index f \<ge> sz then f\<lparr>rx_get_index := 0\<rparr> else f);
     Some (ch, if rx_is_full f then f\<lparr>rx_is_full := False\<rparr> else f)
   }"

fun serial_int_rx :: "u16 \<Rightarrow> u32 \<Rightarrow> nat \<Rightarrow> rt_serial_rx_fifo \<times> memory \<Rightarrow> (nat \<times> rt_serial_rx_fifo \<times> memory) option" where
  "serial_int_rx sz data 0 (f, m) = Some (0, f, m)"
| "serial_int_rx sz data (Suc n) (f, m) =
     (if rx_empty f then Some (0, f, m)
      else do {
        (ch, f) \<leftarrow> rx_pop sz f;
        (r, f, m) \<leftarrow> serial_int_rx sz (data + 1) n (f, m(data := ch));
        Some (Suc r, f, m)
      })"

definition serial_fifo_calc_recved_len :: "u16 \<Rightarrow> rt_serial_rx_fifo \<Rightarrow> u32" where
  "serial_fifo_calc_recved_len sz f =
     (if rx_put_index f = rx_get_index f then (if \<not> rx_is_full f then 0 else ucast sz)
      else if rx_put_index f > rx_get_index f then ucast (rx_put_index f) - ucast (rx_get_index f)
      else ucast sz - (ucast (rx_get_index f) - ucast (rx_put_index f)))"

definition rt_dma_calc_recved_len :: "u16 \<Rightarrow> rt_serial_rx_fifo \<Rightarrow> u32" where
  "rt_dma_calc_recved_len = serial_fifo_calc_recved_len"

definition rt_dma_recv_update_get_index :: "u16 \<Rightarrow> u32 \<Rightarrow> rt_serial_rx_fifo \<Rightarrow> rt_serial_rx_fifo option" where
  "rt_dma_recv_update_get_index sz len f = do {
     rt_assert (len \<le> rt_dma_calc_recved_len sz f);
     let f = (if rx_is_full f \<and> len \<noteq> 0 then f\<lparr>rx_is_full := False\<rparr> else f);
     let f = f\<lparr>rx_get_index := rx_get_index f + ucast len\<rparr>;
     if rx_get_index f \<ge> sz then do {
       rt_assert (sz \<noteq> 0);
       Some (f\<lparr>rx_get_index := rx_get_index f mod sz\<rparr>)
     } else Some f
   }"

definition rt_dma_recv_update_put_index :: "u16 \<Rightarrow> u32 \<Rightarrow> rt_serial_rx_fifo \<Rightarrow> rt_serial_rx_fifo option" where
  "rt_dma_recv_update_put_index sz len f = do {
     f \<leftarrow> (if rx_get_index f \<le> rx_put_index f then do {
         let f = f\<lparr>rx_put_index := rx_put_index f + ucast len\<rparr>;
         if rx_put_index f \<ge> sz then do {
           rt_assert (sz \<noteq> 0);
           let f = f\<lparr>rx_put_index := rx_put_index f mod sz\<rparr>;
           Some (if rx_put_index f \<ge> rx_get_index f then f\<lparr>rx_is_full := True\<rparr> else f)
         } else Some f
       }
       else do {
         let f = f\<lparr>rx_put_index := rx_put_index f + ucast len\<rparr>;
         if rx_put_index f \<ge> rx_get_index f then do {
           f \<leftarrow> (if rx_put_index f \<ge> sz then do {
               rt_assert (sz \<noteq> 0);
               Some (f\<lparr>rx_put_index := rx_put_index f mod sz\<rparr>)
             } else Some f);
           Some (f\<lparr>rx_is_full := True\<rparr>)
         } else Some f
       });
     let f = (if rx_is_full f then f\<lparr>rx_get_index := rx_put_index f\<rparr> else f);
     Some (if rx_get_index f \<ge> sz then f\<lparr>rx_get_index := 0\<rparr> else f)
   }"

text \<open>
  The two \<^verbatim>\<open>rt_memcpy\<close> of \<^verbatim>\<open>_serial_dma_rx\<close>: up to the end of the buffer, then from its start. \<open>rx_copy\<close> fails when the
  copy would read outside the buffer.
\<close>

definition rx_copy :: "u32 \<Rightarrow> nat \<Rightarrow> nat \<Rightarrow> rt_serial_rx_fifo \<Rightarrow> memory \<Rightarrow> memory option" where
  "rx_copy data i n f m = do {
     rt_assert (i + n \<le> length (rx_buffer f));
     Some (store_bytes data (take n (drop i (rx_buffer f))) m)
   }"

definition serial_dma_rx_fifo :: "u16 \<Rightarrow> u32 \<Rightarrow> u32 \<Rightarrow> rt_serial_rx_fifo \<times> memory \<Rightarrow>
    (u32 \<times> rt_serial_rx_fifo \<times> memory) option" where
  "serial_dma_rx_fifo sz data len = (\<lambda>(f, m). do {
     let fifo_recved_len = rt_dma_calc_recved_len sz f;
     let recv_len = (if len < fifo_recved_len then len else fifo_recved_len);
     let i = unat (rx_get_index f);
     m \<leftarrow> (if i + unat recv_len < unat sz then rx_copy data i (unat recv_len) f m
           else do {
             m \<leftarrow> rx_copy data i (unat sz - i) f m;
             rx_copy (data + of_nat (unat sz - i)) 0 (unat recv_len + i - unat sz) f m
           });
     f \<leftarrow> rt_dma_recv_update_get_index sz recv_len f;
     Some (recv_len, f, m)
   })"

section \<open>Interrupt mode\<close>

text \<open>The buffer holds the bytes \<open>xs\<close>; one place stays free.\<close>

definition rx_holds :: "u16 \<Rightarrow> rt_serial_rx_fifo \<Rightarrow> u8 list \<Rightarrow> bool" where
  "rx_holds sz f xs \<longleftrightarrow> 2 \<le> sz \<and> length (rx_buffer f) = unat sz \<and> rx_get_index f < sz \<and> length xs < unat sz \<and>
     unat (rx_put_index f) = (unat (rx_get_index f) + length xs) mod unat sz \<and>
     xs = ring_read (rx_buffer f) (unat sz) (unat (rx_get_index f)) (length xs) \<and> (xs = [] \<longrightarrow> \<not> rx_is_full f)"

text \<open>An abstract buffer of limited size that gives up its oldest elements.\<close>

definition keep_last :: "nat \<Rightarrow> 'a list \<Rightarrow> 'a list" where
  "keep_last n xs = drop (length xs - n) xs"

lemma length_keep_last [simp]: "length (keep_last n xs) = min n (length xs)"
  by (simp add: keep_last_def)

lemma keep_last_fits: "length xs \<le> n \<Longrightarrow> keep_last n xs = xs"
  by (simp add: keep_last_def)

lemma keep_last_append: "keep_last n (keep_last n xs @ ys) = keep_last n (xs @ ys)"
  by (cases "length xs \<le> n") (auto simp: keep_last_def drop_append add.commute)

lemma ring_read_tl:
  assumes "xs = ring_read b m i (length xs)" and "xs \<noteq> []"
  shows "tl xs = ring_read b m (Suc i) (length (tl xs))" and "hd xs = b ! (i mod m)"
  using assms by (cases xs; simp add: ring_read_Suc)+

lemma rx_push_spec:
  assumes "rx_holds sz f xs"
  obtains f' where "rx_push sz ch f = Some f'" "rx_holds sz f' (keep_last (unat sz - 1) (xs @ [ch]))"
    "rx_buffer f' = (rx_buffer f)[unat (rx_put_index f) := ch]"
proof -
  let ?n = "unat sz" and ?p = "rx_put_index f" and ?g = "rx_get_index f"
  let ?b = "(rx_buffer f)[unat ?p := ch]"
  have h: "2 \<le> ?n" "length (rx_buffer f) = ?n" "unat ?g < ?n" "length xs < ?n"
      "unat ?p = (unat ?g + length xs) mod ?n" "xs = ring_read (rx_buffer f) ?n (unat ?g) (length xs)"
      "xs = [] \<longrightarrow> \<not> rx_is_full f"
    using assms by (auto simp: rx_holds_def word_le_nat_alt word_less_nat_alt)
  have p: "?p < sz" using h(1,5) mod_less_divisor [of ?n] by (simp add: word_less_nat_alt)
  define p' where "p' = (if ?p + 1 \<ge> sz then 0 else ?p + 1)"
  define g' where "g' = (if ?g + 1 \<ge> sz then 0 else ?g + 1)"
  have p': "unat p' = (unat ?g + Suc (length xs)) mod ?n" unfolding p'_def
    using unat_advance [OF p] h(5) by (simp add: mod_Suc_eq)
  have g': "unat g' = Suc (unat ?g) mod ?n" "unat g' < ?n" unfolding g'_def
    using unat_advance [of ?g sz] h(1,3) by (simp_all add: word_less_nat_alt del: split_paired_All)
  have read: "ring_read ?b ?n (unat ?g) (Suc (length xs)) = xs @ [ch]"
    using ring_read_write [of "length xs" ?n "rx_buffer f" "unat ?g" ch] h by simp
  show ?thesis
  proof (cases "Suc (length xs) < ?n")
    case True
    have ne: "p' \<noteq> ?g"
    proof
      assume "p' = ?g"
      then have "(unat ?g + Suc (length xs)) mod ?n = (unat ?g + 0) mod ?n" using p' h(3) by simp
      from mod_inj_lt [OF this] True h(1) show False by simp
    qed
    show ?thesis
      by (rule that [of "f\<lparr>rx_buffer := ?b, rx_put_index := p'\<rparr>"])
         (use h p p' ne read True assms in \<open>auto simp: rx_push_def rt_assert_def p'_def Let_def keep_last_fits rx_holds_def
           word_less_nat_alt\<close>)
  next
    case False
    then have len: "Suc (length xs) = ?n" using h(4) by simp
    then have eq: "p' = ?g" using p' h(3) by (simp add: word_unat_eq_iff)
    have ne: "xs \<noteq> []" using len h(1) by auto
    have kl: "keep_last (?n - 1) (xs @ [ch]) = tl (xs @ [ch])" using len ne by (cases xs) (auto simp: keep_last_def)
    have tl: "tl (xs @ [ch]) = ring_read ?b ?n (Suc (unat ?g)) (length xs)"
      using ring_read_tl(1) [of "xs @ [ch]" ?b ?n "unat ?g"] read ne by simp
    have put: "unat p' = (unat g' + length xs) mod ?n" using p' g'(1) by (simp add: mod_simps)
    show ?thesis
      by (rule that [of "f\<lparr>rx_buffer := ?b, rx_put_index := p', rx_get_index := g', rx_is_full := True\<rparr>"])
         (use h p put g' eq tl kl len ne assms in \<open>auto simp: rx_push_def rt_assert_def p'_def g'_def Let_def rx_holds_def
           word_less_nat_alt ring_read_mod [of _ _ "Suc _"]\<close>)
  qed
qed


lemma rx_pop_spec:
  assumes "rx_holds sz f xs"
  shows "xs = [] \<Longrightarrow> rx_empty f" and "xs \<noteq> [] \<Longrightarrow> \<not> rx_empty f"
    and "xs \<noteq> [] \<Longrightarrow> \<exists>f'. rx_pop sz f = Some (hd xs, f') \<and> rx_holds sz f' (tl xs)"
proof -
  let ?n = "unat sz" and ?p = "rx_put_index f" and ?g = "rx_get_index f"
  have h: "2 \<le> ?n" "length (rx_buffer f) = ?n" "unat ?g < ?n" "length xs < ?n"
      "unat ?p = (unat ?g + length xs) mod ?n" "xs = ring_read (rx_buffer f) ?n (unat ?g) (length xs)"
      "xs = [] \<longrightarrow> \<not> rx_is_full f"
    using assms by (auto simp: rx_holds_def word_le_nat_alt word_less_nat_alt)
  show "xs = [] \<Longrightarrow> rx_empty f" using h(3,5,7) by (simp add: rx_empty_def word_unat_eq_iff)
  assume ne: "xs \<noteq> []"
  have "?g \<noteq> ?p"
  proof
    assume "?g = ?p"
    then have "(unat ?g + length xs) mod ?n = (unat ?g + 0) mod ?n"
      unfolding h(5) [symmetric] using h(3) by (metis add_0_right mod_less)
    from mod_inj_lt [OF this] h(1,4) ne show False by simp
  qed
  then show "\<not> rx_empty f" by (simp add: rx_empty_def)
  define g' where "g' = (if ?g + 1 \<ge> sz then 0 else ?g + 1)"
  have g': "unat g' = Suc (unat ?g) mod ?n" unfolding g'_def
    by (rule unat_advance) (use h(3) in \<open>simp add: word_less_nat_alt\<close>)
  then have g'2: "unat g' < ?n" using h(1) by simp
  note tl = ring_read_tl [OF h(6) ne]
  have "length xs = Suc (length (tl xs))" using ne by simp
  then have put: "unat ?p = (unat g' + length (tl xs)) mod ?n"
    unfolding h(5) g'(1) mod_add_left_eq by (metis add_Suc_right add_Suc)
  have "rx_holds sz (f\<lparr>rx_get_index := g', rx_is_full := False\<rparr>) (tl xs)"
    using h assms g' g'2 put tl(1) by (auto simp: rx_holds_def word_less_nat_alt ring_read_mod)
  moreover have "rx_pop sz f = Some (hd xs, f\<lparr>rx_get_index := g', rx_is_full := False\<rparr>)"
    using h(2,3) tl(2) by (simp add: rx_pop_def rt_assert_def g'_def Let_def)
  ultimately show "\<exists>f'. rx_pop sz f = Some (hd xs, f') \<and> rx_holds sz f' (tl xs)" by blast
qed

text \<open>
  The interrupt may come between two turns of the reading loop: any order of the two critical sections,
  and the abstract buffer they implement.
\<close>

datatype rx_step = Received u8 | Read_byte

fun rx_run :: "u16 \<Rightarrow> rx_step list \<Rightarrow> rt_serial_rx_fifo \<Rightarrow> (u8 list \<times> rt_serial_rx_fifo) option" where
  "rx_run sz [] f = Some ([], f)"
| "rx_run sz (Received ch # ss) f = do { f \<leftarrow> rx_push sz ch f; rx_run sz ss f }"
| "rx_run sz (Read_byte # ss) f =
     (if rx_empty f then rx_run sz ss f
      else do {
        (ch, f) \<leftarrow> rx_pop sz f;
        (del, f) \<leftarrow> rx_run sz ss f;
        Some (ch # del, f)
      })"

fun last_run :: "nat \<Rightarrow> rx_step list \<Rightarrow> u8 list \<Rightarrow> u8 list \<times> u8 list" where
  "last_run n [] xs = ([], xs)"
| "last_run n (Received ch # ss) xs = last_run n ss (keep_last n (xs @ [ch]))"
| "last_run n (Read_byte # ss) [] = last_run n ss []"
| "last_run n (Read_byte # ss) (x # xs) = (case last_run n ss xs of (del, rest) \<Rightarrow> (x # del, rest))"

lemma rx_run_refines:
  assumes "rx_holds sz f xs"
  shows "\<exists>f'. rx_run sz ss f = Some (fst (last_run (unat sz - 1) ss xs), f') \<and>
    rx_holds sz f' (snd (last_run (unat sz - 1) ss xs))"
  using assms
proof (induction ss arbitrary: f xs)
  case (Cons s ss)
  show ?case
  proof (cases s)
    case (Received ch)
    obtain f' where "rx_push sz ch f = Some f'" "rx_holds sz f' (keep_last (unat sz - 1) (xs @ [ch]))"
      using rx_push_spec [OF Cons.prems] .
    then show ?thesis using Cons.IH Received by auto
  next
    case Read_byte
    show ?thesis
    proof (cases xs)
      case Nil
      then show ?thesis using Cons.IH [OF Cons.prems] rx_pop_spec(1) [OF Cons.prems] Read_byte by simp
    next
      case (Cons y ys)
      obtain f' where f': "rx_pop sz f = Some (y, f')" "rx_holds sz f' ys"
        using rx_pop_spec(3) [OF Cons.prems] Cons by auto
      obtain f2 where "rx_run sz ss f' = Some (fst (last_run (unat sz - 1) ss ys), f2)"
          "rx_holds sz f2 (snd (last_run (unat sz - 1) ss ys))"
        using Cons.IH [OF f'(2)] by blast
      then show ?thesis using Cons f'(1) Read_byte rx_pop_spec(2) [OF Cons.prems]
        by (auto split: prod.splits)
    qed
  qed
qed auto

text \<open>No byte is made up, reordered or doubled, and none is lost while there is room.\<close>

definition received :: "rx_step list \<Rightarrow> u8 list" where
  "received ss = concat (map (\<lambda>s. case s of Received ch \<Rightarrow> [ch] | Read_byte \<Rightarrow> []) ss)"

lemma received_simps [simp]:
  "received [] = []" "received (Received ch # ss) = ch # received ss" "received (Read_byte # ss) = received ss"
  by (simp_all add: received_def)

lemma subseq_keep_last: "subseq (keep_last n xs) xs"
  unfolding keep_last_def by (metis append_take_drop_id list_emb_append2 subseq_order.order_refl)

lemma last_run_subseq:
  "subseq (fst (last_run n ss xs) @ snd (last_run n ss xs)) (xs @ received ss)"
proof (induction n ss xs rule: last_run.induct)
  case (2 n ch ss xs)
  have "subseq (keep_last n (xs @ [ch]) @ received ss) ((xs @ [ch]) @ received ss)"
    by (rule list_emb_append_mono [OF subseq_keep_last]) simp
  then show ?case using 2 subseq_order.order_trans by fastforce
qed (auto split: prod.splits)

lemma last_run_all:
  "length xs + length (received ss) \<le> n \<Longrightarrow> fst (last_run n ss xs) @ snd (last_run n ss xs) = xs @ received ss"
  by (induction n ss xs rule: last_run.induct) (auto simp: keep_last_fits split: prod.splits)

lemma last_run_received: "last_run n (map Received bs) xs = ([], keep_last n (xs @ bs))" if "length xs \<le> n"
  using that
proof (induction bs arbitrary: xs)
  case (Cons b bs)
  then show ?case using Cons.IH [of "keep_last n (xs @ [b])"] keep_last_append [of n "xs @ [b]" bs] by simp
qed (simp add: keep_last_fits)

text \<open>A read without an interrupt in between takes the oldest bytes to the caller's area.\<close>

lemma serial_int_rx_spec:
  assumes "rx_holds sz f xs"
  shows "\<exists>f'. serial_int_rx sz data n (f, m) = Some (min n (length xs), f', store_bytes data (take n xs) m) \<and>
    rx_holds sz f' (drop n xs)"
  using assms
proof (induction n arbitrary: f xs data m)
  case (Suc n)
  show ?case
  proof (cases xs)
    case Nil
    then show ?thesis using rx_pop_spec(1) [OF Suc.prems] Suc.prems by simp
  next
    case (Cons y ys)
    obtain f' where f': "rx_pop sz f = Some (y, f')" "rx_holds sz f' ys"
      using rx_pop_spec(3) [OF Suc.prems] Cons by auto
    obtain f2 where "serial_int_rx sz (data + 1) n (f', m(data := y)) =
        Some (min n (length ys), f2, store_bytes (data + 1) (take n ys) (m(data := y)))" "rx_holds sz f2 (drop n ys)"
      using Suc.IH [OF f'(2)] by blast
    then show ?thesis using Cons f'(1) rx_pop_spec(2) [OF Suc.prems] by simp
  qed
qed simp

section \<open>DMA mode\<close>

text \<open>The buffer holds the bytes \<open>xs\<close>; all places are used.\<close>

definition dma_holds :: "u16 \<Rightarrow> rt_serial_rx_fifo \<Rightarrow> u8 list \<Rightarrow> bool" where
  "dma_holds sz f xs \<longleftrightarrow> 0 < sz \<and> length (rx_buffer f) = unat sz \<and> rx_get_index f < sz \<and> length xs \<le> unat sz \<and>
     unat (rx_put_index f) = (unat (rx_get_index f) + length xs) mod unat sz \<and>
     xs = ring_read (rx_buffer f) (unat sz) (unat (rx_get_index f)) (length xs) \<and>
     (rx_is_full f \<longleftrightarrow> length xs = unat sz)"

text \<open>What the DMA hardware, programmed with the address and the length of the buffer, does with the bytes of a transfer.\<close>

fun dma_write :: "nat \<Rightarrow> nat \<Rightarrow> u8 list \<Rightarrow> u8 list \<Rightarrow> u8 list" where
  "dma_write n p [] b = b"
| "dma_write n p (x # xs) b = dma_write n (Suc p) xs (b[p mod n := x])"

lemma length_dma_write [simp]: "length (dma_write n p bs b) = length b"
  by (induction n p bs b rule: dma_write.induct) simp_all

lemma dma_write_step:
  assumes "0 < n" "length b = n" "length xs \<le> n" "xs = ring_read b n g (length xs)" "p mod n = (g + length xs) mod n"
  shows "keep_last n (xs @ [x]) =
      ring_read (b[p mod n := x]) n (g + (Suc (length xs) - n)) (length (keep_last n (xs @ [x])))"
    and "Suc p mod n = (g + (Suc (length xs) - n) + length (keep_last n (xs @ [x]))) mod n"
proof -
  have "keep_last n (xs @ [x]) = ring_read (b[p mod n := x]) n (g + (Suc (length xs) - n)) (length (keep_last n (xs @ [x]))) \<and>
    Suc p mod n = (g + (Suc (length xs) - n) + length (keep_last n (xs @ [x]))) mod n"
  proof (cases "length xs < n")
    case True
    then show ?thesis
      using ring_read_write [of "length xs" n b g x] assms
      by (simp add: keep_last_fits) (metis mod_Suc_eq)
  next
    case False
    then have len: "length xs = n" using assms(3) by simp
    then have pg: "p mod n = g mod n" using assms(5) by simp
    have ne: "xs \<noteq> []" using len assms(1) by auto
    have kl: "keep_last n (xs @ [x]) = tl xs @ [x]" using len ne by (cases xs) (auto simp: keep_last_def)
    have i: "(Suc g + (n - 1)) mod n = g mod n" using assms(1) by simp
    have "ring_read (b[g mod n := x]) n (Suc g) (Suc (n - 1)) = ring_read b n (Suc g) (n - 1) @ [x]"
      using ring_read_write [of "n - 1" n b "Suc g" x] assms(1,2) unfolding i by simp
    moreover have "tl xs = ring_read b n (Suc g) (n - 1)"
      using ring_read_tl(1) [OF assms(4) ne] len by simp
    ultimately have "tl xs @ [x] = ring_read (b[p mod n := x]) n (Suc g) n" using assms(1) pg by simp
    moreover have "Suc p mod n = (Suc g + n) mod n" using pg by (metis mod_Suc_eq mod_add_self2)
    ultimately show ?thesis using kl len ne by simp
  qed
  then show "keep_last n (xs @ [x]) =
      ring_read (b[p mod n := x]) n (g + (Suc (length xs) - n)) (length (keep_last n (xs @ [x])))"
    and "Suc p mod n = (g + (Suc (length xs) - n) + length (keep_last n (xs @ [x]))) mod n" by blast+
qed

lemma dma_write_holds:
  assumes "0 < n" "length b = n" "length xs \<le> n" "xs = ring_read b n g (length xs)" "p mod n = (g + length xs) mod n"
  shows "keep_last n (xs @ bs) =
      ring_read (dma_write n p bs b) n (g + (length xs + length bs - n)) (length (keep_last n (xs @ bs)))"
  using assms
proof (induction bs arbitrary: p g xs b)
  case Nil
  then show ?case by (simp add: keep_last_fits)
next
  case (Cons x bs)
  let ?ys = "keep_last n (xs @ [x])"
  note st = dma_write_step [OF Cons.prems, of x]
  have "keep_last n (?ys @ bs) = ring_read (dma_write n (Suc p) bs (b[p mod n := x])) n
      (g + (Suc (length xs) - n) + (length ?ys + length bs - n)) (length (keep_last n (?ys @ bs)))"
    by (rule Cons.IH) (use Cons.prems(1,2) st in auto)
  moreover have "g + (Suc (length xs) - n) + (length ?ys + length bs - n) = g + (length xs + length (x # bs) - n)"
    using Cons.prems(3) by simp
  moreover have "keep_last n (?ys @ bs) = keep_last n (xs @ x # bs)"
    using keep_last_append [of n "xs @ [x]" bs] by simp
  ultimately show ?case by (simp only: dma_write.simps)
qed

text \<open>
  The driver's side: the put index advances by the length of the transfer, and the oldest bytes are given
  up when it runs over the get index. The sum must fit into the 16 bits of the index.
\<close>

lemma update_put_index_spec:
  assumes h: "dma_holds sz f xs" and len: "unat len \<le> unat sz" and fit: "unat (rx_put_index f) + unat len < 2 ^ 16"
  obtains q where "unat q = (unat (rx_put_index f) + unat len) mod unat sz"
    and "rt_dma_recv_update_put_index sz len f = Some (f\<lparr>rx_put_index := q, rx_is_full := (unat sz \<le> length xs + unat len),
      rx_get_index := (if unat sz \<le> length xs + unat len then q else rx_get_index f)\<rparr>)"
proof -
  let ?n = "unat sz" and ?p = "unat (rx_put_index f)" and ?g = "unat (rx_get_index f)" and ?L = "unat len" and ?c = "length xs"
  have h': "0 < ?n" "?g < ?n" "?c \<le> ?n" "?p = (?g + ?c) mod ?n" "rx_is_full f \<longleftrightarrow> ?c = ?n"
    using h by (auto simp: dma_holds_def word_less_nat_alt)
  have sz0: "sz \<noteq> 0" using h'(1) by auto
  have p: "?p < ?n" using h'(1,4) by simp
  have L16: "?L < 2 ^ 16" using fit by simp
  have ul: "unat (ucast len :: u16) = ?L" using L16 by (simp add: unsigned_ucast_eq take_bit_nat_eq_self)
  define p1 where "p1 = rx_put_index f + ucast len"
  have p1: "unat p1 = ?p + ?L" unfolding p1_def using fit ul by (simp add: unat_word_ariths)
  define q where "q = (if p1 \<ge> sz then p1 mod sz else p1)"
  have q: "unat q = (?p + ?L) mod ?n" unfolding q_def using p1 by (simp add: word_le_nat_alt unat_mod)
  have q': "unat q = (if ?p + ?L \<ge> ?n then ?p + ?L - ?n else ?p + ?L)"
    unfolding q using p len by (simp add: le_mod_geq)
  have qn: "\<not> sz \<le> q" using q h'(1) by (simp add: word_le_nat_alt not_le)
  have gn: "\<not> sz \<le> rx_get_index f" using h'(2) by (simp add: word_le_nat_alt)
  have c: "?c = ?n \<and> ?p = ?g \<or> ?c < ?n \<and> ?p = (if ?g + ?c \<ge> ?n then ?g + ?c - ?n else ?g + ?c)"
    using h'(2,3,4) by (auto simp: le_mod_geq)
  have same: "f\<lparr>rx_put_index := a, rx_is_full := b\<rparr> = f\<lparr>rx_put_index := a\<rparr>"
      "f\<lparr>rx_put_index := a, rx_is_full := b, rx_get_index := e\<rparr> = f\<lparr>rx_put_index := a, rx_get_index := e\<rparr>"
    if "rx_is_full f = b" for a b e
    using that by (cases f; simp)+
  have "rt_dma_recv_update_put_index sz len f = Some (f\<lparr>rx_put_index := q, rx_is_full := (?n \<le> ?c + ?L),
      rx_get_index := (if ?n \<le> ?c + ?L then q else rx_get_index f)\<rparr>)"
  proof (cases "?g \<le> ?p")
    case True
    then have gp: "rx_get_index f \<le> rx_put_index f" by (simp add: word_le_nat_alt)
    show ?thesis
    proof (cases "?n \<le> ?p + ?L")
      case over: True
      then have over1: "sz \<le> p1" using p1 by (simp add: word_le_nat_alt)
      have "rx_get_index f \<le> q \<or> rx_is_full f \<longleftrightarrow> ?n \<le> ?c + ?L"
        using q' over c True len h'(5) by (auto simp: word_le_nat_alt split: if_splits)
      then show ?thesis using gp over1 sz0 qn gn
        by (auto simp: rt_dma_recv_update_put_index_def p1_def [symmetric] q_def rt_assert_def Let_def same)
    next
      case False
      then have False1: "\<not> sz \<le> p1" using p1 by (simp add: word_le_nat_alt)
      have "rx_is_full f \<longleftrightarrow> ?n \<le> ?c + ?L" using False c True h'(5) by (auto split: if_splits)
      then show ?thesis using gp False1 sz0 qn gn
        by (auto simp: rt_dma_recv_update_put_index_def p1_def [symmetric] q_def Let_def same)
    qed
  next
    case False
    then have gp: "\<not> rx_get_index f \<le> rx_put_index f" by (simp add: word_le_nat_alt)
    have full: "\<not> rx_is_full f" using c False h'(5) by auto
    have "rx_get_index f \<le> p1 \<longleftrightarrow> ?n \<le> ?c + ?L"
      using c False p1 by (auto simp: word_le_nat_alt split: if_splits)
    moreover have "sz \<le> p1 \<longrightarrow> rx_get_index f \<le> p1" using h'(2) by (simp add: word_le_nat_alt)
    ultimately show ?thesis using gp sz0 qn gn full
      by (auto simp: rt_dma_recv_update_put_index_def p1_def [symmetric] q_def rt_assert_def Let_def same)
  qed
  with q show ?thesis by (rule that)
qed

lemma dma_receive_spec:
  assumes h: "dma_holds sz f xs" and len: "length bs \<le> unat sz" and fit: "unat (rx_put_index f) + length bs < 2 ^ 16"
  shows "\<exists>f'. rt_dma_recv_update_put_index sz (of_nat (length bs))
      (f\<lparr>rx_buffer := dma_write (unat sz) (unat (rx_put_index f)) bs (rx_buffer f)\<rparr>) = Some f' \<and>
    dma_holds sz f' (keep_last (unat sz) (xs @ bs))"
proof -
  let ?n = "unat sz" and ?b = "dma_write (unat sz) (unat (rx_put_index f)) bs (rx_buffer f)"
  let ?f = "f\<lparr>rx_buffer := ?b\<rparr>" and ?g = "unat (rx_get_index f)"
  have u: "unat (of_nat (length bs) :: u32) = length bs" using fit by (simp add: unat_of_nat)
  have h': "0 < ?n" "length (rx_buffer f) = ?n" "?g < ?n" "length xs \<le> ?n" "unat (rx_put_index f) = (?g + length xs) mod ?n"
      "xs = ring_read (rx_buffer f) ?n ?g (length xs)" "rx_is_full f \<longleftrightarrow> length xs = ?n"
    using h by (auto simp: dma_holds_def word_less_nat_alt)
  have pre: "dma_holds sz (f\<lparr>rx_buffer := rx_buffer f\<rparr>) xs" using h by simp
  obtain q where q: "unat q = (unat (rx_put_index f) + length bs) mod ?n"
      "rt_dma_recv_update_put_index sz (of_nat (length bs)) f = Some (f\<lparr>rx_put_index := q, rx_is_full := (?n \<le> length xs + length bs),
        rx_get_index := (if ?n \<le> length xs + length bs then q else rx_get_index f)\<rparr>)"
    using update_put_index_spec [OF h, of "of_nat (length bs)"] len fit unfolding u by blast
  have commute: "rt_dma_recv_update_put_index sz l (f\<lparr>rx_buffer := b\<rparr>) =
      map_option (\<lambda>f'. f'\<lparr>rx_buffer := b\<rparr>) (rt_dma_recv_update_put_index sz l f)" for l b
    by (auto simp: rt_dma_recv_update_put_index_def rt_assert_def Let_def)
  let ?f' = "f\<lparr>rx_buffer := ?b, rx_put_index := q, rx_is_full := (?n \<le> length xs + length bs),
        rx_get_index := (if ?n \<le> length xs + length bs then q else rx_get_index f)\<rparr>"
  have run: "rt_dma_recv_update_put_index sz (of_nat (length bs)) ?f = Some ?f'"
    unfolding commute q(2) by simp
  have g': "unat (rx_get_index ?f') = (?g + (length xs + length bs - ?n)) mod ?n"
  proof (cases "?n \<le> length xs + length bs")
    case True
    have "(?g + (length xs + length bs - ?n)) mod ?n = (?g + (length xs + length bs - ?n) + ?n) mod ?n" by simp
    also have "?g + (length xs + length bs - ?n) + ?n = ?g + length xs + length bs" using True by simp
    finally show ?thesis using True q(1) h'(5) by (simp add: mod_add_left_eq)
  qed (use h'(3) in simp)
  have cont: "keep_last ?n (xs @ bs) = ring_read ?b ?n (unat (rx_get_index ?f')) (length (keep_last ?n (xs @ bs)))"
    unfolding g' ring_read_mod by (rule dma_write_holds) (use h'(1,2,4,5,6) in auto)
  have put: "unat q = (unat (rx_get_index ?f') + min ?n (length xs + length bs)) mod ?n"
  proof (cases "?n \<le> length xs + length bs")
    case True
    then show ?thesis using q(1) by simp
  next
    case False
    then show ?thesis unfolding q(1) h'(5) mod_add_left_eq by (simp add: add.assoc)
  qed
  have lt: "unat (rx_get_index ?f') < ?n" unfolding g' using h'(1) by simp
  have sel: "rx_put_index ?f' = q" "rx_buffer ?f' = ?b" by simp_all
  have "dma_holds sz ?f' (keep_last ?n (xs @ bs))" unfolding dma_holds_def
  proof (intro conjI)
    show "rx_get_index ?f' < sz" using lt by (simp only: word_less_nat_alt)
    show "unat (rx_put_index ?f') = (unat (rx_get_index ?f') + length (keep_last ?n (xs @ bs))) mod ?n"
      using put unfolding sel length_keep_last length_append .
    show "keep_last ?n (xs @ bs) = ring_read (rx_buffer ?f') ?n (unat (rx_get_index ?f')) (length (keep_last ?n (xs @ bs)))"
      using cont unfolding sel .
  qed (use h'(1,2) in \<open>auto simp: word_less_nat_alt\<close>)
  with run show ?thesis by blast
qed

text \<open>How many bytes lie between the two indices.\<close>

lemma unat_ucast_u16: "unat (ucast w :: u32) = unat w" for w :: u16
proof -
  have "unat w < 2 ^ LENGTH(16)" by (rule unsigned_less)
  also have "(2 :: nat) ^ LENGTH(16) \<le> 2 ^ LENGTH(32)" by simp
  finally have "unat w < 2 ^ LENGTH(32)" .
  then show ?thesis unfolding unsigned_ucast_eq by (rule take_bit_nat_eq_self)
qed

lemma index_distance:
  fixes g p sz :: u16
  assumes p: "unat p = (unat g + c) mod unat sz" and g: "g < sz" and c: "c < unat sz"
  shows "unat (if p \<ge> g then ucast p - ucast g else ucast sz - (ucast g - ucast p) :: u32) = c"
    and "p = g \<longleftrightarrow> c = 0"
proof -
  have g': "unat g < unat sz" using g by (simp add: word_less_nat_alt)
  have p': "unat p = (if unat sz \<le> unat g + c then unat g + c - unat sz else unat g + c)"
    unfolding p using g' c by (simp add: le_mod_geq)
  show "p = g \<longleftrightarrow> c = 0" unfolding word_unat_eq_iff p' using g' c by auto
  show "unat (if p \<ge> g then ucast p - ucast g else ucast sz - (ucast g - ucast p) :: u32) = c"
  proof (cases "unat sz \<le> unat g + c")
    case True
    have lt: "unat p < unat g" unfolding p' using True g' c by simp
    have a: "unat (ucast g - ucast p :: u32) = unat g - unat p"
      using lt by (simp add: unat_sub unat_ucast_u16 word_le_nat_alt)
    then have "unat (ucast sz - (ucast g - ucast p) :: u32) = unat sz - (unat g - unat p)"
      using g' by (simp add: unat_sub unat_ucast_u16 word_le_nat_alt)
    then show ?thesis using lt p' True g' by (auto simp: word_le_nat_alt)
  next
    case False
    then have le: "unat g \<le> unat p" unfolding p' by simp
    then have "unat (ucast p - ucast g :: u32) = unat p - unat g" by (simp add: unat_sub unat_ucast_u16 word_le_nat_alt)
    then show ?thesis using le p' False by (auto simp: word_le_nat_alt)
  qed
qed

lemma recved_len_spec:
  assumes h: "dma_holds sz f xs"
  shows "unat (rt_dma_calc_recved_len sz f) = length xs"
proof -
  have h': "rx_get_index f < sz" "length xs \<le> unat sz"
      "unat (rx_put_index f) = (unat (rx_get_index f) + length xs) mod unat sz" "rx_is_full f \<longleftrightarrow> length xs = unat sz"
    using h by (auto simp: dma_holds_def)
  show ?thesis
  proof (cases "length xs = unat sz")
    case True
    then have "unat (rx_put_index f) = unat (rx_get_index f)" using h'(1,3) by (simp add: word_less_nat_alt)
    then show ?thesis using True h'(4)
      by (simp add: rt_dma_calc_recved_len_def serial_fifo_calc_recved_len_def word_unat_eq_iff unat_ucast_u16)
  next
    case False
    then have "length xs < unat sz" using h'(2) by simp
    note d = index_distance [OF h'(3,1) this]
    show ?thesis using d False h'(4)
      by (auto simp: rt_dma_calc_recved_len_def serial_fifo_calc_recved_len_def le_less split: if_splits)
  qed
qed

lemma ring_read_segment:
  assumes "length b = n" "i < n"
  shows "c + i \<le> n \<Longrightarrow> ring_read b n i c = take c (drop i b)"
    and "n \<le> c + i \<Longrightarrow> c \<le> n \<Longrightarrow> ring_read b n i c = take (n - i) (drop i b) @ take (c + i - n) b"
proof -
  show "ring_read b n i c = take c (drop i b)" if "c + i \<le> n"
    by (rule nth_equalityI) (use assms that in \<open>auto simp: ring_read_def\<close>)
  show "ring_read b n i c = take (n - i) (drop i b) @ take (c + i - n) b" if "n \<le> c + i" "c \<le> n"
    by (rule nth_equalityI) (use assms that in \<open>auto simp: ring_read_def nth_append le_mod_geq min_def add.commute\<close>)
qed

lemma ring_read_take_drop:
  "k \<le> c \<Longrightarrow> take k (ring_read b n i c) = ring_read b n i k"
  "k \<le> c \<Longrightarrow> drop k (ring_read b n i c) = ring_read b n (i + k) (c - k)"
  by (auto simp: ring_read_def take_map drop_map take_upt intro!: nth_equalityI simp: add.assoc)

lemma update_get_index_spec:
  assumes h: "dma_holds sz f xs" and sz: "sz \<le> 0x8000" and len: "unat len \<le> length xs"
  shows "\<exists>f'. rt_dma_recv_update_get_index sz len f = Some f' \<and> dma_holds sz f' (drop (unat len) xs)"
proof -
  let ?n = "unat sz" and ?g = "unat (rx_get_index f)" and ?L = "unat len"
  have h': "0 < ?n" "length (rx_buffer f) = ?n" "?g < ?n" "length xs \<le> ?n" "unat (rx_put_index f) = (?g + length xs) mod ?n"
      "xs = ring_read (rx_buffer f) ?n ?g (length xs)" "rx_is_full f \<longleftrightarrow> length xs = ?n"
    using h by (auto simp: dma_holds_def word_less_nat_alt)
  have n15: "?n \<le> 32768" using sz by (simp add: word_le_nat_alt)
  have ul: "unat (ucast len :: u16) = ?L" using len h'(4) n15 by (simp add: unsigned_ucast_eq take_bit_nat_eq_self)
  define g1 where "g1 = rx_get_index f + ucast len"
  have g1: "unat g1 = ?g + ?L" unfolding g1_def using h'(3,4) len n15 ul by (simp add: unat_word_ariths)
  define q where "q = (if g1 \<ge> sz then g1 mod sz else g1)"
  have q: "unat q = (?g + ?L) mod ?n" unfolding q_def using g1 by (simp add: word_le_nat_alt unat_mod)
  have assertion: "len \<le> rt_dma_calc_recved_len sz f" using recved_len_spec [OF h] len by (simp add: word_le_nat_alt)
  let ?f = "f\<lparr>rx_is_full := (rx_is_full f \<and> len = 0), rx_get_index := q\<rparr>"
  have same: "f\<lparr>rx_is_full := rx_is_full f, rx_get_index := q\<rparr> = f\<lparr>rx_get_index := q\<rparr>" by (cases f) simp
  have sz0: "sz \<noteq> 0" using h'(1) by auto
  have run: "rt_dma_recv_update_get_index sz len f = Some ?f"
    using assertion same sz0
    by (cases "rx_is_full f"; cases "len = 0")
       (auto simp: rt_dma_recv_update_get_index_def rt_assert_def q_def g1_def Let_def)
  have "unat (rx_put_index f) = (unat q + length (drop ?L xs)) mod ?n"
    unfolding h'(5) q mod_add_left_eq using len by simp
  moreover have "drop ?L xs = ring_read (rx_buffer f) ?n (unat q) (length (drop ?L xs))"
    unfolding q ring_read_mod using ring_read_take_drop(2) [OF len, of "rx_buffer f" ?n ?g] h'(6) by simp
  moreover have "(rx_is_full f \<and> len = 0) = (length (drop ?L xs) = ?n)"
    using h'(1,4,7) len by (auto simp: word_unat_eq_iff)
  moreover have "q < sz" using q h'(1) by (simp add: word_less_nat_alt)
  ultimately have "dma_holds sz ?f (drop ?L xs)"
    unfolding dma_holds_def using h'(1,2,4) by (auto simp: word_less_nat_alt)
  with run show ?thesis by blast
qed

lemma serial_dma_rx_spec:
  assumes h: "dma_holds sz f xs" and sz: "sz \<le> 0x8000"
  shows "\<exists>f'. serial_dma_rx_fifo sz data len (f, m) =
      Some (of_nat (min (unat len) (length xs)), f', store_bytes data (take (unat len) xs) m) \<and>
    dma_holds sz f' (drop (unat len) xs)"
proof -
  let ?n = "unat sz" and ?g = "unat (rx_get_index f)" and ?b = "rx_buffer f"
  have h': "0 < ?n" "length ?b = ?n" "?g < ?n" "length xs \<le> ?n" "xs = ring_read ?b ?n ?g (length xs)"
    using h by (auto simp: dma_holds_def word_less_nat_alt)
  let ?r = "rt_dma_calc_recved_len sz f"
  have r: "unat ?r = length xs" by (rule recved_len_spec [OF h])
  define l where "l = (if len < ?r then len else ?r)"
  have l: "unat l = min (unat len) (length xs)" unfolding l_def using r by (auto simp: word_less_nat_alt)
  then have lx: "unat l \<le> length xs" by simp
  have tk: "take (unat len) xs = take (unat l) xs" and dr: "drop (unat len) xs = drop (unat l) xs"
    using l by (auto simp: min_def)
  have xs: "take (unat l) xs = ring_read ?b ?n ?g (unat l)"
    using ring_read_take_drop(1) [OF lx, of ?b ?n ?g] h'(5) by simp
  have copy: "(if ?g + unat l < ?n then rx_copy data ?g (unat l) f m
      else do {
        m \<leftarrow> rx_copy data ?g (?n - ?g) f m;
        rx_copy (data + of_nat (?n - ?g)) 0 (unat l + ?g - ?n) f m
      }) = Some (store_bytes data (take (unat l) xs) m)"
  proof (cases "?g + unat l < ?n")
    case True
    then show ?thesis unfolding xs
      using ring_read_segment(1) [OF h'(2,3), of "unat l"] h'(2) by (simp add: rx_copy_def rt_assert_def)
  next
    case False
    then have "ring_read ?b ?n ?g (unat l) = take (?n - ?g) (drop ?g ?b) @ take (unat l + ?g - ?n) ?b"
      using ring_read_segment(2) [OF h'(2,3), of "unat l"] lx h'(4) by simp
    moreover have "length (take (?n - ?g) (drop ?g ?b)) = ?n - ?g" using h'(2) by simp
    moreover have "unat l + ?g - ?n \<le> ?n" using lx h'(3,4) by simp
    ultimately show ?thesis unfolding xs
      using False h'(2,3) store_bytes_append [of data "take (?n - ?g) (drop ?g ?b)"]
      by (simp add: rx_copy_def rt_assert_def)
  qed
  obtain f' where f': "rt_dma_recv_update_get_index sz l f = Some f'" "dma_holds sz f' (drop (unat l) xs)"
    using update_get_index_spec [OF h sz lx] by blast
  have "serial_dma_rx_fifo sz data len (f, m) = do {
      m \<leftarrow> (if ?g + unat l < ?n then rx_copy data ?g (unat l) f m
            else do {
              m \<leftarrow> rx_copy data ?g (?n - ?g) f m;
              rx_copy (data + of_nat (?n - ?g)) 0 (unat l + ?g - ?n) f m
            });
      f \<leftarrow> rt_dma_recv_update_get_index sz l f;
      Some (l, f, m)
    }"
    by (simp only: serial_dma_rx_fifo_def l_def Let_def prod.case)
  then have "serial_dma_rx_fifo sz data len (f, m) = Some (l, f', store_bytes data (take (unat l) xs) m)"
    unfolding copy using f'(1) by simp
  moreover have "l = of_nat (min (unat len) (length xs))" unfolding l [symmetric] by simp
  ultimately show ?thesis using f'(2) tk dr by metis
qed

text \<open>
  With a buffer of more than 32768 bytes the 16-bit index may overflow before it is compared with the
  size: the bytes behind the wrap-around are lost and the buffer does not count as full.
\<close>

lemma dma_put_index_overflow:
  fixes f :: rt_serial_rx_fifo
  assumes "rx_put_index f = 39999" "rx_get_index f = 0" "\<not> rx_is_full f"
  shows "rt_dma_recv_update_put_index 40000 30000 f = Some (f\<lparr>rx_put_index := 4463\<rparr>)"
  using assms by (simp add: rt_dma_recv_update_put_index_def Let_def)

section \<open>The buffer as a queue that keeps the latest bytes\<close>

lemma new_rx_fifo_holds:
  "2 \<le> sz \<Longrightarrow> rx_holds sz (new_rx_fifo sz) []" "0 < sz \<Longrightarrow> dma_holds sz (new_rx_fifo sz) []"
proof -
  assume "2 \<le> sz"
  moreover from this have "0 < sz" using word_gt_0 by force
  ultimately show "rx_holds sz (new_rx_fifo sz) []" by (simp add: rx_holds_def new_rx_fifo_def unat_gt_0)
next
  assume "0 < sz"
  then show "dma_holds sz (new_rx_fifo sz) []" by (simp add: dma_holds_def new_rx_fifo_def word_less_nat_alt)
qed

text \<open>
  C10. The receive buffer of the serial driver, from its creation, in both modes. With interrupts: for any
  interleaving of received characters and reads of single bytes (the reader's loop runs with interrupts
  enabled), the code behaves as a queue that keeps the latest \<^verbatim>\<open>bufsz - 1\<close> bytes; nothing is reordered,
  doubled or made up, and nothing is lost while fewer than \<^verbatim>\<open>bufsz\<close> bytes have come. With DMA: after a
  transfer the buffer holds the latest \<^verbatim>\<open>bufsz\<close> bytes, and a read copies the oldest to the caller, around
  the end of the buffer where necessary; here the size must not exceed 32768, or the 16-bit put index
  overflows (\<open>dma_put_index_overflow\<close>).
\<close>

theorem serial_rx_buffer_correct:
  assumes "2 \<le> sz" and "sz \<le> 0x8000"
  shows "(\<exists>del rest f'. last_run (unat sz - 1) ss [] = (del, rest) \<and> rx_run sz ss (new_rx_fifo sz) = Some (del, f') \<and>
      rx_holds sz f' rest \<and> subseq (del @ rest) (received ss) \<and>
      (length (received ss) < unat sz \<longrightarrow> del @ rest = received ss)) \<and>
    dma_holds sz (new_rx_fifo sz) [] \<and>
    (dma_holds sz f xs \<and> length bs \<le> unat sz \<longrightarrow>
      (\<exists>f'. rt_dma_recv_update_put_index sz (of_nat (length bs))
          (f\<lparr>rx_buffer := dma_write (unat sz) (unat (rx_put_index f)) bs (rx_buffer f)\<rparr>) = Some f' \<and>
        dma_holds sz f' (keep_last (unat sz) (xs @ bs)))) \<and>
    (dma_holds sz f xs \<longrightarrow>
      (\<exists>f'. serial_dma_rx_fifo sz data len (f, m) =
          Some (of_nat (min (unat len) (length xs)), f', store_bytes data (take (unat len) xs) m) \<and>
        dma_holds sz f' (drop (unat len) xs)))"
proof (intro conjI impI)
  obtain del rest where l: "last_run (unat sz - 1) ss [] = (del, rest)" by fastforce
  moreover have "subseq (del @ rest) (received ss)" using last_run_subseq [of "unat sz - 1" ss "[]"] l by simp
  moreover have "del @ rest = received ss" if "length (received ss) < unat sz"
    using last_run_all [of "[]" ss "unat sz - 1"] l that by simp
  ultimately show "\<exists>del rest f'. last_run (unat sz - 1) ss [] = (del, rest) \<and> rx_run sz ss (new_rx_fifo sz) = Some (del, f') \<and>
      rx_holds sz f' rest \<and> subseq (del @ rest) (received ss) \<and>
      (length (received ss) < unat sz \<longrightarrow> del @ rest = received ss)"
    using rx_run_refines [OF new_rx_fifo_holds(1) [OF assms(1)], of ss] by auto
  have "0 < sz" using assms(1) word_gt_0 by force
  then show "dma_holds sz (new_rx_fifo sz) []" by (rule new_rx_fifo_holds(2))
  have sz: "unat sz \<le> 32768" using assms(2) by (simp add: word_le_nat_alt)
  show "\<exists>f'. rt_dma_recv_update_put_index sz (of_nat (length bs))
          (f\<lparr>rx_buffer := dma_write (unat sz) (unat (rx_put_index f)) bs (rx_buffer f)\<rparr>) = Some f' \<and>
        dma_holds sz f' (keep_last (unat sz) (xs @ bs))" if "dma_holds sz f xs \<and> length bs \<le> unat sz"
  proof (rule dma_receive_spec)
    have "0 < unat sz" "unat (rx_put_index f) = (unat (rx_get_index f) + length xs) mod unat sz"
      using that by (simp_all add: dma_holds_def word_less_nat_alt)
    then have "unat (rx_put_index f) < unat sz" by simp
    then show "unat (rx_put_index f) + length bs < 2 ^ 16" using that sz by simp
  qed (use that in blast)+
  show "\<exists>f'. serial_dma_rx_fifo sz data len (f, m) =
          Some (of_nat (min (unat len) (length xs)), f', store_bytes data (take (unat len) xs) m) \<and>
        dma_holds sz f' (drop (unat len) xs)" if "dma_holds sz f xs"
    by (rule serial_dma_rx_spec [OF that assms(2)])
qed

theorem serial_rx_buffer_correct_witness:
  "\<exists>f1 f2 f3 del. rx_run 4 [Received 1, Received 2, Read_byte, Received 3, Received 4, Received 5, Read_byte] (new_rx_fifo 4) =
      Some ([1, 3], f1) \<and> rx_holds 4 f1 [4, 5] \<and>
    rt_dma_recv_update_put_index 4 3 ((new_rx_fifo 4)\<lparr>rx_buffer := [7, 8, 9, 0]\<rparr>) = Some f2 \<and> dma_holds 4 f2 [7, 8, 9] \<and>
    serial_dma_rx_fifo 4 0x100 2 (f2, (\<lambda>_. 0)) = Some (2, f3, store_bytes 0x100 [7, 8] (\<lambda>_. 0)) \<and> dma_holds 4 f3 [9]"
proof -
  have sz: "2 \<le> (4 :: u16)" "(4 :: u16) \<le> 0x8000" by simp_all
  let ?f = "new_rx_fifo 4"
  note t = serial_rx_buffer_correct [OF sz]
  let ?ss = "[Received 1, Received 2, Read_byte, Received 3, Received 4, Received 5, Read_byte]"
  have "last_run (unat (4 :: u16) - 1) ?ss [] = ([1, 3], [4, 5])" by (simp add: keep_last_def)
  moreover have "\<exists>del rest f'. last_run (unat (4 :: u16) - 1) ?ss [] = (del, rest) \<and> rx_run 4 ?ss ?f = Some (del, f') \<and>
      rx_holds 4 f' rest"
    using t [of ?ss] by blast
  ultimately obtain f1 where f1: "rx_run 4 ?ss ?f = Some ([1, 3], f1)" "rx_holds 4 f1 [4, 5]" by force
  have new: "dma_holds 4 ?f []" using t by blast
  have four: "replicate 4 (0 :: u8) = [0, 0, 0, 0]" by (simp add: numeral_eq_Suc)
  have w: "dma_write (unat (4 :: u16)) (unat (rx_put_index ?f)) [7, 8, 9] (rx_buffer ?f) = [7, 8, 9, 0]"
    by (simp add: new_rx_fifo_def four)
  have "dma_holds 4 ?f [] \<and> length [7, 8, 9 :: u8] \<le> unat (4 :: u16) \<longrightarrow>
      (\<exists>f'. rt_dma_recv_update_put_index 4 (of_nat (length [7, 8, 9 :: u8]))
          (?f\<lparr>rx_buffer := dma_write (unat (4 :: u16)) (unat (rx_put_index ?f)) [7, 8, 9] (rx_buffer ?f)\<rparr>) = Some f' \<and>
        dma_holds 4 f' (keep_last (unat (4 :: u16)) ([] @ [7, 8, 9])))"
    using t by blast
  then obtain f2 where f2: "rt_dma_recv_update_put_index 4 3 (?f\<lparr>rx_buffer := [7, 8, 9, 0]\<rparr>) = Some f2" "dma_holds 4 f2 [7, 8, 9]"
    unfolding w using new by (auto simp: keep_last_def)
  have td: "take (unat (2 :: u32)) [7, 8, 9 :: u8] = [7, 8]" "drop (unat (2 :: u32)) [7, 8, 9 :: u8] = [9]"
      "min (unat (2 :: u32)) (length [7, 8, 9 :: u8]) = 2" "of_nat 2 = (2 :: u32)" by simp_all
  have "dma_holds 4 f2 [7, 8, 9] \<longrightarrow> (\<exists>f'. serial_dma_rx_fifo 4 0x100 2 (f2, \<lambda>_. 0) =
          Some (of_nat (min (unat (2 :: u32)) (length [7, 8, 9 :: u8])), f', store_bytes 0x100 (take (unat (2 :: u32)) [7, 8, 9]) (\<lambda>_. 0)) \<and>
        dma_holds 4 f' (drop (unat (2 :: u32)) [7, 8, 9]))"
    using t by blast
  then obtain f3 where "serial_dma_rx_fifo 4 0x100 2 (f2, \<lambda>_. 0) = Some (2, f3, store_bytes 0x100 [7, 8] (\<lambda>_. 0))" "dma_holds 4 f3 [9]"
    unfolding td using f2(2) by auto
  with f1 f2 show ?thesis by blast
qed

end
