(* ===== verification/Waitqueue.thy ===== *)
theory Waitqueue
  imports Completion
begin

text \<open>
  Wait queues of the device drivers: \<^verbatim>\<open>components/drivers/src/waitqueue.c\<close>. A thread waits until the
  queue is woken up; a wake-up that finds nobody is remembered in a flag. The entries are
  records on the stacks of the waiting threads, here numbered; an entry's own wake function may refuse
  the wake-up. Functions of the application are executed by the parameter \<open>run_wake\<close>.
\<close>

section \<open>The code\<close>

datatype rt_wqueue_func_t = Wqueue_default_wake | User_wake u32

record rt_wqueue_node =
  polling_thread :: nat
  wakeup :: rt_wqueue_func_t
  key :: u32

record rt_wqueue =
  wq_flag :: u32
  waiting_list :: "nat list"
  wq_node :: "nat \<Rightarrow> rt_wqueue_node"

abbreviation (input) RT_WQ_FLAG_CLEAN :: u32 where "RT_WQ_FLAG_CLEAN \<equiv> 0"
abbreviation (input) RT_WQ_FLAG_WAKEUP :: u32 where "RT_WQ_FLAG_WAKEUP \<equiv> 1"

definition rt_wqueue_init :: "rt_wqueue \<Rightarrow> rt_wqueue" where
  "rt_wqueue_init q = q\<lparr>wq_flag := RT_WQ_FLAG_CLEAN, waiting_list := []\<rparr>"

definition rt_wqueue_add :: "nat \<Rightarrow> rt_wqueue \<Rightarrow> rt_wqueue" where
  "rt_wqueue_add n q = q\<lparr>waiting_list := waiting_list q @ [n]\<rparr>"

definition rt_wqueue_remove :: "nat \<Rightarrow> rt_wqueue \<Rightarrow> rt_wqueue" where
  "rt_wqueue_remove n q = q\<lparr>waiting_list := remove1 n (waiting_list q)\<rparr>"

definition wqueue_wake :: "(u32 \<Rightarrow> nat \<Rightarrow> u32 \<Rightarrow> int) \<Rightarrow> nat \<Rightarrow> u32 \<Rightarrow> rt_wqueue \<Rightarrow> int" where
  "wqueue_wake run_wake n ky q =
     (case wakeup (wq_node q n) of Wqueue_default_wake \<Rightarrow> 0 | User_wake f \<Rightarrow> run_wake f n ky)"

definition rt_wqueue_wakeup :: "(u32 \<Rightarrow> nat \<Rightarrow> u32 \<Rightarrow> int) \<Rightarrow> u32 \<Rightarrow> rt_wqueue \<times> kernel \<Rightarrow> (rt_wqueue \<times> kernel) option" where
  "rt_wqueue_wakeup run_wake ky = (\<lambda>(q, k).
     let q = q\<lparr>wq_flag := RT_WQ_FLAG_WAKEUP\<rparr>
     in case List.find (\<lambda>n. wqueue_wake run_wake n ky q = 0) (waiting_list q) of
          Some n \<Rightarrow> do {
            (_, k) \<leftarrow> rt_thread_resume (polling_thread (wq_node q n)) k;
            let q = rt_wqueue_remove n q;
            k \<leftarrow> rt_schedule k;
            Some (q, k)
          }
        | None \<Rightarrow> Some (q, k))"

text \<open>\<open>n\<close> is the entry on the caller's stack. The call always returns 0.\<close>

definition rt_wqueue_wait :: "nat \<Rightarrow> int \<Rightarrow> int \<Rightarrow> rt_wqueue \<times> kernel \<Rightarrow>
    (int wait_result \<times> rt_wqueue \<times> kernel) option" where
  "rt_wqueue_wait n condition msec = (\<lambda>(q, k). do {
     RT_DEBUG_NOT_IN_INTERRUPT k;
     let tick = rt_tick_from_millisecond msec;
     if condition \<noteq> 0 \<or> tick = 0 then Some (Returned 0, q, k)
     else do {
       t \<leftarrow> rt_thread_self k;
       let q = q\<lparr>wq_node := (wq_node q)(n := \<lparr>polling_thread = t, wakeup = Wqueue_default_wake, key = 0\<rparr>)\<rparr>;
       if wq_flag q = RT_WQ_FLAG_WAKEUP then Some (Returned 0, rt_wqueue_remove n (q\<lparr>wq_flag := 0\<rparr>), k)
       else do {
         let q = rt_wqueue_add n q;
         (_, k) \<leftarrow> rt_thread_suspend t k;
         k \<leftarrow> (if tick \<noteq> RT_WAITING_FOREVER then start_thread_timer t (of_int tick) k else Some k);
         k \<leftarrow> rt_schedule k;
         Some (Suspended, q, k)
       }
     }
   })"

definition rt_wqueue_wait_resume :: "nat \<Rightarrow> rt_wqueue \<times> kernel \<Rightarrow> int wait_result \<times> rt_wqueue \<times> kernel" where
  "rt_wqueue_wait_resume n = (\<lambda>(q, k). (Returned 0, rt_wqueue_remove n (q\<lparr>wq_flag := 0\<rparr>), k))"

section \<open>Waiting and waking up\<close>

text \<open>The thread sleeps, its timer armed when the time is limited, and does not run.\<close>

definition asleep :: "nat \<Rightarrow> int \<Rightarrow> kernel \<Rightarrow> kernel \<Rightarrow> bool" where
  "asleep t tick k k' \<longleftrightarrow> kinv k' \<and> tstat k' t = RT_THREAD_SUSPEND \<and> rt_current_thread k' \<noteq> None \<and>
     (tick \<noteq> - 1 \<longrightarrow> ThreadTimer t \<in> set (rt_timer_list k') \<and> due k' (ThreadTimer t) = rt_tick k + of_int tick) \<and>
     (rt_scheduler_lock_nest k = 0 \<and> (\<exists>u. u \<noteq> t \<and> runnable k u) \<longrightarrow> rt_current_thread k' \<noteq> Some t)"

lemma suspend_schedule:
  assumes k: "kinv k" and cur: "rt_current_thread k = Some t" and run: "runnable k t"
    and tick: "tick = - 1 \<or> 0 < tick \<and> time_ok tick"
  obtains k1 k2 k' where "rt_thread_suspend t k = Some (RT_EOK, k1)"
    and "(if tick \<noteq> RT_WAITING_FOREVER then start_thread_timer t (of_int tick) k1 else Some k1) = Some k2"
    and "rt_schedule k2 = Some k'" and "asleep t tick k k'"
proof -
  obtain g where g: "rt_thread_suspend t k = Some (RT_EOK, suspended t k g)" "kinv (suspended t k g)"
    using rt_thread_suspend_spec [OF k run] .
  let ?s = "suspended t k g"
  note s = suspended_sel [OF k, where t = t and g = g]
  let ?a = "if tick \<noteq> - 1 then armed t (of_int tick) ?s else ?s"
  have half: "tick \<noteq> - 1 \<Longrightarrow> (of_int tick :: u32) < RT_TICK_HALF" using tick time_ok_half by auto
  have a: "(if tick \<noteq> RT_WAITING_FOREVER then start_thread_timer t (of_int tick) ?s else Some ?s) = Some ?a"
    "kinv ?a" "tick \<noteq> - 1 \<Longrightarrow> ThreadTimer t \<in> set (rt_timer_list ?a) \<and> due ?a (ThreadTimer t) = rt_tick k + of_int tick"
    using start_thread_timer_spec [OF g(2) s(1) half] g(2) by (auto simp: suspended_def)
  have f: "timer_frame ?s ?a" using armed_frame by (simp add: timer_frame_def)
  note fa = timer_frame_sel [OF f]
  have c: "rt_current_thread ?a = Some t" using fa(5) s(3) cur by simp
  obtain k' where k': "rt_schedule ?a = Some k'" "kinv k'" "sched_frame ?a k'" "rt_current_thread k' \<noteq> None"
    using rt_schedule_spec [OF a(2) c] by (elim returnsE) blast
  note f' = sched_frameD [OF k'(3)]
  have sa: "tstat ?a t = RT_THREAD_SUSPEND" using fa(1) s(1) by simp
  have "rt_current_thread k' \<noteq> Some t"
    if "rt_scheduler_lock_nest k = 0" "u \<noteq> t" "runnable k u" for u
    by (rule schedule_away [OF a(2) c sa k'(1,3), of u])
       (use that fa(1,6) s(4) in \<open>auto simp: runnable_def suspended_def\<close>)
  moreover have "tstat k' t = RT_THREAD_SUSPEND" by (rule sched_frame_live(2) [OF k'(3) sa])
  ultimately have "asleep t tick k k'"
    using k'(2,4) a(3) f'(1,4) unfolding asleep_def by auto
  with g(1) a(1) k'(1) show ?thesis by (rule that)
qed

lemma wait_ticks:
  assumes "msec \<le> 21474826"
  shows "rt_tick_from_millisecond msec = 0 \<longleftrightarrow> msec = 0"
    and "msec \<noteq> 0 \<Longrightarrow> rt_tick_from_millisecond msec = - 1 \<or>
      0 < rt_tick_from_millisecond msec \<and> time_ok (rt_tick_from_millisecond msec)"
proof -
  let ?t = "rt_tick_from_millisecond msec"
  have neg: "?t = - 1" if "msec < 0" using that by (simp add: rt_tick_from_millisecond_def)
  have pos: "10 * ?t \<ge> msec" "10 * (?t - 1) < msec" if "0 \<le> msec"
    using rt_tick_from_millisecond_range assms that by blast+
  show "?t = 0 \<longleftrightarrow> msec = 0"
  proof (cases "msec < 0")
    case False
    then have "0 \<le> msec" by simp
    from pos [OF this] this show ?thesis by presburger
  qed (use neg in simp)
  show "?t = - 1 \<or> 0 < ?t \<and> time_ok ?t" if "msec \<noteq> 0"
  proof (cases "msec < 0")
    case False
    then have "0 \<le> msec" by simp
    note p = pos [OF this]
    have "0 < ?t" using p \<open>0 \<le> msec\<close> that by linarith
    moreover have "?t \<le> 2147483" using p(2) assms by presburger
    ultimately have "0 < ?t" "?t \<le> 2147483" .
    then show ?thesis by (simp add: time_ok_def)
  qed (use neg in simp)
qed

lemma rt_wqueue_wait_spec:
  assumes k: "kinv k" and cur: "rt_current_thread k = Some t" and run: "runnable k t" and nest: "rt_interrupt_nest k = 0"
    and ms: "msec \<le> 21474826"
  shows "condition \<noteq> 0 \<or> msec = 0 \<Longrightarrow> rt_wqueue_wait n condition msec (q, k) = Some (Returned 0, q, k)"
    and "condition = 0 \<Longrightarrow> msec \<noteq> 0 \<Longrightarrow> wq_flag q = RT_WQ_FLAG_WAKEUP \<Longrightarrow>
      \<exists>q'. rt_wqueue_wait n condition msec (q, k) = Some (Returned 0, q', k) \<and> wq_flag q' = 0 \<and>
        waiting_list q' = remove1 n (waiting_list q)"
    and "condition = 0 \<Longrightarrow> msec \<noteq> 0 \<Longrightarrow> wq_flag q \<noteq> RT_WQ_FLAG_WAKEUP \<Longrightarrow>
      \<exists>q' k'. rt_wqueue_wait n condition msec (q, k) = Some (Suspended, q', k') \<and> wq_flag q' = wq_flag q \<and>
        waiting_list q' = waiting_list q @ [n] \<and> wakeup (wq_node q' n) = Wqueue_default_wake \<and>
        polling_thread (wq_node q' n) = t \<and> asleep t (rt_tick_from_millisecond msec) k k'"
proof -
  let ?tick = "rt_tick_from_millisecond msec"
  note tick = wait_ticks [OF ms]
  note d = rt_wqueue_wait_def RT_DEBUG_NOT_IN_INTERRUPT_def rt_interrupt_get_nest_def rt_thread_self_def
  show "condition \<noteq> 0 \<or> msec = 0 \<Longrightarrow> rt_wqueue_wait n condition msec (q, k) = Some (Returned 0, q, k)"
    using nest tick(1) by (auto simp: d)
  show "\<exists>q'. rt_wqueue_wait n condition msec (q, k) = Some (Returned 0, q', k) \<and> wq_flag q' = 0 \<and>
        waiting_list q' = remove1 n (waiting_list q)"
    if "condition = 0" "msec \<noteq> 0" "wq_flag q = RT_WQ_FLAG_WAKEUP"
    using that nest tick(1) cur by (simp add: d rt_wqueue_remove_def)
  show "\<exists>q' k'. rt_wqueue_wait n condition msec (q, k) = Some (Suspended, q', k') \<and> wq_flag q' = wq_flag q \<and>
        waiting_list q' = waiting_list q @ [n] \<and> wakeup (wq_node q' n) = Wqueue_default_wake \<and>
        polling_thread (wq_node q' n) = t \<and> asleep t ?tick k k'"
    if h: "condition = 0" "msec \<noteq> 0" "wq_flag q \<noteq> RT_WQ_FLAG_WAKEUP"
  proof -
    obtain k1 k2 k' where "rt_thread_suspend t k = Some (RT_EOK, k1)"
        "(if ?tick \<noteq> RT_WAITING_FOREVER then start_thread_timer t (of_int ?tick) k1 else Some k1) = Some k2"
        "rt_schedule k2 = Some k'" "asleep t ?tick k k'"
      using suspend_schedule [OF k cur run tick(2) [OF h(2)]] .
    then show ?thesis using h nest tick(1) cur
      by (auto simp: d rt_wqueue_add_def split: prod.splits)
  qed
qed


text \<open>
  A wake-up goes to the first entry whose function accepts it; its thread can run and the entry leaves the
  queue. Without such an entry only the flag remembers it.
\<close>

lemma rt_wqueue_wakeup_spec:
  assumes k: "kinv k" and cur: "rt_current_thread k \<noteq> None"
  shows "\<forall>n \<in> set (waiting_list q). wqueue_wake run n ky q \<noteq> 0 \<Longrightarrow>
      rt_wqueue_wakeup run ky (q, k) = Some (q\<lparr>wq_flag := RT_WQ_FLAG_WAKEUP\<rparr>, k)"
    and "waiting_list q = ns @ n # ms \<Longrightarrow> \<forall>m \<in> set ns. wqueue_wake run m ky q \<noteq> 0 \<Longrightarrow> n \<notin> set ns \<Longrightarrow>
      wqueue_wake run n ky q = 0 \<Longrightarrow> t = polling_thread (wq_node q n) \<Longrightarrow> tstat k t = RT_THREAD_SUSPEND \<Longrightarrow>
      \<exists>k'. rt_wqueue_wakeup run ky (q, k) =
          Some (q\<lparr>wq_flag := RT_WQ_FLAG_WAKEUP, waiting_list := ns @ ms\<rparr>, k') \<and>
        kinv k' \<and> runnable k' t \<and> ThreadTimer t \<notin> set (rt_timer_list k') \<and> rt_current_thread k' \<noteq> None \<and>
        mem k' = mem k \<and> (\<forall>d. objs k' (ODevice d) = objs k (ODevice d))"
proof -
  let ?q = "q\<lparr>wq_flag := RT_WQ_FLAG_WAKEUP\<rparr>"
  have w: "wqueue_wake run n ky ?q = wqueue_wake run n ky q" for n by (simp add: wqueue_wake_def)
  show "rt_wqueue_wakeup run ky (q, k) = Some (?q, k)" if "\<forall>n \<in> set (waiting_list q). wqueue_wake run n ky q \<noteq> 0"
  proof -
    have "List.find (\<lambda>n. wqueue_wake run n ky ?q = 0) (waiting_list q) = None"
      using that w by (auto simp: find_None_iff)
    then show ?thesis by (simp add: rt_wqueue_wakeup_def Let_def)
  qed
  assume l: "waiting_list q = ns @ n # ms" and ns: "\<forall>m \<in> set ns. wqueue_wake run m ky q \<noteq> 0" "n \<notin> set ns"
    and n: "wqueue_wake run n ky q = 0" and t: "t = polling_thread (wq_node q n)" "tstat k t = RT_THREAD_SUSPEND"
  have f: "List.find (\<lambda>m. wqueue_wake run m ky ?q = 0) (ns @ n # ms) = Some n"
    unfolding w using ns(1) n by (induction ns) auto
  obtain g where g: "rt_thread_resume t k = Some (RT_EOK, resumed t k g)" "kinv (resumed t k g)"
    using rt_thread_resume_spec [OF k t(2)] .
  note r = resumed_sel [OF k, where t = t and g = g]
  obtain c where c: "rt_current_thread (resumed t k g) = Some c" using cur r(2) by auto
  obtain k' where k': "rt_schedule (resumed t k g) = Some k'" "kinv k'" "sched_frame (resumed t k g) k'"
      "rt_current_thread k' \<noteq> None"
    using rt_schedule_spec [OF g(2) c] by (elim returnsE) blast
  note f' = sched_frameD [OF k'(3)]
  have "remove1 n (ns @ n # ms) = ns @ ms" using ns(2) by (simp add: remove1_append)
  then have "rt_wqueue_wakeup run ky (q, k) = Some (q\<lparr>wq_flag := RT_WQ_FLAG_WAKEUP, waiting_list := ns @ ms\<rparr>, k')"
    using f g(1) k'(1) l t(1) by (simp add: rt_wqueue_wakeup_def rt_wqueue_remove_def Let_def)
  moreover have "runnable k' t" using f'(18) [of t] r(6) by simp
  moreover have "ThreadTimer t \<notin> set (rt_timer_list k')" using f'(4) r(19) by simp
  moreover have "mem k' = mem k" using f'(6) by (simp add: resumed_def Let_def stopped_def kdefs)
  moreover have "objs k' (ODevice d) = objs k (ODevice d)" for d using f'(2) r(18) [of "ODevice d"] by simp
  ultimately show "\<exists>k'. rt_wqueue_wakeup run ky (q, k) =
          Some (q\<lparr>wq_flag := RT_WQ_FLAG_WAKEUP, waiting_list := ns @ ms\<rparr>, k') \<and>
        kinv k' \<and> runnable k' t \<and> ThreadTimer t \<notin> set (rt_timer_list k') \<and> rt_current_thread k' \<noteq> None \<and>
        mem k' = mem k \<and> (\<forall>d. objs k' (ODevice d) = objs k (ODevice d))"
    using k'(2,4) by blast
qed

text \<open>
  A thread that waits behind nobody is woken by the next wake-up, returns 0, and leaves the queue as it was, the
  flag cleared.
\<close>

lemma wqueue_handshake:
  assumes k: "kinv k" and cur: "rt_current_thread k = Some t" and run: "runnable k t" and nest: "rt_interrupt_nest k = 0"
    and ms: "msec \<le> 21474826" "msec \<noteq> 0" and q: "waiting_list q = []" "wq_flag q \<noteq> RT_WQ_FLAG_WAKEUP"
  shows "\<exists>q1 k1 q2 k2 q3. rt_wqueue_wait n 0 msec (q, k) = Some (Suspended, q1, k1) \<and> tstat k1 t = RT_THREAD_SUSPEND \<and>
    rt_wqueue_wakeup f ky (q1, k1) = Some (q2, k2) \<and> runnable k2 t \<and>
    rt_wqueue_wait_resume n (q2, k2) = (Returned 0, q3, k2) \<and> waiting_list q3 = [] \<and> wq_flag q3 = 0"
proof -
  obtain q1 k1 where q1: "rt_wqueue_wait n 0 msec (q, k) = Some (Suspended, q1, k1)" "waiting_list q1 = [n]"
      "wakeup (wq_node q1 n) = Wqueue_default_wake" "polling_thread (wq_node q1 n) = t"
      "asleep t (rt_tick_from_millisecond msec) k k1"
    using rt_wqueue_wait_spec(3) [OF k cur run nest ms(1) refl ms(2) q(2), of n] q(1) by auto
  have k1: "kinv k1" "rt_current_thread k1 \<noteq> None" "tstat k1 t = RT_THREAD_SUSPEND"
    using q1(5) by (simp_all add: asleep_def)
  have "wqueue_wake f n ky q1 = 0" using q1(3) by (simp add: wqueue_wake_def)
  from rt_wqueue_wakeup_spec(2) [OF k1(1,2), of q1 "[]" n "[]", OF _ _ _ this q1(4) [symmetric] k1(3)] q1(2)
  obtain k2 where "rt_wqueue_wakeup f ky (q1, k1) = Some (q1\<lparr>wq_flag := RT_WQ_FLAG_WAKEUP, waiting_list := []\<rparr>, k2)"
      "runnable k2 t"
    by auto
  then show ?thesis using q1(1) k1(3) by (auto simp: rt_wqueue_wait_resume_def rt_wqueue_remove_def)
qed

end
