(* ===== verification/Device.thy ===== *)
theory Device
  imports Waitqueue
begin

text \<open>
  The device layer: \<^verbatim>\<open>src/device.c\<close>. It registers devices by name and calls the functions of their
  drivers: a record of optional functions on the device struct, a driver state \<open>'s\<close> and the kernel,
  a parameter of the operations. The layer counts how often a device is open. What it expects of a
  driver is the interface \<open>device_driver\<close>.
\<close>

section \<open>The code\<close>

text \<open>The functions a receiver may register: that of the serial driver's file interface, or one of the application.\<close>

datatype rx_func = Serial_fops_rx_ind | User_rx u32

record rt_device =
  dev_type :: int
  dev_flag :: u16
  open_flag :: u16
  ref_count :: u8
  rx_indicate :: "rx_func option"
  tx_complete :: "u32 option"
  fops :: u32
  wait_queue :: rt_wqueue

abbreviation (input) RT_DEVICE_FLAG_STANDALONE :: u16 where "RT_DEVICE_FLAG_STANDALONE \<equiv> 0x008"
abbreviation (input) RT_DEVICE_FLAG_ACTIVATED :: u16 where "RT_DEVICE_FLAG_ACTIVATED \<equiv> 0x010"
abbreviation (input) RT_DEVICE_OFLAG_CLOSE :: u16 where "RT_DEVICE_OFLAG_CLOSE \<equiv> 0x000"
abbreviation (input) RT_DEVICE_OFLAG_OPEN :: u16 where "RT_DEVICE_OFLAG_OPEN \<equiv> 0x008"
abbreviation (input) RT_DEVICE_OFLAG_MASK :: u16 where "RT_DEVICE_OFLAG_MASK \<equiv> 0xf0f"

type_synonym 's dstate = "rt_device \<times> 's \<times> kernel"

record ('s, 'a) device_ops =
  init_op :: "('s dstate \<Rightarrow> (rt_err_t \<times> 's dstate) option) option"
  open_op :: "(u16 \<Rightarrow> 's dstate \<Rightarrow> (rt_err_t \<times> 's dstate) option) option"
  close_op :: "('s dstate \<Rightarrow> (rt_err_t \<times> 's dstate) option) option"
  read_op :: "(int \<Rightarrow> u32 \<Rightarrow> u32 \<Rightarrow> 's dstate \<Rightarrow> (u32 wait_result \<times> 's dstate) option) option"
  write_op :: "(int \<Rightarrow> u32 \<Rightarrow> u32 \<Rightarrow> 's dstate \<Rightarrow> (u32 wait_result \<times> 's dstate) option) option"
  control_op :: "(int \<Rightarrow> 'a \<Rightarrow> 's dstate \<Rightarrow> (rt_err_t \<times> 's dstate) option) option"

definition is_device :: "nat \<Rightarrow> kernel \<Rightarrow> bool" where
  "is_device d k \<longleftrightarrow> rt_object_get_type (ODevice d) k = RT_Object_Class_Device"

definition rt_device_find :: "u8 list \<Rightarrow> kernel \<Rightarrow> (kobj option \<times> kernel) option" where
  "rt_device_find nm k = do {
     let k = (if rt_thread_self k \<noteq> None then rt_enter_critical k else k);
     rt_assert (rt_object_get_information RT_Object_Class_Device \<noteq> None);
     let r = find_by_name RT_Object_Class_Device nm k;
     k \<leftarrow> (if rt_thread_self k \<noteq> None then rt_exit_critical k else Some k);
     Some (r, k)
   }"

definition rt_device_register ::
    "nat option \<Rightarrow> u8 list \<Rightarrow> u16 \<Rightarrow> rt_device \<times> kernel \<Rightarrow> (rt_err_t \<times> rt_device \<times> kernel) option" where
  "rt_device_register dev nm flags = (\<lambda>(x, k).
     case dev of
       None \<Rightarrow> Some (- RT_ERROR, x, k)
     | Some d \<Rightarrow> do {
         (r, k) \<leftarrow> rt_device_find nm k;
         if r \<noteq> None then Some (- RT_ERROR, x, k)
         else do {
           k \<leftarrow> rt_object_init (ODevice d) RT_Object_Class_Device nm k;
           let x = x\<lparr>dev_flag := flags, ref_count := 0, open_flag := 0\<rparr>;
           let x = x\<lparr>fops := 0, wait_queue := rt_wqueue_init (wait_queue x)\<rparr>;
           Some (RT_EOK, x, k)
         }
       })"

definition rt_device_unregister :: "nat \<Rightarrow> kernel \<Rightarrow> (rt_err_t \<times> kernel) option" where
  "rt_device_unregister d k = do {
     rt_assert (is_device d k);
     rt_assert (rt_object_is_systemobject (ODevice d) k);
     Some (RT_EOK, rt_object_detach (ODevice d) k)
   }"

definition rt_device_init_all :: rt_err_t where
  "rt_device_init_all = RT_EOK"

text \<open>\<^verbatim>\<open>rt_memset\<close> clears the struct, the object it inherits from included.\<close>

definition zero_device :: rt_device where
  "zero_device = \<lparr>dev_type = 0, dev_flag = 0, open_flag = 0, ref_count = 0, rx_indicate = None, tx_complete = None, fops = 0,
     wait_queue = \<lparr>wq_flag = 0, waiting_list = [],
       wq_node = (\<lambda>_. \<lparr>polling_thread = 0, wakeup = Wqueue_default_wake, key = 0\<rparr>)\<rparr>\<rparr>"

definition rt_device_create :: "nat option \<Rightarrow> int \<Rightarrow> kernel \<Rightarrow> (nat \<times> rt_device) option \<times> kernel" where
  "rt_device_create mallocd type k =
     (case mallocd of
        None \<Rightarrow> (None, k)
      | Some d \<Rightarrow> (Some (d, zero_device\<lparr>dev_type := type\<rparr>),
          upd_obj (ODevice d) (\<lambda>_. \<lparr>name = replicate RT_NAME_MAX 0, otype = 0, flag = 0\<rparr>) k))"

definition rt_device_destroy :: "nat \<Rightarrow> kernel \<Rightarrow> kernel option" where
  "rt_device_destroy d k = do {
     rt_assert (is_device d k);
     rt_assert (\<not> rt_object_is_systemobject (ODevice d) k);
     Some (rt_object_detach (ODevice d) k)
   }"

text \<open>\<^verbatim>\<open>rt_device_init\<close>; \<open>activate\<close> is the same part of \<^verbatim>\<open>rt_device_open\<close>, which sets the flag also for a
  driver without an initialisation.\<close>

definition rt_device_init :: "('s, 'a) device_ops \<Rightarrow> 's dstate \<Rightarrow> (rt_err_t \<times> 's dstate) option" where
  "rt_device_init ops = (\<lambda>(x, s, k).
     case init_op ops of
       None \<Rightarrow> Some (RT_EOK, x, s, k)
     | Some f \<Rightarrow>
         if dev_flag x AND RT_DEVICE_FLAG_ACTIVATED = 0 then do {
           (e, x, s, k) \<leftarrow> f (x, s, k);
           if e \<noteq> RT_EOK then Some (e, x, s, k)
           else Some (e, x\<lparr>dev_flag := dev_flag x OR RT_DEVICE_FLAG_ACTIVATED\<rparr>, s, k)
         }
         else Some (RT_EOK, x, s, k))"

definition activate :: "('s, 'a) device_ops \<Rightarrow> 's dstate \<Rightarrow> (rt_err_t \<times> 's dstate) option" where
  "activate ops = (\<lambda>(x, s, k).
     if dev_flag x AND RT_DEVICE_FLAG_ACTIVATED = 0 then do {
       (e, x, s, k) \<leftarrow> (case init_op ops of Some f \<Rightarrow> f (x, s, k) | None \<Rightarrow> Some (RT_EOK, x, s, k));
       if e \<noteq> RT_EOK then Some (e, x, s, k)
       else Some (e, x\<lparr>dev_flag := dev_flag x OR RT_DEVICE_FLAG_ACTIVATED\<rparr>, s, k)
     }
     else Some (RT_EOK, x, s, k))"

definition rt_device_open ::
    "('s, 'a) device_ops \<Rightarrow> nat \<Rightarrow> u16 \<Rightarrow> 's dstate \<Rightarrow> (rt_err_t \<times> 's dstate) option" where
  "rt_device_open ops d oflag = (\<lambda>(x, s, k). do {
     rt_assert (is_device d k);
     (e, x, s, k) \<leftarrow> activate ops (x, s, k);
     if e \<noteq> RT_EOK then Some (e, x, s, k)
     else if dev_flag x AND RT_DEVICE_FLAG_STANDALONE \<noteq> 0 \<and> open_flag x AND RT_DEVICE_OFLAG_OPEN \<noteq> 0
     then Some (- RT_EBUSY, x, s, k)
     else do {
       (e, x, s, k) \<leftarrow> (case open_op ops of
           Some f \<Rightarrow> f oflag (x, s, k)
         | None \<Rightarrow> Some (RT_EOK, x\<lparr>open_flag := oflag AND RT_DEVICE_OFLAG_MASK\<rparr>, s, k));
       if e = RT_EOK \<or> e = - RT_ENOSYS then do {
         let x = x\<lparr>open_flag := open_flag x OR RT_DEVICE_OFLAG_OPEN\<rparr>;
         let x = x\<lparr>ref_count := ref_count x + 1\<rparr>;
         rt_assert (ref_count x \<noteq> 0);
         Some (e, x, s, k)
       } else Some (e, x, s, k)
     }
   })"

definition rt_device_close :: "('s, 'a) device_ops \<Rightarrow> nat \<Rightarrow> 's dstate \<Rightarrow> (rt_err_t \<times> 's dstate) option" where
  "rt_device_close ops d = (\<lambda>(x, s, k). do {
     rt_assert (is_device d k);
     if ref_count x = 0 then Some (- RT_ERROR, x, s, k)
     else do {
       let x = x\<lparr>ref_count := ref_count x - 1\<rparr>;
       if ref_count x \<noteq> 0 then Some (RT_EOK, x, s, k)
       else do {
         (e, x, s, k) \<leftarrow> (case close_op ops of Some f \<Rightarrow> f (x, s, k) | None \<Rightarrow> Some (RT_EOK, x, s, k));
         if e = RT_EOK \<or> e = - RT_ENOSYS then Some (e, x\<lparr>open_flag := RT_DEVICE_OFLAG_CLOSE\<rparr>, s, k)
         else Some (e, x, s, k)
       }
     }
   })"

text \<open>\<open>device_transfer\<close> is the common body of \<^verbatim>\<open>rt_device_read\<close> and \<^verbatim>\<open>rt_device_write\<close>.\<close>

definition device_transfer ::
    "(int \<Rightarrow> u32 \<Rightarrow> u32 \<Rightarrow> 's dstate \<Rightarrow> (u32 wait_result \<times> 's dstate) option) option \<Rightarrow> nat \<Rightarrow> int \<Rightarrow> u32 \<Rightarrow> u32 \<Rightarrow>
     's dstate \<Rightarrow> (u32 wait_result \<times> 's dstate) option" where
  "device_transfer transfer_op d pos buffer sz = (\<lambda>(x, s, k). do {
     rt_assert (is_device d k);
     if ref_count x = 0 then Some (Returned 0, x, s, rt_set_errno (- RT_ERROR) k)
     else case transfer_op of
       Some f \<Rightarrow> f pos buffer sz (x, s, k)
     | None \<Rightarrow> Some (Returned 0, x, s, rt_set_errno (- RT_ENOSYS) k)
   })"

definition rt_device_read ::
    "('s, 'a) device_ops \<Rightarrow> nat \<Rightarrow> int \<Rightarrow> u32 \<Rightarrow> u32 \<Rightarrow> 's dstate \<Rightarrow> (u32 wait_result \<times> 's dstate) option" where
  "rt_device_read ops = device_transfer (read_op ops)"

definition rt_device_write ::
    "('s, 'a) device_ops \<Rightarrow> nat \<Rightarrow> int \<Rightarrow> u32 \<Rightarrow> u32 \<Rightarrow> 's dstate \<Rightarrow> (u32 wait_result \<times> 's dstate) option" where
  "rt_device_write ops = device_transfer (write_op ops)"

definition rt_device_control ::
    "('s, 'a) device_ops \<Rightarrow> nat \<Rightarrow> int \<Rightarrow> 'a \<Rightarrow> 's dstate \<Rightarrow> (rt_err_t \<times> 's dstate) option" where
  "rt_device_control ops d cmd arg = (\<lambda>(x, s, k). do {
     rt_assert (is_device d k);
     case control_op ops of
       Some f \<Rightarrow> f cmd arg (x, s, k)
     | None \<Rightarrow> Some (- RT_ENOSYS, x, s, k)
   })"

definition rt_device_set_rx_indicate :: "nat \<Rightarrow> rx_func option \<Rightarrow> kernel \<Rightarrow> rt_device \<Rightarrow> (rt_err_t \<times> rt_device) option" where
  "rt_device_set_rx_indicate d f k x = do {
     rt_assert (is_device d k);
     Some (RT_EOK, x\<lparr>rx_indicate := f\<rparr>)
   }"

definition rt_device_set_tx_complete :: "nat \<Rightarrow> u32 option \<Rightarrow> kernel \<Rightarrow> rt_device \<Rightarrow> (rt_err_t \<times> rt_device) option" where
  "rt_device_set_tx_complete d f k x = do {
     rt_assert (is_device d k);
     Some (RT_EOK, x\<lparr>tx_complete := f\<rparr>)
   }"

section \<open>The drivers\<close>

text \<open>
  What the layer expects of a driver with the invariant \<open>inv\<close>: its functions return, they leave the
  reference count and the registration alone; a refused initialisation or open does not change
  whether the device counts as open, an initialisation is not reported as missing, and a close is never refused.
\<close>

definition is_open :: "rt_device \<Rightarrow> bool" where
  "is_open x \<longleftrightarrow> open_flag x AND RT_DEVICE_OFLAG_OPEN \<noteq> 0"

definition standalone :: "rt_device \<Rightarrow> bool" where
  "standalone x \<longleftrightarrow> dev_flag x AND RT_DEVICE_FLAG_STANDALONE \<noteq> 0"

definition is_activated :: "rt_device \<Rightarrow> bool" where
  "is_activated x \<longleftrightarrow> dev_flag x AND RT_DEVICE_FLAG_ACTIVATED \<noteq> 0"

definition kept :: "nat \<Rightarrow> 's dstate \<Rightarrow> 's dstate \<Rightarrow> bool" where
  "kept d = (\<lambda>(x, s, k) (x', s', k'). ref_count x' = ref_count x \<and> standalone x' = standalone x \<and>
     objs k' (ODevice d) = objs k (ODevice d))"

locale device_driver =
  fixes ops :: "('s, 'a) device_ops" and d :: nat and inv :: "'s dstate \<Rightarrow> bool"
  assumes init_driver: "init_op ops = Some f \<Longrightarrow> inv (x, s, k) \<Longrightarrow> \<not> is_activated x \<Longrightarrow>
      \<exists>e x' s' k'. f (x, s, k) = Some (e, x', s', k') \<and> inv (x', s', k') \<and> kept d (x, s, k) (x', s', k') \<and>
        is_open x' = is_open x \<and> e \<noteq> - RT_ENOSYS"
    and open_driver: "open_op ops = Some g \<Longrightarrow> inv (x, s, k) \<Longrightarrow> is_activated x \<Longrightarrow>
      \<exists>e x' s' k'. g oflag (x, s, k) = Some (e, x', s', k') \<and> inv (x', s', k') \<and> kept d (x, s, k) (x', s', k') \<and>
        (e \<noteq> RT_EOK \<and> e \<noteq> - RT_ENOSYS \<longrightarrow> is_open x' = is_open x)"
    and close_driver: "close_op ops = Some f \<Longrightarrow> inv (x, s, k) \<Longrightarrow>
      \<exists>e x' s' k'. f (x, s, k) = Some (e, x', s', k') \<and> inv (x', s', k') \<and> kept d (x, s, k) (x', s', k') \<and>
        (e = RT_EOK \<or> e = - RT_ENOSYS)"
    and inv_layer: "inv (x, s, k) \<Longrightarrow> inv (x\<lparr>ref_count := n\<rparr>, s, k)"
      "inv (x, s, k) \<Longrightarrow> inv (x\<lparr>dev_flag := dev_flag x OR RT_DEVICE_FLAG_ACTIVATED\<rparr>, s, k)"
      "inv (x, s, k) \<Longrightarrow> inv (x\<lparr>open_flag := open_flag x OR RT_DEVICE_OFLAG_OPEN\<rparr>, s, k)"
      "inv (x, s, k) \<Longrightarrow> inv (x\<lparr>open_flag := RT_DEVICE_OFLAG_CLOSE\<rparr>, s, k)"
      "open_op ops = None \<Longrightarrow> inv (x, s, k) \<Longrightarrow> inv (x\<lparr>open_flag := w\<rparr>, s, k)"

lemma flag8: "(w OR 8) AND 8 \<noteq> (0 :: u16)" "(w OR 16) AND 16 \<noteq> (0 :: u16)" "(w OR 16) AND 8 = w AND (8 :: u16)"
proof -
  have "bit ((w OR 8) AND 8) 3" by (simp add: bit_simps)
  then show "(w OR 8) AND 8 \<noteq> 0" by auto
  have "bit ((w OR 16) AND 16) 4" by (simp add: bit_simps)
  then show "(w OR 16) AND 16 \<noteq> 0" by auto
  have "(16 :: u16) AND 8 = 0" by simp
  then show "(w OR 16) AND 8 = w AND 8" by (simp add: bit.conj_disj_distrib2)
qed

lemma is_open_simps [simp]:
  "is_open (x\<lparr>open_flag := w OR RT_DEVICE_OFLAG_OPEN\<rparr>)" "\<not> is_open (x\<lparr>open_flag := RT_DEVICE_OFLAG_CLOSE\<rparr>)"
  "is_open (x\<lparr>ref_count := n\<rparr>) = is_open x" "is_open (x\<lparr>dev_flag := w\<rparr>) = is_open x"
  "is_open (x\<lparr>open_flag := w OR RT_DEVICE_OFLAG_OPEN, ref_count := n\<rparr>)"
  "standalone (x\<lparr>dev_flag := dev_flag x OR RT_DEVICE_FLAG_ACTIVATED\<rparr>) = standalone x"
  "is_activated (x\<lparr>dev_flag := dev_flag x OR RT_DEVICE_FLAG_ACTIVATED\<rparr>)"
  "standalone (x\<lparr>ref_count := n\<rparr>) = standalone x" "standalone (x\<lparr>open_flag := w\<rparr>) = standalone x"
  by (simp_all add: is_open_def standalone_def is_activated_def flag8)

lemma is_device_kept: "kept d (x, s, k) (x', s', k') \<Longrightarrow> is_device d k' = is_device d k"
  by (simp add: kept_def is_device_def rt_object_get_type_def)

context device_driver
begin

lemma activate_spec:
  assumes "inv (x, s, k)"
  obtains e x' s' k' where "activate ops (x, s, k) = Some (e, x', s', k')" "inv (x', s', k')"
    "kept d (x, s, k) (x', s', k')" "is_open x' = is_open x" "e \<noteq> - RT_ENOSYS" "e = RT_EOK \<longrightarrow> is_activated x'"
proof (cases "dev_flag x AND RT_DEVICE_FLAG_ACTIVATED = 0")
  case inactive: True
  show ?thesis
  proof (cases "init_op ops")
    case None
    then show ?thesis using inactive inv_layer(2) [OF assms]
      by (intro that [of 0 "x\<lparr>dev_flag := dev_flag x OR RT_DEVICE_FLAG_ACTIVATED\<rparr>" s k])
         (simp_all add: activate_def kept_def)
  next
    case (Some f)
    obtain e x' s' k' where f: "f (x, s, k) = Some (e, x', s', k')" "inv (x', s', k')" "kept d (x, s, k) (x', s', k')"
        "is_open x' = is_open x" "e \<noteq> - RT_ENOSYS"
      using init_driver [OF Some assms] inactive by (auto simp: is_activated_def)
    show ?thesis
    proof (cases "e = RT_EOK")
      case True
      show ?thesis
        by (rule that [of e "x'\<lparr>dev_flag := dev_flag x' OR RT_DEVICE_FLAG_ACTIVATED\<rparr>" s' k'])
           (use f inactive Some True inv_layer(2) [OF f(2)] in \<open>simp_all add: activate_def kept_def\<close>)
    next
      case False
      show ?thesis
        by (rule that [of e x' s' k']) (use f inactive Some False in \<open>simp_all add: activate_def\<close>)
    qed
  qed
next
  case False
  then show ?thesis using assms by (intro that [of 0 x s k]) (simp_all add: activate_def kept_def is_activated_def)
qed

text \<open>One open counts one up when the driver accepts it, except on a standalone device that is open.\<close>

lemma rt_device_open_spec:
  assumes i: "inv (x, s, k)" and d: "is_device d k" and n: "ref_count x < 255" and o: "is_open x \<longleftrightarrow> ref_count x \<noteq> 0"
  obtains e x' s' k' where "rt_device_open ops d oflag (x, s, k) = Some (e, x', s', k')" "inv (x', s', k')"
    "is_device d k'" "standalone x' = standalone x" "is_open x' \<longleftrightarrow> ref_count x' \<noteq> 0"
    "ref_count x' = (if e = RT_EOK \<or> e = - RT_ENOSYS then ref_count x + 1 else ref_count x)"
    "standalone x \<and> is_open x \<longrightarrow> e \<noteq> RT_EOK \<and> e \<noteq> - RT_ENOSYS"
proof -
  obtain e0 x0 s0 k0 where a: "activate ops (x, s, k) = Some (e0, x0, s0, k0)" "inv (x0, s0, k0)"
      "kept d (x, s, k) (x0, s0, k0)" "is_open x0 = is_open x" "e0 \<noteq> - RT_ENOSYS" "e0 = RT_EOK \<longrightarrow> is_activated x0"
    using activate_spec [OF i] .
  have dev: "is_device d k0" using is_device_kept [OF a(3)] d by simp
  have eqs: "ref_count x0 = ref_count x" "standalone x0 = standalone x" using a(3) by (simp_all add: kept_def)
  have busy: "dev_flag x0 AND RT_DEVICE_FLAG_STANDALONE \<noteq> 0 \<and> open_flag x0 AND RT_DEVICE_OFLAG_OPEN \<noteq> 0 \<longleftrightarrow>
      standalone x \<and> is_open x"
    using eqs(2) a(4) by (simp add: standalone_def is_open_def)
  have inc: "ref_count x + 1 \<noteq> 0" using n by (metis max_word_wrap word_less_nat_alt le_less_trans less_irrefl word_n1_ge)
  note d1 = rt_device_open_def rt_assert_def
  consider (refused) "e0 \<noteq> RT_EOK" | (busy) "e0 = RT_EOK" "standalone x" "is_open x"
    | (driver) "e0 = RT_EOK" "\<not> (standalone x \<and> is_open x)" by blast
  then show ?thesis
  proof cases
    case refused
    then show ?thesis
      by (intro that [of e0 x0 s0 k0]) (use a d dev eqs o in \<open>simp_all add: d1\<close>)
  next
    case b: busy
    show ?thesis
      by (rule that [of "- RT_EBUSY" x0 s0 k0])
         (use a d dev eqs o b in \<open>simp_all add: d1 busy\<close>)
  next
    case driver
    obtain e x1 s1 k1 where c: "(case open_op ops of Some f \<Rightarrow> f oflag (x0, s0, k0)
          | None \<Rightarrow> Some (RT_EOK, x0\<lparr>open_flag := oflag AND RT_DEVICE_OFLAG_MASK\<rparr>, s0, k0)) = Some (e, x1, s1, k1)"
        "inv (x1, s1, k1)" "kept d (x0, s0, k0) (x1, s1, k1)" "e \<noteq> RT_EOK \<and> e \<noteq> - RT_ENOSYS \<longrightarrow> is_open x1 = is_open x0"
    proof (cases "open_op ops")
      case None
      then show ?thesis using inv_layer(5) [OF None a(2)]
        by (intro that [of RT_EOK "x0\<lparr>open_flag := oflag AND RT_DEVICE_OFLAG_MASK\<rparr>" s0 k0]) (simp_all add: kept_def)
    next
      case (Some f)
      then show ?thesis using open_driver [OF Some a(2), of oflag] a(6) driver(1) that by auto
    qed
    have dev1: "is_device d k1" using is_device_kept [OF c(3)] dev by simp
    have eqs1: "ref_count x1 = ref_count x" "standalone x1 = standalone x" using c(3) eqs by (simp_all add: kept_def)
    show ?thesis
    proof (cases "e = RT_EOK \<or> e = - RT_ENOSYS")
      case True
      let ?x = "x1\<lparr>open_flag := open_flag x1 OR RT_DEVICE_OFLAG_OPEN, ref_count := ref_count x1 + 1\<rparr>"
      have "inv (?x, s1, k1)" using inv_layer(1) [OF inv_layer(3) [OF c(2)]] by simp
      then show ?thesis
        by (intro that [of e ?x s1 k1]) (use a(1) c(1) d dev1 eqs1 inc True driver in \<open>auto simp: d1 busy\<close>)
    next
      case False
      then show ?thesis
        by (intro that [of e x1 s1 k1]) (use a(1,4) c d dev1 eqs1 o driver in \<open>auto simp: d1 busy\<close>)
    qed
  qed
qed

text \<open>One close counts one down; only the last one reaches the driver.\<close>

lemma rt_device_close_spec:
  assumes i: "inv (x, s, k)" and d: "is_device d k" and o: "is_open x \<longleftrightarrow> ref_count x \<noteq> 0"
  obtains e x' s' k' where "rt_device_close ops d (x, s, k) = Some (e, x', s', k')" "inv (x', s', k')"
    "is_device d k'" "standalone x' = standalone x" "is_open x' \<longleftrightarrow> ref_count x' \<noteq> 0"
    "ref_count x = 0 \<longrightarrow> e = - RT_ERROR \<and> ref_count x' = 0"
    "ref_count x \<noteq> 0 \<longrightarrow> (e = RT_EOK \<or> e = - RT_ENOSYS) \<and> ref_count x' = ref_count x - 1"
proof -
  note d1 = rt_device_close_def rt_assert_def
  let ?x = "x\<lparr>ref_count := ref_count x - 1\<rparr>"
  have i1: "inv (?x, s, k)" by (rule inv_layer(1) [OF i])
  consider (closed) "ref_count x = 0" | (more) "ref_count x \<noteq> 0" "ref_count x - 1 \<noteq> 0"
    | (last) "ref_count x \<noteq> 0" "ref_count x - 1 = 0" by blast
  then show ?thesis
  proof cases
    case closed
    then show ?thesis using i d o by (intro that [of "- RT_ERROR" x s k]) (simp_all add: d1)
  next
    case more
    then show ?thesis using i1 d o by (intro that [of RT_EOK ?x s k]) (simp_all add: d1)
  next
    case last
    obtain e x1 s1 k1 where c: "(case close_op ops of Some f \<Rightarrow> f (?x, s, k) | None \<Rightarrow> Some (RT_EOK, ?x, s, k)) = Some (e, x1, s1, k1)"
        "inv (x1, s1, k1)" "kept d (?x, s, k) (x1, s1, k1)" "e = RT_EOK \<or> e = - RT_ENOSYS"
    proof (cases "close_op ops")
      case None
      then show ?thesis using i1 by (intro that [of RT_EOK ?x s k]) (simp_all add: kept_def)
    next
      case (Some f)
      then show ?thesis using close_driver [OF Some i1] that by auto
    qed
    have x: "?x = x\<lparr>ref_count := 0\<rparr>" using last by simp
    have "is_device d k1" using is_device_kept [OF c(3)] d by simp
    moreover have "ref_count x1 = ref_count x - 1" "standalone x1 = standalone x" using c(3) by (simp_all add: kept_def)
    ultimately show ?thesis using c(1) [unfolded x] c(4) d last inv_layer(4) [OF c(2)]
      by (intro that [of e "x1\<lparr>open_flag := RT_DEVICE_OFLAG_CLOSE\<rparr>" s1 k1]) (auto simp: d1 Let_def)
  qed
qed

end

section \<open>Opening and closing\<close>

text \<open>A sequence of opens and closes, and how many opens are outstanding after it.\<close>

datatype dev_call = Dev_open u16 | Dev_close

fun device_run :: "('s, 'a) device_ops \<Rightarrow> nat \<Rightarrow> dev_call list \<Rightarrow> nat \<Rightarrow> 's dstate \<Rightarrow> (nat \<times> 's dstate) option" where
  "device_run ops d [] n st = Some (n, st)"
| "device_run ops d (Dev_open oflag # cs) n st = do {
     (e, st) \<leftarrow> rt_device_open ops d oflag st;
     device_run ops d cs (if e = RT_EOK \<or> e = - RT_ENOSYS then n + 1 else n) st
   }"
| "device_run ops d (Dev_close # cs) n st = do {
     (e, st) \<leftarrow> rt_device_close ops d st;
     device_run ops d cs (if e = RT_EOK \<or> e = - RT_ENOSYS then n - 1 else n) st
   }"

definition opens :: "dev_call list \<Rightarrow> nat" where
  "opens cs = length (filter (\<lambda>c. c \<noteq> Dev_close) cs)"

lemma opens_simps [simp]: "opens [] = 0" "opens (Dev_open w # cs) = Suc (opens cs)" "opens (Dev_close # cs) = opens cs"
  by (simp_all add: opens_def)

context device_driver
begin

lemma device_run_spec:
  assumes "inv (x, s, k)" "is_device d k" "is_open x \<longleftrightarrow> ref_count x \<noteq> 0" "unat (ref_count x) + opens cs \<le> 255"
    and "standalone x \<longrightarrow> unat (ref_count x) \<le> 1"
  shows "\<exists>x' s' k'. device_run ops d cs (unat (ref_count x)) (x, s, k) = Some (unat (ref_count x'), x', s', k') \<and>
    inv (x', s', k') \<and> is_device d k' \<and> (is_open x' \<longleftrightarrow> ref_count x' \<noteq> 0) \<and> standalone x' = standalone x \<and>
    (standalone x \<longrightarrow> unat (ref_count x') \<le> 1)"
  using assms
proof (induction cs arbitrary: x s k)
  case Nil
  then show ?case by auto
next
  case (Cons c cs)
  note i = Cons.prems(1,2)
  show ?case
  proof (cases c)
    case (Dev_open w)
    have b: "unat (ref_count x) < 255" using Cons.prems(4) Dev_open by simp
    then have n: "ref_count x < 255" by (simp add: word_less_nat_alt)
    have u: "unat (ref_count x + 1) = unat (ref_count x) + 1" using b by (simp add: unat_plus_simple [THEN iffD1] unat_word_ariths)
    obtain e x' s' k' where r: "rt_device_open ops d w (x, s, k) = Some (e, x', s', k')" "inv (x', s', k')"
        "is_device d k'" "standalone x' = standalone x" "is_open x' \<longleftrightarrow> ref_count x' \<noteq> 0"
        "ref_count x' = (if e = RT_EOK \<or> e = - RT_ENOSYS then ref_count x + 1 else ref_count x)"
        "standalone x \<and> is_open x \<longrightarrow> e \<noteq> RT_EOK \<and> e \<noteq> - RT_ENOSYS"
      using rt_device_open_spec [OF i n Cons.prems(3), of w] .
    have m: "unat (ref_count x') = (if e = RT_EOK \<or> e = - RT_ENOSYS then unat (ref_count x) + 1 else unat (ref_count x))"
      using r(6) u by simp
    have "unat (ref_count x') + opens cs \<le> 255" using m Cons.prems(4) Dev_open by (simp split: if_splits)
    moreover have "standalone x' \<longrightarrow> unat (ref_count x') \<le> 1"
      using m r(4,7) Cons.prems(3,5) by (auto split: if_splits)
    ultimately show ?thesis
      using Cons.IH [OF r(2,3,5)] r(1,4) m Dev_open by simp
  next
    case Dev_close
    obtain e x' s' k' where r: "rt_device_close ops d (x, s, k) = Some (e, x', s', k')" "inv (x', s', k')"
        "is_device d k'" "standalone x' = standalone x" "is_open x' \<longleftrightarrow> ref_count x' \<noteq> 0"
        "ref_count x = 0 \<longrightarrow> e = - RT_ERROR \<and> ref_count x' = 0"
        "ref_count x \<noteq> 0 \<longrightarrow> (e = RT_EOK \<or> e = - RT_ENOSYS) \<and> ref_count x' = ref_count x - 1"
      using rt_device_close_spec [OF i Cons.prems(3)] .
    have m: "unat (ref_count x') = (if e = RT_EOK \<or> e = - RT_ENOSYS then unat (ref_count x) - 1 else unat (ref_count x))"
      using r(6,7) by (cases "ref_count x = 0") (auto simp: unat_minus_one)
    have "unat (ref_count x') + opens cs \<le> 255" "standalone x' \<longrightarrow> unat (ref_count x') \<le> 1"
      using m r(4) Cons.prems(4,5) Dev_close by (auto split: if_splits)
    then show ?thesis
      using Cons.IH [OF r(2,3,5)] r(1,4) m Dev_close by simp
  qed
qed

end

text \<open>
  C37. For every driver that keeps the interface, every sequence of at most 255 opens and any number of
  closes, from a registered device that is closed: no call fails an assertion; the reference count is
  the number of opens that succeeded and are not yet closed; the device counts as open exactly while
  there is one; a standalone device is never open twice; the driver's invariant holds at the end.
\<close>

theorem device_open_count:
  assumes "device_driver ops d ok" and "ok (x, s, k)" and "is_device d k"
    and "ref_count x = 0" and "open_flag x = RT_DEVICE_OFLAG_CLOSE" and "opens cs \<le> 255"
  shows "\<exists>n x' s' k'. device_run ops d cs 0 (x, s, k) = Some (n, x', s', k') \<and> unat (ref_count x') = n \<and>
    (open_flag x' AND RT_DEVICE_OFLAG_OPEN \<noteq> 0 \<longleftrightarrow> 0 < n) \<and> (standalone x \<longrightarrow> n \<le> 1) \<and> ok (x', s', k')"
proof -
  have o: "is_open x \<longleftrightarrow> ref_count x \<noteq> 0" using assms(4,5) by (simp add: is_open_def)
  have z: "unat (ref_count x) = 0" using assms(4) by simp
  obtain x' s' k' where "device_run ops d cs 0 (x, s, k) = Some (unat (ref_count x'), x', s', k')" "ok (x', s', k')"
      "is_open x' \<longleftrightarrow> ref_count x' \<noteq> 0" "standalone x \<longrightarrow> unat (ref_count x') \<le> 1"
    using device_driver.device_run_spec [OF assms(1-3) o, of cs] assms(6) unfolding z by auto
  then show ?thesis by (auto simp: is_open_def unat_gt_0)
qed

text \<open>A driver without functions, as that of the pins.\<close>

definition plain_ops :: "(unit, unit) device_ops" where
  "plain_ops = \<lparr>init_op = None, open_op = None, close_op = None, read_op = None, write_op = None, control_op = None\<rparr>"

theorem device_open_count_witness:
  "device_driver plain_ops 0 (\<lambda>_. True) \<and> (\<exists>n x s k. device_run plain_ops 0 [Dev_open 3, Dev_open 1, Dev_close, Dev_close, Dev_close, Dev_open 3] 0
      (zero_device, (), example_kernel) = Some (n, x, s, k) \<and> unat (ref_count x) = n \<and>
    (open_flag x AND RT_DEVICE_OFLAG_OPEN \<noteq> 0 \<longleftrightarrow> 0 < n))"
proof -
  have d: "device_driver plain_ops 0 (\<lambda>_. True)" by unfold_locales (simp_all add: plain_ops_def)
  have "is_device 0 example_kernel" "ref_count zero_device = 0" "open_flag zero_device = 0"
    by (simp_all add: is_device_def rt_object_get_type_def example_objs_def zero_device_def)
  from device_open_count [OF d TrueI this, of "[Dev_open 3, Dev_open 1, Dev_close, Dev_close, Dev_close, Dev_open 3]"] d
  show ?thesis by auto
qed

text \<open>A 256th open makes the 8-bit counter zero and fails the assertion behind it.\<close>

lemma rt_device_open_overflow:
  assumes "is_device d k" "ref_count x = 255" "dev_flag x AND RT_DEVICE_FLAG_ACTIVATED \<noteq> 0" "\<not> standalone x"
    and "open_op ops = None"
  shows "rt_device_open ops d w (x, s, k) = None"
  using assms by (simp add: rt_device_open_def activate_def rt_assert_def standalone_def)

text \<open>
  What the interface excludes: a driver that refuses the last close. The reference count is zero then and
  the open flag is kept, so a standalone device can neither be opened nor closed again.
\<close>

lemma refused_close_locks_device:
  assumes "is_device d k" "ref_count x = 1" "is_open x" "standalone x" "dev_flag x AND RT_DEVICE_FLAG_ACTIVATED \<noteq> 0"
    and "close_op ops = Some (\<lambda>st. Some (e, st))" "e \<noteq> RT_EOK" "e \<noteq> - RT_ENOSYS"
  shows "rt_device_close ops d (x, s, k) = Some (e, x\<lparr>ref_count := 0\<rparr>, s, k)"
    and "rt_device_open ops d w (x\<lparr>ref_count := 0\<rparr>, s, k) = Some (- RT_EBUSY, x\<lparr>ref_count := 0\<rparr>, s, k)"
    and "rt_device_close ops d (x\<lparr>ref_count := 0\<rparr>, s, k) = Some (- RT_ERROR, x\<lparr>ref_count := 0\<rparr>, s, k)"
  using assms
  by (simp_all add: rt_device_close_def rt_device_open_def activate_def rt_assert_def standalone_def is_open_def Let_def)

section \<open>Registration\<close>

text \<open>
  \<^verbatim>\<open>rt_device_find\<close> looks the name up with the scheduler locked; the unlock may switch to another thread, but
  the answer is that of the list at the call.
\<close>

lemma rt_device_find_spec:
  assumes "kinv k"
  obtains k' where "rt_device_find nm k = Some (find_by_name RT_Object_Class_Device nm k, k')" "kinv k'"
    "objs k' = objs k" "object_list k' = object_list k"
proof (cases "rt_current_thread k")
  case None
  then show ?thesis using assms
    by (intro that [of k]) (simp_all add: rt_device_find_def rt_thread_self_def rt_assert_def rt_object_container_def)
next
  case (Some c)
  let ?k = "rt_enter_critical k"
  have i: "kinv ?k" "rt_current_thread ?k = Some c" using assms Some by (simp_all add: rt_enter_critical_def kinv_lock)
  obtain k' where k': "rt_exit_critical ?k = Some k'" "kinv k'"
      "sched_frame (?k\<lparr>rt_scheduler_lock_nest := rt_scheduler_lock_nest k'\<rparr>) k'"
    using rt_exit_critical_spec [OF i] by (elim returnsE) blast
  have eqs: "objs ?k = objs k" "object_list ?k = object_list k" by (simp_all add: rt_enter_critical_def)
  show ?thesis
    by (rule that [of k'])
       (use Some i(2) k' eqs sched_frameD(2,3) [OF k'(3)] in
         \<open>simp_all add: rt_device_find_def rt_thread_self_def rt_assert_def rt_object_container_def find_by_name_def\<close>)
qed

text \<open>A device is registered under a name that no device has, and is found under it.\<close>

lemma rt_device_register_spec:
  assumes k: "kinv k"
  shows "find_by_name RT_Object_Class_Device nm k \<noteq> None \<Longrightarrow>
      \<exists>k'. rt_device_register (Some d) nm fl (x, k) = Some (- RT_ERROR, x, k') \<and> objs k' = objs k"
    and "find_by_name RT_Object_Class_Device nm k = None \<Longrightarrow>
      \<exists>x' k'. rt_device_register (Some d) nm fl (x, k) = Some (RT_EOK, x', k') \<and> is_device d k' \<and>
        dev_flag x' = fl \<and> ref_count x' = 0 \<and> open_flag x' = 0 \<and>
        find_by_name RT_Object_Class_Device nm k' = Some (ODevice d)"
proof -
  obtain k1 where k1: "rt_device_find nm k = Some (find_by_name RT_Object_Class_Device nm k, k1)" "objs k1 = objs k"
    using rt_device_find_spec [OF k] .
  show "\<exists>k'. rt_device_register (Some d) nm fl (x, k) = Some (- RT_ERROR, x, k') \<and> objs k' = objs k"
    if "find_by_name RT_Object_Class_Device nm k \<noteq> None"
    using that k1 by (simp add: rt_device_register_def)
  show "\<exists>x' k'. rt_device_register (Some d) nm fl (x, k) = Some (RT_EOK, x', k') \<and> is_device d k' \<and>
        dev_flag x' = fl \<and> ref_count x' = 0 \<and> open_flag x' = 0 \<and>
        find_by_name RT_Object_Class_Device nm k' = Some (ODevice d)"
    if "find_by_name RT_Object_Class_Device nm k = None"
    using that k1 static_class_bits(1) [of RT_Object_Class_Device]
    by (simp add: rt_device_register_def rt_object_init_def rt_assert_def rt_object_container_def upd_obj_def
        is_device_def rt_object_get_type_def find_by_name_def list_insert_after_def)
qed

text \<open>
  The type of a device is either cleared (after \<^verbatim>\<open>rt_device_create\<close> and \<^verbatim>\<open>rt_device_unregister\<close>) or marked
  static (after \<^verbatim>\<open>rt_device_register\<close>): \<^verbatim>\<open>rt_device_destroy\<close>, which asserts that it is a device and is
  not static, fails in each of these states.
\<close>

lemma rt_device_destroy_fails:
  shows "rt_device_create (Some d) ty k = (Some (d, x), k1) \<Longrightarrow> rt_device_destroy d k1 = None"
    and "rt_device_register (Some d) nm fl (x, k) = Some (RT_EOK, x1, k1) \<Longrightarrow> rt_device_destroy d k1 = None"
    and "rt_device_unregister d k = Some (e, k1) \<Longrightarrow> rt_device_destroy d k1 = None"
proof -
  show "rt_device_create (Some d) ty k = (Some (d, x), k1) \<Longrightarrow> rt_device_destroy d k1 = None"
    by (auto simp: rt_device_create_def rt_device_destroy_def is_device_def rt_object_get_type_def rt_assert_def upd_obj_def)
  show "rt_device_unregister d k = Some (e, k1) \<Longrightarrow> rt_device_destroy d k1 = None"
    by (auto simp: rt_device_unregister_def rt_device_destroy_def is_device_def rt_object_get_type_def rt_object_detach_def
        rt_assert_def upd_obj_def split: if_splits)
  assume "rt_device_register (Some d) nm fl (x, k) = Some (RT_EOK, x1, k1)"
  then obtain k0 where "rt_object_init (ODevice d) RT_Object_Class_Device nm k0 = Some k1"
    by (auto simp: rt_device_register_def split: if_splits option.splits bind_splits)
  then have "rt_object_is_systemobject (ODevice d) k1"
    by (auto simp: rt_object_init_def rt_object_is_systemobject_def rt_assert_def upd_obj_def split: if_splits)
  then show "rt_device_destroy d k1 = None" by (simp add: rt_device_destroy_def rt_assert_def)
qed

end
