(* ===== verification/Serial.thy ===== *)
theory Serial
  imports Serial_Fifo Device Dataqueue
begin

text \<open>
  The serial driver, the client of the device layer and of the completions, data queues, wait queues and
  receive buffers: \<^verbatim>\<open>components/drivers/serial/serial.c\<close>. The chip's functions (\<^verbatim>\<open>struct rt_uart_ops\<close>) are
  a parameter over the state of the hardware \<open>'u\<close>, as are the functions of the application; \<open>m\<close> tells
  whether \<^verbatim>\<open>rt_malloc\<close> of a size succeeds and \<open>q0\<close> is the memory it gives to the data queue; \<open>c\<close>
  numbers the completion and the data queue of the device.
\<close>

section \<open>The code: data\<close>

record serial_configure =
  baud_rate :: u32
  data_bits :: "4 word"
  stop_bits :: "2 word"
  parity :: "2 word"
  bit_order :: "1 word"
  invert :: "1 word"
  bufsz :: u16
  reserved :: "6 word"

datatype serial_rx = Rx_fifo rt_serial_rx_fifo | Rx_dma bool
datatype serial_tx = Tx_fifo rt_completion | Tx_dma bool rt_data_queue

record 'u rt_serial_device =
  config :: serial_configure
  serial_rx :: "serial_rx option"
  serial_tx :: "serial_tx option"
  uart :: 'u

datatype serial_arg = Arg_config "serial_configure option" | Arg_word u32

record 'u rt_uart_ops =
  configure :: "(serial_configure \<Rightarrow> 'u \<Rightarrow> rt_err_t \<times> 'u) option"
  uart_control :: "int \<Rightarrow> serial_arg \<Rightarrow> 'u \<Rightarrow> rt_err_t \<times> 'u"
  putc :: "u8 \<Rightarrow> 'u \<Rightarrow> int \<times> 'u"
  getc :: "'u \<Rightarrow> int \<times> 'u"
  dma_transmit :: "(u32 \<Rightarrow> u32 \<Rightarrow> int \<Rightarrow> 'u \<Rightarrow> 'u) option"

type_synonym 'u sstate = "'u rt_serial_device dstate"

abbreviation (input) RT_DEVICE_FLAG_STREAM :: u16 where "RT_DEVICE_FLAG_STREAM \<equiv> 0x040"
abbreviation (input) RT_DEVICE_FLAG_INT_RX :: u16 where "RT_DEVICE_FLAG_INT_RX \<equiv> 0x100"
abbreviation (input) RT_DEVICE_FLAG_DMA_RX :: u16 where "RT_DEVICE_FLAG_DMA_RX \<equiv> 0x200"
abbreviation (input) RT_DEVICE_FLAG_INT_TX :: u16 where "RT_DEVICE_FLAG_INT_TX \<equiv> 0x400"
abbreviation (input) RT_DEVICE_FLAG_DMA_TX :: u16 where "RT_DEVICE_FLAG_DMA_TX \<equiv> 0x800"
abbreviation (input) RT_DEVICE_CTRL_RESUME :: int where "RT_DEVICE_CTRL_RESUME \<equiv> 0x01"
abbreviation (input) RT_DEVICE_CTRL_SUSPEND :: int where "RT_DEVICE_CTRL_SUSPEND \<equiv> 0x02"
abbreviation (input) RT_DEVICE_CTRL_CONFIG :: int where "RT_DEVICE_CTRL_CONFIG \<equiv> 0x03"
abbreviation (input) RT_DEVICE_CTRL_SET_INT :: int where "RT_DEVICE_CTRL_SET_INT \<equiv> 0x10"
abbreviation (input) RT_DEVICE_CTRL_CLR_INT :: int where "RT_DEVICE_CTRL_CLR_INT \<equiv> 0x11"
abbreviation (input) FIONREAD :: u32 where "FIONREAD \<equiv> 0x8004667f"
abbreviation (input) RT_DEVICE_FLAG_SUSPENDED :: u16 where "RT_DEVICE_FLAG_SUSPENDED \<equiv> 0x020"
abbreviation (input) RT_SERIAL_DMA_RX :: int where "RT_SERIAL_DMA_RX \<equiv> 1"
abbreviation (input) RT_SERIAL_DMA_TX :: int where "RT_SERIAL_DMA_TX \<equiv> 2"

definition uart_ctl :: "'u rt_uart_ops \<Rightarrow> int \<Rightarrow> u16 \<Rightarrow> 'u rt_serial_device \<Rightarrow> 'u rt_serial_device" where
  "uart_ctl u cmd w s = s\<lparr>uart := snd (uart_control u cmd (Arg_word (ucast w)) (uart s))\<rparr>"

section \<open>The code: opening and closing\<close>

definition rt_serial_init :: "'u rt_uart_ops \<Rightarrow> 'u sstate \<Rightarrow> (rt_err_t \<times> 'u sstate) option" where
  "rt_serial_init u = (\<lambda>(x, s, k).
     let s = s\<lparr>serial_rx := None, serial_tx := None\<rparr>
     in case configure u of
          Some f \<Rightarrow> (case f (config s) (uart s) of (e, v) \<Rightarrow> Some (e, x, s\<lparr>uart := v\<rparr>, k))
        | None \<Rightarrow> Some (RT_EOK, x, s, k))"

definition serial_open_rx :: "'u rt_uart_ops \<Rightarrow> (u32 \<Rightarrow> bool) \<Rightarrow> u16 \<Rightarrow> 'u sstate \<Rightarrow> 'u sstate option" where
  "serial_open_rx u m oflag = (\<lambda>(x, s, k).
     if serial_rx s = None then
       if oflag AND RT_DEVICE_FLAG_INT_RX \<noteq> 0 then do {
         rt_assert (m (12 + ucast (bufsz (config s))));
         let s = s\<lparr>serial_rx := Some (Rx_fifo (new_rx_fifo (bufsz (config s))))\<rparr>;
         let x = x\<lparr>open_flag := open_flag x OR RT_DEVICE_FLAG_INT_RX\<rparr>;
         Some (x, uart_ctl u RT_DEVICE_CTRL_SET_INT RT_DEVICE_FLAG_INT_RX s, k)
       }
       else if oflag AND RT_DEVICE_FLAG_DMA_RX \<noteq> 0 then do {
         s \<leftarrow> (if bufsz (config s) = 0 then do {
                 rt_assert (m 4);
                 Some (s\<lparr>serial_rx := Some (Rx_dma False)\<rparr>)
               }
               else do {
                 rt_assert (m (12 + ucast (bufsz (config s))));
                 let s = s\<lparr>serial_rx := Some (Rx_fifo (new_rx_fifo (bufsz (config s))))\<rparr>;
                 Some (uart_ctl u RT_DEVICE_CTRL_CONFIG RT_DEVICE_FLAG_DMA_RX s)
               });
         Some (x\<lparr>open_flag := open_flag x OR RT_DEVICE_FLAG_DMA_RX\<rparr>, s, k)
       }
       else Some (x, s\<lparr>serial_rx := None\<rparr>, k)
     else if oflag AND RT_DEVICE_FLAG_INT_RX \<noteq> 0 then
       Some (x\<lparr>open_flag := open_flag x OR RT_DEVICE_FLAG_INT_RX\<rparr>, s, k)
     else if oflag AND RT_DEVICE_FLAG_DMA_RX \<noteq> 0 then
       Some (x\<lparr>open_flag := open_flag x OR RT_DEVICE_FLAG_DMA_RX\<rparr>, s, k)
     else Some (x, s, k))"

text \<open>The data queue is initialised in memory fresh from \<^verbatim>\<open>rt_malloc\<close>; all its fields are set.\<close>

definition blank_queue :: rt_data_queue where
  "blank_queue = \<lparr>dq_size = 0, lwm = 0, get_index = 0, put_index = 0, items = [], evt_notify = False\<rparr>"

definition serial_open_tx :: "'u rt_uart_ops \<Rightarrow> (u32 \<Rightarrow> bool) \<Rightarrow> rt_data_item list option \<Rightarrow> nat \<Rightarrow> u16 \<Rightarrow>
    'u sstate \<Rightarrow> 'u sstate option" where
  "serial_open_tx u m q0 c oflag = (\<lambda>(x, s, k).
     if serial_tx s = None then
       if oflag AND RT_DEVICE_FLAG_INT_TX \<noteq> 0 then do {
         rt_assert (m 12);
         let (f, k) = rt_completion_init c (\<lparr>completion_flag = 0\<rparr>, k);
         let s = s\<lparr>serial_tx := Some (Tx_fifo f)\<rparr>;
         let x = x\<lparr>open_flag := open_flag x OR RT_DEVICE_FLAG_INT_TX\<rparr>;
         Some (x, uart_ctl u RT_DEVICE_CTRL_SET_INT RT_DEVICE_FLAG_INT_TX s, k)
       }
       else if oflag AND RT_DEVICE_FLAG_DMA_TX \<noteq> 0 then do {
         rt_assert (m 36);
         let (_, q, k) = rt_data_queue_init c 8 4 False q0 (blank_queue, k);
         let s = s\<lparr>serial_tx := Some (Tx_dma False q)\<rparr>;
         Some (x\<lparr>open_flag := open_flag x OR RT_DEVICE_FLAG_DMA_TX\<rparr>, s, k)
       }
       else Some (x, s\<lparr>serial_tx := None\<rparr>, k)
     else if oflag AND RT_DEVICE_FLAG_INT_TX \<noteq> 0 then
       Some (x\<lparr>open_flag := open_flag x OR RT_DEVICE_FLAG_INT_TX\<rparr>, s, k)
     else if oflag AND RT_DEVICE_FLAG_DMA_TX \<noteq> 0 then
       Some (x\<lparr>open_flag := open_flag x OR RT_DEVICE_FLAG_DMA_TX\<rparr>, s, k)
     else Some (x, s, k))"

definition lacks :: "u16 \<Rightarrow> u16 \<Rightarrow> rt_device \<Rightarrow> bool" where
  "lacks w oflag x \<longleftrightarrow> oflag AND w \<noteq> 0 \<and> dev_flag x AND w = 0"

definition rt_serial_open :: "'u rt_uart_ops \<Rightarrow> (u32 \<Rightarrow> bool) \<Rightarrow> rt_data_item list option \<Rightarrow> nat \<Rightarrow> u16 \<Rightarrow>
    'u sstate \<Rightarrow> (rt_err_t \<times> 'u sstate) option" where
  "rt_serial_open u m q0 c oflag = (\<lambda>(x, s, k).
     if lacks RT_DEVICE_FLAG_DMA_RX oflag x then Some (- RT_EIO, x, s, k)
     else if lacks RT_DEVICE_FLAG_DMA_TX oflag x then Some (- RT_EIO, x, s, k)
     else if lacks RT_DEVICE_FLAG_INT_RX oflag x then Some (- RT_EIO, x, s, k)
     else if lacks RT_DEVICE_FLAG_INT_TX oflag x then Some (- RT_EIO, x, s, k)
     else do {
       let stream_flag = (if oflag AND RT_DEVICE_FLAG_STREAM \<noteq> 0 \<or> open_flag x AND RT_DEVICE_FLAG_STREAM \<noteq> 0
                          then RT_DEVICE_FLAG_STREAM else 0);
       let x = x\<lparr>open_flag := oflag AND 0xff\<rparr>;
       st \<leftarrow> serial_open_rx u m oflag (x, s, k);
       (x, s, k) \<leftarrow> serial_open_tx u m q0 c oflag st;
       Some (RT_EOK, x\<lparr>open_flag := open_flag x OR stream_flag\<rparr>, s, k)
     })"

definition serial_close_rx :: "'u rt_uart_ops \<Rightarrow> 'u sstate \<Rightarrow> 'u sstate option" where
  "serial_close_rx u = (\<lambda>(x, s, k).
     if open_flag x AND RT_DEVICE_FLAG_INT_RX \<noteq> 0 then do {
       rt_assert (serial_rx s \<noteq> None);
       let s = s\<lparr>serial_rx := None\<rparr>;
       let x = x\<lparr>open_flag := open_flag x AND NOT RT_DEVICE_FLAG_INT_RX\<rparr>;
       Some (x, uart_ctl u RT_DEVICE_CTRL_CLR_INT RT_DEVICE_FLAG_INT_RX s, k)
     }
     else if open_flag x AND RT_DEVICE_FLAG_DMA_RX \<noteq> 0 then do {
       rt_assert (serial_rx s \<noteq> None);
       let s = uart_ctl u RT_DEVICE_CTRL_CLR_INT RT_DEVICE_FLAG_DMA_RX s;
       let s = s\<lparr>serial_rx := None\<rparr>;
       Some (x\<lparr>open_flag := open_flag x AND NOT RT_DEVICE_FLAG_DMA_RX\<rparr>, s, k)
     }
     else Some (x, s, k))"

definition serial_close_tx :: "'u rt_uart_ops \<Rightarrow> 'u sstate \<Rightarrow> 'u sstate option" where
  "serial_close_tx u = (\<lambda>(x, s, k).
     if open_flag x AND RT_DEVICE_FLAG_INT_TX \<noteq> 0 then do {
       rt_assert (serial_tx s \<noteq> None);
       let s = s\<lparr>serial_tx := None\<rparr>;
       let x = x\<lparr>open_flag := open_flag x AND NOT RT_DEVICE_FLAG_INT_TX\<rparr>;
       Some (x, uart_ctl u RT_DEVICE_CTRL_CLR_INT RT_DEVICE_FLAG_INT_TX s, k)
     }
     else if open_flag x AND RT_DEVICE_FLAG_DMA_TX \<noteq> 0 then do {
       rt_assert (serial_tx s \<noteq> None);
       let s = s\<lparr>serial_tx := None\<rparr>;
       Some (x\<lparr>open_flag := open_flag x AND NOT RT_DEVICE_FLAG_DMA_TX\<rparr>, s, k)
     }
     else Some (x, s, k))"

definition rt_serial_close :: "'u rt_uart_ops \<Rightarrow> 'u sstate \<Rightarrow> (rt_err_t \<times> 'u sstate) option" where
  "rt_serial_close u = (\<lambda>(x, s, k).
     if ref_count x > 1 then Some (RT_EOK, x, s, k)
     else do {
       st \<leftarrow> serial_close_rx u (x, s, k);
       st \<leftarrow> serial_close_tx u st;
       Some (RT_EOK, st)
     })"

section \<open>The code: receiving\<close>

fun serial_poll_rx :: "'u rt_uart_ops \<Rightarrow> u32 \<Rightarrow> nat \<Rightarrow> 'u \<times> memory \<Rightarrow> nat \<times> 'u \<times> memory" where
  "serial_poll_rx u data 0 (v, m) = (0, v, m)"
| "serial_poll_rx u data (Suc n) (v, m) =
     (case getc u v of (ch, v) \<Rightarrow>
        if ch = -1 then (0, v, m)
        else let m = m(data := word_of_int ch)
          in if ch = 10 then (1, v, m)
             else (case serial_poll_rx u (data + 1) n (v, m) of (r, v, m) \<Rightarrow> (Suc r, v, m)))"

definition serial_dma_rx :: "'u rt_uart_ops \<Rightarrow> u32 \<Rightarrow> u32 \<Rightarrow> 'u sstate \<Rightarrow> (u32 \<times> 'u sstate) option" where
  "serial_dma_rx u data len = (\<lambda>(x, s, k).
     if bufsz (config s) = 0 then
       (case serial_rx s of
          Some (Rx_dma activated) \<Rightarrow>
            if \<not> activated then do {
              let s = s\<lparr>serial_rx := Some (Rx_dma True)\<rparr>;
              f \<leftarrow> dma_transmit u;
              Some (len, x, s\<lparr>uart := f data len RT_SERIAL_DMA_RX (uart s)\<rparr>, k)
            }
            else Some (0, x, s, rt_set_errno (- RT_EBUSY) k)
        | _ \<Rightarrow> None)
     else
       (case serial_rx s of
          Some (Rx_fifo f) \<Rightarrow> do {
            (r, f, mm) \<leftarrow> serial_dma_rx_fifo (bufsz (config s)) data len (f, mem k);
            Some (r, x, s\<lparr>serial_rx := Some (Rx_fifo f)\<rparr>, k\<lparr>mem := mm\<rparr>)
          }
        | _ \<Rightarrow> None))"

definition rt_serial_read :: "'u rt_uart_ops \<Rightarrow> int \<Rightarrow> u32 \<Rightarrow> u32 \<Rightarrow> 'u sstate \<Rightarrow> (u32 wait_result \<times> 'u sstate) option" where
  "rt_serial_read u pos buffer sz = (\<lambda>(x, s, k).
     if sz = 0 then Some (Returned 0, x, s, k)
     else if open_flag x AND RT_DEVICE_FLAG_INT_RX \<noteq> 0 then
       (case serial_rx s of
          Some (Rx_fifo f) \<Rightarrow> do {
            (r, f, mm) \<leftarrow> serial_int_rx (bufsz (config s)) buffer (unat sz) (f, mem k);
            Some (Returned (of_nat r), x, s\<lparr>serial_rx := Some (Rx_fifo f)\<rparr>, k\<lparr>mem := mm\<rparr>)
          }
        | _ \<Rightarrow> None)
     else if open_flag x AND RT_DEVICE_FLAG_DMA_RX \<noteq> 0 then do {
       (r, st) \<leftarrow> serial_dma_rx u buffer sz (x, s, k);
       Some (Returned r, st)
     }
     else (case serial_poll_rx u buffer (unat sz) (uart s, mem k) of
             (r, v, mm) \<Rightarrow> Some (Returned (of_nat r), x, s\<lparr>uart := v\<rparr>, k\<lparr>mem := mm\<rparr>)))"

section \<open>The code: sending\<close>

fun serial_poll_tx :: "'u rt_uart_ops \<Rightarrow> bool \<Rightarrow> memory \<Rightarrow> u32 \<Rightarrow> nat \<Rightarrow> 'u \<Rightarrow> 'u" where
  "serial_poll_tx u stream m data 0 v = v"
| "serial_poll_tx u stream m data (Suc n) v =
     (let v = (if m data = 10 \<and> stream then snd (putc u 13 v) else v);
          v = snd (putc u (m data) v)
      in serial_poll_tx u stream m (data + 1) n v)"

text \<open>
  The sending loop in interrupt mode waits for the completion when the chip does not take the character, and tries
  it again. It returns what is left when the thread sleeps.
\<close>

partial_function (option) serial_int_tx :: "'u rt_uart_ops \<Rightarrow> nat \<Rightarrow> u32 \<Rightarrow> nat \<Rightarrow> rt_completion \<times> 'u \<times> kernel \<Rightarrow>
    ((u32 \<times> nat) option \<times> rt_completion \<times> 'u \<times> kernel) option" where
  "serial_int_tx u c data n cvk = (case cvk of (f, v, k) \<Rightarrow>
     if n = 0 then Some (None, f, v, k)
     else case putc u (mem k data) v of (r, v) \<Rightarrow>
       if r = -1 then
         Option.bind (rt_completion_wait c RT_WAITING_FOREVER (f, k)) (\<lambda>(w, f, k).
           case w of
             Suspended \<Rightarrow> Some (Some (data, n), f, v, k)
           | Returned e \<Rightarrow> serial_int_tx u c data n (f, v, k))
       else serial_int_tx u c (data + 1) (n - 1) (f, v, k))"

definition serial_int_tx_resume :: "'u rt_uart_ops \<Rightarrow> nat \<Rightarrow> nat \<Rightarrow> u32 \<Rightarrow> nat \<Rightarrow> rt_completion \<times> 'u \<times> kernel \<Rightarrow>
    ((u32 \<times> nat) option \<times> rt_completion \<times> 'u \<times> kernel) option" where
  "serial_int_tx_resume u c t data n = (\<lambda>(f, v, k).
     case rt_completion_wait_resume t (f, k) of (_, f, k) \<Rightarrow> serial_int_tx u c data n (f, v, k))"

text \<open>
  \<^verbatim>\<open>_serial_dma_tx\<close> queues the data and then starts the hardware if it is idle; interrupts are enabled between
  the two.
\<close>

definition dma_tx_kick :: "'u rt_uart_ops \<Rightarrow> u32 \<Rightarrow> u32 \<Rightarrow> 'u rt_serial_device \<Rightarrow> 'u rt_serial_device option" where
  "dma_tx_kick u data len s =
     (case serial_tx s of
        Some (Tx_dma activated q) \<Rightarrow>
          if \<not> activated then do {
            let s = s\<lparr>serial_tx := Some (Tx_dma True q)\<rparr>;
            f \<leftarrow> dma_transmit u;
            Some (s\<lparr>uart := f data len RT_SERIAL_DMA_TX (uart s)\<rparr>)
          }
          else Some s
      | _ \<Rightarrow> None)"

definition dma_tx_push :: "nat \<Rightarrow> u32 \<Rightarrow> u32 \<Rightarrow> 'u rt_serial_device \<times> kernel \<Rightarrow>
    (rt_err_t wait_result \<times> 'u rt_serial_device \<times> kernel) option" where
  "dma_tx_push c data len = (\<lambda>(s, k).
     case serial_tx s of
       Some (Tx_dma activated q) \<Rightarrow> do {
         (w, q, k) \<leftarrow> rt_data_queue_push c \<lparr>data_ptr = data, data_size = len\<rparr> RT_WAITING_FOREVER (q, k);
         Some (case w of Returned (e, _) \<Rightarrow> Returned e | Suspended \<Rightarrow> Suspended,
               s\<lparr>serial_tx := Some (Tx_dma activated q)\<rparr>, k)
       }
     | _ \<Rightarrow> None)"

definition serial_dma_tx :: "'u rt_uart_ops \<Rightarrow> nat \<Rightarrow> u32 \<Rightarrow> u32 \<Rightarrow> 'u rt_serial_device \<times> kernel \<Rightarrow>
    (u32 wait_result \<times> 'u rt_serial_device \<times> kernel) option" where
  "serial_dma_tx u c data len = (\<lambda>(s, k). do {
     (w, s, k) \<leftarrow> dma_tx_push c data len (s, k);
     case w of
       Suspended \<Rightarrow> Some (Suspended, s, k)
     | Returned e \<Rightarrow>
         if e = RT_EOK then do {
           s \<leftarrow> dma_tx_kick u data len s;
           Some (Returned len, s, k)
         } else Some (Returned 0, s, rt_set_errno e k)
   })"

definition serial_dma_tx_resume :: "'u rt_uart_ops \<Rightarrow> nat \<Rightarrow> nat \<Rightarrow> u32 \<Rightarrow> u32 \<Rightarrow> 'u rt_serial_device \<times> kernel \<Rightarrow>
    (u32 wait_result \<times> 'u rt_serial_device \<times> kernel) option" where
  "serial_dma_tx_resume u c t data len = (\<lambda>(s, k).
     case serial_tx s of
       Some (Tx_dma activated q) \<Rightarrow> do {
         (w, q, k) \<leftarrow> rt_data_queue_push_resume t c \<lparr>data_ptr = data, data_size = len\<rparr> RT_WAITING_FOREVER (q, k);
         let s = s\<lparr>serial_tx := Some (Tx_dma activated q)\<rparr>;
         case w of
           Suspended \<Rightarrow> Some (Suspended, s, k)
         | Returned (e, _) \<Rightarrow>
             if e = RT_EOK then do {
               s \<leftarrow> dma_tx_kick u data len s;
               Some (Returned len, s, k)
             } else Some (Returned 0, s, rt_set_errno e k)
       }
     | _ \<Rightarrow> None)"

definition rt_serial_write :: "'u rt_uart_ops \<Rightarrow> nat \<Rightarrow> int \<Rightarrow> u32 \<Rightarrow> u32 \<Rightarrow> 'u sstate \<Rightarrow> (u32 wait_result \<times> 'u sstate) option" where
  "rt_serial_write u c pos buffer sz = (\<lambda>(x, s, k).
     if sz = 0 then Some (Returned 0, x, s, k)
     else if open_flag x AND RT_DEVICE_FLAG_INT_TX \<noteq> 0 then
       (case serial_tx s of
          Some (Tx_fifo f) \<Rightarrow> do {
            (rest, f, v, k) \<leftarrow> serial_int_tx u c buffer (unat sz) (f, uart s, k);
            Some (if rest = None then Returned sz else Suspended, x, s\<lparr>serial_tx := Some (Tx_fifo f), uart := v\<rparr>, k)
          }
        | _ \<Rightarrow> None)
     else if open_flag x AND RT_DEVICE_FLAG_DMA_TX \<noteq> 0 then do {
       (r, s, k) \<leftarrow> serial_dma_tx u c buffer sz (s, k);
       Some (r, x, s, k)
     }
     else Some (Returned sz, x,
       s\<lparr>uart := serial_poll_tx u (open_flag x AND RT_DEVICE_FLAG_STREAM \<noteq> 0) (mem k) buffer (unat sz) (uart s)\<rparr>, k))"

section \<open>The code: control, registration\<close>

definition serial_control_rest :: "'u rt_uart_ops \<Rightarrow> int \<Rightarrow> serial_arg \<Rightarrow> 'u sstate \<Rightarrow> (rt_err_t \<times> 'u sstate) option" where
  "serial_control_rest u cmd args = (\<lambda>(x, s, k).
     if word_of_int cmd = FIONREAD then
       (case (serial_rx s, args) of
          (Some (Rx_fifo f), Arg_word a) \<Rightarrow>
            Some (RT_EOK, x, s, k\<lparr>mem := store_word a (serial_fifo_calc_recved_len (bufsz (config s)) f) (mem k)\<rparr>)
        | _ \<Rightarrow> None)
     else (case uart_control u cmd args (uart s) of (e, v) \<Rightarrow> Some (e, x, s\<lparr>uart := v\<rparr>, k)))"

definition rt_serial_control :: "'u rt_uart_ops \<Rightarrow> int \<Rightarrow> serial_arg \<Rightarrow> 'u sstate \<Rightarrow> (rt_err_t \<times> 'u sstate) option" where
  "rt_serial_control u cmd args = (\<lambda>(x, s, k).
     if cmd = RT_DEVICE_CTRL_SUSPEND then Some (RT_EOK, x\<lparr>dev_flag := dev_flag x OR RT_DEVICE_FLAG_SUSPENDED\<rparr>, s, k)
     else if cmd = RT_DEVICE_CTRL_RESUME then Some (RT_EOK, x\<lparr>dev_flag := dev_flag x AND NOT RT_DEVICE_FLAG_SUSPENDED\<rparr>, s, k)
     else if cmd = RT_DEVICE_CTRL_CONFIG then
       (case args of
          Arg_config (Some pconfig) \<Rightarrow>
            if bufsz pconfig \<noteq> bufsz (config s) \<and> ref_count x \<noteq> 0 then Some (RT_EBUSY, x, s, k)
            else do {
              let s = s\<lparr>config := pconfig\<rparr>;
              if ref_count x \<noteq> 0 then do {
                f \<leftarrow> configure u;
                Some (RT_EOK, x, s\<lparr>uart := snd (f pconfig (uart s))\<rparr>, k)
              } else Some (RT_EOK, x, s, k)
            }
        | Arg_config None \<Rightarrow> Some (RT_EOK, x, s, k)
        | Arg_word _ \<Rightarrow> None)
     else serial_control_rest u cmd args (x, s, k))"

definition serial_ops :: "'u rt_uart_ops \<Rightarrow> (u32 \<Rightarrow> bool) \<Rightarrow> rt_data_item list option \<Rightarrow> nat \<Rightarrow>
    ('u rt_serial_device, serial_arg) device_ops" where
  "serial_ops u m q0 c = \<lparr>init_op = Some (rt_serial_init u), open_op = Some (rt_serial_open u m q0 c),
     close_op = Some (rt_serial_close u), read_op = Some (rt_serial_read u), write_op = Some (rt_serial_write u c),
     control_op = Some (rt_serial_control u)\<rparr>"

text \<open>The number of \<^verbatim>\<open>_serial_fops\<close>, the functions the device file system calls.\<close>

abbreviation (input) SERIAL_FOPS :: u32 where "SERIAL_FOPS \<equiv> 1"

definition rt_hw_serial_register :: "nat \<Rightarrow> u8 list \<Rightarrow> u32 \<Rightarrow> rt_device \<times> kernel \<Rightarrow> (rt_err_t \<times> rt_device \<times> kernel) option" where
  "rt_hw_serial_register d nm fl = (\<lambda>(x, k). do {
     let x = x\<lparr>dev_type := 0, rx_indicate := None, tx_complete := None\<rparr>;
     (e, x, k) \<leftarrow> rt_device_register (Some d) nm (ucast fl) (x, k);
     Some (e, x\<lparr>fops := SERIAL_FOPS\<rparr>, k)
   })"

section \<open>The code: the interrupt\<close>

text \<open>What a function registered with \<^verbatim>\<open>rx_indicate\<close> does: \<open>user\<close> executes those of the application.\<close>

type_synonym 'u rx_user = "u32 \<Rightarrow> u32 \<Rightarrow> 'u sstate \<Rightarrow> 'u sstate option"

abbreviation (input) POLLIN :: u32 where "POLLIN \<equiv> 0x01"

definition serial_fops_rx_ind :: "(u32 \<Rightarrow> nat \<Rightarrow> u32 \<Rightarrow> int) \<Rightarrow> 'u sstate \<Rightarrow> (rt_err_t \<times> 'u sstate) option" where
  "serial_fops_rx_ind run_wake = (\<lambda>(x, s, k). do {
     (q, k) \<leftarrow> rt_wqueue_wakeup run_wake POLLIN (wait_queue x, k);
     Some (RT_EOK, x\<lparr>wait_queue := q\<rparr>, s, k)
   })"

definition call_rx_indicate :: "(u32 \<Rightarrow> nat \<Rightarrow> u32 \<Rightarrow> int) \<Rightarrow> 'u rx_user \<Rightarrow> rx_func \<Rightarrow> u32 \<Rightarrow> 'u sstate \<Rightarrow> 'u sstate option" where
  "call_rx_indicate run_wake user f n st =
     (case f of
        Serial_fops_rx_ind \<Rightarrow> do { (_, st) \<leftarrow> serial_fops_rx_ind run_wake st; Some st }
      | User_rx a \<Rightarrow> user a n st)"

text \<open>The loop that empties the chip; it ends when the chip has no more characters.\<close>

partial_function (option) isr_drain :: "'u rt_uart_ops \<Rightarrow> u16 \<Rightarrow> rt_serial_rx_fifo \<times> 'u \<Rightarrow> (rt_serial_rx_fifo \<times> 'u) option" where
  "isr_drain u sz fv = (case fv of (f, v) \<Rightarrow>
     case getc u v of (ch, v) \<Rightarrow>
       if ch = -1 then Some (f, v)
       else Option.bind (rx_push sz (word_of_int ch) f) (\<lambda>f. isr_drain u sz (f, v)))"

definition isr_rx_length :: "u16 \<Rightarrow> rt_serial_rx_fifo \<Rightarrow> u32" where
  "isr_rx_length sz f =
     (if rx_put_index f \<ge> rx_get_index f then ucast (rx_put_index f) - ucast (rx_get_index f)
      else ucast sz - (ucast (rx_get_index f) - ucast (rx_put_index f)))"

definition isr_rx_ind :: "'u rt_uart_ops \<Rightarrow> (rx_func \<Rightarrow> u32 \<Rightarrow> 'u sstate \<Rightarrow> 'u sstate option) \<Rightarrow> 'u sstate \<Rightarrow> 'u sstate option" where
  "isr_rx_ind u ind = (\<lambda>(x, s, k).
     case serial_rx s of
       Some (Rx_fifo f) \<Rightarrow> do {
         (f, v) \<leftarrow> isr_drain u (bufsz (config s)) (f, uart s);
         let s = s\<lparr>serial_rx := Some (Rx_fifo f), uart := v\<rparr>;
         case rx_indicate x of
           Some g \<Rightarrow>
             let n = isr_rx_length (bufsz (config s)) f
             in if n \<noteq> 0 then ind g n (x, s, k) else Some (x, s, k)
         | None \<Rightarrow> Some (x, s, k)
       }
     | _ \<Rightarrow> None)"

definition isr_tx_done :: "nat \<Rightarrow> 'u sstate \<Rightarrow> 'u sstate option" where
  "isr_tx_done c = (\<lambda>(x, s, k).
     case serial_tx s of
       Some (Tx_fifo f) \<Rightarrow> do {
         (f, k) \<leftarrow> rt_completion_done c (f, k);
         Some (x, s\<lparr>serial_tx := Some (Tx_fifo f)\<rparr>, k)
       }
     | _ \<Rightarrow> None)"

text \<open>
  When the data queue is empty the pop delivers nothing, and the pointer handed to \<^verbatim>\<open>tx_complete\<close> would be
  an uninitialised variable.
\<close>

definition isr_tx_dmadone :: "'u rt_uart_ops \<Rightarrow> nat \<Rightarrow> (u32 \<Rightarrow> u32 \<Rightarrow> 'u sstate \<Rightarrow> 'u sstate option) \<Rightarrow> 'u sstate \<Rightarrow>
    'u sstate option" where
  "isr_tx_dmadone u c compl = (\<lambda>(x, s, k).
     case serial_tx s of
       Some (Tx_dma _ q) \<Rightarrow> do {
         (w, q, k) \<leftarrow> rt_data_queue_pop c 0 (q, k);
         (e, nx) \<leftarrow> rt_data_queue_peak q;
         s \<leftarrow> (case nx of
                 Some item \<Rightarrow> do {
                   let s = s\<lparr>serial_tx := Some (Tx_dma True q)\<rparr>;
                   f \<leftarrow> dma_transmit u;
                   Some (s\<lparr>uart := f (data_ptr item) (data_size item) RT_SERIAL_DMA_TX (uart s)\<rparr>)
                 }
               | None \<Rightarrow> Some (s\<lparr>serial_tx := Some (Tx_dma False q)\<rparr>));
         case tx_complete x of
           Some g \<Rightarrow>
             (case w of
                Returned (_, Some item, _) \<Rightarrow> compl g (data_ptr item) (x, s, k)
              | _ \<Rightarrow> None)
         | None \<Rightarrow> Some (x, s, k)
       }
     | _ \<Rightarrow> None)"

definition isr_rx_dmadone :: "(rx_func \<Rightarrow> u32 \<Rightarrow> 'u sstate \<Rightarrow> 'u sstate option) \<Rightarrow> u32 \<Rightarrow> 'u sstate \<Rightarrow> 'u sstate option" where
  "isr_rx_dmadone ind len = (\<lambda>(x, s, k).
     if bufsz (config s) = 0 then
       (case serial_rx s of
          Some (Rx_dma _) \<Rightarrow> do {
            g \<leftarrow> rx_indicate x;
            (x, s, k) \<leftarrow> ind g len (x, s, k);
            Some (x, s\<lparr>serial_rx := Some (Rx_dma False)\<rparr>, k)
          }
        | _ \<Rightarrow> None)
     else
       (case serial_rx s of
          Some (Rx_fifo f) \<Rightarrow> do {
            f \<leftarrow> rt_dma_recv_update_put_index (bufsz (config s)) len f;
            let n = rt_dma_calc_recved_len (bufsz (config s)) f;
            let s = s\<lparr>serial_rx := Some (Rx_fifo f)\<rparr>;
            case rx_indicate x of
              Some g \<Rightarrow> ind g n (x, s, k)
            | None \<Rightarrow> Some (x, s, k)
          }
        | _ \<Rightarrow> None))"

definition rt_hw_serial_isr :: "'u rt_uart_ops \<Rightarrow> nat \<Rightarrow> (rx_func \<Rightarrow> u32 \<Rightarrow> 'u sstate \<Rightarrow> 'u sstate option) \<Rightarrow>
    (u32 \<Rightarrow> u32 \<Rightarrow> 'u sstate \<Rightarrow> 'u sstate option) \<Rightarrow> u32 \<Rightarrow> 'u sstate \<Rightarrow> 'u sstate option" where
  "rt_hw_serial_isr u c ind compl event st =
     (let ev = event AND 0xff
      in if ev = 1 then isr_rx_ind u ind st
         else if ev = 2 then isr_tx_done c st
         else if ev = 4 then isr_tx_dmadone u c compl st
         else if ev = 3 then isr_rx_dmadone ind (signed_drop_bit 8 (event AND NOT 0xff)) st
         else Some st)"

section \<open>The code: the file interface\<close>

text \<open>
  The functions of \<^verbatim>\<open>_serial_fops\<close>, for a descriptor with the flags \<open>fl\<close>; \<open>ops\<close> are the operations of the
  device. \<open>serial_fops_read\<close> is its loop up to the point where the thread sleeps.
\<close>

abbreviation (input) O_ACCMODE :: u32 where "O_ACCMODE \<equiv> 0x200003"
abbreviation (input) O_RDONLY :: u32 where "O_RDONLY \<equiv> 0"
abbreviation (input) O_WRONLY :: u32 where "O_WRONLY \<equiv> 1"
abbreviation (input) O_RDWR :: u32 where "O_RDWR \<equiv> 2"
abbreviation (input) O_NONBLOCK :: u32 where "O_NONBLOCK \<equiv> 0x800"

definition serial_fops_open :: "('s, 'a) device_ops \<Rightarrow> nat \<Rightarrow> u32 \<Rightarrow> 's dstate \<Rightarrow> (rt_err_t \<times> 's dstate) option" where
  "serial_fops_open ops d fl = (\<lambda>(x, s, k).
     let acc = fl AND O_ACCMODE;
         flags = (if acc = O_RDONLY then RT_DEVICE_FLAG_INT_RX OR 1
                  else if acc = O_WRONLY then 2
                  else if acc = O_RDWR then RT_DEVICE_FLAG_INT_RX OR 3 else 0)
     in do {
       x \<leftarrow> (if acc \<noteq> O_WRONLY then do {
               (_, x) \<leftarrow> rt_device_set_rx_indicate d (Some Serial_fops_rx_ind) k x;
               Some x
             } else Some x);
       rt_device_open ops d flags (x, s, k)
     })"

definition serial_fops_close :: "('s, 'a) device_ops \<Rightarrow> nat \<Rightarrow> 's dstate \<Rightarrow> (int \<times> 's dstate) option" where
  "serial_fops_close ops d = (\<lambda>(x, s, k). do {
     (_, x) \<leftarrow> rt_device_set_rx_indicate d None k x;
     (_, st) \<leftarrow> rt_device_close ops d (x, s, k);
     Some (0, st)
   })"

definition serial_fops_ioctl :: "('s, 'a) device_ops \<Rightarrow> nat \<Rightarrow> int \<Rightarrow> 'a \<Rightarrow> 's dstate \<Rightarrow> (rt_err_t \<times> 's dstate) option" where
  "serial_fops_ioctl ops d cmd args = rt_device_control ops d cmd args"

text \<open>\<^verbatim>\<open>libc_errno.h\<close>: EAGAIN is 11 plus a base that depends on the compiler; \<open>eagain\<close> stands for it.\<close>

partial_function (option) serial_fops_read ::
    "('s, 'a) device_ops \<Rightarrow> nat \<Rightarrow> int \<Rightarrow> u32 \<Rightarrow> nat \<Rightarrow> u32 \<Rightarrow> u32 \<Rightarrow> 's dstate \<Rightarrow> (int wait_result \<times> 's dstate) option" where
  "serial_fops_read ops d eagain fl n buf count st =
     Option.bind (rt_device_read ops d (-1) buf count st) (\<lambda>(w, x, s, k).
       case w of
         Suspended \<Rightarrow> Some (Suspended, x, s, k)
       | Returned r \<Rightarrow>
           if 0 < sint r then Some (Returned (sint r), x, s, k)
           else if fl AND O_NONBLOCK \<noteq> 0 then Some (Returned (- eagain), x, s, k)
           else Option.bind (rt_wqueue_wait n 0 (-1) (wait_queue x, k)) (\<lambda>(w, q, k).
             case w of
               Suspended \<Rightarrow> Some (Suspended, x\<lparr>wait_queue := q\<rparr>, s, k)
             | Returned _ \<Rightarrow> serial_fops_read ops d eagain fl n buf count (x\<lparr>wait_queue := q\<rparr>, s, k)))"

definition serial_fops_read_resume ::
    "('s, 'a) device_ops \<Rightarrow> nat \<Rightarrow> int \<Rightarrow> u32 \<Rightarrow> nat \<Rightarrow> u32 \<Rightarrow> u32 \<Rightarrow> 's dstate \<Rightarrow> (int wait_result \<times> 's dstate) option" where
  "serial_fops_read_resume ops d eagain fl n buf count = (\<lambda>(x, s, k).
     case rt_wqueue_wait_resume n (wait_queue x, k) of (_, q, k) \<Rightarrow>
       serial_fops_read ops d eagain fl n buf count (x\<lparr>wait_queue := q\<rparr>, s, k))"

definition serial_fops_write ::
    "('s, 'a) device_ops \<Rightarrow> nat \<Rightarrow> u32 \<Rightarrow> u32 \<Rightarrow> 's dstate \<Rightarrow> (u32 wait_result \<times> 's dstate) option" where
  "serial_fops_write ops d buf count = rt_device_write ops d (-1) buf count"

section \<open>A driver of the device layer\<close>

text \<open>
  The invariant between the flags of the open device and the buffers it holds. The opens and closes keep it,
  so that no assertion of a close fails.
\<close>

definition rx_ready :: "rt_device \<Rightarrow> 'u rt_serial_device \<Rightarrow> bool" where
  "rx_ready x s \<longleftrightarrow> \<not> (bit (open_flag x) 8 \<and> bit (open_flag x) 9) \<and>
     (bit (open_flag x) 8 \<or> bit (open_flag x) 9 \<longrightarrow> serial_rx s \<noteq> None)"

definition tx_ready :: "rt_device \<Rightarrow> 'u rt_serial_device \<Rightarrow> bool" where
  "tx_ready x s \<longleftrightarrow> \<not> (bit (open_flag x) 10 \<and> bit (open_flag x) 11) \<and>
     (bit (open_flag x) 10 \<or> bit (open_flag x) 11 \<longrightarrow> serial_tx s \<noteq> None)"

definition serial_ok :: "'u sstate \<Rightarrow> bool" where
  "serial_ok = (\<lambda>(x, s, k). rx_ready x s \<and> tx_ready x s \<and>
     (\<not> is_activated x \<longrightarrow> \<not> bit (open_flag x) 8 \<and> \<not> bit (open_flag x) 9 \<and> \<not> bit (open_flag x) 10 \<and>
       \<not> bit (open_flag x) 11))"

lemma serial_flag_bits:
  fixes w :: u16
  shows "w AND 0x100 = 0 \<longleftrightarrow> \<not> bit w 8" "w AND 0x200 = 0 \<longleftrightarrow> \<not> bit w 9"
    "w AND 0x400 = 0 \<longleftrightarrow> \<not> bit w 10" "w AND 0x800 = 0 \<longleftrightarrow> \<not> bit w 11"
  using and_exp_eq_0_iff_not_bit [of w 8] and_exp_eq_0_iff_not_bit [of w 9]
    and_exp_eq_0_iff_not_bit [of w 10] and_exp_eq_0_iff_not_bit [of w 11] by simp_all

lemma uart_ctl_sel [simp]:
  "serial_rx (uart_ctl u cmd w s) = serial_rx s" "serial_tx (uart_ctl u cmd w s) = serial_tx s"
  "config (uart_ctl u cmd w s) = config s"
  by (simp_all add: uart_ctl_def)

text \<open>Both halves of an open and of a close change nothing but the flags and their half of the driver.\<close>

lemma serial_open_rx_spec:
  assumes m: "\<And>n. m n" and f: "\<not> bit (open_flag x) 8" "\<not> bit (open_flag x) 9"
  obtains w s' where "serial_open_rx u m oflag (x, s, k) = Some (x\<lparr>open_flag := w\<rparr>, s', k)"
    "rx_ready (x\<lparr>open_flag := w\<rparr>) s'" "serial_tx s' = serial_tx s" "bit w 10 = bit (open_flag x) 10"
    "bit w 11 = bit (open_flag x) 11"
proof -
  have "\<exists>w s'. serial_open_rx u m oflag (x, s, k) = Some (x\<lparr>open_flag := w\<rparr>, s', k) \<and>
      rx_ready (x\<lparr>open_flag := w\<rparr>) s' \<and> serial_tx s' = serial_tx s \<and> bit w 10 = bit (open_flag x) 10 \<and>
      bit w 11 = bit (open_flag x) 11"
  proof (cases "serial_rx s")
    case None
    consider "bit oflag 8" | "\<not> bit oflag 8" "bit oflag 9" | "\<not> bit oflag 8" "\<not> bit oflag 9" by blast
    then show ?thesis
    proof cases
      case 1
      then show ?thesis using None m f
        by (intro exI [of _ "open_flag x OR RT_DEVICE_FLAG_INT_RX"])
           (simp add: serial_open_rx_def serial_flag_bits rx_ready_def rt_assert_def bit_simps)
    next
      case 2
      then show ?thesis using None m f
        by (intro exI [of _ "open_flag x OR RT_DEVICE_FLAG_DMA_RX"])
           (simp add: serial_open_rx_def serial_flag_bits rx_ready_def rt_assert_def bit_simps)
    next
      case 3
      then show ?thesis using None f
        by (intro exI [of _ "open_flag x"]) (simp add: serial_open_rx_def serial_flag_bits rx_ready_def)
    qed
  next
    case (Some r)
    have "\<exists>w. serial_open_rx u m oflag (x, s, k) = Some (x\<lparr>open_flag := w\<rparr>, s, k) \<and> \<not> (bit w 8 \<and> bit w 9) \<and>
        bit w 10 = bit (open_flag x) 10 \<and> bit w 11 = bit (open_flag x) 11"
    proof -
      have "x = x\<lparr>open_flag := open_flag x\<rparr>" by simp
      then show ?thesis using Some f
        by (cases "bit oflag 8"; cases "bit oflag 9")
           (auto simp: serial_open_rx_def serial_flag_bits bit_simps intro: exI [of _ "open_flag x"] exI [of _ "open_flag x OR 0x100"]
             exI [of _ "open_flag x OR 0x200"])
    qed
    then show ?thesis using Some by (auto simp: rx_ready_def)
  qed
  then show ?thesis using that by blast
qed

lemma serial_open_tx_spec:
  assumes m: "\<And>n. m n" and f: "\<not> bit (open_flag x) 10" "\<not> bit (open_flag x) 11"
  obtains w s' k' where "serial_open_tx u m q0 c oflag (x, s, k) = Some (x\<lparr>open_flag := w\<rparr>, s', k')"
    "tx_ready (x\<lparr>open_flag := w\<rparr>) s'" "serial_rx s' = serial_rx s" "bit w 8 = bit (open_flag x) 8"
    "bit w 9 = bit (open_flag x) 9" "objs k' = objs k"
proof -
  have "\<exists>w s' k'. serial_open_tx u m q0 c oflag (x, s, k) = Some (x\<lparr>open_flag := w\<rparr>, s', k') \<and>
      tx_ready (x\<lparr>open_flag := w\<rparr>) s' \<and> serial_rx s' = serial_rx s \<and> bit w 8 = bit (open_flag x) 8 \<and>
      bit w 9 = bit (open_flag x) 9 \<and> objs k' = objs k"
  proof (cases "serial_tx s")
    case None
    consider "bit oflag 10" | "\<not> bit oflag 10" "bit oflag 11" | "\<not> bit oflag 10" "\<not> bit oflag 11" by blast
    then show ?thesis
    proof cases
      case 1
      then show ?thesis using None m f
        by (intro exI [of _ "open_flag x OR RT_DEVICE_FLAG_INT_TX"])
           (simp add: serial_open_tx_def serial_flag_bits tx_ready_def rt_assert_def bit_simps rt_completion_init_def)
    next
      case 2
      then show ?thesis using None m f
        by (intro exI [of _ "open_flag x OR RT_DEVICE_FLAG_DMA_TX"])
           (simp add: serial_open_tx_def serial_flag_bits tx_ready_def rt_assert_def bit_simps rt_data_queue_init_def
             Let_def split: option.splits)
    next
      case 3
      then show ?thesis using None f
        by (intro exI [of _ "open_flag x"]) (simp add: serial_open_tx_def serial_flag_bits tx_ready_def)
    qed
  next
    case (Some r)
    have "\<exists>w. serial_open_tx u m q0 c oflag (x, s, k) = Some (x\<lparr>open_flag := w\<rparr>, s, k) \<and> \<not> (bit w 10 \<and> bit w 11) \<and>
        bit w 8 = bit (open_flag x) 8 \<and> bit w 9 = bit (open_flag x) 9"
    proof -
      have "x = x\<lparr>open_flag := open_flag x\<rparr>" by simp
      then show ?thesis using Some f
        by (cases "bit oflag 10"; cases "bit oflag 11")
           (auto simp: serial_open_tx_def serial_flag_bits bit_simps intro: exI [of _ "open_flag x"] exI [of _ "open_flag x OR 0x400"]
             exI [of _ "open_flag x OR 0x800"])
    qed
    then show ?thesis using Some by (auto simp: tx_ready_def)
  qed
  then show ?thesis using that by blast
qed

lemma serial_close_rx_spec:
  assumes r: "rx_ready x s"
  obtains w s' where "serial_close_rx u (x, s, k) = Some (x\<lparr>open_flag := w\<rparr>, s', k)" "serial_tx s' = serial_tx s"
    "\<not> bit w 8" "\<not> bit w 9" "bit w 10 = bit (open_flag x) 10" "bit w 11 = bit (open_flag x) 11"
proof -
  have "\<exists>w s'. serial_close_rx u (x, s, k) = Some (x\<lparr>open_flag := w\<rparr>, s', k) \<and> serial_tx s' = serial_tx s \<and>
      \<not> bit w 8 \<and> \<not> bit w 9 \<and> bit w 10 = bit (open_flag x) 10 \<and> bit w 11 = bit (open_flag x) 11"
  proof -
    consider (int) "bit (open_flag x) 8" "\<not> bit (open_flag x) 9" | (dma) "\<not> bit (open_flag x) 8" "bit (open_flag x) 9"
      | (poll) "\<not> bit (open_flag x) 8" "\<not> bit (open_flag x) 9" using r unfolding rx_ready_def by blast
    then show ?thesis
    proof cases
      case int
      then show ?thesis using r
        by (intro exI [of _ "open_flag x AND NOT RT_DEVICE_FLAG_INT_RX"])
           (auto simp: serial_close_rx_def serial_flag_bits rx_ready_def rt_assert_def bit_simps)
    next
      case dma
      then show ?thesis using r
        by (intro exI [of _ "open_flag x AND NOT RT_DEVICE_FLAG_DMA_RX"])
           (auto simp: serial_close_rx_def serial_flag_bits rx_ready_def rt_assert_def bit_simps)
    next
      case poll
      then show ?thesis by (intro exI [of _ "open_flag x"]) (simp add: serial_close_rx_def serial_flag_bits)
    qed
  qed
  then show ?thesis using that by blast
qed

lemma serial_close_tx_spec:
  assumes r: "tx_ready x s"
  obtains w s' where "serial_close_tx u (x, s, k) = Some (x\<lparr>open_flag := w\<rparr>, s', k)" "serial_rx s' = serial_rx s"
    "\<not> bit w 10" "\<not> bit w 11" "bit w 8 = bit (open_flag x) 8" "bit w 9 = bit (open_flag x) 9"
proof -
  have "\<exists>w s'. serial_close_tx u (x, s, k) = Some (x\<lparr>open_flag := w\<rparr>, s', k) \<and> serial_rx s' = serial_rx s \<and>
      \<not> bit w 10 \<and> \<not> bit w 11 \<and> bit w 8 = bit (open_flag x) 8 \<and> bit w 9 = bit (open_flag x) 9"
  proof -
    consider (int) "bit (open_flag x) 10" "\<not> bit (open_flag x) 11" | (dma) "\<not> bit (open_flag x) 10" "bit (open_flag x) 11"
      | (poll) "\<not> bit (open_flag x) 10" "\<not> bit (open_flag x) 11" using r unfolding tx_ready_def by blast
    then show ?thesis
    proof cases
      case int
      then show ?thesis using r
        by (intro exI [of _ "open_flag x AND NOT RT_DEVICE_FLAG_INT_TX"])
           (auto simp: serial_close_tx_def serial_flag_bits tx_ready_def rt_assert_def bit_simps)
    next
      case dma
      then show ?thesis using r
        by (intro exI [of _ "open_flag x AND NOT RT_DEVICE_FLAG_DMA_TX"])
           (auto simp: serial_close_tx_def serial_flag_bits tx_ready_def rt_assert_def bit_simps)
    next
      case poll
      then show ?thesis by (intro exI [of _ "open_flag x"]) (simp add: serial_close_tx_def serial_flag_bits)
    qed
  qed
  then show ?thesis using that by blast
qed

lemma rx_ready_cong: "bit w 8 = bit (open_flag x) 8 \<Longrightarrow> bit w 9 = bit (open_flag x) 9 \<Longrightarrow> serial_rx s' = serial_rx s \<Longrightarrow>
    rx_ready (x\<lparr>open_flag := w\<rparr>) s' = rx_ready x s"
  by (simp add: rx_ready_def)

lemma tx_ready_cong: "bit w 10 = bit (open_flag x) 10 \<Longrightarrow> bit w 11 = bit (open_flag x) 11 \<Longrightarrow> serial_tx s' = serial_tx s \<Longrightarrow>
    tx_ready (x\<lparr>open_flag := w\<rparr>) s' = tx_ready x s"
  by (simp add: tx_ready_def)

lemma is_activated_open_flag [simp]: "is_activated (x\<lparr>open_flag := w\<rparr>) = is_activated x"
  by (simp add: is_activated_def)

lemma rt_serial_open_spec:
  assumes ok: "serial_ok (x, s, k)" and m: "\<And>n. m n" and act: "is_activated x"
  shows "\<exists>e x' s' k'. rt_serial_open u m q0 c oflag (x, s, k) = Some (e, x', s', k') \<and> serial_ok (x', s', k') \<and>
    kept d (x, s, k) (x', s', k') \<and> (e \<noteq> RT_EOK \<and> e \<noteq> - RT_ENOSYS \<longrightarrow> is_open x' = is_open x)"
proof (cases "lacks RT_DEVICE_FLAG_DMA_RX oflag x \<or> lacks RT_DEVICE_FLAG_DMA_TX oflag x \<or>
    lacks RT_DEVICE_FLAG_INT_RX oflag x \<or> lacks RT_DEVICE_FLAG_INT_TX oflag x")
  case True
  then have "rt_serial_open u m q0 c oflag (x, s, k) = Some (- RT_EIO, x, s, k)" by (auto simp: rt_serial_open_def)
  then show ?thesis using ok by (auto simp: kept_def)
next
  case False
  let ?x = "x\<lparr>open_flag := oflag AND 0xff\<rparr>"
  let ?stream = "if oflag AND RT_DEVICE_FLAG_STREAM \<noteq> 0 \<or> open_flag x AND RT_DEVICE_FLAG_STREAM \<noteq> 0
    then RT_DEVICE_FLAG_STREAM else 0"
  have f: "\<not> bit (open_flag ?x) 8" "\<not> bit (open_flag ?x) 9" "\<not> bit (open_flag ?x) 10" "\<not> bit (open_flag ?x) 11"
    by (simp_all add: bit_simps)
  obtain w1 s1 where r: "serial_open_rx u m oflag (?x, s, k) = Some (?x\<lparr>open_flag := w1\<rparr>, s1, k)"
      "rx_ready (?x\<lparr>open_flag := w1\<rparr>) s1" "\<not> bit w1 10" "\<not> bit w1 11"
    using serial_open_rx_spec [of m ?x u oflag s k, OF m f(1,2)] f(3,4) by blast
  obtain w2 s2 k2 where t: "serial_open_tx u m q0 c oflag (x\<lparr>open_flag := w1\<rparr>, s1, k) = Some (x\<lparr>open_flag := w2\<rparr>, s2, k2)"
      "tx_ready (x\<lparr>open_flag := w2\<rparr>) s2" "serial_rx s2 = serial_rx s1" "bit w2 8 = bit w1 8" "bit w2 9 = bit w1 9" "objs k2 = objs k"
    using serial_open_tx_spec [of m "x\<lparr>open_flag := w1\<rparr>" u q0 c oflag s1 k, OF m] r(3,4) by auto
  let ?w = "w2 OR ?stream"
  have b: "bit ?w 8 = bit w2 8" "bit ?w 9 = bit w2 9" "bit ?w 10 = bit w2 10" "bit ?w 11 = bit w2 11"
    by (simp_all add: bit_simps)
  have "rx_ready (x\<lparr>open_flag := ?w\<rparr>) s2" using r(2) t(3,4,5) b(1,2) by (simp add: rx_ready_def)
  moreover have "tx_ready (x\<lparr>open_flag := ?w\<rparr>) s2" using t(2) b(3,4) by (simp add: tx_ready_def)
  moreover have "rt_serial_open u m q0 c oflag (x, s, k) = Some (RT_EOK, x\<lparr>open_flag := ?w\<rparr>, s2, k2)"
    using False r(1) t(1) by (simp add: rt_serial_open_def Let_def)
  ultimately show ?thesis using act t(6) by (auto simp: serial_ok_def kept_def)
qed

lemma rt_serial_close_spec:
  assumes ok: "serial_ok (x, s, k)"
  shows "\<exists>x' s'. rt_serial_close u (x, s, k) = Some (RT_EOK, x', s', k) \<and> serial_ok (x', s', k) \<and>
    kept d (x, s, k) (x', s', k)"
proof (cases "ref_count x > 1")
  case True
  then show ?thesis using ok by (auto simp: rt_serial_close_def kept_def)
next
  case False
  have rd: "rx_ready x s" "tx_ready x s" using ok by (simp_all add: serial_ok_def)
  obtain w1 s1 where r: "serial_close_rx u (x, s, k) = Some (x\<lparr>open_flag := w1\<rparr>, s1, k)" "serial_tx s1 = serial_tx s"
      "\<not> bit w1 8" "\<not> bit w1 9" "bit w1 10 = bit (open_flag x) 10" "bit w1 11 = bit (open_flag x) 11"
    using serial_close_rx_spec [OF rd(1)] .
  let ?x1 = "x\<lparr>open_flag := w1\<rparr>"
  have tx: "tx_ready ?x1 s1" using rd(2) r(2,5,6) by (simp add: tx_ready_cong)
  obtain w2 s2 where t: "serial_close_tx u (?x1, s1, k) = Some (?x1\<lparr>open_flag := w2\<rparr>, s2, k)"
      "serial_rx s2 = serial_rx s1" "\<not> bit w2 10" "\<not> bit w2 11" "bit w2 8 = bit (open_flag ?x1) 8"
      "bit w2 9 = bit (open_flag ?x1) 9"
    using serial_close_tx_spec [OF tx] .
  then show ?thesis using False r(1,3,4)
    by (auto simp: rt_serial_close_def serial_ok_def rx_ready_def tx_ready_def kept_def)
qed

text \<open>The serial driver keeps the interface of the device layer, whatever the chip does, while there is memory.\<close>

lemma serial_device_driver:
  assumes conf: "\<And>f cfg v. configure u = Some f \<Longrightarrow> fst (f cfg v) \<noteq> - RT_ENOSYS" and m: "\<And>n. m n"
  shows "device_driver (serial_ops u m q0 c) d serial_ok"
proof (unfold_locales, goal_cases)
  case (1 f x s k)
  then have "rt_serial_init u = f" "\<not> bit (open_flag x) 8" "\<not> bit (open_flag x) 9" "\<not> bit (open_flag x) 10"
      "\<not> bit (open_flag x) 11"
    by (simp_all add: serial_ops_def serial_ok_def)
  moreover have "fst (a (config s) (uart s)) \<noteq> - RT_ENOSYS" if "configure u = Some a" for a by (rule conf [OF that])
  ultimately show ?case
    by (cases "configure u")
       (auto simp: rt_serial_init_def serial_ok_def rx_ready_def tx_ready_def kept_def Let_def split: prod.split
         dest: sym)
next
  case (2 g x s k oflag)
  then show ?case using rt_serial_open_spec [of x s k m u q0 c oflag d, OF _ m] by (simp add: serial_ops_def)
next
  case (3 f x s k)
  then show ?case using rt_serial_close_spec [of x s k u d] by (auto simp: serial_ops_def)
qed (auto simp: serial_ok_def rx_ready_def tx_ready_def bit_simps serial_ops_def is_activated_def)

section \<open>Receiving through the interrupt\<close>

text \<open>The chip has the characters \<open>bs\<close> and then no more.\<close>

inductive delivers :: "'u rt_uart_ops \<Rightarrow> 'u \<Rightarrow> u8 list \<Rightarrow> 'u \<Rightarrow> bool" for u where
  delivers_none: "getc u v = (-1, v') \<Longrightarrow> delivers u v [] v'"
| delivers_char: "getc u v = (ch, v1) \<Longrightarrow> ch \<noteq> -1 \<Longrightarrow> delivers u v1 bs v' \<Longrightarrow> delivers u v (word_of_int ch # bs) v'"

inductive_cases delivers_NilE: "delivers u v [] v'"
inductive_cases delivers_ConsE: "delivers u v (b # bs) v'"

lemma isr_drain_spec:
  assumes "delivers u v bs v'" and "rx_holds sz f xs"
  shows "\<exists>f'. isr_drain u sz (f, v) = Some (f', v') \<and> rx_holds sz f' (keep_last (unat sz - 1) (xs @ bs))"
  using assms
proof (induction arbitrary: f xs rule: delivers.induct)
  case (delivers_none v v')
  then have "length xs < unat sz" unfolding rx_holds_def by blast
  then have "length xs \<le> unat sz - 1" by simp
  then show ?case using delivers_none by (simp add: isr_drain.simps keep_last_fits)
next
  case (delivers_char v ch v1 bs v')
  obtain f1 where f1: "rx_push sz (word_of_int ch) f = Some f1"
      "rx_holds sz f1 (keep_last (unat sz - 1) (xs @ [word_of_int ch]))"
    using rx_push_spec [OF delivers_char.prems] .
  obtain f' where "isr_drain u sz (f1, v1) = Some (f', v')"
      "rx_holds sz f' (keep_last (unat sz - 1) (keep_last (unat sz - 1) (xs @ [word_of_int ch]) @ bs))"
    using delivers_char.IH [OF f1(2)] by blast
  then show ?case using delivers_char.hyps(1,2) f1(1) keep_last_append [of "unat sz - 1" "xs @ [word_of_int ch]" bs]
    by (simp add: isr_drain.simps)
qed

lemma isr_rx_length_pos:
  assumes h: "rx_holds sz f xs" and ne: "xs \<noteq> []"
  shows "isr_rx_length sz f \<noteq> 0"
proof -
  have "unat (isr_rx_length sz f) = length xs" unfolding isr_rx_length_def
    by (rule index_distance) (use h in \<open>simp_all add: rx_holds_def\<close>)
  then show ?thesis using ne by (metis length_0_conv unat_0)
qed

text \<open>
  The interrupt takes all characters from the chip into the buffer, which keeps the latest; the function registered
  by the file interface wakes the thread that sleeps in the wait queue.
\<close>

lemma isr_rx_ind_spec:
  assumes f: "serial_rx s = Some (Rx_fifo f)" and h: "rx_holds (bufsz (config s)) f xs" and v: "delivers u (uart s) bs v'"
  defines "ys \<equiv> keep_last (unat (bufsz (config s)) - 1) (xs @ bs)"
  obtains f' where "rx_holds (bufsz (config s)) f' ys"
    and "isr_rx_ind u ind (x, s, k) =
      (let s' = s\<lparr>serial_rx := Some (Rx_fifo f'), uart := v'\<rparr> in
       if rx_indicate x = None \<or> isr_rx_length (bufsz (config s)) f' = 0 then Some (x, s', k)
       else ind (the (rx_indicate x)) (isr_rx_length (bufsz (config s)) f') (x, s', k))"
proof -
  obtain f' where f': "isr_drain u (bufsz (config s)) (f, uart s) = Some (f', v')" "rx_holds (bufsz (config s)) f' ys"
    using isr_drain_spec [OF v h] unfolding ys_def by blast
  then show ?thesis using f that by (auto simp: isr_rx_ind_def Let_def split: option.splits)
qed

lemma fops_read_data:
  assumes f: "serial_rx s = Some (Rx_fifo f)" and h: "rx_holds (bufsz (config s)) f ys" and ne: "ys \<noteq> []"
    and int: "bit (open_flag x) 8" and dev: "is_device d k" and cnt: "count \<noteq> 0" and r: "ref_count x \<noteq> 0"
  obtains f' where "serial_fops_read (serial_ops u m q0 c) d eagain fl n buf count (x, s, k) =
      Some (Returned (int (min (unat count) (length ys))), x, s\<lparr>serial_rx := Some (Rx_fifo f')\<rparr>,
        k\<lparr>mem := store_bytes buf (take (unat count) ys) (mem k)\<rparr>)"
    and "rx_holds (bufsz (config s)) f' (drop (unat count) ys)"
proof -
  let ?r = "min (unat count) (length ys)"
  obtain f' where f': "serial_int_rx (bufsz (config s)) buf (unat count) (f, mem k) =
      Some (?r, f', store_bytes buf (take (unat count) ys) (mem k))" "rx_holds (bufsz (config s)) f' (drop (unat count) ys)"
    using serial_int_rx_spec [OF h] by blast
  let ?st = "(x, s\<lparr>serial_rx := Some (Rx_fifo f')\<rparr>, k\<lparr>mem := store_bytes buf (take (unat count) ys) (mem k)\<rparr>)"
  have read: "rt_device_read (serial_ops u m q0 c) d (- 1) buf count (x, s, k) = Some (Returned (of_nat ?r), ?st)"
    using f f'(1) int dev cnt r
    by (simp add: rt_device_read_def device_transfer_def serial_ops_def rt_serial_read_def serial_flag_bits rt_assert_def)
  have "unat (bufsz (config s)) < 2 ^ LENGTH(16)" by (rule unsigned_less)
  then have lt: "length ys < 65536" using h by (simp add: rx_holds_def)
  have pos: "0 < ?r" using ne cnt by (simp add: unat_gt_0)
  have "signed_take_bit 31 (int ?r) = int ?r"
    by (rule signed_take_bit_int_eq_self) (use lt in simp_all)
  then have "sint (of_nat ?r :: u32) = int ?r" by (simp add: signed_of_nat)
  then show ?thesis using that f'(2) read pos by (simp add: serial_fops_read.simps)
qed

lemma serial_reader_woken_spec:
  assumes f: "serial_rx s = Some (Rx_fifo f)" and h: "rx_holds (bufsz (config s)) f xs" and v: "delivers u (uart s) bs v'"
    and bs: "bs \<noteq> []" and int: "bit (open_flag x) 8" and r: "ref_count x \<noteq> 0" and dev: "is_device d k"
    and ind: "rx_indicate x = Some Serial_fops_rx_ind" and k: "kinv k" and cur: "rt_current_thread k \<noteq> None"
    and w: "waiting_list (wait_queue x) = [n]" "wakeup (wq_node (wait_queue x) n) = Wqueue_default_wake"
      "polling_thread (wq_node (wait_queue x) n) = t" "tstat k t = RT_THREAD_SUSPEND" and cnt: "count \<noteq> 0"
  defines "ys \<equiv> keep_last (unat (bufsz (config s)) - 1) (xs @ bs)"
  shows "\<exists>x1 s1 k1 f'. rt_hw_serial_isr u c (call_rx_indicate rw user) compl 1 (x, s, k) = Some (x1, s1, k1) \<and>
    kinv k1 \<and> runnable k1 t \<and> ThreadTimer t \<notin> set (rt_timer_list k1) \<and>
    serial_fops_read_resume (serial_ops u m q0 c) d eagain fl n buf count (x1, s1, k1) =
      Some (Returned (int (min (unat count) (length ys))),
        x1\<lparr>wait_queue := (wait_queue x)\<lparr>wq_flag := 0, waiting_list := []\<rparr>\<rparr>,
        s1\<lparr>serial_rx := Some (Rx_fifo f')\<rparr>, k1\<lparr>mem := store_bytes buf (take (unat count) ys) (mem k)\<rparr>) \<and>
    rx_holds (bufsz (config s)) f' (drop (unat count) ys)"
proof -
  obtain f1 where f1: "rx_holds (bufsz (config s)) f1 ys"
      "isr_rx_ind u (call_rx_indicate rw user) (x, s, k) =
        (let s' = s\<lparr>serial_rx := Some (Rx_fifo f1), uart := v'\<rparr> in
         if rx_indicate x = None \<or> isr_rx_length (bufsz (config s)) f1 = 0 then Some (x, s', k)
         else call_rx_indicate rw user (the (rx_indicate x)) (isr_rx_length (bufsz (config s)) f1) (x, s', k))"
    using isr_rx_ind_spec [OF f h v, of "call_rx_indicate rw user" x k] unfolding ys_def by blast
  have "2 \<le> unat (bufsz (config s))" using h by (simp add: rx_holds_def word_le_nat_alt)
  then have "0 < length ys" using bs by (simp add: ys_def)
  then have ne: "ys \<noteq> []" by simp
  let ?s1 = "s\<lparr>serial_rx := Some (Rx_fifo f1), uart := v'\<rparr>" and ?q = "wait_queue x"
  have "wqueue_wake rw n POLLIN ?q = 0" using w(2) by (simp add: wqueue_wake_def)
  then obtain k1 where k1: "rt_wqueue_wakeup rw POLLIN (?q, k) = Some (?q\<lparr>wq_flag := RT_WQ_FLAG_WAKEUP, waiting_list := []\<rparr>, k1)"
      "kinv k1" "runnable k1 t" "ThreadTimer t \<notin> set (rt_timer_list k1)" "mem k1 = mem k"
      "\<And>d. objs k1 (ODevice d) = objs k (ODevice d)"
    using rt_wqueue_wakeup_spec(2) [OF k cur, of ?q "[]" n "[]" rw POLLIN t] w by auto
  let ?x1 = "x\<lparr>wait_queue := ?q\<lparr>wq_flag := RT_WQ_FLAG_WAKEUP, waiting_list := []\<rparr>\<rparr>"
  let ?x2 = "x\<lparr>wait_queue := ?q\<lparr>wq_flag := 0, waiting_list := []\<rparr>\<rparr>"
  have isr: "rt_hw_serial_isr u c (call_rx_indicate rw user) compl 1 (x, s, k) = Some (?x1, ?s1, k1)"
    using f1(2) ind isr_rx_length_pos [OF f1(1) ne] k1(1)
    by (simp add: rt_hw_serial_isr_def call_rx_indicate_def serial_fops_rx_ind_def Let_def)
  have dev1: "is_device d k1" using dev k1(6) by (simp add: is_device_def rt_object_get_type_def)
  obtain f2 where f2: "serial_fops_read (serial_ops u m q0 c) d eagain fl n buf count (?x2, ?s1, k1) =
      Some (Returned (int (min (unat count) (length ys))), ?x2, ?s1\<lparr>serial_rx := Some (Rx_fifo f2)\<rparr>,
        k1\<lparr>mem := store_bytes buf (take (unat count) ys) (mem k1)\<rparr>)"
      "rx_holds (bufsz (config s)) f2 (drop (unat count) ys)"
    using fops_read_data [of ?s1 f1 ys ?x2 d k1 count u m q0 c eagain fl n buf] f1(1) ne int dev1 cnt r by auto
  have "serial_fops_read_resume (serial_ops u m q0 c) d eagain fl n buf count (?x1, ?s1, k1) =
      serial_fops_read (serial_ops u m q0 c) d eagain fl n buf count (?x2, ?s1, k1)"
    by (simp add: serial_fops_read_resume_def rt_wqueue_wait_resume_def rt_wqueue_remove_def)
  then show ?thesis using isr k1(2-5) f2 by auto
qed

text \<open>
  C38. The way of a received character: the interrupt takes what the chip delivers into the receive buffer, which
  keeps the latest \<^verbatim>\<open>bufsz - 1\<close> bytes, and wakes the thread that sleeps in a read of the device file; the
  thread can run, its timeout is cancelled, and when it runs its read returns the oldest bytes, as many as
  were asked for, in the caller's memory; the rest stays in the buffer and the wait queue is as before the read.
\<close>

theorem serial_reader_woken:
  assumes "serial_rx s = Some (Rx_fifo f)" and "rx_holds (bufsz (config s)) f xs" and "delivers u (uart s) bs v'"
    and "bs \<noteq> []" and "bit (open_flag x) 8" and "ref_count x \<noteq> 0" and "is_device d k"
    and "rx_indicate x = Some Serial_fops_rx_ind" and "kinv k" and "rt_current_thread k \<noteq> None"
    and "waiting_list (wait_queue x) = [n]" and "wakeup (wq_node (wait_queue x) n) = Wqueue_default_wake"
    and "polling_thread (wq_node (wait_queue x) n) = t" and "tstat k t = RT_THREAD_SUSPEND" and "count \<noteq> 0"
    and "ys = keep_last (unat (bufsz (config s)) - 1) (xs @ bs)"
  shows "\<exists>x1 s1 k1 f'. rt_hw_serial_isr u c (call_rx_indicate rw user) compl 1 (x, s, k) = Some (x1, s1, k1) \<and>
    kinv k1 \<and> runnable k1 t \<and> ThreadTimer t \<notin> set (rt_timer_list k1) \<and>
    serial_fops_read_resume (serial_ops u m q0 c) d eagain fl n buf count (x1, s1, k1) =
      Some (Returned (int (min (unat count) (length ys))),
        x1\<lparr>wait_queue := (wait_queue x)\<lparr>wq_flag := 0, waiting_list := []\<rparr>\<rparr>,
        s1\<lparr>serial_rx := Some (Rx_fifo f')\<rparr>, k1\<lparr>mem := store_bytes buf (take (unat count) ys) (mem k)\<rparr>) \<and>
    rx_holds (bufsz (config s)) f' (drop (unat count) ys)"
  using serial_reader_woken_spec [OF assms(1-15)] unfolding assms(16) .

definition list_uart :: "u8 list rt_uart_ops" where
  "list_uart = \<lparr>configure = None, uart_control = (\<lambda>cmd arg v. (0, v)), putc = (\<lambda>ch v. (0, v)),
     getc = (\<lambda>v. case v of [] \<Rightarrow> (-1, []) | b # bs \<Rightarrow> (uint b, bs)), dma_transmit = None\<rparr>"

definition example_serial :: "'u \<Rightarrow> 'u rt_serial_device" where
  "example_serial v = \<lparr>config = \<lparr>baud_rate = 115200, data_bits = 8, stop_bits = 0, parity = 0, bit_order = 0, invert = 0,
     bufsz = 4, reserved = 0\<rparr>, serial_rx = Some (Rx_fifo (new_rx_fifo 4)), serial_tx = None, uart = v\<rparr>"

definition example_reader :: rt_device where
  "example_reader = zero_device\<lparr>open_flag := 0x109, ref_count := 1, rx_indicate := Some Serial_fops_rx_ind,
     wait_queue := \<lparr>wq_flag = 0, waiting_list = [7], wq_node = (\<lambda>_. \<lparr>polling_thread = 3, wakeup = Wqueue_default_wake, key = 0\<rparr>)\<rparr>\<rparr>"

theorem serial_reader_woken_witness:
  "\<exists>x1 s1 k1 x2 s2. rt_hw_serial_isr list_uart 0 (call_rx_indicate (\<lambda>_ _ _. 0) (\<lambda>_ _ st. Some st)) (\<lambda>_ _ st. Some st) 1
      (example_reader, example_serial [65, 66, 67, 68], example_kernel) = Some (x1, s1, k1) \<and> runnable k1 3 \<and>
    serial_fops_read_resume (serial_ops list_uart (\<lambda>_. True) None 0) 0 11 0 7 0x20001000 2 (x1, s1, k1) =
      Some (Returned 2, x2, s2, k1\<lparr>mem := store_bytes 0x20001000 [66, 67] (mem example_kernel)\<rparr>)"
proof -
  let ?s = "example_serial [65, 66, 67, 68]" and ?q = "wait_queue example_reader"
  have f: "serial_rx ?s = Some (Rx_fifo (new_rx_fifo 4))" by (simp add: example_serial_def)
  have h: "rx_holds (bufsz (config ?s)) (new_rx_fifo 4) []"
    by (simp add: rx_holds_def example_serial_def new_rx_fifo_def)
  have "delivers list_uart [] [] []" by (rule delivers_none) (simp add: list_uart_def)
  moreover have step: "delivers list_uart (b # bs) (b # bs) []" if "delivers list_uart bs bs []" for b :: u8 and bs
    using delivers_char [of list_uart "b # bs" "uint b" bs bs "[]"] that
    by (simp add: list_uart_def) (metis uint_ge_0 not_one_le_zero neg_0_le_iff_le)
  ultimately have v: "delivers list_uart (uart ?s) [65, 66, 67, 68] []" by (simp add: example_serial_def)
  have x: "bit (open_flag example_reader) 8" "ref_count example_reader \<noteq> 0"
      "rx_indicate example_reader = Some Serial_fops_rx_ind" "waiting_list ?q = [7]"
      "wakeup (wq_node ?q 7) = Wqueue_default_wake" "polling_thread (wq_node ?q 7) = 3"
    by (simp_all add: example_reader_def)
  have dev: "is_device 0 example_kernel" by (simp add: is_device_def rt_object_get_type_def example_objs_def)
  have k: "rt_current_thread example_kernel \<noteq> None" "tstat example_kernel 3 = RT_THREAD_SUSPEND" by simp_all
  have ys: "[66, 67, 68] = keep_last (unat (bufsz (config ?s)) - 1) ([] @ [65, 66, 67, 68 :: u8])"
    by (simp add: keep_last_def example_serial_def)
  from serial_reader_woken [OF f h v _ x(1,2) dev x(3) kinv_example k(1) x(4,5,6) k(2) _ ys,
      of 2 0 "\<lambda>_ _ _. 0" "\<lambda>_ _ st. Some st" "\<lambda>_ _ st. Some st" "\<lambda>_. True" None 11 0 "0x20001000"]
  show ?thesis by (force simp: unat_numeral)
qed

section \<open>Sending by DMA\<close>

text \<open>The driver has the blocks \<open>xs\<close> queued; \<open>a\<close> says whether the hardware is busy with the first.\<close>

definition tx_holds :: "'u rt_serial_device \<Rightarrow> bool \<Rightarrow> rt_data_item list \<Rightarrow> u16 \<Rightarrow> bool" where
  "tx_holds s a xs p \<longleftrightarrow> (\<exists>q. serial_tx s = Some (Tx_dma a q) \<and> dq_inv q \<and> queued q = xs \<and> dq_size q = 8 \<and> put_index q = p)"

lemma tx_push:
  assumes h: "tx_holds s a xs p" and room: "length xs < 8" "p \<noteq> 0xffff" and w: "nobody_waits c k"
  obtains s' where "dma_tx_push c d l (s, k) = Some (Returned RT_EOK, s', k)"
    "tx_holds s' a (xs @ [\<lparr>data_ptr = d, data_size = l\<rparr>]) (p + 1)" "uart s' = uart s"
proof -
  let ?x = "\<lparr>data_ptr = d, data_size = l\<rparr>"
  obtain q where q: "serial_tx s = Some (Tx_dma a q)" "dq_inv q" "queued q = xs" "dq_size q = 8" "put_index q = p"
    using h by (auto simp: tx_holds_def)
  obtain q' where q': "dq_put ?x q = Some q'" "dq_inv q'" "queued q' = xs @ [?x]" "dq_size q' = 8"
    using dq_put_spec [OF q(2), of ?x] room q(3,4,5) by (auto elim!: returnsE)
  have p': "put_index q' = p + 1" using q'(1) q(5) by (auto simp: dq_put_def rt_assert_def Let_def split: if_splits)
  have "RT_DATAQUEUE_SIZE q \<noteq> uint (dq_size q)" using dq_full_empty(2) [OF q(2)] q(3,4) room(1) by simp
  then have "rt_data_queue_push c ?x RT_WAITING_FOREVER (q, k) = Some (Returned (RT_EOK, notify q' RT_DATAQUEUE_EVENT_PUSH), q', k)"
    using w q'(1) by (simp add: rt_data_queue_push_def push_loop_def nobody_waits_def)
  then show ?thesis using q(1) q'(2-4) p'
    by (intro that [of "s\<lparr>serial_tx := Some (Tx_dma a q')\<rparr>"]) (simp_all add: dma_tx_push_def tx_holds_def)
qed

lemma tx_kick:
  assumes h: "tx_holds s a xs p" and f: "dma_transmit u = Some f"
  obtains s' where "dma_tx_kick u d l s = Some s'" "tx_holds s' True xs p"
    "uart s' = (if a then uart s else f d l RT_SERIAL_DMA_TX (uart s))"
  using assms that by (cases a) (auto simp: tx_holds_def dma_tx_kick_def)

lemma tx_done:
  assumes h: "tx_holds s a (x # xs) p" and f: "dma_transmit u = Some f" and w: "nobody_waits c k" and nc: "tx_complete dv = None"
  obtains s' where "rt_hw_serial_isr u c ind compl 4 (dv, s, k) = Some (dv, s', k)" "tx_holds s' (xs \<noteq> []) xs p"
    "uart s' = (if xs = [] then uart s else f (data_ptr (hd xs)) (data_size (hd xs)) RT_SERIAL_DMA_TX (uart s))"
proof -
  obtain q where q: "serial_tx s = Some (Tx_dma a q)" "dq_inv q" "queued q = x # xs" "dq_size q = 8" "put_index q = p"
    using h by (auto simp: tx_holds_def)
  obtain q' where q': "dq_take q = Some (x, q')" "dq_inv q'" "queued q' = xs" "dq_size q' = 8" "put_index q' = p"
    using dq_take_spec(1) [OF q(2)] q(3,4,5) by (auto elim!: returnsE)
  have ne: "get_index q \<noteq> put_index q" using dq_full_empty(4) [OF q(2)] q(3) by simp
  obtain ev where pop: "rt_data_queue_pop c 0 (q, k) = Some (Returned (RT_EOK, Some x, ev), q', k)"
    using ne q'(1) w by (cases "RT_DATAQUEUE_SIZE q' \<le> uint (lwm q')") (auto simp: rt_data_queue_pop_def pop_loop_def nobody_waits_def)
  show ?thesis
  proof (cases xs)
    case Nil
    then have "get_index q' = put_index q'" using dq_full_empty(4) [OF q'(2)] q'(3) by simp
    then show ?thesis using q(1) q' pop nc Nil
      by (intro that [of "s\<lparr>serial_tx := Some (Tx_dma False q')\<rparr>"])
         (simp_all add: rt_hw_serial_isr_def isr_tx_dmadone_def rt_data_queue_peak_def tx_holds_def)
  next
    case (Cons y ys)
    then have "get_index q' \<noteq> put_index q'" "dq_front q' = Some y"
      using dq_full_empty(4) [OF q'(2)] dq_take_spec(2) [OF q'(2)] q'(3) by simp_all
    then show ?thesis using q(1) q' pop nc Cons f
      by (intro that [of "s\<lparr>serial_tx := Some (Tx_dma True q'), uart := f (data_ptr y) (data_size y) RT_SERIAL_DMA_TX (uart s)\<rparr>"])
         (simp_all add: rt_hw_serial_isr_def isr_tx_dmadone_def rt_data_queue_peak_def tx_holds_def)
  qed
qed

text \<open>A write in one piece, and the two interrupts that end a queue of two blocks.\<close>

lemma tx_write:
  assumes h: "tx_holds s a xs p" and room: "length xs < 8" "p \<noteq> 0xffff" and w: "nobody_waits c k" and f: "dma_transmit u = Some f"
  obtains s' where "serial_dma_tx u c d l (s, k) = Some (Returned l, s', k)"
    "tx_holds s' True (xs @ [\<lparr>data_ptr = d, data_size = l\<rparr>]) (p + 1)"
    "uart s' = (if a then uart s else f d l RT_SERIAL_DMA_TX (uart s))"
proof -
  obtain s1 where s1: "dma_tx_push c d l (s, k) = Some (Returned RT_EOK, s1, k)"
      "tx_holds s1 a (xs @ [\<lparr>data_ptr = d, data_size = l\<rparr>]) (p + 1)" "uart s1 = uart s"
    using tx_push [OF h room w] .
  obtain s2 where "dma_tx_kick u d l s1 = Some s2" "tx_holds s2 True (xs @ [\<lparr>data_ptr = d, data_size = l\<rparr>]) (p + 1)"
      "uart s2 = (if a then uart s1 else f d l RT_SERIAL_DMA_TX (uart s1))"
    using tx_kick [OF s1(2) f] .
  with s1 show ?thesis by (intro that [of s2]) (simp_all add: serial_dma_tx_def)
qed

lemma tx_done_two:
  assumes h: "tx_holds s a [x, y] p" and f: "dma_transmit u = Some f" and w: "nobody_waits c k" and nc: "tx_complete dv = None"
  obtains s1 s2 where "rt_hw_serial_isr u c ind compl 4 (dv, s, k) = Some (dv, s1, k)"
    "uart s1 = f (data_ptr y) (data_size y) RT_SERIAL_DMA_TX (uart s)"
    "rt_hw_serial_isr u c ind compl 4 (dv, s1, k) = Some (dv, s2, k)" "uart s2 = uart s1" "tx_holds s2 False [] p"
proof -
  obtain s1 where s1: "rt_hw_serial_isr u c ind compl 4 (dv, s, k) = Some (dv, s1, k)" "tx_holds s1 True [y] p"
      "uart s1 = f (data_ptr y) (data_size y) RT_SERIAL_DMA_TX (uart s)"
    using tx_done [OF h f w nc] by auto
  obtain s2 where "rt_hw_serial_isr u c ind compl 4 (dv, s1, k) = Some (dv, s2, k)" "tx_holds s2 False [] p" "uart s2 = uart s1"
    using tx_done [OF s1(2) f w nc] by auto
  with s1 show ?thesis by (intro that)
qed

text \<open>
  C39. Two threads write to an idle port by DMA. When each write runs in one piece, the hardware is given
  the first block and, when that is done, the second. When the second thread preempts the first between the
  queueing of its block and the start of the hardware, the hardware is given the second block twice and the
  first one never, although both writes return their full length.
\<close>

theorem serial_dma_tx_race:
  assumes "tx_holds s False [] p" and "unat p < 0xfffe" and "nobody_waits c k" and "dma_transmit u = Some f" and "tx_complete x = None"
  shows "(\<exists>s1 s2 s3 s4. serial_dma_tx u c d1 l1 (s, k) = Some (Returned l1, s1, k) \<and>
      serial_dma_tx u c d2 l2 (s1, k) = Some (Returned l2, s2, k) \<and>
      rt_hw_serial_isr u c ind compl 4 (x, s2, k) = Some (x, s3, k) \<and>
      uart s3 = f d2 l2 RT_SERIAL_DMA_TX (f d1 l1 RT_SERIAL_DMA_TX (uart s)) \<and>
      rt_hw_serial_isr u c ind compl 4 (x, s3, k) = Some (x, s4, k) \<and> uart s4 = uart s3 \<and> tx_holds s4 False [] (p + 2)) \<and>
    (\<exists>s1 s2 s3 s4 s5. dma_tx_push c d1 l1 (s, k) = Some (Returned RT_EOK, s1, k) \<and>
      serial_dma_tx u c d2 l2 (s1, k) = Some (Returned l2, s2, k) \<and> dma_tx_kick u d1 l1 s2 = Some s3 \<and>
      rt_hw_serial_isr u c ind compl 4 (x, s3, k) = Some (x, s4, k) \<and>
      uart s4 = f d2 l2 RT_SERIAL_DMA_TX (f d2 l2 RT_SERIAL_DMA_TX (uart s)) \<and>
      rt_hw_serial_isr u c ind compl 4 (x, s4, k) = Some (x, s5, k) \<and> uart s5 = uart s4 \<and> tx_holds s5 False [] (p + 2))"
proof -
  let ?A = "\<lparr>data_ptr = d1, data_size = l1\<rparr>" and ?B = "\<lparr>data_ptr = d2, data_size = l2\<rparr>"
  have p: "p \<noteq> 0xffff" "p + 1 \<noteq> 0xffff"
  proof -
    show "p \<noteq> 0xffff" using assms(2) by auto
    have "unat (p + 1) = unat p + 1" using assms(2) by (simp add: unat_word_ariths)
    then show "p + 1 \<noteq> 0xffff" using assms(2) by (auto simp: word_unat_eq_iff)
  qed
  have pp: "p + 1 + 1 = p + 2" by simp
  note w = assms(3) and f = assms(4) and nc = assms(5)
  obtain a1 where a1: "serial_dma_tx u c d1 l1 (s, k) = Some (Returned l1, a1, k)" "tx_holds a1 True [?A] (p + 1)"
      "uart a1 = f d1 l1 RT_SERIAL_DMA_TX (uart s)"
    using tx_write [OF assms(1) _ p(1) w f] by auto
  obtain a2 where a2: "serial_dma_tx u c d2 l2 (a1, k) = Some (Returned l2, a2, k)" "tx_holds a2 True [?A, ?B] (p + 2)" "uart a2 = uart a1"
    using tx_write [OF a1(2) _ p(2) w f] by (auto simp: pp)
  obtain a3 a4 where a: "rt_hw_serial_isr u c ind compl 4 (x, a2, k) = Some (x, a3, k)"
      "uart a3 = f d2 l2 RT_SERIAL_DMA_TX (f d1 l1 RT_SERIAL_DMA_TX (uart s))"
      "rt_hw_serial_isr u c ind compl 4 (x, a3, k) = Some (x, a4, k)" "uart a4 = uart a3" "tx_holds a4 False [] (p + 2)"
    using tx_done_two [OF a2(2) f w nc, of ind compl] a2(3) a1(3) by auto
  obtain b1 where b1: "dma_tx_push c d1 l1 (s, k) = Some (Returned RT_EOK, b1, k)" "tx_holds b1 False [?A] (p + 1)" "uart b1 = uart s"
    using tx_push [OF assms(1) _ p(1) w] by auto
  obtain b2 where b2: "serial_dma_tx u c d2 l2 (b1, k) = Some (Returned l2, b2, k)" "tx_holds b2 True [?A, ?B] (p + 2)"
      "uart b2 = f d2 l2 RT_SERIAL_DMA_TX (uart s)"
    using tx_write [OF b1(2) _ p(2) w f] b1(3) by (auto simp: pp)
  obtain b3 where b3: "dma_tx_kick u d1 l1 b2 = Some b3" "tx_holds b3 True [?A, ?B] (p + 2)" "uart b3 = uart b2"
    using tx_kick [OF b2(2) f] by auto
  obtain b4 b5 where b: "rt_hw_serial_isr u c ind compl 4 (x, b3, k) = Some (x, b4, k)"
      "uart b4 = f d2 l2 RT_SERIAL_DMA_TX (f d2 l2 RT_SERIAL_DMA_TX (uart s))"
      "rt_hw_serial_isr u c ind compl 4 (x, b4, k) = Some (x, b5, k)" "uart b5 = uart b4" "tx_holds b5 False [] (p + 2)"
    using tx_done_two [OF b3(2) f w nc, of ind compl] b3(3) b2(3) by auto
  show ?thesis
    by (rule conjI) (use a1(1) a2(1) a in blast, use b1(1) b2(1) b3(1) b in blast)
qed

theorem serial_dma_tx_race_witness:
  "\<exists>s s1 s2 s3 s4 u. serial_tx s = Some (Tx_dma False \<lparr>dq_size = 8, lwm = 4, get_index = 0, put_index = 0,
       items = replicate 8 \<lparr>data_ptr = 0, data_size = 0\<rparr>, evt_notify = False\<rparr>) \<and>
     dma_tx_push 0 0x100 5 (s, example_kernel) = Some (Returned RT_EOK, s1, example_kernel) \<and>
     serial_dma_tx u 0 0x200 6 (s1, example_kernel) = Some (Returned 6, s2, example_kernel) \<and>
     dma_tx_kick u 0x100 5 s2 = Some s3 \<and>
     rt_hw_serial_isr u 0 (\<lambda>_ _ st. Some st) (\<lambda>_ _ st. Some st) 4 (zero_device, s3, example_kernel) =
       Some (zero_device, s4, example_kernel) \<and> uart s = [] \<and> uart s4 = [(0x200, 6), (0x200, 6 :: u32) :: u32 \<times> u32]"
proof -
  let ?q = "\<lparr>dq_size = 8, lwm = 4, get_index = 0, put_index = 0,
       items = replicate 8 \<lparr>data_ptr = 0, data_size = 0\<rparr>, evt_notify = False\<rparr>"
  let ?s = "(example_serial [])\<lparr>serial_tx := Some (Tx_dma False ?q)\<rparr> :: (u32 \<times> u32) list rt_serial_device"
  let ?f = "\<lambda>d l _ v. (d, l) # v :: (u32 \<times> u32) list"
  let ?u = "\<lparr>configure = None, uart_control = (\<lambda>cmd arg v. (0, v)), putc = (\<lambda>ch v. (0, v)), getc = (\<lambda>v. (-1, v)),
      dma_transmit = Some ?f\<rparr> :: (u32 \<times> u32) list rt_uart_ops"
  have h: "tx_holds ?s False [] 0" by (simp add: tx_holds_def dq_inv_def queued_def)
  have w: "nobody_waits 0 example_kernel" by (simp add: nobody_waits_def)
  have "dma_transmit ?u = Some ?f" "tx_complete zero_device = None" by (simp_all add: zero_device_def)
  from serial_dma_tx_race [OF h _ w this, of "0x100" 5 "0x200" 6 "\<lambda>_ _ st. Some st" "\<lambda>_ _ st. Some st"]
  obtain s1 s2 s3 s4 where "dma_tx_push 0 0x100 5 (?s, example_kernel) = Some (Returned RT_EOK, s1, example_kernel)"
      "serial_dma_tx ?u 0 0x200 6 (s1, example_kernel) = Some (Returned 6, s2, example_kernel)"
      "dma_tx_kick ?u 0x100 5 s2 = Some s3"
      "rt_hw_serial_isr ?u 0 (\<lambda>_ _ st. Some st) (\<lambda>_ _ st. Some st) 4 (zero_device, s3, example_kernel) =
        Some (zero_device, s4, example_kernel)"
      "uart s4 = ?f 0x200 6 RT_SERIAL_DMA_TX (?f 0x200 6 RT_SERIAL_DMA_TX (uart ?s))"
    by auto
  then show ?thesis by (intro exI [of _ ?s] exI [of _ s1] exI [of _ s2] exI [of _ s3] exI [of _ s4] exI [of _ ?u])
      (simp add: example_serial_def)
qed

section \<open>Reopening with another buffer size\<close>

text \<open>
  A second open without \<^verbatim>\<open>RT_DEVICE_FLAG_INT_RX\<close> takes the flag of the first away, so that the last close leaves the
  receive buffer allocated. The size may be changed now that nobody has the device open, and the next open
  keeps the old buffer: the interrupt writes behind its end.
\<close>

lemma serial_reopen_keeps_buffer:
  assumes dev: "is_device d k" and m: "\<And>n. m n" and rx: "serial_rx s = None" and tx: "serial_tx s = None"
    and x: "dev_flag x = 0x113" "open_flag x = 0" "ref_count x = 0"
    and ops: "ops = serial_ops u m q0 c"
  shows "\<exists>x1 s1 x2 s2 x3 s3. rt_device_open ops d 0x101 (x, s, k) = Some (RT_EOK, x1, s1, k) \<and>
    rt_device_open ops d 0x001 (x1, s1, k) = Some (RT_EOK, x2, s2, k) \<and>
    device_run ops d [Dev_close, Dev_close] 2 (x2, s2, k) = Some (0, x3, s3, k) \<and>
    (\<exists>s4 x5 s5. rt_device_control ops d RT_DEVICE_CTRL_CONFIG (Arg_config (Some cfg)) (x3, s3, k) = Some (RT_EOK, x3, s4, k) \<and>
      rt_device_open ops d 0x101 (x3, s4, k) = Some (RT_EOK, x5, s5, k) \<and>
      serial_rx s5 = Some (Rx_fifo (new_rx_fifo (bufsz (config s)))) \<and> config s5 = cfg)"
proof -
  note d = rt_device_open_def rt_device_close_def activate_def ops serial_ops_def rt_serial_open_def lacks_def
    serial_open_rx_def serial_open_tx_def rt_assert_def rt_serial_close_def serial_close_rx_def serial_close_tx_def
    rt_device_control_def rt_serial_control_def serial_control_rest_def Let_def
  let ?s1 = "uart_ctl u RT_DEVICE_CTRL_SET_INT RT_DEVICE_FLAG_INT_RX (s\<lparr>serial_rx := Some (Rx_fifo (new_rx_fifo (bufsz (config s))))\<rparr>)"
  let ?x1 = "x\<lparr>open_flag := 0x109, ref_count := 1\<rparr>" and ?x2 = "x\<lparr>open_flag := 0x009, ref_count := 2\<rparr>"
  let ?x3 = "x\<lparr>open_flag := 0, ref_count := 0\<rparr>"
  have 1: "rt_device_open ops d 0x101 (x, s, k) = Some (RT_EOK, ?x1, ?s1\<lparr>serial_tx := None\<rparr>, k)"
    using dev m rx tx x by (simp add: d)
  have 2: "rt_device_open ops d 0x001 (?x1, ?s1\<lparr>serial_tx := None\<rparr>, k) = Some (RT_EOK, ?x2, ?s1\<lparr>serial_tx := None\<rparr>, k)"
    using dev m rx tx x by (simp add: d)
  have 3: "device_run ops d [Dev_close, Dev_close] 2 (?x2, ?s1\<lparr>serial_tx := None\<rparr>, k) = Some (0, ?x3, ?s1\<lparr>serial_tx := None\<rparr>, k)"
    using dev m rx tx x by (simp add: d)
  have 4: "rt_device_control ops d RT_DEVICE_CTRL_CONFIG (Arg_config (Some cfg)) (?x3, ?s1\<lparr>serial_tx := None\<rparr>, k) =
      Some (RT_EOK, ?x3, ?s1\<lparr>serial_tx := None, config := cfg\<rparr>, k)"
    using dev m rx tx x by (simp add: d)
  have 5: "rt_device_open ops d 0x101 (?x3, ?s1\<lparr>serial_tx := None, config := cfg\<rparr>, k) =
      Some (RT_EOK, ?x1, ?s1\<lparr>serial_tx := None, config := cfg\<rparr>, k)"
    using dev m rx tx x by (simp add: d)
  show ?thesis using 1 2 3 4 5 by fastforce
qed

lemma rx_push_outside: "length (rx_buffer f) \<le> unat (rx_put_index f) \<Longrightarrow> rx_push sz ch f = None"
  by (simp add: rx_push_def rt_assert_def)

lemma old_buffer_overrun:
  assumes "sz < sz'"
  shows "rx_run sz' (replicate (Suc (unat sz)) (Received ch)) (new_rx_fifo sz) = None"
proof -
  have "rx_run sz' (replicate (Suc j) (Received ch)) f = None"
    if "rx_get_index f = 0" "unat (rx_put_index f) + j = unat sz" "length (rx_buffer f) = unat sz" for j f
    using that
  proof (induction j arbitrary: f)
    case 0
    then show ?case by (simp add: rx_push_outside)
  next
    case (Suc j)
    let ?p = "rx_put_index f"
    have lt: "?p < sz" using Suc.prems(2) by (simp add: word_less_nat_alt)
    have p1: "unat (?p + 1) = Suc (unat ?p)" by (rule unat_Suc_less [OF lt])
    have "\<not> sz' \<le> ?p + 1" using p1 Suc.prems(2) assms by (simp add: word_le_nat_alt word_less_nat_alt)
    moreover have "?p + 1 \<noteq> 0" using p1 by auto
    ultimately have "rx_push sz' ch f = Some (f\<lparr>rx_buffer := (rx_buffer f)[unat ?p := ch], rx_put_index := ?p + 1\<rparr>)"
      using Suc.prems by (simp add: rx_push_def rt_assert_def Let_def)
    then show ?case using Suc.IH [of "f\<lparr>rx_buffer := (rx_buffer f)[unat ?p := ch], rx_put_index := ?p + 1\<rparr>"] p1 Suc.prems
      by simp
  qed
  from this [of "new_rx_fifo sz" "unat sz"] show ?thesis by (simp add: new_rx_fifo_def)
qed

text \<open>
  Closing one of several descriptors of the device file takes the notification away from the others: from then on
  the interrupt wakes nobody.
\<close>

lemma fops_close_silences:
  assumes "is_device d k" and "1 < ref_count x"
  shows "\<exists>x'. serial_fops_close ops d (x, s, k) = Some (0, x', s, k) \<and> ref_count x' = ref_count x - 1 \<and>
    rx_indicate x' = None \<and> (\<forall>f. serial_rx s = Some (Rx_fifo f) \<longrightarrow> (\<forall>v' bs xs. delivers u (uart s) bs v' \<longrightarrow>
      rx_holds (bufsz (config s)) f xs \<longrightarrow> (\<exists>s'. isr_rx_ind u ind (x', s, k) = Some (x', s', k))))"
proof -
  have n: "ref_count x \<noteq> 0" "ref_count x - 1 \<noteq> 0" using assms(2) by auto
  let ?x = "x\<lparr>rx_indicate := None, ref_count := ref_count x - 1\<rparr>"
  have "serial_fops_close ops d (x, s, k) = Some (0, ?x, s, k)"
    using assms(1) n by (simp add: serial_fops_close_def rt_device_set_rx_indicate_def rt_device_close_def rt_assert_def)
  moreover have "\<exists>s'. isr_rx_ind u ind (?x, s, k) = Some (?x, s', k)"
    if "serial_rx s = Some (Rx_fifo f)" "delivers u (uart s) bs v'" "rx_holds (bufsz (config s)) f xs" for f v' bs xs
    using isr_rx_ind_spec [OF that(1,3,2), of ind ?x k] by (auto simp: Let_def)
  ultimately show ?thesis by auto
qed

end
