(* ===== verification/Usart.thy ===== *)
theory Usart
  imports Serial Clock
begin

text \<open>
  The serial port of the board: the chip functions of \<^verbatim>\<open>hyhwUart.c\<close> and the driver \<^verbatim>\<open>bsp/stm32f10x/drivers/usart.c\<close>
  that gives them to the serial framework. It is the instance on which the interface of the device
  layer rests; it does not do what it is meant to do.
\<close>

section \<open>The code\<close>

text \<open>
  The registers the code uses. What is on the line stands for the data register: a read takes the next character
  received, a write sends one. The masked interrupt status has the receive bit while a character is there and
  its interrupt is not masked.
\<close>

record usart =
  IBRD :: u32
  FBRD :: u32
  LCR_H :: u32
  CR :: u32
  IMSC :: u32
  ICR :: u32
  DMACR :: u32
  rx_line :: "u8 list"
  tx_line :: "u8 list"

abbreviation (input) USART_IT_RX :: u16 where "USART_IT_RX \<equiv> 0x0010"
abbreviation (input) USART_IT_TX :: u16 where "USART_IT_TX \<equiv> 0x0020"
abbreviation (input) UART_IRQn :: u16 where "UART_IRQn \<equiv> 10"
abbreviation (input) hyhwUart_DataBits_5 :: u32 where "hyhwUart_DataBits_5 \<equiv> 0x00"
abbreviation (input) hyhwUart_DataBits_8 :: u32 where "hyhwUart_DataBits_8 \<equiv> 0x60"
abbreviation (input) hyhwUart_StopBits_1 :: u32 where "hyhwUart_StopBits_1 \<equiv> 0x00"
abbreviation (input) hyhwUart_StopBits_2 :: u32 where "hyhwUart_StopBits_2 \<equiv> 0x08"

definition MIS :: "usart \<Rightarrow> u32" where
  "MIS v = (if rx_line v \<noteq> [] then ucast USART_IT_RX else 0) AND IMSC v"

definition read_DR :: "usart \<Rightarrow> u8 \<times> usart" where
  "read_DR v = (case rx_line v of [] \<Rightarrow> (0, v) | ch # rest \<Rightarrow> (ch, v\<lparr>rx_line := rest\<rparr>))"

text \<open>
  The divisor is computed in 32 bits; a division by zero gives zero on this processor. The rate is at least 38
  for the product not to overflow.
\<close>

definition hyhwUart_Init :: "u32 \<Rightarrow> u32 \<Rightarrow> u32 \<Rightarrow> u32 \<Rightarrow> usart \<Rightarrow> usart" where
  "hyhwUart_Init baudrate databits stopbits par v =
     (let v = v\<lparr>CR := 0\<rparr>;
          d = ((80000000 div baudrate) * 1000) div 16;
          v = v\<lparr>IBRD := d div 1000\<rparr>;
          v = v\<lparr>FBRD := ((d mod 1000) * 64 + 500) div 1000\<rparr>;
          v = v\<lparr>LCR_H := databits OR stopbits OR par\<rparr>;
          v = v\<lparr>ICR := 0\<rparr>;
          v = v\<lparr>IMSC := 0\<rparr>;
          v = v\<lparr>CR := 0x0200 OR 0x0100 OR 0x0001 OR 0x8000 OR 0x4000\<rparr>
      in v\<lparr>DMACR := 0x02\<rparr>)"

definition hyhwUart_DeInit :: "usart \<Rightarrow> usart" where
  "hyhwUart_DeInit v =
     (let v = v\<lparr>CR := 0\<rparr>;
          v = v\<lparr>ICR := 0\<rparr>;
          v = v\<lparr>IMSC := 0\<rparr>;
          v = v\<lparr>CR := 0\<rparr>
      in v\<lparr>DMACR := 0x02\<rparr>)"

definition hyhwUart_IntConfig :: "u16 \<Rightarrow> bool \<Rightarrow> usart \<Rightarrow> usart" where
  "hyhwUart_IntConfig it enable v =
     (if enable then v\<lparr>IMSC := IMSC v OR ucast it\<rparr> else v\<lparr>IMSC := IMSC v AND NOT (ucast it)\<rparr>)"

text \<open>The wait for the transmitter ends because the chip sends on its own.\<close>

definition hyhwUart_SendCh :: "u8 \<Rightarrow> usart \<Rightarrow> int \<times> usart" where
  "hyhwUart_SendCh ch v = (0, v\<lparr>tx_line := tx_line v @ [ch]\<rparr>)"

definition hyhwUart_IRQ :: "usart \<Rightarrow> usart" where
  "hyhwUart_IRQ v =
     (if MIS v AND ucast USART_IT_RX \<noteq> 0 then (case read_DR v of (ch, v) \<Rightarrow> snd (hyhwUart_SendCh ch v)) else v)"

text \<open>The casts between the enumerations are those of the code: the numbers are kept.\<close>

definition stm32_configure :: "serial_configure \<Rightarrow> usart \<Rightarrow> rt_err_t \<times> usart" where
  "stm32_configure cfg v =
     (let v = hyhwUart_Init (baud_rate cfg) (ucast (data_bits cfg)) (ucast (stop_bits cfg)) (ucast (parity cfg)) v;
          v = hyhwUart_IntConfig USART_IT_RX True v;
          v = hyhwUart_IntConfig USART_IT_TX True v
      in (RT_EOK, v))"

definition stm32_control :: "int \<Rightarrow> serial_arg \<Rightarrow> usart \<Rightarrow> rt_err_t \<times> usart" where
  "stm32_control cmd arg v =
     (if cmd = RT_DEVICE_CTRL_CLR_INT then (RT_EOK, hyhwUart_IntConfig UART_IRQn False v)
      else if cmd = RT_DEVICE_CTRL_SET_INT then (RT_EOK, hyhwUart_IntConfig UART_IRQn True v)
      else (RT_EOK, v))"

definition stm32_putc :: "u8 \<Rightarrow> usart \<Rightarrow> int \<times> usart" where
  "stm32_putc ch v = hyhwUart_SendCh ch v"

definition stm32_getc :: "usart \<Rightarrow> int \<times> usart" where
  "stm32_getc v =
     (if MIS v AND ucast USART_IT_RX \<noteq> 0 then (case read_DR v of (ch, v) \<Rightarrow> (uint ch, v)) else (-1, v))"

definition cm3_uart_ops :: "usart rt_uart_ops" where
  "cm3_uart_ops = \<lparr>configure = Some stm32_configure, uart_control = stm32_control, putc = stm32_putc,
     getc = stm32_getc, dma_transmit = None\<rparr>"

definition uart_isr :: "usart sstate \<Rightarrow> usart sstate" where
  "uart_isr = (\<lambda>(x, s, k). (x, s\<lparr>uart := hyhwUart_IRQ (uart s)\<rparr>, k))"

definition USART1_IRQHandler :: "usart sstate \<Rightarrow> usart sstate" where
  "USART1_IRQHandler = (\<lambda>(x, s, k).
     let k = rt_interrupt_enter k
     in case uart_isr (x, s, k) of (x, s, k) \<Rightarrow> (x, s, rt_interrupt_leave k))"

section \<open>A driver of the device layer\<close>

text \<open>Every sequence of opens and closes of the port passes without a failed assertion while there is memory.\<close>

interpretation uart1: device_driver "serial_ops cm3_uart_ops (\<lambda>_. True) q0 c" d serial_ok for q0 c d
  by (rule serial_device_driver) (auto simp: cm3_uart_ops_def stm32_configure_def Let_def)

lemma uart1_open_close:
  assumes "is_device d k" and "opens cs \<le> 255"
  shows "\<exists>x' s' k'. device_run (serial_ops cm3_uart_ops (\<lambda>_. True) q0 c) d cs 0 (zero_device\<lparr>dev_flag := fl\<rparr>, s, k) =
      Some (unat (ref_count x'), x', s', k') \<and> serial_ok (x', s', k')"
proof -
  let ?x = "zero_device\<lparr>dev_flag := fl\<rparr>"
  have ok: "serial_ok (?x, s, k)" by (simp add: serial_ok_def rx_ready_def tx_ready_def zero_device_def)
  have o: "is_open ?x \<longleftrightarrow> ref_count ?x \<noteq> 0" by (simp add: is_open_def zero_device_def)
  have z: "unat (ref_count ?x) = 0" by (simp add: zero_device_def)
  show ?thesis
    using uart1.device_run_spec [OF ok assms(1) o, where cs = cs] assms(2) unfolding z by simp blast
qed

section \<open>What it does not do\<close>

lemma IMSC_rx_bit:
  "IMSC (snd (stm32_control cmd arg v)) AND ucast USART_IT_RX = IMSC v AND ucast USART_IT_RX"
proof -
  have "(IMSC v AND NOT 10) AND 16 = IMSC v AND (16 :: u32)" "(IMSC v OR 10) AND 16 = IMSC v AND (16 :: u32)"
    by (simp_all add: and.assoc bit.conj_disj_distrib2)
  then show ?thesis by (simp add: stm32_control_def hyhwUart_IntConfig_def)
qed

lemma uart1_echo:
  assumes "rx_line v = ch # rest" and "IMSC v AND ucast USART_IT_RX \<noteq> 0"
  shows "hyhwUart_IRQ v = v\<lparr>rx_line := rest, tx_line := tx_line v @ [ch]\<rparr>"
proof -
  have "((ucast USART_IT_RX :: u32) AND IMSC v) AND ucast USART_IT_RX \<noteq> 0"
    using assms(2) by (simp add: and.commute and.left_commute)
  then show ?thesis using assms by (simp add: hyhwUart_IRQ_def MIS_def read_DR_def hyhwUart_SendCh_def)
qed

fun irqs :: "nat \<Rightarrow> usart sstate \<Rightarrow> usart sstate" where
  "irqs 0 st = st"
| "irqs (Suc n) st = irqs n (USART1_IRQHandler st)"

lemma irqs_spec:
  assumes "rx_line (uart s) = bs @ rest" and "IMSC (uart s) AND ucast USART_IT_RX \<noteq> 0"
  shows "irqs (length bs) (x, s, k) =
    (x, s\<lparr>uart := (uart s)\<lparr>rx_line := rest, tx_line := tx_line (uart s) @ bs\<rparr>\<rparr>, k)"
  using assms
proof (induction bs arbitrary: s)
  case (Cons b bs)
  let ?v = "(uart s)\<lparr>rx_line := bs @ rest, tx_line := tx_line (uart s) @ [b]\<rparr>"
  have "USART1_IRQHandler (x, s, k) = (x, s\<lparr>uart := ?v\<rparr>, k)"
    using uart1_echo [of "uart s" b "bs @ rest"] Cons.prems
    by (simp add: USART1_IRQHandler_def uart_isr_def rt_interrupt_enter_def rt_interrupt_leave_def)
  then show ?case using Cons.IH [of "s\<lparr>uart := ?v\<rparr>"] Cons.prems by simp
qed simp

text \<open>
  C40. The serial port of the board as configured. (1) The frame written to the chip for eight data bits and one
  stop bit is the number 8, which in the chip's own encoding means five data bits and two stop bits. (2) The control
  function, meant to switch the receive interrupt on and off, leaves its bit as it is, because it uses the
  interrupt's number for the mask. (3) The interrupt handler sends every received character back and never calls
  the framework: a device opened with \<^verbatim>\<open>RT_DEVICE_FLAG_INT_RX\<close> reads nothing, however much has come.
  (4) A write to a device opened with \<^verbatim>\<open>RT_DEVICE_FLAG_DMA_TX\<close>, which the port offers, calls a null pointer.
\<close>

theorem uart1_defects:
  assumes "rx_line (uart s) = bs @ rest" and "IMSC (uart s) AND ucast USART_IT_RX \<noteq> 0"
    and "serial_rx s = Some (Rx_fifo f)" and "rx_holds (bufsz (config s)) f []" and "bit (open_flag x) 8"
    and "is_device d k" and "ref_count x \<noteq> 0"
    and "tx_holds s' False [] 0" and "nobody_waits c k" and "sz \<noteq> 0" and "bit (open_flag x') 11" and "\<not> bit (open_flag x') 10"
  shows "(data_bits cfg = 8 \<and> stop_bits cfg = 0 \<and> parity cfg = 0 \<longrightarrow>
      LCR_H (snd (stm32_configure cfg v)) = hyhwUart_DataBits_5 OR hyhwUart_StopBits_2 \<and>
      LCR_H (snd (stm32_configure cfg v)) \<noteq> hyhwUart_DataBits_8 OR hyhwUart_StopBits_1) \<and>
    IMSC (snd (stm32_control cmd arg v)) AND ucast USART_IT_RX = IMSC v AND ucast USART_IT_RX \<and>
    (\<exists>s1. irqs (length bs) (x, s, k) = (x, s1, k) \<and> tx_line (uart s1) = tx_line (uart s) @ bs \<and>
      rt_device_read (serial_ops cm3_uart_ops m q0 c) d pos buf n (x, s1, k) = Some (Returned 0, x, s1, k)) \<and>
    rt_serial_write cm3_uart_ops c pos buf sz (x', s', k) = None"
proof (intro conjI impI)
  show "LCR_H (snd (stm32_configure cfg v)) = hyhwUart_DataBits_5 OR hyhwUart_StopBits_2"
    and "LCR_H (snd (stm32_configure cfg v)) \<noteq> hyhwUart_DataBits_8 OR hyhwUart_StopBits_1"
    if "data_bits cfg = 8 \<and> stop_bits cfg = 0 \<and> parity cfg = 0"
    using that by (simp_all add: stm32_configure_def hyhwUart_Init_def hyhwUart_IntConfig_def Let_def)
  show "IMSC (snd (stm32_control cmd arg v)) AND ucast USART_IT_RX = IMSC v AND ucast USART_IT_RX" by (rule IMSC_rx_bit)
  let ?s1 = "s\<lparr>uart := (uart s)\<lparr>rx_line := rest, tx_line := tx_line (uart s) @ bs\<rparr>\<rparr>"
  have i: "irqs (length bs) (x, s, k) = (x, ?s1, k)" by (rule irqs_spec [OF assms(1,2)])
  have e: "rx_empty f" by (rule rx_pop_spec(1) [OF assms(4)]) simp
  have r0: "serial_int_rx (bufsz (config s)) buf j (f, mem k) = Some (0, f, mem k)" for j
    using e by (cases j) simp_all
  have "rt_device_read (serial_ops cm3_uart_ops m q0 c) d pos buf n (x, ?s1, k) = Some (Returned 0, x, ?s1, k)"
  proof -
    have "?s1\<lparr>serial_rx := Some (Rx_fifo f)\<rparr> = ?s1" using assms(3) by simp
    then show ?thesis using assms(3,5-7) r0
      by (simp add: rt_device_read_def device_transfer_def serial_ops_def rt_serial_read_def serial_flag_bits rt_assert_def)
  qed
  with i show "\<exists>s1. irqs (length bs) (x, s, k) = (x, s1, k) \<and> tx_line (uart s1) = tx_line (uart s) @ bs \<and>
      rt_device_read (serial_ops cm3_uart_ops m q0 c) d pos buf n (x, s1, k) = Some (Returned 0, x, s1, k)" by simp
  obtain a1 where a1: "dma_tx_push c buf sz (s', k) = Some (Returned RT_EOK, a1, k)"
      "tx_holds a1 False [\<lparr>data_ptr = buf, data_size = sz\<rparr>] (0 + 1)"
    using tx_push [OF assms(8) _ _ assms(9), of buf sz] by auto
  have "dma_tx_kick cm3_uart_ops buf sz a1 = None"
    using a1(2) by (auto simp: tx_holds_def dma_tx_kick_def cm3_uart_ops_def)
  then show "rt_serial_write cm3_uart_ops c pos buf sz (x', s', k) = None"
    using assms(10-12) a1(1) by (simp add: rt_serial_write_def serial_flag_bits serial_dma_tx_def)
qed

definition example_usart :: usart where
  "example_usart = \<lparr>IBRD = 43, FBRD = 26, LCR_H = 8, CR = 0xc301, IMSC = 0x30, ICR = 0, DMACR = 2, rx_line = [104, 105],
     tx_line = []\<rparr>"

definition example_dma_serial :: "usart rt_serial_device" where
  "example_dma_serial = (example_serial example_usart)\<lparr>serial_tx := Some (Tx_dma False \<lparr>dq_size = 8, lwm = 4, get_index = 0,
     put_index = 0, items = replicate 8 \<lparr>data_ptr = 0, data_size = 0\<rparr>, evt_notify = False\<rparr>)\<rparr>"

theorem uart1_defects_witness:
  "\<exists>s1. irqs 2 (example_reader, example_serial example_usart, example_kernel) = (example_reader, s1, example_kernel) \<and>
     tx_line (uart s1) = [104, 105] \<and>
     rt_device_read (serial_ops cm3_uart_ops (\<lambda>_. True) None 0) 0 0 0x100 4 (example_reader, s1, example_kernel) =
       Some (Returned 0, example_reader, s1, example_kernel) \<and>
     rt_serial_write cm3_uart_ops 0 0 0x100 4 (example_reader\<lparr>open_flag := 0x80b\<rparr>, example_dma_serial, example_kernel) = None"
proof -
  let ?s = "example_serial example_usart" and ?x' = "example_reader\<lparr>open_flag := 0x80b\<rparr>"
  have 1: "rx_line (uart ?s) = [104, 105] @ []" "IMSC (uart ?s) AND ucast USART_IT_RX \<noteq> 0"
    "serial_rx ?s = Some (Rx_fifo (new_rx_fifo 4))" "rx_holds (bufsz (config ?s)) (new_rx_fifo 4) []"
    by (simp_all add: example_serial_def example_usart_def new_rx_fifo_holds)
  have 2: "bit (open_flag example_reader) 8" "is_device 0 example_kernel" "ref_count example_reader \<noteq> 0"
    by (simp_all add: example_reader_def is_device_def rt_object_get_type_def example_objs_def)
  have 3: "tx_holds example_dma_serial False [] 0" "nobody_waits 0 example_kernel" "(4 :: u32) \<noteq> 0"
    "bit (open_flag ?x') 11" "\<not> bit (open_flag ?x') 10"
    by (simp_all add: tx_holds_def dq_inv_def queued_def nobody_waits_def example_dma_serial_def)
  have 4: "length [104, 105 :: u8] = 2" "tx_line (uart ?s) @ [104, 105] = [104, 105]"
    by (simp_all add: example_serial_def example_usart_def)
  from uart1_defects [OF 1 2 3, of "config ?s" example_usart 0 "Arg_word 0" "\<lambda>_. True" None 0 "0x100" 4, unfolded 4]
  show ?thesis by blast
qed

end
