(* ===== verification/Console.thy ===== *)
theory Console
  imports Kprintf Usart
begin

text \<open>
  The console of \<^verbatim>\<open>src/kservice.c\<close>: the device that \<^verbatim>\<open>rt_kprintf\<close> writes to, and what becomes of a line
  printed on the serial port of the board. Devices are numbered, each with its functions; \<^verbatim>\<open>rt_hw_console_output\<close>
  is the empty function of the source, which the board does not replace.
\<close>

section \<open>The code\<close>

record 's console =
  console_device :: "nat option"
  devs :: "nat \<Rightarrow> rt_device \<times> 's"

type_synonym 's cstate = "'s console \<times> kernel"

definition on_dev :: "nat \<Rightarrow> ('s dstate \<Rightarrow> ('r \<times> 's dstate) option) \<Rightarrow> 's cstate \<Rightarrow> ('r \<times> 's cstate) option" where
  "on_dev d f = (\<lambda>(con, k). case devs con d of (x, s) \<Rightarrow> do {
     (r, x, s, k) \<leftarrow> f (x, s, k);
     Some (r, con\<lparr>devs := (devs con)(d := (x, s))\<rparr>, k)
   })"

definition set_open_flag :: "nat \<Rightarrow> u16 \<Rightarrow> 's console \<Rightarrow> 's console" where
  "set_open_flag d w con = (case devs con d of (x, s) \<Rightarrow> con\<lparr>devs := (devs con)(d := (x\<lparr>open_flag := w\<rparr>, s))\<rparr>)"

definition rt_console_get_device :: "'s console \<Rightarrow> nat option" where
  "rt_console_get_device con = console_device con"

definition rt_console_set_device ::
    "(nat \<Rightarrow> ('s, 'a) device_ops) \<Rightarrow> u8 list \<Rightarrow> 's cstate \<Rightarrow> (nat option \<times> 's cstate) option" where
  "rt_console_set_device ops nm = (\<lambda>(con, k). do {
     let old = console_device con;
     (new, k) \<leftarrow> rt_device_find nm k;
     case new of
       Some (ODevice d) \<Rightarrow> do {
         (con, k) \<leftarrow> (case console_device con of
             Some o' \<Rightarrow> map_option snd (on_dev o' (rt_device_close (ops o') o') (con, k))
           | None \<Rightarrow> Some (con, k));
         (_, con, k) \<leftarrow> on_dev d (rt_device_open (ops d) d (0x003 OR RT_DEVICE_FLAG_STREAM)) (con, k);
         Some (old, con\<lparr>console_device := Some d\<rparr>, k)
       }
     | _ \<Rightarrow> Some (old, con, k)
   })"

text \<open>
  The common end of \<^verbatim>\<open>rt_kputs\<close> and \<^verbatim>\<open>rt_kprintf\<close>. When the write of the driver lets the thread sleep, the result is
  the open flag that the code puts back afterwards.
\<close>

definition console_write ::
    "(nat \<Rightarrow> ('s, 'a) device_ops) \<Rightarrow> u32 \<Rightarrow> u32 \<Rightarrow> 's cstate \<Rightarrow> (u16 option \<times> 's cstate) option" where
  "console_write ops buf n = (\<lambda>(con, k).
     case console_device con of
       None \<Rightarrow> Some (None, con, k)
     | Some d \<Rightarrow> do {
         let old_flag = open_flag (fst (devs con d));
         let con = set_open_flag d (old_flag OR RT_DEVICE_FLAG_STREAM) con;
         (r, con, k) \<leftarrow> on_dev d (rt_device_write (ops d) d 0 buf n) (con, k);
         Some (case r of
             Returned _ \<Rightarrow> (None, set_open_flag d old_flag con, k)
           | Suspended \<Rightarrow> (Some old_flag, con, k))
       })"

definition console_write_resume :: "nat \<Rightarrow> u16 \<Rightarrow> 's console \<Rightarrow> 's console" where
  "console_write_resume d old_flag con = set_open_flag d old_flag con"

definition rt_kputs ::
    "(nat \<Rightarrow> ('s, 'a) device_ops) \<Rightarrow> u32 \<Rightarrow> 's cstate \<Rightarrow> (u16 option \<times> 's cstate) option" where
  "rt_kputs ops str = (\<lambda>(con, k).
     if str = 0 then Some (None, con, k)
     else if console_device con = None then Some (None, con, k)
     else do {
       n \<leftarrow> mem_strlen str (mem k) 0;
       console_write ops str (of_nat n) (con, k)
     })"

abbreviation (input) RT_CONSOLEBUF_SIZE :: u32 where "RT_CONSOLEBUF_SIZE \<equiv> 128"

definition rt_kprintf ::
    "(nat \<Rightarrow> ('s, 'a) device_ops) \<Rightarrow> u32 \<Rightarrow> u8 list \<Rightarrow> va list \<Rightarrow> 's cstate \<Rightarrow> (u16 option \<times> 's cstate) option" where
  "rt_kprintf ops rt_log_buf fmt args = (\<lambda>(con, k). do {
     (n, m) \<leftarrow> rt_vsnprintf rt_log_buf (RT_CONSOLEBUF_SIZE - 1) fmt args (mem k);
     let len = (word_of_int n :: u32);
     let len = (if len > RT_CONSOLEBUF_SIZE - 1 then RT_CONSOLEBUF_SIZE - 1 else len);
     console_write ops rt_log_buf len (con, k\<lparr>mem := m\<rparr>)
   })"

section \<open>What is handed to the device\<close>

definition bytes_at :: "u32 \<Rightarrow> nat \<Rightarrow> memory \<Rightarrow> u8 list" where
  "bytes_at a n m = map (\<lambda>i. m (a + of_nat i)) [0..<n]"

lemma store_bytes_read:
  "length xs \<le> 2 ^ 32 \<Longrightarrow> i < length xs \<Longrightarrow> store_bytes a xs m (a + of_nat i) = xs ! i"
proof (induction xs rule: rev_induct)
  case (snoc x xs)
  have "a + of_nat i = a + of_nat (length xs) \<longleftrightarrow> i = length xs"
  proof -
    have "unat (of_nat i :: u32) = i" "unat (of_nat (length xs) :: u32) = length xs"
      using snoc.prems by (simp_all add: unat_of_nat)
    then show ?thesis by (metis add_left_cancel)
  qed
  then show ?case using snoc by (auto simp: nth_append simp flip: store_bytes_append)
qed simp

lemma bytes_at_store: "length xs \<le> 2 ^ 32 \<Longrightarrow> n \<le> length xs \<Longrightarrow> bytes_at a n (store_bytes a xs m) = take n xs"
  by (rule nth_equalityI) (simp_all add: bytes_at_def store_bytes_read)

lemma bytes_at_Suc: "bytes_at a (Suc n) m = m a # bytes_at (a + 1) n m"
  by (simp add: bytes_at_def upt_conv_Cons map_Suc_upt [symmetric] add.assoc del: upt_Suc map_Suc_upt)

text \<open>
  The text as the device gets it. When it does not fit the buffer of 128 bytes, of which the code offers 127 to the
  formatting, the device gets its first 126 characters and the terminating NUL.
\<close>

definition printed :: "u8 list \<Rightarrow> u8 list" where
  "printed out = (if length out < 127 then out else take 126 out @ [0])"

lemma rt_kprintf_eq:
  assumes "format_text fmt args = Some out" and "unat buf + 127 \<le> 2 ^ 32"
    and "unat buf + length out + length fmt < 2 ^ 32" and "length out + length fmt < 2 ^ 31"
  shows "\<exists>m'. rt_kprintf ops buf fmt args (con, k) =
      console_write ops buf (of_nat (length (printed out))) (con, k\<lparr>mem := m'\<rparr>) \<and>
    bytes_at buf (length (printed out)) m' = printed out"
proof -
  obtain n where n: "rt_vsnprintf buf 127 fmt args (mem k) = Some (n, store_bytes buf (take 126 out @ [0]) (mem k))"
      "length out < 127 \<longrightarrow> n = int (length out)" "127 \<le> length out \<longrightarrow> 127 \<le> n"
    using rt_vsnprintf_spec [OF _ _ assms(1,3,4), of 127 "mem k"] assms(2) by auto
  let ?m = "store_bytes buf (take 126 out @ [0]) (mem k)"
  have "n < 2 ^ 31" by (rule rt_vsnprintf_result [OF n(1)])
  have len: "(if (word_of_int n :: u32) > 127 then 127 else word_of_int n) = (of_nat (length (printed out)) :: u32)"
  proof (cases "length out < 127")
    case True
    then have "\<not> (127 :: u32) < of_nat (length out)" by (simp add: word_less_nat_alt unat_of_nat)
    then show ?thesis using True n(2) by (simp add: printed_def)
  next
    case False
    then have "uint (word_of_int n :: u32) = n" using n(3) \<open>n < 2 ^ 31\<close> by (simp add: uint_word_of_int)
    then have "(127 :: u32) < word_of_int n \<longleftrightarrow> n \<noteq> 127" using n(3) False by (auto simp: word_less_def)
    then show ?thesis using False by (auto simp: printed_def)
  qed
  have "bytes_at buf (length (printed out)) ?m = printed out"
    by (subst bytes_at_store) (auto simp: printed_def)
  moreover have "(127 :: u32) < word_of_int n \<Longrightarrow> (of_nat (length (printed out)) :: u32) = 127"
    "\<not> (127 :: u32) < word_of_int n \<Longrightarrow> (of_nat (length (printed out)) :: u32) = word_of_int n"
    using len by simp_all
  ultimately show ?thesis using n(1) by (intro exI [of _ ?m]) (simp add: rt_kprintf_def Let_def)
qed

section \<open>On the serial port of the board\<close>

text \<open>In stream mode a carriage return goes in front of every line feed.\<close>

fun crlf :: "u8 list \<Rightarrow> u8 list" where
  "crlf [] = []"
| "crlf (c # cs) = (if c = 10 then 13 # c # crlf cs else c # crlf cs)"

lemma uart1_poll_tx:
  "serial_poll_tx cm3_uart_ops True m a n v = v\<lparr>tx_line := tx_line v @ crlf (bytes_at a n m)\<rparr>"
proof (induction n arbitrary: a v)
  case 0
  then show ?case by (simp add: bytes_at_def)
next
  case (Suc n)
  then show ?case by (simp add: bytes_at_Suc cm3_uart_ops_def stm32_putc_def hyhwUart_SendCh_def)
qed

lemma configure_tx_line: "fst (stm32_configure cfg v) = 0" "tx_line (snd (stm32_configure cfg v)) = tx_line v"
  by (simp_all add: stm32_configure_def hyhwUart_Init_def hyhwUart_IntConfig_def Let_def)

text \<open>The first opening of the port, as a console.\<close>

lemma uart1_console_open:
  assumes "is_device d k" and "ref_count x = 0" and "open_flag x = 0" and "dev_flag x AND RT_DEVICE_FLAG_ACTIVATED = 0"
  obtains x' s' where "rt_device_open (serial_ops cm3_uart_ops m q0 c) d 0x043 (x, s, k) = Some (RT_EOK, x', s', k)"
    "ref_count x' = 1" "open_flag x' = 0x04b" "tx_line (uart s') = tx_line (uart s)"
proof -
  obtain v where v: "stm32_configure (config s) (uart s) = (0, v)" "tx_line v = tx_line (uart s)"
    using configure_tx_line [of "config s" "uart s"] by (cases "stm32_configure (config s) (uart s)") auto
  show ?thesis
    by (rule that [of "x\<lparr>dev_flag := dev_flag x OR RT_DEVICE_FLAG_ACTIVATED, open_flag := 0x04b, ref_count := 1\<rparr>"
          "s\<lparr>serial_rx := None, serial_tx := None, uart := v\<rparr>"])
       (use assms v in \<open>simp_all add: rt_device_open_def activate_def serial_ops_def rt_serial_init_def rt_serial_open_def
          lacks_def serial_open_rx_def serial_open_tx_def cm3_uart_ops_def Let_def\<close>)
qed

lemma uart1_console_write:
  assumes "is_device d k" and "ref_count x \<noteq> 0" and "open_flag x = 0x04b"
  shows "rt_device_write (serial_ops cm3_uart_ops m q0 c) d 0 buf (of_nat n) (x, s, k) =
    Some (Returned (of_nat n), x, s\<lparr>uart := (uart s)\<lparr>tx_line := tx_line (uart s) @ crlf (bytes_at buf (unat (of_nat n :: u32)) (mem k))\<rparr>\<rparr>, k)"
  using assms
  by (cases "of_nat n = (0 :: u32)")
     (simp_all add: rt_device_write_def device_transfer_def serial_ops_def rt_serial_write_def uart1_poll_tx bytes_at_def)

text \<open>
  C32. The way of a printed line. The console is set to the serial port, as the board does when it starts, and a line is
  printed: the port is found by its name and opened, the format is expanded into the log buffer, and the line arrives
  on the wire behind what was sent before, with a carriage return in front of each line feed. A line of 127
  characters or more is cut after 126, and the terminating NUL goes out with it.
\<close>

theorem uart_console_prints:
  assumes "kinv k" and "find_by_name RT_Object_Class_Device nm k = Some (ODevice d)" and "is_device d k"
    and "console_device con = None" and "devs con d = (x, s)" and "ref_count x = 0" and "open_flag x = 0"
    and "dev_flag x AND RT_DEVICE_FLAG_ACTIVATED = 0" and "ops d = serial_ops cm3_uart_ops m q0 c"
    and "format_text fmt args = Some out" and "unat buf + 127 \<le> 2 ^ 32"
    and "unat buf + length out + length fmt < 2 ^ 32" and "length out + length fmt < 2 ^ 31"
  shows "\<exists>con1 k1 con2 k2. rt_console_set_device ops nm (con, k) = Some (None, con1, k1) \<and>
    rt_kprintf ops buf fmt args (con1, k1) = Some (None, con2, k2) \<and>
    tx_line (uart (snd (devs con2 d))) = tx_line (uart s) @ crlf (if length out < 127 then out else take 126 out @ [0])"
proof -
  obtain k1 where k1: "rt_device_find nm k = Some (Some (ODevice d), k1)" "objs k1 = objs k"
    using rt_device_find_spec [OF assms(1), of nm] assms(2) by metis
  have dev: "is_device d k1" using assms(3) k1(2) by (simp add: is_device_def rt_object_get_type_def)
  obtain x' s' where o: "rt_device_open (serial_ops cm3_uart_ops m q0 c) d 0x043 (x, s, k1) = Some (RT_EOK, x', s', k1)"
      "ref_count x' = 1" "open_flag x' = 0x04b" "tx_line (uart s') = tx_line (uart s)"
    using uart1_console_open [OF dev assms(6-8)] .
  let ?con1 = "con\<lparr>devs := (devs con)(d := (x', s')), console_device := Some d\<rparr>"
  have set: "rt_console_set_device ops nm (con, k) = Some (None, ?con1, k1)"
    using k1(1) o(1) assms(4,5,9) by (simp add: rt_console_set_device_def on_dev_def Let_def)
  obtain m' where m': "rt_kprintf ops buf fmt args (?con1, k1) =
      console_write ops buf (of_nat (length (printed out))) (?con1, k1\<lparr>mem := m'\<rparr>)"
      "bytes_at buf (length (printed out)) m' = printed out"
    using rt_kprintf_eq [OF assms(10-13), of ops ?con1 k1] by blast
  have flag: "x'\<lparr>open_flag := 0x04b\<rparr> = x'" using o(3) by simp
  have dev': "is_device d (k1\<lparr>mem := m'\<rparr>)" using dev by (simp add: is_device_def rt_object_get_type_def)
  have small: "unat (of_nat (length (printed out)) :: u32) = length (printed out)" by (simp add: printed_def unat_of_nat)
  have "\<exists>con2 k2. console_write ops buf (of_nat (length (printed out))) (?con1, k1\<lparr>mem := m'\<rparr>) = Some (None, con2, k2) \<and>
      tx_line (uart (snd (devs con2 d))) = tx_line (uart s) @ crlf (printed out)"
    using uart1_console_write [OF dev', of x' m q0 c buf "length (printed out)" s'] o(2-4) assms(9) small m'(2)
    by (simp add: console_write_def set_open_flag_def on_dev_def flag)
  then show ?thesis using set m'(1) unfolding printed_def by auto
qed

definition example_console :: "usart rt_serial_device console" where
  "example_console = \<lparr>console_device = None, devs = (\<lambda>_. (zero_device, example_serial (example_usart)))\<rparr>"

definition device_kernel :: kernel where
  "device_kernel = example_kernel\<lparr>object_list := (\<lambda>c. if c = RT_Object_Class_Device then [ODevice 0] else [])\<rparr>"

lemma device_kernel_facts:
  "kinv device_kernel" "find_by_name RT_Object_Class_Device [] device_kernel = Some (ODevice 0)" "is_device 0 device_kernel"
proof -
  have k: "kinv (example_kernel\<lparr>objs := objs example_kernel, object_list := L\<rparr>)" for L
    by (rule kinv_objs [OF kinv_example]) simp_all
  have e: "device_kernel = example_kernel\<lparr>objs := objs example_kernel,
      object_list := (\<lambda>c. if c = RT_Object_Class_Device then [ODevice 0] else [])\<rparr>"
    by (simp add: device_kernel_def del: example_kernel_sel)
  show "kinv device_kernel" unfolding e by (rule k)
  show "find_by_name RT_Object_Class_Device [] device_kernel = Some (ODevice 0)" "is_device 0 device_kernel"
    by (simp_all add: device_kernel_def find_by_name_def is_device_def rt_object_get_type_def example_objs_def)
qed

theorem uart_console_prints_witness:
  "\<exists>con1 k1 con2 k2. rt_console_set_device (\<lambda>_. serial_ops cm3_uart_ops (\<lambda>_. True) None 0) [] (example_console, device_kernel) =
      Some (None, con1, k1) \<and>
    rt_kprintf (\<lambda>_. serial_ops cm3_uart_ops (\<lambda>_. True) None 0) 0x20000000 [120, 61, 37, 100, 10] [Va_int (- 5)] (con1, k1) =
      Some (None, con2, k2) \<and> tx_line (uart (snd (devs con2 0))) = [120, 61, 45, 53, 13, 10]"
proof -
  let ?s = "example_serial example_usart"
  have f: "format_text [120, 61, 37, 100, 10] [Va_int (- 5)] = Some [120, 61, 45, 53, 10]" by code_simp
  have d: "devs example_console 0 = (zero_device, ?s)" "console_device example_console = None"
    by (simp_all add: example_console_def)
  have z: "ref_count zero_device = 0" "open_flag zero_device = 0" "dev_flag zero_device AND RT_DEVICE_FLAG_ACTIVATED = 0"
    by (simp_all add: zero_device_def)
  have t: "tx_line (uart ?s) = []" by (simp add: example_serial_def example_usart_def)
  from uart_console_prints [where ops = "\<lambda>_. serial_ops cm3_uart_ops (\<lambda>_. True) None 0",
      OF device_kernel_facts d(2,1) z refl f, of "0x20000000", unfolded t]
  show ?thesis by simp
qed

end
