(* ===== verification/Workqueue.thy ===== *)
theory Workqueue
  imports Semaphore
begin

text \<open>
  Work queues of the device drivers: \<^verbatim>\<open>components/drivers/src/workqueue.c\<close>. A thread of its own takes works off a
  list and runs them; others submit works and cancel them, and may wait for a work that runs to end. A work is a
  number; its node is in the list of the queue or unlinked. What the worker does between two points at which
  others may act is a definition of its own.
\<close>

section \<open>The code\<close>

record rt_workqueue =
  work_list :: "nat list"
  work_current :: "nat option"
  work_sem :: nat
  work_thread :: nat

type_synonym wstate = "rt_workqueue \<times> kernel"

text \<open>
  Waking all that wait for the end of a work. The loop ends when a release finds nobody waiting and the next try
  takes the permit back.
\<close>

partial_function (option) work_completion_loop :: "nat \<Rightarrow> kernel \<Rightarrow> (rt_err_t \<times> kernel) option" where
  "work_completion_loop s k = Option.bind (rt_sem_trytake s k) (\<lambda>(r, k).
     case r of
       Ret e v \<Rightarrow>
         if e = - RT_ETIMEOUT then Option.bind (rt_sem_release s k) (\<lambda>(_, k). work_completion_loop s k)
         else if e = RT_EOK then Some (RT_EOK, k)
         else Some (- RT_ERROR, k)
     | Wait c \<Rightarrow> None)"

definition workqueue_work_completion :: "nat \<Rightarrow> kernel \<Rightarrow> (rt_err_t \<times> kernel) option" where
  "workqueue_work_completion s k = do {
     let k = rt_enter_critical k;
     (e, k) \<leftarrow> work_completion_loop s k;
     k \<leftarrow> rt_exit_critical k;
     Some (e, k)
   }"

text \<open>
  The worker: look whether there is work, sleep when there was none (with interrupts enabled in between),
  take the first work of the list, whatever that is by then, and, when its function has returned, report the end.
\<close>

definition worker_idle :: "rt_workqueue \<Rightarrow> bool" where
  "worker_idle q \<longleftrightarrow> work_list q = []"

definition worker_sleep :: "kernel \<Rightarrow> kernel option" where
  "worker_sleep k = do {
     t \<leftarrow> rt_thread_self k;
     (_, k) \<leftarrow> rt_thread_suspend t k;
     rt_schedule k
   }"

definition worker_take :: "rt_workqueue \<Rightarrow> (nat \<times> rt_workqueue) option" where
  "worker_take q =
     (case work_list q of
        [] \<Rightarrow> None
      | w # ws \<Rightarrow> Some (w, q\<lparr>work_list := ws, work_current := Some w\<rparr>))"

definition worker_done :: "wstate \<Rightarrow> (rt_err_t \<times> wstate) option" where
  "worker_done = (\<lambda>(q, k). do {
     let q = q\<lparr>work_current := None\<rparr>;
     (e, k) \<leftarrow> workqueue_work_completion (work_sem q) k;
     Some (e, q, k)
   })"

text \<open>The results of the heap and of the creation of the thread are arguments.\<close>

definition rt_workqueue_create ::
    "bool \<Rightarrow> nat \<Rightarrow> (kernel \<Rightarrow> (nat option \<times> kernel) option) \<Rightarrow> kernel \<Rightarrow> (rt_workqueue option \<times> kernel) option" where
  "rt_workqueue_create mallocd s thread_create k =
     (if mallocd then do {
        (_, k) \<leftarrow> rt_sem_init s [119, 113, 117, 101, 117, 101] 0 RT_IPC_FLAG_FIFO k;
        (t, k) \<leftarrow> thread_create k;
        case t of
          None \<Rightarrow> Some (None, k)
        | Some t \<Rightarrow> do {
            (_, k) \<leftarrow> rt_thread_startup t k;
            Some (Some \<lparr>work_list = [], work_current = None, work_sem = s, work_thread = t\<rparr>, k)
          }
      }
      else Some (None, k))"

definition rt_workqueue_destroy :: "wstate \<Rightarrow> (rt_err_t \<times> kernel) option" where
  "rt_workqueue_destroy = (\<lambda>(q, k). do {
     (_, k) \<leftarrow> rt_thread_delete (work_thread q) k;
     Some (RT_EOK, k)
   })"

definition rt_workqueue_dowork :: "nat \<Rightarrow> wstate \<Rightarrow> (rt_err_t \<times> wstate) option" where
  "rt_workqueue_dowork w = (\<lambda>(q, k).
     if work_current q = Some w then Some (- RT_EBUSY, q, k)
     else do {
       let q = q\<lparr>work_list := remove1 w (work_list q)\<rparr>;
       let q = q\<lparr>work_list := work_list q @ [w]\<rparr>;
       if work_current q = None then do {
         (_, k) \<leftarrow> rt_thread_resume (work_thread q) k;
         k \<leftarrow> rt_schedule k;
         Some (RT_EOK, q, k)
       }
       else Some (RT_EOK, q, k)
     })"

definition rt_workqueue_critical_work :: "nat \<Rightarrow> wstate \<Rightarrow> (rt_err_t \<times> wstate) option" where
  "rt_workqueue_critical_work w = (\<lambda>(q, k).
     if work_current q = Some w then Some (- RT_EBUSY, q, k)
     else do {
       let q = q\<lparr>work_list := remove1 w (work_list q)\<rparr>;
       let q = q\<lparr>work_list := work_list q @ [w]\<rparr>;
       if work_current q = None then do {
         (_, k) \<leftarrow> rt_thread_resume (work_thread q) k;
         k \<leftarrow> rt_schedule k;
         Some (RT_EOK, q, k)
       }
       else Some (RT_EOK, q, k)
     })"

definition rt_workqueue_cancel_work :: "nat \<Rightarrow> rt_workqueue \<Rightarrow> rt_err_t \<times> rt_workqueue" where
  "rt_workqueue_cancel_work w q =
     (if work_current q = Some w then (- RT_EBUSY, q)
      else (RT_EOK, q\<lparr>work_list := remove1 w (work_list q)\<rparr>))"

text \<open>The result of the wait is not looked at.\<close>

definition rt_workqueue_cancel_work_sync :: "nat \<Rightarrow> wstate \<Rightarrow> (outcome \<times> wstate) option" where
  "rt_workqueue_cancel_work_sync w = (\<lambda>(q, k).
     if work_current q = Some w then do {
       (r, k) \<leftarrow> rt_sem_take (work_sem q) RT_WAITING_FOREVER k;
       Some (case r of Ret _ _ \<Rightarrow> Ret RT_EOK VNone | Wait c \<Rightarrow> Wait c, q, k)
     }
     else Some (Ret RT_EOK VNone, q\<lparr>work_list := remove1 w (work_list q)\<rparr>, k))"

definition cancel_work_sync_resume :: "nat \<Rightarrow> kernel \<Rightarrow> outcome \<times> kernel" where
  "cancel_work_sync_resume t k = (case rt_sem_take_resume t k of (_, k) \<Rightarrow> (Ret RT_EOK VNone, k))"

fun unlink_all :: "nat list \<Rightarrow> rt_workqueue \<Rightarrow> rt_workqueue" where
  "unlink_all [] q = q"
| "unlink_all (w # ws) q = unlink_all ws (q\<lparr>work_list := remove1 w (work_list q)\<rparr>)"

definition rt_workqueue_cancel_all_work :: "wstate \<Rightarrow> (rt_err_t \<times> wstate) option" where
  "rt_workqueue_cancel_all_work = (\<lambda>(q, k). do {
     let k = rt_enter_critical k;
     let q = unlink_all (work_list q) q;
     k \<leftarrow> rt_exit_critical k;
     Some (RT_EOK, q, k)
   })"

section \<open>The end of a work wakes all that wait for it\<close>

text \<open>
  From a locked scheduler, with the waiters \<open>ts\<close> of a semaphore without permits: all of them can run and none waits.
\<close>

lemma work_completion_loop_spec:
  assumes "kinv k" and "rt_current_thread k \<noteq> None" and "is_sem s k" and "sem_value (sems k s) = 0"
    and "rt_scheduler_lock_nest k \<noteq> 0"
  shows "\<exists>k'. work_completion_loop s k = Some (RT_EOK, k') \<and> kinv k' \<and> ipc_frame k k' \<and> sem_waiters k' s = [] \<and>
    rt_current_thread k' = rt_current_thread k \<and>
    (\<forall>t \<in> set (sem_waiters k s). runnable k' t) \<and> (\<forall>t. runnable k t \<longrightarrow> runnable k' t)"
  using assms
proof (induction "sem_waiters k s" arbitrary: k)
  case Nil
  have "set_sem s 0 (set_sem s 1 k) = k" using Nil.prems(4) set_sem_same [of k s] by (simp add: set_sem_def)
  then have "work_completion_loop s k = Some (RT_EOK, k)"
    using Nil by (simp add: work_completion_loop.simps rt_sem_trytake_def rt_sem_take_def rt_sem_release_def is_sem_def
        rt_object_get_type_def)
  then show ?case using Nil by auto
next
  case (Cons t ts)
  let ?h = "SuspendThread (OSem s)"
  have h: "wait_head ?h" by simp
  obtain g where g: "rt_ipc_list_resume ?h k = Some (resumed t k g)" "kinv (resumed t k g)" "tlists (resumed t k g) ?h = ts"
    using rt_ipc_list_resume_spec [OF Cons.prems(1) h Cons.hyps(2) [symmetric]] .
  let ?k = "resumed t k g"
  note f = ipc_frameD [OF ipc_frame_resumed [OF Cons.prems(1), of t g]]
  have "rt_schedule ?k = Some ?k" by (rule rt_schedule_locked) (use f(10) Cons.prems(5) in simp)
  then have rel: "rt_sem_release s k = Some (RT_EOK, ?k)"
    using g(1) Cons.hyps(2) Cons.prems(3) by (simp add: rt_sem_release_def flip: Cons.hyps(2))
  have loop: "work_completion_loop s k = work_completion_loop s ?k"
    using Cons.prems(3,4) rel by (subst work_completion_loop.simps) (simp add: rt_sem_trytake_def rt_sem_take_def)
  have cur: "rt_current_thread ?k = rt_current_thread k" by (rule resumed_sel(2) [OF Cons.prems(1)])
  have s: "is_sem s ?k" using Cons.prems(3) f(13) by (simp add: is_sem_def rt_object_get_type_def)
  obtain k' where k': "work_completion_loop s ?k = Some (RT_EOK, k')" "kinv k'" "ipc_frame ?k k'" "sem_waiters k' s = []"
      "rt_current_thread k' = rt_current_thread ?k" "\<forall>t \<in> set ts. runnable k' t" "\<forall>t. runnable ?k t \<longrightarrow> runnable k' t"
    using Cons.hyps(1) [OF g(3) [symmetric] g(2)] Cons.prems(2,4,5) cur s f(1,10) g(3) by auto
  have "runnable k' t" using k'(7) resumed_sel(6) [OF Cons.prems(1)] by blast
  moreover have "runnable k' u" if "runnable k u" for u using k'(7) runnable_resumed [OF Cons.prems(1) that] by blast
  ultimately show ?case
    using loop k' cur ipc_frame_trans [OF ipc_frame_resumed [OF Cons.prems(1)] k'(3)] Cons.hyps(2) by (auto simp flip: Cons.hyps(2))
qed

lemma workqueue_work_completion_spec:
  assumes k: "kinv k" and cur: "rt_current_thread k \<noteq> None" and s: "is_sem s k" and v: "sem_value (sems k s) = 0"
    and lock: "rt_scheduler_lock_nest k = 0"
  shows "\<exists>k'. workqueue_work_completion s k = Some (RT_EOK, k') \<and> kinv k' \<and> sem_waiters k' s = [] \<and> sems k' = sems k \<and>
    (\<forall>t \<in> set (sem_waiters k s). runnable k' t) \<and> (\<forall>t. runnable k t \<longrightarrow> runnable k' t) \<and> rt_current_thread k' \<noteq> None"
proof -
  let ?k = "rt_enter_critical k"
  have eqs: "tlists ?k = tlists k" "sems ?k = sems k" "rt_current_thread ?k = rt_current_thread k" "threads ?k = threads k"
      "rt_scheduler_lock_nest ?k \<noteq> 0" "is_sem s ?k"
    using s lock by (simp_all add: rt_enter_critical_def is_sem_def rt_object_get_type_def)
  have "kinv ?k" using k by (simp add: rt_enter_critical_def kinv_lock)
  then obtain k1 where k1: "work_completion_loop s ?k = Some (RT_EOK, k1)" "kinv k1" "ipc_frame ?k k1" "sem_waiters k1 s = []"
      "rt_current_thread k1 = rt_current_thread k" "\<forall>t \<in> set (sem_waiters k s). runnable k1 t" "\<forall>t. runnable ?k t \<longrightarrow> runnable k1 t"
    using work_completion_loop_spec [of ?k s] eqs cur v by auto
  obtain c where c: "rt_current_thread k1 = Some c" using k1(5) cur by auto
  obtain k' where k': "rt_exit_critical k1 = Some k'" "kinv k'" "rt_current_thread k' \<noteq> None"
      "sched_frame (k1\<lparr>rt_scheduler_lock_nest := rt_scheduler_lock_nest k'\<rparr>) k'"
    using rt_exit_critical_spec [OF k1(2) c] by (elim returnsE) blast
  note f = sched_frameD [OF k'(4)]
  have run: "runnable k' u = runnable k1 u" for u using f(18) by (simp add: runnable_def)
  have "sem_waiters k' s = []" "sems k' = sems k" using f(9,16) k1(4) ipc_frameD(1) [OF k1(3)] eqs(2) by simp_all
  then show ?thesis
    using k1 k' run eqs by (auto simp: workqueue_work_completion_def runnable_def)
qed

text \<open>
  C34. A work queue whose worker sleeps. A submitted work goes to the end of the list, the worker is woken and takes
  the oldest work; while that runs it can be neither submitted nor cancelled, and a thread that cancels it and waits
  goes to sleep; when it ends, whatever the kernel did in between, every thread that waits for it can run, the
  semaphore is as before, and the queue is ready for the next work.
\<close>

theorem workqueue_serves:
  assumes "kinv k" and "rt_current_thread k \<noteq> None" and "work_current q = None"
    and "tstat k (work_thread q) = RT_THREAD_SUSPEND" and "ws = remove1 w (work_list q) @ [w]"
  shows "\<exists>k1 q2. rt_workqueue_dowork w (q, k) = Some (RT_EOK, q\<lparr>work_list := ws\<rparr>, k1) \<and>
    kinv k1 \<and> runnable k1 (work_thread q) \<and> ThreadTimer (work_thread q) \<notin> set (rt_timer_list k1) \<and>
    worker_take (q\<lparr>work_list := ws\<rparr>) = Some (hd ws, q2) \<and> work_list q2 = tl ws \<and>
    (\<forall>k2. rt_workqueue_dowork (hd ws) (q2, k2) = Some (- RT_EBUSY, q2, k2) \<and>
      rt_workqueue_cancel_work (hd ws) q2 = (- RT_EBUSY, q2)) \<and>
    (\<forall>k2 t. kinv k2 \<and> rt_current_thread k2 = Some t \<and> tstat k2 t = RT_THREAD_RUNNING \<and> is_sem (work_sem q) k2 \<and>
        sem_value (sems k2 (work_sem q)) = 0 \<and> flag (objs k2 (OSem (work_sem q))) = RT_IPC_FLAG_FIFO \<and> rt_interrupt_nest k2 = 0 \<longrightarrow>
      (\<exists>k3. rt_workqueue_cancel_work_sync (hd ws) (q2, k2) = Some (Wait K_sem_take, q2, k3) \<and>
        sem_waiters k3 (work_sem q) = sem_waiters k2 (work_sem q) @ [t])) \<and>
    (\<forall>k2. kinv k2 \<and> rt_current_thread k2 \<noteq> None \<and> is_sem (work_sem q) k2 \<and> sem_value (sems k2 (work_sem q)) = 0 \<and>
        rt_scheduler_lock_nest k2 = 0 \<longrightarrow>
      (\<exists>k3. worker_done (q2, k2) = Some (RT_EOK, q2\<lparr>work_current := None\<rparr>, k3) \<and> kinv k3 \<and>
        sem_waiters k3 (work_sem q) = [] \<and> sems k3 = sems k2 \<and> (\<forall>t \<in> set (sem_waiters k2 (work_sem q)). runnable k3 t)))"
proof -
  let ?t = "work_thread q" and ?q2 = "q\<lparr>work_list := tl ws, work_current := Some (hd ws)\<rparr>"
  obtain g where g: "rt_thread_resume ?t k = Some (RT_EOK, resumed ?t k g)" "kinv (resumed ?t k g)"
    using rt_thread_resume_spec [OF assms(1,4)] .
  note r = resumed_sel [OF assms(1), where t = ?t and g = g]
  obtain c where c: "rt_current_thread (resumed ?t k g) = Some c" using r(2) assms(2) by auto
  obtain k1 where k1: "rt_schedule (resumed ?t k g) = Some k1" "kinv k1" "sched_frame (resumed ?t k g) k1"
    using rt_schedule_spec [OF g(2) c] by (elim returnsE) blast
  have submit: "rt_workqueue_dowork w (q, k) = Some (RT_EOK, q\<lparr>work_list := ws\<rparr>, k1)"
    using assms(3,5) g(1) k1(1) by (simp add: rt_workqueue_dowork_def)
  have run: "runnable k1 ?t" "ThreadTimer ?t \<notin> set (rt_timer_list k1)"
    using sched_frameD(4,18) [OF k1(3)] r(6,19) by simp_all
  have take: "worker_take (q\<lparr>work_list := ws\<rparr>) = Some (hd ws, ?q2)"
  proof -
    obtain v vs where v: "ws = v # vs" using assms(5) by (cases ws) (simp, blast)
    then show ?thesis by (simp add: worker_take_def)
  qed
  have busy: "rt_workqueue_dowork (hd ws) (?q2, k2) = Some (- RT_EBUSY, ?q2, k2)"
      "rt_workqueue_cancel_work (hd ws) ?q2 = (- RT_EBUSY, ?q2)" for k2
    by (simp_all add: rt_workqueue_dowork_def rt_workqueue_cancel_work_def)
  have wait: "\<exists>k3. rt_workqueue_cancel_work_sync (hd ws) (?q2, k2) = Some (Wait K_sem_take, ?q2, k3) \<and>
        sem_waiters k3 (work_sem q) = sem_waiters k2 (work_sem q) @ [t]"
    if a: "kinv k2 \<and> rt_current_thread k2 = Some t \<and> tstat k2 t = RT_THREAD_RUNNING \<and> is_sem (work_sem q) k2 \<and>
        sem_value (sems k2 (work_sem q)) = 0 \<and> flag (objs k2 (OSem (work_sem q))) = RT_IPC_FLAG_FIFO \<and> rt_interrupt_nest k2 = 0" for k2 t
    using rt_sem_take_blocks [of k2 t "work_sem q" RT_WAITING_FOREVER] a
    by (auto simp: rt_workqueue_cancel_work_sync_def blocked_on_def wait_insert_def time_ok_def upd_thread_def)
  have served: "\<exists>k3. worker_done (?q2, k2) = Some (RT_EOK, ?q2\<lparr>work_current := None\<rparr>, k3) \<and> kinv k3 \<and>
        sem_waiters k3 (work_sem q) = [] \<and> sems k3 = sems k2 \<and> (\<forall>t \<in> set (sem_waiters k2 (work_sem q)). runnable k3 t)"
    if "kinv k2 \<and> rt_current_thread k2 \<noteq> None \<and> is_sem (work_sem q) k2 \<and> sem_value (sems k2 (work_sem q)) = 0 \<and>
        rt_scheduler_lock_nest k2 = 0" for k2
    using workqueue_work_completion_spec [of k2 "work_sem q"] that by (auto simp: worker_done_def)
  show ?thesis
    by (rule exI [of _ k1], rule exI [of _ ?q2]) (use submit run k1(2) take busy wait served in \<open>simp add: rt_workqueue_dowork_def\<close>)
qed

theorem workqueue_serves_witness:
  "\<exists>k1. rt_workqueue_dowork 4 (\<lparr>work_list = [5], work_current = None, work_sem = 0, work_thread = 3\<rparr>, example_kernel) =
     Some (RT_EOK, \<lparr>work_list = [5, 4], work_current = None, work_sem = 0, work_thread = 3\<rparr>, k1) \<and> runnable k1 3 \<and>
     (\<exists>k3. worker_done (\<lparr>work_list = [4], work_current = Some 5, work_sem = 0, work_thread = 3\<rparr>, example_kernel) =
       Some (RT_EOK, \<lparr>work_list = [4], work_current = None, work_sem = 0, work_thread = 3\<rparr>, k3))"
proof -
  let ?q = "\<lparr>work_list = [5], work_current = None, work_sem = 0, work_thread = 3\<rparr>"
  have c: "rt_current_thread example_kernel \<noteq> None" "tstat example_kernel (work_thread ?q) = RT_THREAD_SUSPEND"
    "rt_scheduler_lock_nest example_kernel = 0" by (simp_all add: example_kernel_def zero_kernel_def)
  obtain k1 q2 where "rt_workqueue_dowork 4 (?q, example_kernel) = Some (RT_EOK, ?q\<lparr>work_list := [5, 4]\<rparr>, k1)" "runnable k1 3"
      "worker_take (?q\<lparr>work_list := [5, 4]\<rparr>) = Some (5, q2)"
      "\<exists>k3. worker_done (q2, example_kernel) = Some (RT_EOK, q2\<lparr>work_current := None\<rparr>, k3)"
    using workqueue_serves [OF kinv_example c(1) _ c(2), of "[5, 4]" 4] kinv_example c example_sem by auto
  then show ?thesis by (auto simp: worker_take_def)
qed

section \<open>What goes wrong\<close>

text \<open>
  A work that is submitted to a sleeping worker and cancelled before the worker runs: the worker does not look at the list
  again and takes the head of the list for a work.
\<close>

lemma cancelled_work_runs_list_head:
  assumes "rt_workqueue_dowork w (q, k) = Some (RT_EOK, q1, k1)" and "work_list q = []" and "work_current q = None"
  shows "fst (rt_workqueue_cancel_work w q1) = RT_EOK" "worker_take (snd (rt_workqueue_cancel_work w q1)) = None"
  using assms by (auto simp: rt_workqueue_dowork_def rt_workqueue_cancel_work_def worker_take_def bind_eq_Some_conv)

text \<open>
  A work that is submitted between the worker's look at the empty list and its suspension does not wake the worker: it is not
  suspended yet, and then goes to sleep with the work in its list.
\<close>

lemma submission_missed:
  assumes k: "kinv k" and t: "rt_current_thread k = Some t" "tstat k t = RT_THREAD_RUNNING"
    and q: "worker_idle q" "work_current q = None" "work_thread q = t"
  shows "\<exists>k1. rt_workqueue_dowork w (q, k) = Some (RT_EOK, q\<lparr>work_list := [w]\<rparr>, k1) \<and>
    (rt_current_thread k1 = Some t \<and> tstat k1 t = RT_THREAD_RUNNING \<longrightarrow>
      (\<exists>k2. worker_sleep k1 = Some k2 \<and> tstat k2 t = RT_THREAD_SUSPEND))"
proof -
  have "live k t" using t(2) by simp
  then have r: "rt_thread_resume t k = Some (- RT_ERROR, k)"
    using thread_okD [OF live_thread_ok [OF k]] t(2) by (simp add: rt_thread_resume_def)
  obtain k1 where k1: "rt_schedule k = Some k1" "kinv k1" "sched_frame k k1"
    using rt_schedule_spec [OF k t(1)] by (elim returnsE) blast
  have "\<exists>k2. worker_sleep k1 = Some k2 \<and> tstat k2 t = RT_THREAD_SUSPEND"
    if c: "rt_current_thread k1 = Some t" "tstat k1 t = RT_THREAD_RUNNING"
  proof -
    have run: "runnable k1 t" using c(2) by (simp add: runnable_def)
    obtain g where g: "rt_thread_suspend t k1 = Some (RT_EOK, suspended t k1 g)" "kinv (suspended t k1 g)"
      using rt_thread_suspend_spec [OF k1(2) run] .
    note sel = suspended_sel [OF k1(2), where t = t and g = g]
    obtain k2 where k2: "rt_schedule (suspended t k1 g) = Some k2" "sched_frame (suspended t k1 g) k2"
      using rt_schedule_spec [OF g(2) sel(3) [unfolded c(1)]] by (elim returnsE) blast
    have "tstat k2 t = RT_THREAD_SUSPEND" using sched_frameD(17) [OF k2(2)] sel(1) by (simp add: runnable_def)
    then show ?thesis
      using g(1) k2(1) c(1) by (simp add: worker_sleep_def rt_thread_self_def)
  qed
  then show ?thesis
    using r k1(1) q by (auto simp: rt_workqueue_dowork_def worker_idle_def)
qed

end
