(* ===== verification/Event.thy ===== *)
theory Event
  imports Ipc_Base
begin

text \<open>
  Event sets: the functions \<^verbatim>\<open>rt_event_*\<close> of \<^verbatim>\<open>src/ipc.c\<close>. A waiter keeps the bits it waits
  for and the option (all of them or any of them, and whether to clear what was received)
  in its thread structure; \<open>event_walk\<close> is the loop of \<^verbatim>\<open>rt_event_send\<close> over the waiters.
\<close>

abbreviation (input) RT_EVENT_FLAG_AND :: u8 where "RT_EVENT_FLAG_AND \<equiv> 1"
abbreviation (input) RT_EVENT_FLAG_OR :: u8 where "RT_EVENT_FLAG_OR \<equiv> 2"
abbreviation (input) RT_EVENT_FLAG_CLEAR :: u8 where "RT_EVENT_FLAG_CLEAR \<equiv> 4"

section \<open>Operations\<close>

abbreviation event_waiters :: "kernel \<Rightarrow> nat \<Rightarrow> nat list" where
  "event_waiters k e \<equiv> tlists k (SuspendThread (OEvent e))"

definition set_event :: "nat \<Rightarrow> u32 \<Rightarrow> kernel \<Rightarrow> kernel" where
  "set_event e b k = k\<lparr>events := (events k)(e := (events k e)\<lparr>event_bits := b\<rparr>)\<rparr>"

definition is_event :: "nat \<Rightarrow> kernel \<Rightarrow> bool" where
  "is_event e k \<longleftrightarrow> rt_object_get_type (OEvent e) k = RT_Object_Class_Event"

definition event_init_fields :: "nat \<Rightarrow> u8 \<Rightarrow> kernel \<Rightarrow> kernel" where
  "event_init_fields e fl k =
     (let k = upd_obj (OEvent e) (\<lambda>ob. ob\<lparr>flag := fl\<rparr>) k;
          k = rt_ipc_object_init (SuspendThread (OEvent e)) k
      in set_event e 0 k)"

definition rt_event_init :: "nat \<Rightarrow> u8 list \<Rightarrow> u8 \<Rightarrow> kernel \<Rightarrow> (rt_err_t \<times> kernel) option" where
  "rt_event_init e nm fl k = do {
     k \<leftarrow> rt_object_init (OEvent e) RT_Object_Class_Event nm k;
     Some (RT_EOK, event_init_fields e fl k)
   }"

definition rt_event_create ::
    "nat option \<Rightarrow> u8 list \<Rightarrow> u8 \<Rightarrow> kernel \<Rightarrow> (nat option \<times> kernel) option" where
  "rt_event_create mallocd nm fl k = do {
     RT_DEBUG_NOT_IN_INTERRUPT k;
     (_, k) \<leftarrow> rt_object_allocate (map_option OEvent mallocd) RT_Object_Class_Event nm k;
     case mallocd of
       None \<Rightarrow> Some (None, k)
     | Some e \<Rightarrow> Some (Some e, event_init_fields e fl k)
   }"

definition rt_event_detach :: "nat \<Rightarrow> kernel \<Rightarrow> (rt_err_t \<times> kernel) option" where
  "rt_event_detach e k = do {
     rt_assert (is_event e k);
     rt_assert (rt_object_is_systemobject (OEvent e) k);
     k \<leftarrow> rt_ipc_list_resume_all (SuspendThread (OEvent e)) k;
     Some (RT_EOK, rt_object_detach (OEvent e) k)
   }"

definition rt_event_delete :: "nat \<Rightarrow> kernel \<Rightarrow> (rt_err_t \<times> kernel) option" where
  "rt_event_delete e k = do {
     rt_assert (is_event e k);
     rt_assert (\<not> rt_object_is_systemobject (OEvent e) k);
     RT_DEBUG_NOT_IN_INTERRUPT k;
     k \<leftarrow> rt_ipc_list_resume_all (SuspendThread (OEvent e)) k;
     k \<leftarrow> rt_object_delete (OEvent e) k;
     Some (RT_EOK, k)
   }"

text \<open>Whether a thread that waits for the bits \<open>s\<close> is satisfied by the event's bits \<open>b\<close>.\<close>

definition event_match :: "u8 \<Rightarrow> u32 \<Rightarrow> u32 \<Rightarrow> bool" where
  "event_match opt s b =
     (if opt AND RT_EVENT_FLAG_AND \<noteq> 0 then s AND b = s
      else if opt AND RT_EVENT_FLAG_OR \<noteq> 0 then s AND b \<noteq> 0
      else False)"

fun event_walk :: "nat \<Rightarrow> nat list \<Rightarrow> bool \<Rightarrow> kernel \<Rightarrow> (bool \<times> kernel) option" where
  "event_walk e [] need_schedule k = Some (need_schedule, k)"
| "event_walk e (t # ts) need_schedule k =
     (if event_match (event_info (threads k t)) (event_set (threads k t)) (event_bits (events k e))
      then do {
        let k = (if event_info (threads k t) AND RT_EVENT_FLAG_AND = 0
          then upd_thread t (\<lambda>x. x\<lparr>event_set := event_set x AND event_bits (events k e)\<rparr>) k
          else k);
        let k = (if event_info (threads k t) AND RT_EVENT_FLAG_CLEAR \<noteq> 0
          then set_event e (event_bits (events k e) AND NOT (event_set (threads k t))) k
          else k);
        (_, k) \<leftarrow> rt_thread_resume t k;
        event_walk e ts True k
      } else event_walk e ts need_schedule k)"

definition rt_event_send :: "nat \<Rightarrow> u32 \<Rightarrow> kernel \<Rightarrow> (rt_err_t \<times> kernel) option" where
  "rt_event_send e st k = do {
     rt_assert (is_event e k);
     if st = 0 then Some (- RT_ERROR, k)
     else do {
       let k = set_event e (event_bits (events k e) OR st) k;
       (need_schedule, k) \<leftarrow> event_walk e (event_waiters k e) False k;
       k \<leftarrow> (if need_schedule then rt_schedule k else Some k);
       Some (RT_EOK, k)
     }
   }"

definition rt_event_recv :: "nat \<Rightarrow> u32 \<Rightarrow> u8 \<Rightarrow> int \<Rightarrow> kernel \<Rightarrow> (outcome \<times> kernel) option" where
  "rt_event_recv e st opt timeout k = do {
     RT_DEBUG_IN_THREAD_CONTEXT k;
     rt_assert (is_event e k);
     if st = 0 then Some (Ret (- RT_ERROR) VNone, k)
     else do {
       t \<leftarrow> rt_thread_self k;
       let k = upd_thread t (\<lambda>x. x\<lparr>error := RT_EOK\<rparr>) k;
       rt_assert (opt AND RT_EVENT_FLAG_AND \<noteq> 0 \<or> opt AND RT_EVENT_FLAG_OR \<noteq> 0);
       let bits = event_bits (events k e);
       if event_match opt st bits then
         Some (Ret (error (threads k t)) (VWord (bits AND st)),
           if opt AND RT_EVENT_FLAG_CLEAR \<noteq> 0 then set_event e (bits AND NOT st) k else k)
       else if timeout = 0 then
         Some (Ret (- RT_ETIMEOUT) VNone, upd_thread t (\<lambda>x. x\<lparr>error := - RT_ETIMEOUT\<rparr>) k)
       else do {
         let k = upd_thread t (\<lambda>x. x\<lparr>event_set := st, event_info := opt\<rparr>) k;
         k \<leftarrow> ipc_block (SuspendThread (OEvent e)) t (flag (objs k (OEvent e))) timeout k;
         Some (Wait K_event_recv, k)
       }
     }
   }"

definition rt_event_recv_resume :: "nat \<Rightarrow> kernel \<Rightarrow> outcome \<times> kernel" where
  "rt_event_recv_resume t k =
     (if error (threads k t) \<noteq> RT_EOK then (Ret (error (threads k t)) VNone, k)
      else (Ret (error (threads k t)) (VWord (event_set (threads k t))), k))"

definition rt_event_control :: "nat \<Rightarrow> ipc_ctrl \<Rightarrow> kernel \<Rightarrow> (rt_err_t \<times> kernel) option" where
  "rt_event_control e cmd k = do {
     rt_assert (is_event e k);
     case cmd of
       Ipc_reset _ \<Rightarrow> do {
         k \<leftarrow> rt_ipc_list_resume_all (SuspendThread (OEvent e)) k;
         k \<leftarrow> rt_schedule (set_event e 0 k);
         Some (RT_EOK, k)
       }
     | Ipc_other \<Rightarrow> Some (- RT_ERROR, k)
   }"

lemma set_event_sel [simp]:
  "events (set_event e b k) = (events k)(e := (events k e)\<lparr>event_bits := b\<rparr>)"
  "tlists (set_event e b k) = tlists k" "threads (set_event e b k) = threads k"
  "objs (set_event e b k) = objs k" "rt_current_thread (set_event e b k) = rt_current_thread k"
  "kinv (set_event e b k) = kinv k" "rt_timer_list (set_event e b k) = rt_timer_list k"
  "rt_scheduler_lock_nest (set_event e b k) = rt_scheduler_lock_nest k"
  by (simp_all add: set_event_def)

section \<open>Serving the waiters: specification\<close>

text \<open>
  The bits that are left and what each served thread receives, when the waiters are visited
  in their order and each sees what the earlier ones left. \<open>serve\<close> is the reference the loop
  is compared with.
\<close>

definition event_received :: "u8 \<Rightarrow> u32 \<Rightarrow> u32 \<Rightarrow> u32" where
  "event_received opt s b = (if opt AND RT_EVENT_FLAG_AND \<noteq> 0 then s else s AND b)"

fun serve :: "(nat \<Rightarrow> u8) \<Rightarrow> (nat \<Rightarrow> u32) \<Rightarrow> nat list \<Rightarrow> u32 \<Rightarrow> u32 \<times> (nat \<times> u32) list" where
  "serve opt s [] b = (b, [])"
| "serve opt s (t # ts) b =
     (if event_match (opt t) (s t) b then
        let r = event_received (opt t) (s t) b;
            (b', gs) = serve opt s ts (if opt t AND RT_EVENT_FLAG_CLEAR \<noteq> 0 then b AND NOT r else b)
        in (b', (t, r) # gs)
      else serve opt s ts b)"

text \<open>Only bits are ever taken away, so a thread once refused stays unsatisfied.\<close>

definition subbits :: "u32 \<Rightarrow> u32 \<Rightarrow> bool" where
  "subbits a b \<longleftrightarrow> (\<forall>n. bit a n \<longrightarrow> bit b n)"

lemma event_match_mono:
  assumes "subbits a b" and "event_match opt s a"
  shows "event_match opt s b"
proof -
  have "s AND a = s \<Longrightarrow> s AND b = s"
    using assms(1) by (auto simp: subbits_def bit_eq_iff bit_and_iff)
  moreover have "s AND a \<noteq> 0 \<Longrightarrow> s AND b \<noteq> 0"
    using assms(1) by (auto simp: subbits_def bit_eq_iff bit_and_iff)
  ultimately show ?thesis using assms(2) by (auto simp: event_match_def split: if_splits)
qed

lemma serve_Cons [simp]:
  "serve opt s (t # ts) b =
     (if event_match (opt t) (s t) b then
        let r = event_received (opt t) (s t) b;
            rest = serve opt s ts (if opt t AND RT_EVENT_FLAG_CLEAR \<noteq> 0 then b AND NOT r else b)
        in (fst rest, (t, r) # snd rest)
      else serve opt s ts b)"
  by (simp add: Let_def split: prod.split)

declare serve.simps(2) [simp del]

lemma serve_subbits: "subbits (fst (serve opt s ts b)) b"
proof (induction ts arbitrary: b)
  case (Cons t ts)
  let ?b = "if opt t AND RT_EVENT_FLAG_CLEAR \<noteq> 0 then b AND NOT (event_received (opt t) (s t) b) else b"
  have "subbits ?b b" by (auto simp: subbits_def bit_and_iff)
  with Cons [of ?b] have "subbits (fst (serve opt s ts ?b)) b" by (auto simp: subbits_def)
  with Cons [of b] show ?case by (simp add: Let_def)
qed (simp add: subbits_def)

lemma serve_members: "fst ` set (snd (serve opt s ts b)) \<subseteq> set ts"
proof (induction ts arbitrary: b)
  case (Cons t ts)
  then show ?case by (simp add: Let_def) blast
qed simp

lemma serve_refused:
  assumes "t \<in> set ts" and "t \<notin> fst ` set (snd (serve opt s ts b))"
  shows "\<not> event_match (opt t) (s t) (fst (serve opt s ts b))"
  using assms
proof (induction ts arbitrary: b)
  case (Cons u us)
  have "t = u \<Longrightarrow> \<not> event_match (opt u) (s u) b \<Longrightarrow> \<not> event_match (opt t) (s t) (fst (serve opt s us b))"
    using event_match_mono [OF serve_subbits] by blast
  then show ?case
    using Cons.IH Cons.prems by (auto simp: Let_def split: if_splits)
qed simp

lemma serve_cong:
  assumes "\<And>t. t \<in> set ts \<Longrightarrow> opt' t = opt t \<and> s' t = s t"
  shows "serve opt' s' ts b = serve opt s ts b"
  using assms by (induction ts arbitrary: b) (simp_all add: Let_def)

section \<open>The loop serves the waiters\<close>

definition event_walked :: "nat \<Rightarrow> (nat \<times> u32) list \<Rightarrow> u32 \<Rightarrow> kernel \<Rightarrow> kernel \<Rightarrow> bool" where
  "event_walked e gs b k k' \<longleftrightarrow> kinv k' \<and> event_bits (events k' e) = b \<and>
     event_waiters k' e = filter (\<lambda>t. t \<notin> fst ` set gs) (event_waiters k e) \<and>
     (\<forall>h. wait_head h \<and> h \<noteq> SuspendThread (OEvent e) \<longrightarrow> tlists k' h = tlists k h) \<and>
     (\<forall>(t, r) \<in> set gs. runnable k' t \<and> event_set (threads k' t) = r) \<and>
     (\<forall>u. u \<notin> fst ` set gs \<longrightarrow> threads k' u = threads k u) \<and>
     (\<forall>u. error (threads k' u) = error (threads k u)) \<and>
     (\<forall>u. current_priority (threads k' u) = current_priority (threads k u)) \<and>
     (\<forall>u. runnable k u \<longrightarrow> runnable k' u) \<and> rt_current_thread k' = rt_current_thread k \<and>
     rt_scheduler_lock_nest k' = rt_scheduler_lock_nest k"

definition event_serve :: "nat \<Rightarrow> nat \<Rightarrow> u32 \<Rightarrow> u32 \<Rightarrow> kernel \<Rightarrow> kernel" where
  "event_serve e t r b k = set_event e b (upd_thread t (\<lambda>x. x\<lparr>event_set := r\<rparr>) k)"

lemma event_walk_match:
  assumes "event_match (event_info (threads k t)) (event_set (threads k t)) (event_bits (events k e))"
    and "r = event_received (event_info (threads k t)) (event_set (threads k t)) (event_bits (events k e))"
    and "b = (if event_info (threads k t) AND RT_EVENT_FLAG_CLEAR \<noteq> 0
      then event_bits (events k e) AND NOT r else event_bits (events k e))"
  shows "event_walk e (t # ts) need k =
    Option.bind (rt_thread_resume t (event_serve e t r b k)) (\<lambda>(_, k). event_walk e ts True k)"
proof -
  have id: "k\<lparr>threads := (threads k)(t := (threads k t)\<lparr>event_set := event_set (threads k t)\<rparr>)\<rparr> = k"
    "k\<lparr>events := (events k)(e := (events k e)\<lparr>event_bits := event_bits (events k e)\<rparr>)\<rparr> = k" for k
    by simp_all
  show ?thesis
    using assms(1) id by (simp add: assms(2,3) event_serve_def event_received_def set_event_def kdefs Let_def)
qed

lemma event_serve_sel [simp]:
  "threads (event_serve e t r b k) = (threads k)(t := (threads k t)\<lparr>event_set := r\<rparr>)"
  "tlists (event_serve e t r b k) = tlists k" "event_bits (events (event_serve e t r b k) e) = b"
  "rt_current_thread (event_serve e t r b k) = rt_current_thread k"
  "rt_scheduler_lock_nest (event_serve e t r b k) = rt_scheduler_lock_nest k"
  by (simp_all add: event_serve_def kdefs)

lemma kinv_event_serve: "kinv k \<Longrightarrow> kinv (event_serve e t r b k)"
  unfolding event_serve_def set_event_sel by (rule kinv_upd_thread) simp_all

lemma event_walk_step:
  assumes k: "kinv k" and t: "t \<in> set (event_waiters k e)"
  shows "returns (rt_thread_resume t (event_serve e t r b k)) (\<lambda>(_, k'). event_walked e [(t, r)] b k k')"
proof -
  let ?k = "event_serve e t r b k"
  have k1: "kinv ?k" by (rule kinv_event_serve [OF k])
  have "tstat k t = RT_THREAD_SUSPEND"
    using sched_invD(2) [OF kinvD(1) [OF k] t] by simp
  then have st: "tstat ?k t = RT_THREAD_SUSPEND" by simp
  obtain g where g: "rt_thread_resume t ?k = Some (RT_EOK, resumed t ?k g)" "kinv (resumed t ?k g)"
    using rt_thread_resume_spec [OF k1 st] .
  note r = resumed_sel [OF k1, where t = t and g = g]
  have l: "tlists (resumed t ?k g) h = remove1 t (tlists k h)" if "wait_head h" for h
    using r(5) [of h] wait_headD(2) [OF that] by simp
  have wf: "lists_wf (tlists k)" by (rule sched_invD(7) [OF kinvD(1) [OF k]])
  have "remove1 t (event_waiters k e) = filter (\<lambda>u. u \<noteq> t) (event_waiters k e)"
    using wf by (simp add: distinct_remove1_removeAll removeAll_filter_not_eq lists_wf_def eq_commute)
  moreover have "t \<notin> set (tlists k h)" if "h \<noteq> SuspendThread (OEvent e)" for h
    using wf that t unfolding lists_wf_def by blast
  moreover have "runnable (resumed t ?k g) u" if "runnable k u" for u
  proof -
    have "runnable ?k u" using that by (cases "u = t") (simp_all add: runnable_def)
    then show ?thesis by (rule runnable_resumed [OF k1])
  qed
  moreover have f: "ipc_frame ?k (resumed t ?k g)" by (rule ipc_frame_resumed [OF k1])
  moreover have "error (threads (resumed t ?k g) u) = error (threads k u)" for u
    using r(3) [of u] error_stat [OF r(4)] by (cases "u = t") simp_all
  moreover have "current_priority (threads (resumed t ?k g) u) = current_priority (threads k u)" for u
    using ipc_frameD(14) [OF f, of u] by (simp split: if_splits)
  moreover have "event_set (threads (resumed t ?k g) t) = r"
    using ipc_frameD(15) [OF f, of t] by simp
  moreover have "event_bits (events (resumed t ?k g) e) = b" using ipc_frameD(3) [OF f] by simp
  ultimately have "event_walked e [(t, r)] b k (resumed t ?k g)"
    using g(2) l r(2,3,6,15) by (simp add: event_walked_def)
  then show ?thesis using g(1) by simp
qed

lemma event_walked_trans:
  assumes a: "event_walked e [(t, r)] b k k1" and c: "event_walked e gs b' k1 k'" and t: "t \<notin> fst ` set gs"
  shows "event_walked e ((t, r) # gs) b' k k'"
proof -
  have "threads k' t = threads k1 t" using c t by (simp add: event_walked_def)
  moreover have "runnable k' t" using a c by (simp add: event_walked_def)
  moreover have "filter (\<lambda>u. u \<notin> fst ` set gs) (filter (\<lambda>u. u \<noteq> t) xs) =
      filter (\<lambda>u. u \<noteq> t \<and> u \<notin> fst ` set gs) xs" for xs by (induction xs) auto
  ultimately show ?thesis
    using a c unfolding event_walked_def by simp
qed

lemma event_walk_spec:
  assumes "kinv k" and "distinct ts" and "set ts \<subseteq> set (event_waiters k e)"
    and "serve (\<lambda>t. event_info (threads k t)) (\<lambda>t. event_set (threads k t)) ts (event_bits (events k e)) = (b, gs)"
  shows "returns (event_walk e ts need k) (\<lambda>(n, k'). n = (need \<or> gs \<noteq> []) \<and> event_walked e gs b k k')"
  using assms
proof (induction ts arbitrary: k need b gs)
  case Nil
  then show ?case by (simp add: event_walked_def)
next
  case (Cons t ts)
  let ?opt = "\<lambda>k t. event_info (threads k t)" and ?s = "\<lambda>k t. event_set (threads k t)"
  let ?b = "event_bits (events k e)"
  show ?case
  proof (cases "event_match (?opt k t) (?s k t) ?b")
    case False
    then show ?thesis using Cons.IH [of k b gs need] Cons.prems by simp
  next
    case True
    define r where "r = event_received (?opt k t) (?s k t) ?b"
    define b1 where "b1 = (if ?opt k t AND RT_EVENT_FLAG_CLEAR \<noteq> 0 then ?b AND NOT r else ?b)"
    define rest where "rest = serve (?opt k) (?s k) ts b1"
    have sv: "b = fst rest" "gs = (t, r) # snd rest"
      using Cons.prems(4) True by (auto simp: Let_def r_def b1_def rest_def)
    from event_walk_step [OF Cons.prems(1), of t e r b1] Cons.prems(3) obtain x k1 where
      k1: "rt_thread_resume t (event_serve e t r b1 k) = Some (x, k1)" "event_walked e [(t, r)] b1 k k1"
      by (auto elim!: returnsE)
    have nt: "t \<notin> set ts" using Cons.prems(2) by simp
    then have same: "u \<in> set ts \<Longrightarrow> threads k1 u = threads k u" for u
      using k1(2) by (auto simp: event_walked_def)
    have "serve (?opt k1) (?s k1) ts b1 = rest"
      unfolding rest_def by (rule serve_cong) (use same in auto)
    then have "serve (?opt k1) (?s k1) ts (event_bits (events k1 e)) = (b, snd rest)"
      using k1(2) sv(1) by (simp add: event_walked_def)
    moreover have "kinv k1" "set ts \<subseteq> set (event_waiters k1 e)"
      using k1(2) Cons.prems(3) nt by (auto simp: event_walked_def)
    ultimately obtain k' where k': "event_walk e ts True k1 = Some (True, k')" "event_walked e (snd rest) b k1 k'"
      using Cons.IH [of k1 b "snd rest" True] Cons.prems(2) by (auto elim!: returnsE)
    have "t \<notin> fst ` set (snd rest)" using nt serve_members unfolding rest_def by fast
    then have "event_walked e gs b k k'"
      using event_walked_trans [OF k1(2) k'(2)] sv(2) by simp
    moreover have "event_walk e (t # ts) need k = Some (True, k')"
      using event_walk_match [OF True r_def b1_def, of ts need] k1(1) k'(1) by simp
    ultimately show ?thesis using sv(2) by simp
  qed
qed

section \<open>Sending\<close>

text \<open>No thread waits for bits that are there: the invariant of an event object.\<close>

definition event_ok :: "kernel \<Rightarrow> nat \<Rightarrow> bool" where
  "event_ok k e \<longleftrightarrow> (\<forall>t \<in> set (event_waiters k e).
     \<not> event_match (event_info (threads k t)) (event_set (threads k t)) (event_bits (events k e)))"

lemma event_walked_schedule:
  assumes w: "event_walked e gs b k k1" and cur: "rt_current_thread k1 = Some c"
  shows "returns (rt_schedule k1) (\<lambda>k'. kinv k' \<and> event_waiters k' e = event_waiters k1 e \<and>
    events k' = events k1 \<and>
    (\<forall>u. event_set (threads k' u) = event_set (threads k1 u) \<and> event_info (threads k' u) = event_info (threads k1 u) \<and>
      error (threads k' u) = error (threads k1 u) \<and> runnable k' u = runnable k1 u))"
proof -
  have k1: "kinv k1" using w by (simp add: event_walked_def)
  from rt_schedule_spec [OF k1 cur] obtain k' where
    k': "rt_schedule k1 = Some k'" "kinv k'" "sched_frame k1 k'" by (auto elim!: returnsE)
  note f = sched_frameD [OF k'(3)]
  note i = ipc_frameD [OF ipc_frame_sched [OF k'(3)]]
  have "error (threads k' u) = error (threads k1 u)" for u using error_stat [OF f(15)] .
  with k' i f(16,18) show ?thesis by simp
qed

text \<open>
  C13. \<^verbatim>\<open>rt_event_send\<close> with a nonempty set, compared with the reference \<open>serve\<close>: the bits are
  added, the waiters are visited in their order, and those satisfied by the bits their
  predecessors left are taken off the list, can run, and have received exactly their bits
  (their receive call returns them); bits of waiters with the clear option are gone; the
  others stay in order, and none of them is satisfied by the bits that are left.
\<close>

theorem rt_event_send_serves:
  assumes k: "kinv k" and cur: "rt_current_thread k \<noteq> None" and e: "is_event e k" and st: "st \<noteq> 0"
    and s: "serve (\<lambda>t. event_info (threads k t)) (\<lambda>t. event_set (threads k t)) (event_waiters k e)
      (event_bits (events k e) OR st) = (b, gs)"
  shows "\<exists>k'. rt_event_send e st k = Some (RT_EOK, k') \<and> kinv k' \<and> event_ok k' e \<and>
    event_bits (events k' e) = b \<and>
    event_waiters k' e = filter (\<lambda>t. t \<notin> fst ` set gs) (event_waiters k e) \<and>
    (\<forall>(t, r) \<in> set gs. runnable k' t \<and> event_set (threads k' t) = r \<and>
      (error (threads k t) = RT_EOK \<longrightarrow> rt_event_recv_resume t k' = (Ret RT_EOK (VWord r), k')))"
proof -
  let ?k = "set_event e (event_bits (events k e) OR st) k"
  have "distinct (event_waiters ?k e)"
    using sched_invD(7) [OF kinvD(1) [OF k]] by (simp add: lists_wf_def)
  moreover have "serve (\<lambda>t. event_info (threads ?k t)) (\<lambda>t. event_set (threads ?k t)) (event_waiters ?k e)
      (event_bits (events ?k e)) = (b, gs)" using s by simp
  ultimately obtain k1 where k1: "event_walk e (event_waiters ?k e) False ?k = Some (gs \<noteq> [], k1)"
      "event_walked e gs b ?k k1"
    using event_walk_spec [of ?k "event_waiters ?k e" e b gs False] k by (auto elim!: returnsE)
  note w = k1(2) [unfolded event_walked_def]
  obtain c where c: "rt_current_thread k1 = Some c" using w cur by auto
  from event_walked_schedule [OF k1(2) c] obtain k2 where
    k2: "rt_schedule k1 = Some k2" "kinv k2" "event_waiters k2 e = event_waiters k1 e" "events k2 = events k1"
      "\<And>u. event_set (threads k2 u) = event_set (threads k1 u) \<and> event_info (threads k2 u) = event_info (threads k1 u) \<and>
        error (threads k2 u) = error (threads k1 u) \<and> runnable k2 u = runnable k1 u"
    by (elim returnsE) blast
  define k' where "k' = (if gs \<noteq> [] then k2 else k1)"
  have k': "kinv k'" "event_waiters k' e = event_waiters k1 e" "events k' = events k1"
      "event_set (threads k' u) = event_set (threads k1 u)" "event_info (threads k' u) = event_info (threads k1 u)"
      "error (threads k' u) = error (threads k1 u)" "runnable k' u = runnable k1 u" for u
    using k2(2-5) w by (simp_all add: k'_def)
  have "rt_event_send e st k = Some (RT_EOK, k')"
    using e st k1(1) k2(1) by (simp add: rt_event_send_def k'_def)
  moreover have "event_ok k' e"
  proof -
    have "\<not> event_match (event_info (threads k t)) (event_set (threads k t)) b"
      if "t \<in> set (event_waiters k e)" "t \<notin> fst ` set gs" for t
      using serve_refused [OF that(1), where b = "event_bits (events k e) OR st"
          and opt = "\<lambda>t. event_info (threads k t)" and s = "\<lambda>t. event_set (threads k t)"] that(2) s
      by simp
    then show ?thesis
      unfolding event_ok_def k' using w by simp
  qed
  ultimately show ?thesis
    using k' w by (auto simp: rt_event_recv_resume_def)
qed

text \<open>Thread 3 waits for one of the bits 1 and 2 and clears what it receives.\<close>

definition example_event :: kernel where
  "example_event = upd_thread 3 (\<lambda>x. x\<lparr>event_set := 6, event_info := 6\<rparr>)
     (example_waiting (SuspendThread (OEvent 0)))"

lemma example_event_facts:
  "kinv example_event" "rt_current_thread example_event = Some 1" "is_event e example_event"
  "event_waiters example_event 0 = [3]" "event_bits (events example_event 0) = 0"
  "event_set (threads example_event 3) = 6" "event_info (threads example_event 3) = 6"
  "error (threads example_event 3) = 0"
proof -
  have "kinv (example_waiting (SuspendThread (OEvent 0)))" by (rule kinv_example_waiting) simp
  then show "kinv example_event" unfolding example_event_def by (rule kinv_upd_thread) simp_all
  show "rt_current_thread example_event = Some 1" "event_waiters example_event 0 = [3]"
    "event_set (threads example_event 3) = 6" "event_info (threads example_event 3) = 6"
    by (simp_all add: example_event_def kdefs example_waiting_def)
  show "is_event e example_event" "event_bits (events example_event 0) = 0" "error (threads example_event 3) = 0"
    by (simp_all add: example_event_def kdefs example_waiting_def is_event_def rt_object_get_type_def
        example_objs_def example_thread_def zero_thread_def)
       (simp add: example_kernel_def zero_kernel_def)
qed

theorem rt_event_send_serves_witness:
  "\<exists>k'. rt_event_send 0 3 example_event = Some (RT_EOK, k') \<and> event_bits (events k' 0) = 1 \<and>
     rt_event_recv_resume 3 k' = (Ret RT_EOK (VWord 2), k')"
proof -
  have "serve (\<lambda>t. event_info (threads example_event t)) (\<lambda>t. event_set (threads example_event t))
      (event_waiters example_event 0) (event_bits (events example_event 0) OR 3) = (1, [(3, 2)])"
    by (simp add: example_event_facts event_match_def event_received_def Let_def)
  from rt_event_send_serves [OF example_event_facts(1) _ example_event_facts(3) _ this]
  show ?thesis using example_event_facts(2,8) by auto
qed

section \<open>Receiving\<close>

text \<open>
  C24. \<^verbatim>\<open>rt_event_recv\<close> on every branch, called by the running thread with a nonempty set and
  a legal option: when the bits satisfy it, it returns those of them it asked for and clears
  them if asked to; otherwise it reports the timeout at once with time 0, or waits with its
  set and option recorded in the thread, in the order of the event's flag, which keeps the
  invariant that nobody waits for bits that are there.
\<close>

theorem rt_event_recv_correct:
  assumes k: "kinv k" and cur: "rt_current_thread k = Some t" and run: "tstat k t = RT_THREAD_RUNNING"
    and e: "is_event e k" and st: "st \<noteq> 0"
    and opt: "opt AND RT_EVENT_FLAG_AND \<noteq> 0 \<or> opt AND RT_EVENT_FLAG_OR \<noteq> 0"
    and fl: "flag (objs k (OEvent e)) \<in> {RT_IPC_FLAG_FIFO, RT_IPC_FLAG_PRIO}"
    and time: "time_ok timeout" and nest: "rt_interrupt_nest k = 0"
  shows "(event_match opt st (event_bits (events k e)) \<longrightarrow>
      (\<exists>k'. rt_event_recv e st opt timeout k = Some (Ret RT_EOK (VWord (event_bits (events k e) AND st)), k') \<and>
        event_bits (events k' e) = (if opt AND RT_EVENT_FLAG_CLEAR \<noteq> 0
          then event_bits (events k e) AND NOT st else event_bits (events k e)) \<and> tlists k' = tlists k)) \<and>
    (\<not> event_match opt st (event_bits (events k e)) \<and> timeout = 0 \<longrightarrow>
      (\<exists>k'. rt_event_recv e st opt timeout k = Some (Ret (- RT_ETIMEOUT) VNone, k') \<and>
        events k' = events k \<and> tlists k' = tlists k)) \<and>
    (\<not> event_match opt st (event_bits (events k e)) \<and> timeout \<noteq> 0 \<longrightarrow>
      (\<exists>k'. rt_event_recv e st opt timeout k = Some (Wait K_event_recv, k') \<and>
        blocked (SuspendThread (OEvent e)) t (flag (objs k (OEvent e))) timeout
          (upd_thread t (\<lambda>x. x\<lparr>error := RT_EOK, event_set := st, event_info := opt\<rparr>) k) k' \<and>
        (event_ok k e \<longrightarrow> event_ok k' e)))"
proof -
  let ?k = "upd_thread t (\<lambda>x. x\<lparr>error := RT_EOK, event_set := st, event_info := opt\<rparr>) k"
  have kk: "kinv ?k" by (rule kinv_upd_thread [OF k]) simp_all
  have c: "rt_current_thread ?k = Some t" "objs ?k = objs k" "runnable ?k t" "tlists ?k = tlists k"
      "events ?k = events k"
    using cur run by (simp_all add: kdefs runnable_def)
  have "returns (ipc_block (SuspendThread (OEvent e)) t (flag (objs ?k (OEvent e))) timeout ?k)
      (blocked (SuspendThread (OEvent e)) t (flag (objs ?k (OEvent e))) timeout ?k)"
    by (rule ipc_block_spec [OF kk c(1,3) _ _ time]) (use fl c(2) in auto)
  then obtain k' where k': "ipc_block (SuspendThread (OEvent e)) t (flag (objs ?k (OEvent e))) timeout ?k = Some k'"
      "blocked (SuspendThread (OEvent e)) t (flag (objs k (OEvent e))) timeout ?k k'"
    unfolding returns_def c(2) by blast
  have twice: "upd_thread t (\<lambda>x. x\<lparr>event_set := st, event_info := opt\<rparr>) (upd_thread t (\<lambda>x. x\<lparr>error := RT_EOK\<rparr>) k) = ?k"
    by (simp add: kdefs)
  have recv: "rt_event_recv e st opt timeout k = Some (Wait K_event_recv, k')"
    if "\<not> event_match opt st (event_bits (events k e))" "timeout \<noteq> 0"
    using that opt e st cur nest k'(1) c(2)
    by (simp add: rt_event_recv_def RT_DEBUG_IN_THREAD_CONTEXT_def RT_DEBUG_NOT_IN_INTERRUPT_def
        rt_thread_self_def rt_interrupt_get_nest_def twice) (simp add: kdefs)
  have ok: "event_ok k' e" if "event_ok k e" "\<not> event_match opt st (event_bits (events k e))"
  proof -
    have f: "ipc_frame ?k k'" and l: "set (event_waiters k' e) = insert t (set (event_waiters k e))"
      using k'(2) c(4) by (simp_all add: blocked_on_def wait_insert_facts)
    have "t \<notin> set (event_waiters k e)"
      using not_waiting_runnable [OF kk c(3), of "SuspendThread (OEvent e)"] c(4) by simp
    then show ?thesis
      using that l ipc_frameD(3,15,16) [OF f] c(5) by (auto simp: event_ok_def kdefs)
  qed
  show ?thesis
    using recv k'(2) ok opt e st cur nest
    by (auto simp: rt_event_recv_def RT_DEBUG_IN_THREAD_CONTEXT_def RT_DEBUG_NOT_IN_INTERRUPT_def
        rt_thread_self_def rt_interrupt_get_nest_def kdefs Let_def)
qed

theorem rt_event_recv_correct_witness:
  "\<exists>k'. rt_event_recv 0 3 RT_EVENT_FLAG_AND 7 example_kernel = Some (Wait K_event_recv, k') \<and>
     event_waiters k' 0 = [1] \<and> event_set (threads k' 1) = 3 \<and> due k' (ThreadTimer 1) = 7"
proof -
  let ?k = example_kernel
  have e: "kinv ?k" "rt_current_thread ?k = Some 1" "tstat ?k 1 = RT_THREAD_RUNNING" "is_event 0 ?k"
    "flag (objs ?k (OEvent 0)) = RT_IPC_FLAG_FIFO" "rt_interrupt_nest ?k = 0" "time_ok 7"
    "\<not> event_match RT_EVENT_FLAG_AND 3 (event_bits (events ?k 0))"
    by (simp_all add: kinv_example is_event_def rt_object_get_type_def example_objs_def time_ok_def
        event_match_def) (simp add: example_kernel_def zero_kernel_def)
  obtain k' where k': "rt_event_recv 0 3 RT_EVENT_FLAG_AND 7 ?k = Some (Wait K_event_recv, k')"
      "blocked (SuspendThread (OEvent 0)) 1 RT_IPC_FLAG_FIFO 7
        (upd_thread 1 (\<lambda>x. x\<lparr>error := RT_EOK, event_set := 3, event_info := RT_EVENT_FLAG_AND\<rparr>) ?k) k'"
    using rt_event_recv_correct [OF e(1-4) _ _ _ e(7,6), of 3 RT_EVENT_FLAG_AND] e(5,8) by auto
  then have "ipc_frame (upd_thread 1 (\<lambda>x. x\<lparr>error := RT_EOK, event_set := 3, event_info := RT_EVENT_FLAG_AND\<rparr>) ?k) k'"
    by (simp add: blocked_on_def)
  from ipc_frameD(15) [OF this, of 1] k' show ?thesis
    by (auto simp: blocked_on_def wait_insert_def kdefs)
qed

section \<open>Detach and delete\<close>

lemma rt_event_detach_spec:
  assumes k: "kinv k" and e: "is_event e k" and st: "rt_object_is_systemobject (OEvent e) k"
  shows "returns (rt_event_detach e k) (\<lambda>(r, k'). r = RT_EOK \<and> kinv k' \<and> \<not> is_event e k' \<and>
    event_waiters k' e = [] \<and> (\<forall>t \<in> set (event_waiters k e). runnable k' t \<and>
      rt_event_recv_resume t k' = (Ret (- RT_ERROR) VNone, k')))"
proof -
  obtain k1 where k1: "rt_ipc_list_resume_all (SuspendThread (OEvent e)) k = Some k1"
      "woken_all (SuspendThread (OEvent e)) k k1" "kinv (rt_object_detach (OEvent e) k1)"
    using ipc_destroy [OF k, of "SuspendThread (OEvent e)" "OEvent e"] by auto
  then show ?thesis
    using e st by (auto simp: rt_event_detach_def woken_all_def runnable_def rt_event_recv_resume_def
        is_event_def rt_object_get_type_def)
qed

end
