(* ===== verification/Mailbox.thy ===== *)
theory Mailbox
  imports Ipc_Base Fifo
begin

text \<open>
  Mailboxes: the functions \<^verbatim>\<open>rt_mb_*\<close> of \<^verbatim>\<open>src/ipc.c\<close>. A mailbox is a circular array of
  one-word mails with a list of waiting receivers and one of waiting senders. A blocked
  sender or receiver loops: when it is woken it looks at the mailbox again, with what is
  left of its time.
\<close>

section \<open>The circular array\<close>

definition mb_put :: "u32 \<Rightarrow> rt_mailbox \<Rightarrow> rt_mailbox option" where
  "mb_put value mb = do {
     rt_assert (unat (in_offset mb) < length (msg_pool mb));
     let mb = mb\<lparr>msg_pool := (msg_pool mb)[unat (in_offset mb) := value]\<rparr>;
     let mb = mb\<lparr>in_offset := in_offset mb + 1\<rparr>;
     let mb = (if in_offset mb \<ge> mb_size mb then mb\<lparr>in_offset := 0\<rparr> else mb);
     Some (mb\<lparr>mb_entry := mb_entry mb + 1\<rparr>)
   }"

definition mb_take :: "rt_mailbox \<Rightarrow> (u32 \<times> rt_mailbox) option" where
  "mb_take mb = do {
     rt_assert (unat (out_offset mb) < length (msg_pool mb));
     let value = msg_pool mb ! unat (out_offset mb);
     let mb = mb\<lparr>out_offset := out_offset mb + 1\<rparr>;
     let mb = (if out_offset mb \<ge> mb_size mb then mb\<lparr>out_offset := 0\<rparr> else mb);
     Some (value, mb\<lparr>mb_entry := mb_entry mb - 1\<rparr>)
   }"

definition mb_inv :: "rt_mailbox \<Rightarrow> bool" where
  "mb_inv mb \<longleftrightarrow> mb_size mb \<noteq> 0 \<and> unat (mb_size mb) \<le> length (msg_pool mb) \<and>
     out_offset mb < mb_size mb \<and> mb_entry mb \<le> mb_size mb \<and>
     unat (in_offset mb) = (unat (out_offset mb) + unat (mb_entry mb)) mod unat (mb_size mb)"

definition mails :: "rt_mailbox \<Rightarrow> u32 list" where
  "mails mb = ring_read (msg_pool mb) (unat (mb_size mb)) (unat (out_offset mb)) (unat (mb_entry mb))"

lemma mb_put_spec:
  assumes inv: "mb_inv mb" and room: "length (mails mb) < unat (mb_size mb)"
  shows "returns (mb_put x mb) (\<lambda>mb'. mb_inv mb' \<and> mails mb' = mails mb @ [x] \<and> mb_size mb' = mb_size mb)"
proof -
  let ?n = "unat (mb_size mb)" and ?i = "unat (in_offset mb)"
  let ?in = "if in_offset mb + 1 \<ge> mb_size mb then 0 else in_offset mb + 1"
  note i = inv [unfolded mb_inv_def]
  have n: "0 < ?n" using i by (simp add: unat_gt_0)
  have lt: "?i < ?n" using i n by simp
  have e: "mb_entry mb < mb_size mb" using room by (simp add: mails_def word_less_nat_alt)
  have e': "unat (mb_entry mb + 1) = Suc (unat (mb_entry mb))" by (rule unat_Suc_less [OF e])
  have in': "unat ?in = (unat (out_offset mb) + Suc (unat (mb_entry mb))) mod ?n"
    using unat_advance [of "in_offset mb" "mb_size mb"] lt i
    by (simp add: word_less_nat_alt mod_Suc_eq)
  have put: "mb_put x mb = Some (mb\<lparr>msg_pool := (msg_pool mb)[?i := x], in_offset := ?in, mb_entry := mb_entry mb + 1\<rparr>)"
    using lt i by (simp add: mb_put_def Let_def)
  have "mails (mb\<lparr>msg_pool := (msg_pool mb)[?i := x], in_offset := ?in, mb_entry := mb_entry mb + 1\<rparr>) = mails mb @ [x]"
    using ring_read_write [of "unat (mb_entry mb)" ?n "msg_pool mb" "unat (out_offset mb)" x] i e
    by (simp add: mails_def e' word_less_nat_alt)
  moreover have "mb_inv (mb\<lparr>msg_pool := (msg_pool mb)[?i := x], in_offset := ?in, mb_entry := mb_entry mb + 1\<rparr>)"
    using i e e' in' unfolding mb_inv_def by (simp add: word_le_nat_alt word_less_nat_alt)
  ultimately show ?thesis unfolding put by simp
qed

lemma mb_take_spec:
  assumes inv: "mb_inv mb" and some: "mails mb = x # xs"
  shows "returns (mb_take mb) (\<lambda>(y, mb'). y = x \<and> mb_inv mb' \<and> mails mb' = xs \<and> mb_size mb' = mb_size mb)"
proof -
  let ?n = "unat (mb_size mb)" and ?o = "unat (out_offset mb)"
  let ?out = "if out_offset mb + 1 \<ge> mb_size mb then 0 else out_offset mb + 1"
  note i = inv [unfolded mb_inv_def]
  have o: "?o < ?n" using i by (simp add: word_less_nat_alt)
  have "length (mails mb) = unat (mb_entry mb)" by (simp add: mails_def)
  then have "unat (mb_entry mb) = Suc (length xs)" using some by simp
  moreover have "unat (mb_entry mb - 1) = length xs"
    using calculation by (subst unat_sub) (simp_all add: word_le_nat_alt)
  ultimately have e: "unat (mb_entry mb) = Suc (unat (mb_entry mb - 1))" by simp
  have out: "unat ?out = Suc ?o mod ?n" using unat_advance i by blast
  have "mails mb = msg_pool mb ! ?o # ring_read (msg_pool mb) ?n (Suc ?o) (unat (mb_entry mb - 1))"
    unfolding mails_def by (subst e) (use o in \<open>simp add: ring_read_Suc\<close>)
  then have m: "x = msg_pool mb ! ?o" "xs = ring_read (msg_pool mb) ?n (Suc ?o) (unat (mb_entry mb - 1))"
    using some by simp_all
  have take: "mb_take mb = Some (msg_pool mb ! ?o, mb\<lparr>out_offset := ?out, mb_entry := mb_entry mb - 1\<rparr>)"
    using o i by (simp add: mb_take_def Let_def)
  have "mb_inv (mb\<lparr>out_offset := ?out, mb_entry := mb_entry mb - 1\<rparr>)"
    using i e out o by (simp add: mb_inv_def word_le_nat_alt word_less_nat_alt mod_simps)
  moreover have "mails (mb\<lparr>out_offset := ?out, mb_entry := mb_entry mb - 1\<rparr>) = xs"
    unfolding m(2) using out by (simp add: mails_def ring_read_mod)
  ultimately show ?thesis unfolding take using m(1) by simp
qed

lemma mb_full_empty:
  assumes "mb_inv mb"
  shows "mb_entry mb = mb_size mb \<longleftrightarrow> length (mails mb) = unat (mb_size mb)"
    and "mb_entry mb = 0 \<longleftrightarrow> mails mb = []"
  by (simp add: mails_def word_unat_eq_iff, simp add: mails_def ring_read_def unat_eq_zero)

interpretation mb: bounded_fifo mb_inv "\<lambda>mb. unat (mb_size mb)" mails
  "\<lambda>mb. mb_entry mb = mb_size mb" "\<lambda>mb. mb_entry mb = 0" "\<lambda>_ _. True" mb_put mb_take
proof unfold_locales
  show "length (mails s) \<le> unat (mb_size s)" if "mb_inv s" for s
    using that by (simp add: mb_inv_def mails_def word_le_nat_alt)
  show "returns (mb_put x s) (\<lambda>s'. mb_inv s' \<and> mails s' = mails s @ [x] \<and> unat (mb_size s') = unat (mb_size s) \<and>
      (\<lambda>_::u32. True) = (\<lambda>_. True))"
    if "mb_inv s" "length (mails s) < unat (mb_size s)" for s x
    using mb_put_spec [OF that] by (rule returns_mono) simp
  show "returns (mb_take s) (\<lambda>(y, s'). y = x \<and> mb_inv s' \<and> mails s' = xs \<and> unat (mb_size s') = unat (mb_size s) \<and>
      (\<lambda>_::u32. True) = (\<lambda>_. True))"
    if "mb_inv s" "mails s = x # xs" for s x xs
    using mb_take_spec [OF that] by (rule returns_mono) auto
qed (simp_all add: mb_full_empty)

section \<open>Operations\<close>

abbreviation mb_receivers :: "kernel \<Rightarrow> nat \<Rightarrow> nat list" where
  "mb_receivers k m \<equiv> tlists k (SuspendThread (OMailbox m))"

abbreviation mb_senders :: "kernel \<Rightarrow> nat \<Rightarrow> nat list" where
  "mb_senders k m \<equiv> tlists k (SuspendSender m)"

definition set_mb :: "nat \<Rightarrow> rt_mailbox \<Rightarrow> kernel \<Rightarrow> kernel" where
  "set_mb m x k = k\<lparr>mailboxes := (mailboxes k)(m := x)\<rparr>"

definition is_mailbox :: "nat \<Rightarrow> kernel \<Rightarrow> bool" where
  "is_mailbox m k \<longleftrightarrow> rt_object_get_type (OMailbox m) k = RT_Object_Class_MailBox"

text \<open>
  The pool given to \<^verbatim>\<open>rt_mb_init\<close> is modelled by its words. In \<^verbatim>\<open>rt_mb_create\<close> the pool is
  what \<^verbatim>\<open>RT_KERNEL_MALLOC\<close> returned for the size after its truncation to 16 bits.
\<close>

definition mb_init_fields :: "nat \<Rightarrow> u32 list \<Rightarrow> u32 \<Rightarrow> u8 \<Rightarrow> kernel \<Rightarrow> kernel" where
  "mb_init_fields m pool sz fl k =
     (let k = upd_obj (OMailbox m) (\<lambda>ob. ob\<lparr>flag := fl\<rparr>) k;
          k = rt_ipc_object_init (SuspendThread (OMailbox m)) k;
          k = set_mb m \<lparr>msg_pool = pool, mb_size = ucast sz, mb_entry = 0, in_offset = 0,
                out_offset = 0\<rparr> k
      in rt_ipc_object_init (SuspendSender m) k)"

definition rt_mb_init ::
    "nat \<Rightarrow> u8 list \<Rightarrow> u32 list \<Rightarrow> u32 \<Rightarrow> u8 \<Rightarrow> kernel \<Rightarrow> (rt_err_t \<times> kernel) option" where
  "rt_mb_init m nm pool sz fl k = do {
     k \<leftarrow> rt_object_init (OMailbox m) RT_Object_Class_MailBox nm k;
     Some (RT_EOK, mb_init_fields m pool sz fl k)
   }"

definition rt_mb_create ::
    "nat option \<Rightarrow> u32 list option \<Rightarrow> u8 list \<Rightarrow> u32 \<Rightarrow> u8 \<Rightarrow> kernel \<Rightarrow> (nat option \<times> kernel) option" where
  "rt_mb_create mallocd pool_mallocd nm sz fl k = do {
     RT_DEBUG_NOT_IN_INTERRUPT k;
     (_, k) \<leftarrow> rt_object_allocate (map_option OMailbox mallocd) RT_Object_Class_MailBox nm k;
     case mallocd of
       None \<Rightarrow> Some (None, k)
     | Some m \<Rightarrow>
         (case pool_mallocd of
            None \<Rightarrow> do {
              let k = upd_obj (OMailbox m) (\<lambda>ob. ob\<lparr>flag := fl\<rparr>) k;
              let k = rt_ipc_object_init (SuspendThread (OMailbox m)) k;
              let k = set_mb m ((mailboxes k m)\<lparr>mb_size := ucast sz\<rparr>) k;
              k \<leftarrow> rt_object_delete (OMailbox m) k;
              Some (None, k)
            }
          | Some pool \<Rightarrow> Some (Some m, mb_init_fields m pool sz fl k))
   }"

definition rt_mb_detach :: "nat \<Rightarrow> kernel \<Rightarrow> (rt_err_t \<times> kernel) option" where
  "rt_mb_detach m k = do {
     rt_assert (is_mailbox m k);
     rt_assert (rt_object_is_systemobject (OMailbox m) k);
     k \<leftarrow> rt_ipc_list_resume_all (SuspendThread (OMailbox m)) k;
     k \<leftarrow> rt_ipc_list_resume_all (SuspendSender m) k;
     Some (RT_EOK, rt_object_detach (OMailbox m) k)
   }"

definition rt_mb_delete :: "nat \<Rightarrow> kernel \<Rightarrow> (rt_err_t \<times> kernel) option" where
  "rt_mb_delete m k = do {
     RT_DEBUG_NOT_IN_INTERRUPT k;
     rt_assert (is_mailbox m k);
     rt_assert (\<not> rt_object_is_systemobject (OMailbox m) k);
     k \<leftarrow> rt_ipc_list_resume_all (SuspendThread (OMailbox m)) k;
     k \<leftarrow> rt_ipc_list_resume_all (SuspendSender m) k;
     k \<leftarrow> rt_object_delete (OMailbox m) k;
     Some (RT_EOK, k)
   }"

text \<open>One turn of the sender's loop, with the send itself when there is room.\<close>

definition mb_send_loop :: "nat \<Rightarrow> u32 \<Rightarrow> int \<Rightarrow> kernel \<Rightarrow> (outcome \<times> kernel) option" where
  "mb_send_loop m value timeout k =
     (if mb_entry (mailboxes k m) = mb_size (mailboxes k m) then do {
        t \<leftarrow> rt_thread_self k;
        let k = upd_thread t (\<lambda>x. x\<lparr>error := RT_EOK\<rparr>) k;
        if timeout = 0 then Some (Ret (- RT_EFULL) VNone, k)
        else do {
          RT_DEBUG_IN_THREAD_CONTEXT k;
          let tick_delta = rt_tick_get k;
          k \<leftarrow> ipc_block (SuspendSender m) t (flag (objs k (OMailbox m))) timeout k;
          Some (Wait (K_mb_send m value timeout tick_delta), k)
        }
      } else do {
        x \<leftarrow> mb_put value (mailboxes k m);
        let k = set_mb m x k;
        if mb_receivers k m \<noteq> [] then do {
          k \<leftarrow> rt_ipc_list_resume (SuspendThread (OMailbox m)) k;
          k \<leftarrow> rt_schedule k;
          Some (Ret RT_EOK VNone, k)
        } else Some (Ret RT_EOK VNone, k)
      })"

definition rt_mb_send_wait :: "nat \<Rightarrow> u32 \<Rightarrow> int \<Rightarrow> kernel \<Rightarrow> (outcome \<times> kernel) option" where
  "rt_mb_send_wait m value timeout k = do {
     rt_assert (is_mailbox m k);
     if mb_entry (mailboxes k m) = mb_size (mailboxes k m) \<and> timeout = 0
     then Some (Ret (- RT_EFULL) VNone, k)
     else mb_send_loop m value timeout k
   }"

definition rt_mb_send_resume ::
    "nat \<Rightarrow> nat \<Rightarrow> u32 \<Rightarrow> int \<Rightarrow> u32 \<Rightarrow> kernel \<Rightarrow> (outcome \<times> kernel) option" where
  "rt_mb_send_resume t m value timeout tick_delta k =
     (if error (threads k t) \<noteq> RT_EOK then Some (Ret (error (threads k t)) VNone, k)
      else mb_send_loop m value (time_left timeout tick_delta k) k)"

definition rt_mb_send :: "nat \<Rightarrow> u32 \<Rightarrow> kernel \<Rightarrow> (outcome \<times> kernel) option" where
  "rt_mb_send m value k = rt_mb_send_wait m value 0 k"

definition mb_recv_loop :: "nat \<Rightarrow> int \<Rightarrow> kernel \<Rightarrow> (outcome \<times> kernel) option" where
  "mb_recv_loop m timeout k =
     (if mb_entry (mailboxes k m) = 0 then do {
        t \<leftarrow> rt_thread_self k;
        let k = upd_thread t (\<lambda>x. x\<lparr>error := RT_EOK\<rparr>) k;
        if timeout = 0
        then Some (Ret (- RT_ETIMEOUT) VNone, upd_thread t (\<lambda>x. x\<lparr>error := - RT_ETIMEOUT\<rparr>) k)
        else do {
          RT_DEBUG_IN_THREAD_CONTEXT k;
          let tick_delta = rt_tick_get k;
          k \<leftarrow> ipc_block (SuspendThread (OMailbox m)) t (flag (objs k (OMailbox m))) timeout k;
          Some (Wait (K_mb_recv m timeout tick_delta), k)
        }
      } else do {
        (value, x) \<leftarrow> mb_take (mailboxes k m);
        let k = set_mb m x k;
        if mb_senders k m \<noteq> [] then do {
          k \<leftarrow> rt_ipc_list_resume (SuspendSender m) k;
          k \<leftarrow> rt_schedule k;
          Some (Ret RT_EOK (VWord value), k)
        } else Some (Ret RT_EOK (VWord value), k)
      })"

definition rt_mb_recv :: "nat \<Rightarrow> int \<Rightarrow> kernel \<Rightarrow> (outcome \<times> kernel) option" where
  "rt_mb_recv m timeout k = do {
     rt_assert (is_mailbox m k);
     if mb_entry (mailboxes k m) = 0 \<and> timeout = 0 then Some (Ret (- RT_ETIMEOUT) VNone, k)
     else mb_recv_loop m timeout k
   }"

definition rt_mb_recv_resume ::
    "nat \<Rightarrow> nat \<Rightarrow> int \<Rightarrow> u32 \<Rightarrow> kernel \<Rightarrow> (outcome \<times> kernel) option" where
  "rt_mb_recv_resume t m timeout tick_delta k =
     (if error (threads k t) \<noteq> RT_EOK then Some (Ret (error (threads k t)) VNone, k)
      else mb_recv_loop m (time_left timeout tick_delta k) k)"

definition rt_mb_control :: "nat \<Rightarrow> ipc_ctrl \<Rightarrow> kernel \<Rightarrow> (rt_err_t \<times> kernel) option" where
  "rt_mb_control m cmd k = do {
     rt_assert (is_mailbox m k);
     case cmd of
       Ipc_reset _ \<Rightarrow> do {
         k \<leftarrow> rt_ipc_list_resume_all (SuspendThread (OMailbox m)) k;
         k \<leftarrow> rt_ipc_list_resume_all (SuspendSender m) k;
         k \<leftarrow> rt_schedule (set_mb m ((mailboxes k m)\<lparr>mb_entry := 0, in_offset := 0, out_offset := 0\<rparr>) k);
         Some (RT_EOK, k)
       }
     | Ipc_other \<Rightarrow> Some (- RT_ERROR, k)
   }"

section \<open>Sending and receiving\<close>

lemma set_mb_sel [simp]:
  "mailboxes (set_mb m x k) = (mailboxes k)(m := x)" "tlists (set_mb m x k) = tlists k"
  "threads (set_mb m x k) = threads k" "objs (set_mb m x k) = objs k"
  "rt_current_thread (set_mb m x k) = rt_current_thread k" "kinv (set_mb m x k) = kinv k"
  by (simp_all add: set_mb_def)

text \<open>
  A mail has been put or taken, and the first thread waiting on the other side of the
  mailbox, if any, can run.
\<close>

definition mb_moved :: "nat \<Rightarrow> thead \<Rightarrow> u32 list \<Rightarrow> kernel \<Rightarrow> kernel \<Rightarrow> bool" where
  "mb_moved m h ms k k' \<longleftrightarrow> kinv k' \<and> mb_inv (mailboxes k' m) \<and> mails (mailboxes k' m) = ms \<and>
     (\<forall>m'. m' \<noteq> m \<longrightarrow> mailboxes k' m' = mailboxes k m') \<and>
     tlists k' h = tl (tlists k h) \<and>
     (\<forall>h'. wait_head h' \<and> h' \<noteq> h \<longrightarrow> tlists k' h' = tlists k h') \<and>
     (\<forall>t ts. tlists k h = t # ts \<longrightarrow> runnable k' t) \<and>
     (\<forall>u. error (threads k' u) = error (threads k u))"

lemma mb_move:
  assumes k: "kinv k" and cur: "rt_current_thread k \<noteq> None" and h: "wait_head h"
    and x: "mb_inv x" "mails x = ms"
  obtains k' where "(if tlists k h \<noteq> [] then do {
      k \<leftarrow> rt_ipc_list_resume h (set_mb m x k);
      k \<leftarrow> rt_schedule k;
      Some (r, k) } else Some (r, set_mb m x k)) = Some (r, k')"
    and "mb_moved m h ms k k'"
proof -
  have "kinv (set_mb m x k)" "rt_current_thread (set_mb m x k) \<noteq> None" using k cur by simp_all
  from wake_first [OF this h, of r] obtain k' where
    k': "(if tlists (set_mb m x k) h \<noteq> [] then do {
      k \<leftarrow> rt_ipc_list_resume h (set_mb m x k);
      k \<leftarrow> rt_schedule k;
      Some (r, k) } else Some (r, set_mb m x k)) = Some (r, k')" "passed h (set_mb m x k) k'" .
  have "mb_moved m h ms k k'" using k'(2) x by (auto simp: passed_def mb_moved_def ipc_frame_def)
  with k'(1) show ?thesis by (intro that) simp_all
qed

text \<open>The thread waits on one side of the mailbox.\<close>

lemma mb_wait:
  assumes k: "kinv k" and cur: "rt_current_thread k = Some t" and run: "runnable k t"
    and fl: "flag (objs k (OMailbox m)) \<in> {RT_IPC_FLAG_FIFO, RT_IPC_FLAG_PRIO}"
    and time: "time_ok timeout" and h: "wait_head h"
    and k0: "k0 = upd_thread t (\<lambda>x. x\<lparr>error := RT_EOK\<rparr>) k"
  obtains k' where "ipc_block h t (flag (objs k0 (OMailbox m))) timeout k0 = Some k'"
    and "blocked h t (flag (objs k (OMailbox m))) timeout k0 k'" and "mailboxes k' = mailboxes k"
proof -
  have "objs k0 = objs k" unfolding k0 by (simp add: kdefs)
  moreover obtain k' where "ipc_block h t (flag (objs k (OMailbox m))) timeout k0 = Some k'"
    "blocked h t (flag (objs k (OMailbox m))) timeout k0 k'" "ipc_frame k k'"
    using wait_start [OF k cur run fl time h k0] .
  ultimately show ?thesis using that by (simp add: ipc_frame_def)
qed

lemma mb_send_loop_spec:
  assumes k: "kinv k" and cur: "rt_current_thread k = Some t" and run: "runnable k t"
    and fl: "flag (objs k (OMailbox m)) \<in> {RT_IPC_FLAG_FIFO, RT_IPC_FLAG_PRIO}"
    and time: "time_ok timeout" and nest: "rt_interrupt_nest k = 0" and inv: "mb_inv (mailboxes k m)"
    and k0: "k0 = upd_thread t (\<lambda>x. x\<lparr>error := RT_EOK\<rparr>) k"
  shows "mb_entry (mailboxes k m) \<noteq> mb_size (mailboxes k m) \<Longrightarrow>
      \<exists>k'. mb_send_loop m value timeout k = Some (Ret RT_EOK VNone, k') \<and>
        mb_moved m (SuspendThread (OMailbox m)) (mails (mailboxes k m) @ [value]) k k'"
    and "mb_entry (mailboxes k m) = mb_size (mailboxes k m) \<Longrightarrow> timeout \<noteq> 0 \<Longrightarrow>
      \<exists>k'. mb_send_loop m value timeout k = Some (Wait (K_mb_send m value timeout (rt_tick k)), k') \<and>
        blocked (SuspendSender m) t (flag (objs k (OMailbox m))) timeout k0 k' \<and> mailboxes k' = mailboxes k"
proof -
  assume room: "mb_entry (mailboxes k m) \<noteq> mb_size (mailboxes k m)"
  from mb.put_total [OF inv room, of "value"] obtain x where
    x: "mb_put value (mailboxes k m) = Some x" "mb_inv x" "mails x = mails (mailboxes k m) @ [value]"
    by (auto elim!: returnsE)
  have c: "rt_current_thread k \<noteq> None" using cur by simp
  obtain k' where "(if mb_receivers k m \<noteq> [] then do {
      k \<leftarrow> rt_ipc_list_resume (SuspendThread (OMailbox m)) (set_mb m x k);
      k \<leftarrow> rt_schedule k;
      Some (Ret RT_EOK VNone, k) } else Some (Ret RT_EOK VNone, set_mb m x k)) = Some (Ret RT_EOK VNone, k')"
      "mb_moved m (SuspendThread (OMailbox m)) (mails (mailboxes k m) @ [value]) k k'"
    using mb_move [OF k c _ x(2,3)] by (metis wait_head_simps(1))
  then show "\<exists>k'. mb_send_loop m value timeout k = Some (Ret RT_EOK VNone, k') \<and>
      mb_moved m (SuspendThread (OMailbox m)) (mails (mailboxes k m) @ [value]) k k'"
    using room x(1) by (auto simp: mb_send_loop_def)
next
  assume full: "mb_entry (mailboxes k m) = mb_size (mailboxes k m)" and "timeout \<noteq> 0"
  obtain k' where k': "ipc_block (SuspendSender m) t (flag (objs k0 (OMailbox m))) timeout k0 = Some k'"
      "blocked (SuspendSender m) t (flag (objs k (OMailbox m))) timeout k0 k'" "mailboxes k' = mailboxes k"
    using mb_wait [OF k cur run fl time _ k0, of "SuspendSender m"] by auto
  have "rt_tick k0 = rt_tick k" "rt_current_thread k0 = Some t" "rt_interrupt_nest k0 = 0"
    using nest cur unfolding k0 by (simp_all add: kdefs)
  then show "\<exists>k'. mb_send_loop m value timeout k = Some (Wait (K_mb_send m value timeout (rt_tick k)), k') \<and>
      blocked (SuspendSender m) t (flag (objs k (OMailbox m))) timeout k0 k' \<and> mailboxes k' = mailboxes k"
    using k' full \<open>timeout \<noteq> 0\<close> cur
    by (simp add: mb_send_loop_def RT_DEBUG_IN_THREAD_CONTEXT_def
        RT_DEBUG_NOT_IN_INTERRUPT_def rt_thread_self_def rt_interrupt_get_nest_def rt_tick_get_def
        k0 [symmetric])
qed

lemma mb_recv_loop_spec:
  assumes k: "kinv k" and cur: "rt_current_thread k = Some t" and run: "runnable k t"
    and fl: "flag (objs k (OMailbox m)) \<in> {RT_IPC_FLAG_FIFO, RT_IPC_FLAG_PRIO}"
    and time: "time_ok timeout" and nest: "rt_interrupt_nest k = 0" and inv: "mb_inv (mailboxes k m)"
    and k0: "k0 = upd_thread t (\<lambda>x. x\<lparr>error := RT_EOK\<rparr>) k"
  shows "mb_entry (mailboxes k m) \<noteq> 0 \<Longrightarrow>
      \<exists>k'. mb_recv_loop m timeout k = Some (Ret RT_EOK (VWord (hd (mails (mailboxes k m)))), k') \<and>
        mb_moved m (SuspendSender m) (tl (mails (mailboxes k m))) k k'"
    and "mb_entry (mailboxes k m) = 0 \<Longrightarrow> timeout \<noteq> 0 \<Longrightarrow>
      \<exists>k'. mb_recv_loop m timeout k = Some (Wait (K_mb_recv m timeout (rt_tick k)), k') \<and>
        blocked (SuspendThread (OMailbox m)) t (flag (objs k (OMailbox m))) timeout k0 k' \<and>
        mailboxes k' = mailboxes k"
proof -
  assume some: "mb_entry (mailboxes k m) \<noteq> 0"
  from mb.get_total [OF inv some] obtain x where
    x: "mb_take (mailboxes k m) = Some (hd (mails (mailboxes k m)), x)" "mb_inv x"
      "mails x = tl (mails (mailboxes k m))"
    by (auto elim!: returnsE)
  have c: "rt_current_thread k \<noteq> None" using cur by simp
  let ?r = "Ret RT_EOK (VWord (hd (mails (mailboxes k m))))"
  obtain k' where "(if mb_senders k m \<noteq> [] then do {
      k \<leftarrow> rt_ipc_list_resume (SuspendSender m) (set_mb m x k);
      k \<leftarrow> rt_schedule k;
      Some (?r, k) } else Some (?r, set_mb m x k)) = Some (?r, k')"
      "mb_moved m (SuspendSender m) (tl (mails (mailboxes k m))) k k'"
    using mb_move [OF k c _ x(2,3)] by (metis wait_head_simps(2))
  then show "\<exists>k'. mb_recv_loop m timeout k = Some (?r, k') \<and>
      mb_moved m (SuspendSender m) (tl (mails (mailboxes k m))) k k'"
    using some x(1) by (auto simp: mb_recv_loop_def)
next
  assume "mb_entry (mailboxes k m) = 0" and "timeout \<noteq> 0"
  obtain k' where k': "ipc_block (SuspendThread (OMailbox m)) t (flag (objs k0 (OMailbox m))) timeout k0 = Some k'"
      "blocked (SuspendThread (OMailbox m)) t (flag (objs k (OMailbox m))) timeout k0 k'"
      "mailboxes k' = mailboxes k"
    using mb_wait [OF k cur run fl time _ k0, of "SuspendThread (OMailbox m)"] by auto
  have "rt_tick k0 = rt_tick k" "rt_current_thread k0 = Some t" "rt_interrupt_nest k0 = 0"
    using nest cur unfolding k0 by (simp_all add: kdefs)
  then show "\<exists>k'. mb_recv_loop m timeout k = Some (Wait (K_mb_recv m timeout (rt_tick k)), k') \<and>
      blocked (SuspendThread (OMailbox m)) t (flag (objs k (OMailbox m))) timeout k0 k' \<and> mailboxes k' = mailboxes k"
    using k' \<open>mb_entry (mailboxes k m) = 0\<close> \<open>timeout \<noteq> 0\<close> cur
    by (simp add: mb_recv_loop_def RT_DEBUG_IN_THREAD_CONTEXT_def
        RT_DEBUG_NOT_IN_INTERRUPT_def rt_thread_self_def rt_interrupt_get_nest_def rt_tick_get_def
        k0 [symmetric])
qed

text \<open>
  C19. \<^verbatim>\<open>rt_mb_send_wait\<close> called by the running thread: with room, the mail is appended behind
  the mails in the box and the first waiting receiver, if any, can run; a full box is
  refused at once with time 0, unchanged; otherwise the sender waits in the order of the
  flag, with its timer armed when the time is limited.
\<close>

theorem rt_mb_send_wait_correct:
  assumes k: "kinv k" and cur: "rt_current_thread k = Some t" and run: "tstat k t = RT_THREAD_RUNNING"
    and m: "is_mailbox m k" and inv: "mb_inv (mailboxes k m)"
    and fl: "flag (objs k (OMailbox m)) \<in> {RT_IPC_FLAG_FIFO, RT_IPC_FLAG_PRIO}"
    and time: "time_ok timeout" and nest: "rt_interrupt_nest k = 0"
  shows "(length (mails (mailboxes k m)) < unat (mb_size (mailboxes k m)) \<longrightarrow>
      (\<exists>k'. rt_mb_send_wait m value timeout k = Some (Ret RT_EOK VNone, k') \<and>
        mb_moved m (SuspendThread (OMailbox m)) (mails (mailboxes k m) @ [value]) k k')) \<and>
    (length (mails (mailboxes k m)) = unat (mb_size (mailboxes k m)) \<and> timeout = 0 \<longrightarrow>
      rt_mb_send_wait m value timeout k = Some (Ret (- RT_EFULL) VNone, k)) \<and>
    (length (mails (mailboxes k m)) = unat (mb_size (mailboxes k m)) \<and> timeout \<noteq> 0 \<longrightarrow>
      (\<exists>k'. rt_mb_send_wait m value timeout k = Some (Wait (K_mb_send m value timeout (rt_tick k)), k') \<and>
        blocked (SuspendSender m) t (flag (objs k (OMailbox m))) timeout
          (upd_thread t (\<lambda>x. x\<lparr>error := RT_EOK\<rparr>) k) k' \<and> mailboxes k' = mailboxes k))"
proof -
  have r: "runnable k t" using run by (simp add: runnable_def)
  note spec = mb_send_loop_spec [OF k cur r fl time nest inv refl, of "value"]
  show ?thesis
    using spec mb_full_empty(1) [OF inv] m by (auto simp: rt_mb_send_wait_def)
qed

text \<open>A mailbox of two mails with the mail 7 in it.\<close>

definition example_mb :: kernel where
  "example_mb = set_mb 0 \<lparr>msg_pool = [0, 7], mb_size = 2, mb_entry = 1, in_offset = 0, out_offset = 1\<rparr>
     example_kernel"

lemma example_mb_facts:
  "kinv example_mb" "rt_current_thread example_mb = Some 1" "tstat example_mb 1 = RT_THREAD_RUNNING"
  "is_mailbox m example_mb" "mb_inv (mailboxes example_mb 0)"
  "flag (objs example_mb (OMailbox m)) = RT_IPC_FLAG_FIFO" "rt_interrupt_nest example_mb = 0"
  "mails (mailboxes example_mb 0) = [7]" "mb_size (mailboxes example_mb 0) = 2" "rt_tick example_mb = 0"
  by (simp_all add: example_mb_def kinv_example is_mailbox_def rt_object_get_type_def example_objs_def
      mb_inv_def mails_def ring_read_def set_mb_def)

theorem rt_mb_send_wait_correct_witness:
  "\<exists>k'. rt_mb_send_wait 0 9 0 example_mb = Some (Ret RT_EOK VNone, k') \<and>
     mails (mailboxes k' 0) = [7, 9]"
proof -
  have "time_ok 0" by (simp add: time_ok_def)
  from rt_mb_send_wait_correct [OF example_mb_facts(1-5) _ this example_mb_facts(7), of 9]
  show ?thesis using example_mb_facts(6,8,9) by (auto simp: mb_moved_def)
qed

text \<open>
  C20. \<^verbatim>\<open>rt_mb_recv\<close> called by the running thread: the oldest mail is delivered and taken off
  the box, and the first waiting sender, if any, can run; an empty box is reported at once
  with time 0; otherwise the receiver waits in the order of the flag, with its timer armed
  when the time is limited.
\<close>

theorem rt_mb_recv_correct:
  assumes k: "kinv k" and cur: "rt_current_thread k = Some t" and run: "tstat k t = RT_THREAD_RUNNING"
    and m: "is_mailbox m k" and inv: "mb_inv (mailboxes k m)"
    and fl: "flag (objs k (OMailbox m)) \<in> {RT_IPC_FLAG_FIFO, RT_IPC_FLAG_PRIO}"
    and time: "time_ok timeout" and nest: "rt_interrupt_nest k = 0"
  shows "(\<forall>x xs. mails (mailboxes k m) = x # xs \<longrightarrow>
      (\<exists>k'. rt_mb_recv m timeout k = Some (Ret RT_EOK (VWord x), k') \<and>
        mb_moved m (SuspendSender m) xs k k')) \<and>
    (mails (mailboxes k m) = [] \<and> timeout = 0 \<longrightarrow>
      rt_mb_recv m timeout k = Some (Ret (- RT_ETIMEOUT) VNone, k)) \<and>
    (mails (mailboxes k m) = [] \<and> timeout \<noteq> 0 \<longrightarrow>
      (\<exists>k'. rt_mb_recv m timeout k = Some (Wait (K_mb_recv m timeout (rt_tick k)), k') \<and>
        blocked (SuspendThread (OMailbox m)) t (flag (objs k (OMailbox m))) timeout
          (upd_thread t (\<lambda>x. x\<lparr>error := RT_EOK\<rparr>) k) k' \<and> mailboxes k' = mailboxes k))"
proof -
  have r: "runnable k t" using run by (simp add: runnable_def)
  note spec = mb_recv_loop_spec [OF k cur r fl time nest inv refl]
  show ?thesis
    using spec mb_full_empty(2) [OF inv] m by (auto simp: rt_mb_recv_def)
qed

theorem rt_mb_recv_correct_witness:
  "\<exists>k'. rt_mb_recv 0 0 example_mb = Some (Ret RT_EOK (VWord 7), k') \<and> mails (mailboxes k' 0) = []"
proof -
  have "time_ok 0" by (simp add: time_ok_def)
  from rt_mb_recv_correct [OF example_mb_facts(1-5) _ this example_mb_facts(7)]
  show ?thesis using example_mb_facts(6,8) by (auto simp: mb_moved_def)
qed

text \<open>
  C11. For every sequence of sends and receives on a mailbox, sends to a full box and
  receives from an empty one being refused: the mails delivered, followed by those still in
  the box, are the mails that were in the box followed by those accepted, in order; none is
  lost, duplicated or reordered, across any number of wrap-arounds of the circular array.
\<close>

theorem mailbox_fifo:
  assumes "mb_inv mb"
  shows "\<exists>acc del mb'. fifo_run (\<lambda>mb. mb_entry mb = mb_size mb) (\<lambda>mb. mb_entry mb = 0) mb_put mb_take ops mb =
      Some (acc, del, mb') \<and> mb_inv mb' \<and> del @ mails mb' = mails mb @ acc \<and>
    length (mails mb') \<le> unat (mb_size mb)"
  using mb.run [OF assms, of ops] by (auto simp: returns_def)

theorem mailbox_fifo_witness:
  "\<exists>acc del mb'. fifo_run (\<lambda>mb. mb_entry mb = mb_size mb) (\<lambda>mb. mb_entry mb = 0) mb_put mb_take
      [Put 9, Put 4, Get, Put 5, Get] (mailboxes example_mb 0) = Some (acc, del, mb') \<and>
    del @ mails mb' = 7 # acc"
  using mailbox_fifo [OF example_mb_facts(5), of "[Put 9, Put 4, Get, Put 5, Get]"]
  unfolding example_mb_facts(8) append_Cons append_Nil by blast

text \<open>
  The deadline of a timed receive does not move: a receiver that is woken but finds the
  box empty again (another thread took the mail) waits for exactly what is left of its time,
  so that its timer is due at the same tick as before; when no time is left the call returns
  \<^verbatim>\<open>-RT_ETIMEOUT\<close>.
\<close>

theorem mb_recv_deadline:
  assumes k: "kinv k" and cur: "rt_current_thread k = Some t" and run: "tstat k t = RT_THREAD_RUNNING"
    and inv: "mb_inv (mailboxes k m)" and none: "mails (mailboxes k m) = []"
    and fl: "flag (objs k (OMailbox m)) \<in> {RT_IPC_FLAG_FIFO, RT_IPC_FLAG_PRIO}"
    and time: "time_ok timeout" "0 < timeout" and nest: "rt_interrupt_nest k = 0"
    and err: "error (threads k t) = RT_EOK" and elapsed: "uint (rt_tick k - start) \<le> 2 ^ 31"
  shows "(uint (rt_tick k - start) < timeout \<longrightarrow>
      (\<exists>left k'. rt_mb_recv_resume t m timeout start k = Some (Wait (K_mb_recv m left (rt_tick k)), k') \<and>
        0 < left \<and> left = timeout - uint (rt_tick k - start) \<and>
        ThreadTimer t \<in> set (rt_timer_list k') \<and> due k' (ThreadTimer t) = start + of_int timeout)) \<and>
    (timeout \<le> uint (rt_tick k - start) \<longrightarrow>
      (\<exists>k'. rt_mb_recv_resume t m timeout start k = Some (Ret (- RT_ETIMEOUT) VNone, k') \<and>
        mailboxes k' = mailboxes k))"
proof -
  let ?d = "uint (rt_tick k - start)" and ?left = "time_left timeout start k"
  have r: "runnable k t" using run by (simp add: runnable_def)
  have e: "mb_entry (mailboxes k m) = 0" using mb_full_empty(2) [OF inv] none by simp
  have left: "?left = max 0 (timeout - ?d)"
    using time_left_eq [OF time(2) _ elapsed] time(1) by (simp add: time_ok_def)
  have ok: "time_ok ?left" by (rule time_ok_left [OF time(1) elapsed])
  note spec = mb_recv_loop_spec(2) [OF k cur r fl ok nest inv refl e]
  have "(of_int (timeout - ?d) :: u32) = of_int timeout - (rt_tick k - start)" by simp
  then have due: "rt_tick k + of_int (timeout - ?d) = start + (of_int timeout :: u32)"
    by (simp only:) simp
  have "\<exists>k'. rt_mb_recv_resume t m timeout start k = Some (Wait (K_mb_recv m (timeout - ?d) (rt_tick k)), k') \<and>
      ThreadTimer t \<in> set (rt_timer_list k') \<and> due k' (ThreadTimer t) = start + of_int timeout" if "?d < timeout"
    using spec left that err due by (auto simp: rt_mb_recv_resume_def blocked_on_def kdefs)
  moreover have "\<exists>k'. rt_mb_recv_resume t m timeout start k = Some (Ret (- RT_ETIMEOUT) VNone, k') \<and>
      mailboxes k' = mailboxes k" if "timeout \<le> ?d"
    using left that err e cur by (simp add: rt_mb_recv_resume_def mb_recv_loop_def rt_thread_self_def kdefs)
  ultimately show ?thesis by auto
qed

theorem mb_recv_deadline_witness:
  "\<exists>left k'. rt_mb_recv_resume 1 0 30 (- 10) (set_mb 0 \<lparr>msg_pool = [0], mb_size = 1, mb_entry = 0,
      in_offset = 0, out_offset = 0\<rparr> example_kernel) = Some (Wait (K_mb_recv 0 left 0), k') \<and>
    left = 20 \<and> due k' (ThreadTimer 1) = 20"
proof -
  let ?k = "set_mb 0 \<lparr>msg_pool = [0], mb_size = 1, mb_entry = 0, in_offset = 0, out_offset = 0\<rparr> example_kernel"
  have e: "kinv ?k" "rt_current_thread ?k = Some 1" "tstat ?k 1 = RT_THREAD_RUNNING"
    "mb_inv (mailboxes ?k 0)" "mails (mailboxes ?k 0) = []"
    "flag (objs ?k (OMailbox 0)) \<in> {RT_IPC_FLAG_FIFO, RT_IPC_FLAG_PRIO}" "time_ok 30" "(0::int) < 30"
    "rt_interrupt_nest ?k = 0" "error (threads ?k 1) = RT_EOK" "rt_tick ?k = 0"
    by (simp_all add: kinv_example mb_inv_def mails_def time_ok_def example_objs_def set_mb_def
        example_thread_def zero_thread_def)
  have "uint (rt_tick ?k - (- 10)) = 10" by (simp add: e(11))
  then show ?thesis
    using mb_recv_deadline [OF e(1-10), of "- 10"] e(11) by auto
qed

section \<open>Detach\<close>

lemma rt_mb_detach_spec:
  assumes k: "kinv k" and m: "is_mailbox m k" and st: "rt_object_is_systemobject (OMailbox m) k"
  shows "returns (rt_mb_detach m k) (\<lambda>(r, k'). r = RT_EOK \<and> kinv k' \<and> \<not> is_mailbox m k' \<and>
    mb_receivers k' m = [] \<and> mb_senders k' m = [] \<and>
    (\<forall>t \<in> set (mb_receivers k m) \<union> set (mb_senders k m). runnable k' t \<and> error (threads k' t) = - RT_ERROR))"
proof -
  from rt_ipc_list_resume_all_spec [OF k, of "SuspendThread (OMailbox m)"] obtain k1 where
    k1: "rt_ipc_list_resume_all (SuspendThread (OMailbox m)) k = Some k1"
      "woken_all (SuspendThread (OMailbox m)) k k1" by (auto elim: returnsE)
  have kk: "kinv k1" "mb_senders k1 m = mb_senders k m" using k1(2) by (simp_all add: woken_all_def)
  obtain k2 where k2: "rt_ipc_list_resume_all (SuspendSender m) k1 = Some k2"
      "woken_all (SuspendSender m) k1 k2" "kinv (rt_object_detach (OMailbox m) k2)"
    using ipc_destroy [OF kk(1), of "SuspendSender m" "OMailbox m"] by auto
  have "mb_receivers k2 m = []" using k1(2) k2(2) by (simp add: woken_all_def)
  moreover have "runnable k2 t \<and> error (threads k2 t) = - RT_ERROR" if t: "t \<in> set (mb_receivers k m)" for t
  proof -
    have "t \<notin> set (mb_senders k1 m)"
      using sched_invD(7) [OF kinvD(1) [OF k]] t kk(2) unfolding lists_wf_def by fastforce
    then show ?thesis using k1(2) k2(2) t by (simp add: woken_all_def)
  qed
  ultimately show ?thesis
    using m st k1(1) k2 kk(2) by (auto simp: rt_mb_detach_def woken_all_def runnable_def
        is_mailbox_def rt_object_get_type_def)
qed

end
