(* ===== verification/Mq_Pool.thy ===== *)
theory Mq_Pool
  imports Ipc_Base Fifo
begin

text \<open>
  The message pool of a message queue of \<^verbatim>\<open>src/ipc.c\<close>. The messages live in slots, linked by
  their first word into the queue or the free list. A send and a receive are two critical
  sections each, with the copy of the message between them: a slot in transit is in neither
  list. The sections are defined one by one; their compositions make the pool a bounded
  buffer with urgent messages, and the last section lets them interleave.
\<close>

section \<open>The critical sections\<close>

definition mq_pop_free :: "nat \<Rightarrow> rt_messagequeue \<Rightarrow> rt_messagequeue" where
  "mq_pop_free msg q = q\<lparr>msg_queue_free := mq_next q msg\<rparr>"

text \<open>\<^verbatim>\<open>rt_memcpy(msg + 1, buffer, size)\<close>: the rest of the slot keeps its old bytes.\<close>

definition mq_copy :: "nat \<Rightarrow> u8 list \<Rightarrow> rt_messagequeue \<Rightarrow> rt_messagequeue" where
  "mq_copy msg buffer q = q\<lparr>mq_data := (mq_data q)
     (msg := buffer @ drop (length buffer) (mq_data q msg))\<rparr>"

definition mq_fill :: "nat \<Rightarrow> u8 list \<Rightarrow> rt_messagequeue \<Rightarrow> rt_messagequeue" where
  "mq_fill msg buffer q = mq_copy msg buffer (q\<lparr>mq_next := (mq_next q)(msg := None)\<rparr>)"

definition mq_link_tail :: "nat \<Rightarrow> rt_messagequeue \<Rightarrow> rt_messagequeue" where
  "mq_link_tail msg q =
     (let q = (case msg_queue_tail q of
            Some t \<Rightarrow> q\<lparr>mq_next := (mq_next q)(t := Some msg)\<rparr>
          | None \<Rightarrow> q);
          q = q\<lparr>msg_queue_tail := Some msg\<rparr>;
          q = (if msg_queue_head q = None then q\<lparr>msg_queue_head := Some msg\<rparr> else q)
      in q\<lparr>mq_entry := mq_entry q + 1\<rparr>)"

definition mq_link_head :: "nat \<Rightarrow> rt_messagequeue \<Rightarrow> rt_messagequeue" where
  "mq_link_head msg q =
     (let q = q\<lparr>mq_next := (mq_next q)(msg := msg_queue_head q)\<rparr>;
          q = q\<lparr>msg_queue_head := Some msg\<rparr>;
          q = (if msg_queue_tail q = None then q\<lparr>msg_queue_tail := Some msg\<rparr> else q)
      in q\<lparr>mq_entry := mq_entry q + 1\<rparr>)"

definition mq_pop_head :: "rt_messagequeue \<Rightarrow> (nat \<times> rt_messagequeue) option" where
  "mq_pop_head q = do {
     msg \<leftarrow> msg_queue_head q;
     let q = q\<lparr>msg_queue_head := mq_next q msg\<rparr>;
     let q = (if msg_queue_tail q = Some msg then q\<lparr>msg_queue_tail := None\<rparr> else q);
     Some (msg, q\<lparr>mq_entry := mq_entry q - 1\<rparr>)
   }"

definition mq_push_free :: "nat \<Rightarrow> rt_messagequeue \<Rightarrow> rt_messagequeue" where
  "mq_push_free msg q = q\<lparr>mq_next := (mq_next q)(msg := msg_queue_free q), msg_queue_free := Some msg\<rparr>"

text \<open>The loop of the reset: every message goes to the free list.\<close>

partial_function (option) mq_flush :: "rt_messagequeue \<Rightarrow> rt_messagequeue option" where
  "mq_flush q =
     (case msg_queue_head q of
        None \<Rightarrow> Some q
      | Some msg \<Rightarrow>
          let q = q\<lparr>msg_queue_head := mq_next q msg\<rparr>;
              q = (if msg_queue_tail q = Some msg then q\<lparr>msg_queue_tail := None\<rparr> else q)
          in mq_flush (mq_push_free msg q))"

text \<open>The loop of the initialisation puts the slots on the free list one by one.\<close>

definition mq_init_free :: "nat \<Rightarrow> rt_messagequeue \<Rightarrow> rt_messagequeue" where
  "mq_init_free n q = fold mq_push_free [0..<n]
     (q\<lparr>msg_queue_head := None, msg_queue_tail := None, msg_queue_free := None\<rparr>)"

section \<open>Links and the invariant\<close>

fun links :: "(nat \<Rightarrow> nat option) \<Rightarrow> nat option \<Rightarrow> nat list \<Rightarrow> bool" where
  "links nx p [] \<longleftrightarrow> p = None"
| "links nx p (x # xs) \<longleftrightarrow> p = Some x \<and> links nx (nx x) xs"

lemma links_cong: "(\<And>x. x \<in> set xs \<Longrightarrow> nx' x = nx x) \<Longrightarrow> links nx' p xs = links nx p xs"
  by (induction xs arbitrary: p) auto

lemma links_other [simp]: "m \<notin> set xs \<Longrightarrow> links (nx(m := v)) p xs = links nx p xs"
  by (rule links_cong) auto

lemma links_unique: "links nx p xs \<Longrightarrow> links nx p ys \<Longrightarrow> xs = ys"
proof (induction xs arbitrary: p ys)
  case (Cons x xs)
  then show ?case by (cases ys) auto
next
  case Nil
  then show ?case by (cases ys) auto
qed

lemma links_snoc:
  assumes "links nx p (xs @ [x])" and "distinct (xs @ [x])" and "m \<notin> set (xs @ [x])" and "nx m = None"
  shows "links (nx(x := Some m)) p (xs @ [x, m])"
  using assms by (induction xs arbitrary: p) auto

text \<open>
  \<open>mq_inv q qs fs fl\<close>: the queue holds the slots \<open>qs\<close> in order, the free list the slots
  \<open>fs\<close>, and the slots \<open>fl\<close> are in transit; every slot is exactly in one of the three.
\<close>

definition mq_inv :: "rt_messagequeue \<Rightarrow> nat list \<Rightarrow> nat list \<Rightarrow> nat set \<Rightarrow> bool" where
  "mq_inv q qs fs fl \<longleftrightarrow> links (mq_next q) (msg_queue_head q) qs \<and>
     links (mq_next q) (msg_queue_free q) fs \<and>
     msg_queue_tail q = (if qs = [] then None else Some (last qs)) \<and>
     unat (mq_entry q) = length qs \<and> distinct (qs @ fs) \<and>
     fl \<inter> set (qs @ fs) = {} \<and> set (qs @ fs) \<union> fl = {..<unat (max_msgs q)} \<and>
     (\<forall>m < unat (max_msgs q). length (mq_data q m) = unat (msg_size q))"

lemma mq_inv_unique:
  assumes "mq_inv q qs fs fl" and "mq_inv q qs' fs' fl'"
  shows "qs' = qs" and "fs' = fs" and "fl' = fl"
proof -
  show q: "qs' = qs" using assms links_unique [of "mq_next q" "msg_queue_head q"] by (simp add: mq_inv_def)
  show f: "fs' = fs" using assms links_unique [of "mq_next q" "msg_queue_free q"] by (simp add: mq_inv_def)
  have "fl = {..<unat (max_msgs q)} - set (qs @ fs)" "fl' = {..<unat (max_msgs q)} - set (qs' @ fs')"
    using assms unfolding mq_inv_def by blast+
  then show "fl' = fl" using q f by simp
qed

lemma mq_pop_free_inv:
  assumes "mq_inv q qs (m # fs) fl"
  shows "msg_queue_free q = Some m" and "mq_inv (mq_pop_free m q) qs fs (insert m fl)"
  using assms by (auto simp: mq_inv_def mq_pop_free_def)

lemma mq_copy_inv:
  assumes "mq_inv q qs fs fl" and "m \<in> fl" and "length buf \<le> unat (msg_size q)"
  shows "mq_inv (mq_copy m buf q) qs fs fl"
  using assms by (auto simp: mq_inv_def mq_copy_def)

lemma mq_fill_inv:
  assumes "mq_inv q qs fs fl" and "m \<in> fl" and "length buf \<le> unat (msg_size q)"
  shows "mq_inv (mq_fill m buf q) qs fs fl" and "mq_next (mq_fill m buf q) m = None"
proof -
  have "m \<notin> set qs" "m \<notin> set fs" using assms(1,2) by (auto simp: mq_inv_def)
  then have "mq_inv (q\<lparr>mq_next := (mq_next q)(m := None)\<rparr>) qs fs fl"
    using assms(1) by (simp add: mq_inv_def)
  from mq_copy_inv [OF this assms(2)] assms(3) show "mq_inv (mq_fill m buf q) qs fs fl"
    by (simp add: mq_fill_def)
qed (simp add: mq_fill_def mq_copy_def)

lemma entry_room:
  assumes "mq_inv q qs fs fl" and "m \<in> fl"
  shows "unat (mq_entry q + 1) = Suc (length qs)"
proof -
  have "finite fl" "set qs \<subseteq> {..<unat (max_msgs q)} - {m}" "m < unat (max_msgs q)" "distinct qs"
    using assms unfolding mq_inv_def by (auto intro: finite_subset [of fl "{..<unat (max_msgs q)}"])
  then have "length qs \<le> card ({..<unat (max_msgs q)} - {m})"
    by (metis card_mono distinct_card finite_Diff finite_lessThan)
  then have "length qs < unat (max_msgs q)" using \<open>m < unat (max_msgs q)\<close> by simp
  then have "mq_entry q < max_msgs q" using assms(1) by (simp add: mq_inv_def word_less_nat_alt)
  from unat_Suc_less [OF this] show ?thesis using assms(1) by (simp add: mq_inv_def)
qed

lemma mq_link_tail_inv:
  assumes i: "mq_inv q qs fs fl" and m: "m \<in> fl" and n: "mq_next q m = None"
  shows "mq_inv (mq_link_tail m q) (qs @ [m]) fs (fl - {m})"
proof -
  have nm: "m \<notin> set qs" "m \<notin> set fs" using i m by (auto simp: mq_inv_def)
  note e = entry_room [OF i m]
  show ?thesis
  proof (cases qs rule: rev_cases)
    case Nil
    then show ?thesis using i m n nm e by (auto simp: mq_inv_def mq_link_tail_def)
  next
    case (snoc ys y)
    have "links ((mq_next q)(y := Some m)) (msg_queue_head q) (qs @ [m])"
      using links_snoc [of "mq_next q" "msg_queue_head q" ys y m] i nm n snoc by (simp add: mq_inv_def)
    moreover have "y \<notin> set fs" using i snoc by (auto simp: mq_inv_def)
    moreover have "msg_queue_head q \<noteq> None" using i snoc by (cases ys) (auto simp: mq_inv_def)
    ultimately show ?thesis using i m nm e snoc by (auto simp: mq_inv_def mq_link_tail_def)
  qed
qed

lemma mq_link_head_inv:
  assumes i: "mq_inv q qs fs fl" and m: "m \<in> fl"
  shows "mq_inv (mq_link_head m q) (m # qs) fs (fl - {m})"
proof -
  have nm: "m \<notin> set qs" "m \<notin> set fs" using i m by (auto simp: mq_inv_def)
  show ?thesis
    using i m nm entry_room [OF i m] by (auto simp: mq_inv_def mq_link_head_def)
qed

lemma mq_pop_head_inv:
  assumes i: "mq_inv q (m # qs) fs fl"
  shows "\<exists>q'. mq_pop_head q = Some (m, q') \<and> mq_inv q' qs fs (insert m fl) \<and> mq_data q' = mq_data q \<and>
    msg_size q' = msg_size q \<and> max_msgs q' = max_msgs q"
proof -
  have "unat (mq_entry q) = Suc (length qs)" using i by (simp add: mq_inv_def)
  then have e: "unat (mq_entry q - 1) = length qs"
    by (subst unat_sub) (simp_all add: word_le_nat_alt)
  have "qs \<noteq> [] \<Longrightarrow> last qs \<noteq> m" using i by (auto simp: mq_inv_def)
  then show ?thesis using i e by (auto simp: mq_inv_def mq_pop_head_def)
qed

lemma mq_push_free_inv:
  assumes i: "mq_inv q qs fs fl" and m: "m \<in> fl"
  shows "mq_inv (mq_push_free m q) qs (m # fs) (fl - {m})"
proof -
  have nm: "m \<notin> set qs" "m \<notin> set fs" using i m by (auto simp: mq_inv_def)
  then show ?thesis using i m by (auto simp: mq_inv_def mq_push_free_def)
qed

section \<open>The queue as a bounded buffer\<close>

definition mq_put :: "u8 list \<Rightarrow> rt_messagequeue \<Rightarrow> rt_messagequeue option" where
  "mq_put buffer q = do {
     msg \<leftarrow> msg_queue_free q;
     Some (mq_link_tail msg (mq_fill msg buffer (mq_pop_free msg q)))
   }"

definition mq_put_urgent :: "u8 list \<Rightarrow> rt_messagequeue \<Rightarrow> rt_messagequeue option" where
  "mq_put_urgent buffer q = do {
     msg \<leftarrow> msg_queue_free q;
     Some (mq_link_head msg (mq_copy msg buffer (mq_pop_free msg q)))
   }"

definition mq_get :: "rt_messagequeue \<Rightarrow> (u8 list \<times> rt_messagequeue) option" where
  "mq_get q = do {
     (msg, q) \<leftarrow> mq_pop_head q;
     Some (mq_data q msg, mq_push_free msg q)
   }"

fun chain :: "(nat \<Rightarrow> nat option) \<Rightarrow> nat option \<Rightarrow> nat \<Rightarrow> nat list" where
  "chain nx p 0 = []"
| "chain nx p (Suc n) = (case p of None \<Rightarrow> [] | Some x \<Rightarrow> x # chain nx (nx x) n)"

lemma chain_links: "links nx p xs \<Longrightarrow> chain nx p (length xs) = xs"
  by (induction xs arbitrary: p) auto

text \<open>The messages in the queue, as the bytes of their slots, when no slot is in transit.\<close>

definition mq_msgs :: "rt_messagequeue \<Rightarrow> u8 list list" where
  "mq_msgs q = map (mq_data q) (chain (mq_next q) (msg_queue_head q) (unat (mq_entry q)))"

definition mq_quiet :: "rt_messagequeue \<Rightarrow> bool" where
  "mq_quiet q \<longleftrightarrow> (\<exists>qs fs. mq_inv q qs fs {})"

lemma mq_msgs_eq: "mq_inv q qs fs fl \<Longrightarrow> mq_msgs q = map (mq_data q) qs"
  using chain_links [of "mq_next q" "msg_queue_head q" qs] by (simp add: mq_msgs_def mq_inv_def)

lemma mq_static [simp]:
  "max_msgs (mq_pop_free m q) = max_msgs q" "msg_size (mq_pop_free m q) = msg_size q"
  "mq_data (mq_pop_free m q) = mq_data q" "max_msgs (mq_copy m b q) = max_msgs q"
  "msg_size (mq_copy m b q) = msg_size q" "max_msgs (mq_fill m b q) = max_msgs q"
  "msg_size (mq_fill m b q) = msg_size q" "max_msgs (mq_link_tail m q) = max_msgs q"
  "msg_size (mq_link_tail m q) = msg_size q" "mq_data (mq_link_tail m q) = mq_data q"
  "max_msgs (mq_link_head m q) = max_msgs q" "msg_size (mq_link_head m q) = msg_size q"
  "mq_data (mq_link_head m q) = mq_data q" "max_msgs (mq_push_free m q) = max_msgs q"
  "msg_size (mq_push_free m q) = msg_size q" "mq_data (mq_push_free m q) = mq_data q"
  "mq_data (mq_copy m b q) = (mq_data q)(m := b @ drop (length b) (mq_data q m))"
  "mq_data (mq_fill m b q) = (mq_data q)(m := b @ drop (length b) (mq_data q m))"
  by (simp_all add: mq_pop_free_def mq_copy_def mq_fill_def mq_link_tail_def mq_link_head_def
      mq_push_free_def Let_def split: option.split)

lemma mq_put_inv:
  assumes i: "mq_inv q qs (m # fs) {}" and b: "length buf \<le> unat (msg_size q)"
  shows "\<exists>q'. mq_put buf q = Some q' \<and> mq_inv q' (qs @ [m]) fs {} \<and>
    mq_msgs q' = mq_msgs q @ [buf @ drop (length buf) (mq_data q m)] \<and> msg_size q' = msg_size q \<and>
    max_msgs q' = max_msgs q"
proof -
  let ?f = "mq_fill m buf (mq_pop_free m q)"
  note p = mq_pop_free_inv [OF i]
  have f: "mq_inv ?f qs fs {m}" "mq_next ?f m = None"
    using mq_fill_inv [OF p(2), of m buf] b by simp_all
  from mq_link_tail_inv [OF f(1) _ f(2)] have l: "mq_inv (mq_link_tail m ?f) (qs @ [m]) fs {}" by simp
  have "m \<notin> set qs" using i by (auto simp: mq_inv_def)
  then have "mq_msgs (mq_link_tail m ?f) = mq_msgs q @ [buf @ drop (length buf) (mq_data q m)]"
    by (simp add: mq_msgs_eq [OF l] mq_msgs_eq [OF i])
  then show ?thesis using p(1) l by (simp add: mq_put_def)
qed

lemma mq_put_urgent_inv:
  assumes i: "mq_inv q qs (m # fs) {}" and b: "length buf \<le> unat (msg_size q)"
  shows "\<exists>q'. mq_put_urgent buf q = Some q' \<and> mq_inv q' (m # qs) fs {} \<and>
    mq_msgs q' = (buf @ drop (length buf) (mq_data q m)) # mq_msgs q \<and> msg_size q' = msg_size q \<and>
    max_msgs q' = max_msgs q"
proof -
  let ?f = "mq_copy m buf (mq_pop_free m q)"
  note p = mq_pop_free_inv [OF i]
  have f: "mq_inv ?f qs fs {m}" using mq_copy_inv [OF p(2), of m buf] b by simp
  from mq_link_head_inv [OF f] have l: "mq_inv (mq_link_head m ?f) (m # qs) fs {}" by simp
  have "m \<notin> set qs" using i by (auto simp: mq_inv_def)
  then have "mq_msgs (mq_link_head m ?f) = (buf @ drop (length buf) (mq_data q m)) # mq_msgs q"
    by (simp add: mq_msgs_eq [OF l] mq_msgs_eq [OF i])
  then show ?thesis using p(1) l by (simp add: mq_put_urgent_def)
qed

lemma mq_get_inv:
  assumes i: "mq_inv q (m # qs) fs {}"
  shows "\<exists>q'. mq_get q = Some (hd (mq_msgs q), q') \<and> mq_inv q' qs (m # fs) {} \<and>
    mq_msgs q' = tl (mq_msgs q) \<and> msg_size q' = msg_size q \<and> max_msgs q' = max_msgs q"
proof -
  obtain q1 where q1: "mq_pop_head q = Some (m, q1)" "mq_inv q1 qs fs {m}" "mq_data q1 = mq_data q"
      "msg_size q1 = msg_size q" "max_msgs q1 = max_msgs q"
    using mq_pop_head_inv [OF i] by auto
  have "mq_inv (mq_push_free m q1) qs (m # fs) {}" using mq_push_free_inv [OF q1(2), of m] by simp
  then show ?thesis
    using q1 by (simp add: mq_get_def mq_msgs_eq [OF i] mq_msgs_eq)
qed

lemma mq_quietI: "mq_inv q qs fs {} \<Longrightarrow> mq_quiet q"
  by (auto simp: mq_quiet_def)

lemma mq_free_room:
  assumes i: "mq_inv q qs fs {}"
  shows "length qs + length fs = unat (max_msgs q)"
proof -
  have "distinct (qs @ fs)" "set (qs @ fs) = {..<unat (max_msgs q)}" using i by (simp_all add: mq_inv_def)
  then show ?thesis using distinct_card [of "qs @ fs"] by simp
qed

lemma mq_room:
  assumes "mq_inv q qs fs {}" and "length (mq_msgs q) < unat (max_msgs q)"
  shows "\<exists>m ms. fs = m # ms"
  using assms mq_free_room [OF assms(1)] by (cases fs) (auto simp: mq_msgs_eq)

interpretation mq: urgent_fifo mq_quiet "\<lambda>q. unat (max_msgs q)" mq_msgs
  "\<lambda>q. msg_queue_free q = None" "\<lambda>q. mq_entry q = 0" "\<lambda>q x. length x = unat (msg_size q)"
  mq_put mq_get mq_put_urgent
proof unfold_locales
  show "length (mq_msgs s) \<le> unat (max_msgs s)" if "mq_quiet s" for s
    using that mq_free_room by (fastforce simp: mq_quiet_def mq_msgs_eq)
  show "(msg_queue_free s = None) = (length (mq_msgs s) = unat (max_msgs s))" if "mq_quiet s" for s
  proof -
    from that obtain qs fs where i: "mq_inv s qs fs {}" by (auto simp: mq_quiet_def)
    then have "msg_queue_free s = None \<longleftrightarrow> fs = []" by (cases fs) (auto simp: mq_inv_def)
    then show ?thesis using mq_free_room [OF i] by (cases fs) (simp_all add: mq_msgs_eq [OF i])
  qed
  show "(mq_entry s = 0) = (mq_msgs s = [])" if "mq_quiet s" for s
  proof -
    from that obtain qs fs where i: "mq_inv s qs fs {}" by (auto simp: mq_quiet_def)
    then have "unat (mq_entry s) = length qs" by (simp add: mq_inv_def)
    then show ?thesis using mq_msgs_eq [OF i] unat_eq_zero [of "mq_entry s"] by auto
  qed
  show "returns (mq_put x s) (\<lambda>s'. mq_quiet s' \<and> mq_msgs s' = mq_msgs s @ [x] \<and>
      unat (max_msgs s') = unat (max_msgs s) \<and>
      (\<lambda>x. length x = unat (msg_size s')) = (\<lambda>x. length x = unat (msg_size s)))"
    if "mq_quiet s" "length (mq_msgs s) < unat (max_msgs s)" "length x = unat (msg_size s)" for s x
  proof -
    from that(1) obtain qs fs where i: "mq_inv s qs fs {}" by (auto simp: mq_quiet_def)
    from mq_room [OF i that(2)] obtain m ms where fs: "fs = m # ms" by auto
    have "length (mq_data s m) = unat (msg_size s)" using i fs by (auto simp: mq_inv_def)
    then show ?thesis using mq_put_inv [OF i [unfolded fs], of x] that(3) by (auto intro: mq_quietI)
  qed
  show "returns (mq_put_urgent x s) (\<lambda>s'. mq_quiet s' \<and> mq_msgs s' = x # mq_msgs s \<and>
      unat (max_msgs s') = unat (max_msgs s) \<and>
      (\<lambda>x. length x = unat (msg_size s')) = (\<lambda>x. length x = unat (msg_size s)))"
    if "mq_quiet s" "length (mq_msgs s) < unat (max_msgs s)" "length x = unat (msg_size s)" for s x
  proof -
    from that(1) obtain qs fs where i: "mq_inv s qs fs {}" by (auto simp: mq_quiet_def)
    from mq_room [OF i that(2)] obtain m ms where fs: "fs = m # ms" by auto
    have "length (mq_data s m) = unat (msg_size s)" using i fs by (auto simp: mq_inv_def)
    then show ?thesis using mq_put_urgent_inv [OF i [unfolded fs], of x] that(3) by (auto intro: mq_quietI)
  qed
  show "returns (mq_get s) (\<lambda>(y, s'). y = x \<and> mq_quiet s' \<and> mq_msgs s' = xs \<and>
      unat (max_msgs s') = unat (max_msgs s) \<and>
      (\<lambda>x. length x = unat (msg_size s')) = (\<lambda>x. length x = unat (msg_size s)))"
    if "mq_quiet s" "mq_msgs s = x # xs" for s x xs
  proof -
    from that(1) obtain qs fs where i: "mq_inv s qs fs {}" by (auto simp: mq_quiet_def)
    from that(2) i have "qs \<noteq> []" by (auto simp: mq_msgs_eq)
    then obtain m ms where qs: "qs = m # ms" by (cases qs) auto
    show ?thesis using mq_get_inv [OF i [unfolded qs]] that(2) by (auto intro: mq_quietI)
  qed
qed

section \<open>Initialisation and reset\<close>

lemma mq_flush_links:
  assumes "links (mq_next q) (msg_queue_head q) qs" and "links (mq_next q) (msg_queue_free q) fs"
    and "msg_queue_tail q = (if qs = [] then None else Some (last qs))" and "distinct (qs @ fs)"
  shows "\<exists>q'. mq_flush q = Some q' \<and> msg_queue_head q' = None \<and> msg_queue_tail q' = None \<and>
    links (mq_next q') (msg_queue_free q') (rev qs @ fs) \<and> mq_data q' = mq_data q \<and>
    max_msgs q' = max_msgs q \<and> msg_size q' = msg_size q \<and>
    (\<forall>m. m \<notin> set qs \<longrightarrow> mq_next q' m = mq_next q m)"
  using assms
proof (induction qs arbitrary: q fs)
  case Nil
  then show ?case by (subst mq_flush.simps) simp
next
  case (Cons m qs)
  let ?q1 = "q\<lparr>msg_queue_head := mq_next q m,
    msg_queue_tail := if msg_queue_tail q = Some m then None else msg_queue_tail q\<rparr>"
  let ?q2 = "mq_push_free m ?q1"
  have t: "msg_queue_tail ?q2 = (if qs = [] then None else Some (last qs))"
    using Cons.prems(3,4) last_in_set [of qs] by (auto simp: mq_push_free_def)
  have "links (mq_next ?q2) (msg_queue_head ?q2) qs" "links (mq_next ?q2) (msg_queue_free ?q2) (m # fs)"
    using Cons.prems by (auto simp: mq_push_free_def)
  from Cons.IH [OF this t] Cons.prems(4) have "\<exists>q'. mq_flush ?q2 = Some q' \<and> msg_queue_head q' = None \<and>
    msg_queue_tail q' = None \<and> links (mq_next q') (msg_queue_free q') (rev (m # qs) @ fs) \<and>
    mq_data q' = mq_data q \<and> max_msgs q' = max_msgs q \<and> msg_size q' = msg_size q \<and>
    (\<forall>x. x \<notin> set (m # qs) \<longrightarrow> mq_next q' x = mq_next q x)" by (auto simp: mq_push_free_def)
  moreover have "mq_flush q = mq_flush ?q2"
    using Cons.prems(1) by (subst mq_flush.simps) (cases q, auto)
  ultimately show ?case by simp
qed

lemma mq_flush_inv:
  assumes "mq_inv q qs fs fl"
  shows "\<exists>q'. mq_flush q = Some q' \<and> mq_inv (q'\<lparr>mq_entry := 0\<rparr>) [] (rev qs @ fs) fl \<and> mq_data q' = mq_data q \<and>
    max_msgs q' = max_msgs q \<and> msg_size q' = msg_size q \<and>
    (\<forall>m. m \<notin> set qs \<longrightarrow> mq_next q' m = mq_next q m)"
proof -
  from mq_flush_links [of q qs fs] assms obtain q' where "mq_flush q = Some q'"
    "msg_queue_head q' = None" "msg_queue_tail q' = None"
    "links (mq_next q') (msg_queue_free q') (rev qs @ fs)" "mq_data q' = mq_data q"
    "max_msgs q' = max_msgs q" "msg_size q' = msg_size q"
    "\<forall>m. m \<notin> set qs \<longrightarrow> mq_next q' m = mq_next q m" by (auto simp: mq_inv_def)
  then show ?thesis using assms by (auto simp: mq_inv_def)
qed

lemma mq_init_free_links:
  "let q' = mq_init_free n q in links (mq_next q') (msg_queue_free q') (rev [0..<n]) \<and>
    msg_queue_head q' = None \<and> msg_queue_tail q' = None \<and> mq_data q' = mq_data q \<and>
    max_msgs q' = max_msgs q \<and> msg_size q' = msg_size q \<and> mq_entry q' = mq_entry q"
  by (induction n) (simp_all add: mq_init_free_def mq_push_free_def Let_def)

lemma mq_init_free_inv:
  assumes "n = unat (max_msgs q)" and "mq_entry q = 0"
    and "\<And>m. m < n \<Longrightarrow> length (mq_data q m) = unat (msg_size q)"
  shows "mq_inv (mq_init_free n q) [] (rev [0..<n]) {}"
  using mq_init_free_links [of n q] assms by (auto simp: mq_inv_def Let_def)

section \<open>Interleaving of the critical sections\<close>

text \<open>
  Where a slot in transit is: taken off the free list by a sender, filled by
  \<^verbatim>\<open>rt_mq_send\<close>, copied to by \<^verbatim>\<open>rt_mq_urgent\<close>, or taken off the queue by a receiver that has
  not given it back yet. The state is the queue with the slots in transit.
\<close>

datatype phase = Filling | Filled "u8 list" | Copied "u8 list" | Draining "u8 list"

type_synonym mq_sys = "rt_messagequeue \<times> (nat \<Rightarrow> phase option)"

datatype mq_section = Sec_alloc nat | Sec_fill nat | Sec_copy nat | Sec_tail "u8 list"
  | Sec_head "u8 list" | Sec_pop | Sec_free nat | Sec_reset

inductive mq_step :: "mq_sys \<Rightarrow> mq_section \<Rightarrow> mq_sys \<Rightarrow> bool" where
  alloc: "msg_queue_free q = Some m \<Longrightarrow>
    mq_step (q, tr) (Sec_alloc m) (mq_pop_free m q, tr(m \<mapsto> Filling))"
| fill: "tr m = Some Filling \<Longrightarrow> length buf \<le> unat (msg_size q) \<Longrightarrow>
    mq_step (q, tr) (Sec_fill m) (mq_fill m buf q, tr(m \<mapsto> Filled (mq_data (mq_fill m buf q) m)))"
| copy: "tr m = Some Filling \<Longrightarrow> length buf \<le> unat (msg_size q) \<Longrightarrow>
    mq_step (q, tr) (Sec_copy m) (mq_copy m buf q, tr(m \<mapsto> Copied (mq_data (mq_copy m buf q) m)))"
| link_tail: "tr m = Some (Filled d) \<Longrightarrow> mq_step (q, tr) (Sec_tail d) (mq_link_tail m q, tr(m := None))"
| link_head: "tr m = Some (Copied d) \<Longrightarrow> mq_step (q, tr) (Sec_head d) (mq_link_head m q, tr(m := None))"
| pop: "mq_entry q \<noteq> 0 \<Longrightarrow> mq_pop_head q = Some (m, q') \<Longrightarrow>
    mq_step (q, tr) Sec_pop (q', tr(m \<mapsto> Draining (mq_data q m)))"
| free: "tr m = Some (Draining d) \<Longrightarrow> mq_step (q, tr) (Sec_free m) (mq_push_free m q, tr(m := None))"
| reset: "mq_flush q = Some q' \<Longrightarrow> mq_step (q, tr) Sec_reset (q'\<lparr>mq_entry := 0\<rparr>, tr)"

inductive_cases mq_stepE [consumes 1, case_names alloc fill copy link_tail link_head pop free reset]:
  "mq_step (q, tr) sec (q', tr')"

inductive mq_trace :: "mq_sys \<Rightarrow> mq_section list \<Rightarrow> mq_sys \<Rightarrow> bool" where
  stop: "mq_trace s [] s"
| step: "mq_trace s secs s' \<Longrightarrow> mq_step s' sec s'' \<Longrightarrow> mq_trace s (secs @ [sec]) s''"

text \<open>What a section does to the abstract queue, a list of messages.\<close>

fun abs_section :: "mq_section \<Rightarrow> u8 list list \<Rightarrow> u8 list list" where
  "abs_section (Sec_tail d) ms = ms @ [d]"
| "abs_section (Sec_head d) ms = d # ms"
| "abs_section Sec_pop ms = tl ms"
| "abs_section Sec_reset ms = []"
| "abs_section _ ms = ms"

fun phase_ok :: "rt_messagequeue \<Rightarrow> nat \<Rightarrow> phase \<Rightarrow> bool" where
  "phase_ok q m Filling \<longleftrightarrow> True"
| "phase_ok q m (Filled d) \<longleftrightarrow> mq_data q m = d \<and> mq_next q m = None"
| "phase_ok q m (Copied d) \<longleftrightarrow> mq_data q m = d"
| "phase_ok q m (Draining d) \<longleftrightarrow> mq_data q m = d"

definition sys_inv :: "mq_sys \<Rightarrow> nat list \<Rightarrow> nat list \<Rightarrow> bool" where
  "sys_inv s qs fs \<longleftrightarrow> mq_inv (fst s) qs fs (dom (snd s)) \<and>
     (\<forall>m ph. snd s m = Some ph \<longrightarrow> phase_ok (fst s) m ph)"

lemma phase_ok_cong:
  "phase_ok q m p \<Longrightarrow> mq_data q' m = mq_data q m \<Longrightarrow> mq_next q' m = mq_next q m \<Longrightarrow> phase_ok q' m p"
  by (cases p) simp_all

lemma sys_inv_change:
  assumes "sys_inv (q, tr) qs fs" and "mq_inv q' qs' fs' (dom tr')"
    and "\<And>p. tr' m = Some p \<Longrightarrow> phase_ok q' m p"
    and "\<And>x p. x \<noteq> m \<Longrightarrow> tr' x = Some p \<Longrightarrow>
      tr x = Some p \<and> mq_data q' x = mq_data q x \<and> mq_next q' x = mq_next q x"
  shows "sys_inv (q', tr') qs' fs'"
proof -
  have "phase_ok q' x p" if x: "tr' x = Some p" for x p
  proof (cases "x = m")
    case False
    note a = assms(4) [OF False x]
    then have "phase_ok q x p" using assms(1) by (simp add: sys_inv_def)
    then show ?thesis using a phase_ok_cong by metis
  qed (use assms(3) x in simp)
  then show ?thesis using assms(2) by (simp add: sys_inv_def)
qed

lemma mq_static_next [simp]:
  "mq_next (mq_pop_free m q) = mq_next q"
  "x \<noteq> m \<Longrightarrow> mq_next (mq_fill m b q) x = mq_next q x"
  "mq_next (mq_copy m b q) = mq_next q"
  "x \<noteq> m \<Longrightarrow> mq_next (mq_link_head m q) x = mq_next q x"
  "x \<noteq> m \<Longrightarrow> mq_next (mq_push_free m q) x = mq_next q x"
  "msg_queue_tail q \<noteq> Some x \<Longrightarrow> mq_next (mq_link_tail m q) x = mq_next q x"
  by (auto simp: mq_pop_free_def mq_copy_def mq_fill_def mq_link_tail_def mq_link_head_def
      mq_push_free_def Let_def split: option.split)

lemma mq_pop_head_next: "mq_pop_head q = Some (m, q') \<Longrightarrow> mq_next q' = mq_next q"
  by (auto simp: mq_pop_head_def bind_eq_Some_conv Let_def)

lemma sys_inv_step:
  assumes s: "sys_inv (q, tr) qs fs" and step: "mq_step (q, tr) sec (q', tr')"
  shows "\<exists>qs' fs'. sys_inv (q', tr') qs' fs' \<and> mq_msgs q' = abs_section sec (mq_msgs q) \<and>
    max_msgs q' = max_msgs q"
proof -
  have i: "mq_inv q qs fs (dom tr)" and ph: "\<And>m p. tr m = Some p \<Longrightarrow> phase_ok q m p"
    using s by (auto simp: sys_inv_def)
  have out: "m \<notin> set qs" "m \<notin> set fs" if "tr m = Some p" for m p
    using i that by (auto simp: mq_inv_def dom_def)
  have tail: "msg_queue_tail q \<noteq> Some m" if "tr m = Some p" for m p
    using out(1) [OF that] i by (auto simp: mq_inv_def)
  have dom: "m \<in> dom tr" "dom (tr(m \<mapsto> p')) = dom tr" if "tr m = Some p" for m p p'
    using that by auto
  note eq = mq_msgs_eq [OF i] and change = sys_inv_change [OF s]
  from step show ?thesis
  proof (cases rule: mq_stepE)
    case (alloc m)
    then obtain fs1 where fs: "fs = m # fs1" using i by (cases fs) (auto simp: mq_inv_def)
    note n = mq_pop_free_inv(2) [OF i [unfolded fs]]
    have "sys_inv (q', tr') qs fs1" by (rule change [of _ _ _ _ m]) (use n alloc in auto)
    then show ?thesis using mq_msgs_eq [OF n] eq alloc by auto
  next
    case (fill m buf)
    note n = mq_fill_inv [OF i dom(1) [OF fill(2)] fill(3)]
    have "sys_inv (q', tr') qs fs"
      by (rule change [of _ _ _ _ m]) (use n fill dom [OF fill(2)] in auto)
    then show ?thesis using mq_msgs_eq [OF n(1)] eq fill out [OF fill(2)] by auto
  next
    case (copy m buf)
    note n = mq_copy_inv [OF i dom(1) [OF copy(2)] copy(3)]
    have "sys_inv (q', tr') qs fs"
      by (rule change [of _ _ _ _ m]) (use n copy dom [OF copy(2)] in auto)
    then show ?thesis using mq_msgs_eq [OF n] eq copy out [OF copy(2)] by auto
  next
    case (link_tail m d)
    have p: "mq_next q m = None" "mq_data q m = d" using ph [OF link_tail(2)] by simp_all
    note n = mq_link_tail_inv [OF i dom(1) [OF link_tail(2)] p(1)]
    have "sys_inv (q', tr') (qs @ [m]) fs"
      by (rule change [of _ _ _ _ m]) (use n link_tail tail in \<open>auto split: if_splits\<close>)
    then show ?thesis using mq_msgs_eq [OF n] eq link_tail p by auto
  next
    case (link_head m d)
    have p: "mq_data q m = d" using ph [OF link_head(2)] by simp
    note n = mq_link_head_inv [OF i dom(1) [OF link_head(2)]]
    have "sys_inv (q', tr') (m # qs) fs"
      by (rule change [of _ _ _ _ m]) (use n link_head in \<open>auto split: if_splits\<close>)
    then show ?thesis using mq_msgs_eq [OF n] eq link_head p by auto
  next
    case (pop m)
    then have h: "msg_queue_head q = Some m" by (auto simp: mq_pop_head_def bind_eq_Some_conv Let_def)
    have "qs \<noteq> []" using i h by (auto simp: mq_inv_def)
    then obtain qs1 where qs: "qs = m # qs1" using i h by (cases qs) (auto simp: mq_inv_def)
    have n: "mq_inv q' qs1 fs (insert m (dom tr))" "mq_data q' = mq_data q" "max_msgs q' = max_msgs q"
      using mq_pop_head_inv [OF i [unfolded qs]] pop by auto
    have "sys_inv (q', tr') qs1 fs"
      by (rule change [of _ _ _ _ m])
        (use n pop mq_pop_head_next [OF pop(4)] in \<open>auto split: if_splits\<close>)
    then show ?thesis using mq_msgs_eq [OF n(1)] eq pop n qs by auto
  next
    case (free m d)
    note n = mq_push_free_inv [OF i dom(1) [OF free(2)]]
    have "sys_inv (q', tr') qs (m # fs)"
      by (rule change [of _ _ _ _ m]) (use n free in \<open>auto split: if_splits\<close>)
    then show ?thesis using mq_msgs_eq [OF n] eq free by auto
  next
    case (reset q1)
    obtain q2 where q2: "mq_flush q = Some q2" "mq_inv (q2\<lparr>mq_entry := 0\<rparr>) [] (rev qs @ fs) (dom tr)"
        "mq_data q2 = mq_data q" "max_msgs q2 = max_msgs q" "\<forall>m. m \<notin> set qs \<longrightarrow> mq_next q2 m = mq_next q m"
      using mq_flush_inv [OF i] by auto
    have q': "q' = q2\<lparr>mq_entry := 0\<rparr>" using reset(2,3) q2(1) by simp
    have "phase_ok q' m p" if "tr m = Some p" for m p
      by (rule phase_ok_cong [OF ph [OF that]]) (simp_all add: q' q2(3,5) out(1) [OF that])
    then have "sys_inv (q', tr') [] (rev qs @ fs)"
      using q2(2) reset(4) q' by (simp add: sys_inv_def)
    then show ?thesis using mq_msgs_eq [OF q2(2)] reset(1) q2(4) q' by auto
  qed
qed

text \<open>
  C4. A send and a receive each leave the interrupts enabled while the message is copied, so
  the critical sections of any number of senders, receivers and resets may interleave. From
  a queue with no slot in transit and for every interleaving: no slot is ever lost or in two
  places, the entry count is the number of queued messages, a receiver that sees a nonzero
  count finds a message, and the queued messages are those of a list to which each linking
  section appends (or, for an urgent message, prepends) what its sender copied and from
  which each receive takes the first.
\<close>

theorem mq_interleaving:
  assumes "mq_trace (q0, Map.empty) secs (q, tr)" and "mq_quiet q0"
  shows "mq_msgs q = fold abs_section secs (mq_msgs q0) \<and> unat (mq_entry q) = length (mq_msgs q) \<and>
    (\<exists>qs fs. mq_inv q qs fs (dom tr) \<and> length qs + length fs + card (dom tr) = unat (max_msgs q0)) \<and>
    (mq_entry q \<noteq> 0 \<longrightarrow> mq_pop_head q \<noteq> None) \<and> mq_flush q \<noteq> None \<and>
    (tr = Map.empty \<longrightarrow> mq_quiet q)"
proof -
  from assms(2) obtain qs0 fs0 where i0: "sys_inv (q0, Map.empty) qs0 fs0"
    by (auto simp: mq_quiet_def sys_inv_def)
  have "\<exists>qs fs. sys_inv (q, tr) qs fs \<and> mq_msgs q = fold abs_section secs (mq_msgs q0) \<and>
      max_msgs q = max_msgs q0"
    using assms(1)
  proof (induction "(q0, Map.empty :: nat \<Rightarrow> phase option)" secs "(q, tr)" arbitrary: q tr rule: mq_trace.induct)
    case stop
    then show ?case using i0 by auto
  next
    case (step secs s' sec q tr)
    obtain q1 tr1 where s': "s' = (q1, tr1)" by (cases s')
    from step.hyps(2) [OF s'] obtain qs fs where "sys_inv (q1, tr1) qs fs"
      "mq_msgs q1 = fold abs_section secs (mq_msgs q0)" "max_msgs q1 = max_msgs q0" by auto
    then show ?case using sys_inv_step step.hyps(3) unfolding s' by fastforce
  qed
  then obtain qs fs where i: "mq_inv q qs fs (dom tr)" and
    m: "mq_msgs q = fold abs_section secs (mq_msgs q0)" "max_msgs q = max_msgs q0"
    by (auto simp: sys_inv_def)
  have e: "unat (mq_entry q) = length qs" and d: "distinct (qs @ fs)" "dom tr \<inter> set (qs @ fs) = {}"
    and u: "set (qs @ fs) \<union> dom tr = {..<unat (max_msgs q)}" using i by (simp_all add: mq_inv_def)
  have "finite (dom tr)" using u by (metis finite_Un finite_lessThan)
  then have "length qs + length fs + card (dom tr) = unat (max_msgs q0)"
    using card_Un_disjoint [of "set (qs @ fs)" "dom tr"] distinct_card [OF d(1)] d(2) u m(2)
    by (simp add: Int_commute)
  moreover have "mq_pop_head q \<noteq> None" if "mq_entry q \<noteq> 0"
  proof -
    have "qs \<noteq> []" using that e unat_eq_zero [of "mq_entry q"] by auto
    then obtain x xs where "qs = x # xs" by (cases qs) auto
    then show ?thesis using mq_pop_head_inv i by fastforce
  qed
  moreover have "mq_flush q \<noteq> None" using mq_flush_inv [OF i] by auto
  moreover have "mq_quiet q" if "tr = Map.empty" using i that by (auto intro: mq_quietI)
  moreover have "length (mq_msgs q) = length qs" by (simp add: mq_msgs_eq [OF i])
  ultimately show ?thesis using i e m by auto
qed

text \<open>A queue of two empty slots of four bytes.\<close>

definition example_pool :: rt_messagequeue where
  "example_pool = mq_init_free 2 \<lparr>mq_next = (\<lambda>_. None), mq_data = (\<lambda>_. [0, 0, 0, 0]), msg_size = 4,
     max_msgs = 2, mq_entry = 0, msg_queue_head = None, msg_queue_tail = None, msg_queue_free = None\<rparr>"

lemma example_pool_quiet: "mq_quiet example_pool" and example_pool_inv: "mq_inv example_pool [] [1, 0] {}"
proof -
  have r: "rev [0..<2] = [1, 0::nat]" by (simp add: numeral_2_eq_2)
  show "mq_inv example_pool [] [1, 0] {}"
    unfolding example_pool_def r [symmetric] by (rule mq_init_free_inv) simp_all
  then show "mq_quiet example_pool" by (rule mq_quietI)
qed

theorem mq_interleaving_witness:
  "\<exists>q tr. mq_trace (example_pool, Map.empty) [Sec_alloc 1, Sec_fill 1, Sec_tail [7, 8, 0, 0]] (q, tr) \<and>
     mq_msgs q = [[7, 8, 0, 0]] \<and> unat (mq_entry q) = 1"
proof -
  let ?q0 = example_pool and ?q1 = "mq_pop_free 1 example_pool"
  let ?q2 = "mq_fill 1 [7, 8] ?q1"
  have f: "msg_queue_free ?q0 = Some 1" "msg_size ?q0 = 4" "mq_data ?q0 1 = [0, 0, 0, 0]"
    by (simp_all add: example_pool_def mq_init_free_def mq_push_free_def numeral_2_eq_2)
  have s1: "mq_step (?q0, Map.empty) (Sec_alloc 1) (?q1, [1 \<mapsto> Filling])"
    using mq_step.alloc [OF f(1)] by simp
  have s2: "mq_step (?q1, [1 \<mapsto> Filling]) (Sec_fill 1) (?q2, [1 \<mapsto> Filled [7, 8, 0, 0]])"
    using mq_step.fill [of "[1 \<mapsto> Filling]" 1 "[7, 8]" ?q1] f by simp
  have s3: "mq_step (?q2, [1 \<mapsto> Filled [7, 8, 0, 0]]) (Sec_tail [7, 8, 0, 0]) (mq_link_tail 1 ?q2, Map.empty)"
    using mq_step.link_tail [of "[1 \<mapsto> Filled [7, 8, 0, 0]]" 1] by simp
  have t: "mq_trace (?q0, Map.empty) [Sec_alloc 1, Sec_fill 1, Sec_tail [7, 8, 0, 0]]
      (mq_link_tail 1 ?q2, Map.empty)"
    using mq_trace.step [OF mq_trace.step [OF mq_trace.step [OF mq_trace.stop s1] s2] s3] by simp
  have "mq_msgs ?q0 = []" using mq_msgs_eq [OF example_pool_inv] by simp
  then show ?thesis using mq_interleaving [OF t example_pool_quiet] t by auto
qed

end
