(* ===== verification/Mqueue.thy ===== *)
theory Mqueue
  imports Ipc_Base Mq_Pool
begin

text \<open>
  Message queues: the functions \<^verbatim>\<open>rt_mq_*\<close> of \<^verbatim>\<open>src/ipc.c\<close>, on the pool of theory
  \<^verbatim>\<open>Mq_Pool\<close>. An operation runs its critical sections one after the other; a receiver that
  finds the queue empty waits, and looks at the queue again when it is woken.
\<close>

section \<open>Operations\<close>

abbreviation mq_receivers :: "kernel \<Rightarrow> nat \<Rightarrow> nat list" where
  "mq_receivers k m \<equiv> tlists k (SuspendThread (OMq m))"

definition set_mq :: "nat \<Rightarrow> rt_messagequeue \<Rightarrow> kernel \<Rightarrow> kernel" where
  "set_mq m x k = k\<lparr>mqs := (mqs k)(m := x)\<rparr>"

definition is_mq :: "nat \<Rightarrow> kernel \<Rightarrow> bool" where
  "is_mq m k \<longleftrightarrow> rt_object_get_type (OMq m) k = RT_Object_Class_MessageQueue"

text \<open>
  The memory of the pool is given by the bytes of its slots. The size of a message is rounded
  up and stored in 16 bits, like the number of messages.
\<close>

definition mq_size :: "u32 \<Rightarrow> u16" where
  "mq_size msgsize = ucast (RT_ALIGN msgsize RT_ALIGN_SIZE)"

definition mq_init_fields :: "(nat \<Rightarrow> u8 list) \<Rightarrow> u32 \<Rightarrow> u16 \<Rightarrow> rt_messagequeue" where
  "mq_init_fields pool msgsize n =
     (mq_init_free (unat n) \<lparr>mq_next = (\<lambda>_. None), mq_data = pool, msg_size = mq_size msgsize,
        max_msgs = n, mq_entry = 0, msg_queue_head = None, msg_queue_tail = None,
        msg_queue_free = None\<rparr>)\<lparr>mq_entry := 0\<rparr>"

definition rt_mq_init ::
    "nat \<Rightarrow> u8 list \<Rightarrow> (nat \<Rightarrow> u8 list) \<Rightarrow> u32 \<Rightarrow> u32 \<Rightarrow> u8 \<Rightarrow> kernel \<Rightarrow> (rt_err_t \<times> kernel) option" where
  "rt_mq_init m nm pool msgsize pool_size fl k = do {
     k \<leftarrow> rt_object_init (OMq m) RT_Object_Class_MessageQueue nm k;
     let k = upd_obj (OMq m) (\<lambda>ob. ob\<lparr>flag := fl\<rparr>) k;
     let k = rt_ipc_object_init (SuspendThread (OMq m)) k;
     let n = ucast (pool_size div (ucast (mq_size msgsize) + 4));
     Some (RT_EOK, set_mq m (mq_init_fields pool msgsize n) k)
   }"

definition rt_mq_detach :: "nat \<Rightarrow> kernel \<Rightarrow> (rt_err_t \<times> kernel) option" where
  "rt_mq_detach m k = do {
     rt_assert (is_mq m k);
     rt_assert (rt_object_is_systemobject (OMq m) k);
     k \<leftarrow> rt_ipc_list_resume_all (SuspendThread (OMq m)) k;
     Some (RT_EOK, rt_object_detach (OMq m) k)
   }"

definition rt_mq_delete :: "nat \<Rightarrow> kernel \<Rightarrow> (rt_err_t \<times> kernel) option" where
  "rt_mq_delete m k = do {
     RT_DEBUG_NOT_IN_INTERRUPT k;
     rt_assert (is_mq m k);
     rt_assert (\<not> rt_object_is_systemobject (OMq m) k);
     k \<leftarrow> rt_ipc_list_resume_all (SuspendThread (OMq m)) k;
     k \<leftarrow> rt_object_delete (OMq m) k;
     Some (RT_EOK, k)
   }"

definition rt_mq_create :: "nat option \<Rightarrow> (nat \<Rightarrow> u8 list) option \<Rightarrow> u8 list \<Rightarrow> u32 \<Rightarrow> u32 \<Rightarrow> u8 \<Rightarrow> kernel \<Rightarrow>
    (nat option \<times> kernel) option" where
  "rt_mq_create mallocd pool_mallocd nm msgsize maxmsgs fl k = do {
     RT_DEBUG_NOT_IN_INTERRUPT k;
     (_, k) \<leftarrow> rt_object_allocate (map_option OMq mallocd) RT_Object_Class_MessageQueue nm k;
     case mallocd of
       None \<Rightarrow> Some (None, k)
     | Some m \<Rightarrow> do {
         let k = upd_obj (OMq m) (\<lambda>ob. ob\<lparr>flag := fl\<rparr>) k;
         let k = rt_ipc_object_init (SuspendThread (OMq m)) k;
         let k = set_mq m ((mqs k m)\<lparr>msg_size := mq_size msgsize, max_msgs := ucast maxmsgs\<rparr>) k;
         case pool_mallocd of
           None \<Rightarrow> do {
             (_, k) \<leftarrow> rt_mq_delete m k;
             Some (None, k)
           }
         | Some pool \<Rightarrow> Some (Some m, set_mq m (mq_init_fields pool msgsize (ucast maxmsgs)) k)
       }
   }"

text \<open>The second critical section of both sends: the message is linked, a receiver is woken.\<close>

definition mq_deliver :: "nat \<Rightarrow> rt_messagequeue \<Rightarrow> kernel \<Rightarrow> (outcome \<times> kernel) option" where
  "mq_deliver m q k = do {
     let k = set_mq m q k;
     if mq_receivers k m \<noteq> [] then do {
       k \<leftarrow> rt_ipc_list_resume (SuspendThread (OMq m)) k;
       k \<leftarrow> rt_schedule k;
       Some (Ret RT_EOK VNone, k)
     } else Some (Ret RT_EOK VNone, k)
   }"

definition rt_mq_send :: "nat \<Rightarrow> u8 list \<Rightarrow> kernel \<Rightarrow> (outcome \<times> kernel) option" where
  "rt_mq_send m buffer k = do {
     rt_assert (is_mq m k);
     rt_assert (length buffer \<noteq> 0);
     let q = mqs k m;
     if length buffer > unat (msg_size q) then Some (Ret (- RT_ERROR) VNone, k)
     else (case msg_queue_free q of
         None \<Rightarrow> Some (Ret (- RT_EFULL) VNone, k)
       | Some msg \<Rightarrow> mq_deliver m (mq_link_tail msg (mq_fill msg buffer (mq_pop_free msg q))) k)
   }"

definition rt_mq_urgent :: "nat \<Rightarrow> u8 list \<Rightarrow> kernel \<Rightarrow> (outcome \<times> kernel) option" where
  "rt_mq_urgent m buffer k = do {
     rt_assert (is_mq m k);
     rt_assert (length buffer \<noteq> 0);
     let q = mqs k m;
     if length buffer > unat (msg_size q) then Some (Ret (- RT_ERROR) VNone, k)
     else (case msg_queue_free q of
         None \<Rightarrow> Some (Ret (- RT_EFULL) VNone, k)
       | Some msg \<Rightarrow> mq_deliver m (mq_link_head msg (mq_copy msg buffer (mq_pop_free msg q))) k)
   }"

text \<open>One turn of the receiver's loop, with the receive itself when there is a message.\<close>

definition mq_recv_loop :: "nat \<Rightarrow> nat \<Rightarrow> int \<Rightarrow> kernel \<Rightarrow> (outcome \<times> kernel) option" where
  "mq_recv_loop m sz timeout k =
     (if mq_entry (mqs k m) = 0 then do {
        t \<leftarrow> rt_thread_self k;
        RT_DEBUG_IN_THREAD_CONTEXT k;
        let k = upd_thread t (\<lambda>x. x\<lparr>error := RT_EOK\<rparr>) k;
        if timeout = 0
        then Some (Ret (- RT_ETIMEOUT) VNone, upd_thread t (\<lambda>x. x\<lparr>error := - RT_ETIMEOUT\<rparr>) k)
        else do {
          let tick_delta = rt_tick_get k;
          k \<leftarrow> ipc_block (SuspendThread (OMq m)) t (flag (objs k (OMq m))) timeout k;
          Some (Wait (K_mq_recv m sz timeout tick_delta), k)
        }
      } else do {
        (msg, q) \<leftarrow> mq_pop_head (mqs k m);
        let buffer = take (min sz (unat (msg_size q))) (mq_data q msg);
        Some (Ret RT_EOK (VBytes buffer), set_mq m (mq_push_free msg q) k)
      })"

definition rt_mq_recv :: "nat \<Rightarrow> nat \<Rightarrow> int \<Rightarrow> kernel \<Rightarrow> (outcome \<times> kernel) option" where
  "rt_mq_recv m sz timeout k = do {
     rt_assert (is_mq m k);
     rt_assert (sz \<noteq> 0);
     if mq_entry (mqs k m) = 0 \<and> timeout = 0 then Some (Ret (- RT_ETIMEOUT) VNone, k)
     else mq_recv_loop m sz timeout k
   }"

definition rt_mq_recv_resume ::
    "nat \<Rightarrow> nat \<Rightarrow> nat \<Rightarrow> int \<Rightarrow> u32 \<Rightarrow> kernel \<Rightarrow> (outcome \<times> kernel) option" where
  "rt_mq_recv_resume t m sz timeout tick_delta k =
     (if error (threads k t) \<noteq> RT_EOK then Some (Ret (error (threads k t)) VNone, k)
      else mq_recv_loop m sz (time_left timeout tick_delta k) k)"

definition rt_mq_control :: "nat \<Rightarrow> ipc_ctrl \<Rightarrow> kernel \<Rightarrow> (rt_err_t \<times> kernel) option" where
  "rt_mq_control m cmd k = do {
     rt_assert (is_mq m k);
     case cmd of
       Ipc_reset _ \<Rightarrow> do {
         k \<leftarrow> rt_ipc_list_resume_all (SuspendThread (OMq m)) k;
         q \<leftarrow> mq_flush (mqs k m);
         k \<leftarrow> rt_schedule (set_mq m (q\<lparr>mq_entry := 0\<rparr>) k);
         Some (RT_EOK, k)
       }
     | Ipc_other \<Rightarrow> Some (- RT_ERROR, k)
   }"

section \<open>Sending\<close>

lemma set_mq_sel [simp]:
  "mqs (set_mq m x k) = (mqs k)(m := x)" "tlists (set_mq m x k) = tlists k"
  "threads (set_mq m x k) = threads k" "objs (set_mq m x k) = objs k"
  "rt_current_thread (set_mq m x k) = rt_current_thread k" "kinv (set_mq m x k) = kinv k"
  by (simp_all add: set_mq_def)

text \<open>The queue of messages is now \<open>ms\<close>, and the first waiting receiver, if any, can run.\<close>

definition mq_moved :: "nat \<Rightarrow> u8 list list \<Rightarrow> kernel \<Rightarrow> kernel \<Rightarrow> bool" where
  "mq_moved m ms k k' \<longleftrightarrow> kinv k' \<and> mq_quiet (mqs k' m) \<and> mq_msgs (mqs k' m) = ms \<and>
     (\<forall>m'. m' \<noteq> m \<longrightarrow> mqs k' m' = mqs k m') \<and>
     mq_receivers k' m = tl (mq_receivers k m) \<and>
     (\<forall>h'. wait_head h' \<and> h' \<noteq> SuspendThread (OMq m) \<longrightarrow> tlists k' h' = tlists k h') \<and>
     (\<forall>t ts. mq_receivers k m = t # ts \<longrightarrow> runnable k' t)"

lemma mq_deliver_spec:
  assumes k: "kinv k" and cur: "rt_current_thread k \<noteq> None" and q: "mq_quiet q"
  shows "\<exists>k'. mq_deliver m q k = Some (Ret RT_EOK VNone, k') \<and> mq_moved m (mq_msgs q) k k'"
proof -
  let ?h = "SuspendThread (OMq m)"
  have "kinv (set_mq m q k)" "rt_current_thread (set_mq m q k) \<noteq> None" "wait_head ?h"
    using k cur by simp_all
  from wake_first [OF this, of "Ret RT_EOK VNone"] obtain k' where
    k': "(if tlists (set_mq m q k) ?h \<noteq> [] then do {
      k \<leftarrow> rt_ipc_list_resume ?h (set_mq m q k);
      k \<leftarrow> rt_schedule k;
      Some (Ret RT_EOK VNone, k) } else Some (Ret RT_EOK VNone, set_mq m q k)) = Some (Ret RT_EOK VNone, k')"
      "passed ?h (set_mq m q k) k'" .
  have "mq_moved m (mq_msgs q) k k'" using k'(2) q by (auto simp: passed_def mq_moved_def ipc_frame_def)
  with k'(1) show ?thesis by (auto simp: mq_deliver_def Let_def)
qed

text \<open>What a slot holds after a message has been copied into it.\<close>

definition slot_after :: "u8 list \<Rightarrow> rt_messagequeue \<Rightarrow> u8 list" where
  "slot_after buffer q = buffer @ drop (length buffer) (mq_data q (the (msg_queue_free q)))"

lemma mq_has_room:
  assumes "mq_quiet q" and "msg_queue_free q = Some m"
  obtains qs fs where "mq_inv q qs (m # fs) {}"
proof -
  from assms(1) obtain qs fs where i: "mq_inv q qs fs {}" by (auto simp: mq_quiet_def)
  then have "links (mq_next q) (Some m) fs" using assms(2) by (simp add: mq_inv_def)
  then obtain fs' where "fs = m # fs'" by (cases fs) auto
  then show ?thesis using i that by blast
qed

text \<open>
  C21. \<^verbatim>\<open>rt_mq_send\<close> and \<^verbatim>\<open>rt_mq_urgent\<close>: a message longer than the queue's message size is an
  error and a full queue is reported, both without any effect; otherwise the message is put
  behind all queued messages, or in front of them when urgent, and the first waiting
  receiver, if any, can run. The bytes of the slot behind the message keep what was there.
\<close>

theorem rt_mq_send_correct:
  assumes k: "kinv k" and cur: "rt_current_thread k \<noteq> None" and m: "is_mq m k"
    and q: "mq_quiet (mqs k m)" and buf: "buffer \<noteq> []"
  shows "(length buffer > unat (msg_size (mqs k m)) \<longrightarrow>
      rt_mq_send m buffer k = Some (Ret (- RT_ERROR) VNone, k) \<and>
      rt_mq_urgent m buffer k = Some (Ret (- RT_ERROR) VNone, k)) \<and>
    (length buffer \<le> unat (msg_size (mqs k m)) \<and> length (mq_msgs (mqs k m)) = unat (max_msgs (mqs k m)) \<longrightarrow>
      rt_mq_send m buffer k = Some (Ret (- RT_EFULL) VNone, k) \<and>
      rt_mq_urgent m buffer k = Some (Ret (- RT_EFULL) VNone, k)) \<and>
    (length buffer \<le> unat (msg_size (mqs k m)) \<and> length (mq_msgs (mqs k m)) < unat (max_msgs (mqs k m)) \<longrightarrow>
      (\<exists>k'. rt_mq_send m buffer k = Some (Ret RT_EOK VNone, k') \<and>
        mq_moved m (mq_msgs (mqs k m) @ [slot_after buffer (mqs k m)]) k k') \<and>
      (\<exists>k'. rt_mq_urgent m buffer k = Some (Ret RT_EOK VNone, k') \<and>
        mq_moved m (slot_after buffer (mqs k m) # mq_msgs (mqs k m)) k k'))"
proof -
  let ?q = "mqs k m"
  note full = mq.is_full [OF q]
  have "(\<exists>k'. rt_mq_send m buffer k = Some (Ret RT_EOK VNone, k') \<and>
        mq_moved m (mq_msgs ?q @ [slot_after buffer ?q]) k k') \<and>
      (\<exists>k'. rt_mq_urgent m buffer k = Some (Ret RT_EOK VNone, k') \<and>
        mq_moved m (slot_after buffer ?q # mq_msgs ?q) k k')"
    if b: "length buffer \<le> unat (msg_size ?q)" and room: "length (mq_msgs ?q) < unat (max_msgs ?q)"
  proof -
    from room full obtain s where s: "msg_queue_free ?q = Some s" by auto
    obtain qs fs where i: "mq_inv ?q qs (s # fs) {}" using mq_has_room [OF q s] .
    let ?t = "mq_link_tail s (mq_fill s buffer (mq_pop_free s ?q))"
    let ?u = "mq_link_head s (mq_copy s buffer (mq_pop_free s ?q))"
    have t: "mq_quiet ?t" "mq_msgs ?t = mq_msgs ?q @ [slot_after buffer ?q]"
      using mq_put_inv [OF i b] s by (auto simp: mq_put_def slot_after_def intro: mq_quietI)
    have u: "mq_quiet ?u" "mq_msgs ?u = slot_after buffer ?q # mq_msgs ?q"
      using mq_put_urgent_inv [OF i b] s by (auto simp: mq_put_urgent_def slot_after_def intro: mq_quietI)
    show ?thesis
      using mq_deliver_spec [OF k cur t(1), of m] mq_deliver_spec [OF k cur u(1), of m] t(2) u(2) m buf b s
      by (simp add: rt_mq_send_def rt_mq_urgent_def)
  qed
  then show ?thesis using full m buf by (auto simp: rt_mq_send_def rt_mq_urgent_def)
qed

text \<open>A state with a message queue of two slots of four bytes.\<close>

definition example_mq :: kernel where
  "example_mq = set_mq 0 example_pool
     (example_kernel\<lparr>objs := (objs example_kernel)(OMq 0 := \<lparr>name = [], otype = 6, flag = 0\<rparr>)\<rparr>)"

lemma example_pool_facts:
  "msg_size example_pool = 4" "max_msgs example_pool = 2" "mq_msgs example_pool = []"
  "msg_queue_free example_pool = Some 1" "mq_data example_pool = (\<lambda>_. [0, 0, 0, 0])"
  "mq_entry example_pool = 0"
  using mq_msgs_eq [OF example_pool_inv]
  by (simp_all add: example_pool_def mq_init_free_def mq_push_free_def numeral_2_eq_2)

lemma example_mq_facts:
  "kinv example_mq" "rt_current_thread example_mq = Some 1" "tstat example_mq 1 = RT_THREAD_RUNNING"
  "is_mq 0 example_mq" "mqs example_mq 0 = example_pool" "rt_interrupt_nest example_mq = 0"
  "flag (objs example_mq (OMq 0)) = RT_IPC_FLAG_FIFO" "rt_tick example_mq = 0"
  using kinv_object [OF kinv_example, where ob = "OMq 0" and x = "\<lparr>name = [], otype = 6, flag = 0\<rparr>"
      and L = "object_list example_kernel"]
  by (simp_all add: example_mq_def is_mq_def rt_object_get_type_def set_mq_def)

theorem rt_mq_send_correct_witness:
  "\<exists>k'. rt_mq_send 0 [7, 8] example_mq = Some (Ret RT_EOK VNone, k') \<and>
     mq_msgs (mqs k' 0) = [[7, 8, 0, 0]]"
proof -
  have "mq_quiet (mqs example_mq 0)" "rt_current_thread example_mq \<noteq> None" "[7::u8, 8] \<noteq> []"
    using example_pool_quiet example_mq_facts by simp_all
  from rt_mq_send_correct [OF example_mq_facts(1) this(2) example_mq_facts(4) this(1,3)]
  show ?thesis by (auto simp: example_mq_facts example_pool_facts slot_after_def mq_moved_def)
qed

section \<open>Receiving\<close>

lemma mq_recv_loop_spec:
  assumes k: "kinv k" and cur: "rt_current_thread k = Some t" and run: "runnable k t"
    and fl: "flag (objs k (OMq m)) \<in> {RT_IPC_FLAG_FIFO, RT_IPC_FLAG_PRIO}"
    and time: "time_ok timeout" and nest: "rt_interrupt_nest k = 0" and q: "mq_quiet (mqs k m)"
    and k0: "k0 = upd_thread t (\<lambda>x. x\<lparr>error := RT_EOK\<rparr>) k"
  shows "mq_entry (mqs k m) \<noteq> 0 \<Longrightarrow>
      \<exists>q'. mq_recv_loop m sz timeout k = Some (Ret RT_EOK (VBytes (take (min sz (unat (msg_size (mqs k m))))
          (hd (mq_msgs (mqs k m))))), set_mq m q' k) \<and>
        mq_quiet q' \<and> mq_msgs q' = tl (mq_msgs (mqs k m))"
    and "mq_entry (mqs k m) = 0 \<Longrightarrow> timeout \<noteq> 0 \<Longrightarrow>
      \<exists>k'. mq_recv_loop m sz timeout k = Some (Wait (K_mq_recv m sz timeout (rt_tick k)), k') \<and>
        blocked (SuspendThread (OMq m)) t (flag (objs k (OMq m))) timeout k0 k' \<and> mqs k' = mqs k"
proof -
  assume some: "mq_entry (mqs k m) \<noteq> 0"
  from mq.get_total [OF q some] obtain q' where
    q': "mq_get (mqs k m) = Some (hd (mq_msgs (mqs k m)), q')" "mq_quiet q'"
      "mq_msgs q' = tl (mq_msgs (mqs k m))" by (auto elim!: returnsE)
  then obtain s q1 where s: "mq_pop_head (mqs k m) = Some (s, q1)" "q' = mq_push_free s q1"
      "mq_data q1 s = hd (mq_msgs (mqs k m))"
    by (auto simp: mq_get_def bind_eq_Some_conv)
  have "msg_size q1 = msg_size (mqs k m)"
    using s(1) by (auto simp: mq_pop_head_def bind_eq_Some_conv Let_def)
  then show "\<exists>q'. mq_recv_loop m sz timeout k = Some (Ret RT_EOK (VBytes (take (min sz
        (unat (msg_size (mqs k m)))) (hd (mq_msgs (mqs k m))))), set_mq m q' k) \<and>
      mq_quiet q' \<and> mq_msgs q' = tl (mq_msgs (mqs k m))"
    using some s q'(2,3) by (auto simp: mq_recv_loop_def)
next
  assume e: "mq_entry (mqs k m) = 0" and "timeout \<noteq> 0"
  have o: "objs k0 = objs k" and c: "rt_tick k0 = rt_tick k" unfolding k0 by (simp_all add: kdefs)
  obtain k' where k': "ipc_block (SuspendThread (OMq m)) t (flag (objs k (OMq m))) timeout k0 = Some k'"
      "blocked (SuspendThread (OMq m)) t (flag (objs k (OMq m))) timeout k0 k'" "ipc_frame k k'"
    using wait_start [OF k cur run fl time _ k0, of "SuspendThread (OMq m)"] by auto
  then show "\<exists>k'. mq_recv_loop m sz timeout k = Some (Wait (K_mq_recv m sz timeout (rt_tick k)), k') \<and>
      blocked (SuspendThread (OMq m)) t (flag (objs k (OMq m))) timeout k0 k' \<and> mqs k' = mqs k"
    using e \<open>timeout \<noteq> 0\<close> cur nest o c
    by (simp add: mq_recv_loop_def RT_DEBUG_IN_THREAD_CONTEXT_def RT_DEBUG_NOT_IN_INTERRUPT_def
        rt_thread_self_def rt_interrupt_get_nest_def rt_tick_get_def k0 [symmetric] ipc_frame_def)
qed

text \<open>
  C22. \<^verbatim>\<open>rt_mq_recv\<close> called by the running thread: the first message is delivered, cut to the
  size of the buffer, and its slot is free again; an empty queue is reported at once with
  time 0; otherwise the receiver waits in the order of the flag, with its timer armed when
  the time is limited.
\<close>

theorem rt_mq_recv_correct:
  assumes k: "kinv k" and cur: "rt_current_thread k = Some t" and run: "tstat k t = RT_THREAD_RUNNING"
    and m: "is_mq m k" and q: "mq_quiet (mqs k m)" and sz: "sz \<noteq> 0"
    and fl: "flag (objs k (OMq m)) \<in> {RT_IPC_FLAG_FIFO, RT_IPC_FLAG_PRIO}"
    and time: "time_ok timeout" and nest: "rt_interrupt_nest k = 0"
  shows "(\<forall>x xs. mq_msgs (mqs k m) = x # xs \<longrightarrow>
      (\<exists>q'. rt_mq_recv m sz timeout k = Some (Ret RT_EOK (VBytes (take (min sz (unat (msg_size (mqs k m)))) x)),
          set_mq m q' k) \<and> mq_quiet q' \<and> mq_msgs q' = xs)) \<and>
    (mq_msgs (mqs k m) = [] \<and> timeout = 0 \<longrightarrow>
      rt_mq_recv m sz timeout k = Some (Ret (- RT_ETIMEOUT) VNone, k)) \<and>
    (mq_msgs (mqs k m) = [] \<and> timeout \<noteq> 0 \<longrightarrow>
      (\<exists>k'. rt_mq_recv m sz timeout k = Some (Wait (K_mq_recv m sz timeout (rt_tick k)), k') \<and>
        blocked (SuspendThread (OMq m)) t (flag (objs k (OMq m))) timeout
          (upd_thread t (\<lambda>x. x\<lparr>error := RT_EOK\<rparr>) k) k' \<and> mqs k' = mqs k))"
proof -
  have r: "runnable k t" using run by (simp add: runnable_def)
  note spec = mq_recv_loop_spec [OF k cur r fl time nest q refl, of sz]
  show ?thesis using spec mq.is_empty [OF q] m sz by (auto simp: rt_mq_recv_def)
qed

theorem rt_mq_recv_correct_witness:
  "\<exists>k'. rt_mq_recv 0 4 25 example_mq = Some (Wait (K_mq_recv 0 4 25 0), k') \<and>
     mq_receivers k' 0 = [1] \<and> due k' (ThreadTimer 1) = 25"
proof -
  have e: "mq_quiet (mqs example_mq 0)" "(4::nat) \<noteq> 0" "time_ok 25" "mq_receivers example_mq 0 = []"
    "flag (objs example_mq (OMq 0)) \<in> {RT_IPC_FLAG_FIFO, RT_IPC_FLAG_PRIO}"
    using example_pool_quiet example_mq_facts by (simp_all add: time_ok_def example_mq_def)
  from rt_mq_recv_correct [OF example_mq_facts(1-4) e(1,2,5,3) example_mq_facts(6)]
  show ?thesis using e(4)
    by (auto simp: example_mq_facts example_pool_facts blocked_on_def kdefs wait_insert_def)
qed

section \<open>Sequences of operations and reset\<close>

text \<open>
  C23. For every sequence of sends of full-size messages and receives, sends to a full queue
  and receives from an empty one being refused: the messages delivered, followed by those
  still queued, are the messages that were queued followed by those accepted, in order; and
  an urgent message that is accepted is the next one delivered.
\<close>

theorem message_queue_fifo:
  assumes "mq_quiet q" and "\<And>x. Put x \<in> set ops \<Longrightarrow> length x = unat (msg_size q)"
  shows "(\<exists>acc del q'. fifo_run (\<lambda>q. msg_queue_free q = None) (\<lambda>q. mq_entry q = 0) mq_put mq_get ops q =
      Some (acc, del, q') \<and> mq_quiet q' \<and> del @ mq_msgs q' = mq_msgs q @ acc \<and>
      length (mq_msgs q') \<le> unat (max_msgs q)) \<and>
    (\<forall>x. length x = unat (msg_size q) \<and> msg_queue_free q \<noteq> None \<longrightarrow>
      (\<exists>q'. Option.bind (mq_put_urgent x q) mq_get = Some (x, q') \<and> mq_msgs q' = mq_msgs q))"
proof -
  have "length (mq_msgs q) < unat (max_msgs q)" if "msg_queue_free q \<noteq> None"
    using that mq.is_full [OF assms(1)] mq.bound [OF assms(1)] by simp
  then show ?thesis
    using mq.run [OF assms(1), of ops] assms(2) mq.push_get [OF assms(1)] unfolding returns_def by fastforce
qed

theorem message_queue_fifo_witness:
  "\<exists>acc del q'. fifo_run (\<lambda>q. msg_queue_free q = None) (\<lambda>q. mq_entry q = 0) mq_put mq_get
      [Put [1, 1, 1, 1], Put [2, 2, 2, 2], Get] example_pool = Some (acc, del, q') \<and>
    del @ mq_msgs q' = acc"
proof -
  have "length x = unat (msg_size example_pool)"
    if "Put x \<in> set [Put [1, 1, 1, 1], Put [2, 2, 2, 2], Get]" for x :: "u8 list"
    using that by (auto simp: example_pool_facts)
  from message_queue_fifo [OF example_pool_quiet this] show ?thesis
    unfolding example_pool_facts(3) append_Nil by blast
qed

text \<open>
  C35. Resetting a message queue terminates, whatever it holds: every waiting receiver can run
  again with the error \<^verbatim>\<open>-RT_ERROR\<close>, the queue is empty and all its slots are free.
\<close>

theorem rt_mq_reset_terminates:
  assumes k: "kinv k" and cur: "rt_current_thread k \<noteq> None" and m: "is_mq m k" and q: "mq_quiet (mqs k m)"
  shows "\<exists>k'. rt_mq_control m (Ipc_reset v) k = Some (RT_EOK, k') \<and> kinv k' \<and> mq_quiet (mqs k' m) \<and>
    mq_msgs (mqs k' m) = [] \<and> max_msgs (mqs k' m) = max_msgs (mqs k m) \<and> mq_receivers k' m = [] \<and>
    (\<forall>t \<in> set (mq_receivers k m). runnable k' t \<and> error (threads k' t) = - RT_ERROR)"
proof -
  let ?h = "SuspendThread (OMq m)"
  from rt_ipc_list_resume_all_spec [OF k, of ?h] obtain k1 where
    k1: "rt_ipc_list_resume_all ?h k = Some k1" "woken_all ?h k k1" by (auto elim: returnsE)
  then have q1: "mqs k1 = mqs k" "kinv k1" by (simp_all add: woken_all_def ipc_frame_def)
  from q obtain qs fs where "mq_inv (mqs k m) qs fs {}" by (auto simp: mq_quiet_def)
  from mq_flush_inv [OF this] obtain q' where
    q': "mq_flush (mqs k m) = Some q'" "mq_inv (q'\<lparr>mq_entry := 0\<rparr>) [] (rev qs @ fs) {}"
      "max_msgs q' = max_msgs (mqs k m)" by auto
  let ?k2 = "set_mq m (q'\<lparr>mq_entry := 0\<rparr>) k1"
  obtain c where "rt_current_thread ?k2 = Some c" using cur k1(2) by (auto simp: woken_all_def)
  from rt_schedule_after [OF _ this] q1(2) obtain k' where
    k': "rt_schedule ?k2 = Some k'" "kinv k'" "sched_frame ?k2 k'" by (auto elim!: returnsE)
  note f = sched_frameD [OF k'(3)]
  have "mqs k' m = q'\<lparr>mq_entry := 0\<rparr>" using ipc_frame_sched [OF k'(3)] by (simp add: ipc_frame_def)
  moreover have "tlists k' ?h = []" using f(16) [of ?h] k1(2) by (simp add: woken_all_def)
  moreover have "runnable k' t \<and> error (threads k' t) = - RT_ERROR" if "t \<in> set (tlists k ?h)" for t
  proof -
    have "runnable ?k2 t" "error (threads ?k2 t) = - RT_ERROR"
      using that k1(2) by (auto simp: woken_all_def runnable_def)
    then show ?thesis using f(18) [of t] error_stat [OF f(15) [of t]] by simp
  qed
  ultimately show ?thesis
    using m k1(1) q1(1) q'(1,3) k'(1,2) mq_quietI [OF q'(2)] mq_msgs_eq [OF q'(2)] by (simp add: rt_mq_control_def)
qed

theorem rt_mq_reset_terminates_witness:
  "\<exists>k'. rt_mq_control 0 (Ipc_reset 0) example_mq = Some (RT_EOK, k') \<and> mq_msgs (mqs k' 0) = []"
proof -
  have "mq_quiet (mqs example_mq 0)" "rt_current_thread example_mq \<noteq> None"
    using example_pool_quiet example_mq_facts by simp_all
  then show ?thesis
    using rt_mq_reset_terminates [OF example_mq_facts(1) _ example_mq_facts(4)] by blast
qed

text \<open>A new queue has all its slots free, as many as the buffer holds.\<close>

lemma mq_init_fields_spec:
  assumes "\<And>i. i < unat n \<Longrightarrow> length (pool i) = unat (mq_size msgsize)"
  shows "mq_quiet (mq_init_fields pool msgsize n)" and "mq_msgs (mq_init_fields pool msgsize n) = []"
    and "max_msgs (mq_init_fields pool msgsize n) = n"
proof -
  let ?q = "\<lparr>mq_next = (\<lambda>_. None), mq_data = pool, msg_size = mq_size msgsize, max_msgs = n, mq_entry = 0,
    msg_queue_head = None, msg_queue_tail = None, msg_queue_free = None\<rparr>"
  have i: "mq_inv (mq_init_free (unat n) ?q) [] (rev [0..<unat n]) {}"
    by (rule mq_init_free_inv) (use assms in simp_all)
  then have e: "mq_init_fields pool msgsize n = mq_init_free (unat n) ?q"
    by (cases "mq_init_free (unat n) ?q") (simp add: mq_init_fields_def mq_inv_def unat_eq_zero)
  show "mq_quiet (mq_init_fields pool msgsize n)" "mq_msgs (mq_init_fields pool msgsize n) = []"
    unfolding e using mq_quietI [OF i] mq_msgs_eq [OF i] by simp_all
  show "max_msgs (mq_init_fields pool msgsize n) = n"
    unfolding e using mq_init_free_links [of "unat n" ?q] by (simp add: Let_def)
qed

end
