(* ===== verification/Steady.thy ===== *)
theory Steady
  imports Clock Semaphore Event Mailbox Mqueue
begin

text \<open>
  The kernel between two steps. \<open>steady\<close> collects what holds whenever a thread runs with the
  scheduler unlocked: the invariants of scheduler, timers and objects, and that the running
  thread can run and nobody who can run has a higher priority. \<open>moves\<close> and \<open>timely\<close> say what
  an operation of \<^verbatim>\<open>src/ipc.c\<close>, \<^verbatim>\<open>src/thread.c\<close> or \<^verbatim>\<open>src/timer.c\<close> may do to the threads and
  the timers that it is not about. The primitives of the other theories (resuming a thread,
  scheduling, suspending, arming a timer) are shown to stay within these bounds, and
  \<open>served\<close> is the contract of a call that is built from them.
\<close>

section \<open>What is true between two steps\<close>

definition settled :: "kernel \<Rightarrow> bool" where
  "settled k \<longleftrightarrow> (\<exists>c. rt_current_thread k = Some c \<and> tstat k c = RT_THREAD_RUNNING \<and>
     (\<forall>v. runnable k v \<longrightarrow> tprio k c \<le> tprio k v))"

definition objects_ok :: "kernel \<Rightarrow> bool" where
  "objects_ok k \<longleftrightarrow>
     (\<forall>s. is_sem s k \<longrightarrow> flag (objs k (OSem s)) \<in> {RT_IPC_FLAG_FIFO, RT_IPC_FLAG_PRIO}) \<and>
     (\<forall>e. is_event e k \<longrightarrow> flag (objs k (OEvent e)) \<in> {RT_IPC_FLAG_FIFO, RT_IPC_FLAG_PRIO}) \<and>
     (\<forall>m. is_mailbox m k \<longrightarrow> mb_inv (mailboxes k m) \<and>
        flag (objs k (OMailbox m)) \<in> {RT_IPC_FLAG_FIFO, RT_IPC_FLAG_PRIO}) \<and>
     (\<forall>m. is_mq m k \<longrightarrow> mq_quiet (mqs k m) \<and>
        flag (objs k (OMq m)) \<in> {RT_IPC_FLAG_FIFO, RT_IPC_FLAG_PRIO})"

definition steady :: "nat \<Rightarrow> kernel \<Rightarrow> bool" where
  "steady idle k \<longleftrightarrow> tick_ready k \<and> rt_scheduler_lock_nest k = 0 \<and> settled k \<and>
     runnable k idle \<and> objects_ok k"

text \<open>
  What an operation may do to the threads outside \<open>A\<close> (the caller, when it waits): they may be
  woken up, and nothing else; a thread that still waits still has its timer.
\<close>

definition moves :: "nat set \<Rightarrow> kernel \<Rightarrow> kernel \<Rightarrow> bool" where
  "moves A k k' \<longleftrightarrow> rt_scheduler_lock_nest k' = rt_scheduler_lock_nest k \<and>
     rt_interrupt_nest k' = rt_interrupt_nest k \<and>
     (\<forall>ob. (\<nexists>i. ob = OTimer i) \<longrightarrow> objs k' ob = objs k ob) \<and>
     (\<forall>u. current_priority (threads k' u) = current_priority (threads k u)) \<and>
     (\<forall>u. u \<notin> A \<longrightarrow> (runnable k u \<longrightarrow> runnable k' u) \<and>
        (tstat k' u = RT_THREAD_SUSPEND \<longrightarrow> tstat k u = RT_THREAD_SUSPEND \<and>
           (ThreadTimer u \<in> set (rt_timer_list k) \<longrightarrow> ThreadTimer u \<in> set (rt_timer_list k'))))"

text \<open>The timers that are pending afterwards were pending before, or belong to a thread and are not overdue.\<close>

definition timely :: "kernel \<Rightarrow> kernel \<Rightarrow> bool" where
  "timely k k' \<longleftrightarrow> rt_tick k' = rt_tick k \<and> (\<forall>x \<in> set (rt_timer_list k').
     x \<in> set (rt_timer_list k) \<and> timers k' x = timers k x \<and>
       flag (objs k' (OTimer x)) AND RT_TIMER_FLAG_PERIODIC = flag (objs k (OTimer x)) AND RT_TIMER_FLAG_PERIODIC \<or>
     (\<exists>i. x = ThreadTimer i \<and> due k' x \<noteq> rt_tick k - 1))"

definition goes :: "nat set \<Rightarrow> kernel \<Rightarrow> kernel \<Rightarrow> bool" where
  "goes A k k' \<longleftrightarrow> moves A k k' \<and> timely k k' \<and> mailboxes k' = mailboxes k \<and> mqs k' = mqs k"

lemma moves_refl [simp]: "moves A k k"
  by (simp add: moves_def)

lemma timely_refl [simp]: "timely k k"
  by (simp add: timely_def)

lemma goes_refl [simp]: "goes A k k"
  by (simp add: goes_def)

lemma moves_trans: "moves A k k1 \<Longrightarrow> moves B k1 k' \<Longrightarrow> moves (A \<union> B) k k'"
  by (auto simp: moves_def)

lemma timely_trans: "timely k k1 \<Longrightarrow> timely k1 k' \<Longrightarrow> timely k k'"
  unfolding timely_def by (smt (verit))

lemma goes_trans: "goes A k k1 \<Longrightarrow> goes B k1 k' \<Longrightarrow> goes (A \<union> B) k k'"
  using moves_trans timely_trans by (auto simp: goes_def)

lemma moves_mono: "moves A k k' \<Longrightarrow> A \<subseteq> B \<Longrightarrow> moves B k k'"
  by (auto simp: moves_def)

lemma goes_mono: "goes A k k' \<Longrightarrow> A \<subseteq> B \<Longrightarrow> goes B k k'"
  using moves_mono by (auto simp: goes_def)

lemma timely_ahead:
  assumes k: "timers_sane k" "timers_ahead k" and t: "timely k k'" and k': "kinv k'"
  shows "timers_sane k'" and "timers_ahead k'"
proof -
  have p: "flag (objs k' (OTimer (ThreadTimer i))) AND RT_TIMER_FLAG_PERIODIC = 0"
    if "ThreadTimer i \<in> set (rt_timer_list k')" for i
    using timer_invD(5,6) [OF kinvD(2) [OF k']] that by (auto simp: thread_timer_ok_def)
  show "timers_sane k'"
    unfolding timers_sane_def
  proof
    fix x assume x: "x \<in> set (rt_timer_list k')"
    show "(flag (objs k' (OTimer x)) AND RT_TIMER_FLAG_PERIODIC \<noteq> 0 \<longrightarrow>
        timer_init_tick (timers k' x) \<noteq> 0 \<and> timer_init_tick (timers k' x) < RT_TICK_HALF) \<and>
        (\<forall>n. x = Timer n \<longrightarrow> (\<exists>i p. timeout_func (timers k' x) = User_timeout i p))"
    proof (cases x)
      case (ThreadTimer i)
      then show ?thesis using p x by simp
    next
      case (Timer n)
      then have "x \<in> set (rt_timer_list k)" "timers k' x = timers k x"
        "flag (objs k' (OTimer x)) AND RT_TIMER_FLAG_PERIODIC = flag (objs k (OTimer x)) AND RT_TIMER_FLAG_PERIODIC"
        using t x by (auto simp: timely_def)
      then show ?thesis using k(1) Timer unfolding timers_sane_def by metis
    qed
  qed
  show "timers_ahead k'"
    unfolding timers_ahead_def
  proof
    fix x assume "x \<in> set (rt_timer_list k')"
    then show "due k' x \<noteq> rt_tick k' - 1"
      using t k(2) unfolding timely_def timers_ahead_def by metis
  qed
qed

lemma objects_ok_moves:
  assumes "objects_ok k" and "moves A k k'"
    and "\<And>m. is_mailbox m k \<Longrightarrow> mb_inv (mailboxes k m) \<Longrightarrow> mb_inv (mailboxes k' m)"
    and "\<And>m. is_mq m k \<Longrightarrow> mq_quiet (mqs k m) \<Longrightarrow> mq_quiet (mqs k' m)"
  shows "objects_ok k'"
  using assms by (auto simp: objects_ok_def moves_def is_sem_def is_event_def is_mailbox_def is_mq_def
      rt_object_get_type_def)

section \<open>The primitives\<close>

lemma goes_threads:
  assumes "threads k' = threads k" "objs k' = objs k" "rt_timer_list k' = rt_timer_list k"
    "timers k' = timers k" "rt_tick k' = rt_tick k" "rt_interrupt_nest k' = rt_interrupt_nest k"
    "rt_scheduler_lock_nest k' = rt_scheduler_lock_nest k"
  shows "moves A k k'" and "timely k k'"
  using assms by (simp_all add: moves_def timely_def runnable_def)

lemma goes_upd_thread:
  assumes "\<And>x. stat (f x) = stat x" and "\<And>x. current_priority (f x) = current_priority x"
  shows "goes {} k (upd_thread t f k)"
  using assms by (simp add: goes_def moves_def timely_def runnable_def kdefs)

lemma goes_sched:
  assumes "sched_frame k k'"
  shows "goes {} k k'"
proof -
  note f = sched_frameD [OF assms]
  have "tstat k u = RT_THREAD_SUSPEND" if "tstat k' u = RT_THREAD_SUSPEND" for u
    using f(17) [of u] f(18) [of u] that by (auto simp: runnable_def)
  moreover have "current_priority (threads k' u) = current_priority (threads k u)" for u
    by (subst f(15)) simp
  ultimately show ?thesis using f by (simp add: goes_def moves_def timely_def)
qed

lemma stopped_flag:
  "flag (objs (stopped t k) (OTimer x)) AND RT_TIMER_FLAG_PERIODIC =
     flag (objs k (OTimer x)) AND RT_TIMER_FLAG_PERIODIC"
  "(\<nexists>i. ob = OTimer i) \<Longrightarrow> objs (stopped t k) ob = objs k ob"
  "set (rt_timer_list (stopped t k)) \<subseteq> set (rt_timer_list k)"
  "x \<in> set (rt_timer_list k) \<Longrightarrow> t \<noteq> x \<Longrightarrow> x \<in> set (rt_timer_list (stopped t k))"
  by (auto simp: stopped_def flag_bits in_set_remove1 dest: set_mp [OF set_remove1_subset])

lemma goes_resumed:
  assumes k: "kinv k"
  shows "goes {} k (resumed t k g)"
proof -
  let ?k = "resumed t k g"
  note r = resumed_sel [OF k, where t = t and g = g]
  let ?s = "stopped (ThreadTimer t) (k\<lparr>tlists := list_remove t (tlists k)\<rparr>)"
  have s: "objs ?k = objs ?s" "rt_timer_list ?k = rt_timer_list ?s"
    by (simp_all add: resumed_def Let_def)
  have "tstat k u = RT_THREAD_SUSPEND \<and> u \<noteq> t" if "tstat ?k u = RT_THREAD_SUSPEND" for u
    using r(1,3) that by (cases "u = t") (auto split: if_splits)
  moreover have "current_priority (threads ?k u) = current_priority (threads k u)" for u
    using ipc_frameD(14) [OF ipc_frame_resumed [OF k]] .
  moreover have "flag (objs ?k (OTimer x)) AND RT_TIMER_FLAG_PERIODIC =
      flag (objs k (OTimer x)) AND RT_TIMER_FLAG_PERIODIC" for x
    using stopped_flag(1) [of "ThreadTimer t" "k\<lparr>tlists := list_remove t (tlists k)\<rparr>"] s(1) by simp
  ultimately show ?thesis
    using r(7,8,12,13,15,16,18,19) runnable_resumed [OF k] by (auto simp: goes_def moves_def timely_def)
qed

lemma goes_suspended:
  assumes k: "kinv k"
  shows "goes {t} k (suspended t k g)"
proof -
  let ?s = "suspended t k g"
  note s = suspended_sel [OF k, where t = t and g = g]
  have st: "stat (threads ?s u) = stat (threads k u)" if "u \<noteq> t" for u using s(4) that by simp
  have p: "current_priority (threads ?s u) = current_priority (threads k u)" for u
    using s(4,5) by (cases "u = t") simp_all
  let ?k = "unqueued t (stat (set_stat RT_THREAD_SUSPEND (threads k t))) k g"
  note fl = stopped_flag [where t = "ThreadTimer t" and k = ?k]
  have fl': "ThreadTimer u \<in> set (rt_timer_list ?s)" if "ThreadTimer u \<in> set (rt_timer_list k)" "u \<noteq> t" for u
    using that fl(4) [of "ThreadTimer u"] by (simp add: suspended_def)
  show ?thesis
    using st p fl(1-3) fl' by (auto simp: goes_def moves_def timely_def runnable_def suspended_def)
qed

lemma goes_enlisted: "kinv k \<Longrightarrow> goes {t} k (enlisted h t L k g)"
  using goes_suspended [of k t g] by (simp add: enlisted_def goes_def moves_def timely_def runnable_def)

lemma goes_armed:
  assumes tick: "tick < RT_TICK_HALF"
  shows "goes {} k (armed t tick k)"
proof -
  let ?x = "ThreadTimer t" and ?s = "set_time (ThreadTimer t) tick k"
  note f = timer_frame_sel [OF armed_frame [of k t tick]]
  have fl: "flag (objs (armed t tick k) (OTimer x)) AND RT_TIMER_FLAG_PERIODIC =
      flag (objs k (OTimer x)) AND RT_TIMER_FLAG_PERIODIC" if "x \<noteq> ?x" for x
    using that by (simp add: armed_def started_def set_time_def kdefs)
  have tm: "timers (armed t tick k) x = timers k x" if "x \<noteq> ?x" for x
    using that by (simp add: armed_def started_def set_time_def kdefs)
  have l: "set (rt_timer_list (armed t tick k)) = insert ?x (set (remove1 ?x (rt_timer_list k)))"
    by (simp add: armed_def started_def set_time_def kdefs)
  have d: "due (armed t tick k) ?x = rt_tick k + tick"
    by (simp add: armed_def started_def set_time_def kdefs)
  have mono: "ThreadTimer u \<in> set (rt_timer_list (armed t tick k))" if "ThreadTimer u \<in> set (rt_timer_list k)" for u
    using that l by (cases "u = t") simp_all
  have "timely k (armed t tick k)"
    unfolding timely_def
  proof (intro conjI ballI)
    fix x assume "x \<in> set (rt_timer_list (armed t tick k))"
    then show "x \<in> set (rt_timer_list k) \<and> timers (armed t tick k) x = timers k x \<and>
        flag (objs (armed t tick k) (OTimer x)) AND RT_TIMER_FLAG_PERIODIC =
          flag (objs k (OTimer x)) AND RT_TIMER_FLAG_PERIODIC \<or>
        (\<exists>i. x = ThreadTimer i \<and> due (armed t tick k) x \<noteq> rt_tick k - 1)"
      using fl [of x] tm [of x] l d tick_window(2) [OF tick] set_remove1_subset [of ?x "rt_timer_list k"]
      by (cases "x = ?x") auto
  qed (use f in simp)
  moreover have "objs (armed t tick k) ob = objs k ob" if "\<nexists>i. ob = OTimer i" for ob
    using that by (auto simp: armed_def started_def set_time_def kdefs)
  moreover have "mailboxes (armed t tick k) = mailboxes k" "mqs (armed t tick k) = mqs k"
    by (simp_all add: armed_def started_def set_time_def kdefs)
  ultimately show ?thesis
    using f(1,6,7) mono by (auto simp: goes_def moves_def runnable_def)
qed

lemma rt_schedule_settles:
  assumes k: "kinv k" and cur: "rt_current_thread k \<noteq> None" and lock: "rt_scheduler_lock_nest k = 0"
    and u: "runnable k u"
  shows "returns (rt_schedule k) (\<lambda>k'. kinv k' \<and> settled k' \<and> goes {} k k')"
proof -
  from cur obtain c where c: "rt_current_thread k = Some c" by auto
  from rt_schedule_spec [OF k c] obtain k' where
    k': "rt_schedule k = Some k'" "kinv k'" "sched_frame k k'" by (auto elim!: returnsE)
  note f = sched_frameD [OF k'(3)]
  note p = ipc_frameD(14) [OF ipc_frame_sched [OF k'(3)]]
  from rt_schedule_picks [OF kinvD(1) [OF k] c lock u] k'(1) obtain t where
    t: "rt_current_thread k' = Some t" "tstat k' t = RT_THREAD_RUNNING"
      "\<forall>v. runnable k v \<longrightarrow> tprio k t \<le> tprio k v" by auto
  have "settled k'" using t p f(18) by (simp add: settled_def)
  then show ?thesis using k' goes_sched [OF k'(3)] by simp
qed


lemma settled_cong:
  assumes "settled k" and "rt_current_thread k' = rt_current_thread k"
    and "\<And>u. stat (threads k' u) = stat (threads k u)"
    and "\<And>u. current_priority (threads k' u) = current_priority (threads k u)"
  shows "settled k'"
  using assms by (simp add: settled_def runnable_def)

text \<open>The first waiter, if any, is woken up and the scheduler runs.\<close>

lemma wake_settles:
  assumes k: "kinv k" and s: "settled k" and lock: "rt_scheduler_lock_nest k = 0" and h: "wait_head h"
  shows "returns (if tlists k h \<noteq> [] then do {
      k \<leftarrow> rt_ipc_list_resume h k;
      k \<leftarrow> rt_schedule k;
      Some (r, k) } else Some (r, k)) (\<lambda>(x, k'). x = r \<and> kinv k' \<and> settled k' \<and> goes {} k k')"
proof (cases "tlists k h")
  case Nil
  with k s show ?thesis by simp
next
  case (Cons t ts)
  obtain g where g: "rt_ipc_list_resume h k = Some (resumed t k g)" "kinv (resumed t k g)"
    using rt_ipc_list_resume_spec [OF k h Cons] by blast
  note r = resumed_sel [OF k, where t = t and g = g]
  have "rt_current_thread (resumed t k g) \<noteq> None" "rt_scheduler_lock_nest (resumed t k g) = 0"
    using r(2,15) s lock by (auto simp: settled_def)
  from rt_schedule_settles [OF g(2) this r(6)] obtain k' where
    k': "rt_schedule (resumed t k g) = Some k'" "kinv k'" "settled k'" "goes {} (resumed t k g) k'"
    by (auto elim: returnsE)
  have "goes {} k k'" using goes_trans [OF goes_resumed [OF k] k'(4)] by simp
  with Cons g(1) k' show ?thesis by simp
qed

lemma block_settles:
  assumes k: "kinv k" and cur: "rt_current_thread k = Some t" and run: "runnable k t"
    and fl: "fl \<in> {RT_IPC_FLAG_FIFO, RT_IPC_FLAG_PRIO}" and h: "wait_head h" and time: "time_ok time"
    and lock: "rt_scheduler_lock_nest k = 0" and u: "runnable k u" "u \<noteq> t"
  shows "returns (ipc_block h t fl time k) (\<lambda>k'. kinv k' \<and> settled k' \<and> goes {t} k k' \<and>
    (0 < time \<longrightarrow> ThreadTimer t \<in> set (rt_timer_list k')))"
proof -
  obtain g where w: "rt_ipc_list_suspend h t fl k = Some (waiting h t fl k g)" "kinv (waiting h t fl k g)"
    using rt_ipc_list_suspend_spec [OF k run _ h] fl by blast
  let ?w = "waiting h t fl k g"
  let ?a = "if 0 < time then armed t (of_int time) ?w else ?w"
  note ws = enlisted_sel [OF k run h, where g = g]
  have g1: "goes {t} k ?w" by (rule goes_enlisted [OF k])
  have arm: "(if 0 < time then start_thread_timer t (of_int time) ?w else Some ?w) = Some ?a" and ka: "kinv ?a"
    using start_thread_timer_spec(1,2) [OF w(2) ws(1) time_ok_half [OF time]] w(2) by simp_all
  have g2: "goes {} ?w ?a" using goes_armed [OF time_ok_half [OF time]] by simp
  have g12: "goes {t} k ?a" using goes_trans [OF g1 g2] by simp
  have "rt_current_thread ?a = Some t"
    using ws(3) cur timer_frame_sel(5) [OF armed_frame] by simp
  moreover have "rt_scheduler_lock_nest ?a = 0" "runnable ?a u"
    using g12 lock u by (simp_all add: goes_def moves_def)
  ultimately obtain k' where
    k': "rt_schedule ?a = Some k'" "kinv k'" "settled k'" "goes {} ?a k'"
    using rt_schedule_settles [OF ka] by (auto elim: returnsE)
  have "returns (rt_schedule ?a) (\<lambda>k'. sched_frame ?a k')"
    using rt_schedule_spec [OF ka \<open>rt_current_thread ?a = Some t\<close>] by (rule returns_mono) simp
  then have "rt_timer_list k' = rt_timer_list ?a" using k'(1) by (simp add: sched_frameD(4))
  then have "ThreadTimer t \<in> set (rt_timer_list k')" if "0 < time"
    using that by (simp add: armed_def started_def)
  moreover have "goes {t} k k'" using goes_trans [OF g12 k'(4)] by simp
  ultimately show ?thesis
    using w(1) arm k' by (simp add: ipc_block_def arm_schedule_def)
qed

section \<open>The contract of a call\<close>

definition sound :: "nat \<Rightarrow> kernel \<Rightarrow> bool" where
  "sound idle k \<longleftrightarrow> steady idle k \<and> timers_ahead k"

text \<open>
  The continuation of a call is well formed when its object exists and its time is one the
  code accepts; \<open>limit\<close> is the time limit of the wait, positive when a timer ends it.
\<close>

fun cont_ok :: "kernel \<Rightarrow> cont \<Rightarrow> bool" where
  "cont_ok k K_sleep = True"
| "cont_ok k K_sem_take = True"
| "cont_ok k K_event_recv = True"
| "cont_ok k (K_mb_send m v time start) = (is_mailbox m k \<and> time_ok time)"
| "cont_ok k (K_mb_recv m time start) = (is_mailbox m k \<and> time_ok time)"
| "cont_ok k (K_mq_recv m sz time start) = (is_mq m k \<and> time_ok time)"
| "cont_ok k _ = False"

fun limit :: "int \<Rightarrow> cont \<Rightarrow> int" where
  "limit time (K_mb_send m v left start) = left"
| "limit time (K_mb_recv m left start) = left"
| "limit time (K_mq_recv m sz left start) = left"
| "limit time _ = time"

definition served :: "nat \<Rightarrow> nat \<Rightarrow> int \<Rightarrow> kernel \<Rightarrow> outcome \<times> kernel \<Rightarrow> bool" where
  "served idle t time k r \<longleftrightarrow> sound idle (snd r) \<and> timely k (snd r) \<and> moves {t} k (snd r) \<and>
     (case fst r of
        Ret e v \<Rightarrow> moves {} k (snd r)
      | Wait c \<Rightarrow> cont_ok (snd r) c \<and>
          (0 < limit time c \<longrightarrow> ThreadTimer t \<in> set (rt_timer_list (snd r))))"

lemma soundD:
  assumes "sound idle k"
  shows "kinv k" "timers_sane k" "timers_ahead k" "rt_scheduler_lock_nest k = 0" "settled k"
    "runnable k idle" "objects_ok k" "rt_current_thread k \<noteq> None"
  using assms by (auto simp: sound_def steady_def tick_ready_def)

lemma sound_running:
  assumes "sound idle k" and "rt_current_thread k = Some t"
  shows "tstat k t = RT_THREAD_RUNNING" and "runnable k t"
  using soundD(5) [OF assms(1)] assms(2) by (auto simp: settled_def runnable_def)

lemma sound_moves:
  assumes k: "sound idle k" and k': "kinv k'" "settled k'" and m: "moves A k k'" "idle \<notin> A"
    and t: "timely k k'"
    and "\<And>m. is_mailbox m k \<Longrightarrow> mb_inv (mailboxes k m) \<Longrightarrow> mb_inv (mailboxes k' m)"
    and "\<And>m. is_mq m k \<Longrightarrow> mq_quiet (mqs k m) \<Longrightarrow> mq_quiet (mqs k' m)"
  shows "sound idle k'"
proof -
  note d = soundD [OF k]
  have "rt_scheduler_lock_nest k' = 0" "runnable k' idle" using m d(4,6) by (simp_all add: moves_def)
  moreover have "objects_ok k'" by (rule objects_ok_moves [OF d(7) m(1) assms(7,8)])
  ultimately show ?thesis
    using timely_ahead [OF d(2,3) t k'(1)] k' by (auto simp: sound_def steady_def tick_ready_def settled_def)
qed

lemma served_ret:
  assumes k: "sound idle k" and k': "kinv k'" "settled k'" and m: "moves {} k k'" "timely k k'"
    and "\<And>m. is_mailbox m k \<Longrightarrow> mb_inv (mailboxes k m) \<Longrightarrow> mb_inv (mailboxes k' m)"
    and "\<And>m. is_mq m k \<Longrightarrow> mq_quiet (mqs k m) \<Longrightarrow> mq_quiet (mqs k' m)"
  shows "served idle t time k (Ret e v, k')"
  using sound_moves [OF k k' m(1) _ m(2) assms(6,7)] m moves_mono [OF m(1)] by (simp add: served_def)

lemma served_goes:
  assumes "sound idle k" and "kinv k'" and "settled k'" and "goes {} k k'"
  shows "served idle t time k (Ret e v, k')"
  using assms by (intro served_ret) (simp_all add: goes_def)

lemma served_same: "sound idle k \<Longrightarrow> served idle t time k (Ret e v, k)"
  by (rule served_goes) (simp_all add: soundD)

text \<open>Only the fields of the thread that the scheduler does not look at change.\<close>

lemma upd_thread_fields:
  assumes k: "sound idle k"
    and f: "\<And>x. stat (f x) = stat x" "\<And>x. current_priority (f x) = current_priority x"
      "\<And>x. number_mask (f x) = number_mask x" "\<And>x. sp (f x) = sp x"
      "\<And>x. stack_addr (f x) = stack_addr x" "\<And>x. stack_size (f x) = stack_size x"
  shows "sound idle (upd_thread t f k)" and "goes {} k (upd_thread t f k)"
proof -
  show g: "goes {} k (upd_thread t f k)" by (rule goes_upd_thread) (simp_all add: f)
  have "kinv (upd_thread t f k)" by (rule kinv_upd_thread [OF soundD(1) [OF k]]) (simp_all add: f)
  moreover have "settled (upd_thread t f k)"
    by (rule settled_cong [OF soundD(5) [OF k]]) (simp_all add: kdefs f)
  ultimately show "sound idle (upd_thread t f k)"
    using g by (intro sound_moves [OF k]) (auto simp: goes_def)
qed

text \<open>Waiting: the caller is off the processor, and its timer is set when the time is limited.\<close>

lemma served_wait:
  assumes k: "sound idle k" and cur: "rt_current_thread k = Some t" and t: "t \<noteq> idle"
    and fl: "fl \<in> {RT_IPC_FLAG_FIFO, RT_IPC_FLAG_PRIO}" and h: "wait_head h" and time: "time_ok time"
    and f: "\<And>x. stat (f x) = stat x" "\<And>x. current_priority (f x) = current_priority x"
      "\<And>x. number_mask (f x) = number_mask x" "\<And>x. sp (f x) = sp x"
      "\<And>x. stack_addr (f x) = stack_addr x" "\<And>x. stack_size (f x) = stack_size x"
    and c: "limit lim c = time" "cont_ok k c"
  shows "returns (ipc_block h t fl time (upd_thread t f k)) (\<lambda>k'. served idle t lim k (Wait c, k'))"
proof -
  let ?k = "upd_thread t f k"
  note u = upd_thread_fields [where t = t, OF k f]
  note d = soundD [OF u(1)]
  have "rt_current_thread ?k = Some t" using cur by (simp add: kdefs)
  from block_settles [OF d(1) this sound_running(2) [OF u(1) this] fl h time d(4,6)] t obtain k' where
    k': "ipc_block h t fl time ?k = Some k'" "kinv k'" "settled k'" "goes {t} ?k k'"
      "0 < time \<longrightarrow> ThreadTimer t \<in> set (rt_timer_list k')" by (auto elim: returnsE)
  have g: "goes {t} k k'" using goes_trans [OF u(2) k'(4)] by simp
  then have "sound idle k'"
    using k'(2,3) t by (intro sound_moves [OF k, where A = "{t}"]) (auto simp: goes_def)
  moreover have "cont_ok k' c"
    using c(2) g by (cases c) (auto simp: goes_def moves_def is_mailbox_def is_mq_def rt_object_get_type_def)
  ultimately have "served idle t lim k (Wait c, k')"
    using g k'(5) c(1) by (simp add: served_def goes_def)
  with k'(1) show ?thesis by simp
qed

end
