(* ===== verification/Calls.thy ===== *)
theory Calls
  imports Steady
begin

text \<open>
  The calls a thread may make on semaphores, event sets, mailboxes, message queues
  (\<^verbatim>\<open>src/ipc.c\<close>) and the scheduler (\<^verbatim>\<open>src/thread.c\<close>), as one type with one function that runs
  them, and the continuations of calls that wait. Every call and every continuation keeps
  the contract \<open>served\<close> of theory \<open>Steady\<close>. Left out are the mutexes, whose release may
  lower the priority of the running thread without a schedule, and the memory pools, whose
  waiter count is wrong after a timeout: neither keeps the contract.
\<close>

section \<open>Calls and continuations\<close>

datatype call =
    Sem_take nat int
  | Sem_release nat
  | Event_send nat u32
  | Event_recv nat u32 u8 int
  | Mb_send nat u32 int
  | Mb_recv nat int
  | Mq_send nat "u8 list"
  | Mq_urgent nat "u8 list"
  | Mq_recv nat nat int
  | Sleep u32
  | Yield

definition ret :: "(rt_err_t \<times> kernel) option \<Rightarrow> (outcome \<times> kernel) option" where
  "ret m = map_option (\<lambda>(e, k). (Ret e VNone, k)) m"

fun exec :: "call \<Rightarrow> kernel \<Rightarrow> (outcome \<times> kernel) option" where
  "exec (Sem_take s time) k = rt_sem_take s time k"
| "exec (Sem_release s) k = ret (rt_sem_release s k)"
| "exec (Event_send e st) k = ret (rt_event_send e st k)"
| "exec (Event_recv e st opt time) k = rt_event_recv e st opt time k"
| "exec (Mb_send m v time) k = rt_mb_send_wait m v time k"
| "exec (Mb_recv m time) k = rt_mb_recv m time k"
| "exec (Mq_send m buffer) k = rt_mq_send m buffer k"
| "exec (Mq_urgent m buffer) k = rt_mq_urgent m buffer k"
| "exec (Mq_recv m sz time) k = rt_mq_recv m sz time k"
| "exec (Sleep tick) k = rt_thread_sleep tick k"
| "exec Yield k = ret (rt_thread_yield k)"

fun continue :: "nat \<Rightarrow> cont \<Rightarrow> kernel \<Rightarrow> (outcome \<times> kernel) option" where
  "continue t K_sleep k = Some (rt_thread_sleep_resume t k)"
| "continue t K_sem_take k = Some (rt_sem_take_resume t k)"
| "continue t K_event_recv k = Some (rt_event_recv_resume t k)"
| "continue t (K_mb_send m v time start) k = rt_mb_send_resume t m v time start k"
| "continue t (K_mb_recv m time start) k = rt_mb_recv_resume t m time start k"
| "continue t (K_mq_recv m sz time start) k = rt_mq_recv_resume t m sz time start k"
| "continue t _ k = None"

text \<open>What the code asserts of its arguments, and the time limit of a call.\<close>

fun call_ok :: "kernel \<Rightarrow> call \<Rightarrow> bool" where
  "call_ok k (Sem_take s time) = (is_sem s k \<and> time_ok time)"
| "call_ok k (Sem_release s) = is_sem s k"
| "call_ok k (Event_send e st) = is_event e k"
| "call_ok k (Event_recv e st opt time) = (is_event e k \<and> time_ok time \<and>
     (opt AND RT_EVENT_FLAG_AND \<noteq> 0 \<or> opt AND RT_EVENT_FLAG_OR \<noteq> 0))"
| "call_ok k (Mb_send m v time) = (is_mailbox m k \<and> time_ok time)"
| "call_ok k (Mb_recv m time) = (is_mailbox m k \<and> time_ok time)"
| "call_ok k (Mq_send m buffer) = (is_mq m k \<and> buffer \<noteq> [])"
| "call_ok k (Mq_urgent m buffer) = (is_mq m k \<and> buffer \<noteq> [])"
| "call_ok k (Mq_recv m sz time) = (is_mq m k \<and> sz \<noteq> 0 \<and> time_ok time)"
| "call_ok k (Sleep tick) = (tick < RT_TICK_HALF)"
| "call_ok k Yield = True"

fun call_time :: "call \<Rightarrow> int" where
  "call_time (Sem_take s time) = time"
| "call_time (Event_recv e st opt time) = time"
| "call_time (Mb_send m v time) = time"
| "call_time (Mb_recv m time) = time"
| "call_time (Mq_recv m sz time) = time"
| "call_time (Sleep tick) = 1"
| "call_time _ = 0"

section \<open>Every call keeps the contract\<close>

lemma served_store:
  assumes k: "sound idle k" and k': "kinv k'"
    and s: "threads k' = threads k" "objs k' = objs k" "rt_timer_list k' = rt_timer_list k"
      "timers k' = timers k" "rt_tick k' = rt_tick k" "rt_interrupt_nest k' = rt_interrupt_nest k"
      "rt_scheduler_lock_nest k' = rt_scheduler_lock_nest k" "rt_current_thread k' = rt_current_thread k"
    and "\<And>m. is_mailbox m k \<Longrightarrow> mb_inv (mailboxes k m) \<Longrightarrow> mb_inv (mailboxes k' m)"
    and "\<And>m. is_mq m k \<Longrightarrow> mq_quiet (mqs k m) \<Longrightarrow> mq_quiet (mqs k' m)"
  shows "served idle t time k (Ret e v, k')"
proof (rule served_ret [OF k k'])
  show "settled k'" by (rule settled_cong [OF soundD(5) [OF k]]) (simp_all add: s)
qed (use goes_threads [OF s(1-7)] assms(11,12) in simp_all)

lemma served_upd:
  assumes "sound idle k"
    and "\<And>x. stat (f x) = stat x" "\<And>x. current_priority (f x) = current_priority x"
      "\<And>x. number_mask (f x) = number_mask x" "\<And>x. sp (f x) = sp x"
      "\<And>x. stack_addr (f x) = stack_addr x" "\<And>x. stack_size (f x) = stack_size x"
  shows "served idle t time k (Ret e v, upd_thread u f k)"
  using upd_thread_fields [where t = u, OF assms] soundD [OF upd_thread_fields(1) [where t = u, OF assms]]
  by (intro served_goes [OF assms(1)])

lemma served_trans:
  assumes "goes {} k k1" and "served idle t time k1 (Ret e v, k')"
  shows "served idle t time k (Ret e v, k')"
  using assms timely_trans moves_trans [of "{}" k k1 "{}" k'] moves_trans [of "{}" k k1 "{t}" k']
  by (auto simp: served_def goes_def)

lemma object_flags:
  assumes "sound idle k"
  shows "is_sem s k \<Longrightarrow> flag (objs k (OSem s)) \<in> {RT_IPC_FLAG_FIFO, RT_IPC_FLAG_PRIO}"
    and "is_event e k \<Longrightarrow> flag (objs k (OEvent e)) \<in> {RT_IPC_FLAG_FIFO, RT_IPC_FLAG_PRIO}"
    and "is_mailbox m k \<Longrightarrow> flag (objs k (OMailbox m)) \<in> {RT_IPC_FLAG_FIFO, RT_IPC_FLAG_PRIO}"
    and "is_mq q k \<Longrightarrow> flag (objs k (OMq q)) \<in> {RT_IPC_FLAG_FIFO, RT_IPC_FLAG_PRIO}"
    and "is_mailbox m k \<Longrightarrow> mb_inv (mailboxes k m)" and "is_mq q k \<Longrightarrow> mq_quiet (mqs k q)"
  using soundD(7) [OF assms] unfolding objects_ok_def by blast+

lemma sem_release_served:
  assumes k: "sound idle k" and s: "is_sem s k"
  shows "returns (ret (rt_sem_release s k)) (served idle t time k)"
proof (cases "sem_waiters k s")
  case Nil
  have "served idle t time k (Ret RT_EOK VNone, set_sem s (sem_value (sems k s) + 1) k)"
    using soundD(1) [OF k] by (intro served_store [OF k]) (simp_all add: set_sem_def)
  with Nil s show ?thesis by (simp add: rt_sem_release_def ret_def)
next
  case (Cons u us)
  note d = soundD [OF k]
  from wake_settles [OF d(1,5,4), of "SuspendThread (OSem s)" RT_EOK] Cons obtain k' where
    k': "rt_sem_release s k = Some (RT_EOK, k')" "kinv k'" "settled k'" "goes {} k k'"
    using s by (auto simp: rt_sem_release_def elim!: returnsE)
  then show ?thesis using served_goes [OF k k'(2-4)] by (simp add: ret_def)
qed

lemma sem_take_served:
  assumes k: "sound idle k" and cur: "rt_current_thread k = Some t" and t: "t \<noteq> idle"
    and nest: "rt_interrupt_nest k = 0" and s: "is_sem s k" and time: "time_ok time"
  shows "returns (rt_sem_take s time k) (served idle t time k)"
proof (cases "sem_value (sems k s) > 0 \<or> time = 0")
  case True
  have "served idle t time k (Ret RT_EOK VNone, set_sem s (sem_value (sems k s) - 1) k)"
    using soundD(1) [OF k] by (intro served_store [OF k]) (simp_all add: set_sem_def)
  then show ?thesis using True s served_same [OF k] by (auto simp: rt_sem_take_def)
next
  case False
  note fl = object_flags(1) [OF k s]
  have "returns (ipc_block (SuspendThread (OSem s)) t (flag (objs k (OSem s))) time
      (upd_thread t (\<lambda>x. x\<lparr>error := RT_EOK\<rparr>) k)) (\<lambda>k'. served idle t time k (Wait K_sem_take, k'))"
    by (rule served_wait [OF k cur t fl _ time]) simp_all
  then obtain k' where "ipc_block (SuspendThread (OSem s)) t (flag (objs k (OSem s))) time
      (upd_thread t (\<lambda>x. x\<lparr>error := RT_EOK\<rparr>) k) = Some k'" "served idle t time k (Wait K_sem_take, k')"
    by (elim returnsE)
  then show ?thesis
    using False s cur nest by (simp add: rt_sem_take_def RT_DEBUG_IN_THREAD_CONTEXT_def
        RT_DEBUG_NOT_IN_INTERRUPT_def rt_thread_self_def rt_interrupt_get_nest_def kdefs)
qed

lemma resume_goes:
  assumes k: "kinv k" and r: "rt_thread_resume t k = Some (e, k')"
  shows "goes {} k k'"
proof (cases "tstat k t = RT_THREAD_SUSPEND")
  case True
  from rt_thread_resume_spec [OF k True] obtain g where "rt_thread_resume t k = Some (RT_EOK, resumed t k g)" .
  with r show ?thesis using goes_resumed [OF k] by auto
next
  case False
  with r show ?thesis by (auto simp: rt_thread_resume_def bind_eq_Some_conv)
qed

lemma goes_event_serve: "goes {} k (event_serve e t r b k)"
  using goes_upd_thread [of "\<lambda>x. x\<lparr>event_set := r\<rparr>" k t]
  by (simp add: event_serve_def goes_def moves_def timely_def runnable_def set_event_def)

lemma event_walk_goes:
  assumes "kinv k" and "distinct ts" and "set ts \<subseteq> set (event_waiters k e)"
    and "event_walk e ts need k = Some (n, k')"
  shows "goes {} k k'"
  using assms
proof (induction ts arbitrary: k need)
  case (Cons t ts)
  show ?case
  proof (cases "event_match (event_info (threads k t)) (event_set (threads k t)) (event_bits (events k e))")
    case False
    then show ?thesis using Cons.IH [of k need] Cons.prems by simp
  next
    case True
    obtain r b where "event_walk e (t # ts) need k =
        Option.bind (rt_thread_resume t (event_serve e t r b k)) (\<lambda>(_, k). event_walk e ts True k)"
      using event_walk_match [OF True refl refl] by blast
    then obtain x k1 where k1: "rt_thread_resume t (event_serve e t r b k) = Some (x, k1)"
        "event_walk e ts True k1 = Some (n, k')"
      using Cons.prems(4) by (auto simp: bind_eq_Some_conv)
    have w: "event_walked e [(t, r)] b k k1"
      using event_walk_step [OF Cons.prems(1), of t e r b] Cons.prems(3) k1(1) by (auto elim: returnsE)
    then have "kinv k1" "set ts \<subseteq> set (event_waiters k1 e)"
      using Cons.prems(2,3) by (auto simp: event_walked_def)
    then have "goes {} k1 k'" using Cons.IH k1(2) Cons.prems(2) by simp
    moreover have "goes {} (event_serve e t r b k) k1"
      by (rule resume_goes [OF kinv_event_serve [OF Cons.prems(1)] k1(1)])
    ultimately show ?thesis
      using goes_trans [OF goes_trans [OF goes_event_serve]] by (metis Un_absorb)
  qed
qed simp

lemma event_send_served:
  assumes k: "sound idle k" and e: "is_event e k"
  shows "returns (ret (rt_event_send e st k)) (served idle t time k)"
proof (cases "st = 0")
  case True
  with e served_same [OF k] show ?thesis by (simp add: rt_event_send_def ret_def)
next
  case False
  let ?k = "set_event e (event_bits (events k e) OR st) k"
  note d = soundD [OF k]
  obtain b gs where s: "serve (\<lambda>t. event_info (threads ?k t)) (\<lambda>t. event_set (threads ?k t))
      (event_waiters ?k e) (event_bits (events ?k e)) = (b, gs)" by fastforce
  have dist: "distinct (event_waiters ?k e)"
    using sched_invD(7) [OF kinvD(1) [OF d(1)]] by (simp add: lists_wf_def)
  have kk: "kinv ?k" "set (event_waiters ?k e) \<subseteq> set (event_waiters ?k e)" using d(1) by simp_all
  from event_walk_spec [OF kk(1) dist kk(2) s, of False] obtain k1 where
    k1: "event_walk e (event_waiters k e) False ?k = Some (gs \<noteq> [], k1)" "event_walked e gs b ?k k1"
    by (auto elim!: returnsE)
  have g: "goes {} k k1"
  proof -
    have "goes {} k ?k" by (simp add: goes_def moves_def timely_def runnable_def set_event_def)
    moreover have "goes {} ?k k1" using event_walk_goes [OF kk(1) dist kk(2), of False "gs \<noteq> []" k1] k1(1) by simp
    ultimately show ?thesis using goes_trans by (metis Un_absorb)
  qed
  have w: "kinv k1" "rt_current_thread k1 \<noteq> None" "rt_scheduler_lock_nest k1 = 0" "runnable k1 idle"
    using k1(2) d g by (auto simp: event_walked_def goes_def moves_def)
  show ?thesis
  proof (cases "gs = []")
    case True
    then have "settled k1"
      using k1(2) by (intro settled_cong [OF d(5)]) (simp_all add: event_walked_def)
    with served_goes [OF k w(1) _ g] show ?thesis
      using k1(1) True e False by (simp add: rt_event_send_def ret_def)
  next
    case gs: False
    from rt_schedule_settles [OF w] obtain k2 where
      k2: "rt_schedule k1 = Some k2" "kinv k2" "settled k2" "goes {} k1 k2" by (auto elim: returnsE)
    have "goes {} k k2" using goes_trans [OF g k2(4)] by simp
    with served_goes [OF k k2(2,3)] show ?thesis
      using k1(1) k2(1) gs e False by (simp add: rt_event_send_def ret_def)
  qed
qed


lemma upd_thread_twice: "upd_thread t g (upd_thread t f k) = upd_thread t (\<lambda>x. g (f x)) k"
  by (simp add: kdefs)

lemma thread_context:
  assumes "rt_current_thread k = Some t" and "rt_interrupt_nest k = 0"
  shows "RT_DEBUG_IN_THREAD_CONTEXT (upd_thread u f k) = Some ()" "rt_thread_self (upd_thread u f k) = Some t"
    "RT_DEBUG_IN_THREAD_CONTEXT k = Some ()" "rt_thread_self k = Some t"
  using assms by (simp_all add: RT_DEBUG_IN_THREAD_CONTEXT_def RT_DEBUG_NOT_IN_INTERRUPT_def
      rt_thread_self_def rt_interrupt_get_nest_def kdefs)

lemma event_recv_served:
  assumes k: "sound idle k" and cur: "rt_current_thread k = Some t" and t: "t \<noteq> idle"
    and nest: "rt_interrupt_nest k = 0" and e: "is_event e k" and time: "time_ok time"
    and opt: "opt AND RT_EVENT_FLAG_AND \<noteq> 0 \<or> opt AND RT_EVENT_FLAG_OR \<noteq> 0"
  shows "returns (rt_event_recv e st opt time k) (served idle t time k)"
proof -
  let ?k = "upd_thread t (\<lambda>x. x\<lparr>error := RT_EOK\<rparr>) k"
  let ?b = "event_bits (events k e)"
  let ?f = "\<lambda>x. x\<lparr>error := RT_EOK, event_set := st, event_info := opt\<rparr>"
  have upd: "served idle t time k (Ret e v, upd_thread t (\<lambda>x. x\<lparr>error := i\<rparr>) k)" for e v i
    by (rule served_upd [OF k]) simp_all
  have ev: "events ?k = events k" "objs ?k = objs k" by (simp_all add: kdefs)
  consider "st = 0" | "st \<noteq> 0" "event_match opt st ?b" | "st \<noteq> 0" "\<not> event_match opt st ?b" "time = 0"
    | "st \<noteq> 0" "\<not> event_match opt st ?b" "time \<noteq> 0" by blast
  then show ?thesis
  proof cases
    case 1
    with e served_same [OF k] thread_context [OF cur nest] show ?thesis by (simp add: rt_event_recv_def)
  next
    case 2
    have g: "goes {} k ?k" and s: "sound idle ?k"
      using upd_thread_fields [OF k, of "\<lambda>x. x\<lparr>error := RT_EOK\<rparr>" t] by simp_all
    have "served idle t time ?k (Ret i v, set_event e b ?k)" for i v b
      using soundD(1) [OF s] by (intro served_store [OF s]) (simp_all add: set_event_def)
    then have "served idle t time k (Ret i v, set_event e b ?k)" for i v b
      by (rule served_trans [OF g])
    with 2 e opt upd thread_context [OF cur nest] ev show ?thesis
      by (simp add: rt_event_recv_def Let_def)
  next
    case 3
    then show ?thesis
      using e opt upd thread_context [OF cur nest] ev by (simp add: rt_event_recv_def upd_thread_twice)
  next
    case 4
    have "returns (ipc_block (SuspendThread (OEvent e)) t (flag (objs k (OEvent e))) time (upd_thread t ?f k))
        (\<lambda>k'. served idle t time k (Wait K_event_recv, k'))"
      by (rule served_wait [OF k cur t object_flags(2) [OF k e] _ time]) simp_all
    then obtain k' where "ipc_block (SuspendThread (OEvent e)) t (flag (objs k (OEvent e))) time
        (upd_thread t ?f k) = Some k'" "served idle t time k (Wait K_event_recv, k')"
      by (elim returnsE)
    with 4 e opt thread_context [OF cur nest] ev show ?thesis
      by (simp add: rt_event_recv_def upd_thread_twice upd_obj_def)
         (simp add: upd_thread_def)
  qed
qed

text \<open>An object has changed, and the first thread that waits for the change is woken up.\<close>

lemma wake_store_served:
  assumes k: "sound idle k" and k': "kinv k1"
    and s: "threads k1 = threads k" "objs k1 = objs k" "rt_timer_list k1 = rt_timer_list k"
      "timers k1 = timers k" "rt_tick k1 = rt_tick k" "rt_interrupt_nest k1 = rt_interrupt_nest k"
      "rt_scheduler_lock_nest k1 = rt_scheduler_lock_nest k" "rt_current_thread k1 = rt_current_thread k"
    and mb: "\<And>m. is_mailbox m k \<Longrightarrow> mb_inv (mailboxes k m) \<Longrightarrow> mb_inv (mailboxes k1 m)"
    and mq: "\<And>m. is_mq m k \<Longrightarrow> mq_quiet (mqs k m) \<Longrightarrow> mq_quiet (mqs k1 m)"
    and h: "wait_head h"
  shows "returns (if tlists k1 h \<noteq> [] then do {
      k \<leftarrow> rt_ipc_list_resume h k1;
      k \<leftarrow> rt_schedule k;
      Some (Ret e v, k) } else Some (Ret e v, k1)) (served idle t time k)"
proof -
  have "settled k1" by (rule settled_cong [OF soundD(5) [OF k]]) (simp_all add: s)
  moreover have "rt_scheduler_lock_nest k1 = 0" using soundD(4) [OF k] s(7) by simp
  ultimately have "returns (if tlists k1 h \<noteq> [] then do {
      k \<leftarrow> rt_ipc_list_resume h k1;
      k \<leftarrow> rt_schedule k;
      Some (Ret e v, k) } else Some (Ret e v, k1))
    (\<lambda>(x, k'). x = Ret e v \<and> kinv k' \<and> settled k' \<and> goes {} k1 k')"
    by (intro wake_settles k' h)
  moreover have "served idle t time k (Ret e v, k')"
    if w: "kinv k'" "settled k'" "goes {} k1 k'" for k'
  proof (rule served_ret [OF k w(1,2)])
    show "moves {} k k'" "timely k k'"
      using goes_threads(1) [OF s(1-7), of "{}"] goes_threads(2) [OF s(1-7)] w(3) moves_trans [of "{}" k k1 "{}" k'] timely_trans
      by (auto simp: goes_def)
  qed (use w(3) mb mq in \<open>simp_all add: goes_def\<close>)
  ultimately show ?thesis by (elim returns_mono) auto
qed

lemma mb_send_loop_served:
  assumes k: "sound idle k" and cur: "rt_current_thread k = Some t" and t: "t \<noteq> idle"
    and nest: "rt_interrupt_nest k = 0" and m: "is_mailbox m k" and time: "time_ok time"
  shows "returns (mb_send_loop m v time k) (served idle t lim k)"
proof -
  have upd: "served idle t lim k (Ret e v, upd_thread t (\<lambda>x. x\<lparr>error := i\<rparr>) k)" for e v i
    by (rule served_upd [OF k]) simp_all
  note inv = object_flags(5) [OF k m]
  consider (put) "mb_entry (mailboxes k m) \<noteq> mb_size (mailboxes k m)"
    | (full) "mb_entry (mailboxes k m) = mb_size (mailboxes k m)" "time = 0"
    | (wait) "mb_entry (mailboxes k m) = mb_size (mailboxes k m)" "time \<noteq> 0" by blast
  then show ?thesis
  proof cases
    case put
    then have "length (mails (mailboxes k m)) < unat (mb_size (mailboxes k m))"
      using mb_full_empty(1) [OF inv] mb.bound [OF inv] by simp
    from mb_put_spec [OF inv this] obtain x where
      x: "mb_put v (mailboxes k m) = Some x" "mb_inv x" by (auto elim: returnsE)
    have "returns (if tlists (set_mb m x k) (SuspendThread (OMailbox m)) \<noteq> [] then do {
        k \<leftarrow> rt_ipc_list_resume (SuspendThread (OMailbox m)) (set_mb m x k);
        k \<leftarrow> rt_schedule k;
        Some (Ret RT_EOK VNone, k) } else Some (Ret RT_EOK VNone, set_mb m x k)) (served idle t lim k)"
      by (rule wake_store_served [OF k]) (use soundD(1) [OF k] x(2) in \<open>simp_all add: set_mb_def\<close>)
    with put x(1) show ?thesis by (simp add: mb_send_loop_def Let_def split: if_splits)
  next
    case full
    then show ?thesis using upd thread_context [OF cur nest] by (simp add: mb_send_loop_def)
  next
    case wait
    have "returns (ipc_block (SuspendSender m) t (flag (objs k (OMailbox m))) time
        (upd_thread t (\<lambda>x. x\<lparr>error := RT_EOK\<rparr>) k)) (\<lambda>k'. served idle t lim k (Wait (K_mb_send m v time (rt_tick k)), k'))"
      by (rule served_wait [OF k cur t object_flags(3) [OF k m] _ time]) (simp_all add: m time)
    then obtain k' where "ipc_block (SuspendSender m) t (flag (objs k (OMailbox m))) time
        (upd_thread t (\<lambda>x. x\<lparr>error := RT_EOK\<rparr>) k) = Some k'"
        "served idle t lim k (Wait (K_mb_send m v time (rt_tick k)), k')" by (elim returnsE)
    with wait thread_context [OF cur nest] show ?thesis
      by (simp add: mb_send_loop_def rt_tick_get_def) (simp add: upd_thread_def)
  qed
qed

lemma mb_recv_loop_served:
  assumes k: "sound idle k" and cur: "rt_current_thread k = Some t" and t: "t \<noteq> idle"
    and nest: "rt_interrupt_nest k = 0" and m: "is_mailbox m k" and time: "time_ok time"
  shows "returns (mb_recv_loop m time k) (served idle t lim k)"
proof -
  have upd: "served idle t lim k (Ret e v, upd_thread t (\<lambda>x. x\<lparr>error := i\<rparr>) k)" for e v i
    by (rule served_upd [OF k]) simp_all
  note inv = object_flags(5) [OF k m]
  consider (get) "mb_entry (mailboxes k m) \<noteq> 0"
    | (empty) "mb_entry (mailboxes k m) = 0" "time = 0" | (wait) "mb_entry (mailboxes k m) = 0" "time \<noteq> 0" by blast
  then show ?thesis
  proof cases
    case get
    from mb.get_total [OF inv get] obtain v x where
      x: "mb_take (mailboxes k m) = Some (v, x)" "mb_inv x" by (auto elim!: returnsE)
    have "returns (if tlists (set_mb m x k) (SuspendSender m) \<noteq> [] then do {
        k \<leftarrow> rt_ipc_list_resume (SuspendSender m) (set_mb m x k);
        k \<leftarrow> rt_schedule k;
        Some (Ret RT_EOK (VWord v), k) } else Some (Ret RT_EOK (VWord v), set_mb m x k)) (served idle t lim k)"
      by (rule wake_store_served [OF k]) (use soundD(1) [OF k] x(2) in \<open>simp_all add: set_mb_def\<close>)
    with get x(1) show ?thesis by (simp add: mb_recv_loop_def Let_def split: if_splits)
  next
    case empty
    then show ?thesis using upd thread_context [OF cur nest] by (simp add: mb_recv_loop_def upd_thread_twice)
  next
    case wait
    have "returns (ipc_block (SuspendThread (OMailbox m)) t (flag (objs k (OMailbox m))) time
        (upd_thread t (\<lambda>x. x\<lparr>error := RT_EOK\<rparr>) k)) (\<lambda>k'. served idle t lim k (Wait (K_mb_recv m time (rt_tick k)), k'))"
      by (rule served_wait [OF k cur t object_flags(3) [OF k m] _ time]) (simp_all add: m time)
    then obtain k' where "ipc_block (SuspendThread (OMailbox m)) t (flag (objs k (OMailbox m))) time
        (upd_thread t (\<lambda>x. x\<lparr>error := RT_EOK\<rparr>) k) = Some k'"
        "served idle t lim k (Wait (K_mb_recv m time (rt_tick k)), k')" by (elim returnsE)
    with wait thread_context [OF cur nest] show ?thesis
      by (simp add: mb_recv_loop_def rt_tick_get_def) (simp add: upd_thread_def)
  qed
qed

lemma mq_recv_loop_served:
  assumes k: "sound idle k" and cur: "rt_current_thread k = Some t" and t: "t \<noteq> idle"
    and nest: "rt_interrupt_nest k = 0" and m: "is_mq m k" and time: "time_ok time"
  shows "returns (mq_recv_loop m sz time k) (served idle t lim k)"
proof -
  have upd: "served idle t lim k (Ret e v, upd_thread t (\<lambda>x. x\<lparr>error := i\<rparr>) k)" for e v i
    by (rule served_upd [OF k]) simp_all
  note inv = object_flags(6) [OF k m]
  note spec = mq_recv_loop_spec [OF soundD(1) [OF k] cur sound_running(2) [OF k cur] object_flags(4) [OF k m]
      time nest inv refl, of sz]
  consider (get) "mq_entry (mqs k m) \<noteq> 0"
    | (empty) "mq_entry (mqs k m) = 0" "time = 0" | (wait) "mq_entry (mqs k m) = 0" "time \<noteq> 0" by blast
  then show ?thesis
  proof cases
    case get
    from spec(1) [OF this] obtain q' v where
      q: "mq_recv_loop m sz time k = Some (Ret RT_EOK v, set_mq m q' k)" "mq_quiet q'" by blast
    have "served idle t lim k (Ret RT_EOK v, set_mq m q' k)"
      by (rule served_store [OF k]) (use soundD(1) [OF k] q(2) in \<open>simp_all add: set_mq_def\<close>)
    with q(1) show ?thesis by simp
  next
    case empty
    then show ?thesis using upd thread_context [OF cur nest] by (simp add: mq_recv_loop_def upd_thread_twice)
  next
    case wait
    have "returns (ipc_block (SuspendThread (OMq m)) t (flag (objs k (OMq m))) time
        (upd_thread t (\<lambda>x. x\<lparr>error := RT_EOK\<rparr>) k)) (\<lambda>k'. served idle t lim k (Wait (K_mq_recv m sz time (rt_tick k)), k'))"
      by (rule served_wait [OF k cur t object_flags(4) [OF k m] _ time]) (simp_all add: m time)
    then obtain k' where "ipc_block (SuspendThread (OMq m)) t (flag (objs k (OMq m))) time
        (upd_thread t (\<lambda>x. x\<lparr>error := RT_EOK\<rparr>) k) = Some k'"
        "served idle t lim k (Wait (K_mq_recv m sz time (rt_tick k)), k')" by (elim returnsE)
    with wait thread_context [OF cur nest] show ?thesis
      by (simp add: mq_recv_loop_def rt_tick_get_def) (simp add: upd_thread_def)
  qed
qed


lemma mq_send_served:
  assumes k: "sound idle k" and m: "is_mq m k" and b: "buffer \<noteq> []"
  shows "returns (rt_mq_send m buffer k) (served idle t time k)"
    and "returns (rt_mq_urgent m buffer k) (served idle t time k)"
proof -
  note q = object_flags(6) [OF k m]
  have deliver: "returns (mq_deliver m q' k) (served idle t time k)" if "mq_quiet q'" for q'
  proof -
    have "returns (if tlists (set_mq m q' k) (SuspendThread (OMq m)) \<noteq> [] then do {
        k \<leftarrow> rt_ipc_list_resume (SuspendThread (OMq m)) (set_mq m q' k);
        k \<leftarrow> rt_schedule k;
        Some (Ret RT_EOK VNone, k) } else Some (Ret RT_EOK VNone, set_mq m q' k)) (served idle t time k)"
      by (rule wake_store_served [OF k]) (use soundD(1) [OF k] that in \<open>simp_all add: set_mq_def\<close>)
    then show ?thesis by (simp add: mq_deliver_def Let_def split: if_splits)
  qed
  have "mq_quiet (mq_link_tail s (mq_fill s buffer (mq_pop_free s (mqs k m))))"
    "mq_quiet (mq_link_head s (mq_copy s buffer (mq_pop_free s (mqs k m))))"
    if len: "length buffer \<le> unat (msg_size (mqs k m))" and s: "msg_queue_free (mqs k m) = Some s" for s
  proof -
    obtain qs fs where i: "mq_inv (mqs k m) qs (s # fs) {}" using mq_has_room [OF q s] .
    show "mq_quiet (mq_link_tail s (mq_fill s buffer (mq_pop_free s (mqs k m))))"
      using mq_put_inv [OF i len] s by (auto simp: mq_put_def intro: mq_quietI)
    show "mq_quiet (mq_link_head s (mq_copy s buffer (mq_pop_free s (mqs k m))))"
      using mq_put_urgent_inv [OF i len] s by (auto simp: mq_put_urgent_def intro: mq_quietI)
  qed
  with deliver served_same [OF k] m b
  show "returns (rt_mq_send m buffer k) (served idle t time k)"
    and "returns (rt_mq_urgent m buffer k) (served idle t time k)"
    by (simp_all add: rt_mq_send_def rt_mq_urgent_def Let_def not_less split: option.split)
qed

lemma sleep_served:
  assumes k: "sound idle k" and cur: "rt_current_thread k = Some t" and t: "t \<noteq> idle"
    and tick: "tick < RT_TICK_HALF"
  shows "returns (rt_thread_sleep tick k) (served idle t time k)"
proof -
  note d = soundD [OF k]
  note run = sound_running [OF k cur]
  obtain g where g: "rt_thread_suspend t k = Some (RT_EOK, suspended t k g)" "kinv (suspended t k g)"
      "start_thread_timer t tick (suspended t k g) = Some (armed t tick (suspended t k g))"
      "kinv (armed t tick (suspended t k g))" using suspend_arm_spec [OF d(1) run(2) tick] .
  let ?a = "armed t tick (suspended t k g)"
  have ga: "goes {t} k ?a" using goes_trans [OF goes_suspended [OF d(1)] goes_armed [OF tick]] by simp
  have "rt_current_thread ?a \<noteq> None" "rt_scheduler_lock_nest ?a = 0" "runnable ?a idle"
    using ga d t suspended_sel(3) [OF d(1), of t g] timer_frame_sel(5) [OF armed_frame]
    by (simp_all add: goes_def moves_def)
  from rt_schedule_settles [OF g(4) this] obtain k' where
    k': "rt_schedule ?a = Some k'" "kinv k'" "settled k'" "goes {} ?a k'" by (auto elim: returnsE)
  have gk: "goes {t} k k'" using goes_trans [OF ga k'(4)] by simp
  have "tstat ?a t = RT_THREAD_SUSPEND" using suspended_sel(1) [OF d(1)] timer_frame_sel(1) [OF armed_frame] by simp
  have l: "rt_timer_list k' = rt_timer_list ?a"
  proof -
    obtain c where "rt_current_thread ?a = Some c" using \<open>rt_current_thread ?a \<noteq> None\<close> by auto
    from rt_schedule_spec [OF g(4) this] k'(1) show ?thesis by (auto elim!: returnsE simp: sched_frameD(4))
  qed
  have "sound idle k'"
    using gk k'(2,3) t by (intro sound_moves [OF k, where A = "{t}"]) (auto simp: goes_def)
  then have "served idle t time k (Wait K_sleep, k')"
    using gk l by (simp add: served_def goes_def armed_def started_def)
  moreover have "rt_object_get_type (OThread t) k = RT_Object_Class_Thread"
    using thread_okD(1) [OF live_thread_ok [OF d(1)]] run(1) by simp
  ultimately show ?thesis
    using cur g(1,3) k'(1) by (simp add: rt_thread_sleep_eq rt_thread_self_def)
qed

lemma yield_served:
  assumes k: "sound idle k"
  shows "returns (ret (rt_thread_yield k)) (served idle t time k)"
proof -
  note d = soundD [OF k]
  from rt_schedule_settles [OF d(1,8,4,6)] obtain k' where
    "rt_schedule k = Some k'" "kinv k'" "settled k'" "goes {} k k'" by (auto elim: returnsE)
  then show ?thesis using served_goes [OF k] by (simp add: ret_def rt_thread_yield_def)
qed

lemma exec_served:
  assumes "sound idle k" and "rt_current_thread k = Some t" and "t \<noteq> idle"
    and "rt_interrupt_nest k = 0" and "call_ok k c"
  shows "returns (exec c k) (served idle t (call_time c) k)"
proof (cases c)
  case (Mb_send m v time)
  with assms mb_send_loop_served [OF assms(1-4), of m time v] served_same [OF assms(1)] show ?thesis
    by (simp add: rt_mb_send_wait_def)
next
  case (Mb_recv m time)
  with assms mb_recv_loop_served [OF assms(1-4), of m time] served_same [OF assms(1)] show ?thesis
    by (simp add: rt_mb_recv_def)
next
  case (Mq_recv m sz time)
  with assms mq_recv_loop_served [OF assms(1-4), of m time sz] served_same [OF assms(1)] show ?thesis
    by (simp add: rt_mq_recv_def)
qed (use assms in \<open>simp_all add: sem_take_served sem_release_served event_send_served event_recv_served
      mq_send_served sleep_served yield_served del: One_nat_def\<close>)

text \<open>
  A waiting call goes on where it left off. The time it has waited must be representable as
  a signed number, which is the range in which the code's subtraction is exact.
\<close>

fun in_time :: "kernel \<Rightarrow> cont \<Rightarrow> bool" where
  "in_time k (K_mb_send m v time start) = (uint (rt_tick k - start) \<le> 2 ^ 31)"
| "in_time k (K_mb_recv m time start) = (uint (rt_tick k - start) \<le> 2 ^ 31)"
| "in_time k (K_mq_recv m sz time start) = (uint (rt_tick k - start) \<le> 2 ^ 31)"
| "in_time k _ = True"

lemma continue_served:
  assumes k: "sound idle k" and cur: "rt_current_thread k = Some t" and t: "t \<noteq> idle"
    and nest: "rt_interrupt_nest k = 0" and c: "cont_ok k c" "in_time k c"
  shows "returns (continue t c k) (served idle t time k)"
proof (cases c)
  case K_sleep
  have "served idle t time k (Ret RT_EOK VNone, upd_thread t (\<lambda>x. x\<lparr>error := RT_EOK\<rparr>) k)"
    by (rule served_upd [OF k]) simp_all
  with K_sleep served_same [OF k] show ?thesis by (simp add: rt_thread_sleep_resume_def)
next
  case (K_mb_send m v left start)
  with c have ok: "is_mailbox m k" "time_ok (time_left left start k)" by (simp_all add: time_ok_left)
  with K_mb_send mb_send_loop_served [OF k cur t nest ok] served_same [OF k] show ?thesis
    by (simp add: rt_mb_send_resume_def)
next
  case (K_mb_recv m left start)
  with c have ok: "is_mailbox m k" "time_ok (time_left left start k)" by (simp_all add: time_ok_left)
  with K_mb_recv mb_recv_loop_served [OF k cur t nest ok] served_same [OF k] show ?thesis
    by (simp add: rt_mb_recv_resume_def)
next
  case (K_mq_recv m sz left start)
  with c have ok: "is_mq m k" "time_ok (time_left left start k)" by (simp_all add: time_ok_left)
  with K_mq_recv mq_recv_loop_served [OF k cur t nest ok] served_same [OF k] show ?thesis
    by (simp add: rt_mq_recv_resume_def)
qed (use assms served_same [OF k] in \<open>simp_all add: rt_sem_take_resume_def rt_event_recv_resume_def\<close>)

end
