(* ===== verification/Tick_Steady.thy ===== *)
theory Tick_Steady
  imports Calls
begin

text \<open>
  The clock tick (\<^verbatim>\<open>rt_tick_increase\<close> of \<^verbatim>\<open>src/clock.c\<close> and \<^verbatim>\<open>rt_timer_check\<close> of
  \<^verbatim>\<open>src/timer.c\<close>) leads from a sound state to a sound state: \<open>cb_steady\<close> is what the timeout
  functions of the application have to promise for it.
\<close>

section \<open>The tick\<close>

text \<open>
  The contract of the timeout functions of the application, beside \<open>cb_ok\<close>: a function that
  returns leaves the scheduler unlocked, a running thread of the highest priority, the
  invariants of the objects, and wakes threads up at most.
\<close>

definition cb_steady :: "nat \<Rightarrow> callback \<Rightarrow> bool" where
  "cb_steady idle cb \<longleftrightarrow> (\<forall>n p k k'. steady idle k \<and> cb n p k = Some k' \<longrightarrow> steady idle k' \<and> moves {} k k')"

lemma steadyD:
  assumes "steady idle k"
  shows "tick_ready k" "rt_scheduler_lock_nest k = 0" "settled k" "runnable k idle" "objects_ok k"
  using assms by (simp_all add: steady_def)

lemma steady_moves:
  assumes k: "steady idle k" and m: "moves A k k'" "idle \<notin> A" and t: "tick_ready k'" and s: "settled k'"
    and "mailboxes k' = mailboxes k" "mqs k' = mqs k"
  shows "steady idle k'"
proof -
  have "objects_ok k'" by (rule objects_ok_moves [OF steadyD(5) [OF k] m(1)]) (simp_all add: assms(6,7))
  moreover have "rt_scheduler_lock_nest k' = 0" "runnable k' idle"
    using m steadyD(2,4) [OF k] by (simp_all add: moves_def)
  ultimately show ?thesis using t s by (simp add: steady_def)
qed

lemma not_runnable_suspended: "runnable k t \<Longrightarrow> tstat k t \<noteq> RT_THREAD_SUSPEND"
  by (auto simp: runnable_def)

lemma moves_shrink: "moves {i} k k' \<Longrightarrow> runnable k' i \<Longrightarrow> moves {} k k'"
  unfolding moves_def by (metis (no_types, lifting) empty_iff insert_iff not_runnable_suspended)

lemma insert_moves:
  assumes "rt_schedule_insert_thread t k = Some k'"
  shows "moves {t} k k'" "mailboxes k' = mailboxes k" "mqs k' = mqs k"
    "rt_current_thread k' = rt_current_thread k" "runnable k' t"
proof -
  note f = insert_thread_frame [OF assms]
  have "current_priority (threads k' u) = current_priority (threads k u)" for u
    using ipc_frameD(14) [OF ipc_frame_insert [OF assms]] .
  then show "moves {t} k k'" using f by (simp add: moves_def runnable_def)
qed (use insert_thread_frame [OF assms] in simp_all)

lemma timeout_moves:
  assumes k: "kinv k" "settled k" and lock: "rt_scheduler_lock_nest k = 0"
    and t: "tstat k t = RT_THREAD_SUSPEND" "ThreadTimer t \<notin> set (rt_timer_list k)"
  shows "returns (rt_thread_timeout t k) (\<lambda>k'. settled k' \<and> moves {} k k' \<and> runnable k' t \<and>
    mailboxes k' = mailboxes k \<and> mqs k' = mqs k)"
proof -
  obtain c where c: "rt_current_thread k = Some c" using k(2) by (auto simp: settled_def)
  let ?k1 = "(upd_thread t (\<lambda>x. x\<lparr>error := - RT_ETIMEOUT\<rparr>) k)\<lparr>tlists := list_remove t (tlists k)\<rparr>"
  from rt_thread_timeout_steps [OF k(1) c t] obtain k' k2 where
    k': "rt_thread_timeout t k = Some k'" "runnable k' t"
    and k2: "rt_schedule_insert_thread t ?k1 = Some k2" "kinv k2" "rt_schedule k2 = Some k'"
    by (elim returnsE) blast
  note i = insert_moves [OF k2(1)]
  have m1: "moves {t} k ?k1" by (simp add: moves_def runnable_def kdefs)
  have "rt_current_thread k2 \<noteq> None" "rt_scheduler_lock_nest k2 = 0"
    using i(1,4) c lock by (simp_all add: moves_def kdefs)
  from rt_schedule_settles [OF k2(2) this i(5)] k2(3) have
    s: "settled k'" "goes {} k2 k'" by (auto elim: returnsE)
  have "moves {t} k k'"
    using moves_trans [OF m1 moves_trans [OF i(1), of "{}" k']] s(2) by (simp add: goes_def)
  from moves_shrink [OF this k'(2)] show ?thesis
    using k' s i(2,3) by (simp add: goes_def kdefs)
qed

lemma timer_only_moves:
  assumes "threads k' = threads k" "rt_scheduler_lock_nest k' = rt_scheduler_lock_nest k"
    "rt_interrupt_nest k' = rt_interrupt_nest k"
    "\<And>ob. (\<nexists>i. ob = OTimer i) \<Longrightarrow> objs k' ob = objs k ob"
    "\<And>u. u \<notin> A \<Longrightarrow> ThreadTimer u \<in> set (rt_timer_list k) \<Longrightarrow> ThreadTimer u \<in> set (rt_timer_list k')"
  shows "moves A k k'"
  using assms by (simp add: moves_def runnable_def)

lemma clear_moves: "moves {} k (clear_activated t k)" "settled (clear_activated t k) = settled k"
  by (rule timer_only_moves) (auto simp: clear_activated_def kdefs settled_def runnable_def)

lemma fire_steady:
  assumes k: "steady idle k" and t: "t \<in> set (rt_timer_list k)" and cb: "cb_ok cb" "cb_steady idle cb"
    and f: "timer_fire cb t k = Some k'"
  shows "steady idle k' \<and> moves {} k k'"
proof -
  note d = steadyD [OF k]
  note kk = tick_readyD [OF d(1)]
  note ti = kinvD(2) [OF kk(1)]
  have ready: "tick_ready k'"
    using fire_spec [OF d(1) t cb(1)] f by (auto elim!: returnsE simp: fired_def)
  let ?k1 = "rt_timer_remove t k"
  have r1: "tick_ready ?k1" by (rule tick_ready_remove [OF d(1)])
  have s1: "settled ?k1" by (rule settled_cong [OF d(3)]) simp_all
  have fr: "rt_scheduler_lock_nest ?k1 = rt_scheduler_lock_nest k" "rt_interrupt_nest ?k1 = rt_interrupt_nest k"
    "mailboxes ?k1 = mailboxes k" "mqs ?k1 = mqs k" by (simp_all add: rt_timer_remove_def)
  show ?thesis
  proof (cases t)
    case (ThreadTimer i)
    have st: "tstat k i = RT_THREAD_SUSPEND" using timer_invD(5) [OF ti] t ThreadTimer by simp
    have out: "ThreadTimer i \<notin> set (rt_timer_list ?k1)" using timer_invD(1) [OF ti] ThreadTimer by simp
    have tok: "thread_timer_ok k i" using timer_invD(6) [OF ti] st by simp
    have m1: "moves {i} k ?k1"
      by (rule timer_only_moves) (use fr in \<open>auto simp: ThreadTimer in_set_remove1\<close>)
    have "rt_scheduler_lock_nest ?k1 = 0" "tstat ?k1 i = RT_THREAD_SUSPEND" using d(2) fr st by simp_all
    from timeout_moves [OF tick_readyD(1) [OF r1] s1 this out] obtain k2 where
      k2: "rt_thread_timeout i ?k1 = Some k2" "settled k2" "moves {} ?k1 k2" "runnable k2 i"
        "mailboxes k2 = mailboxes ?k1" "mqs k2 = mqs ?k1" by (auto elim: returnsE)
    obtain c where c: "rt_current_thread ?k1 = Some c" using tick_readyD(3) [OF r1] by blast
    have o2: "objs k2 = objs ?k1"
      using rt_thread_timeout_spec [OF tick_readyD(1) [OF r1] c \<open>tstat ?k1 i = RT_THREAD_SUSPEND\<close> out] k2(1)
      by (auto elim: returnsE)
    then have e: "k' = clear_activated t k2"
      using f tok k2(1) ThreadTimer
      by (simp add: timer_fire_def call_timeout_func_def thread_timer_ok_def Let_def)
    have "moves {i} k k2" using moves_trans [OF m1 k2(3)] by simp
    then have "moves {} k k2" using moves_shrink k2(4) by blast
    then have m: "moves {} k k'" using moves_trans [OF _ clear_moves(1)] e by (metis Un_absorb)
    moreover have "settled k'" using k2(2) e clear_moves(2) by simp
    moreover have "mailboxes k' = mailboxes k" "mqs k' = mqs k"
      using k2(5,6) fr e by (simp_all add: clear_activated_def kdefs)
    ultimately show ?thesis using steady_moves [OF k m _ ready] by simp
  next
    case (Timer n)
    obtain g p where g: "timeout_func (timers k t) = User_timeout g p"
      using kk(2) t Timer unfolding timers_sane_def by blast
    have m1: "moves {} k ?k1" by (rule timer_only_moves) (use fr in \<open>auto simp: Timer in_set_remove1\<close>)
    have k1: "steady idle ?k1" by (rule steady_moves [OF k m1 _ r1 s1]) (simp_all add: fr)
    obtain k2 where k2: "cb g p ?k1 = Some k2"
        "k' = clear_activated t k2 \<or> (\<exists>x. rt_timer_start t (clear_activated t k2) = Some (x, k'))"
      using f g by (auto simp: timer_fire_def call_timeout_func_def Let_def bind_eq_Some_conv split: if_splits)
    have s2: "steady idle k2" "moves {} ?k1 k2" using cb(2) k1 k2(1) unfolding cb_steady_def by blast+
    let ?k3 = "clear_activated t k2"
    have m3: "moves {} k2 ?k3" "settled ?k3" using clear_moves steadyD(3) [OF s2(1)] by simp_all
    have "moves {} ?k3 k' \<and> settled k' \<and> mailboxes k' = mailboxes k2 \<and> mqs k' = mqs k2"
      using k2(2)
    proof
      assume "k' = ?k3"
      with m3(2) show ?thesis by (simp add: clear_activated_def kdefs)
    next
      assume "\<exists>x. rt_timer_start t ?k3 = Some (x, k')"
      then have "k' = started t ?k3"
        using rt_timer_start_eq [of t ?k3] by (auto simp: rt_timer_start_def rt_assert_def bind_eq_Some_conv Let_def
            kdefs rt_timer_remove_def split: if_splits)
      moreover have "moves {} ?k3 (started t ?k3)"
        by (rule timer_only_moves) (auto simp: started_def in_set_remove1 Timer)
      moreover have "settled (started t ?k3)"
        by (rule settled_cong [OF m3(2)]) (simp_all add: started_def)
      ultimately show ?thesis by (simp add: started_def clear_activated_def kdefs)
    qed
    then have k': "moves {} ?k3 k'" "settled k'" "mailboxes k' = mailboxes k2" "mqs k' = mqs k2" by simp_all
    have m2: "moves {} k2 k'" using moves_trans [OF m3(1) k'(1)] by simp
    have "steady idle k'" by (rule steady_moves [OF s2(1) m2 _ ready k'(2-4)]) simp
    moreover have "moves {} k k'" using moves_trans [OF moves_trans [OF m1 s2(2)] m2] by simp
    ultimately show ?thesis ..
  qed
qed

lemma timer_check_steady:
  assumes "steady idle k" and "timer_check_loop cb (rt_tick k) k = Some k'" and cb: "cb_ok cb" "cb_steady idle cb"
  shows "steady idle k' \<and> moves {} k k'"
  using assms(1,2)
proof (induction "card (due_timers k)" arbitrary: k rule: less_induct)
  case less
  note d = steadyD [OF less.prems(1)]
  show ?case
  proof (cases "\<exists>t ts. rt_timer_list k = t # ts \<and> is_due k t")
    case False
    then have "k' = k"
      using less.prems(2) by (subst (asm) timer_check_loop.simps) (auto simp: is_due_def split: list.splits)
    with less.prems(1) show ?thesis by simp
  next
    case True
    then obtain t ts where t: "rt_timer_list k = t # ts" "is_due k t" by blast
    then have mem: "t \<in> set (rt_timer_list k)" by simp
    obtain k1 where k1: "timer_fire cb t k = Some k1" "fired t k k1"
      using fire_spec [OF d(1) mem cb(1)] by (auto elim: returnsE)
    have sub: "due_timers k1 \<subseteq> due_timers k - {t}" and tick: "rt_tick k1 = rt_tick k"
      using k1(2) by (simp_all add: fired_def)
    have "card (due_timers k1) < card (due_timers k)"
      by (rule psubset_card_mono) (use sub t mem in \<open>auto simp: due_timers_def\<close>)
    moreover have "timer_check_loop cb (rt_tick k1) k1 = Some k'"
      using less.prems(2) t k1(1) tick
      by (subst (asm) timer_check_loop.simps) (simp add: is_due_def rt_tick_get_def)
    moreover note s = fire_steady [OF less.prems(1) mem cb k1(1)]
    ultimately have "steady idle k' \<and> moves {} k1 k'" using less.hyps by blast
    then show ?thesis using s moves_trans [of "{}" k k1 "{}" k'] by simp
  qed
qed


lemma tick_pre_steady:
  assumes k: "sound idle k"
  shows "returns (tick_pre k) (\<lambda>k'. steady idle k' \<and> moves {} k k')"
proof -
  note d = soundD [OF k]
  have sk: "tick_ready k" using k by (simp add: sound_def steady_def)
  from tick_pre_spec [OF sk d(3)] obtain k' where k': "tick_pre k = Some k'" "tick_ready k'" by (auto elim: returnsE)
  obtain t where t: "rt_current_thread k = Some t" using d(8) by blast
  let ?k1 = "k\<lparr>rt_tick := rt_tick k + 1\<rparr>"
  let ?k2 = "upd_thread t (\<lambda>x. x\<lparr>remaining_tick := remaining_tick x - 1\<rparr>) ?k1"
  let ?k3 = "upd_thread t (\<lambda>x. x\<lparr>remaining_tick := init_tick x\<rparr>) ?k2"
  have k2: "kinv ?k2" by (rule kinv_upd_thread [OF kinv_tick [OF d(1,3)]]) simp_all
  have k3: "kinv ?k3" by (rule kinv_upd_thread [OF k2]) simp_all
  have m: "moves {} k ?k2" "moves {} k ?k3" by (simp_all add: moves_def runnable_def kdefs)
  have s2: "settled ?k2" by (rule settled_cong [OF d(5)]) (simp_all add: kdefs)
  have e: "tick_pre k = (if remaining_tick (threads ?k2 t) = 0 then rt_schedule ?k3 else Some ?k2)"
    using t by (simp add: tick_pre_def rt_thread_self_def rt_thread_yield_def Let_def bind_assoc)
  have "settled k' \<and> moves {} k k' \<and> mailboxes k' = mailboxes k \<and> mqs k' = mqs k"
  proof (cases "remaining_tick (threads ?k2 t) = 0")
    case False
    then have "k' = ?k2" using e k'(1) by simp
    with m s2 show ?thesis by (simp add: kdefs)
  next
    case True
    have "rt_current_thread ?k3 \<noteq> None" "rt_scheduler_lock_nest ?k3 = 0" "runnable ?k3 idle"
      using t d(4,6) by (auto simp: kdefs runnable_def)
    from rt_schedule_settles [OF k3 this] have "settled k'" "goes {} ?k3 k'"
      using e True k'(1) by (auto elim: returnsE)
    then show ?thesis using moves_trans [OF m(2), of "{}" k'] by (simp add: goes_def kdefs)
  qed
  then have "steady idle k' \<and> moves {} k k'"
    using steady_moves [of idle k "{}" k'] k k'(2) by (simp add: sound_def)
  with k'(1) show ?thesis by simp
qed

lemma rt_tick_increase_sound:
  assumes k: "sound idle k" and cb: "cb_ok cb" "cb_steady idle cb"
  shows "returns (rt_tick_increase cb k) (\<lambda>k'. sound idle k' \<and> moves {} k k')"
proof -
  from tick_pre_steady [OF k] obtain k1 where
    k1: "tick_pre k = Some k1" "steady idle k1" "moves {} k k1" by (auto elim: returnsE)
  from timer_check_loop_spec [OF steadyD(1) [OF k1(2)] cb(1)] obtain k' where
    k': "timer_check_loop cb (rt_tick k1) k1 = Some k'" "tick_ready k'" "due_timers k' = {}" by blast
  have s: "steady idle k'" "moves {} k1 k'" using timer_check_steady [OF k1(2) k'(1) cb] by simp_all
  have "timers_ahead k'"
    using k'(3) is_due_iff [OF kinvD(2) [OF tick_readyD(1) [OF k'(2)]]]
    by (auto simp: timers_ahead_def due_timers_def)
  moreover have "moves {} k k'" using moves_trans [OF k1(3) s(2)] by simp
  ultimately show ?thesis
    using k1(1) k'(1) s(1) by (simp add: rt_tick_increase_pre rt_timer_check_def rt_tick_get_def sound_def)
qed

end
