(* ===== verification/System.thy ===== *)
theory System
  imports Tick_Steady
begin

text \<open>
  The kernel as a transition system: threads make calls, calls that waited go on, the clock
  ticks, and interrupts post to objects. A step is a function that fails when an assertion of
  the code fails, a list head would be taken for a thread or a loop does not end; \<open>permitted\<close>
  says which steps the environment takes. The locale is the interface between the system and
  the services it is composed of; its instances are the calls and the continuations.
\<close>

section \<open>Steps\<close>

text \<open>
  \<open>pend\<close> holds, for a thread inside a call that waits, the rest of the call and the time
  limit of the wait.
\<close>

record system =
  kern :: kernel
  pend :: "nat \<Rightarrow> (cont \<times> int) option"

datatype action = Call call | Resume | Tick | Irq call

definition settle :: "nat \<Rightarrow> int \<Rightarrow> outcome \<times> kernel \<Rightarrow> system \<Rightarrow> system" where
  "settle t time r s = s\<lparr>kern := snd r,
     pend := (pend s)(t := case fst r of Ret e v \<Rightarrow> None | Wait c \<Rightarrow> Some (c, limit time c))\<rparr>"

fun act :: "callback \<Rightarrow> action \<Rightarrow> system \<Rightarrow> system option" where
  "act cb (Call c) s = do {
     t \<leftarrow> rt_thread_self (kern s);
     rt_assert (pend s t = None);
     r \<leftarrow> exec c (kern s);
     Some (settle t (call_time c) r s)
   }"
| "act cb Resume s = do {
     t \<leftarrow> rt_thread_self (kern s);
     (c, time) \<leftarrow> pend s t;
     r \<leftarrow> continue t c (kern s);
     Some (settle t time r s)
   }"
| "act cb Tick s = do {
     k \<leftarrow> rt_tick_increase cb (rt_interrupt_enter (kern s));
     Some (s\<lparr>kern := rt_interrupt_leave k\<rparr>)
   }"
| "act cb (Irq c) s = do {
     (_, k) \<leftarrow> exec c (rt_interrupt_enter (kern s));
     Some (s\<lparr>kern := rt_interrupt_leave k\<rparr>)
   }"

text \<open>Calls an interrupt service routine may make: those that never wait.\<close>

fun posting :: "call \<Rightarrow> bool" where
  "posting (Sem_release s) = True"
| "posting (Event_send e st) = True"
| "posting (Mq_send m buffer) = True"
| "posting (Mq_urgent m buffer) = True"
| "posting _ = False"

definition permitted :: "nat \<Rightarrow> system \<Rightarrow> action \<Rightarrow> bool" where
  "permitted idle s a \<longleftrightarrow> (case a of
       Call c \<Rightarrow> (\<exists>t. rt_current_thread (kern s) = Some t \<and> t \<noteq> idle \<and> pend s t = None) \<and> call_ok (kern s) c
     | Resume \<Rightarrow> \<exists>t c time. rt_current_thread (kern s) = Some t \<and> pend s t = Some (c, time) \<and> in_time (kern s) c
     | Tick \<Rightarrow> True
     | Irq c \<Rightarrow> posting c \<and> call_ok (kern s) c)"

definition sys_ok :: "nat \<Rightarrow> system \<Rightarrow> bool" where
  "sys_ok idle s \<longleftrightarrow> sound idle (kern s) \<and> rt_interrupt_nest (kern s) = 0 \<and> pend s idle = None \<and>
     (\<forall>t c time. pend s t = Some (c, time) \<longrightarrow> cont_ok (kern s) c \<and>
        (0 < time \<and> tstat (kern s) t = RT_THREAD_SUSPEND \<longrightarrow> ThreadTimer t \<in> set (rt_timer_list (kern s))))"

inductive reachable :: "callback \<Rightarrow> nat \<Rightarrow> system \<Rightarrow> system \<Rightarrow> bool" for cb idle s0 where
  reach_init: "reachable cb idle s0 s0"
| reach_step: "reachable cb idle s0 s \<Longrightarrow> permitted idle s a \<Longrightarrow> act cb a s = Some s' \<Longrightarrow> reachable cb idle s0 s'"

section \<open>The contract of a call, and what follows for the system\<close>

lemma cont_ok_moves:
  assumes "cont_ok k c" and "moves A k k'"
  shows "cont_ok k' c"
  using assms by (cases c) (auto simp: moves_def is_mailbox_def is_mq_def rt_object_get_type_def)

text \<open>
  A part of the kernel that answers calls: called by a thread other than the idle thread in
  a sound state, it returns, and what it does is what \<open>served\<close> allows.
\<close>

locale kernel_service =
  fixes idle :: nat and time :: int and pre :: "kernel \<Rightarrow> bool"
    and run :: "nat \<Rightarrow> kernel \<Rightarrow> (outcome \<times> kernel) option"
  assumes serves: "sound idle k \<Longrightarrow> rt_current_thread k = Some t \<Longrightarrow> t \<noteq> idle \<Longrightarrow>
    rt_interrupt_nest k = 0 \<Longrightarrow> pre k \<Longrightarrow> returns (run t k) (served idle t time k)"
begin

lemma step:
  assumes s: "sys_ok idle s" and t: "rt_current_thread (kern s) = Some t" "t \<noteq> idle" and p: "pre (kern s)"
  shows "returns (run t (kern s)) (\<lambda>r. sys_ok idle (settle t time r s))"
proof -
  let ?k = "kern s"
  have k: "sound idle ?k" and nest: "rt_interrupt_nest ?k = 0" and idle: "pend s idle = None"
    and w: "\<And>u c time. pend s u = Some (c, time) \<Longrightarrow> cont_ok ?k c \<and>
      (0 < time \<and> tstat ?k u = RT_THREAD_SUSPEND \<longrightarrow> ThreadTimer u \<in> set (rt_timer_list ?k))"
    using s by (auto simp: sys_ok_def)
  from serves [OF k t nest p] obtain r where r: "run t ?k = Some r" "served idle t time ?k r"
    by (elim returnsE)
  have m: "moves {t} ?k (snd r)" and k': "sound idle (snd r)"
    using r(2) by (simp_all add: served_def)
  have other: "cont_ok (snd r) c \<and> (0 < tm \<and> tstat (snd r) u = RT_THREAD_SUSPEND \<longrightarrow>
      ThreadTimer u \<in> set (rt_timer_list (snd r)))" if "pend s u = Some (c, tm)" "u \<noteq> t" for u c tm
    using w [OF that(1)] m that(2) cont_ok_moves [OF _ m] by (simp add: moves_def)
  have own: "cont_ok (snd r) c \<and> (0 < limit time c \<longrightarrow> ThreadTimer t \<in> set (rt_timer_list (snd r)))"
    if "fst r = Wait c" for c
    using r(2) that by (simp add: served_def)
  have "sys_ok idle (settle t time r s)"
    using k' m nest idle t(2) other own
    by (auto simp: sys_ok_def settle_def moves_def split: outcome.splits if_splits)
  with r(1) show ?thesis by simp
qed

end

interpretation calls: kernel_service idle "call_time c" "\<lambda>k. call_ok k c" "\<lambda>t. exec c" for idle c
  by unfold_locales (rule exec_served)

interpretation waits: kernel_service idle time "\<lambda>k. cont_ok k c \<and> in_time k c" "\<lambda>t. continue t c" for idle time c
  by unfold_locales (auto intro: continue_served)

section \<open>Interrupts\<close>

lemma sound_nest: "sound idle (k\<lparr>rt_interrupt_nest := n\<rparr>) = sound idle k"
proof -
  have s: "sched_inv (k\<lparr>rt_interrupt_nest := n\<rparr>) = sched_inv k" by (rule sched_inv_cong) simp_all
  have t: "timer_inv (k\<lparr>rt_interrupt_nest := n\<rparr>) = timer_inv k"
    by (simp add: timer_inv_def live_def thread_timer_ok_def rt_object_get_type_def)
  show ?thesis
    by (simp add: sound_def steady_def tick_ready_def kinv_def s t timers_sane_def timers_ahead_def
        settled_def runnable_def objects_ok_def is_sem_def is_event_def is_mailbox_def is_mq_def
        rt_object_get_type_def)
qed

lemma interrupt_ok:
  assumes s: "sys_ok idle s" and k: "sound idle k" and m: "moves {} (rt_interrupt_enter (kern s)) k"
  shows "sys_ok idle (s\<lparr>kern := rt_interrupt_leave k\<rparr>)"
proof -
  have n: "rt_interrupt_nest k = 1"
    using m s by (simp add: moves_def rt_interrupt_enter_def sys_ok_def)
  have m': "moves {} (kern s) (rt_interrupt_leave k)"
    using m by (simp add: moves_def rt_interrupt_enter_def rt_interrupt_leave_def runnable_def n)
  have "cont_ok (rt_interrupt_leave k) c \<and> (0 < time \<and> tstat (rt_interrupt_leave k) t = RT_THREAD_SUSPEND \<longrightarrow>
      ThreadTimer t \<in> set (rt_timer_list (rt_interrupt_leave k)))" if "pend s t = Some (c, time)" for t c time
    using s that cont_ok_moves [OF _ m', of c] m' by (simp add: sys_ok_def moves_def)
  then show ?thesis
    using s k n sound_nest by (simp add: sys_ok_def rt_interrupt_leave_def)
qed

lemma moves_both: "moves {a} k k' \<Longrightarrow> moves {b} k k' \<Longrightarrow> a \<noteq> b \<Longrightarrow> moves {} k k'"
  unfolding moves_def by (metis singletonD)

lemma posting_served:
  assumes "sound idle k" and "posting c" and "call_ok k c"
  shows "returns (exec c k) (\<lambda>r. sound idle (snd r) \<and> moves {} k (snd r))"
proof -
  have "returns (exec c k) (served idle t 0 k)" for t
    using assms by (cases c) (simp_all add: sem_release_served event_send_served mq_send_served)
  then have "returns (exec c k) (\<lambda>r. served idle 0 0 k r \<and> served idle 1 0 k r)"
    unfolding returns_def by (metis option.inject)
  then show ?thesis
    by (rule returns_mono) (use moves_both [of 0 _ _ 1] in \<open>auto simp: served_def\<close>)
qed


section \<open>The kernel never gets stuck\<close>

lemma act_ok:
  assumes s: "sys_ok idle s" and cb: "cb_ok cb" "cb_steady idle cb" and p: "permitted idle s a"
  shows "returns (act cb a s) (sys_ok idle)"
proof (cases a)
  case (Call c)
  with p obtain t where t: "rt_current_thread (kern s) = Some t" "t \<noteq> idle" "pend s t = None" "call_ok (kern s) c"
    by (auto simp: permitted_def)
  from calls.step [OF s t(1,2), of c] t show ?thesis
    by (auto simp: Call rt_thread_self_def elim!: returnsE)
next
  case Resume
  with p obtain t c time where t: "rt_current_thread (kern s) = Some t" "pend s t = Some (c, time)" "in_time (kern s) c"
    by (auto simp: permitted_def)
  then have "t \<noteq> idle" "cont_ok (kern s) c" using s by (auto simp: sys_ok_def)
  with waits.step [OF s t(1), of c time] t show ?thesis
    by (auto simp: Resume rt_thread_self_def elim!: returnsE)
next
  case Tick
  have "sound idle (rt_interrupt_enter (kern s))"
    using s sound_nest by (simp add: sys_ok_def rt_interrupt_enter_def)
  from rt_tick_increase_sound [OF this cb] interrupt_ok [OF s] show ?thesis
    by (auto simp: Tick elim!: returnsE)
next
  case (Irq c)
  have "sound idle (rt_interrupt_enter (kern s))" "call_ok (rt_interrupt_enter (kern s)) c" "posting c"
    using s sound_nest p by (cases c; simp add: sys_ok_def rt_interrupt_enter_def permitted_def Irq
      is_sem_def is_event_def is_mq_def rt_object_get_type_def)+
  from posting_served [OF this(1,3,2)] interrupt_ok [OF s] show ?thesis
    by (auto simp: Irq elim!: returnsE)
qed

text \<open>
  C1. From a sound state, and for every sequence of calls by the running threads, resumed
  waits, clock ticks and interrupts, each with arguments the code accepts and with timeout
  functions that keep their contract: the invariants of the kernel and of its objects hold,
  a thread that can run and whose priority nobody exceeds is the running one, a thread that
  waits for a limited time has its timer pending, and every permitted step returns (no
  assertion fails, no list head is taken for a thread, no loop runs forever) in such a state.
\<close>

theorem kernel_never_stuck:
  assumes ok: "sys_ok idle s0" and cb: "cb_ok cb" "cb_steady idle cb" and r: "reachable cb idle s0 s"
  shows "kinv (kern s) \<and> objects_ok (kern s) \<and>
    (\<exists>c. rt_current_thread (kern s) = Some c \<and> tstat (kern s) c = RT_THREAD_RUNNING \<and>
       (\<forall>v. runnable (kern s) v \<longrightarrow> tprio (kern s) c \<le> tprio (kern s) v)) \<and>
    (\<forall>t c time. pend s t = Some (c, time) \<and> 0 < time \<and> tstat (kern s) t = RT_THREAD_SUSPEND \<longrightarrow>
       ThreadTimer t \<in> set (rt_timer_list (kern s))) \<and>
    (\<forall>a. permitted idle s a \<longrightarrow> (\<exists>s'. act cb a s = Some s' \<and> sys_ok idle s'))"
proof -
  from r have s: "sys_ok idle s"
  proof induction
    case (reach_step s a s')
    from act_ok [OF reach_step.IH cb reach_step.hyps(2)] reach_step.hyps(3) show ?case
      by (auto elim: returnsE)
  qed (rule ok)
  then have "sound idle (kern s)" by (simp add: sys_ok_def)
  moreover have "\<exists>s'. act cb a s = Some s' \<and> sys_ok idle s'" if "permitted idle s a" for a
    using act_ok [OF s cb that] by (auto elim: returnsE)
  ultimately show ?thesis
    using s soundD [of idle "kern s"] by (auto simp: settled_def sys_ok_def)
qed

text \<open>
  The example: thread 0 is the idle thread, thread 1 runs; the mailboxes and message queues
  are empty and the timeout functions do nothing but count.
\<close>

definition example_system :: system where
  "example_system = \<lparr>kern = example_kernel\<lparr>mailboxes := (\<lambda>_. \<lparr>msg_pool = [0, 0], mb_size = 2, mb_entry = 0,
     in_offset = 0, out_offset = 0\<rparr>), mqs := (\<lambda>_. example_pool)\<rparr>, pend = (\<lambda>_. None)\<rparr>"

lemma example_system_ok: "sys_ok 0 example_system"
proof -
  let ?k = "kern example_system"
  have sel: "threads ?k = threads example_kernel" "objs ?k = example_objs" "rt_timer_list ?k = [ThreadTimer 3]"
    "timers ?k = timers example_kernel" "rt_tick ?k = 0" "rt_current_thread ?k = Some 1"
    "rt_scheduler_lock_nest ?k = 0" "rt_interrupt_nest ?k = 0"
    "mailboxes ?k m = \<lparr>msg_pool = [0, 0], mb_size = 2, mb_entry = 0, in_offset = 0, out_offset = 0\<rparr>"
    "mqs ?k m = example_pool" "pend example_system t = None" for m t
    by (simp_all add: example_system_def)
  have "kinv ?k" using kinv_example by (simp add: example_system_def)
  moreover have "timers_sane ?k" "timers_ahead ?k"
    by (simp_all add: timers_sane_def timers_ahead_def sel example_objs_def)
  moreover have "settled ?k"
    by (auto simp: settled_def runnable_def sel split: if_splits)
  moreover have "objects_ok ?k"
    using example_pool_quiet by (simp add: objects_ok_def sel mb_inv_def example_objs_def)
  moreover have "runnable ?k 0" by (simp add: runnable_def sel)
  ultimately show ?thesis
    by (simp add: sys_ok_def sound_def steady_def tick_ready_def sel)
qed

lemma example_cb_steady: "cb_steady idle example_cb"
proof -
  have "steady idle k' \<and> moves {} k k'" if s: "steady idle k" and e: "example_cb n p k = Some k'" for n p k k'
  proof -
    have k': "k' = upd_thread 0 (\<lambda>x. x\<lparr>user_data := user_data x + p\<rparr>) k" using e by (simp add: example_cb_def)
    note d = steadyD [OF s]
    have m: "moves {} k k'" unfolding k' using goes_upd_thread [of "\<lambda>x. x\<lparr>user_data := user_data x + p\<rparr>"]
      by (simp add: goes_def)
    have "kinv k'" unfolding k' by (rule kinv_upd_thread [OF tick_readyD(1) [OF d(1)]]) simp_all
    then have "tick_ready k'" using tick_readyD(2,3) [OF d(1)]
      by (simp add: tick_ready_def timers_sane_def k' kdefs)
    moreover have "settled k'" unfolding k' by (rule settled_cong [OF d(3)]) (simp_all add: kdefs)
    ultimately show ?thesis using steady_moves [OF s m] m by (simp add: k' kdefs)
  qed
  then show ?thesis unfolding cb_steady_def by blast
qed

theorem kernel_never_stuck_witness:
  "\<exists>s1 s2. act example_cb (Call (Sleep 1)) example_system = Some s1 \<and> act example_cb Tick s1 = Some s2 \<and>
     kinv (kern s2) \<and> rt_current_thread (kern s2) \<noteq> None"
proof -
  note c = kernel_never_stuck [OF example_system_ok example_cb_ok example_cb_steady]
  have "permitted 0 example_system (Call (Sleep 1))"
    by (simp add: permitted_def example_system_def)
  then obtain s1 where s1: "act example_cb (Call (Sleep 1)) example_system = Some s1"
    using c [OF reach_init] by blast
  with \<open>permitted 0 example_system _\<close> have r1: "reachable example_cb 0 example_system s1"
    using reach_step [OF reach_init] by blast
  have p: "permitted 0 s1 Tick" by (simp add: permitted_def)
  then obtain s2 where s2: "act example_cb Tick s1 = Some s2" using c [OF r1] by blast
  from c [OF reach_step [OF r1 p s2]] s1 s2 show ?thesis by blast
qed

end
