(* ===== verification/Spec2Isabelle.thy ===== *)
theory Spec2Isabelle
  imports Memops Mutex Mempool Ringbuffer Ringblk Heap Idle Dataqueue Console Workqueue System
begin

text \<open>
  The RT-Thread 4.0.0 kernel and its serial driver, as configured for the Cortex-M3 board.

  The repository holds a Cortex-M3 system on a chip (Verilog, tool outputs) and the software that runs on
  it. The program proper is RT-Thread, under \<^verbatim>\<open>src/rt-thread-4.0.0\<close> (all file names below are relative to
  it), in the configuration of \<^verbatim>\<open>bsp/stm32f10x/rtconfig.h\<close>: one processor, 32 priorities, the small heap of
  \<^verbatim>\<open>src/mem.c\<close>, hard timers only, device drivers with POSIX files, the serial driver with DMA, one serial
  port. Hooks of the kernel are unset. This development models that kernel and the way up to the
  application through the device layer and the serial driver, and proves what makes each part correct.
\<close>

text \<open>
  How the parts interact.

  Threads, timers, semaphores and all other objects are registered by class and name
  (\<^verbatim>\<open>src/object.c\<close>) and linked by intrusive lists (\<^verbatim>\<open>include/rtservice.h\<close>). The scheduler keeps a ready list per
  priority and a bitmap of the priorities that have a ready thread. A thread that waits is taken off its ready
  list, joins the wait list of an object and arms its own timer; either the object wakes it
  (\<^verbatim>\<open>rt_ipc_list_resume\<close>) or the tick does (\<^verbatim>\<open>rt_timer_check\<close> calls \<^verbatim>\<open>rt_thread_timeout\<close>). The heap, the memory
  pools, the mailboxes, the queues, the completions and the wait queues are clients of this mechanism. A device is an
  object with function pointers; the serial driver sits between the device layer and the chip functions of
  the board and talks to sleeping threads from its interrupt.
\<close>

text \<open>
  The theories, in the order of the imports.

  Base. \<open>RT_Prelude\<close>: integer types at their width, the option monad with the predicate \<open>returns\<close> and its rules.
  \<open>Rt_List\<close>, \<open>Rt_SList\<close>: the list routines at pointer level, refined by sequences. \<open>Kservice\<close>: find-first-set and
  string routines; \<open>Memops\<close>: \<^verbatim>\<open>rt_memcpy\<close>, \<^verbatim>\<open>rt_memmove\<close>, \<^verbatim>\<open>rt_memset\<close>, \<^verbatim>\<open>rt_memcmp\<close> on a byte-addressed memory;
  \<open>Kstring\<close>: the other string routines and aligned allocation; \<open>Kprintf\<close>: \<^verbatim>\<open>rt_vsnprintf\<close> and its callers, the format
  and string arguments as lists of characters, the arguments as a list of values; all of \<^verbatim>\<open>src/kservice.c\<close>.
  \<open>Fifo\<close>, \<open>Alloc\<close>: the interfaces of a bounded queue and of an allocator.

  Kernel. \<open>Kernel_State\<close>: the structs of \<^verbatim>\<open>include/rtdef.h\<close> as records and all globals in one record \<open>kernel\<close>;
  \<open>Kobject\<close>: \<^verbatim>\<open>src/object.c\<close>; \<open>Sched\<close>: \<^verbatim>\<open>src/scheduler.c\<close>; \<open>Ktimer\<close>: \<^verbatim>\<open>src/timer.c\<close>; \<open>Kthread\<close>: \<^verbatim>\<open>src/thread.c\<close> and
  the first stack frame of \<^verbatim>\<open>libcpu/arm/cortex-m3/cpuport.c\<close>; \<open>Clock\<close>: \<^verbatim>\<open>src/clock.c\<close>, \<^verbatim>\<open>src/irq.c\<close> and the part of
  \<^verbatim>\<open>src/timer.c\<close> that runs in the tick; \<open>Idle\<close>: \<^verbatim>\<open>src/idle.c\<close>.

  Interprocess communication, \<^verbatim>\<open>src/ipc.c\<close>. \<open>Ipc_Base\<close>: the wait lists; \<open>Semaphore\<close>, \<open>Mutex\<close>, \<open>Event\<close>, \<open>Mailbox\<close>;
  \<open>Mq_Pool\<close>, \<open>Mqueue\<close>: message queues, first the slots and links, then the calls.

  Memory. \<open>Mempool\<close>: \<^verbatim>\<open>src/mempool.c\<close>; \<open>Mem\<close>, \<open>Heap\<close>: \<^verbatim>\<open>src/mem.c\<close>, first the chain of blocks, then the calls with
  their semaphore.

  Drivers, \<^verbatim>\<open>components/drivers\<close>. \<open>Ringbuffer\<close>, \<open>Ringblk\<close>, \<open>Completion\<close>, \<open>Dataqueue\<close>, \<open>Waitqueue\<close>, \<open>Workqueue\<close>: the files of \<^verbatim>\<open>src\<close>
  of these names; \<open>Device\<close>: \<^verbatim>\<open>src/device.c\<close> of the kernel; \<open>Serial_Fifo\<close>, \<open>Serial\<close>: \<^verbatim>\<open>serial/serial.c\<close>; \<open>Usart\<close>:
  \<^verbatim>\<open>bsp/stm32f10x/drivers/usart.c\<close> and the chip functions of \<^verbatim>\<open>hyhwUart.c\<close>; \<open>Console\<close>: the console
  of \<^verbatim>\<open>src/kservice.c\<close> (\<^verbatim>\<open>rt_console_set_device\<close>, \<^verbatim>\<open>rt_kputs\<close>, \<^verbatim>\<open>rt_kprintf\<close>) on a device.

  Composition. \<open>Steady\<close>: the invariant of all objects between two calls; \<open>Calls\<close>: every call keeps it;
  \<open>Tick_Steady\<close>: so does the tick; \<open>System\<close>: the kernel as a transition system.
\<close>

text \<open>
  Conventions of the model.

  A function of the source is a HOL function of the same name from the state to \<open>(result \<times> state) option\<close>, or
  without \<open>option\<close> where nothing can fail. \<open>None\<close> stands for a failed \<^verbatim>\<open>RT_ASSERT\<close>, a call of a null pointer, an access
  outside an array, a list head taken for a thread, or a loop that does not end; error codes are values. Loops
  over lists are structural; loops that may not end are \<open>partial_function (option)\<close>, so that a theorem
  \<open>f x = Some y\<close> includes termination; there is no fuel. Integers have the width of the C type and wrap where the C code
  wraps; C \<open>int\<close> is \<open>int\<close> where the code stays in range, and \<open>rt_tick_from_millisecond\<close> writes out the overflow.

  A call that may block is cut where the thread gives the processor away: \<open>rt_sem_take\<close> returns
  either the result or the fact that the thread waits (\<open>outcome\<close>, \<open>wait_result\<close>), and
  \<open>rt_sem_take_resume\<close> is what it does when it runs again. What other threads do in between is an arbitrary change of the
  state. Between \<^verbatim>\<open>rt_hw_interrupt_disable\<close> and \<^verbatim>\<open>rt_hw_interrupt_enable\<close> on one processor nothing interferes; where
  the code leaves such a section and enters another one, and the order matters, the sections are definitions of
  their own (message queues in \<open>Mq_Pool\<close>, the receive buffer in \<open>Serial_Fifo\<close>, the DMA write in \<open>Serial\<close>).

  Code that is not in the repository or belongs to the application is a parameter: timeout functions, cleanup
  functions, hooks, callbacks of devices, the functions of a chip. Results of the heap that a constructor needs
  are arguments.
\<close>

text \<open>
  Interfaces and their interpretations.

  \<open>list_store\<close> (sequences of list operations) by the pointer routines; \<open>ready_queue\<close> by the ready lists of
  the scheduler; \<open>wait_list\<close> by the two orders of waiting, FIFO and priority; \<open>bounded_fifo\<close> by mailboxes and the ring
  buffer, and \<open>urgent_fifo\<close>, its extension, by the message queues; \<open>allocator\<close> by the memory pools, the heap and the
  ring block buffer; \<open>kernel_service\<close> by the calls of a thread and by the resumption of calls that
  waited; \<open>device_driver\<close> (what the functions of a driver may do to the device) by the serial driver on the
  chip functions of the board.
\<close>

text \<open>
  What is shown.

  Composition: from a sound state no sequence of calls, resumed calls, ticks and interrupts gets stuck, and in each
  state reached a thread of highest priority runs and every limited wait has its timer. Lists: the pointer
  routines act as sequence operations. Scheduler and timers: highest priority first, timers in the order of
  the time left across the wrap-around of the tick, each tick expires exactly what is due and wakes the threads whose
  time is up. IPC: the functional behaviour of each call on the branches its stated preconditions leave, errors included; FIFO order of
  mailboxes and message queues under every sequence of operations, and of the message slots under every interleaving of
  critical sections; \<^verbatim>\<open>rt_event_send\<close> equals a reference walk; deletion and reset wake every waiter. Memory: no block of
  a pool, the heap or a ring block buffer is handed out twice, the heap coalesces fully, the block and word loops of
  the memory routines equal the byte loop. Output: \<^verbatim>\<open>rt_vsnprintf\<close> stays in its buffer and stores the cut of the text
  that the format stands for, decimal numbers read back, and a line printed by \<^verbatim>\<open>rt_kprintf\<close> arrives on the wire. Drivers: ring buffer round trip, data queue, completion, the
  reference count of devices, the works of a work queue, the receive buffer of the serial driver as a queue of the latest bytes in both
  modes, and the way of a character from the interrupt to the reader that sleeps in the file.

  Some theorems state how the code fails, at concrete or general states that it reaches: a pool that resumes the head of
  an empty wait list, a data queue that overwrites, a mutex handed over without priority inheritance, the race of two DMA
  writes, and the serial port of the board, whose interrupt never reaches the framework.
\<close>

text \<open>
  Bounds in hypotheses, and why they are enough.

  Times are below half the range of the 32-bit tick (\<open>time_ok\<close>, \<open>RT_TICK_HALF\<close>), which the code itself
  asserts for timers. The data queue is correct while its 16-bit put index has not wrapped around, and a theorem
  shows what happens afterwards. A device is opened at most 255 times at once, the range of its counter. The
  receive buffer of the serial driver has at least two bytes, and in DMA mode at most 32768, beyond which the put
  index overflows. A formatted text and its format together are shorter than 2 to the power of 31, and the buffer plus
  the text does not reach the end of the address space: the code keeps counting addresses behind the end of its buffer. Buffers given to the memory routines do not wrap around the end of the address space. The
  length that \<^verbatim>\<open>rt_memcpy\<close> keeps in an \<^verbatim>\<open>int\<close>, that of \<^verbatim>\<open>_serial_int_rx\<close> and the counter of \<^verbatim>\<open>rt_list_len\<close> are natural numbers, which is
  exact for fewer than 2 gigabytes.
\<close>

text \<open>
  Not modelled.

  The context switch and the start-up code (assembly and linker sections): the switch is the change of
  \<open>rt_current_thread\<close>. \<^verbatim>\<open>rt_assert_handler\<close>, \<^verbatim>\<open>rt_show_version\<close> and \<^verbatim>\<open>_rt_errno\<close>. The release of the memory of a pool by
  \<^verbatim>\<open>rt_mp_delete\<close>, since the heap is not a part of the state of the kernel. An address inside the heap that is no block, given to
  \<^verbatim>\<open>rt_realloc\<close> or \<^verbatim>\<open>rt_free\<close>. Code that this configuration does not
  compile: memheap, slab, signals, SMP, soft timers, modules, termios. \<^verbatim>\<open>serial_fops_poll\<close> and the poll table of
  the file system. Of the board, \<^verbatim>\<open>rt_hw_usart_init\<close> (it reads through an uninitialised pointer) and the DMA interrupt. The
  shell, the file systems, the network stacks and the C library above the kernel, the vendor libraries below it, and the
  Verilog sources.
\<close>

end
